(* ===== verification/Gazelle_Prelude.thy ===== *)
theory Gazelle_Prelude
  imports Main "HOL-Library.Word" "HOL-Library.Monad_Syntax"
begin

text \<open>
  Shared vocabulary of the development: the machine integer types of the C code, addresses
  of heap objects, the theorem collections the component proofs are driven by, and generic
  facts on lists, maps and words that more than one component needs.
\<close>

unbundle bit_operations_syntax

section \<open>Types of the C code\<close>

type_synonym u8 = "8 word"
type_synonym u16 = "16 word"
type_synonym u32 = "32 word"
type_synonym u64 = "64 word"
type_synonym i32 = "32 word" \<comment> \<open>an \<open>int32_t\<close> kept as its 32 bits; \<open>sint\<close> reads it\<close>

text \<open>
  A pointer to a heap object is a natural number; a heap is a partial map from addresses to
  objects. A C null pointer is \<open>None\<close> of type \<open>addr option\<close>. An operation that dereferences
  an address outside its heap has the value \<open>None\<close> of an option type: the model's
  undefined behaviour.
\<close>

type_synonym addr = nat

named_theorems ring_law \<comment> \<open>what the ring operations do to the three segments\<close>
named_theorems table_law \<comment> \<open>what the hash table operations do to entries and chains\<close>
named_theorems frame \<comment> \<open>fields an operation leaves alone\<close>

section \<open>Words as counters\<close>

lemma unat_lt32: "unat (x :: u32) < 4294967296"
  using unsigned_less [of x, where ?'a = nat] by simp

lemma unat_plus_small:
  fixes a b :: "'w::len word"
  assumes "unat a + unat b < 2 ^ LENGTH('w)"
  shows "unat (a + b) = unat a + unat b"
  using assms by (simp add: unat_word_ariths)

lemma unat_minus_le:
  fixes a b :: "'w::len word"
  assumes "unat b \<le> unat a"
  shows "unat (a - b) = unat a - unat b"
  using assms by (simp add: unat_sub_if')

text \<open>The distance between two free-running counters survives a common advance.\<close>

lemma word_dist_advance:
  fixes a b n :: "'w::len word"
  assumes "unat (a - b) + unat n < 2 ^ LENGTH('w)"
  shows "unat (a + n - b) = unat (a - b) + unat n"
proof -
  have "a + n - b = (a - b) + n" by (simp add: algebra_simps)
  then show ?thesis using unat_plus_small [OF assms] by metis
qed

lemma word_dist_shrink:
  fixes a b n :: "'w::len word"
  assumes "unat n \<le> unat (a - b)"
  shows "unat (a - (b + n)) = unat (a - b) - unat n"
proof -
  have "a - (b + n) = (a - b) - n" by (simp add: algebra_simps)
  then show ?thesis using unat_minus_le [OF assms] by metis
qed

lemma word_plus_dist [simp]: "(b::'w::len word) + (a - b) = a"
  by simp

section \<open>Bounded counters of collections\<close>

lemma of_nat_Suc_word: "(word_of_nat (Suc n) :: 'w::len word) = word_of_nat n + 1"
  by simp

lemma word_of_nat_diff1: "0 < n \<Longrightarrow> (word_of_nat (n - 1) :: 'w::len word) = word_of_nat n - 1"
  by (cases n) simp_all

section \<open>Lists\<close>

lemma take_append_exact: "length xs = n \<Longrightarrow> take n (xs @ ys) = xs"
  by simp

lemma drop_append_exact: "length xs = n \<Longrightarrow> drop n (xs @ ys) = ys"
  by simp

lemma filter_remove1_False: "\<not> P x \<Longrightarrow> filter P (remove1 x xs) = filter P xs"
  by (induction xs) auto

lemma find_None_filter: "find P xs = None \<longleftrightarrow> filter P xs = []"
  by (induction xs) auto

lemma find_Some_split:
  "find P xs = Some x \<Longrightarrow> \<exists>ys zs. xs = ys @ x # zs \<and> P x \<and> (\<forall>y \<in> set ys. \<not> P y)"
proof (induction xs)
  case (Cons a xs)
  show ?case
  proof (cases "P a")
    case True
    with Cons.prems show ?thesis by (intro exI [of _ "[]"] exI [of _ xs]) simp
  next
    case False
    with Cons obtain ys zs where "xs = ys @ x # zs" "P x" "\<forall>y \<in> set ys. \<not> P y" by auto
    with False show ?thesis by (intro exI [of _ "a # ys"] exI [of _ zs]) simp
  qed
qed simp

lemma find_Some_in: "find P xs = Some x \<Longrightarrow> x \<in> set xs \<and> P x"
  by (auto dest: find_Some_split)

lemma sum_list_update_nat:
  "i < length xs \<Longrightarrow> sum_list (xs[i := (x::nat)]) + xs ! i = sum_list xs + x"
  by (induction xs arbitrary: i) (auto split: nat.splits)

end
