(* ===== verification/Fifo.thy ===== *)
theory Fifo
  imports Gazelle_Prelude
begin

text \<open>
  The contract every queue of the program promises its users, stated once: a queue has an
  abstract content (a list, oldest first); storing appends the accepted prefix of what was
  offered, fetching removes a prefix, and bookkeeping steps leave the content alone. The
  lockless RPC queue and the DPDK-style rings are instances; what a user may rely on
  over a whole run (no loss, no duplication, order kept) is proved here from the contract.
\<close>

text \<open>
  A run of a queue: \<open>ins\<close> collects what was accepted, \<open>outs\<close> what was fetched. The
  operations are arguments, so the relation serves every queue.
\<close>

inductive fifo_run ::
  "('s \<Rightarrow> 'a list \<Rightarrow> bool) \<Rightarrow> ('s \<Rightarrow> 'a list \<Rightarrow> nat \<times> 's) \<Rightarrow> ('s \<Rightarrow> nat \<Rightarrow> 'a list \<times> 's) \<Rightarrow>
   ('s \<Rightarrow> 's \<Rightarrow> bool) \<Rightarrow> 's \<Rightarrow> 'a list \<Rightarrow> 'a list \<Rightarrow> 's \<Rightarrow> bool"
  for adm put get tau where
  run_start: "fifo_run adm put get tau s [] [] s"
| run_put: "fifo_run adm put get tau s ins outs t \<Longrightarrow> adm t xs \<Longrightarrow> put t xs = (k, u) \<Longrightarrow>
     fifo_run adm put get tau s (ins @ take k xs) outs u"
| run_get: "fifo_run adm put get tau s ins outs t \<Longrightarrow> get t n = (ys, u) \<Longrightarrow>
     fifo_run adm put get tau s ins (outs @ ys) u"
| run_tau: "fifo_run adm put get tau s ins outs t \<Longrightarrow> tau t u \<Longrightarrow>
     fifo_run adm put get tau s ins outs u"

locale fifo =
  fixes inv :: "'s \<Rightarrow> bool"
    and contents :: "'s \<Rightarrow> 'a list"
    and adm :: "'s \<Rightarrow> 'a list \<Rightarrow> bool"
    and put :: "'s \<Rightarrow> 'a list \<Rightarrow> nat \<times> 's"
    and get :: "'s \<Rightarrow> nat \<Rightarrow> 'a list \<times> 's"
    and tau :: "'s \<Rightarrow> 's \<Rightarrow> bool"
  assumes put_law: "inv s \<Longrightarrow> adm s xs \<Longrightarrow> put s xs = (k, t) \<Longrightarrow>
      inv t \<and> contents t = contents s @ take k xs"
    and get_law: "inv s \<Longrightarrow> get s n = (ys, t) \<Longrightarrow> inv t \<and> contents s = ys @ contents t"
    and tau_law: "inv s \<Longrightarrow> tau s t \<Longrightarrow> inv t \<and> contents t = contents s"
begin

lemma run_conserves:
  assumes "fifo_run adm put get tau s ins outs t" and "inv s"
  shows "inv t \<and> contents s @ ins = outs @ contents t"
  using assms
proof (induction rule: fifo_run.induct)
  case (run_put s ins outs t xs k u)
  then show ?case using put_law [of t xs k u] by auto
next
  case (run_get s ins outs t n ys u)
  then show ?case using get_law [of t n ys u] by auto
next
  case (run_tau s ins outs t u)
  then show ?case using tau_law [of t u] by auto
qed simp

lemma run_prefix:
  assumes "fifo_run adm put get tau s ins outs t" and "inv s" and "contents s = []"
  shows "take (length outs) ins = outs"
proof -
  from run_conserves [OF assms(1,2)] assms(3) have "ins = outs @ contents t" by simp
  then show ?thesis by simp
qed

end

end
