(* ===== verification/Rte_Ring.thy ===== *)
theory Rte_Ring
  imports Fifo
begin

text \<open>
  The ring operations of \<open>src/common/dpdk_common.h\<close>: Gazelle's own cursors on DPDK's
  \<open>struct rte_ring\<close>. All four cursors are free-running 32-bit counters that wrap.

  The \<^emph>\<open>light\<close> ring is a plain single-producer/single-consumer queue between
  \<open>cons.tail\<close> and \<open>prod.tail\<close>. The other ring has three segments between the cursors
  \<open>cons.tail\<close>, \<open>prod.tail\<close>, \<open>prod.head\<close> and \<open>cons.head\<close>: objects handed over and not yet
  taken back, objects being filled by the reader, and objects lent and untouched. One thread
  enqueues and dequeues; the other thread only reads objects in place.
\<close>

section \<open>The ring of DPDK\<close>

text \<open>
  The fields of \<open>struct rte_ring\<close> the code uses. The object table behind the header is
  \<open>ring_tbl\<close>. The two copy macros \<open>__rte_ring_enqueue_elems\<close> and
  \<open>__rte_ring_dequeue_elems\<close> belong to DPDK, which is not in the repository: they are
  a parameter, of which \<open>elems_ok\<close> states the documented behaviour the code relies on.
\<close>

record 'a rte_ring =
  prod_head :: u32
  prod_tail :: u32
  cons_head :: u32
  cons_tail :: u32
  capacity :: u32
  ring_size :: nat
  ring_tbl :: "nat \<Rightarrow> 'a"

record 'a ring_elems =
  enqueue_elems :: "nat \<Rightarrow> (nat \<Rightarrow> 'a) \<Rightarrow> u32 \<Rightarrow> 'a list \<Rightarrow> (nat \<Rightarrow> 'a)"
  dequeue_elems :: "nat \<Rightarrow> (nat \<Rightarrow> 'a) \<Rightarrow> u32 \<Rightarrow> u32 \<Rightarrow> 'a list"

text \<open>Slot of the \<open>k\<close>-th object at cursor \<open>i\<close> of a ring whose size is a power of two.\<close>

definition slot :: "nat \<Rightarrow> u32 \<Rightarrow> nat \<Rightarrow> nat" where
  "slot sz i k = (unat i + k) mod sz"

definition elems_ok :: "'a ring_elems \<Rightarrow> nat \<Rightarrow> bool" where
  "elems_ok E sz \<longleftrightarrow>
     (\<forall>t i n. dequeue_elems E sz t i n = map (\<lambda>k. t (slot sz i k)) [0..<unat n]) \<and>
     (\<forall>t i xs k. length xs \<le> sz \<longrightarrow> k < length xs \<longrightarrow>
        enqueue_elems E sz t i xs (slot sz i k) = xs ! k) \<and>
     (\<forall>t i xs j. length xs \<le> sz \<longrightarrow> (\<forall>k < length xs. j \<noteq> slot sz i k) \<longrightarrow>
        enqueue_elems E sz t i xs j = t j)"

section \<open>The operations\<close>

text \<open>
  Each returns the C result first. The object table argument of an enqueue is the list
  \<open>objs\<close>, of which the first \<open>n\<close> are stored.
\<close>

definition gazelle_light_ring_enqueue_busrt ::
  "'a ring_elems \<Rightarrow> 'a rte_ring \<Rightarrow> 'a list \<Rightarrow> u32 \<Rightarrow> u32 \<times> 'a rte_ring" where
  "gazelle_light_ring_enqueue_busrt E r objs n =
     (let cons = cons_tail r; prod = prod_tail r;
          free_entries = capacity r + cons - prod
      in if n > free_entries then (0, r)
         else (n, r\<lparr>ring_tbl := enqueue_elems E (ring_size r) (ring_tbl r) prod (take (unat n) objs),
                   prod_tail := prod + n\<rparr>))"

definition gazelle_light_ring_dequeue_burst ::
  "'a ring_elems \<Rightarrow> 'a rte_ring \<Rightarrow> u32 \<Rightarrow> u32 \<times> 'a list \<times> 'a rte_ring" where
  "gazelle_light_ring_dequeue_burst E r n =
     (let prod = prod_tail r; cons = cons_tail r;
          entries = prod - cons;
          n = (if n > entries then entries else n)
      in if n = 0 then (0, [], r)
         else (n, dequeue_elems E (ring_size r) (ring_tbl r) cons n, r\<lparr>cons_tail := cons + n\<rparr>))"

definition gazelle_ring_sp_enqueue ::
  "'a ring_elems \<Rightarrow> 'a rte_ring \<Rightarrow> 'a list \<Rightarrow> u32 \<Rightarrow> u32 \<times> 'a rte_ring" where
  "gazelle_ring_sp_enqueue E r objs n =
     (let head = cons_head r; tail = cons_tail r;
          entries = capacity r + tail - head
      in if n > entries then (0, r)
         else (n, r\<lparr>ring_tbl := enqueue_elems E (ring_size r) (ring_tbl r) head (take (unat n) objs),
                   cons_head := head + n\<rparr>))"

definition gazelle_ring_sc_dequeue ::
  "'a ring_elems \<Rightarrow> 'a rte_ring \<Rightarrow> u32 \<Rightarrow> u32 \<times> 'a list \<times> 'a rte_ring" where
  "gazelle_ring_sc_dequeue E r n =
     (let prod = prod_tail r; cons = cons_tail r;
          entries = prod - cons;
          n = (if n > entries then entries else n)
      in if n = 0 then (0, [], r)
         else (n, dequeue_elems E (ring_size r) (ring_tbl r) cons n, r\<lparr>cons_tail := cons + n\<rparr>))"

definition gazelle_ring_read ::
  "'a ring_elems \<Rightarrow> 'a rte_ring \<Rightarrow> u32 \<Rightarrow> u32 \<times> 'a list \<times> 'a rte_ring" where
  "gazelle_ring_read E r n =
     (let cons = cons_head r; prod = prod_head r;
          entries = cons - prod;
          n = (if n > entries then entries else n)
      in if n = 0 then (0, [], r)
         else (n, dequeue_elems E (ring_size r) (ring_tbl r) prod n, r\<lparr>prod_head := prod + n\<rparr>))"

definition gazelle_ring_read_over :: "'a rte_ring \<Rightarrow> 'a rte_ring" where
  "gazelle_ring_read_over r = r\<lparr>prod_tail := prod_head r\<rparr>"

definition gazelle_ring_readover_count :: "'a rte_ring \<Rightarrow> u32" where
  "gazelle_ring_readover_count r = prod_tail r - cons_tail r"

definition gazelle_ring_readable_count :: "'a rte_ring \<Rightarrow> u32" where
  "gazelle_ring_readable_count r = cons_head r - prod_head r"

definition gazelle_ring_count :: "'a rte_ring \<Rightarrow> u32" where
  "gazelle_ring_count r = cons_head r - cons_tail r"

definition gazelle_ring_free_count :: "'a rte_ring \<Rightarrow> u32" where
  "gazelle_ring_free_count r = capacity r - gazelle_ring_count r"

section \<open>The segments\<close>

definition window :: "'a ring_elems \<Rightarrow> 'a rte_ring \<Rightarrow> u32 \<Rightarrow> u32 \<Rightarrow> 'a list" where
  "window E r i n = dequeue_elems E (ring_size r) (ring_tbl r) i n"

definition filled :: "'a ring_elems \<Rightarrow> 'a rte_ring \<Rightarrow> 'a list" where
  "filled E r = window E r (cons_tail r) (prod_tail r - cons_tail r)"

definition in_read :: "'a ring_elems \<Rightarrow> 'a rte_ring \<Rightarrow> 'a list" where
  "in_read E r = window E r (prod_tail r) (prod_head r - prod_tail r)"

definition lent :: "'a ring_elems \<Rightarrow> 'a rte_ring \<Rightarrow> 'a list" where
  "lent E r = window E r (prod_head r) (cons_head r - prod_head r)"

definition ring_contents :: "'a ring_elems \<Rightarrow> 'a rte_ring \<Rightarrow> 'a list" where
  "ring_contents E r = filled E r @ in_read E r @ lent E r"

definition ring_shape :: "'a ring_elems \<Rightarrow> 'a rte_ring \<Rightarrow> bool" where
  "ring_shape E r \<longleftrightarrow> (\<exists>k \<le> 31. ring_size r = 2 ^ k) \<and> unat (capacity r) \<le> ring_size r \<and>
     elems_ok E (ring_size r)"

definition ring_inv :: "'a ring_elems \<Rightarrow> 'a rte_ring \<Rightarrow> bool" where
  "ring_inv E r \<longleftrightarrow> ring_shape E r \<and>
     unat (prod_tail r - cons_tail r) + unat (prod_head r - prod_tail r) +
     unat (cons_head r - prod_head r) = unat (cons_head r - cons_tail r) \<and>
     unat (cons_head r - cons_tail r) \<le> unat (capacity r)"

definition light_inv :: "'a ring_elems \<Rightarrow> 'a rte_ring \<Rightarrow> bool" where
  "light_inv E r \<longleftrightarrow> ring_shape E r \<and> unat (prod_tail r - cons_tail r) \<le> unat (capacity r)"

section \<open>Slots and windows\<close>

lemma slot_plus:
  assumes "sz dvd (2 ^ 32 :: nat)"
  shows "slot sz (i + n) k = slot sz i (unat n + k)"
proof -
  have "unat (i + n) mod sz = (unat i + unat n) mod sz"
    using assms by (simp add: unat_word_ariths mod_mod_cancel)
  then have "(unat (i + n) + k) mod sz = (unat i + unat n + k) mod sz"
    by (metis mod_add_left_eq)
  then show ?thesis by (simp add: slot_def add.assoc)
qed

lemma slot_inj:
  assumes "slot sz i k = slot sz i j" and "k < sz" and "j < sz"
  shows "k = j"
  using assms
proof (induction k j rule: linorder_wlog)
  case (le a b)
  then have "(unat i + b) mod sz = (unat i + a) mod sz" by (simp add: slot_def)
  then have "sz dvd (unat i + b) - (unat i + a)"
    using le(1) by (simp add: mod_eq_dvd_iff_nat)
  then have "sz dvd b - a" by simp
  with le(1,4) show ?case by (metis diff_diff_cancel diff_is_0_eq dvd_imp_le
        less_imp_diff_less linorder_not_less nat_neq_iff zero_less_diff)
qed simp

lemma ring_shapeD:
  assumes "ring_shape E r"
  shows "ring_size r dvd 2 ^ 32" and "ring_size r \<le> 2 ^ 31" and "0 < ring_size r"
    and "unat (capacity r) \<le> ring_size r" and "elems_ok E (ring_size r)"
proof -
  from assms obtain k where k: "k \<le> 31" "ring_size r = 2 ^ k" by (auto simp: ring_shape_def)
  show "ring_size r dvd 2 ^ 32" unfolding k(2) by (rule le_imp_power_dvd) (use k in simp)
  show "ring_size r \<le> 2 ^ 31" unfolding k(2) by (rule power_increasing) (use k in simp_all)
  show "0 < ring_size r" using k by simp
  show "unat (capacity r) \<le> ring_size r" "elems_ok E (ring_size r)"
    using assms by (auto simp: ring_shape_def)
qed

lemma window_map:
  "ring_shape E r \<Longrightarrow> window E r i n = map (\<lambda>k. ring_tbl r (slot (ring_size r) i k)) [0..<unat n]"
  using ring_shapeD(5) [of E r] by (simp add: window_def elems_ok_def)

lemma length_window [simp]: "ring_shape E r \<Longrightarrow> length (window E r i n) = unat n"
  by (simp add: window_map)

lemma window_0 [simp]: "ring_shape E r \<Longrightarrow> window E r i 0 = []"
  by (simp add: window_map)

lemma window_split:
  assumes "ring_shape E r" and "unat a + unat b < 2 ^ 32"
  shows "window E r i (a + b) = window E r i a @ window E r (i + a) b"
proof -
  let ?f = "\<lambda>k. ring_tbl r (slot (ring_size r) i k)"
  have "unat (a + b) = unat a + unat b" using assms(2) by (simp add: unat_plus_small)
  then have "window E r i (a + b) = map ?f [0..<unat a + unat b]"
    using assms(1) by (simp add: window_map)
  also have "\<dots> = map ?f [0..<unat a] @ map ?f [unat a..<unat a + unat b]"
    using upt_add_eq_append [of 0 "unat a" "unat b"] by simp
  also have "map ?f [unat a..<unat a + unat b] = map (\<lambda>k. ?f (unat a + k)) [0..<unat b]"
    by (rule nth_equalityI) simp_all
  also have "\<dots> = window E r (i + a) b"
    unfolding window_map [OF assms(1)] slot_plus [OF ring_shapeD(1) [OF assms(1)]] ..
  finally show ?thesis by (simp only: window_map [OF assms(1)])
qed

lemma window_diff_split:
  assumes "ring_shape E r" and "unat (b - a) + unat (c - b) = unat (c - a)"
  shows "window E r a (c - a) = window E r a (b - a) @ window E r b (c - b)"
proof -
  have "unat (b - a) + unat (c - b) < 2 ^ 32"
    using assms(2) unat_lt32 [of "c - a"] by simp
  from window_split [OF assms(1) this, of a] show ?thesis by simp
qed

definition store :: "'a ring_elems \<Rightarrow> 'a rte_ring \<Rightarrow> u32 \<Rightarrow> 'a list \<Rightarrow> nat \<Rightarrow> 'a" where
  "store E r h xs = enqueue_elems E (ring_size r) (ring_tbl r) h xs"

lemma store_slot:
  assumes "ring_shape E r" and "length xs \<le> ring_size r"
  shows "k < length xs \<Longrightarrow> store E r h xs (slot (ring_size r) h k) = xs ! k"
    and "(\<And>k. k < length xs \<Longrightarrow> j \<noteq> slot (ring_size r) h k) \<Longrightarrow> store E r h xs j = ring_tbl r j"
  using ring_shapeD(5) [OF assms(1)] assms(2) unfolding store_def elems_ok_def by blast+

lemma store_window_same:
  assumes "ring_shape E r" and "length xs = unat n" and "unat n \<le> ring_size r"
  shows "map (\<lambda>k. store E r h xs (slot (ring_size r) h k)) [0..<unat n] = xs"
  using assms by (intro nth_equalityI) (simp_all add: store_slot)

lemma store_window_other:
  assumes "ring_shape E r" and "unat m \<le> unat (h - i)"
    and "unat (h - i) + length xs \<le> ring_size r"
  shows "map (\<lambda>k. store E r h xs (slot (ring_size r) i k)) [0..<unat m] = window E r i m"
proof (unfold window_map [OF assms(1)], rule map_cong [OF refl])
  fix k assume "k \<in> set [0..<unat m]"
  then have k: "k < unat (h - i)" using assms(2) by simp
  have "slot (ring_size r) i k \<noteq> slot (ring_size r) h j" if j: "j < length xs" for j
  proof
    assume "slot (ring_size r) i k = slot (ring_size r) h j"
    also have "\<dots> = slot (ring_size r) i (unat (h - i) + j)"
      using slot_plus [OF ring_shapeD(1) [OF assms(1)], of i "h - i" j] by simp
    finally have "k = unat (h - i) + j"
      by (rule slot_inj) (use assms(3) k j in linarith)+
    with k show False by simp
  qed
  then show "store E r h xs (slot (ring_size r) i k) = ring_tbl r (slot (ring_size r) i k)"
    using assms(1,3) by (intro store_slot(2)) auto
qed

section \<open>The three-segment ring\<close>

lemma ring_invD:
  assumes "ring_inv E r"
  shows "ring_shape E r"
    and "unat (cons_head r - cons_tail r) = length (filled E r) + length (in_read E r) + length (lent E r)"
    and "unat (cons_head r - prod_tail r) = length (in_read E r) + length (lent E r)"
    and "unat (cons_head r - cons_tail r) \<le> unat (capacity r)"
    and "unat (capacity r) \<le> ring_size r"
    and "length (filled E r) = unat (prod_tail r - cons_tail r)"
    and "length (in_read E r) = unat (prod_head r - prod_tail r)"
    and "length (lent E r) = unat (cons_head r - prod_head r)"
proof -
  show sh: "ring_shape E r" using assms by (simp add: ring_inv_def)
  show f: "length (filled E r) = unat (prod_tail r - cons_tail r)"
    and i: "length (in_read E r) = unat (prod_head r - prod_tail r)"
    and l: "length (lent E r) = unat (cons_head r - prod_head r)"
    using sh by (simp_all add: filled_def in_read_def lent_def)
  show t: "unat (cons_head r - cons_tail r) = length (filled E r) + length (in_read E r) + length (lent E r)"
    using assms by (simp add: ring_inv_def f i l)
  show "unat (cons_head r - cons_tail r) \<le> unat (capacity r)" "unat (capacity r) \<le> ring_size r"
    using assms ring_shapeD(4) [OF sh] by (simp_all add: ring_inv_def)
  have "unat (prod_head r - prod_tail r) + unat (cons_head r - prod_head r) < 2 ^ 32"
    using t i l unat_lt32 [of "cons_head r - cons_tail r"] by simp
  then have "unat (prod_head r - prod_tail r + (cons_head r - prod_head r)) =
      unat (prod_head r - prod_tail r) + unat (cons_head r - prod_head r)"
    by (intro unat_plus_small) simp
  moreover have "prod_head r - prod_tail r + (cons_head r - prod_head r) = cons_head r - prod_tail r"
    by (simp add: algebra_simps)
  ultimately show "unat (cons_head r - prod_tail r) = length (in_read E r) + length (lent E r)"
    by (metis i l)
qed

lemma ring_contents_length:
  "ring_inv E r \<Longrightarrow> length (ring_contents E r) = unat (gazelle_ring_count r)"
  using ring_invD(2) [of E r] by (simp add: ring_contents_def gazelle_ring_count_def)

lemma ring_free_entries:
  assumes "ring_inv E r"
  shows "unat (capacity r + cons_tail r - cons_head r) = unat (capacity r) - length (ring_contents E r)"
    and "unat (gazelle_ring_free_count r) = unat (capacity r) - length (ring_contents E r)"
proof -
  have *: "capacity r + cons_tail r - cons_head r = capacity r - gazelle_ring_count r"
    by (simp add: gazelle_ring_count_def)
  have "unat (gazelle_ring_count r) \<le> unat (capacity r)"
    using ring_invD(4) [OF assms] by (simp add: gazelle_ring_count_def)
  then show "unat (gazelle_ring_free_count r) = unat (capacity r) - length (ring_contents E r)"
    by (simp add: gazelle_ring_free_count_def unat_minus_le ring_contents_length [OF assms])
  then show "unat (capacity r + cons_tail r - cons_head r) = unat (capacity r) - length (ring_contents E r)"
    by (simp add: * gazelle_ring_free_count_def)
qed

lemma enqueue_rejects:
  assumes "ring_inv E r" and "unat (capacity r) - length (ring_contents E r) < unat n"
  shows "gazelle_ring_sp_enqueue E r objs n = (0, r)"
  using assms ring_free_entries(1) [OF assms(1)]
  by (simp add: gazelle_ring_sp_enqueue_def word_less_nat_alt)

lemma enqueue_stores:
  assumes inv: "ring_inv E r" and room: "unat n \<le> unat (capacity r) - length (ring_contents E r)"
    and objs: "unat n \<le> length objs"
    and r': "gazelle_ring_sp_enqueue E r objs n = (k, r')"
  shows "k = n" and "ring_inv E r'" and "filled E r' = filled E r" and "in_read E r' = in_read E r"
    and "lent E r' = lent E r @ take (unat n) objs"
    and "capacity r' = capacity r"
proof -
  let ?xs = "take (unat n) objs" and ?h = "cons_head r"
  note D = ring_invD [OF inv]
  have cap: "unat (cons_head r - cons_tail r) + unat n \<le> unat (capacity r)"
    using room D(2,4) by (simp add: ring_contents_def)
  have "\<not> n > capacity r + cons_tail r - cons_head r"
    using room ring_free_entries(1) [OF inv] by (simp add: word_less_nat_alt)
  then have e: "k = n" "r' = r\<lparr>ring_tbl := store E r ?h ?xs, cons_head := ?h + n\<rparr>"
    using r' by (auto simp: gazelle_ring_sp_enqueue_def store_def Let_def)
  show "k = n" "capacity r' = capacity r" using e by simp_all
  have sh': "ring_shape E r'" using D(1) e by (simp add: ring_shape_def)
  have len: "length ?xs = unat n" using objs by simp
  have w: "window E r' i m = map (\<lambda>k. store E r ?h ?xs (slot (ring_size r) i k)) [0..<unat m]" for i m
    using window_map [OF sh'] e by simp
  have sz: "unat n \<le> ring_size r" and cs: "unat (cons_head r - cons_tail r) + unat n < 2 ^ 32"
    using cap D(5) unat_lt32 [of "capacity r"] by simp_all
  show "filled E r' = filled E r"
    unfolding filled_def w using e len D cap
    by (subst store_window_other [OF D(1)]) (simp_all add: filled_def)
  show "in_read E r' = in_read E r"
    unfolding in_read_def w using e len D cap
    by (subst store_window_other [OF D(1)]) (simp_all add: in_read_def)
  have n1: "unat (?h + n - prod_head r) = unat (?h - prod_head r) + unat n"
    using cs D by (intro word_dist_advance) simp
  have "lent E r' = window E r' (prod_head r) ((?h - prod_head r) + n)"
    using e by (simp add: lent_def algebra_simps)
  also have "\<dots> = window E r' (prod_head r) (?h - prod_head r) @ window E r' ?h n"
    using window_split [OF sh', of "?h - prod_head r" n "prod_head r"] n1
      unat_lt32 [of "?h + n - prod_head r"] by simp
  also have "window E r' (prod_head r) (?h - prod_head r) = lent E r"
    unfolding lent_def w using len D cap
    by (subst store_window_other [OF D(1)]) simp_all
  also have "window E r' ?h n = ?xs"
    unfolding w using store_window_same [OF D(1) len sz] .
  finally show "lent E r' = lent E r @ ?xs" .
  have "unat (?h + n - cons_tail r) = unat (?h - cons_tail r) + unat n"
    using cs by (intro word_dist_advance) simp
  then show "ring_inv E r'" using sh' inv e n1 cap by (simp add: ring_inv_def)
qed

lemma window_take:
  assumes "ring_shape E r" and "n \<le> d"
  shows "window E r i d = window E r i n @ window E r (i + n) (d - n)"
proof -
  have n: "unat n \<le> unat d" using assms(2) by (simp add: word_le_nat_alt)
  then have "unat (d - n) = unat d - unat n" by (rule unat_minus_le)
  then have "unat n + unat (d - n) < 2 ^ 32" using n unat_lt32 [of d] by simp
  from window_split [OF assms(1) this, of i] show ?thesis by simp
qed

lemma window_cut:
  assumes "ring_shape E r" and "m = (if n > d then d else n)"
  shows "window E r i m = take (unat n) (window E r i d)"
    and "window E r (i + m) (d - m) = drop (unat n) (window E r i d)"
proof -
  have "m \<le> d" using assms(2) by (simp split: if_splits)
  from window_take [OF assms(1) this, of i]
  have w: "window E r i d = window E r i m @ window E r (i + m) (d - m)" .
  have "unat n = unat m \<or> unat d \<le> unat n \<and> m = d"
    using assms(2) by (auto simp: word_less_nat_alt split: if_splits)
  then show "window E r i m = take (unat n) (window E r i d)"
    and "window E r (i + m) (d - m) = drop (unat n) (window E r i d)"
    using w assms(1) by auto
qed

lemma same_table_window:
  "ring_tbl r' = ring_tbl r \<Longrightarrow> ring_size r' = ring_size r \<Longrightarrow> window E r' i n = window E r i n"
  by (simp add: window_def)

lemma ring_law_dequeue:
  assumes inv: "ring_inv E r" and r': "gazelle_ring_sc_dequeue E r n = (k, xs, r')"
  shows "xs = take (unat n) (filled E r)" and "unat k = length xs" and "ring_inv E r'"
    and "filled E r' = drop (unat n) (filled E r)" and "in_read E r' = in_read E r"
    and "lent E r' = lent E r" and "capacity r' = capacity r"
proof -
  define d where "d = prod_tail r - cons_tail r"
  define m where "m = (if n > d then d else n)"
  note D = ring_invD [OF inv]
  have e: "k = m \<and> xs = window E r (cons_tail r) m \<and> r' = r\<lparr>cons_tail := cons_tail r + m\<rparr>"
  proof -
    have "gazelle_ring_sc_dequeue E r n = (if m = 0 then (0, [], r)
        else (m, window E r (cons_tail r) m, r\<lparr>cons_tail := cons_tail r + m\<rparr>))"
      unfolding gazelle_ring_sc_dequeue_def Let_def window_def m_def d_def ..
    then show ?thesis using r' D(1) by (auto split: if_splits)
  qed
  note cut = window_cut [OF D(1) m_def, of "cons_tail r"]
  have w: "window E r' i l = window E r i l" for i l
    by (rule same_table_window) (use e in simp_all)
  show xs: "xs = take (unat n) (filled E r)" using e cut(1) by (simp add: filled_def d_def)
  show "unat k = length xs" using e D(1) by simp
  have d': "prod_tail r' - cons_tail r' = d - m" using e by (simp add: d_def algebra_simps)
  show f: "filled E r' = drop (unat n) (filled E r)"
    unfolding filled_def w d' using e cut(2) by (simp add: d_def)
  show "in_read E r' = in_read E r" "lent E r' = lent E r" "capacity r' = capacity r"
    unfolding in_read_def lent_def w using e by simp_all
  have "unat m \<le> unat d" by (simp add: m_def word_less_nat_alt)
  moreover have "unat d \<le> unat (cons_head r - cons_tail r)" using D(2,6) by (simp add: d_def)
  ultimately have "unat (cons_head r - (cons_tail r + m)) = unat (cons_head r - cons_tail r) - unat m"
    and "unat (prod_tail r - (cons_tail r + m)) = unat (prod_tail r - cons_tail r) - unat m"
    and "unat m \<le> unat (prod_tail r - cons_tail r)"
    by (simp_all only: word_dist_shrink d_def)
  moreover have "unat (cons_head r - cons_tail r) - unat m \<le> unat (capacity r)"
    using D(4) by linarith
  ultimately show "ring_inv E r'"
    using inv e unfolding ring_inv_def ring_shape_def by simp
qed

lemma ring_law_read:
  assumes inv: "ring_inv E r" and r': "gazelle_ring_read E r n = (k, xs, r')"
  shows "xs = take (unat n) (lent E r)" and "unat k = length xs" and "ring_inv E r'"
    and "lent E r' = drop (unat n) (lent E r)" and "in_read E r' = in_read E r @ xs"
    and "filled E r' = filled E r" and "capacity r' = capacity r"
proof -
  define d where "d = cons_head r - prod_head r"
  define m where "m = (if n > d then d else n)"
  note D = ring_invD [OF inv]
  have e: "k = m \<and> xs = window E r (prod_head r) m \<and> r' = r\<lparr>prod_head := prod_head r + m\<rparr>"
  proof -
    have "gazelle_ring_read E r n = (if m = 0 then (0, [], r)
        else (m, window E r (prod_head r) m, r\<lparr>prod_head := prod_head r + m\<rparr>))"
      unfolding gazelle_ring_read_def Let_def window_def m_def d_def ..
    then show ?thesis using r' D(1) by (auto split: if_splits)
  qed
  note cut = window_cut [OF D(1) m_def, of "prod_head r"]
  have w: "window E r' i l = window E r i l" for i l
    by (rule same_table_window) (use e in simp_all)
  show xs: "xs = take (unat n) (lent E r)" using e cut(1) by (simp add: lent_def d_def)
  show "unat k = length xs" using e D(1) by simp
  have d': "cons_head r' - prod_head r' = d - m" using e by (simp add: d_def algebra_simps)
  show "lent E r' = drop (unat n) (lent E r)"
    unfolding lent_def w d' using e cut(2) by (simp add: d_def)
  show "filled E r' = filled E r" "capacity r' = capacity r"
    unfolding filled_def w using e by simp_all
  have m: "unat m \<le> unat d" by (simp add: m_def word_less_nat_alt)
  have sum: "unat (prod_head r - prod_tail r) + unat m < 2 ^ 32"
    using m D(3,7,8) unat_lt32 [of "cons_head r - prod_tail r"] by (simp add: d_def)
  have pm: "prod_head r' - prod_tail r' = prod_head r - prod_tail r + m"
    using e by (simp add: algebra_simps)
  show "in_read E r' = in_read E r @ xs"
    unfolding in_read_def w pm window_split [OF D(1) sum] using e by simp
  have "unat (prod_head r + m - prod_tail r) = unat (prod_head r - prod_tail r) + unat m"
    by (rule word_dist_advance) (use sum in simp)
  moreover have "unat (cons_head r - (prod_head r + m)) = unat (cons_head r - prod_head r) - unat m"
    using m unfolding d_def by (rule word_dist_shrink)
  ultimately show "ring_inv E r'"
    using inv e m unfolding ring_inv_def ring_shape_def by (simp add: d_def)
qed

lemma ring_law_read_over:
  assumes inv: "ring_inv E r"
  shows "ring_inv E (gazelle_ring_read_over r)"
    and "filled E (gazelle_ring_read_over r) = filled E r @ in_read E r"
    and "in_read E (gazelle_ring_read_over r) = []"
    and "lent E (gazelle_ring_read_over r) = lent E r"
    and "capacity (gazelle_ring_read_over r) = capacity r"
proof -
  let ?r = "gazelle_ring_read_over r"
  note D = ring_invD [OF inv]
  have sh: "ring_shape E ?r" using D(1) by (simp add: gazelle_ring_read_over_def ring_shape_def)
  have w: "window E ?r i l = window E r i l" for i l
    by (rule same_table_window) (simp_all add: gazelle_ring_read_over_def)
  show "in_read E ?r = []" "lent E ?r = lent E r" "capacity ?r = capacity r"
    unfolding in_read_def lent_def w using D(1) by (simp_all add: gazelle_ring_read_over_def)
  have sum: "unat (prod_tail r - cons_tail r) + unat (prod_head r - prod_tail r) < 2 ^ 32"
    using D(2,6,7) unat_lt32 [of "cons_head r - cons_tail r"] by simp
  have eq: "prod_tail r - cons_tail r + (prod_head r - prod_tail r) = prod_head r - cons_tail r"
    by (simp add: algebra_simps)
  have "unat (prod_tail r - cons_tail r + (prod_head r - prod_tail r)) =
      unat (prod_tail r - cons_tail r) + unat (prod_head r - prod_tail r)"
    using sum by (intro unat_plus_small) simp
  then have u: "unat (prod_head r - cons_tail r) =
      unat (prod_tail r - cons_tail r) + unat (prod_head r - prod_tail r)"
    unfolding eq .
  show "filled E ?r = filled E r @ in_read E r"
    using window_split [OF D(1) sum, of "cons_tail r", unfolded eq]
    by (simp add: filled_def in_read_def w) (simp add: gazelle_ring_read_over_def)
  show "ring_inv E ?r"
    using inv sh u by (simp add: ring_inv_def gazelle_ring_read_over_def)
qed

section \<open>The light ring\<close>

lemma light_invD:
  assumes "light_inv E r"
  shows "ring_shape E r" and "length (filled E r) = unat (prod_tail r - cons_tail r)"
    and "length (filled E r) \<le> unat (capacity r)" and "unat (capacity r) \<le> ring_size r"
    and "unat (capacity r + cons_tail r - prod_tail r) = unat (capacity r) - length (filled E r)"
proof -
  show sh: "ring_shape E r" and l: "length (filled E r) = unat (prod_tail r - cons_tail r)"
    and c: "length (filled E r) \<le> unat (capacity r)" and "unat (capacity r) \<le> ring_size r"
    using assms ring_shapeD(4) [of E r] by (simp_all add: light_inv_def filled_def)
  have "capacity r + cons_tail r - prod_tail r = capacity r - (prod_tail r - cons_tail r)"
    by (simp add: algebra_simps)
  then show "unat (capacity r + cons_tail r - prod_tail r) = unat (capacity r) - length (filled E r)"
    using l c unat_minus_le [of "prod_tail r - cons_tail r" "capacity r"] by metis
qed

text \<open>Copying objects behind the producer's cursor touches nothing between the cursors.\<close>

lemma store_behind:
  assumes inv: "light_inv E r" and room: "length (filled E r) + length xs \<le> unat (capacity r)"
    and n: "length xs = unat n"
  shows "light_inv E (r\<lparr>ring_tbl := store E r (prod_tail r) xs\<rparr>)"
    and "unat m \<le> length (filled E r) \<Longrightarrow>
      window E (r\<lparr>ring_tbl := store E r (prod_tail r) xs\<rparr>) (cons_tail r) m = window E r (cons_tail r) m"
    and "window E (r\<lparr>ring_tbl := store E r (prod_tail r) xs\<rparr>) (prod_tail r) n = xs"
proof -
  let ?r = "r\<lparr>ring_tbl := store E r (prod_tail r) xs\<rparr>"
  note D = light_invD [OF inv]
  show inv': "light_inv E ?r" using inv by (simp add: light_inv_def ring_shape_def)
  have w: "window E ?r i m = map (\<lambda>k. store E r (prod_tail r) xs (slot (ring_size r) i k)) [0..<unat m]"
    for i m using window_map [OF light_invD(1) [OF inv']] by simp
  show "window E ?r (cons_tail r) m = window E r (cons_tail r) m" if "unat m \<le> length (filled E r)"
    unfolding w using D room that by (intro store_window_other) simp_all
  show "window E ?r (prod_tail r) n = xs"
    unfolding w using D room n by (intro store_window_same) simp_all
qed

lemma publish:
  assumes inv: "light_inv E r" and room: "length (filled E r) + unat n \<le> unat (capacity r)"
  shows "light_inv E (r\<lparr>prod_tail := prod_tail r + n\<rparr>)"
    and "filled E (r\<lparr>prod_tail := prod_tail r + n\<rparr>) = filled E r @ window E r (prod_tail r) n"
proof -
  note D = light_invD [OF inv]
  have lt: "unat (prod_tail r - cons_tail r) + unat n < 2 ^ 32"
    using room D(2) unat_lt32 [of "capacity r"] by simp
  then have adv: "unat (prod_tail r + n - cons_tail r) = unat (prod_tail r - cons_tail r) + unat n"
    by (intro word_dist_advance) simp
  then show "light_inv E (r\<lparr>prod_tail := prod_tail r + n\<rparr>)"
    using inv room D(2) by (simp add: light_inv_def ring_shape_def)
  have w: "window E (r\<lparr>prod_tail := prod_tail r + n\<rparr>) i m = window E r i m" for i m
    by (rule same_table_window) simp_all
  have pm: "prod_tail r + n - cons_tail r = prod_tail r - cons_tail r + n"
    by (simp add: algebra_simps)
  show "filled E (r\<lparr>prod_tail := prod_tail r + n\<rparr>) = filled E r @ window E r (prod_tail r) n"
    unfolding filled_def w using window_split [OF D(1) lt, of "cons_tail r"] by (simp flip: pm)
qed

lemma take_back:
  assumes inv: "light_inv E r" and n: "unat n \<le> length (filled E r)"
  shows "light_inv E (r\<lparr>cons_tail := cons_tail r + n\<rparr>)"
    and "filled E r = window E r (cons_tail r) n @ filled E (r\<lparr>cons_tail := cons_tail r + n\<rparr>)"
proof -
  note D = light_invD [OF inv]
  have le: "unat n \<le> unat (prod_tail r - cons_tail r)" using n D(2) by simp
  then have "unat (prod_tail r - (cons_tail r + n)) = unat (prod_tail r - cons_tail r) - unat n"
    by (rule word_dist_shrink)
  then show "light_inv E (r\<lparr>cons_tail := cons_tail r + n\<rparr>)"
    using inv D(2,3) by (simp add: light_inv_def ring_shape_def)
  have w: "window E (r\<lparr>cons_tail := cons_tail r + n\<rparr>) i m = window E r i m" for i m
    by (rule same_table_window) simp_all
  have pm: "prod_tail r - (cons_tail r + n) = prod_tail r - cons_tail r - n"
    by (simp add: algebra_simps)
  show "filled E r = window E r (cons_tail r) n @ filled E (r\<lparr>cons_tail := cons_tail r + n\<rparr>)"
    unfolding filled_def w using window_take [OF D(1), of n "prod_tail r - cons_tail r" "cons_tail r"] le
    by (simp add: word_le_nat_alt flip: pm)
qed

lemma light_enqueue_rejects:
  assumes "light_inv E r" and "unat (capacity r) - length (filled E r) < unat n"
  shows "gazelle_light_ring_enqueue_busrt E r objs n = (0, r)"
  using assms light_invD(5) [OF assms(1)]
  by (simp add: gazelle_light_ring_enqueue_busrt_def word_less_nat_alt)

lemma light_enqueue_stores:
  assumes inv: "light_inv E r" and room: "unat n \<le> unat (capacity r) - length (filled E r)"
    and objs: "unat n \<le> length objs"
    and r': "gazelle_light_ring_enqueue_busrt E r objs n = (k, r')"
  shows "k = n" and "light_inv E r'" and "filled E r' = filled E r @ take (unat n) objs"
proof -
  let ?s = "r\<lparr>ring_tbl := store E r (prod_tail r) (take (unat n) objs)\<rparr>"
  note D = light_invD [OF inv]
  have len: "length (take (unat n) objs) = unat n" using objs by simp
  have rm: "length (filled E r) + length (take (unat n) objs) \<le> unat (capacity r)"
    using room D(3) objs by simp
  note st = store_behind [OF inv rm len]
  have "\<not> n > capacity r + cons_tail r - prod_tail r" using room D(5) by (simp add: word_less_nat_alt)
  then have e: "k = n" "r' = ?s\<lparr>prod_tail := prod_tail ?s + n\<rparr>"
    using r' by (auto simp: gazelle_light_ring_enqueue_busrt_def store_def Let_def)
  have f: "filled E ?s = filled E r" using st(2) [of "prod_tail r - cons_tail r"] D(2)
    by (simp add: filled_def)
  have rm': "length (filled E ?s) + unat n \<le> unat (capacity ?s)" using rm len f by simp
  show "k = n" by (rule e)
  show "light_inv E r'" unfolding e(2) by (rule publish(1) [OF st(1) rm'])
  show "filled E r' = filled E r @ take (unat n) objs"
    unfolding e(2) publish(2) [OF st(1) rm'] f using st(3) by simp
qed

lemma light_dequeue:
  assumes inv: "light_inv E r" and r': "gazelle_light_ring_dequeue_burst E r n = (k, xs, r')"
  shows "xs = take (unat n) (filled E r)" and "unat k = length xs" and "light_inv E r'"
    and "filled E r' = drop (unat n) (filled E r)"
proof -
  define m where "m = (if n > prod_tail r - cons_tail r then prod_tail r - cons_tail r else n)"
  note D = light_invD [OF inv]
  have "gazelle_light_ring_dequeue_burst E r n = (if m = 0 then (0, [], r)
      else (m, window E r (cons_tail r) m, r\<lparr>cons_tail := cons_tail r + m\<rparr>))"
    unfolding gazelle_light_ring_dequeue_burst_def Let_def window_def m_def ..
  then have e: "k = m \<and> xs = window E r (cons_tail r) m \<and> r' = r\<lparr>cons_tail := cons_tail r + m\<rparr>"
    using r' D(1) by (auto split: if_splits)
  have m: "unat m = min (unat n) (length (filled E r))"
    using D(2) by (simp add: m_def word_less_nat_alt)
  then have le: "unat m \<le> length (filled E r)" by simp
  note tb = take_back [OF inv le]
  have len: "length (window E r (cons_tail r) m) = unat m" using D(1) by simp
  show "unat k = length xs" using e len by simp
  show "light_inv E r'" using e tb(1) by simp
  have sp: "filled E r = xs @ filled E r'" and lx: "length xs = unat m" using tb(2) e len by simp_all
  have "unat n = unat m \<or> length (filled E r) = length xs \<and> unat m \<le> unat n" using m lx by auto
  then show "xs = take (unat n) (filled E r)" "filled E r' = drop (unat n) (filled E r)"
    using sp lx by auto
qed

section \<open>The ring as a queue\<close>

definition ring_put :: "'a ring_elems \<Rightarrow> 'a rte_ring \<Rightarrow> 'a list \<Rightarrow> nat \<times> 'a rte_ring" where
  "ring_put E r xs = (let (k, r') = gazelle_ring_sp_enqueue E r xs (word_of_nat (length xs)) in (unat k, r'))"

definition ring_get :: "'a ring_elems \<Rightarrow> 'a rte_ring \<Rightarrow> nat \<Rightarrow> 'a list \<times> 'a rte_ring" where
  "ring_get E r n = snd (gazelle_ring_sc_dequeue E r (word_of_nat n))"

definition ring_tau :: "'a ring_elems \<Rightarrow> 'a rte_ring \<Rightarrow> 'a rte_ring \<Rightarrow> bool" where
  "ring_tau E r r' \<longleftrightarrow> (\<exists>n. r' = snd (snd (gazelle_ring_read E r n))) \<or> r' = gazelle_ring_read_over r"

definition light_put :: "'a ring_elems \<Rightarrow> 'a rte_ring \<Rightarrow> 'a list \<Rightarrow> nat \<times> 'a rte_ring" where
  "light_put E r xs =
     (let (k, r') = gazelle_light_ring_enqueue_busrt E r xs (word_of_nat (length xs)) in (unat k, r'))"

definition light_get :: "'a ring_elems \<Rightarrow> 'a rte_ring \<Rightarrow> nat \<Rightarrow> 'a list \<times> 'a rte_ring" where
  "light_get E r n = snd (gazelle_light_ring_dequeue_burst E r (word_of_nat n))"

definition burst_ok :: "'a rte_ring \<Rightarrow> 'a list \<Rightarrow> bool" where
  "burst_ok r xs \<longleftrightarrow> length xs < 2 ^ 32"

lemma unat_burst: "burst_ok r xs \<Longrightarrow> unat (word_of_nat (length xs) :: u32) = length xs"
  by (simp add: burst_ok_def unat_of_nat)

interpretation seg: fifo "ring_inv E" "ring_contents E" burst_ok "ring_put E" "ring_get E" "ring_tau E"
  for E :: "'a ring_elems"
proof
  fix r r' :: "'a rte_ring" and xs k
  assume inv: "ring_inv E r" and b: "burst_ok r xs" and p: "ring_put E r xs = (k, r')"
  let ?n = "word_of_nat (length xs) :: u32"
  show "ring_inv E r' \<and> ring_contents E r' = ring_contents E r @ take k xs"
  proof (cases "unat ?n \<le> unat (capacity r) - length (ring_contents E r)")
    case True
    obtain m where e: "gazelle_ring_sp_enqueue E r xs ?n = (m, r')" "k = unat m"
      using p by (auto simp: ring_put_def split: prod.splits)
    have "unat ?n \<le> length xs" using unat_burst [OF b] by simp
    from enqueue_stores [OF inv True this e(1)] show ?thesis
      using e(2) by (simp add: ring_contents_def)
  next
    case False
    then have "gazelle_ring_sp_enqueue E r xs ?n = (0, r)" by (intro enqueue_rejects [OF inv]) simp
    then show ?thesis using p inv by (simp add: ring_put_def)
  qed
next
  fix r r' :: "'a rte_ring" and n ys
  assume inv: "ring_inv E r" and g: "ring_get E r n = (ys, r')"
  obtain k where "gazelle_ring_sc_dequeue E r (word_of_nat n) = (k, ys, r')"
    using g by (cases "gazelle_ring_sc_dequeue E r (word_of_nat n)") (simp add: ring_get_def)
  from ring_law_dequeue [OF inv this]
  show "ring_inv E r' \<and> ring_contents E r = ys @ ring_contents E r'" by (simp add: ring_contents_def)
next
  fix r r' :: "'a rte_ring"
  assume inv: "ring_inv E r" and t: "ring_tau E r r'"
  from t show "ring_inv E r' \<and> ring_contents E r' = ring_contents E r"
    unfolding ring_tau_def
  proof
    assume "\<exists>n. r' = snd (snd (gazelle_ring_read E r n))"
    then obtain n k xs where "gazelle_ring_read E r n = (k, xs, r')" by (metis prod.collapse)
    from ring_law_read [OF inv this] show ?thesis by (simp add: ring_contents_def)
  next
    assume "r' = gazelle_ring_read_over r"
    then show ?thesis using ring_law_read_over [OF inv] by (simp add: ring_contents_def)
  qed
qed

interpretation light: fifo "light_inv E" "filled E" burst_ok "light_put E" "light_get E" "\<lambda>_ _. False"
  for E :: "'a ring_elems"
proof
  fix r r' :: "'a rte_ring" and xs k
  assume inv: "light_inv E r" and b: "burst_ok r xs" and p: "light_put E r xs = (k, r')"
  let ?n = "word_of_nat (length xs) :: u32"
  show "light_inv E r' \<and> filled E r' = filled E r @ take k xs"
  proof (cases "unat ?n \<le> unat (capacity r) - length (filled E r)")
    case True
    obtain m where e: "gazelle_light_ring_enqueue_busrt E r xs ?n = (m, r')" "k = unat m"
      using p by (auto simp: light_put_def split: prod.splits)
    have "unat ?n \<le> length xs" using unat_burst [OF b] by simp
    from light_enqueue_stores [OF inv True this e(1)] show ?thesis using e(2) by simp
  next
    case False
    then have "gazelle_light_ring_enqueue_busrt E r xs ?n = (0, r)"
      by (intro light_enqueue_rejects [OF inv]) simp
    then show ?thesis using p inv by (simp add: light_put_def)
  qed
next
  fix r r' :: "'a rte_ring" and n ys
  assume inv: "light_inv E r" and g: "light_get E r n = (ys, r')"
  obtain k where "gazelle_light_ring_dequeue_burst E r (word_of_nat n) = (k, ys, r')"
    using g by (cases "gazelle_light_ring_dequeue_burst E r (word_of_nat n)") (simp add: light_get_def)
  from light_dequeue [OF inv this]
  show "light_inv E r' \<and> filled E r = ys @ filled E r'" by simp
qed simp

section \<open>A ring to evaluate on\<close>

text \<open>Copy loops that behave as documented, and an empty ring of four slots about to wrap.\<close>

fun plain_store :: "nat \<Rightarrow> u32 \<Rightarrow> nat \<Rightarrow> 'a list \<Rightarrow> (nat \<Rightarrow> 'a) \<Rightarrow> (nat \<Rightarrow> 'a)" where
  "plain_store sz i a [] t = t"
| "plain_store sz i a (x # xs) t = plain_store sz i (Suc a) xs (t(slot sz i a := x))"

definition plain_elems :: "'a ring_elems" where
  "plain_elems = \<lparr>
     enqueue_elems = (\<lambda>sz t i xs. plain_store sz i 0 xs t),
     dequeue_elems = (\<lambda>sz t i n. map (\<lambda>k. t (slot sz i k)) [0..<unat n])\<rparr>"

lemma plain_store_other:
  "(\<forall>k \<in> {a..<a + length xs}. j \<noteq> slot sz i k) \<Longrightarrow>
   plain_store sz i a xs t j = t j"
proof (induction xs arbitrary: a t)
  case (Cons x xs)
  have "\<forall>k \<in> {Suc a..<Suc a + length xs}. j \<noteq> slot sz i k" and "j \<noteq> slot sz i a"
    using Cons.prems by auto
  with Cons.IH show ?case by simp
qed simp

lemma plain_store_same:
  "a + length xs \<le> sz \<Longrightarrow> k < length xs \<Longrightarrow>
   plain_store sz i a xs t (slot sz i (a + k)) = xs ! k"
proof (induction xs arbitrary: a k t)
  case (Cons x xs)
  show ?case
  proof (cases k)
    case 0
    have "\<forall>m \<in> {Suc a..<Suc a + length xs}. slot sz i a \<noteq> slot sz i m"
    proof (intro ballI notI)
      fix m assume m: "m \<in> {Suc a..<Suc a + length xs}" and eq: "slot sz i a = slot sz i m"
      have "a = m" by (rule slot_inj [OF eq]) (use m Cons.prems in auto)
      with m show False by simp
    qed
    from plain_store_other [OF this] show ?thesis using 0 by simp
  next
    case (Suc m)
    with Cons.prems have "Suc a + length xs \<le> sz" "m < length xs" by simp_all
    from Cons.IH [OF this] show ?thesis unfolding Suc by simp
  qed
qed simp

lemma plain_elems_ok: "elems_ok (plain_elems :: 'a ring_elems) sz"
proof -
  have other: "plain_store sz i 0 xs t j = t j" if "\<forall>k < length xs. j \<noteq> slot sz i k" for xs :: "'a list" and i t j
    by (rule plain_store_other) (use that in auto)
  show ?thesis unfolding elems_ok_def plain_elems_def
    using plain_store_same [of 0 _ sz] other by (auto simp del: plain_store.simps)
qed

definition empty_ring :: "u32 \<Rightarrow> 'a \<Rightarrow> 'a rte_ring" where
  "empty_ring c x = \<lparr>prod_head = c, prod_tail = c, cons_head = c, cons_tail = c, capacity = 4,
     ring_size = 4, ring_tbl = (\<lambda>_. x)\<rparr>"

lemma empty_ring_ok:
  "ring_inv plain_elems (empty_ring c x)" "light_inv plain_elems (empty_ring c x)"
  "ring_contents plain_elems (empty_ring c x) = []" "filled plain_elems (empty_ring c x) = []"
proof -
  have "\<exists>k \<le> 31. (4::nat) = 2 ^ k" by (rule exI [of _ 2]) simp
  then have sh: "ring_shape plain_elems (empty_ring c x)"
    using plain_elems_ok by (simp add: ring_shape_def empty_ring_def)
  then show "ring_inv plain_elems (empty_ring c x)" "light_inv plain_elems (empty_ring c x)"
    by (simp_all add: ring_inv_def light_inv_def) (simp_all add: empty_ring_def)
  show "ring_contents plain_elems (empty_ring c x) = []" "filled plain_elems (empty_ring c x) = []"
    using sh by (simp_all add: ring_contents_def filled_def in_read_def lent_def)
      (simp_all add: empty_ring_def window_def plain_elems_def)
qed

lemmas ring_eval = ring_put_def ring_get_def gazelle_ring_sp_enqueue_def gazelle_ring_sc_dequeue_def
  gazelle_ring_read_def gazelle_ring_read_over_def plain_elems_def empty_ring_def slot_def Let_def upt_rec

section \<open>Properties\<close>

text \<open>C5: over any run of enqueues, dequeues, reads and read-overs that starts on an empty
  ring, wherever its 32-bit cursors stand, what was dequeued followed by what is still in
  the ring is exactly what the enqueues accepted, in order; the ring never holds more than
  its capacity.\<close>

theorem ring_run_is_fifo:
  assumes "fifo_run burst_ok (ring_put E) (ring_get E) (ring_tau E) r ins outs t"
    and "ring_inv E r" and "ring_contents E r = []"
  shows "ins = outs @ ring_contents E t \<and> length (ring_contents E t) \<le> unat (capacity t)"
proof -
  have "ring_inv E t" and "ins = outs @ ring_contents E t"
    using seg.run_conserves [OF assms(1,2)] assms(3) by simp_all
  then show ?thesis using ring_contents_length [of E t] ring_invD(4) [of E t]
    by (simp add: gazelle_ring_count_def)
qed

lemma ring_run_is_fifo_witness:
  "let E = plain_elems; r = empty_ring 0xFFFFFFFE (0::nat); r1 = snd (ring_put E r [7, 8, 9]);
       r2 = gazelle_ring_read_over (snd (snd (gazelle_ring_read E r1 2))); r3 = snd (ring_get E r2 5)
   in [7, 8, 9] = [7, 8] @ ring_contents E r3 \<and> length (ring_contents E r3) \<le> unat (capacity r3)"
proof -
  let ?E = "plain_elems :: nat ring_elems" and ?r = "empty_ring 0xFFFFFFFE (0::nat)"
  let ?r1 = "snd (ring_put ?E ?r [7, 8, 9])"
  let ?s = "snd (snd (gazelle_ring_read ?E ?r1 2))"
  let ?r2 = "gazelle_ring_read_over ?s"
  let ?r3 = "snd (ring_get ?E ?r2 5)"
  have p: "ring_put ?E ?r [7, 8, 9] = (3, ?r1)"
    unfolding prod_eq_iff fst_conv snd_conv by (rule conjI [OF _ refl]) (simp add: ring_eval)
  have g: "ring_get ?E ?r2 5 = ([7, 8], ?r3)"
    unfolding prod_eq_iff fst_conv snd_conv by (rule conjI [OF _ refl]) (simp add: ring_eval)
  have a: "burst_ok ?r [7, 8, 9]" by (simp add: burst_ok_def)
  have t: "ring_tau ?E ?r1 ?s" "ring_tau ?E ?s ?r2" by (auto simp: ring_tau_def)
  have "fifo_run burst_ok (ring_put ?E) (ring_get ?E) (ring_tau ?E) ?r ([] @ take 3 [7, 8, 9]) [] ?r1"
    by (rule run_put, rule run_start, rule a, rule p)
  from run_get [OF run_tau [OF run_tau [OF this t(1)] t(2)] g]
  have "fifo_run burst_ok (ring_put ?E) (ring_get ?E) (ring_tau ?E) ?r [7, 8, 9] [7, 8] ?r3"
    by simp
  from ring_run_is_fifo [OF this empty_ring_ok(1,3)] show ?thesis unfolding Let_def .
qed

text \<open>
  An enqueue is all or nothing. It stores the objects behind those already lent
  exactly when the free count shows room for all of them; otherwise it returns 0 and leaves
  the ring as it was.\<close>

theorem ring_enqueue_all_or_nothing:
  assumes "ring_inv E r" and "unat n \<le> length objs"
    and "gazelle_ring_sp_enqueue E r objs n = (k, r')"
  shows "if n \<le> gazelle_ring_free_count r
         then k = n \<and> lent E r' = lent E r @ take (unat n) objs \<and> filled E r' = filled E r \<and>
              in_read E r' = in_read E r \<and>
              gazelle_ring_free_count r' = gazelle_ring_free_count r - n
         else k = 0 \<and> r' = r"
proof (cases "n \<le> gazelle_ring_free_count r")
  case True
  then have "unat n \<le> unat (capacity r) - length (ring_contents E r)"
    by (simp add: word_le_nat_alt ring_free_entries(2) [OF assms(1)])
  note st = enqueue_stores [OF assms(1) this assms(2,3)]
  have le: "unat n \<le> unat (gazelle_ring_free_count r)" using True by (simp add: word_le_nat_alt)
  have "unat (gazelle_ring_free_count r') = unat (gazelle_ring_free_count r) - unat n"
    using st assms(2) unfolding ring_free_entries(2) [OF st(2)] ring_free_entries(2) [OF assms(1)]
    by (simp add: ring_contents_def)
  then have "unat (gazelle_ring_free_count r') = unat (gazelle_ring_free_count r - n)"
    by (simp add: unat_minus_le [OF le])
  then have "gazelle_ring_free_count r' = gazelle_ring_free_count r - n"
    by (simp add: word_unat_eq_iff)
  then show ?thesis using True st by simp
next
  case False
  then have "unat (gazelle_ring_free_count r) < unat n" by (simp add: word_le_nat_alt)
  then have "unat (capacity r) - length (ring_contents E r) < unat n"
    unfolding ring_free_entries(2) [OF assms(1)] .
  from enqueue_rejects [OF assms(1) this] show ?thesis using assms(3) False by simp
qed

lemma ring_enqueue_all_or_nothing_witness:
  "let E = plain_elems; r = empty_ring 0xFFFFFFFE (0::nat);
       r' = snd (gazelle_ring_sp_enqueue E r [7, 8, 9] 3)
   in lent E r' = lent E r @ [7, 8, 9] \<and> filled E r' = filled E r \<and> in_read E r' = in_read E r \<and>
      gazelle_ring_free_count r' = gazelle_ring_free_count r - 3"
proof -
  have "3 \<le> gazelle_ring_free_count (empty_ring 0xFFFFFFFE (0::nat))"
    by (simp add: gazelle_ring_free_count_def gazelle_ring_count_def empty_ring_def)
  then show ?thesis
    using ring_enqueue_all_or_nothing [OF empty_ring_ok(1) _ prod.collapse [symmetric],
        of 3 "[7, 8, 9 :: nat]" "0xFFFFFFFE" 0]
    by (simp add: Let_def)
qed

text \<open>C25: the reader's protocol. A read hands out the oldest lent objects without taking them
  from the ring; once a read-over has been published the other thread can dequeue exactly
  what had been handed back before, then the objects just read, and nothing it has not.\<close>

theorem ring_reader_protocol:
  assumes "ring_inv E r" and "gazelle_ring_read E r n = (k, xs, r1)"
    and "gazelle_ring_sc_dequeue E r1 m = (i, ys, r2)"
    and "gazelle_ring_sc_dequeue E (gazelle_ring_read_over r1) m = (j, zs, r3)"
  shows "xs = take (unat n) (lent E r) \<and> unat k = length xs \<and>
         ys = take (unat m) (filled E r) \<and>
         zs = take (unat m) (filled E r @ in_read E r @ xs) \<and>
         ring_contents E r1 = ring_contents E r"
proof -
  note R = ring_law_read [OF assms(1,2)]
  note O = ring_law_read_over [OF R(3)]
  have "ring_contents E r1 = ring_contents E r" by (simp add: ring_contents_def R)
  then show ?thesis
    using R ring_law_dequeue(1) [OF R(3) assms(3)] ring_law_dequeue(1) [OF O(1) assms(4)] O(2) by simp
qed

lemma ring_reader_protocol_witness:
  "let E = plain_elems; r = snd (ring_put E (empty_ring 0xFFFFFFFE (0::nat)) [7, 8, 9]);
       (k, xs, r1) = gazelle_ring_read E r 2;
       (i, ys, r2) = gazelle_ring_sc_dequeue E r1 4;
       (j, zs, r3) = gazelle_ring_sc_dequeue E (gazelle_ring_read_over r1) 4
   in xs = [7, 8] \<and> ys = [] \<and> zs = [7, 8] \<and> ring_contents E r1 = ring_contents E r"
proof -
  let ?E = "plain_elems :: nat ring_elems"
  let ?r = "snd (ring_put ?E (empty_ring 0xFFFFFFFE (0::nat)) [7, 8, 9])"
  let ?a = "gazelle_ring_read ?E ?r 2"
  let ?r1 = "snd (snd ?a)"
  let ?b = "gazelle_ring_sc_dequeue ?E ?r1 4"
  let ?c = "gazelle_ring_sc_dequeue ?E (gazelle_ring_read_over ?r1) 4"
  have inv: "ring_inv ?E ?r"
    using seg.put_law [OF empty_ring_ok(1), of "0xFFFFFFFE" 0 "[7, 8, 9]" "fst (ring_put ?E (empty_ring 0xFFFFFFFE 0) [7, 8, 9])" ?r]
    by (simp add: burst_ok_def)
  have tr: "x = (fst x, fst (snd x), snd (snd x))" for x :: "'x \<times> 'y \<times> 'z" by simp
  have "fst (snd ?a) = [7, 8]" "fst (snd ?b) = []" "fst (snd ?c) = [7, 8]" by (simp_all add: ring_eval)
  then show ?thesis
    using ring_reader_protocol [OF inv tr tr tr, of 2 4]
    by (simp add: Let_def case_prod_beta)
qed

end
