(* ===== verification/Ring_Threads.thy ===== *)
theory Ring_Threads
  imports Rte_Ring
begin

text \<open>
  The light ring between two threads: ltran on one side, an lstack process on the other.
  \<open>gazelle_light_ring_enqueue_busrt\<close> and \<open>gazelle_light_ring_dequeue_burst\<close>
  (\<open>src/common/dpdk_common.h\<close>) are split at their shared accesses: the acquire load of the
  other side's cursor, the copy of the objects, and the release store of the own cursor.
  Any interleaving of these steps is a schedule; the acquire/release pairs make the steps
  appear in this order, which is the memory model assumed here.
\<close>

section \<open>The two threads\<close>

text \<open>
  Program counters: before the load, after the load (with the value loaded and the
  arguments of the call), after the copy.
\<close>

datatype 'a prod_pc = ProdIdle | ProdLoaded u32 "'a list" | ProdCopied u32

datatype 'a cons_pc = ConsIdle | ConsLoaded u32 u32 | ConsCopied "'a list" u32

record 'a ring_threads =
  ring :: "'a rte_ring"
  prod_pc :: "'a prod_pc"
  cons_pc :: "'a cons_pc"
  offered :: "'a list" \<comment> \<open>objects of all calls whose enqueue has copied them in\<close>
  fetched :: "'a list" \<comment> \<open>objects of all completed dequeues\<close>

definition light_enqueue_step :: "'a ring_elems \<Rightarrow> 'a list \<Rightarrow> 'a ring_threads \<Rightarrow> 'a ring_threads" where
  "light_enqueue_step E objs s =
     (let r = ring s in
      case prod_pc s of
        ProdIdle \<Rightarrow> s\<lparr>prod_pc := ProdLoaded (cons_tail r) objs\<rparr>
      | ProdLoaded cons xs \<Rightarrow>
          (let prod = prod_tail r; n = word_of_nat (length xs) in
           if n > capacity r + cons - prod then s\<lparr>prod_pc := ProdIdle\<rparr>
           else s\<lparr>ring := r\<lparr>ring_tbl := enqueue_elems E (ring_size r) (ring_tbl r) prod xs\<rparr>,
                  prod_pc := ProdCopied n, offered := offered s @ xs\<rparr>)
      | ProdCopied n \<Rightarrow> s\<lparr>ring := r\<lparr>prod_tail := prod_tail r + n\<rparr>, prod_pc := ProdIdle\<rparr>)"

definition light_dequeue_step :: "'a ring_elems \<Rightarrow> u32 \<Rightarrow> 'a ring_threads \<Rightarrow> 'a ring_threads" where
  "light_dequeue_step E n s =
     (let r = ring s in
      case cons_pc s of
        ConsIdle \<Rightarrow> s\<lparr>cons_pc := ConsLoaded (prod_tail r) n\<rparr>
      | ConsLoaded prod0 n \<Rightarrow>
          (let cons = cons_tail r; entries = prod0 - cons; n = (if n > entries then entries else n) in
           if n = 0 then s\<lparr>cons_pc := ConsIdle\<rparr>
           else s\<lparr>cons_pc := ConsCopied (dequeue_elems E (ring_size r) (ring_tbl r) cons n) n\<rparr>)
      | ConsCopied xs n \<Rightarrow>
          s\<lparr>ring := r\<lparr>cons_tail := cons_tail r + n\<rparr>, cons_pc := ConsIdle, fetched := fetched s @ xs\<rparr>)"

text \<open>A schedule names the thread that moves next and the arguments of a call it starts.\<close>

datatype 'a move = Producer "'a list" | Consumer u32

fun light_move :: "'a ring_elems \<Rightarrow> 'a move \<Rightarrow> 'a ring_threads \<Rightarrow> 'a ring_threads" where
  "light_move E (Producer objs) s = light_enqueue_step E objs s"
| "light_move E (Consumer n) s = light_dequeue_step E n s"

definition light_schedule :: "'a ring_elems \<Rightarrow> 'a move list \<Rightarrow> 'a ring_threads \<Rightarrow> 'a ring_threads" where
  "light_schedule E ms s = fold (light_move E) ms s"

definition light_start :: "'a rte_ring \<Rightarrow> 'a ring_threads" where
  "light_start r = \<lparr>ring = r, prod_pc = ProdIdle, cons_pc = ConsIdle, offered = [], fetched = []\<rparr>"

fun move_ok :: "'a move \<Rightarrow> bool" where
  "move_ok (Producer objs) \<longleftrightarrow> length objs < 2 ^ 32"
| "move_ok (Consumer n) \<longleftrightarrow> True"

text \<open>Uninterrupted, the three steps of a thread are the call itself.\<close>

lemma enqueue_steps_are_the_call:
  assumes "prod_pc s = ProdIdle" and "length objs < 2 ^ 32"
    and "gazelle_light_ring_enqueue_busrt E (ring s) objs (word_of_nat (length objs)) = (k, r')"
    and "0 < k"
  shows "light_schedule E [Producer objs, Producer objs, Producer objs] s =
           s\<lparr>ring := r', offered := offered s @ objs\<rparr>"
proof -
  have "unat (word_of_nat (length objs) :: u32) = length objs"
    using assms(2) by (simp add: unat_of_nat)
  then show ?thesis using assms
    by (auto simp: light_schedule_def light_enqueue_step_def gazelle_light_ring_enqueue_busrt_def
        Let_def split: if_splits)
qed

lemma dequeue_steps_are_the_call:
  assumes "cons_pc s = ConsIdle"
    and "gazelle_light_ring_dequeue_burst E (ring s) n = (k, xs, r')" and "0 < k"
  shows "light_schedule E [Consumer n, Consumer n, Consumer n] s =
           s\<lparr>ring := r', fetched := fetched s @ xs\<rparr>"
  using assms
  by (auto simp: light_schedule_def light_dequeue_step_def gazelle_light_ring_dequeue_burst_def
      Let_def split: if_splits)

section \<open>The invariant of all interleavings\<close>

text \<open>
  A loaded cursor may be stale, and stale only in the safe direction: the producer sees a
  consumer that is at most as far as it is, the consumer a producer that is at most as far.
\<close>

definition producer_ok :: "'a ring_elems \<Rightarrow> 'a rte_ring \<Rightarrow> 'a prod_pc \<Rightarrow> bool" where
  "producer_ok E r pc \<longleftrightarrow>
     (case pc of ProdIdle \<Rightarrow> True
      | ProdLoaded cons xs \<Rightarrow> length xs < 2 ^ 32 \<and> unat (prod_tail r - cons) \<le> unat (capacity r) \<and>
          length (filled E r) \<le> unat (prod_tail r - cons)
      | ProdCopied n \<Rightarrow> length (filled E r) + unat n \<le> unat (capacity r))"

definition pending :: "'a ring_elems \<Rightarrow> 'a rte_ring \<Rightarrow> 'a prod_pc \<Rightarrow> 'a list" where
  "pending E r pc = (case pc of ProdCopied n \<Rightarrow> window E r (prod_tail r) n | _ \<Rightarrow> [])"

definition consumer_ok :: "'a ring_elems \<Rightarrow> 'a rte_ring \<Rightarrow> 'a cons_pc \<Rightarrow> bool" where
  "consumer_ok E r pc \<longleftrightarrow>
     (case pc of ConsIdle \<Rightarrow> True
      | ConsLoaded prod0 n \<Rightarrow> unat (prod0 - cons_tail r) \<le> length (filled E r)
      | ConsCopied xs n \<Rightarrow> unat n \<le> length (filled E r) \<and> xs = window E r (cons_tail r) n)"

definition threads_inv :: "'a ring_elems \<Rightarrow> 'a ring_threads \<Rightarrow> bool" where
  "threads_inv E s \<longleftrightarrow> light_inv E (ring s) \<and> producer_ok E (ring s) (prod_pc s) \<and>
     consumer_ok E (ring s) (cons_pc s) \<and>
     offered s = fetched s @ filled E (ring s) @ pending E (ring s) (prod_pc s)"

lemmas threads_defs = threads_inv_def producer_ok_def consumer_ok_def pending_def

lemma threads_inv_start:
  "light_inv E r \<Longrightarrow> filled E r = [] \<Longrightarrow> threads_inv E (light_start r)"
  by (simp add: threads_defs light_start_def)

lemma stale_room:
  assumes "unat (prod_tail r - cons) \<le> unat (capacity r)"
    and "\<not> n > capacity r + cons - prod_tail r"
  shows "unat (prod_tail r - cons) + unat n \<le> unat (capacity r)"
proof -
  have "capacity r + cons - prod_tail r = capacity r - (prod_tail r - cons)" by (simp add: algebra_simps)
  then have "unat n \<le> unat (capacity r) - unat (prod_tail r - cons)"
    using assms by (metis unat_minus_le linorder_not_less word_less_nat_alt)
  then show ?thesis using assms(1) by linarith
qed

lemma enqueue_step_inv:
  assumes inv: "threads_inv E s" and objs: "length objs < 2 ^ 32"
  shows "threads_inv E (light_enqueue_step E objs s)"
proof (cases "prod_pc s")
  case ProdIdle
  then show ?thesis using inv objs light_invD [of E "ring s"]
    by (auto simp: threads_defs light_enqueue_step_def)
next
  case (ProdCopied n)
  let ?r = "ring s"
  have L: "light_inv E ?r" and room: "length (filled E ?r) + unat n \<le> unat (capacity ?r)"
    using inv ProdCopied by (auto simp: threads_defs)
  note pub = publish [OF L room] and D = light_invD [OF L]
  have w: "window E (?r\<lparr>prod_tail := prod_tail ?r + n\<rparr>) i m = window E ?r i m" for i m
    by (rule same_table_window) simp_all
  have e: "light_enqueue_step E objs s = s\<lparr>ring := ?r\<lparr>prod_tail := prod_tail ?r + n\<rparr>, prod_pc := ProdIdle\<rparr>"
    using ProdCopied by (simp add: light_enqueue_step_def Let_def)
  have "consumer_ok E (?r\<lparr>prod_tail := prod_tail ?r + n\<rparr>) (cons_pc s)"
    using inv pub(2) by (auto simp: threads_inv_def consumer_ok_def w split: cons_pc.splits)
  then show ?thesis unfolding e using inv ProdCopied pub
    by (simp add: threads_inv_def producer_ok_def pending_def)
next
  case (ProdLoaded cons xs)
  let ?r = "ring s" and ?n = "word_of_nat (length xs) :: u32"
  show ?thesis
  proof (cases "?n > capacity ?r + cons - prod_tail ?r")
    case True
    with ProdLoaded inv show ?thesis by (simp add: threads_defs light_enqueue_step_def Let_def)
  next
    case False
    let ?s = "?r\<lparr>ring_tbl := store E ?r (prod_tail ?r) xs\<rparr>"
    have L: "light_inv E ?r" and st: "unat (prod_tail ?r - cons) \<le> unat (capacity ?r)"
      and f: "length (filled E ?r) \<le> unat (prod_tail ?r - cons)"
      and len: "length xs = unat ?n"
      using inv ProdLoaded by (auto simp: threads_defs unat_of_nat)
    have room: "length (filled E ?r) + length xs \<le> unat (capacity ?r)"
      using stale_room [OF st False] f len by simp
    note D = light_invD [OF L] and sb = store_behind [OF L room len]
    have fl: "filled E ?s = filled E ?r" using sb(2) [of "prod_tail ?r - cons_tail ?r"] D(2)
      by (simp add: filled_def)
    have e: "light_enqueue_step E objs s = s\<lparr>ring := ?s, prod_pc := ProdCopied ?n, offered := offered s @ xs\<rparr>"
      using ProdLoaded False by (simp add: light_enqueue_step_def Let_def store_def)
    have c: "consumer_ok E ?s (cons_pc s)"
      using inv sb(2) by (auto simp: threads_inv_def consumer_ok_def fl split: cons_pc.splits)
    have p: "producer_ok E ?s (ProdCopied ?n)" using room len by (simp add: producer_ok_def fl)
    have "offered s @ xs = fetched s @ filled E ?s @ pending E ?s (ProdCopied ?n)"
      using inv ProdLoaded sb(3) by (simp add: threads_inv_def pending_def fl)
    then show ?thesis unfolding e using sb(1) c p by (simp add: threads_inv_def)
  qed
qed

lemma dequeue_step_inv:
  assumes inv: "threads_inv E s"
  shows "threads_inv E (light_dequeue_step E n s)"
proof (cases "cons_pc s")
  case ConsIdle
  then show ?thesis using inv light_invD(2) [of E "ring s"]
    by (auto simp: threads_defs light_dequeue_step_def)
next
  case (ConsLoaded prod0 k)
  let ?r = "ring s"
  have "unat (prod0 - cons_tail ?r) \<le> length (filled E ?r)" using inv ConsLoaded by (simp add: threads_defs)
  then show ?thesis using inv ConsLoaded
    by (auto simp: threads_inv_def consumer_ok_def light_dequeue_step_def Let_def window_def word_less_nat_alt)
next
  case (ConsCopied xs m)
  let ?r = "ring s" and ?t = "(ring s)\<lparr>cons_tail := cons_tail (ring s) + m\<rparr>"
  have L: "light_inv E ?r" and n: "unat m \<le> length (filled E ?r)"
    and xs: "xs = window E ?r (cons_tail ?r) m"
    using inv ConsCopied by (auto simp: threads_defs)
  note tb = take_back [OF L n]
  have w: "window E ?t i l = window E ?r i l" for i l by (rule same_table_window) simp_all
  have le: "length (filled E ?t) \<le> length (filled E ?r)" using tb(2) by simp
  have e: "light_dequeue_step E n s = s\<lparr>ring := ?t, cons_pc := ConsIdle, fetched := fetched s @ xs\<rparr>"
    using ConsCopied by (simp add: light_dequeue_step_def Let_def)
  have p: "producer_ok E ?t (prod_pc s)"
    using inv le by (auto simp: threads_inv_def producer_ok_def split: prod_pc.splits)
  have q: "pending E ?t (prod_pc s) = pending E ?r (prod_pc s)"
    by (simp add: pending_def w split: prod_pc.splits)
  have "offered s = fetched s @ filled E ?r @ pending E ?r (prod_pc s)"
    using inv by (simp add: threads_inv_def)
  then have "offered s = (fetched s @ xs) @ filled E ?t @ pending E ?t (prod_pc s)"
    unfolding q xs using tb(2) by simp
  then show ?thesis unfolding e using tb(1) p by (simp add: threads_inv_def consumer_ok_def)
qed

lemma schedule_inv:
  "threads_inv E s \<Longrightarrow> \<forall>m \<in> set ms. move_ok m \<Longrightarrow> threads_inv E (light_schedule E ms s)"
proof (induction ms arbitrary: s)
  case (Cons m ms)
  have "threads_inv E (light_move E m s)"
    using Cons.prems enqueue_step_inv dequeue_step_inv by (cases m) auto
  with Cons show ?case by (simp add: light_schedule_def)
qed (simp add: light_schedule_def)

section \<open>Properties\<close>

text \<open>C3: however the steps of one producer thread and one consumer thread interleave, the
  objects fetched are a prefix of the objects offered: none is lost, duplicated, reordered
  or read before it was copied in, and the ring never holds more than its capacity.\<close>

theorem light_ring_threads_fifo:
  assumes "light_inv E r" and "filled E r = []" and "\<forall>m \<in> set ms. move_ok m"
    and "light_schedule E ms (light_start r) = s"
  shows "(\<exists>rest. offered s = fetched s @ rest \<and> filled E (ring s) = take (length (filled E (ring s))) rest) \<and>
         length (filled E (ring s)) \<le> unat (capacity (ring s))"
proof -
  have "threads_inv E s"
    using schedule_inv [OF threads_inv_start [OF assms(1,2)] assms(3)] assms(4) by simp
  then show ?thesis using light_invD(3) [of E "ring s"]
    by (auto simp: threads_inv_def)
qed

lemma light_ring_threads_fifo_witness:
  "let ms = [Producer [7, 8], Consumer 4, Producer [], Consumer 4, Producer [], Consumer 4, Producer [9],
             Consumer 4, Producer [], Consumer 4, Producer []];
       s = light_schedule plain_elems ms (light_start (empty_ring 0xFFFFFFFE (0::nat)))
   in fetched s = [7, 8] \<and> offered s = [7, 8, 9] \<and>
      length (filled plain_elems (ring s)) \<le> unat (capacity (ring s))"
proof -
  let ?ms = "[Producer [7, 8], Consumer 4, Producer [], Consumer 4, Producer [], Consumer 4, Producer [9],
             Consumer 4, Producer [], Consumer 4, Producer [] :: nat move]"
  let ?s = "light_schedule plain_elems ?ms (light_start (empty_ring 0xFFFFFFFE (0::nat)))"
  have "fetched ?s = [7, 8] \<and> offered ?s = [7, 8, 9]"
    by (simp add: light_schedule_def light_start_def light_enqueue_step_def light_dequeue_step_def ring_eval)
  moreover have "\<forall>m \<in> set ?ms. move_ok m" by simp
  ultimately show ?thesis
    using light_ring_threads_fifo [OF empty_ring_ok(2,4) _ refl, of ?ms] by (simp add: Let_def)
qed

end
