(* ===== verification/Lockless_Queue.thy ===== *)
theory Lockless_Queue
  imports Fifo
begin

text \<open>
  The intrusive multi-producer single-consumer queue of
  \<open>src/lstack/include/lstack_lockless_queue.h\<close>, which carries RPC messages to a protocol
  stack thread: each operation as one function of the queue's state, the list it stands
  for, and the queue contract for calls that do not overlap. Overlapping calls are the
  subject of \<open>Lockless_Threads\<close>.
\<close>

section \<open>The queue\<close>

text \<open>
  A queue node is the stub inside the queue structure or a node embedded in a message.
  \<open>nxt\<close> is the \<open>next\<close> field of every node.
\<close>

datatype qptr = Stub | Node addr

record lockless_queue =
  head :: qptr
  tail :: qptr
  nxt :: "qptr \<Rightarrow> qptr option"

definition lockless_queue_init :: "lockless_queue \<Rightarrow> lockless_queue" where
  "lockless_queue_init q = q\<lparr>head := Stub, tail := Stub, nxt := (nxt q)(Stub := None)\<rparr>"

definition lockless_queue_empty :: "lockless_queue \<Rightarrow> bool" where
  "lockless_queue_empty q \<longleftrightarrow> head q = tail q \<and> tail q = Stub"

text \<open>The walk of \<open>lockless_queue_count\<close>; a cyclic list would make it run forever.\<close>

partial_function (option) count_from :: "(qptr \<Rightarrow> qptr option) \<Rightarrow> qptr option \<Rightarrow> i32 \<Rightarrow> i32 option" where
  "count_from nx p count =
     (case p of None \<Rightarrow> Some count | Some t \<Rightarrow> count_from nx (nx t) (count + 1))"

definition lockless_queue_count :: "lockless_queue \<Rightarrow> i32 option" where
  "lockless_queue_count q =
     (if lockless_queue_empty q then Some 0
      else count_from (nxt q) (if tail q = Stub then nxt q Stub else Some (tail q)) 0)"

definition lockless_queue_mpsc_push :: "lockless_queue \<Rightarrow> qptr \<Rightarrow> lockless_queue" where
  "lockless_queue_mpsc_push q node =
     (let q1 = q\<lparr>nxt := (nxt q)(node := None)\<rparr>;
          old_head = head q1;
          q2 = q1\<lparr>head := node\<rparr>
      in q2\<lparr>nxt := (nxt q2)(old_head := Some node)\<rparr>)"

text \<open>The part of \<open>lockless_queue_mpsc_pop\<close> after its stub has been skipped.\<close>

definition pop_behind_stub :: "lockless_queue \<Rightarrow> qptr \<Rightarrow> qptr option \<Rightarrow> qptr option \<times> lockless_queue" where
  "pop_behind_stub q t nx =
     (case nx of Some n \<Rightarrow> (Some t, q\<lparr>tail := n\<rparr>)
      | None \<Rightarrow>
          if t \<noteq> head q then (None, q)
          else (let q' = lockless_queue_mpsc_push q Stub in
                case nxt q' t of Some n \<Rightarrow> (Some t, q'\<lparr>tail := n\<rparr>) | None \<Rightarrow> (None, q')))"

definition lockless_queue_mpsc_pop :: "lockless_queue \<Rightarrow> qptr option \<times> lockless_queue" where
  "lockless_queue_mpsc_pop q =
     (let t = tail q; nx = nxt q t in
      if t = Stub then
        (case nx of None \<Rightarrow> (None, q)
         | Some n \<Rightarrow> pop_behind_stub (q\<lparr>tail := n\<rparr>) n (nxt q n))
      else pop_behind_stub q t nx)"

section \<open>The list a queue stands for\<close>

fun linked :: "(qptr \<Rightarrow> qptr option) \<Rightarrow> qptr list \<Rightarrow> bool" where
  "linked nx [] \<longleftrightarrow> False"
| "linked nx [x] \<longleftrightarrow> nx x = None"
| "linked nx (x # y # p) \<longleftrightarrow> nx x = Some y \<and> linked nx (y # p)"

fun nodes :: "qptr list \<Rightarrow> addr list" where
  "nodes [] = []"
| "nodes (Stub # p) = nodes p"
| "nodes (Node n # p) = n # nodes p"

partial_function (option) chain_from :: "(qptr \<Rightarrow> qptr option) \<Rightarrow> qptr \<Rightarrow> qptr list option" where
  "chain_from nx x =
     (case nx x of None \<Rightarrow> Some [x] | Some y \<Rightarrow> do { p \<leftarrow> chain_from nx y; Some (x # p) })"

definition queue_path :: "lockless_queue \<Rightarrow> qptr list" where
  "queue_path q = (case chain_from (nxt q) (tail q) of None \<Rightarrow> [] | Some p \<Rightarrow> p)"

definition queue_contents :: "lockless_queue \<Rightarrow> addr list" where
  "queue_contents q = nodes (queue_path q)"

definition queue_inv :: "lockless_queue \<Rightarrow> bool" where
  "queue_inv q \<longleftrightarrow> linked (nxt q) (queue_path q) \<and> distinct (queue_path q) \<and>
     hd (queue_path q) = tail q \<and> last (queue_path q) = head q"

lemma nodes_append [simp]: "nodes (p @ p') = nodes p @ nodes p'"
  by (induction p rule: nodes.induct) simp_all

lemma set_nodes: "n \<in> set (nodes p) \<longleftrightarrow> Node n \<in> set p"
  by (induction p rule: nodes.induct) auto

lemma length_nodes:
  "distinct p \<Longrightarrow> length (nodes p) = (if Stub \<in> set p then length p - 1 else length p)"
proof (induction p rule: nodes.induct)
  case (3 n p)
  then show ?case by (cases p) auto
qed auto

lemma linked_chain: "linked nx (x # p) \<Longrightarrow> chain_from nx x = Some (x # p)"
proof (induction p arbitrary: x)
  case Nil
  then show ?case by (subst chain_from.simps) simp
next
  case (Cons y p)
  then show ?case by (subst chain_from.simps) simp
qed

lemma linked_last: "linked nx p \<Longrightarrow> nx (last p) = None"
  by (induction nx p rule: linked.induct) auto

lemma linked_Cons: "linked nx (x # p) \<longleftrightarrow> (if p = [] then nx x = None else nx x = Some (hd p) \<and> linked nx p)"
  by (cases p) auto

lemma linked_cong: "(\<And>x. x \<in> set p \<Longrightarrow> nx x = ny x) \<Longrightarrow> linked nx p = linked ny p"
  by (induction nx p rule: linked.induct) auto

lemma linked_snoc:
  "linked nx p \<Longrightarrow> distinct p \<Longrightarrow> n \<notin> set p \<Longrightarrow> linked (nx(n := None, last p := Some n)) (p @ [n])"
proof (induction nx p rule: linked.induct)
  case (3 nx x y p)
  let ?f = "nx(n := None, last (y # p) := Some n)"
  have "linked nx (y # p)" "distinct (y # p)" "n \<notin> set (y # p)" using 3 by simp_all
  then have "linked ?f ((y # p) @ [n])" by (rule 3(1))
  moreover have "x \<noteq> last (y # p)" using 3(3) last_in_set [of "y # p"] by auto
  moreover have "nx x = Some y" "x \<noteq> n" using 3(2,4) by auto
  ultimately have "linked ?f ((x # y # p) @ [n])"
    by (simp only: append_Cons linked.simps fun_upd_apply if_False)
  moreover have "last (x # y # p) = last (y # p)" by simp
  ultimately show ?case by (simp only:)
qed auto

text \<open>A linked path is the queue's path: the invariant in the form proofs use.\<close>

definition on_path :: "lockless_queue \<Rightarrow> qptr list \<Rightarrow> bool" where
  "on_path q p \<longleftrightarrow> linked (nxt q) p \<and> distinct p \<and> hd p = tail q \<and> last p = head q"

lemma on_pathD:
  assumes "on_path q p"
  shows "queue_path q = p" and "queue_inv q" and "queue_contents q = nodes p" and "p \<noteq> []"
proof -
  show ne: "p \<noteq> []" using assms by (auto simp: on_path_def)
  then obtain x r where p: "p = x # r" by (cases p) auto
  then have "chain_from (nxt q) (tail q) = Some p"
    using assms linked_chain by (auto simp: on_path_def)
  then show "queue_path q = p" by (simp add: queue_path_def)
  with assms show "queue_inv q" "queue_contents q = nodes p"
    by (simp_all add: queue_inv_def on_path_def queue_contents_def)
qed

lemma queue_inv_path: "queue_inv q \<Longrightarrow> on_path q (queue_path q)"
  by (simp add: queue_inv_def on_path_def)

lemma on_path_init: "on_path (lockless_queue_init q) [Stub]"
  by (simp add: on_path_def lockless_queue_init_def)

lemma on_path_push:
  assumes "on_path q p" and "n \<notin> set p"
  shows "on_path (lockless_queue_mpsc_push q n) (p @ [n])"
proof -
  have "hd (p @ [n]) = tail q" using assms on_pathD(4) [OF assms(1)] by (simp add: on_path_def)
  then show ?thesis
    using assms linked_snoc [of "nxt q" p n] by (simp add: on_path_def lockless_queue_mpsc_push_def Let_def)
qed

lemma on_path_tail:
  "on_path q (x # y # p) \<Longrightarrow> on_path (q\<lparr>tail := y\<rparr>) (y # p)"
  by (simp add: on_path_def)

lemma on_path_head_iff: "on_path q (x # p) \<Longrightarrow> x = head q \<longleftrightarrow> p = []"
  by (auto simp: on_path_def dest: last_in_set split: if_splits)

lemma on_path_nxt: "on_path q (x # p) \<Longrightarrow> nxt q x = (case p of [] \<Rightarrow> None | y # _ \<Rightarrow> Some y)"
  by (cases p) (auto simp: on_path_def)

lemma pop_behind_stub_law:
  assumes "on_path q (x # p)" and "x \<noteq> Stub"
    and "pop_behind_stub q x (nxt q x) = (r, q')"
  shows "r = Some x \<and> on_path q' (if p = [] then [Stub] else p)"
proof (cases p)
  case Nil
  have "x = head q" using on_path_head_iff [OF assms(1)] Nil by simp
  moreover have "on_path (lockless_queue_mpsc_push q Stub) [x, Stub]"
    using on_path_push [OF assms(1), of Stub] assms(2) Nil by simp
  moreover from this have "nxt (lockless_queue_mpsc_push q Stub) x = Some Stub"
    unfolding on_path_def by (simp only: linked.simps)
  ultimately show ?thesis
    using assms(1,3) Nil on_path_tail [of "lockless_queue_mpsc_push q Stub" x Stub "[]"]
    by (auto simp: pop_behind_stub_def on_path_nxt Let_def)
next
  case (Cons y s)
  then show ?thesis using assms on_path_tail [of q x y s]
    by (auto simp: pop_behind_stub_def on_path_nxt)
qed

lemma pop_law:
  assumes "queue_inv q" and "lockless_queue_mpsc_pop q = (r, q')"
  shows "queue_inv q' \<and>
    (case queue_contents q of
       [] \<Rightarrow> r = None \<and> queue_contents q' = []
     | n # ns \<Rightarrow> r = Some (Node n) \<and> queue_contents q' = ns)"
proof -
  let ?p = "queue_path q"
  have P: "on_path q ?p" using assms(1) by (rule queue_inv_path)
  have d: "distinct ?p" using P by (simp add: on_path_def)
  obtain x p where p: "?p = x # p" using on_pathD(4) [OF P] by (cases ?p) auto
  have t: "tail q = x" using P p by (simp add: on_path_def)
  have keep: "queue_inv q' \<and> queue_contents q' = nodes s"
    if "on_path q' (if s = [] then [Stub] else s)" for s
    using on_pathD(2,3) [OF that] by (cases s) auto
  show ?thesis
  proof (cases x)
    case Stub
    show ?thesis
    proof (cases p)
      case Nil
      then show ?thesis using assms(2) P p t Stub assms(1)
        by (auto simp: lockless_queue_mpsc_pop_def on_path_nxt queue_contents_def)
    next
      case (Cons y s)
      have y: "y \<noteq> Stub" using d p Cons Stub by auto
      have P': "on_path (q\<lparr>tail := y\<rparr>) (y # s)" using P p Cons on_path_tail by simp
      have "pop_behind_stub (q\<lparr>tail := y\<rparr>) y (nxt (q\<lparr>tail := y\<rparr>) y) = (r, q')"
        using assms(2) P p t Stub Cons by (simp add: lockless_queue_mpsc_pop_def on_path_nxt Let_def)
      from pop_behind_stub_law [OF P' y this] y p Cons Stub keep [of s]
      show ?thesis by (cases y) (auto simp: queue_contents_def)
    qed
  next
    case (Node n)
    then have "x \<noteq> Stub" by simp
    moreover have "pop_behind_stub q x (nxt q x) = (r, q')"
      using assms(2) t Node by (simp add: lockless_queue_mpsc_pop_def Let_def)
    ultimately show ?thesis
      using pop_behind_stub_law [of q x p r q'] P p Node keep [of p] by (auto simp: queue_contents_def)
  qed
qed

lemma push_law:
  assumes "queue_inv q" and "n \<notin> set (queue_contents q)"
  shows "queue_inv (lockless_queue_mpsc_push q (Node n)) \<and>
         queue_contents (lockless_queue_mpsc_push q (Node n)) = queue_contents q @ [n]"
proof -
  have "Node n \<notin> set (queue_path q)" using assms(2) by (simp add: queue_contents_def set_nodes)
  from on_path_push [OF queue_inv_path [OF assms(1)] this]
  show ?thesis using on_pathD(2,3) by (simp add: queue_contents_def)
qed

section \<open>The queue contract\<close>

fun queue_put :: "lockless_queue \<Rightarrow> addr list \<Rightarrow> nat \<times> lockless_queue" where
  "queue_put q [] = (0, q)"
| "queue_put q (n # ns) =
     (let (k, q') = queue_put (lockless_queue_mpsc_push q (Node n)) ns in (Suc k, q'))"

fun queue_get :: "lockless_queue \<Rightarrow> nat \<Rightarrow> addr list \<times> lockless_queue" where
  "queue_get q 0 = ([], q)"
| "queue_get q (Suc k) =
     (case lockless_queue_mpsc_pop q of
        (Some (Node n), q') \<Rightarrow> let (ns, q'') = queue_get q' k in (n # ns, q'')
      | (_, q') \<Rightarrow> ([], q'))"

definition push_ok :: "lockless_queue \<Rightarrow> addr list \<Rightarrow> bool" where
  "push_ok q ns \<longleftrightarrow> distinct ns \<and> set ns \<inter> set (queue_contents q) = {}"

lemma queue_put_law:
  "queue_inv q \<Longrightarrow> push_ok q ns \<Longrightarrow> queue_put q ns = (k, q') \<Longrightarrow>
   queue_inv q' \<and> k = length ns \<and> queue_contents q' = queue_contents q @ ns"
proof (induction ns arbitrary: q k)
  case (Cons n ns)
  let ?q = "lockless_queue_mpsc_push q (Node n)"
  have "n \<notin> set (queue_contents q)" using Cons.prems(2) by (auto simp: push_ok_def)
  note P = push_law [OF Cons.prems(1) this]
  then have "push_ok ?q ns" using Cons.prems(2) by (auto simp: push_ok_def)
  moreover obtain j where "queue_put ?q ns = (j, q')" "k = Suc j"
    using Cons.prems(3) by (auto split: prod.splits)
  ultimately show ?case using Cons.IH [of ?q j] P by simp
qed simp

lemma queue_get_law:
  "queue_inv q \<Longrightarrow> queue_get q k = (ns, q') \<Longrightarrow>
   queue_inv q' \<and> queue_contents q = ns @ queue_contents q'"
proof (induction k arbitrary: q ns)
  case (Suc k)
  obtain r q1 where pop: "lockless_queue_mpsc_pop q = (r, q1)" by (rule prod.exhaust)
  note L = pop_law [OF Suc.prems(1) pop]
  show ?case
  proof (cases "queue_contents q")
    case Nil
    then have c: "r = None" "queue_inv q1" "queue_contents q1 = []" using L by simp_all
    have "queue_get q (Suc k) = ([], q1)" by (simp add: pop c(1))
    then have "ns = []" "q' = q1" using Suc.prems(2) by simp_all
    then show ?thesis using c Nil by simp
  next
    case (Cons n c)
    then have c: "r = Some (Node n)" "queue_inv q1" "queue_contents q1 = c" using L by simp_all
    obtain ms q2 where g: "queue_get q1 k = (ms, q2)" by (rule prod.exhaust)
    then have "queue_get q (Suc k) = (n # ms, q2)" by (simp add: pop c(1))
    then have e: "q' = q2" "ns = n # ms" using Suc.prems(2) by simp_all
    then have "queue_inv q2 \<and> c = ms @ queue_contents q2"
      using Suc.IH [OF c(2), of ms] g c(3) by simp
    then show ?thesis using e Cons by (auto simp del: queue_get.simps)
  qed
qed simp

interpretation lq: fifo queue_inv queue_contents push_ok queue_put queue_get "\<lambda>_ _. False"
proof
  fix q q' ns k
  assume "queue_inv q" "push_ok q ns" "queue_put q ns = (k, q')"
  from queue_put_law [OF this]
  show "queue_inv q' \<and> queue_contents q' = queue_contents q @ take k ns" by simp
next
  fix q q' n ys
  assume "queue_inv q" "queue_get q n = (ys, q')"
  from queue_get_law [OF this] show "queue_inv q' \<and> queue_contents q = ys @ queue_contents q'" by simp
qed simp

lemma queue_init: "queue_inv (lockless_queue_init q)" "queue_contents (lockless_queue_init q) = []"
  using on_pathD(2,3) [OF on_path_init] by simp_all

lemma count_linked:
  "linked nx (x # p) \<Longrightarrow> count_from nx (Some x) c = Some (c + word_of_nat (length (x # p)))"
proof (induction p arbitrary: x c)
  case Nil
  then show ?case by (subst count_from.simps) (simp add: count_from.simps [of nx None])
next
  case (Cons y p)
  then have "nx x = Some y" "linked nx (y # p)" by simp_all
  with Cons.IH [of y "c + 1"] show ?case by (simp add: count_from.simps [of nx "Some x"] algebra_simps)
qed

lemma queue_count_value:
  assumes "queue_inv q"
  shows "lockless_queue_count q =
     Some (word_of_nat (length (queue_contents q) +
       (if tail q \<noteq> Stub \<and> Stub \<in> set (queue_path q) then 1 else 0)))"
proof -
  let ?p = "queue_path q"
  have P: "on_path q ?p" using assms by (rule queue_inv_path)
  obtain x p where p: "?p = x # p" using on_pathD(4) [OF P] by (cases ?p) auto
  have t: "tail q = x" using P unfolding p on_path_def by simp
  have d: "distinct (x # p)" and l: "linked (nxt q) (x # p)"
    using P unfolding p on_path_def by blast+
  note len = length_nodes [OF d]
  have h: "x = head q \<longleftrightarrow> p = []" using on_path_head_iff P p by simp
  show ?thesis
  proof (cases x)
    case Stub
    then show ?thesis
    proof (cases p)
      case Nil
      then show ?thesis using Stub t h p
        by (simp add: lockless_queue_count_def lockless_queue_empty_def queue_contents_def)
    next
      case (Cons y s)
      with l have "nxt q x = Some y" "linked (nxt q) (y # s)" by simp_all
      then show ?thesis using Stub t h p Cons count_linked [of "nxt q" y s 0] len
        by (simp add: lockless_queue_count_def lockless_queue_empty_def queue_contents_def)
    qed
  next
    case (Node n)
    then show ?thesis using t p l count_linked [of "nxt q" x p 0] len
      by (auto simp: lockless_queue_count_def lockless_queue_empty_def queue_contents_def)
  qed
qed

section \<open>Properties\<close>

text \<open>
  calls that do not overlap make the queue a FIFO: whatever pushes and pops are made
  after \<open>lockless_queue_init\<close>, the messages popped, followed by those still linked between
  tail and head, are the messages pushed, in push order.\<close>

theorem lockless_queue_run_is_fifo:
  assumes "fifo_run push_ok queue_put queue_get (\<lambda>_ _. False) (lockless_queue_init q) ins outs t"
  shows "ins = outs @ queue_contents t \<and> queue_inv t"
  using lq.run_conserves [OF assms queue_init(1)] queue_init(2) by simp

lemma lockless_queue_run_is_fifo_witness:
  "let q = lockless_queue_init \<lparr>head = Stub, tail = Stub, nxt = (\<lambda>_. None)\<rparr>;
       q' = snd (queue_get (snd (queue_put q [5, 6])) 1)
   in [5, 6] = [5] @ queue_contents q' \<and> queue_inv q'"
proof -
  let ?z = "\<lparr>head = Stub, tail = Stub, nxt = (\<lambda>_. None)\<rparr>"
  let ?q = "lockless_queue_init ?z"
  let ?p = "snd (queue_put ?q [5, 6])" and ?g = "\<lambda>p. snd (queue_get p 1)"
  have a: "push_ok ?q [5, 6]" by (simp add: push_ok_def queue_init)
  have p: "queue_put ?q [5, 6] = (2, ?p)" by (simp add: Let_def case_prod_beta)
  have "fst (queue_get ?p 1) = [5]"
    by (simp add: lockless_queue_mpsc_pop_def lockless_queue_mpsc_push_def lockless_queue_init_def
        pop_behind_stub_def Let_def numeral_eq_Suc)
  then have g: "queue_get ?p 1 = ([5], ?g ?p)" by (simp add: prod_eq_iff)
  have "fifo_run push_ok queue_put queue_get (\<lambda>_ _. False) ?q ([] @ take 2 [5, 6]) [] ?p"
    by (rule run_put, rule run_start, rule a, rule p)
  from run_get [OF this g]
  have "fifo_run push_ok queue_put queue_get (\<lambda>_ _. False) ?q [5, 6] [5] (?g ?p)" by simp
  from lockless_queue_run_is_fifo [OF this] show ?thesis unfolding Let_def .
qed

text \<open>
  On a queue with no call in progress \<open>lockless_queue_count\<close> ends, and its result is the
  number of queued messages, except when the stub has been left between two messages: the
  walk counts the stub too, one message too many.\<close>

theorem lockless_queue_count_result:
  assumes "queue_inv q"
  shows "lockless_queue_count q =
     Some (word_of_nat (length (queue_contents q) +
       (if tail q \<noteq> Stub \<and> Stub \<in> set (queue_path q) then 1 else 0)))"
  using assms by (rule queue_count_value)

lemma lockless_queue_count_result_witness:
  "let q = \<lparr>head = Node 3, tail = Node 1,
            nxt = (\<lambda>_. None)(Node 1 := Some Stub, Stub := Some (Node 3))\<rparr>
   in queue_contents q = [1, 3] \<and> lockless_queue_count q = Some 3"
proof -
  let ?q = "\<lparr>head = Node 3, tail = Node 1,
            nxt = (\<lambda>_. None)(Node 1 := Some Stub, Stub := Some (Node 3))\<rparr>"
  have p: "on_path ?q [Node 1, Stub, Node 3]" by (simp add: on_path_def)
  from lockless_queue_count_result [OF on_pathD(2) [OF p]] on_pathD(1,3) [OF p]
  show ?thesis by simp
qed

end
