(* ===== verification/Lockless_Threads.thy ===== *)
theory Lockless_Threads
  imports Lockless_Queue
begin

text \<open>
  The queue of \<open>Lockless_Queue\<close> under its real use: any number of application threads in
  \<open>lockless_queue_mpsc_push\<close> and one protocol stack thread in \<open>lockless_queue_mpsc_pop\<close>,
  interleaved at every access to a shared field (\<open>head\<close>, or the \<open>next\<close> of a node). A push
  that has exchanged \<open>head\<close> and not yet stored its link leaves the list broken in the
  middle; the pop then finds no successor and returns NULL rather than skipping ahead.
\<close>

section \<open>Program counters\<close>

datatype push_pc =
    PushIdle
  | PushExchange qptr \<comment> \<open>\<open>node->next = NULL\<close> done\<close>
  | PushLink qptr qptr \<comment> \<open>old head and node: \<open>head\<close> exchanged, link not stored\<close>

datatype pop_pc =
    PopIdle
  | PopSkipped \<comment> \<open>the stub skipped, \<open>next->next\<close> not read\<close>
  | PopRead "qptr option" \<comment> \<open>\<open>tail->next\<close> read\<close>
  | PopStub \<comment> \<open>\<open>tail == head\<close> seen, about to push the stub\<close>
  | PopExchange \<comment> \<open>\<open>stub.next = NULL\<close> done\<close>
  | PopLink qptr \<comment> \<open>old head: \<open>head\<close> is the stub, link not stored\<close>
  | PopReread \<comment> \<open>stub pushed, \<open>tail->next\<close> to be read again\<close>

record queue_threads =
  queue :: lockless_queue
  pushers :: "nat \<Rightarrow> push_pc"
  popper :: pop_pc
  order :: "qptr list" \<comment> \<open>ghost: the nodes from tail to head in the order of the exchanges\<close>
  pushed :: "addr list" \<comment> \<open>ghost: messages whose exchange has happened\<close>
  popped :: "addr list" \<comment> \<open>ghost: messages returned by a pop\<close>

text \<open>The return of a pop: \<open>tail\<close> moves on and the old tail node is handed out.\<close>

definition pop_return :: "queue_threads \<Rightarrow> qptr \<Rightarrow> queue_threads" where
  "pop_return s n =
     s\<lparr>queue := (queue s)\<lparr>tail := n\<rparr>, popper := PopIdle, order := tl (order s),
       popped := popped s @ nodes [tail (queue s)]\<rparr>"

section \<open>The steps\<close>

inductive queue_step :: "queue_threads \<Rightarrow> queue_threads \<Rightarrow> bool" where
  push_begin: "pushers s i = PushIdle \<Longrightarrow> Node n \<notin> set (order s) \<Longrightarrow>
     (\<forall>j. pushers s j \<noteq> PushExchange (Node n)) \<Longrightarrow>
     queue_step s (s\<lparr>queue := (queue s)\<lparr>nxt := (nxt (queue s))(Node n := None)\<rparr>,
                     pushers := (pushers s)(i := PushExchange (Node n))\<rparr>)"
| push_exchange: "pushers s i = PushExchange n \<Longrightarrow>
     queue_step s (s\<lparr>queue := (queue s)\<lparr>head := n\<rparr>,
                     pushers := (pushers s)(i := PushLink (head (queue s)) n),
                     order := order s @ [n], pushed := pushed s @ nodes [n]\<rparr>)"
| push_link: "pushers s i = PushLink old n \<Longrightarrow>
     queue_step s (s\<lparr>queue := (queue s)\<lparr>nxt := (nxt (queue s))(old := Some n)\<rparr>,
                     pushers := (pushers s)(i := PushIdle)\<rparr>)"
| pop_begin: "popper s = PopIdle \<Longrightarrow> tail (queue s) \<noteq> Stub \<Longrightarrow>
     queue_step s (s\<lparr>popper := PopRead (nxt (queue s) (tail (queue s)))\<rparr>)"
| pop_empty: "popper s = PopIdle \<Longrightarrow> tail (queue s) = Stub \<Longrightarrow> nxt (queue s) Stub = None \<Longrightarrow>
     queue_step s s"
| pop_skip: "popper s = PopIdle \<Longrightarrow> tail (queue s) = Stub \<Longrightarrow> nxt (queue s) Stub = Some n \<Longrightarrow>
     queue_step s (s\<lparr>queue := (queue s)\<lparr>tail := n\<rparr>, popper := PopSkipped, order := tl (order s)\<rparr>)"
| pop_second: "popper s = PopSkipped \<Longrightarrow>
     queue_step s (s\<lparr>popper := PopRead (nxt (queue s) (tail (queue s)))\<rparr>)"
| pop_found: "popper s = PopRead (Some n) \<Longrightarrow> queue_step s (pop_return s n)"
| pop_broken: "popper s = PopRead None \<Longrightarrow> tail (queue s) \<noteq> head (queue s) \<Longrightarrow>
     queue_step s (s\<lparr>popper := PopIdle\<rparr>)"
| pop_last: "popper s = PopRead None \<Longrightarrow> tail (queue s) = head (queue s) \<Longrightarrow>
     queue_step s (s\<lparr>popper := PopStub\<rparr>)"
| pop_stub: "popper s = PopStub \<Longrightarrow>
     queue_step s (s\<lparr>queue := (queue s)\<lparr>nxt := (nxt (queue s))(Stub := None)\<rparr>, popper := PopExchange\<rparr>)"
| pop_exchange: "popper s = PopExchange \<Longrightarrow>
     queue_step s (s\<lparr>queue := (queue s)\<lparr>head := Stub\<rparr>, popper := PopLink (head (queue s)),
                     order := order s @ [Stub]\<rparr>)"
| pop_link: "popper s = PopLink old \<Longrightarrow>
     queue_step s (s\<lparr>queue := (queue s)\<lparr>nxt := (nxt (queue s))(old := Some Stub)\<rparr>, popper := PopReread\<rparr>)"
| pop_again: "popper s = PopReread \<Longrightarrow> nxt (queue s) (tail (queue s)) = Some n \<Longrightarrow>
     queue_step s (pop_return s n)"
| pop_none: "popper s = PopReread \<Longrightarrow> nxt (queue s) (tail (queue s)) = None \<Longrightarrow>
     queue_step s (s\<lparr>popper := PopIdle\<rparr>)"

definition queue_start :: queue_threads where
  "queue_start = \<lparr>queue = lockless_queue_init \<lparr>head = Stub, tail = Stub, nxt = (\<lambda>_. None)\<rparr>,
     pushers = (\<lambda>_. PushIdle), popper = PopIdle, order = [Stub], pushed = [], popped = []\<rparr>"

definition queue_reachable :: "queue_threads \<Rightarrow> bool" where
  "queue_reachable s \<longleftrightarrow> queue_step\<^sup>*\<^sup>* queue_start s"

section \<open>The invariant\<close>

text \<open>A thread owes a link between its exchange and its store.\<close>

definition owes :: "queue_threads \<Rightarrow> nat option \<Rightarrow> qptr \<Rightarrow> qptr \<Rightarrow> bool" where
  "owes s a x y \<longleftrightarrow> (case a of Some i \<Rightarrow> pushers s i = PushLink x y
                    | None \<Rightarrow> popper s = PopLink x \<and> y = Stub)"

definition adjacent :: "'a list \<Rightarrow> 'a \<Rightarrow> 'a \<Rightarrow> bool" where
  "adjacent p x y \<longleftrightarrow> (\<exists>us vs. p = us @ x # y # vs)"

definition links :: "qptr list \<Rightarrow> (qptr \<Rightarrow> qptr option) \<Rightarrow> (nat option \<Rightarrow> qptr \<Rightarrow> qptr \<Rightarrow> bool) \<Rightarrow> bool" where
  "links p nx W \<longleftrightarrow>
     (\<forall>x y. adjacent p x y \<longrightarrow> nx x = Some y \<or> nx x = None \<and> (\<exists>a. W a x y)) \<and>
     (\<forall>a x y. W a x y \<longrightarrow> adjacent p x y \<and> nx x = None) \<and>
     (\<forall>a b x y z. W a x y \<longrightarrow> W b x z \<longrightarrow> a = b) \<and>
     (\<forall>a x x' y y'. W a x y \<longrightarrow> W a x' y' \<longrightarrow> x = x' \<and> y = y') \<and>
     nx (last p) = None"

definition links_inv :: "queue_threads \<Rightarrow> bool" where
  "links_inv s \<longleftrightarrow> links (order s) (nxt (queue s)) (owes s)"

definition order_inv :: "queue_threads \<Rightarrow> bool" where
  "order_inv s \<longleftrightarrow> order s \<noteq> [] \<and> distinct (order s) \<and> hd (order s) = tail (queue s) \<and>
     last (order s) = head (queue s) \<and> pushed s = popped s @ nodes (order s)"

definition fresh_inv :: "queue_threads \<Rightarrow> bool" where
  "fresh_inv s \<longleftrightarrow>
     (\<forall>i n. pushers s i = PushExchange n \<longrightarrow> n \<noteq> Stub \<and> n \<notin> set (order s) \<and> nxt (queue s) n = None) \<and>
     (\<forall>i j n. pushers s i = PushExchange n \<longrightarrow> pushers s j = PushExchange n \<longrightarrow> i = j)"

definition popper_inv :: "queue_threads \<Rightarrow> bool" where
  "popper_inv s \<longleftrightarrow> (popper s \<noteq> PopIdle \<longrightarrow> tail (queue s) \<noteq> Stub) \<and>
     (popper s \<in> {PopStub, PopExchange} \<longrightarrow> Stub \<notin> set (order s)) \<and>
     (popper s = PopExchange \<longrightarrow> nxt (queue s) Stub = None) \<and>
     (\<forall>n. popper s = PopRead (Some n) \<longrightarrow> nxt (queue s) (tail (queue s)) = Some n)"

definition queue_threads_inv :: "queue_threads \<Rightarrow> bool" where
  "queue_threads_inv s \<longleftrightarrow> links_inv s \<and> order_inv s \<and> fresh_inv s \<and> popper_inv s"

section \<open>Adjacent nodes\<close>

lemma adjacent_in: "adjacent p x y \<Longrightarrow> x \<in> set p \<and> y \<in> set p"
  by (auto simp: adjacent_def)

lemma adjacent_last: "adjacent p x y \<Longrightarrow> distinct p \<Longrightarrow> x \<noteq> last p"
proof
  assume a: "adjacent p x y" "distinct p" "x = last p"
  then obtain us vs where p: "p = us @ x # y # vs" by (auto simp: adjacent_def)
  with a(2) have "x \<notin> set (y # vs)" by simp
  moreover have "last p \<in> set (y # vs)" using p last_in_set [of "y # vs"] by simp
  ultimately show False using a(3) by simp
qed

lemma adjacent_snoc:
  assumes "p \<noteq> []"
  shows "adjacent (p @ [z]) x y \<longleftrightarrow> adjacent p x y \<or> x = last p \<and> y = z"
proof
  assume "adjacent (p @ [z]) x y"
  then obtain us vs where e: "p @ [z] = us @ x # y # vs" by (auto simp: adjacent_def)
  show "adjacent p x y \<or> x = last p \<and> y = z"
  proof (cases vs rule: rev_cases)
    case Nil
    then have "p = us @ [x]" "z = y" using e by simp_all
    then show ?thesis by simp
  next
    case (snoc ws w)
    then have "p = us @ x # y # ws" using e by simp
    then show ?thesis by (auto simp: adjacent_def)
  qed
next
  assume "adjacent p x y \<or> x = last p \<and> y = z"
  then show "adjacent (p @ [z]) x y"
  proof
    assume "adjacent p x y"
    then obtain us vs where "p = us @ x # y # vs" by (auto simp: adjacent_def)
    then have "p @ [z] = us @ x # y # (vs @ [z])" by simp
    then show ?thesis unfolding adjacent_def by blast
  next
    assume a: "x = last p \<and> y = z"
    have "p = butlast p @ [last p]" using assms by simp
    with a show ?thesis unfolding adjacent_def by (intro exI [of _ "butlast p"] exI [of _ "[]"]) simp
  qed
qed

lemma adjacent_Cons: "adjacent (a # p) x y \<longleftrightarrow> x = a \<and> p \<noteq> [] \<and> y = hd p \<or> adjacent p x y"
proof
  assume "adjacent (a # p) x y"
  then obtain us vs where e: "a # p = us @ x # y # vs" by (auto simp: adjacent_def)
  then show "x = a \<and> p \<noteq> [] \<and> y = hd p \<or> adjacent p x y"
    by (cases us) (auto simp: adjacent_def)
next
  assume "x = a \<and> p \<noteq> [] \<and> y = hd p \<or> adjacent p x y"
  then show "adjacent (a # p) x y"
  proof
    assume "x = a \<and> p \<noteq> [] \<and> y = hd p"
    then have "a # p = [] @ x # y # tl p" by simp
    then show ?thesis unfolding adjacent_def by blast
  next
    assume "adjacent p x y"
    then obtain us vs where "p = us @ x # y # vs" by (auto simp: adjacent_def)
    then have "a # p = (a # us) @ x # y # vs" by simp
    then show ?thesis unfolding adjacent_def by blast
  qed
qed

lemma adjacent_unique: "adjacent p x y \<Longrightarrow> adjacent p x z \<Longrightarrow> distinct p \<Longrightarrow> y = z"
  by (induction p) (auto simp: adjacent_Cons dest: adjacent_in)

section \<open>What the shared accesses do to the links\<close>

lemma linksD:
  assumes "links p nx W"
  shows "adjacent p x y \<Longrightarrow> nx x = Some y \<or> nx x = None \<and> (\<exists>a. W a x y)"
    and "W a x y \<Longrightarrow> adjacent p x y" and "W a x y \<Longrightarrow> nx x = None"
    and "W a x y \<Longrightarrow> W b x z \<Longrightarrow> a = b"
    and "W a x y \<Longrightarrow> W a x' y' \<Longrightarrow> x = x' \<and> y = y'"
    and "nx (last p) = None"
  using assms unfolding links_def by blast+

lemma links_exchange:
  assumes L: "links p nx W" and p: "p \<noteq> []" "distinct p" "n \<notin> set p" and n: "nx n = None"
    and a: "\<And>x y. \<not> W a x y"
  shows "links (p @ [n]) nx (\<lambda>b x y. if b = a then x = last p \<and> y = n else W b x y)"
proof -
  have old: "\<not> W b (last p) y" for b y
    using L adjacent_last [of p "last p" y] p(2) unfolding links_def by blast
  have none: "nx (last p) = None" using L by (simp add: links_def)
  show ?thesis unfolding links_def
  proof (intro conjI allI impI)
    fix x y assume "adjacent (p @ [n]) x y"
    then consider "adjacent p x y" | "x = last p" "y = n" using adjacent_snoc [OF p(1)] by blast
    then show "nx x = Some y \<or> nx x = None \<and> (\<exists>b. if b = a then x = last p \<and> y = n else W b x y)"
    proof cases
      case 1
      then show ?thesis using L a unfolding links_def by metis
    next
      case 2
      then show ?thesis using none by auto
    qed
  next
    fix b x y assume "if b = a then x = last p \<and> y = n else W b x y"
    then show "adjacent (p @ [n]) x y" "nx x = None"
      using L none unfolding links_def adjacent_snoc [OF p(1)] by (auto split: if_splits)
  next
    fix b c x y z
    assume "if b = a then x = last p \<and> y = n else W b x y" "if c = a then x = last p \<and> z = n else W c x z"
    then have "b = c \<or> W b x y \<and> W c x z" using old by (auto split: if_splits)
    then show "b = c" using L unfolding links_def by blast
  next
    fix b x x' y y'
    assume o: "if b = a then x = last p \<and> y = n else W b x y" "if b = a then x' = last p \<and> y' = n else W b x' y'"
    then show "x = x'" "y = y'" using L unfolding links_def by (metis)+
  next
    show "nx (last (p @ [n])) = None" using n by simp
  qed
qed

lemma links_store:
  assumes L: "links p nx W" and a: "W a x y" and p: "distinct p"
  shows "links p (nx(x := Some y)) (\<lambda>b u v. b \<noteq> a \<and> W b u v)"
proof -
  have adj: "adjacent p x y" using L a by (simp add: links_def)
  have other: "u \<noteq> x" if "b \<noteq> a" "W b u v" for b u v
    using L a that unfolding links_def by blast
  show ?thesis unfolding links_def
  proof (intro conjI allI impI)
    fix u v assume uv: "adjacent p u v"
    show "(nx(x := Some y)) u = Some v \<or> (nx(x := Some y)) u = None \<and> (\<exists>b. b \<noteq> a \<and> W b u v)"
    proof (cases "u = x")
      case True
      then show ?thesis using adjacent_unique [OF uv _ p, of y] adj by simp
    next
      case False
      then show ?thesis using L a uv unfolding links_def by (metis fun_upd_other)
    qed
  next
    fix b u v assume "b \<noteq> a \<and> W b u v"
    then show "adjacent p u v" "(nx(x := Some y)) u = None"
      using L other [of b u v] unfolding links_def by auto
  next
    fix b c u v w assume "b \<noteq> a \<and> W b u v" "c \<noteq> a \<and> W c u w"
    then show "b = c" using L unfolding links_def by blast
  next
    fix b u u' v v' assume "b \<noteq> a \<and> W b u v" "b \<noteq> a \<and> W b u' v'"
    then show "u = u'" "v = v'" using L unfolding links_def by blast+
  next
    show "(nx(x := Some y)) (last p) = None"
      using L adjacent_last [OF adj p] by (simp add: links_def)
  qed
qed

lemma links_tl:
  assumes L: "links p nx W" and p: "p \<noteq> []" "distinct p" and n: "nx (hd p) = Some n"
  shows "links (tl p) nx W" and "tl p \<noteq> []" and "hd (tl p) = n" and "last (tl p) = last p"
proof -
  obtain x q where q: "p = x # q" using p by (cases p) auto
  have nx: "nx x = Some n" using n q by simp
  show ne: "tl p \<noteq> []"
  proof
    assume "tl p = []"
    then show False using linksD(6) [OF L] nx q by simp
  qed
  then have "adjacent p x (hd q)" using q by (simp add: adjacent_Cons)
  from linksD(1) [OF L this] show "hd (tl p) = n" using nx q by simp
  show last: "last (tl p) = last p" using ne q by simp
  have adj: "adjacent q u v" if w: "W a u v" for a u v
  proof -
    have "u \<noteq> x" using linksD(3) [OF L w] nx by auto
    then show ?thesis using linksD(2) [OF L w] q by (simp add: adjacent_Cons)
  qed
  have up: "adjacent p u v" if "adjacent q u v" for u v using that q by (simp add: adjacent_Cons)
  show "links (tl p) nx W" unfolding links_def last
  proof (intro conjI allI impI)
    fix u v assume "adjacent (tl p) u v"
    then show "nx u = Some v \<or> nx u = None \<and> (\<exists>a. W a u v)" using linksD(1) [OF L up] q by simp
  qed (use linksD(3-6) [OF L] adj q in auto)
qed

lemma links_frame:
  assumes L: "links p nx W" and e: "\<And>x. x \<in> set p \<Longrightarrow> ny x = nx x" and p: "p \<noteq> []"
  shows "links p ny W"
proof -
  have e: "ny x = nx x" if "adjacent p x y" for x y using adjacent_in [OF that] e by simp
  have l: "ny (last p) = nx (last p)" using assms(2,3) by simp
  show ?thesis unfolding links_def
  proof (intro conjI allI impI)
    fix u v assume a: "adjacent p u v"
    show "ny u = Some v \<or> ny u = None \<and> (\<exists>a. W a u v)" using linksD(1) [OF L a] e [OF a] by simp
  next
    fix a u v assume w: "W a u v"
    show "adjacent p u v" by (rule linksD(2) [OF L w])
    then show "ny u = None" using linksD(3) [OF L w] e by simp
  next
    show "ny (last p) = None" using l linksD(6) [OF L] by simp
  next
    fix a b x y z assume "W a x y" "W b x z"
    then show "a = b" by (rule linksD(4) [OF L])
  next
    fix a x x' y y' assume "W a x y" "W a x' y'"
    from linksD(5) [OF L this] show "x = x'" "y = y'" by simp_all
  qed
qed

lemma links_mono:
  assumes "links p nx W" and "\<And>a x y. W a x y = P a x y"
  shows "links p nx P"
proof -
  have "W = P" by (intro ext) (rule assms(2))
  with assms(1) show ?thesis by simp
qed

section \<open>Every step keeps the invariant\<close>

lemmas inv_defs = queue_threads_inv_def links_inv_def order_inv_def fresh_inv_def popper_inv_def

lemma threads_invD:
  assumes "queue_threads_inv s"
  shows "order s \<noteq> []" and "distinct (order s)" and "hd (order s) = tail (queue s)"
    and "last (order s) = head (queue s)" and "links (order s) (nxt (queue s)) (owes s)"
    and "pushed s = popped s @ nodes (order s)" and "tail (queue s) \<in> set (order s)"
    and "popper_inv s" and "fresh_inv s"
  using assms hd_in_set [of "order s"] unfolding queue_threads_inv_def order_inv_def links_inv_def by simp_all

lemma queue_start_inv: "queue_threads_inv queue_start"
  by (auto simp: inv_defs links_def adjacent_def owes_def queue_start_def lockless_queue_init_def
      split: option.splits)

lemma popper_move:
  assumes inv: "queue_threads_inv s" and "\<forall>x. popper s \<noteq> PopLink x" "\<forall>x. pc \<noteq> PopLink x"
    and "popper_inv (s\<lparr>popper := pc\<rparr>)"
  shows "queue_threads_inv (s\<lparr>popper := pc\<rparr>)"
proof -
  have "links (order s) (nxt (queue s)) (owes (s\<lparr>popper := pc\<rparr>))"
    by (rule links_mono [OF threads_invD(5) [OF inv]])
      (use assms(2,3) in \<open>simp add: owes_def split: option.splits\<close>)
  then show ?thesis using inv assms(4)
    by (simp add: queue_threads_inv_def links_inv_def order_inv_def fresh_inv_def)
qed

lemma push_begin_inv:
  assumes inv: "queue_threads_inv s" and i: "pushers s i = PushIdle" and n: "Node n \<notin> set (order s)"
    and fresh: "\<forall>j. pushers s j \<noteq> PushExchange (Node n)"
  shows "queue_threads_inv (s\<lparr>queue := (queue s)\<lparr>nxt := (nxt (queue s))(Node n := None)\<rparr>,
                     pushers := (pushers s)(i := PushExchange (Node n))\<rparr>)" (is "queue_threads_inv ?t")
proof -
  have "links (order s) ((nxt (queue s))(Node n := None)) (owes s)"
    by (rule links_frame [OF threads_invD(5) [OF inv] _ threads_invD(1) [OF inv]]) (use n in auto)
  then have "links (order s) ((nxt (queue s))(Node n := None)) (owes ?t)"
    by (rule links_mono) (use i in \<open>auto simp: owes_def split: option.splits\<close>)
  then have "links_inv ?t" by (simp add: links_inv_def)
  moreover have "fresh_inv ?t" using inv i n fresh by (auto simp: queue_threads_inv_def fresh_inv_def)
  moreover have "popper_inv ?t" using threads_invD(7) [OF inv] inv n by (auto simp: queue_threads_inv_def popper_inv_def)
  ultimately show ?thesis using inv by (simp add: queue_threads_inv_def order_inv_def)
qed

lemma push_exchange_inv:
  assumes inv: "queue_threads_inv s" and i: "pushers s i = PushExchange n"
  shows "queue_threads_inv (s\<lparr>queue := (queue s)\<lparr>head := n\<rparr>,
                     pushers := (pushers s)(i := PushLink (head (queue s)) n),
                     order := order s @ [n], pushed := pushed s @ nodes [n]\<rparr>)" (is "queue_threads_inv ?t")
proof -
  have n: "n \<noteq> Stub" "n \<notin> set (order s)" "nxt (queue s) n = None"
    and uniq: "pushers s j = PushExchange n \<Longrightarrow> j = i" for j
    using threads_invD(9) [OF inv] i by (auto simp: fresh_inv_def)
  have o: "order s \<noteq> []" "distinct (order s)" "last (order s) = head (queue s)"
    and L: "links (order s) (nxt (queue s)) (owes s)" using threads_invD [OF inv] by simp_all
  have "\<not> owes s (Some i) x y" for x y using i by (simp add: owes_def)
  from links_exchange [OF L o(1,2) n(2,3) this]
  have "links (order s @ [n]) (nxt (queue s)) (owes ?t)"
    by (rule links_mono) (auto simp: owes_def o(3) split: option.splits)
  then have "links_inv ?t" by (simp add: links_inv_def)
  moreover have "fresh_inv ?t" using inv uniq by (auto simp: queue_threads_inv_def fresh_inv_def)
  moreover have "popper_inv ?t" using inv n by (auto simp: queue_threads_inv_def popper_inv_def)
  ultimately show ?thesis using inv n o by (simp add: queue_threads_inv_def order_inv_def)
qed

lemma push_link_inv:
  assumes inv: "queue_threads_inv s" and i: "pushers s i = PushLink old n"
  shows "queue_threads_inv (s\<lparr>queue := (queue s)\<lparr>nxt := (nxt (queue s))(old := Some n)\<rparr>,
                     pushers := (pushers s)(i := PushIdle)\<rparr>)" (is "queue_threads_inv ?t")
proof -
  have o: "distinct (order s)" and L: "links (order s) (nxt (queue s)) (owes s)"
    using threads_invD [OF inv] by simp_all
  have w: "owes s (Some i) old n" using i by (simp add: owes_def)
  from links_store [OF L w o]
  have "links (order s) ((nxt (queue s))(old := Some n)) (owes ?t)"
    by (rule links_mono) (auto simp: owes_def split: option.splits)
  then have "links_inv ?t" by (simp add: links_inv_def)
  moreover have old: "nxt (queue s) old = None" "old \<in> set (order s)"
    using linksD(2,3) [OF L w] adjacent_in by fast+
  moreover have "fresh_inv ?t" using inv i old by (auto simp: queue_threads_inv_def fresh_inv_def)
  moreover have "popper_inv ?t" using threads_invD(8) [OF inv] old linksD(6) [OF L]
    by (auto simp: popper_inv_def) 
  ultimately show ?thesis using inv by (simp add: queue_threads_inv_def order_inv_def)
qed

lemma pop_stub_inv:
  assumes inv: "queue_threads_inv s" and p: "popper s = PopStub"
  shows "queue_threads_inv (s\<lparr>queue := (queue s)\<lparr>nxt := (nxt (queue s))(Stub := None)\<rparr>,
           popper := PopExchange\<rparr>)" (is "queue_threads_inv ?t")
proof -
  have n: "Stub \<notin> set (order s)" using threads_invD(8) [OF inv] p by (simp add: popper_inv_def)
  have "links (order s) ((nxt (queue s))(Stub := None)) (owes s)"
    by (rule links_frame [OF threads_invD(5) [OF inv] _ threads_invD(1) [OF inv]]) (use n in auto)
  then have "links (order s) ((nxt (queue s))(Stub := None)) (owes ?t)"
    by (rule links_mono) (auto simp: owes_def p split: option.splits)
  then show ?thesis using inv p n
    by (auto simp: queue_threads_inv_def links_inv_def order_inv_def fresh_inv_def popper_inv_def)
qed

lemma pop_exchange_inv:
  assumes inv: "queue_threads_inv s" and p: "popper s = PopExchange"
  shows "queue_threads_inv (s\<lparr>queue := (queue s)\<lparr>head := Stub\<rparr>, popper := PopLink (head (queue s)),
                     order := order s @ [Stub]\<rparr>)" (is "queue_threads_inv ?t")
proof -
  have n: "Stub \<notin> set (order s)" "nxt (queue s) Stub = None"
    using threads_invD(8) [OF inv] p by (auto simp: popper_inv_def)
  have o: "order s \<noteq> []" "distinct (order s)" "last (order s) = head (queue s)"
    and L: "links (order s) (nxt (queue s)) (owes s)" using threads_invD [OF inv] by simp_all
  have "\<not> owes s None x y" for x y using p by (simp add: owes_def)
  from links_exchange [OF L o(1,2) n this]
  have "links_inv ?t" unfolding links_inv_def
    by (simp, elim links_mono) (auto simp: owes_def o(3) split: option.splits)
  then show ?thesis using inv p n o by (auto simp: queue_threads_inv_def order_inv_def fresh_inv_def popper_inv_def)
qed

lemma pop_link_inv:
  assumes inv: "queue_threads_inv s" and p: "popper s = PopLink old"
  shows "queue_threads_inv (s\<lparr>queue := (queue s)\<lparr>nxt := (nxt (queue s))(old := Some Stub)\<rparr>,
           popper := PopReread\<rparr>)" (is "queue_threads_inv ?t")
proof -
  have o: "distinct (order s)" and L: "links (order s) (nxt (queue s)) (owes s)"
    using threads_invD [OF inv] by simp_all
  have w: "owes s None old Stub" using p by (simp add: owes_def)
  from links_store [OF L w o]
  have "links_inv ?t" unfolding links_inv_def
    by (simp, elim links_mono) (auto simp: owes_def split: option.splits)
  moreover have "old \<in> set (order s)" using linksD(2) [OF L w] adjacent_in by fast
  then have "fresh_inv ?t" using inv by (auto simp: queue_threads_inv_def fresh_inv_def)
  moreover have "popper_inv ?t" using inv p by (auto simp: queue_threads_inv_def popper_inv_def)
  ultimately show ?thesis using inv by (simp add: queue_threads_inv_def order_inv_def)
qed

text \<open>Moving \<open>tail\<close> along a stored link, with or without handing out the node left behind.\<close>

lemma drop_tail_inv:
  assumes inv: "queue_threads_inv s" and p: "\<forall>x. popper s \<noteq> PopLink x" "pc \<in> {PopIdle, PopSkipped}"
    and n: "nxt (queue s) (tail (queue s)) = Some n" and stub: "pc = PopSkipped \<Longrightarrow> n \<noteq> Stub"
  shows "queue_threads_inv (s\<lparr>queue := (queue s)\<lparr>tail := n\<rparr>, popper := pc, order := tl (order s),
           popped := popped s @ nodes [tail (queue s)]\<rparr>)" (is "queue_threads_inv ?t")
proof -
  have o: "order s \<noteq> []" "distinct (order s)" "hd (order s) = tail (queue s)"
    and L: "links (order s) (nxt (queue s)) (owes s)" using threads_invD [OF inv] by simp_all
  have h: "nxt (queue s) (hd (order s)) = Some n" using n o by simp
  note T = links_tl [OF L o(1,2) h]
  have "links (tl (order s)) (nxt (queue s)) (owes ?t)"
    by (rule links_mono [OF T(1)]) (use p in \<open>auto simp: owes_def split: option.splits\<close>)
  then have "links_inv ?t" by (simp add: links_inv_def)
  moreover have "order s = tail (queue s) # tl (order s)" using o by (metis list.collapse)
  then have "nodes (order s) = nodes [tail (queue s)] @ nodes (tl (order s))"
    by (metis nodes_append append_Cons append_Nil)
  then have "order_inv ?t"
    using inv T(2-4) o(2) by (simp add: queue_threads_inv_def order_inv_def distinct_tl)
  moreover have "set (tl (order s)) \<subseteq> set (order s)" using o by (cases "order s") auto
  then have "fresh_inv ?t" using inv by (auto simp: queue_threads_inv_def fresh_inv_def)
  moreover have "popper_inv ?t" using p stub by (auto simp: popper_inv_def)
  ultimately show ?thesis by (simp add: queue_threads_inv_def)
qed

lemma queue_step_inv: "queue_step s t \<Longrightarrow> queue_threads_inv s \<Longrightarrow> queue_threads_inv t"
proof (induction rule: queue_step.induct)
  case (push_begin s i n) then show ?case by (rule push_begin_inv [rotated])
next
  case (push_exchange s i n) then show ?case by (rule push_exchange_inv [rotated])
next
  case (push_link s i old n) then show ?case by (rule push_link_inv [rotated])
next
  case (pop_begin s)
  then show ?case by (intro popper_move) (auto simp: popper_inv_def)
next
  case (pop_skip s n)
  have o: "order s \<noteq> []" "distinct (order s)" "hd (order s) = Stub" "nxt (queue s) (hd (order s)) = Some n"
    and L: "links (order s) (nxt (queue s)) (owes s)"
    using pop_skip threads_invD [OF pop_skip(4)] by simp_all
  note T = links_tl [OF L o(1,2,4)]
  then have "n \<in> set (tl (order s))" using hd_in_set by fast
  moreover have "Stub \<notin> set (tl (order s))" using o by (cases "order s") auto
  ultimately have "n \<noteq> Stub" by auto
  then show ?case using drop_tail_inv [OF pop_skip(4), of PopSkipped n] pop_skip(1-3) by simp
next
  case (pop_second s)
  then show ?case by (intro popper_move) (auto simp: popper_inv_def dest: threads_invD(8))
next
  case (pop_found s n)
  then have "nxt (queue s) (tail (queue s)) = Some n"
    using threads_invD(8) [OF pop_found(2)] by (simp add: popper_inv_def)
  then show ?case using drop_tail_inv [OF pop_found(2), of PopIdle n] pop_found(1) by (simp add: pop_return_def)
next
  case (pop_broken s)
  then show ?case by (intro popper_move) (auto simp: popper_inv_def)
next
  case (pop_last s)
  note D = threads_invD [OF pop_last(3)]
  have "tail (queue s) \<noteq> Stub" using D(8) pop_last(1) by (simp add: popper_inv_def)
  moreover have "order s = [tail (queue s)]"
  proof (cases "order s")
    case (Cons x p)
    then have "p \<noteq> [] \<Longrightarrow> last p = x" using D(3,4) pop_last(2) by simp
    then show ?thesis using Cons D(2,3) last_in_set [of p] by (cases "p = []") auto
  qed (use D(1) in simp)
  ultimately show ?case using pop_last by (intro popper_move) (auto simp: popper_inv_def)
next
  case (pop_stub s) then show ?case by (rule pop_stub_inv [rotated])
next
  case (pop_exchange s) then show ?case by (rule pop_exchange_inv [rotated])
next
  case (pop_link s old) then show ?case by (rule pop_link_inv [rotated])
next
  case (pop_again s n)
  then show ?case using drop_tail_inv [OF pop_again(3), of PopIdle n] by (simp add: pop_return_def)
next
  case (pop_none s)
  then show ?case by (intro popper_move) (auto simp: popper_inv_def)
qed

lemma queue_reachable_inv: "queue_reachable s \<Longrightarrow> queue_threads_inv s"
  unfolding queue_reachable_def
  by (induction rule: rtranclp_induct) (auto intro: queue_start_inv queue_step_inv)

text \<open>Uninterrupted, the steps of a push and of a pop are the calls of \<open>Lockless_Queue\<close>.\<close>

lemma push_steps_are_the_call:
  assumes "pushers s i = PushIdle" and "Node n \<notin> set (order s)" and "\<forall>j. pushers s j \<noteq> PushExchange (Node n)"
  shows "\<exists>t. queue_step\<^sup>*\<^sup>* s t \<and> queue t = lockless_queue_mpsc_push (queue s) (Node n) \<and>
    pushers t = pushers s \<and> popper t = popper s \<and> pushed t = pushed s @ [n]"
proof -
  let ?a = "s\<lparr>queue := (queue s)\<lparr>nxt := (nxt (queue s))(Node n := None)\<rparr>,
              pushers := (pushers s)(i := PushExchange (Node n))\<rparr>"
  let ?b = "?a\<lparr>queue := (queue ?a)\<lparr>head := Node n\<rparr>,
              pushers := (pushers ?a)(i := PushLink (head (queue ?a)) (Node n)),
              order := order ?a @ [Node n], pushed := pushed ?a @ nodes [Node n]\<rparr>"
  let ?c = "?b\<lparr>queue := (queue ?b)\<lparr>nxt := (nxt (queue ?b))(head (queue s) := Some (Node n))\<rparr>,
              pushers := (pushers ?b)(i := PushIdle)\<rparr>"
  have "queue_step s ?a" using assms by (rule queue_step.push_begin)
  moreover have "queue_step ?a ?b" by (rule queue_step.push_exchange) simp
  moreover have "queue_step ?b ?c" by (rule queue_step.push_link) simp
  ultimately have "queue_step\<^sup>*\<^sup>* s ?c" by (meson converse_rtranclp_into_rtranclp rtranclp.rtrancl_refl)
  moreover have "pushers ?c = pushers s" using assms(1) by auto
  ultimately show ?thesis
    by (intro exI [of _ ?c]) (simp add: lockless_queue_mpsc_push_def Let_def)
qed

section \<open>Properties\<close>

text \<open>C1: for any number of pushing threads and every interleaving, the messages popped are a
  prefix, in order, of the messages pushed (in the order of their exchanges of \<open>head\<close>):
  the queue neither loses, duplicates nor reorders a message, and no message is both popped
  and still linked.\<close>

theorem lockless_queue_mpsc_order:
  assumes "queue_reachable s"
  shows "pushed s = popped s @ nodes (order s) \<and> distinct (nodes (order s)) \<and>
         hd (order s) = tail (queue s) \<and> last (order s) = head (queue s)"
proof -
  note D = threads_invD [OF queue_reachable_inv [OF assms]]
  have "distinct (nodes p)" if "distinct p" for p
    using that by (induction p rule: nodes.induct) (auto simp: set_nodes)
  then show ?thesis using D by simp
qed

lemma lockless_queue_mpsc_order_witness:
  "\<exists>s :: queue_threads. pushers s 1 = PushLink Stub (Node 4) \<and> pushed s = [4] \<and> pushed s = popped s @ nodes (order s) \<and>
     distinct (nodes (order s)) \<and> hd (order s) = tail (queue s) \<and> last (order s) = head (queue s)"
proof -
  let ?s = queue_start
  let ?a = "?s\<lparr>queue := (queue ?s)\<lparr>nxt := (nxt (queue ?s))(Node 4 := None)\<rparr>,
              pushers := (pushers ?s)(1 := PushExchange (Node 4))\<rparr>"
  let ?b = "?a\<lparr>queue := (queue ?a)\<lparr>head := Node 4\<rparr>,
              pushers := (pushers ?a)(1 := PushLink (head (queue ?a)) (Node 4)),
              order := order ?a @ [Node 4], pushed := pushed ?a @ nodes [Node 4]\<rparr>"
  have "queue_step ?s ?a" by (rule queue_step.push_begin) (simp_all add: queue_start_def)
  moreover have "queue_step ?a ?b" by (rule queue_step.push_exchange) simp
  ultimately have "queue_reachable ?b"
    unfolding queue_reachable_def by (meson converse_rtranclp_into_rtranclp rtranclp.rtrancl_refl)
  from lockless_queue_mpsc_order [OF this] show ?thesis
    by (intro exI [of _ ?b]) (simp add: queue_start_def lockless_queue_init_def)
qed

text \<open>C24: once no call is in progress the list is whole again: the pop of
  \<open>lstack_lockless_queue.h\<close> returns the oldest message pushed and not yet popped, and NULL
  only when every message pushed has been popped.\<close>

theorem lockless_queue_quiescent_pop:
  assumes "queue_reachable s" and "\<forall>i. pushers s i = PushIdle" and "popper s = PopIdle"
    and "lockless_queue_mpsc_pop (queue s) = (r, q)"
  shows "queue_inv (queue s) \<and> pushed s = popped s @ queue_contents (queue s) \<and>
    (case queue_contents (queue s) of
       [] \<Rightarrow> r = None \<and> pushed s = popped s
     | n # ns \<Rightarrow> r = Some (Node n) \<and> queue_contents q = ns)"
proof -
  note D = threads_invD [OF queue_reachable_inv [OF assms(1)]]
  have none: "\<not> owes s a x y" for a x y using assms(2,3) by (simp add: owes_def split: option.splits)
  have "linked (nxt (queue s)) p" if "p \<noteq> []" "last p = last (order s)"
    and "\<And>x y. adjacent p x y \<Longrightarrow> nxt (queue s) x = Some y" for p
    using that
  proof (induction p)
    case (Cons x p)
    show ?case
    proof (cases p)
      case Nil
      then show ?thesis using linksD(6) [OF D(5)] Cons.prems(2) by simp
    next
      case (Cons y q)
      then show ?thesis using Cons.IH Cons.prems by (simp add: adjacent_Cons)
    qed
  qed simp
  moreover have "nxt (queue s) x = Some y" if "adjacent (order s) x y" for x y
    using linksD(1) [OF D(5) that] none by simp
  ultimately have "on_path (queue s) (order s)" using D(1-4) by (simp add: on_path_def)
  note P = on_pathD [OF this]
  show ?thesis using pop_law [OF P(2) assms(4)] P(2,3) D(6) by (auto split: list.splits)
qed

lemma lockless_queue_quiescent_pop_witness:
  "\<exists>s :: queue_threads. pushed s = [4] \<and> popped s = [] \<and> fst (lockless_queue_mpsc_pop (queue s)) = Some (Node 4)"
proof -
  obtain t where t: "queue_step\<^sup>*\<^sup>* queue_start t" "pushers t = pushers queue_start"
      "popper t = popper queue_start" "pushed t = pushed queue_start @ [4]"
      and q: "queue t = lockless_queue_mpsc_push (queue queue_start) (Node 4)"
    using push_steps_are_the_call [of queue_start 0 4] by (auto simp: queue_start_def)
  have c: "queue_contents (queue t) = [4]"
    using push_law [OF queue_init(1), of 4 "\<lparr>head = Stub, tail = Stub, nxt = (\<lambda>_. None)\<rparr>"] q
    by (simp add: queue_start_def queue_init(2))
  have "queue_reachable t" using t(1) by (simp add: queue_reachable_def)
  from lockless_queue_quiescent_pop [OF this _ _ prod.collapse [symmetric]] t c
  have "pushed t = [4]" "popped t = []" "fst (lockless_queue_mpsc_pop (queue t)) = Some (Node 4)"
    by (simp_all add: queue_start_def)
  then show ?thesis by blast
qed

end
