(* ===== verification/Thread_Rpc.thy ===== *)
theory Thread_Rpc
  imports Lockless_Queue
begin

text \<open>
  Remote procedure calls from application threads to protocol stack threads:
  \<open>src/lstack/core/lstack_thread_rpc.c\<close>, \<open>src/lstack/include/lstack_thread_rpc.h\<close>, the
  handlers \<open>stack_socket\<close> \<open>\<dots>\<close> \<open>stack_recv\<close> of \<open>src/lstack/core/lstack_protocol_stack.c\<close> and
  \<open>stack_send\<close> of \<open>src/lstack/core/lstack_lwip.c\<close>.

  A synchronous call allocates a message from the calling thread's pool, takes its lock,
  pushes it and blocks on the lock; the stack thread runs the handler and unlocks. An
  asynchronous call (\<open>self_release = 0\<close>) is given back to the pool by the stack thread.
\<close>

section \<open>Messages and pools\<close>

text \<open>Handlers a message may name.\<close>

datatype rpc_func =
    Get_lwip_conntable | Get_lwip_connnum | Create_shadow_fd | Rpc_msgcnt
  | Thread_register_phase1 | Thread_register_phase2 | Stack_mempool_size | Stack_recvlist_count
  | Stack_arp | Stack_socket | Stack_close | Stack_clean_epoll | Stack_bind | Stack_listen
  | Stack_accept | Stack_connect | Stack_getpeername | Stack_getsockname | Stack_getsockopt
  | Stack_setsockopt | Stack_fcntl | Stack_ioctl | Stack_recv | Rpc_replenish | Stack_send

type_synonym ptr = "addr option"

text \<open>
  The union \<open>rpc_msg_arg\<close>, one constructor per member. A handler reads the member the
  caller wrote, except that \<open>cp\<close> and \<open>p\<close> are the same pointer.
\<close>

datatype rpc_msg_arg = Arg_i i32 | Arg_u u32 | Arg_l u64 | Arg_p ptr | Arg_socklen u32 | Arg_size u64

fun arg_i :: "rpc_msg_arg \<Rightarrow> i32" where
  "arg_i (Arg_i x) = x" | "arg_i _ = 0"

fun arg_l :: "rpc_msg_arg \<Rightarrow> u64" where
  "arg_l (Arg_l x) = x" | "arg_l _ = 0"

fun arg_p :: "rpc_msg_arg \<Rightarrow> ptr" where
  "arg_p (Arg_p x) = x" | "arg_p _ = None"

fun arg_socklen :: "rpc_msg_arg \<Rightarrow> u32" where
  "arg_socklen (Arg_socklen x) = x" | "arg_socklen _ = 0"

fun arg_size :: "rpc_msg_arg \<Rightarrow> u64" where
  "arg_size (Arg_size x) = x" | "arg_size _ = 0"

record rpc_msg =
  locked :: bool
  self_release :: i32
  result :: u64
  pool :: nat \<comment> \<open>the thread whose pool the message belongs to\<close>
  func :: "rpc_func option"
  args :: "nat \<Rightarrow> rpc_msg_arg"

text \<open>
  \<open>g_rpc_pool\<close> is a variable of each application thread: \<open>None\<close> before the first call,
  then a structure whose \<open>rpc_pool\<close> is a DPDK mempool, here the set of its free objects, or
  NULL when its creation failed.
\<close>

record 'w rpc_sys =
  msgs :: "addr \<Rightarrow> rpc_msg"
  g_rpc_pool :: "nat \<Rightarrow> addr set option option"
  rpc_queue :: "nat \<Rightarrow> lockless_queue" \<comment> \<open>per protocol stack\<close>
  call_null :: "nat \<Rightarrow> u64"
  call_alloc_fail :: u64
  world :: 'w \<comment> \<open>sockets, lwIP and the kernel\<close>

text \<open>What the allocators answer: \<open>calloc\<close>, \<open>create_mempool\<close> and \<open>rte_mempool_get\<close>.\<close>

record rpc_alloc =
  calloc_ok :: bool
  create_mempool :: "addr set option"
  mempool_get :: "addr set \<Rightarrow> addr option"

definition mempool_ok :: "rpc_alloc \<Rightarrow> bool" where
  "mempool_ok A \<longleftrightarrow> (\<forall>P a. mempool_get A P = Some a \<longrightarrow> a \<in> P)"

definition alloc_failed :: "'w rpc_sys \<Rightarrow> 'w rpc_sys" where
  "alloc_failed s = s\<lparr>call_alloc_fail := call_alloc_fail s + 1\<rparr>"

text \<open>
  \<open>get_rpc_msg\<close> hands a NULL \<open>rpc_pool\<close> to DPDK, which dereferences it: the outer option
  is \<open>None\<close> then.
\<close>

definition get_rpc_msg :: "rpc_alloc \<Rightarrow> addr set option \<Rightarrow> (addr option \<times> addr set) option" where
  "get_rpc_msg A rpc_pool =
     (case rpc_pool of None \<Rightarrow> None
      | Some P \<Rightarrow> (case mempool_get A P of None \<Rightarrow> Some (None, P) | Some a \<Rightarrow> Some (Some a, P - {a})))"

definition rpc_msg_alloc ::
  "rpc_alloc \<Rightarrow> nat \<Rightarrow> nat option \<Rightarrow> rpc_func \<Rightarrow> 'w rpc_sys \<Rightarrow> (addr option \<times> 'w rpc_sys) option" where
  "rpc_msg_alloc A th stack f s =
     (case stack of None \<Rightarrow> Some (None, s)
      | Some _ \<Rightarrow>
        (let take = (\<lambda>s rpc_pool. do {
              (got, P) \<leftarrow> get_rpc_msg A rpc_pool;
              let s = s\<lparr>g_rpc_pool := (g_rpc_pool s)(th := Some (Some P))\<rparr>;
              (case got of
                 None \<Rightarrow> Some (None, alloc_failed s)
               | Some a \<Rightarrow> Some (Some a, s\<lparr>msgs := (msgs s)(a :=
                   (msgs s a)\<lparr>pool := th, locked := False, func := Some f, self_release := 1\<rparr>)\<rparr>))})
         in case g_rpc_pool s th of
              Some rpc_pool \<Rightarrow> take s rpc_pool
            | None \<Rightarrow>
                if \<not> calloc_ok A then Some (None, alloc_failed s)
                else (case create_mempool A of
                        None \<Rightarrow> Some (None, alloc_failed (s\<lparr>g_rpc_pool := (g_rpc_pool s)(th := Some None)\<rparr>))
                      | Some P \<Rightarrow> take (s\<lparr>g_rpc_pool := (g_rpc_pool s)(th := Some (Some P))\<rparr>) (Some P))))"

definition rpc_msg_free :: "addr \<Rightarrow> 'w rpc_sys \<Rightarrow> 'w rpc_sys" where
  "rpc_msg_free a s =
     (let th = pool (msgs s a) in
      s\<lparr>msgs := (msgs s)(a := (msgs s a)\<lparr>self_release := 0\<rparr>),
        g_rpc_pool := (g_rpc_pool s)(th :=
          map_option (map_option (insert a)) (g_rpc_pool s th))\<rparr>)"

definition rpc_call :: "nat \<Rightarrow> addr \<Rightarrow> 'w rpc_sys \<Rightarrow> 'w rpc_sys" where
  "rpc_call k a s = s\<lparr>rpc_queue := (rpc_queue s)(k := lockless_queue_mpsc_push (rpc_queue s k) (Node a))\<rparr>"

text \<open>
  \<open>rpc_sync_call\<close> is cut where it blocks: up to the push, and from the acquisition of the
  lock on, which is not possible (\<open>None\<close>) while the message is locked.
\<close>

definition rpc_sync_begin :: "nat \<Rightarrow> addr \<Rightarrow> 'w rpc_sys \<Rightarrow> 'w rpc_sys" where
  "rpc_sync_begin k a s = rpc_call k a (s\<lparr>msgs := (msgs s)(a := (msgs s a)\<lparr>locked := True\<rparr>)\<rparr>)"

definition rpc_sync_end :: "addr \<Rightarrow> 'w rpc_sys \<Rightarrow> (i32 \<times> 'w rpc_sys) option" where
  "rpc_sync_end a s =
     (if locked (msgs s a) then None
      else let ret = ucast (result (msgs s a)) in Some (ret, rpc_msg_free a s))"

section \<open>The calls\<close>

text \<open>
  Every \<open>rpc_call_*\<close> function allocates a message, fills in arguments and pushes it. The value
  is the message the caller then waits for, or \<open>None\<close> when it returns at once.
\<close>

definition set_args :: "addr \<Rightarrow> (nat \<times> rpc_msg_arg) list \<Rightarrow> 'w rpc_sys \<Rightarrow> 'w rpc_sys" where
  "set_args a xs s =
     s\<lparr>msgs := (msgs s)(a := (msgs s a)\<lparr>args := fold (\<lambda>(i, x) f. f(i := x)) xs (args (msgs s a))\<rparr>)\<rparr>"

definition rpc_issue ::
  "rpc_alloc \<Rightarrow> nat \<Rightarrow> nat option \<Rightarrow> rpc_func \<Rightarrow> (nat \<times> rpc_msg_arg) list \<Rightarrow> 'w rpc_sys \<Rightarrow>
   (addr option \<times> 'w rpc_sys) option" where
  "rpc_issue A th stack f xs s = do {
     (msg, s) \<leftarrow> rpc_msg_alloc A th stack f s;
     (case msg of None \<Rightarrow> Some (None, s)
      | Some a \<Rightarrow> Some (Some a, rpc_sync_begin (the stack) a (set_args a xs s)))}"

text \<open>The asynchronous form also returns the C result: 0, or -1 without a message.\<close>

definition rpc_issue_async ::
  "rpc_alloc \<Rightarrow> nat \<Rightarrow> nat option \<Rightarrow> rpc_func \<Rightarrow> (nat \<times> rpc_msg_arg) list \<Rightarrow> 'w rpc_sys \<Rightarrow>
   (i32 \<times> 'w rpc_sys) option" where
  "rpc_issue_async A th stack f xs s = do {
     (msg, s) \<leftarrow> rpc_msg_alloc A th stack f s;
     (case msg of None \<Rightarrow> Some (- 1, s)
      | Some a \<Rightarrow> (let s = set_args a xs s;
                      s = s\<lparr>msgs := (msgs s)(a := (msgs s a)\<lparr>self_release := 0\<rparr>)\<rparr>
                  in Some (0, rpc_call (the stack) a s)))}"

definition rpc_call_conntable where
  "rpc_call_conntable A th stack conn_table max_conn s =
     rpc_issue A th stack Get_lwip_conntable [(0, Arg_p conn_table), (1, Arg_u max_conn)] s"

definition rpc_call_connnum where
  "rpc_call_connnum A th stack s = rpc_issue A th stack Get_lwip_connnum [] s"

definition rpc_call_shadow_fd where
  "rpc_call_shadow_fd A th stack fd ad addrlen s =
     rpc_issue A th stack Create_shadow_fd [(0, Arg_i fd), (1, Arg_p ad), (2, Arg_socklen addrlen)] s"

definition rpc_call_msgcnt where
  "rpc_call_msgcnt A th stack s = rpc_issue A th stack Rpc_msgcnt [] s"

definition rpc_call_thread_regphase1 where
  "rpc_call_thread_regphase1 A th stack conn s = rpc_issue A th stack Thread_register_phase1 [(0, Arg_p conn)] s"

definition rpc_call_thread_regphase2 where
  "rpc_call_thread_regphase2 A th stack conn s = rpc_issue A th stack Thread_register_phase2 [(0, Arg_p conn)] s"

text \<open>A pointer to a protocol stack is passed as the stack's number.\<close>

definition rpc_call_mempoolsize where
  "rpc_call_mempoolsize A th stack s = rpc_issue A th stack Stack_mempool_size [(0, Arg_p stack)] s"

definition rpc_call_recvlistcnt where
  "rpc_call_recvlistcnt A th stack s = rpc_issue A th stack Stack_recvlist_count [(0, Arg_p stack)] s"

definition rpc_call_arp where
  "rpc_call_arp A th stack mbuf s = rpc_issue_async A th stack Stack_arp [(0, Arg_p mbuf), (1, Arg_p stack)] s"

definition rpc_call_socket where
  "rpc_call_socket A th bind_stack domain type protocol s =
     rpc_issue A th bind_stack Stack_socket [(0, Arg_i domain), (1, Arg_i type), (2, Arg_i protocol)] s"

definition rpc_call_clean_epoll where
  "rpc_call_clean_epoll A th stack wakeup s = rpc_issue A th stack Stack_clean_epoll [(0, Arg_p wakeup)] s"

definition rpc_call_replenish where
  "rpc_call_replenish A th stack sock s =
     rpc_issue A th stack Rpc_replenish [(0, Arg_p stack), (1, Arg_p sock)] s"

text \<open>
  \<open>get_protocol_stack_by_fd\<close>: no stack for an \<open>fd\<close> without socket or a socket without stack.
  The socket table is lwIP's, a parameter.
\<close>

definition get_protocol_stack_by_fd :: "(i32 \<Rightarrow> 'w \<Rightarrow> nat option option) \<Rightarrow> i32 \<Rightarrow> 'w rpc_sys \<Rightarrow> nat option" where
  "get_protocol_stack_by_fd get_socket fd s =
     (case get_socket fd (world s) of None \<Rightarrow> None | Some stack \<Rightarrow> stack)"

definition rpc_call_close where
  "rpc_call_close A get_socket th fd s =
     rpc_issue A th (get_protocol_stack_by_fd get_socket fd s) Stack_close [(0, Arg_i fd)] s"

definition rpc_call_bind where
  "rpc_call_bind A get_socket th fd ad addrlen s =
     rpc_issue A th (get_protocol_stack_by_fd get_socket fd s) Stack_bind
       [(0, Arg_i fd), (1, Arg_p ad), (2, Arg_socklen addrlen)] s"

definition rpc_call_listen where
  "rpc_call_listen A get_socket th fd backlog s =
     rpc_issue A th (get_protocol_stack_by_fd get_socket fd s) Stack_listen [(0, Arg_i fd), (1, Arg_i backlog)] s"

definition rpc_call_accept where
  "rpc_call_accept A get_socket th fd ad addrlen flags s =
     rpc_issue A th (get_protocol_stack_by_fd get_socket fd s) Stack_accept
       [(0, Arg_i fd), (1, Arg_p ad), (2, Arg_p addrlen), (3, Arg_i flags)] s"

definition rpc_call_connect where
  "rpc_call_connect A get_socket th fd ad addrlen s =
     rpc_issue A th (get_protocol_stack_by_fd get_socket fd s) Stack_connect
       [(0, Arg_i fd), (1, Arg_p ad), (2, Arg_socklen addrlen)] s"

text \<open>What \<open>rpc_call_connect\<close> makes of the result: the value to return and \<open>errno\<close> if set.\<close>

definition rpc_call_connect_return :: "i32 \<Rightarrow> i32 \<times> i32 option" where
  "rpc_call_connect_return ret = (if sint ret < 0 then (- 1, Some (- ret)) else (ret, None))"

definition rpc_call_getpeername where
  "rpc_call_getpeername A get_socket th fd ad addrlen s =
     rpc_issue A th (get_protocol_stack_by_fd get_socket fd s) Stack_getpeername
       [(0, Arg_i fd), (1, Arg_p ad), (2, Arg_p addrlen)] s"

definition rpc_call_getsockname where
  "rpc_call_getsockname A get_socket th fd ad addrlen s =
     rpc_issue A th (get_protocol_stack_by_fd get_socket fd s) Stack_getsockname
       [(0, Arg_i fd), (1, Arg_p ad), (2, Arg_p addrlen)] s"

definition rpc_call_getsockopt where
  "rpc_call_getsockopt A get_socket th fd level optname optval optlen s =
     rpc_issue A th (get_protocol_stack_by_fd get_socket fd s) Stack_getsockopt
       [(0, Arg_i fd), (1, Arg_i level), (2, Arg_i optname), (3, Arg_p optval), (4, Arg_p optlen)] s"

definition rpc_call_setsockopt where
  "rpc_call_setsockopt A get_socket th fd level optname optval optlen s =
     rpc_issue A th (get_protocol_stack_by_fd get_socket fd s) Stack_setsockopt
       [(0, Arg_i fd), (1, Arg_i level), (2, Arg_i optname), (3, Arg_p optval), (4, Arg_socklen optlen)] s"

definition rpc_call_fcntl where
  "rpc_call_fcntl A get_socket th fd cmd val s =
     rpc_issue A th (get_protocol_stack_by_fd get_socket fd s) Stack_fcntl
       [(0, Arg_i fd), (1, Arg_i cmd), (2, Arg_l val)] s"

definition rpc_call_ioctl where
  "rpc_call_ioctl A get_socket th fd cmd argp s =
     rpc_issue A th (get_protocol_stack_by_fd get_socket fd s) Stack_ioctl
       [(0, Arg_i fd), (1, Arg_l cmd), (2, Arg_p argp)] s"

definition rpc_call_send where
  "rpc_call_send A get_socket th fd len flags s =
     (let stack = get_protocol_stack_by_fd get_socket fd s in
      rpc_issue_async A th stack Stack_send
        [(0, Arg_i fd), (1, Arg_size len), (2, Arg_i flags), (3, Arg_p stack)] s)"

section \<open>The handlers\<close>

text \<open>
  What the handlers call outside the modelled code: lwIP, the kernel API, and the parts of
  lstack that are not modelled. Each operation acts on the world. \<open>other_handler\<close> stands for the
  handlers that are not modelled.
\<close>

record 'w stack_env =
  gazelle_socket :: "i32 \<Rightarrow> i32 \<Rightarrow> i32 \<Rightarrow> 'w \<Rightarrow> i32 \<times> 'w"
  lwip_close :: "i32 \<Rightarrow> 'w \<Rightarrow> i32 \<times> 'w"
  gazelle_clean_sock :: "i32 \<Rightarrow> 'w \<Rightarrow> 'w"
  close_fn :: "i32 \<Rightarrow> 'w \<Rightarrow> 'w"
  lwip_bind :: "i32 \<Rightarrow> ptr \<Rightarrow> u32 \<Rightarrow> 'w \<Rightarrow> i32 \<times> 'w"
  get_socket_by_fd :: "i32 \<Rightarrow> 'w \<Rightarrow> bool"
  lwip_listen :: "i32 \<Rightarrow> i32 \<Rightarrow> 'w \<Rightarrow> i32 \<times> 'w"
  lwip_accept4 :: "i32 \<Rightarrow> ptr \<Rightarrow> ptr \<Rightarrow> i32 \<Rightarrow> 'w \<Rightarrow> i32 \<times> 'w"
  get_socket :: "i32 \<Rightarrow> 'w \<Rightarrow> nat option option" \<comment> \<open>the socket's stack, if there is a socket\<close>
  conn_num_inc :: "nat \<Rightarrow> 'w \<Rightarrow> 'w"
  recvmbox_count :: "i32 \<Rightarrow> 'w \<Rightarrow> u32"
  add_recv_list :: "i32 \<Rightarrow> 'w \<Rightarrow> 'w"
  lwip_connect :: "i32 \<Rightarrow> ptr \<Rightarrow> u32 \<Rightarrow> 'w \<Rightarrow> i32 \<times> 'w"
  errno :: "'w \<Rightarrow> i32"
  lwip_getpeername :: "i32 \<Rightarrow> ptr \<Rightarrow> ptr \<Rightarrow> 'w \<Rightarrow> i32 \<times> 'w"
  lwip_getsockname :: "i32 \<Rightarrow> ptr \<Rightarrow> ptr \<Rightarrow> 'w \<Rightarrow> i32 \<times> 'w"
  lwip_getsockopt :: "i32 \<Rightarrow> i32 \<Rightarrow> i32 \<Rightarrow> ptr \<Rightarrow> ptr \<Rightarrow> 'w \<Rightarrow> i32 \<times> 'w"
  lwip_setsockopt :: "i32 \<Rightarrow> i32 \<Rightarrow> i32 \<Rightarrow> ptr \<Rightarrow> u32 \<Rightarrow> 'w \<Rightarrow> i32 \<times> 'w"
  lwip_fcntl :: "i32 \<Rightarrow> i32 \<Rightarrow> u64 \<Rightarrow> 'w \<Rightarrow> i32 \<times> 'w"
  lwip_ioctl :: "i32 \<Rightarrow> u64 \<Rightarrow> ptr \<Rightarrow> 'w \<Rightarrow> i32 \<times> 'w"
  lwip_recv :: "i32 \<Rightarrow> ptr \<Rightarrow> u64 \<Rightarrow> i32 \<Rightarrow> 'w \<Rightarrow> u64 \<times> 'w"
  eth_dev_recv :: "ptr \<Rightarrow> ptr \<Rightarrow> 'w \<Rightarrow> 'w"
  wakeup_list_del :: "ptr \<Rightarrow> nat \<Rightarrow> 'w \<Rightarrow> 'w"
  do_lwip_send :: "ptr \<Rightarrow> i32 \<Rightarrow> u64 \<Rightarrow> i32 \<Rightarrow> 'w \<Rightarrow> bool \<times> 'w"
  sock_dataout :: "i32 \<Rightarrow> 'w \<Rightarrow> bool"
  call_num :: "i32 \<Rightarrow> 'w \<Rightarrow> i32"
  call_num_add :: "i32 \<Rightarrow> i32 \<Rightarrow> 'w \<Rightarrow> 'w"
  other_handler :: "rpc_func \<Rightarrow> rpc_msg \<Rightarrow> 'w \<Rightarrow> u64 \<times> 'w"

text \<open>
  A handler is a function of its message and the world to the value of \<open>msg->result\<close>
  (an \<open>int\<close> is sign-extended) and the world; \<open>None\<close> when it does not write the result.
\<close>

type_synonym 'w handler = "rpc_msg \<Rightarrow> 'w \<Rightarrow> u64 option \<times> 'w"

definition int_result :: "i32 \<times> 'w \<Rightarrow> u64 option \<times> 'w" where
  "int_result p = (Some (scast (fst p)), snd p)"

definition stack_arp :: "'w stack_env \<Rightarrow> 'w handler" where
  "stack_arp E msg w = (None, eth_dev_recv E (arg_p (args msg 0)) (arg_p (args msg 1)) w)"

definition stack_socket :: "'w stack_env \<Rightarrow> 'w handler" where
  "stack_socket E msg w =
     (let try = gazelle_socket E (arg_i (args msg 0)) (arg_i (args msg 1)) (arg_i (args msg 2));
          (r, w) = try w
      in if sint r < 0 then int_result (try w) else int_result (r, w))"

definition stack_close :: "'w stack_env \<Rightarrow> 'w handler" where
  "stack_close E msg w =
     (let fd = arg_i (args msg 0); (r, w) = lwip_close E fd w
      in int_result (r, close_fn E fd (gazelle_clean_sock E fd w)))"

definition stack_bind :: "'w stack_env \<Rightarrow> 'w handler" where
  "stack_bind E msg w =
     int_result (lwip_bind E (arg_i (args msg 0)) (arg_p (args msg 1)) (arg_socklen (args msg 2)) w)"

definition stack_listen :: "'w stack_env \<Rightarrow> 'w handler" where
  "stack_listen E msg w =
     (let fd = arg_i (args msg 0); backlog = arg_i (args msg 1) in
      if \<not> get_socket_by_fd E fd w then int_result (- 1, w) else int_result (lwip_listen E fd backlog w))"

definition stack_accept :: "'w stack_env \<Rightarrow> 'w handler" where
  "stack_accept E msg w =
     (let fd = arg_i (args msg 0);
          (accept_fd, w) = lwip_accept4 E fd (arg_p (args msg 1)) (arg_p (args msg 2)) (arg_i (args msg 3)) w
      in if sint accept_fd < 0 then int_result (- 1, w)
         else (case get_socket E accept_fd w of
             Some (Some stack) \<Rightarrow>
               (let w = conn_num_inc E stack w in
                int_result (accept_fd, if recvmbox_count E accept_fd w \<noteq> 0 then add_recv_list E accept_fd w else w))
           | _ \<Rightarrow> int_result (- 1, close_fn E accept_fd (gazelle_clean_sock E accept_fd (snd (lwip_close E accept_fd w))))))"

definition stack_connect :: "'w stack_env \<Rightarrow> 'w handler" where
  "stack_connect E msg w =
     (let (r, w) = lwip_connect E (arg_i (args msg 0)) (arg_p (args msg 1)) (arg_socklen (args msg 2)) w
      in if sint r < 0 then int_result (- errno E w, w) else int_result (r, w))"

definition stack_getpeername :: "'w stack_env \<Rightarrow> 'w handler" where
  "stack_getpeername E msg w =
     int_result (lwip_getpeername E (arg_i (args msg 0)) (arg_p (args msg 1)) (arg_p (args msg 2)) w)"

definition stack_getsockname :: "'w stack_env \<Rightarrow> 'w handler" where
  "stack_getsockname E msg w =
     int_result (lwip_getsockname E (arg_i (args msg 0)) (arg_p (args msg 1)) (arg_p (args msg 2)) w)"

definition stack_getsockopt :: "'w stack_env \<Rightarrow> 'w handler" where
  "stack_getsockopt E msg w =
     int_result (lwip_getsockopt E (arg_i (args msg 0)) (arg_i (args msg 1)) (arg_i (args msg 2))
       (arg_p (args msg 3)) (arg_p (args msg 4)) w)"

definition stack_setsockopt :: "'w stack_env \<Rightarrow> 'w handler" where
  "stack_setsockopt E msg w =
     int_result (lwip_setsockopt E (arg_i (args msg 0)) (arg_i (args msg 1)) (arg_i (args msg 2))
       (arg_p (args msg 3)) (arg_socklen (args msg 4)) w)"

definition stack_fcntl :: "'w stack_env \<Rightarrow> 'w handler" where
  "stack_fcntl E msg w =
     int_result (lwip_fcntl E (arg_i (args msg 0)) (arg_i (args msg 1)) (arg_l (args msg 2)) w)"

definition stack_ioctl :: "'w stack_env \<Rightarrow> 'w handler" where
  "stack_ioctl E msg w =
     int_result (lwip_ioctl E (arg_i (args msg 0)) (arg_l (args msg 1)) (arg_p (args msg 2)) w)"

definition stack_recv :: "'w stack_env \<Rightarrow> 'w handler" where
  "stack_recv E msg w =
     (let (r, w) = lwip_recv E (arg_i (args msg 0)) (arg_p (args msg 1)) (arg_size (args msg 2))
        (arg_i (args msg 3)) w in (Some r, w))"

definition stack_clean_epoll :: "'w stack_env \<Rightarrow> nat \<Rightarrow> 'w handler" where
  "stack_clean_epoll E stack_idx msg w = (None, wakeup_list_del E (arg_p (args msg 0)) stack_idx w)"

text \<open>The handler table: stack \<open>k\<close> runs the handler a message names.\<close>

fun run_handler :: "'w stack_env \<Rightarrow> nat \<Rightarrow> rpc_func \<Rightarrow> 'w handler" where
  "run_handler E k Stack_arp msg w = stack_arp E msg w"
| "run_handler E k Stack_socket msg w = stack_socket E msg w"
| "run_handler E k Stack_close msg w = stack_close E msg w"
| "run_handler E k Stack_clean_epoll msg w = stack_clean_epoll E k msg w"
| "run_handler E k Stack_bind msg w = stack_bind E msg w"
| "run_handler E k Stack_listen msg w = stack_listen E msg w"
| "run_handler E k Stack_accept msg w = stack_accept E msg w"
| "run_handler E k Stack_connect msg w = stack_connect E msg w"
| "run_handler E k Stack_getpeername msg w = stack_getpeername E msg w"
| "run_handler E k Stack_getsockname msg w = stack_getsockname E msg w"
| "run_handler E k Stack_getsockopt msg w = stack_getsockopt E msg w"
| "run_handler E k Stack_setsockopt msg w = stack_setsockopt E msg w"
| "run_handler E k Stack_fcntl msg w = stack_fcntl E msg w"
| "run_handler E k Stack_ioctl msg w = stack_ioctl E msg w"
| "run_handler E k Stack_recv msg w = stack_recv E msg w"
| "run_handler E k f msg w = (let (r, w) = other_handler E f msg w in (Some r, w))"

text \<open>
  Two handlers touch the RPC state itself: \<open>rpc_msgcnt\<close> reads the queue, and \<open>stack_send\<close>
  gives its message back, or queues it again while the socket has more to send.
\<close>

definition put_result :: "addr \<Rightarrow> u64 option \<Rightarrow> 'w rpc_sys \<Rightarrow> 'w rpc_sys" where
  "put_result a r s =
     (case r of None \<Rightarrow> s | Some v \<Rightarrow> s\<lparr>msgs := (msgs s)(a := (msgs s a)\<lparr>result := v\<rparr>)\<rparr>)"

definition rpc_msgcnt :: "nat \<Rightarrow> addr \<Rightarrow> 'w rpc_sys \<Rightarrow> 'w rpc_sys option" where
  "rpc_msgcnt k a s = do {
     c \<leftarrow> lockless_queue_count (rpc_queue s k);
     Some (put_result a (Some (scast c)) s)}"

definition stack_send :: "'w stack_env \<Rightarrow> addr \<Rightarrow> 'w rpc_sys \<Rightarrow> 'w rpc_sys" where
  "stack_send E a s =
     (let msg = msgs s a;
          fd = arg_i (args msg 0); len = arg_size (args msg 1); stack = arg_p (args msg 3)
      in case get_socket E fd (world s) of
           None \<Rightarrow> rpc_msg_free a (put_result a (Some (- 1)) s)
         | Some _ \<Rightarrow>
             (let (replenish_again, w) = do_lwip_send E stack fd len 0 (world s);
                  s = s\<lparr>world := call_num_add E fd (- 1) w\<rparr>
              in if \<not> sock_dataout E fd (world s) \<and> \<not> replenish_again then rpc_msg_free a s
                 else if call_num E fd (world s) = 0 then
                   (let s = rpc_call (the stack) a s in s\<lparr>world := call_num_add E fd 1 (world s)\<rparr>)
                 else rpc_msg_free a s))"

definition run_func :: "'w stack_env \<Rightarrow> nat \<Rightarrow> rpc_func \<Rightarrow> addr \<Rightarrow> 'w rpc_sys \<Rightarrow> 'w rpc_sys option" where
  "run_func E k f a s =
     (if f = Stack_send then Some (stack_send E a s)
      else if f = Rpc_msgcnt then rpc_msgcnt k a s
      else let (r, w) = run_handler E k f (msgs s a) (world s) in Some (put_result a r (s\<lparr>world := w\<rparr>)))"

section \<open>The stack thread\<close>

definition rpc_serve :: "'w stack_env \<Rightarrow> nat \<Rightarrow> addr \<Rightarrow> 'w rpc_sys \<Rightarrow> 'w rpc_sys option" where
  "rpc_serve E k a s = do {
     s \<leftarrow> (case func (msgs s a) of
             Some f \<Rightarrow> run_func E k f a s
           | None \<Rightarrow> Some (s\<lparr>call_null := (call_null s)(k := call_null s k + 1)\<rparr>));
     Some (if func (msgs s a) \<noteq> Some Stack_send then
             (if self_release (msgs s a) \<noteq> 0 then s\<lparr>msgs := (msgs s)(a := (msgs s a)\<lparr>locked := False\<rparr>)\<rparr>
              else rpc_msg_free a s)
           else s)}"

fun poll_rpc_msg :: "'w stack_env \<Rightarrow> nat \<Rightarrow> nat \<Rightarrow> 'w rpc_sys \<Rightarrow> 'w rpc_sys option" where
  "poll_rpc_msg E k 0 s = Some s"
| "poll_rpc_msg E k (Suc max_num) s =
     (let (node, q) = lockless_queue_mpsc_pop (rpc_queue s k);
          s = s\<lparr>rpc_queue := (rpc_queue s)(k := q)\<rparr>
      in case node of
           None \<Rightarrow> Some s
         | Some Stub \<Rightarrow> None \<comment> \<open>the stub is in no message\<close>
         | Some (Node a) \<Rightarrow> do { s \<leftarrow> rpc_serve E k a s; poll_rpc_msg E k max_num s })"

section \<open>The invariant of queues and pools\<close>

definition queued :: "'w rpc_sys \<Rightarrow> nat \<Rightarrow> addr list" where
  "queued s k = queue_contents (rpc_queue s k)"

definition in_pool :: "'w rpc_sys \<Rightarrow> nat \<Rightarrow> addr \<Rightarrow> bool" where
  "in_pool s th a \<longleftrightarrow> (case g_rpc_pool s th of Some (Some P) \<Rightarrow> a \<in> P | _ \<Rightarrow> False)"

definition has_pool :: "'w rpc_sys \<Rightarrow> nat \<Rightarrow> bool" where
  "has_pool s th \<longleftrightarrow> (\<exists>P. g_rpc_pool s th = Some (Some P))"

text \<open>A message is in one place: in a queue, in its thread's pool, or in the hands of a thread.\<close>

definition rpc_inv :: "'w rpc_sys \<Rightarrow> bool" where
  "rpc_inv s \<longleftrightarrow> (\<forall>k. queue_inv (rpc_queue s k)) \<and>
     (\<forall>k l a. a \<in> set (queued s k) \<longrightarrow> a \<in> set (queued s l) \<longrightarrow> k = l) \<and>
     (\<forall>k th a. a \<in> set (queued s k) \<longrightarrow> \<not> in_pool s th a) \<and>
     (\<forall>k a. a \<in> set (queued s k) \<longrightarrow> has_pool s (pool (msgs s a))) \<and>
     (\<forall>th th' a. in_pool s th a \<longrightarrow> in_pool s th' a \<longrightarrow> th = th')"

definition in_hand :: "'w rpc_sys \<Rightarrow> addr \<Rightarrow> bool" where
  "in_hand s a \<longleftrightarrow> (\<forall>k. a \<notin> set (queued s k)) \<and> (\<forall>th. \<not> in_pool s th a) \<and> has_pool s (pool (msgs s a))"

lemma rpc_invD:
  assumes "rpc_inv s"
  shows "queue_inv (rpc_queue s k)"
    and "a \<in> set (queued s k) \<Longrightarrow> a \<in> set (queued s l) \<Longrightarrow> k = l"
    and "a \<in> set (queued s k) \<Longrightarrow> \<not> in_pool s th a"
    and "a \<in> set (queued s k) \<Longrightarrow> has_pool s (pool (msgs s a))"
    and "in_pool s th a \<Longrightarrow> in_pool s th' a \<Longrightarrow> th = th'"
  using assms unfolding rpc_inv_def by blast+

text \<open>The invariant looks at nothing but queues, pools and the \<open>pool\<close> field of queued messages.\<close>

lemma rpc_inv_cong:
  assumes "rpc_inv s" and "rpc_queue t = rpc_queue s" and "g_rpc_pool t = g_rpc_pool s"
    and "\<And>a. pool (msgs t a) = pool (msgs s a)"
  shows "rpc_inv t" and "in_hand t a = in_hand s a" and "queued t = queued s"
proof -
  have q: "queued t = queued s" and p: "in_pool t = in_pool s" and h: "has_pool t = has_pool s"
    using assms(2,3) by (simp_all add: fun_eq_iff queued_def in_pool_def has_pool_def)
  show "queued t = queued s" by (rule q)
  show "rpc_inv t" using assms(1) unfolding rpc_inv_def q p h assms(2,4) .
  show "in_hand t a = in_hand s a" unfolding in_hand_def q p h assms(4) ..
qed

lemma rpc_msg_free_law:
  assumes inv: "rpc_inv s" and a: "in_hand s a"
  shows "rpc_inv (rpc_msg_free a s)" and "in_pool (rpc_msg_free a s) (pool (msgs s a)) a"
    and "queued (rpc_msg_free a s) = queued s"
    and "pool (msgs (rpc_msg_free a s) b) = pool (msgs s b)"
    and "func (msgs (rpc_msg_free a s) b) = func (msgs s b)"
    and "b \<noteq> a \<Longrightarrow> in_pool (rpc_msg_free a s) th b = in_pool s th b"
    and "has_pool (rpc_msg_free a s) th = has_pool s th"
proof -
  let ?t = "rpc_msg_free a s" and ?th = "pool (msgs s a)"
  obtain P where P: "g_rpc_pool s ?th = Some (Some P)" using a by (auto simp: in_hand_def has_pool_def)
  have pool: "in_pool ?t th b \<longleftrightarrow> in_pool s th b \<or> th = ?th \<and> b = a" for th b
    using P by (auto simp: in_pool_def rpc_msg_free_def Let_def split: option.splits)
  show q: "queued ?t = queued s" by (simp add: fun_eq_iff queued_def rpc_msg_free_def Let_def)
  show f: "pool (msgs ?t b) = pool (msgs s b)" "func (msgs ?t b) = func (msgs s b)" for b
    by (simp_all add: rpc_msg_free_def Let_def)
  show h: "has_pool ?t th = has_pool s th" for th
    by (auto simp: has_pool_def rpc_msg_free_def Let_def)
  show "in_pool ?t ?th a" "b \<noteq> a \<Longrightarrow> in_pool ?t th b = in_pool s th b" by (simp_all add: pool)
  have qi: "rpc_queue ?t = rpc_queue s" by (simp add: rpc_msg_free_def Let_def)
  show "rpc_inv ?t" using inv a unfolding rpc_inv_def q pool f h qi in_hand_def by blast
qed

lemma rpc_call_law:
  assumes inv: "rpc_inv s" and a: "in_hand s a"
  shows "rpc_inv (rpc_call k a s)" and "queued (rpc_call k a s) = (queued s)(k := queued s k @ [a])"
proof -
  let ?t = "rpc_call k a s"
  have n: "a \<notin> set (queue_contents (rpc_queue s k))" using a by (simp add: in_hand_def queued_def)
  note P = push_law [OF rpc_invD(1) [OF inv] n]
  show q: "queued ?t = (queued s)(k := queued s k @ [a])"
    using P by (simp add: fun_eq_iff queued_def rpc_call_def)
  have p: "in_pool ?t = in_pool s" "has_pool ?t = has_pool s" "msgs ?t = msgs s"
    by (simp_all add: fun_eq_iff in_pool_def has_pool_def rpc_call_def)
  have qi: "queue_inv (rpc_queue ?t l)" for l
    using P rpc_invD(1) [OF inv] by (simp add: rpc_call_def)
  have m: "b \<in> set (queued ?t l) \<longleftrightarrow> b \<in> set (queued s l) \<or> l = k \<and> b = a" for b l
    by (auto simp: q)
  show "rpc_inv ?t" using inv a qi unfolding rpc_inv_def m p in_hand_def by blast
qed

lemma pop_queue_law:
  assumes inv: "rpc_inv s" and pop: "lockless_queue_mpsc_pop (rpc_queue s k) = (r, q)"
  defines "t \<equiv> s\<lparr>rpc_queue := (rpc_queue s)(k := q)\<rparr>"
  shows "rpc_inv t" and "queued s k = [] \<Longrightarrow> r = None \<and> queued t = queued s"
    and "queued s k = a # c \<Longrightarrow> distinct (queued s k) \<Longrightarrow>
           r = Some (Node a) \<and> queued t = (queued s)(k := c) \<and> in_hand t a"
proof -
  note L = pop_law [OF rpc_invD(1) [OF inv] pop]
  have qs: "queued t = (queued s)(k := queue_contents q)" by (simp add: fun_eq_iff queued_def t_def)
  have sub: "set (queue_contents q) \<subseteq> set (queued s k)"
    using L by (auto simp: queued_def split: list.splits)
  have m: "b \<in> set (queued t l) \<Longrightarrow> b \<in> set (queued s l)" for b l using sub by (auto simp: qs split: if_splits)
  have p: "in_pool t = in_pool s" "has_pool t = has_pool s" "msgs t = msgs s"
    by (simp_all add: fun_eq_iff in_pool_def has_pool_def t_def)
  have qi: "queue_inv (rpc_queue t l)" for l using L rpc_invD(1) [OF inv] by (simp add: t_def)
  show "rpc_inv t" using inv qi m unfolding rpc_inv_def p by blast
  show "r = None \<and> queued t = queued s" if "queued s k = []"
    using L that qs by (auto simp: queued_def fun_eq_iff)
  show "r = Some (Node a) \<and> queued t = (queued s)(k := c) \<and> in_hand t a"
    if c: "queued s k = a # c" and d: "distinct (queued s k)"
  proof -
    have e: "r = Some (Node a)" "queue_contents q = c" using L c by (auto simp: queued_def)
    have "a \<notin> set (queued t l)" for l
      using rpc_invD(2) [OF inv, of a k l] c d e qs m [of a l] by (cases "l = k") auto
    then have "in_hand t a" using rpc_invD(3,4) [OF inv, of a k] c unfolding in_hand_def p by simp
    with e qs show ?thesis by simp
  qed
qed

lemma queued_distinct: "rpc_inv s \<Longrightarrow> distinct (queued s k)"
proof -
  have "distinct (nodes p)" if "distinct p" for p
    using that by (induction p rule: nodes.induct) (auto simp: set_nodes)
  then show "rpc_inv s \<Longrightarrow> distinct (queued s k)"
    using rpc_invD(1) [of s k] by (simp add: queued_def queue_contents_def queue_inv_def)
qed

section \<open>Serving a message\<close>

lemma put_result_same:
  "rpc_queue (put_result a r s) = rpc_queue s" "g_rpc_pool (put_result a r s) = g_rpc_pool s"
  "pool (msgs (put_result a r s) b) = pool (msgs s b)" "func (msgs (put_result a r s) b) = func (msgs s b)"
  "self_release (msgs (put_result a r s) b) = self_release (msgs s b)"
  "world (put_result a r s) = world s"
  by (auto simp: put_result_def split: option.splits)

lemma stack_send_law:
  assumes inv: "rpc_inv s" and a: "in_hand s a"
  shows "rpc_inv (stack_send E a s)" and "func (msgs (stack_send E a s) b) = func (msgs s b)"
proof -
  have free: "rpc_inv (rpc_msg_free a t)"
    if "rpc_queue t = rpc_queue s" "g_rpc_pool t = g_rpc_pool s" "\<And>b. pool (msgs t b) = pool (msgs s b)" for t
    using rpc_msg_free_law(1) [of t a] rpc_inv_cong [OF inv that] a by simp
  have again: "rpc_inv ((rpc_call k a t)\<lparr>world := w\<rparr>)"
    if "rpc_queue t = rpc_queue s" "g_rpc_pool t = g_rpc_pool s" "\<And>b. pool (msgs t b) = pool (msgs s b)" for t k w
  proof -
    have "rpc_inv (rpc_call k a t)"
      using rpc_call_law(1) [of t a] rpc_inv_cong [OF inv that] a by simp
    then show ?thesis by (rule rpc_inv_cong(1)) simp_all
  qed
  show "rpc_inv (stack_send E a s)"
    by (auto simp: stack_send_def Let_def put_result_same split: option.splits prod.splits
        intro!: free again)
  show "func (msgs (stack_send E a s) b) = func (msgs s b)"
    by (auto simp: stack_send_def Let_def put_result_def rpc_msg_free_def rpc_call_def
        split: option.splits prod.splits)
qed

section \<open>What a poll does, message by message\<close>

text \<open>
  The turn of a \<open>stack_send\<close> message: whether it is queued again, and the world it leaves.
\<close>

definition send_turn :: "'w stack_env \<Rightarrow> rpc_msg \<Rightarrow> 'w \<Rightarrow> bool \<times> 'w" where
  "send_turn E m w =
     (let fd = arg_i (args m 0) in
      case get_socket E fd w of
        None \<Rightarrow> (False, w)
      | Some _ \<Rightarrow>
          (let (again, w) = do_lwip_send E (arg_p (args m 3)) fd (arg_size (args m 1)) 0 w;
               w = call_num_add E fd (- 1) w
           in if (sock_dataout E fd w \<or> again) \<and> call_num E fd w = 0 then (True, call_num_add E fd 1 w) else (False, w)))"

text \<open>The world after a message was handled, and the queue it goes to again, if any.\<close>

definition handled :: "'w stack_env \<Rightarrow> nat \<Rightarrow> rpc_msg \<Rightarrow> 'w \<Rightarrow> 'w" where
  "handled E k m w =
     (case func m of None \<Rightarrow> w
      | Some f \<Rightarrow> if f = Stack_send then snd (send_turn E m w) else if f = Rpc_msgcnt then w else snd (run_handler E k f m w))"

definition again_to :: "'w stack_env \<Rightarrow> rpc_msg \<Rightarrow> 'w \<Rightarrow> nat option" where
  "again_to E m w =
     (if func m = Some Stack_send \<and> fst (send_turn E m w) then Some (the (arg_p (args m 3))) else None)"

text \<open>The messages that go to queue \<open>l\<close> again when these are handled, in their order.\<close>

fun requeued :: "'w stack_env \<Rightarrow> nat \<Rightarrow> (addr \<Rightarrow> rpc_msg) \<Rightarrow> nat \<Rightarrow> addr list \<Rightarrow> 'w \<Rightarrow> addr list" where
  "requeued E k M l [] w = []"
| "requeued E k M l (a # as) w =
     (if again_to E (M a) w = Some l then [a] else []) @ requeued E k M l as (handled E k (M a) w)"

lemma requeued_cong:
  "(\<And>a. a \<in> set as \<Longrightarrow> M a = N a) \<Longrightarrow> requeued E k M l as w = requeued E k N l as w"
  by (induction "as" arbitrary: w) simp_all

lemma requeued_no_send:
  "(\<And>a. a \<in> set as \<Longrightarrow> func (M a) \<noteq> Some Stack_send) \<Longrightarrow> requeued E k M l as w = []"
  by (induction "as" arbitrary: w) (simp_all add: again_to_def)

lemma requeued_append:
  "requeued E k M l (as @ bs) w = requeued E k M l as w @ requeued E k M l bs (fold (\<lambda>a. handled E k (M a)) as w)"
  by (induction "as" arbitrary: w) simp_all

lemma set_requeued: "set (requeued E k M l as w) \<subseteq> set as"
  by (induction "as" arbitrary: w) auto

lemma handled_cong: "(\<And>a. a \<in> set as \<Longrightarrow> M a = N a) \<Longrightarrow> fold (\<lambda>a. handled E k (M a)) as w = fold (\<lambda>a. handled E k (N a)) as w"
  by (rule fold_cong) simp_all

lemma stack_send_turn:
  "(if fst (send_turn E (msgs s a) (world s))
    then stack_send E a s = (rpc_call (the (arg_p (args (msgs s a) 3))) a s)\<lparr>world := snd (send_turn E (msgs s a) (world s))\<rparr>
    else \<exists>r. stack_send E a s = rpc_msg_free a (put_result a r (s\<lparr>world := snd (send_turn E (msgs s a) (world s))\<rparr>)))"
proof -
  have keep: "stack_send E a s = rpc_msg_free a t \<Longrightarrow> t = put_result a r u \<Longrightarrow> \<exists>r. stack_send E a s = rpc_msg_free a (put_result a r u)" for t r u
    by blast
  show ?thesis
    by (cases "get_socket E (arg_i (args (msgs s a) 0)) (world s)")
      (force simp: send_turn_def stack_send_def Let_def rpc_call_def put_result_def split: prod.splits option.splits
        intro: keep [where r = "Some (- 1)"] keep [where r = None])+
qed

lemma run_func_turn:
  assumes "rpc_inv s" and "f \<noteq> Stack_send" and "func (msgs s a) = Some f"
  shows "\<exists>r. run_func E k f a s = Some (put_result a r (s\<lparr>world := handled E k (msgs s a) (world s)\<rparr>)) \<and>
    (f \<noteq> Rpc_msgcnt \<longrightarrow> r = fst (run_handler E k f (msgs s a) (world s)))"
proof (cases "f = Rpc_msgcnt")
  case True
  obtain c where "lockless_queue_count (rpc_queue s k) = Some c"
    using queue_count_value [OF rpc_invD(1) [OF assms(1)]] by blast
  then show ?thesis using True assms(3)
    by (intro exI [of _ "Some (scast c)"]) (simp add: run_func_def rpc_msgcnt_def handled_def)
next
  case False
  then show ?thesis using assms(2,3) by (auto simp: run_func_def handled_def split: prod.splits)
qed

text \<open>Serving any message.\<close>

lemma rpc_serve_turn:
  assumes inv: "rpc_inv s" and a: "in_hand s a"
  shows "\<exists>t. rpc_serve E k a s = Some t \<and> rpc_inv t \<and> world t = handled E k (msgs s a) (world s) \<and>
    queued t = (case again_to E (msgs s a) (world s) of None \<Rightarrow> queued s | Some l \<Rightarrow> (queued s)(l := queued s l @ [a])) \<and>
    (\<forall>b. b \<noteq> a \<longrightarrow> msgs t b = msgs s b \<and> (\<forall>th. in_pool t th b = in_pool s th b)) \<and> has_pool t = has_pool s \<and>
    (again_to E (msgs s a) (world s) \<noteq> None \<longrightarrow> msgs t a = msgs s a) \<and>
    (again_to E (msgs s a) (world s) = None \<longrightarrow>
      (if func (msgs s a) = Some Stack_send \<or> self_release (msgs s a) = 0 then in_pool t (pool (msgs s a)) a
       else in_hand t a \<and> pool (msgs t a) = pool (msgs s a) \<and> \<not> locked (msgs t a) \<and>
         (\<forall>f v. func (msgs s a) = Some f \<longrightarrow> f \<noteq> Rpc_msgcnt \<longrightarrow>
            fst (run_handler E k f (msgs s a) (world s)) = Some v \<longrightarrow> result (msgs t a) = v)))"
proof (cases "func (msgs s a) = Some Stack_send")
  case send: True
  have run: "rpc_serve E k a s = Some (stack_send E a s)" using send stack_send_law(2) [OF inv a, of E a] by (simp add: rpc_serve_def run_func_def)
  have inv': "rpc_inv (stack_send E a s)" by (rule stack_send_law(1) [OF inv a])
  let ?w = "snd (send_turn E (msgs s a) (world s))"
  have h: "handled E k (msgs s a) (world s) = ?w" using send by (simp add: handled_def)
  show ?thesis
  proof (cases "fst (send_turn E (msgs s a) (world s))")
    case True
    let ?l = "the (arg_p (args (msgs s a) 3))"
    have t: "stack_send E a s = (rpc_call ?l a s)\<lparr>world := ?w\<rparr>" using stack_send_turn [of E s a] True by simp
    have ag: "again_to E (msgs s a) (world s) = Some ?l" using send True by (simp add: again_to_def)
    have "queued (stack_send E a s) = (queued s)(?l := queued s ?l @ [a])"
      using rpc_call_law(2) [OF inv a, of ?l] unfolding t by (simp add: fun_eq_iff queued_def)
    moreover have "msgs (stack_send E a s) = msgs s" "in_pool (stack_send E a s) = in_pool s" "world (stack_send E a s) = ?w"
      "has_pool (stack_send E a s) = has_pool s"
      unfolding t by (simp_all add: rpc_call_def fun_eq_iff in_pool_def has_pool_def)
    ultimately show ?thesis using run inv' h ag by simp
  next
    case False
    then obtain r where t: "stack_send E a s = rpc_msg_free a (put_result a r (s\<lparr>world := ?w\<rparr>))"
      using stack_send_turn [of E s a] by auto
    let ?u = "put_result a r (s\<lparr>world := ?w\<rparr>)"
    have U: "rpc_inv ?u" "in_hand ?u a" "queued ?u = queued s"
      using rpc_inv_cong [OF inv, of ?u] a by (simp_all add: put_result_same)
    have pu: "in_pool ?u = in_pool s" "has_pool ?u = has_pool s"
      by (simp_all add: fun_eq_iff in_pool_def has_pool_def put_result_same)
    note F = rpc_msg_free_law [OF U(1,2)]
    have ag: "again_to E (msgs s a) (world s) = None" using False by (simp add: again_to_def)
    have "b \<noteq> a \<Longrightarrow> msgs (stack_send E a s) b = msgs s b" for b
      unfolding t by (simp add: rpc_msg_free_def Let_def put_result_def split: option.splits)
    moreover have "world (stack_send E a s) = ?w" unfolding t by (simp add: rpc_msg_free_def Let_def put_result_same)
    moreover have "queued (stack_send E a s) = queued s" using F(3) U(3) unfolding t by simp
    moreover have "in_pool (stack_send E a s) (pool (msgs s a)) a" using F(2) unfolding t by (simp add: put_result_same)
    moreover have "b \<noteq> a \<Longrightarrow> in_pool (stack_send E a s) th b = in_pool s th b" for b th using F(6) pu unfolding t by simp
    moreover have "has_pool (stack_send E a s) = has_pool s" using F(7) pu(2) unfolding t by (simp add: fun_eq_iff)
    ultimately show ?thesis using run inv' h ag send by simp
  qed
next
  case False
  have ag: "again_to E (msgs s a) (world s) = None" using False by (simp add: again_to_def)
  let ?w = "handled E k (msgs s a) (world s)"
  have "\<exists>r c. (case func (msgs s a) of Some f \<Rightarrow> run_func E k f a s
      | None \<Rightarrow> Some (s\<lparr>call_null := (call_null s)(k := call_null s k + 1)\<rparr>)) =
      Some (put_result a r (s\<lparr>world := ?w, call_null := c\<rparr>)) \<and>
      (\<forall>f. func (msgs s a) = Some f \<longrightarrow> f \<noteq> Rpc_msgcnt \<longrightarrow> r = fst (run_handler E k f (msgs s a) (world s)))"
  proof (cases "func (msgs s a)")
    case None
    then show ?thesis
      by (intro exI [of _ None] exI [of _ "(call_null s)(k := call_null s k + 1)"]) (simp add: put_result_def handled_def)
  next
    case (Some g)
    with False obtain r where "run_func E k g a s = Some (put_result a r (s\<lparr>world := ?w\<rparr>))"
      "g \<noteq> Rpc_msgcnt \<longrightarrow> r = fst (run_handler E k g (msgs s a) (world s))"
      using run_func_turn [OF inv, of g a E k] by auto
    moreover have "s\<lparr>world := ?w\<rparr> = s\<lparr>world := ?w, call_null := call_null s\<rparr>" by simp
    ultimately show ?thesis using Some by (intro exI [of _ r] exI [of _ "call_null s"]) simp
  qed
  then obtain r c where run: "(case func (msgs s a) of Some f \<Rightarrow> run_func E k f a s
      | None \<Rightarrow> Some (s\<lparr>call_null := (call_null s)(k := call_null s k + 1)\<rparr>)) =
      Some (put_result a r (s\<lparr>world := ?w, call_null := c\<rparr>))"
    and res: "\<And>f. func (msgs s a) = Some f \<Longrightarrow> f \<noteq> Rpc_msgcnt \<Longrightarrow> r = fst (run_handler E k f (msgs s a) (world s))" by blast
  let ?u = "put_result a r (s\<lparr>world := ?w, call_null := c\<rparr>)"
  have U: "rpc_inv ?u" "in_hand ?u a" "queued ?u = queued s"
    using rpc_inv_cong [OF inv, of ?u] a by (simp_all add: put_result_same)
  have pu: "in_pool ?u = in_pool s" "has_pool ?u = has_pool s"
    by (simp_all add: fun_eq_iff in_pool_def has_pool_def put_result_same)
  have other: "b \<noteq> a \<Longrightarrow> msgs ?u b = msgs s b" for b by (simp add: put_result_def split: option.splits)
  have val: "r = Some v \<Longrightarrow> result (msgs ?u a) = v" for v by (simp add: put_result_def)
  show ?thesis
  proof (cases "self_release (msgs s a) = 0")
    case True
    have "rpc_serve E k a s = Some (rpc_msg_free a ?u)"
      using run False True by (simp add: rpc_serve_def put_result_same)
    moreover have "b \<noteq> a \<Longrightarrow> msgs (rpc_msg_free a ?u) b = msgs s b" for b
      using other by (simp add: rpc_msg_free_def Let_def)
    moreover have "world (rpc_msg_free a ?u) = ?w" by (simp add: rpc_msg_free_def Let_def put_result_same)
    moreover have "has_pool (rpc_msg_free a ?u) = has_pool s" using rpc_msg_free_law(7) [OF U(1,2)] pu(2) by (simp add: fun_eq_iff)
    ultimately show ?thesis
      using True rpc_msg_free_law [OF U(1,2)] U(3) pu ag by (simp add: put_result_same)
  next
    case sync: False
    let ?t = "?u\<lparr>msgs := (msgs ?u)(a := (msgs ?u a)\<lparr>locked := False\<rparr>)\<rparr>"
    have "rpc_serve E k a s = Some ?t" using run False sync by (simp add: rpc_serve_def put_result_same)
    moreover have "rpc_inv ?t" "queued ?t = queued ?u" "in_hand ?t a" using rpc_inv_cong [OF U(1), of ?t] U(2) by simp_all
    moreover have "in_pool ?t = in_pool s" "has_pool ?t = has_pool s" using pu by (simp_all add: fun_eq_iff in_pool_def has_pool_def)
    moreover have "pool (msgs ?t a) = pool (msgs s a)" by (simp add: put_result_same)
    moreover have "world ?t = ?w" by (simp add: put_result_same)
    moreover have "result (msgs ?t a) = v"
      if "func (msgs s a) = Some f" "f \<noteq> Rpc_msgcnt" "fst (run_handler E k f (msgs s a) (world s)) = Some v" for f v
      using val res [OF that(1,2)] that(3) by simp
    ultimately show ?thesis using False sync U(3) other ag by simp
  qed
qed

text \<open>
  How message \<open>a\<close>, handled in world \<open>w\<close>, is found after the poll: one of \<open>stack_send\<close> is in its
  pool or queued again, an asynchronous one in its pool, and a synchronous one is back in the hands of its caller, unlocked, with the answer
  of its handler as the result.
\<close>

definition served_ok :: "'w stack_env \<Rightarrow> nat \<Rightarrow> 'w \<Rightarrow> rpc_msg \<Rightarrow> addr \<Rightarrow> 'w rpc_sys \<Rightarrow> bool" where
  "served_ok E k w m a t \<longleftrightarrow>
     (if func m = Some Stack_send then in_pool t (pool m) a \<or> (\<exists>l. a \<in> set (queued t l))
      else if self_release m = 0 then in_pool t (pool m) a
      else in_hand t a \<and> pool (msgs t a) = pool m \<and> \<not> locked (msgs t a) \<and>
        (\<forall>f v. func m = Some f \<longrightarrow> f \<noteq> Rpc_msgcnt \<longrightarrow> fst (run_handler E k f m w) = Some v \<longrightarrow> result (msgs t a) = v))"

text \<open>
  A whole poll. \<open>served\<close> are the messages it served, in their order: each the oldest of those then in
  the queue, which are the ones that were there and those that were queued again since.
\<close>

definition poll_done :: "'w stack_env \<Rightarrow> nat \<Rightarrow> nat \<Rightarrow> 'w rpc_sys \<Rightarrow> addr list \<Rightarrow> 'w rpc_sys \<Rightarrow> bool" where
  "poll_done E k n s served t \<longleftrightarrow> rpc_inv t \<and>
     length served \<le> n \<and> (length served < n \<longrightarrow> queued t k = []) \<and> set served \<subseteq> set (queued s k) \<and>
     served @ queued t k = queued s k @ requeued E k (msgs s) k served (world s) \<and>
     (\<forall>i < length served. \<exists>rest. queued s k @ requeued E k (msgs s) k (take i served) (world s) = take (Suc i) served @ rest) \<and>
     (\<forall>l. l \<noteq> k \<longrightarrow> queued t l = queued s l @ requeued E k (msgs s) l served (world s)) \<and>
     world t = fold (\<lambda>a. handled E k (msgs s a)) served (world s) \<and> has_pool t = has_pool s \<and>
     (\<forall>b. b \<notin> set served \<longrightarrow> msgs t b = msgs s b \<and> (\<forall>th. in_pool t th b = in_pool s th b)) \<and>
     (\<forall>i < length served. served_ok E k (fold (\<lambda>a. handled E k (msgs s a)) (take i served) (world s))
        (msgs s (served ! i)) (served ! i) t)"

lemma poll_law:
  assumes "rpc_inv s"
  shows "\<exists>t served. poll_rpc_msg E k n s = Some t \<and> poll_done E k n s served t"
  using assms
proof (induction n arbitrary: s)
  case 0
  then show ?case by (intro exI [of _ s] exI [of _ "[]"]) (simp add: poll_done_def)
next
  case (Suc n)
  obtain r q where pop: "lockless_queue_mpsc_pop (rpc_queue s k) = (r, q)" by (rule prod.exhaust)
  let ?p = "s\<lparr>rpc_queue := (rpc_queue s)(k := q)\<rparr>"
  note L = pop_queue_law [OF Suc.prems(1) pop]
  have same: "in_pool ?p = in_pool s" "has_pool ?p = has_pool s" by (simp_all add: fun_eq_iff in_pool_def has_pool_def)
  have sp: "msgs ?p = msgs s" "world ?p = world s" by simp_all
  show ?case
  proof (cases "queued s k")
    case Nil
    then have "poll_rpc_msg E k (Suc n) s = Some ?p" "poll_done E k (Suc n) s [] ?p"
      using L(1,2) pop same by (auto simp: poll_done_def fun_eq_iff)
    then show ?thesis by blast
  next
    case (Cons a c)
    note d = queued_distinct [OF Suc.prems(1), of k]
    have r: "r = Some (Node a)" and qp: "queued ?p = (queued s)(k := c)" and hand: "in_hand ?p a"
      using L(3) [OF Cons d] by simp_all
    let ?m = "msgs s a" and ?w = "world s"
    let ?w' = "handled E k ?m ?w"
    obtain u where u: "rpc_serve E k a ?p = Some u" "rpc_inv u" "world u = ?w'"
        "queued u = (case again_to E ?m ?w of None \<Rightarrow> queued ?p | Some l \<Rightarrow> (queued ?p)(l := queued ?p l @ [a]))"
      and other: "\<And>b. b \<noteq> a \<Longrightarrow> msgs u b = msgs s b \<and> (\<forall>th. in_pool u th b = in_pool s th b)"
      and hp: "has_pool u = has_pool s"
      and again: "again_to E ?m ?w \<noteq> None \<Longrightarrow> msgs u a = ?m"
      and gone: "again_to E ?m ?w = None \<Longrightarrow>
        (if func ?m = Some Stack_send \<or> self_release ?m = 0 then in_pool u (pool ?m) a
         else in_hand u a \<and> pool (msgs u a) = pool ?m \<and> \<not> locked (msgs u a) \<and>
         (\<forall>f v. func ?m = Some f \<longrightarrow> f \<noteq> Rpc_msgcnt \<longrightarrow> fst (run_handler E k f ?m ?w) = Some v \<longrightarrow> result (msgs u a) = v))"
      using rpc_serve_turn [OF L(1) hand, of E k] unfolding same sp
      by (elim exE conjE) (rule that, (assumption | blast | (drule (1) mp, assumption))+)
    obtain t served where t: "poll_rpc_msg E k n u = Some t" and T: "poll_done E k n u served t"
      using Suc.IH [OF u(2)] by blast
    have ret: "a \<in> set (queued u k) \<longleftrightarrow> again_to E ?m ?w = Some k"
      using u(4) qp Cons d by (auto split: option.splits)
    have sub: "set served \<subseteq> set (queued u k)" using T by (simp add: poll_done_def)
    have M: "msgs u b = msgs s b" if "b \<in> set served" for b
      using that sub ret again other by (cases "b = a") auto
    have rq: "requeued E k (msgs s) l (a # served) ?w =
        (if again_to E ?m ?w = Some l then [a] else []) @ requeued E k (msgs u) l served (world u)" for l
      using requeued_cong [of served "msgs u" "msgs s" E k l] M u(3) by simp
    have fd: "fold (\<lambda>a. handled E k (msgs s a)) (take (Suc i) (a # served)) ?w = fold (\<lambda>a. handled E k (msgs u a)) (take i served) (world u)" for i
      using handled_cong [of "take i served" "msgs u" "msgs s" E k] M in_set_takeD [of _ i served] u(3) by (metis fold_simps(2) take_Suc_Cons)
    have "set (queued u k) \<subseteq> set (queued s k)" using u(4) qp Cons by (auto split: option.splits)
    then have s1: "set (a # served) \<subseteq> set (queued s k)" using sub Cons by auto
    have s2: "(a # served) @ queued t k = queued s k @ requeued E k (msgs s) k (a # served) ?w"
      using T u(4) qp Cons unfolding rq by (auto simp: poll_done_def split: option.splits)
    have s7: "\<exists>rest. queued s k @ requeued E k (msgs s) k (take i (a # served)) ?w = take (Suc i) (a # served) @ rest"
      if i: "i < length (a # served)" for i
    proof (cases i)
      case (Suc j)
      then have "j < length served" using i by simp
      then obtain rest where rest: "queued u k @ requeued E k (msgs u) k (take j served) (world u) = take (Suc j) served @ rest"
        using T unfolding poll_done_def by blast
      have "requeued E k (msgs s) k (take j served) ?w' = requeued E k (msgs u) k (take j served) (world u)"
        using requeued_cong [of "take j served" "msgs u" "msgs s"] M in_set_takeD [of _ j served] u(3) by metis
      then have "queued s k @ requeued E k (msgs s) k (take i (a # served)) ?w = a # take (Suc j) served @ rest"
        using rest u(4) qp Cons Suc by (auto split: option.splits)
      then show ?thesis using Suc by auto
    qed (simp add: Cons)
    have s3: "l \<noteq> k \<Longrightarrow> queued t l = queued s l @ requeued E k (msgs s) l (a # served) ?w" for l
      using T u(4) qp Cons unfolding rq by (auto simp: poll_done_def split: option.splits)
    have s4: "world t = fold (\<lambda>a. handled E k (msgs s a)) (a # served) ?w"
      using T fd [of "length served"] by (simp add: poll_done_def)
    have s5: "b \<notin> set (a # served) \<Longrightarrow> msgs t b = msgs s b \<and> (\<forall>th. in_pool t th b = in_pool s th b)" for b
      using T other [of b] by (simp add: poll_done_def)
    have s6: "has_pool t = has_pool s" using T hp by (simp add: poll_done_def)
    have fin: "served_ok E k (fold (\<lambda>a. handled E k (msgs s a)) (take i (a # served)) ?w) (msgs s ((a # served) ! i)) ((a # served) ! i) t"
      if i: "i < length (a # served)" for i
    proof (cases i)
      case (Suc j)
      then have j: "j < length served" using i by simp
      then have "msgs u (served ! j) = msgs s (served ! j)" using M by simp
      moreover have "served_ok E k (fold (\<lambda>a. handled E k (msgs u a)) (take j served) (world u)) (msgs u (served ! j)) (served ! j) t"
        using T j by (simp add: poll_done_def)
      ultimately show ?thesis using fd [of j] Suc by simp
    next
      case 0
      have "served_ok E k ?w ?m a t"
      proof (cases "a \<in> set served")
        case True
        then obtain j where j: "j < length served" "served ! j = a" by (auto simp: in_set_conv_nth)
        have "served_ok E k (fold (\<lambda>a. handled E k (msgs u a)) (take j served) (world u)) ?m a t"
          using T j M [OF True] by (auto simp: poll_done_def)
        moreover have "func ?m = Some Stack_send" using True sub ret by (auto simp: again_to_def split: if_splits)
        ultimately show ?thesis by (simp add: served_ok_def)
      next
        case False
        then have keep: "msgs t a = msgs u a" "in_pool t th a = in_pool u th a" for th using T by (simp_all add: poll_done_def)
        have hand: "in_hand t a" if "in_hand u a"
        proof -
          have "a \<notin> set (requeued E k (msgs u) l served (world u))" for l using set_requeued False by fast
          moreover have "set served \<union> set (queued t k) = set (queued u k) \<union> set (requeued E k (msgs u) k served (world u))"
            using T unfolding poll_done_def by (metis set_append)
          ultimately have "a \<notin> set (queued t l)" for l
            using T that by (cases "l = k") (auto simp: poll_done_def in_hand_def)
          then show ?thesis using that keep T by (simp add: in_hand_def poll_done_def)
        qed
        show ?thesis
        proof (cases "again_to E ?m ?w")
          case None
          show ?thesis using gone [OF None] keep hand by (auto simp: served_ok_def split: if_splits)
        next
          case (Some l)
          then have "func ?m = Some Stack_send" by (simp add: again_to_def split: if_splits)
          moreover have l: "a \<in> set (queued u l)" using u(4) Some by simp
          have "a \<in> set (queued t l)"
          proof (cases "l = k")
            case True
            have "set (queued u k) \<subseteq> set (served @ queued t k)" using T by (simp add: poll_done_def)
            then show ?thesis using False True l by auto
          next
            case False
            then show ?thesis using T l by (simp add: poll_done_def)
          qed
          ultimately show ?thesis by (auto simp: served_ok_def)
        qed
      qed
      then show ?thesis using 0 by simp
    qed
    have "poll_rpc_msg E k (Suc n) s = Some t" using pop r u t by simp
    moreover have "poll_done E k (Suc n) s (a # served) t"
      unfolding poll_done_def
    proof (intro conjI allI impI)
      show "rpc_inv t" "length (a # served) \<le> Suc n" "length (a # served) < Suc n \<Longrightarrow> queued t k = []"
        using T by (simp_all add: poll_done_def)
    qed (use s1 s2 s3 s4 s5 s6 s7 fin in blast)+
    ultimately show ?thesis by blast
  qed
qed

lemma poll_no_send:
  assumes T: "poll_done E k n s served t" and no: "\<forall>a \<in> set (queued s k). func (msgs s a) \<noteq> Some Stack_send"
  shows "served = take n (queued s k) \<and> queued t = (queued s)(k := drop n (queued s k))"
proof -
  have sub: "set served \<subseteq> set (queued s k)" using T by (simp add: poll_done_def)
  have none: "requeued E k (msgs s) l served (world s) = []" for l
    by (rule requeued_no_send) (use sub no in blast)
  have all: "served @ queued t k = queued s k" and len: "length served \<le> n" "length served < n \<Longrightarrow> queued t k = []"
    using T none by (simp_all add: poll_done_def)
  have k: "served = take n (queued s k)" "queued t k = drop n (queued s k)"
    using len by (cases "length served < n"; simp flip: all)+
  moreover have "l \<noteq> k \<Longrightarrow> queued t l = queued s l" for l using T none by (simp add: poll_done_def)
  ultimately show ?thesis by (auto simp: fun_eq_iff)
qed

section \<open>Issuing a call\<close>

text \<open>The objects of a new mempool are new.\<close>

definition pools_fresh :: "rpc_alloc \<Rightarrow> 'w rpc_sys \<Rightarrow> bool" where
  "pools_fresh A s \<longleftrightarrow> (\<forall>P a. create_mempool A = Some P \<longrightarrow> a \<in> P \<longrightarrow>
     (\<forall>th. \<not> in_pool s th a) \<and> (\<forall>k. a \<notin> set (queued s k)))"

lemma has_pool_in: "g_rpc_pool s th = Some (Some P) \<Longrightarrow> has_pool s th"
  by (simp add: has_pool_def)

lemma take_from_pool:
  assumes inv: "rpc_inv s" and P: "g_rpc_pool s th = Some (Some P)" and a: "a \<in> P"
    and t: "rpc_queue t = rpc_queue s" "g_rpc_pool t = (g_rpc_pool s)(th := Some (Some (P - {a})))"
      "\<And>b. b \<noteq> a \<Longrightarrow> msgs t b = msgs s b" "pool (msgs t a) = th"
  shows "rpc_inv t" and "in_hand t a" and "queued t = queued s"
proof -
  show q: "queued t = queued s" by (simp add: fun_eq_iff queued_def t)
  have pool: "in_pool t i b \<longleftrightarrow> in_pool s i b \<and> \<not> (i = th \<and> b = a)" for i b
    using P by (auto simp: in_pool_def t(2))
  have h: "has_pool t = has_pool s" using P by (auto simp: fun_eq_iff has_pool_def t(2))
  have mine: "in_pool s th a" using P a by (simp add: in_pool_def)
  then have nq: "a \<notin> set (queued s k)" for k using rpc_invD(3) [OF inv] by blast
  have only: "\<not> in_pool t i a" for i using rpc_invD(5) [OF inv mine, of i] pool by auto
  show "in_hand t a" using nq only P unfolding in_hand_def q h t(4) by (simp add: has_pool_in)
  have "has_pool s (pool (msgs t b))" if "b \<in> set (queued s k)" for b k
    using rpc_invD(4) [OF inv that] t(3) [of b] nq that by (cases "b = a") auto
  then show "rpc_inv t" using inv unfolding rpc_inv_def q pool h t(1) by blast
qed

lemma rpc_inv_new_pool:
  assumes inv: "rpc_inv s" and none: "g_rpc_pool s th = None"
    and fresh: "\<And>a. a \<in> P \<Longrightarrow> (\<forall>i. \<not> in_pool s i a) \<and> (\<forall>k. a \<notin> set (queued s k))"
  shows "rpc_inv (s\<lparr>g_rpc_pool := (g_rpc_pool s)(th := Some (Some P))\<rparr>)" (is "rpc_inv ?t")
proof -
  have q: "queued ?t = queued s" by (simp add: fun_eq_iff queued_def)
  have pool: "in_pool ?t i b \<longleftrightarrow> in_pool s i b \<or> i = th \<and> b \<in> P" for i b
    using none by (auto simp: in_pool_def split: option.splits)
  have h: "has_pool s i \<Longrightarrow> has_pool ?t i" for i by (auto simp: has_pool_def)
  have "in_pool s i b \<or> i = th \<and> b \<in> P \<Longrightarrow> in_pool s j b \<or> j = th \<and> b \<in> P \<Longrightarrow> i = j" for i j b
    using rpc_invD(5) [OF inv, of i b j] fresh [of b] by blast
  then show ?thesis using inv fresh h unfolding rpc_inv_def q pool by (auto simp del: fun_upd_apply)
qed

lemma rpc_msg_alloc_law:
  assumes inv: "rpc_inv s" and A: "mempool_ok A" "pools_fresh A s"
    and r: "rpc_msg_alloc A th (Some k) f s = Some (Some a, t)"
  shows "rpc_inv t \<and> in_hand t a \<and> queued t = queued s \<and> func (msgs t a) = Some f \<and>
    self_release (msgs t a) = 1 \<and> pool (msgs t a) = th \<and> args (msgs t a) = args (msgs s a) \<and> world t = world s"
proof -
  have take: "rpc_inv t \<and> in_hand t a \<and> queued t = queued u \<and> func (msgs t a) = Some f \<and>
      self_release (msgs t a) = 1 \<and> pool (msgs t a) = th \<and> args (msgs t a) = args (msgs u a) \<and> world t = world u"
    if u: "rpc_inv u" "g_rpc_pool u th = Some (Some P)" and g: "get_rpc_msg A (Some P) = Some (Some a, Q)"
      and t: "t = u\<lparr>g_rpc_pool := (g_rpc_pool u)(th := Some (Some Q)), msgs := (msgs u)(a :=
                   (msgs u a)\<lparr>pool := th, locked := False, func := Some f, self_release := 1\<rparr>)\<rparr>"
    for u P Q
  proof -
    have "a \<in> P" "Q = P - {a}"
      using g A(1) by (auto simp: get_rpc_msg_def mempool_ok_def split: option.splits)
    then show ?thesis using take_from_pool [OF u(1,2), of a t] t by simp
  qed
  show ?thesis
  proof (cases "g_rpc_pool s th")
    case (Some rp)
    then obtain P where P: "rp = Some P" using r
      by (cases rp) (auto simp: rpc_msg_alloc_def get_rpc_msg_def Let_def)
    obtain got Q where g: "get_rpc_msg A (Some P) = Some (got, Q)"
      by (cases "mempool_get A P") (auto simp: get_rpc_msg_def)
    have "got = Some a \<and> t = s\<lparr>g_rpc_pool := (g_rpc_pool s)(th := Some (Some Q)), msgs := (msgs s)(a :=
                   (msgs s a)\<lparr>pool := th, locked := False, func := Some f, self_release := 1\<rparr>)\<rparr>"
      using r Some P g by (auto simp: rpc_msg_alloc_def Let_def split: option.splits)
    then show ?thesis using take [OF inv] Some P g by auto
  next
    case None
    then obtain P where P: "create_mempool A = Some P" "calloc_ok A" using r
      by (auto simp: rpc_msg_alloc_def Let_def split: if_splits option.splits)
    let ?u = "s\<lparr>g_rpc_pool := (g_rpc_pool s)(th := Some (Some P))\<rparr>"
    have u: "rpc_inv ?u" using rpc_inv_new_pool [OF inv None] A(2) P by (auto simp: pools_fresh_def)
    obtain got Q where g: "get_rpc_msg A (Some P) = Some (got, Q)"
      by (cases "mempool_get A P") (auto simp: get_rpc_msg_def)
    have "got = Some a \<and> t = ?u\<lparr>g_rpc_pool := (g_rpc_pool ?u)(th := Some (Some Q)), msgs := (msgs ?u)(a :=
                   (msgs ?u a)\<lparr>pool := th, locked := False, func := Some f, self_release := 1\<rparr>)\<rparr>"
      using r None P g by (auto simp: rpc_msg_alloc_def Let_def split: option.splits)
    then have "rpc_inv t \<and> in_hand t a \<and> queued t = queued ?u \<and> func (msgs t a) = Some f \<and>
      self_release (msgs t a) = 1 \<and> pool (msgs t a) = th \<and> args (msgs t a) = args (msgs ?u a) \<and> world t = world ?u"
      using take [OF u _ , of P Q] g by simp
    moreover have "queued ?u = queued s" by (simp add: fun_eq_iff queued_def)
    ultimately show ?thesis by simp
  qed
qed

lemma rpc_issue_law:
  assumes inv: "rpc_inv s" and A: "mempool_ok A" "pools_fresh A s"
    and r: "rpc_issue A th (Some k) f xs s = Some (Some a, t)"
  shows "rpc_inv t \<and> queued t = (queued s)(k := queued s k @ [a]) \<and> func (msgs t a) = Some f \<and>
    self_release (msgs t a) = 1 \<and> locked (msgs t a) \<and> pool (msgs t a) = th \<and> world t = world s \<and>
    args (msgs t a) = fold (\<lambda>(i, x) f. f(i := x)) xs (args (msgs s a))"
proof -
  obtain u where u: "rpc_msg_alloc A th (Some k) f s = Some (Some a, u)"
    and t: "t = rpc_sync_begin k a (set_args a xs u)"
    using r by (auto simp: rpc_issue_def split: option.splits bind_splits)
  note U = rpc_msg_alloc_law [OF inv A u]
  let ?v = "(set_args a xs u)\<lparr>msgs := (msgs (set_args a xs u))(a := (msgs (set_args a xs u) a)\<lparr>locked := True\<rparr>)\<rparr>"
  have V: "rpc_inv ?v" "in_hand ?v a" "queued ?v = queued s"
    using rpc_inv_cong [of u ?v] U by (simp_all add: set_args_def)
  have "t = rpc_call k a ?v" by (simp add: t rpc_sync_begin_def)
  then show ?thesis using rpc_call_law [OF V(1,2), of k] V(3) U by (simp add: rpc_call_def set_args_def)
qed

section \<open>The two halves of serving a message\<close>

text \<open>The stack thread is not alone between the handler and the reads of the message after it.\<close>

definition serve_run :: "'w stack_env \<Rightarrow> nat \<Rightarrow> addr \<Rightarrow> 'w rpc_sys \<Rightarrow> 'w rpc_sys option" where
  "serve_run E k a s = (case func (msgs s a) of Some f \<Rightarrow> run_func E k f a s
     | None \<Rightarrow> Some (s\<lparr>call_null := (call_null s)(k := call_null s k + 1)\<rparr>))"

definition serve_release :: "addr \<Rightarrow> 'w rpc_sys \<Rightarrow> 'w rpc_sys" where
  "serve_release a s =
     (if func (msgs s a) \<noteq> Some Stack_send then
        (if self_release (msgs s a) \<noteq> 0 then s\<lparr>msgs := (msgs s)(a := (msgs s a)\<lparr>locked := False\<rparr>)\<rparr>
         else rpc_msg_free a s)
      else s)"

lemma rpc_serve_halves: "rpc_serve E k a s = map_option (serve_release a) (serve_run E k a s)"
  by (cases "serve_run E k a s") (simp_all add: rpc_serve_def serve_run_def serve_release_def)

section \<open>An environment to evaluate on\<close>

text \<open>
  Thread 1 with a pool of two messages, stack 0 with an empty queue; the world is the number
  of binds made, and \<open>fd\<close> 3 is the only socket.
\<close>

definition demo_env :: "nat stack_env" where
  "demo_env = \<lparr>
     gazelle_socket = (\<lambda>_ _ _ w. (3, w)), lwip_close = (\<lambda>_ w. (0, w)), gazelle_clean_sock = (\<lambda>_ w. w),
     close_fn = (\<lambda>_ w. w), lwip_bind = (\<lambda>fd _ _ w. (if fd = 3 then 7 else - 1, Suc w)),
     get_socket_by_fd = (\<lambda>fd _. fd = 3), lwip_listen = (\<lambda>_ _ w. (0, w)),
     lwip_accept4 = (\<lambda>_ _ _ _ w. (- 1, w)), get_socket = (\<lambda>fd _. if fd = 3 then Some (Some 0) else None),
     conn_num_inc = (\<lambda>_ w. w), recvmbox_count = (\<lambda>_ _. 0), add_recv_list = (\<lambda>_ w. w),
     lwip_connect = (\<lambda>_ _ _ w. (- 1, w)), errno = (\<lambda>_. 111), lwip_getpeername = (\<lambda>_ _ _ w. (0, w)),
     lwip_getsockname = (\<lambda>_ _ _ w. (0, w)), lwip_getsockopt = (\<lambda>_ _ _ _ _ w. (0, w)),
     lwip_setsockopt = (\<lambda>_ _ _ _ _ w. (0, w)), lwip_fcntl = (\<lambda>_ _ _ w. (0, w)),
     lwip_ioctl = (\<lambda>_ _ _ w. (0, w)), lwip_recv = (\<lambda>_ _ _ _ w. (0, w)), eth_dev_recv = (\<lambda>_ _ w. w),
     wakeup_list_del = (\<lambda>_ _ w. w), do_lwip_send = (\<lambda>_ _ _ _ w. (False, w)), sock_dataout = (\<lambda>_ _. False),
     call_num = (\<lambda>_ _. 0), call_num_add = (\<lambda>_ _ w. w), other_handler = (\<lambda>_ _ w. (0, w))\<rparr>"

definition demo_msg :: rpc_msg where
  "demo_msg = \<lparr>locked = False, self_release = 0, result = 0, pool = 1, func = Some Stack_send,
     args = (\<lambda>_. Arg_i 0)\<rparr>"

definition demo_rpc :: "addr set \<Rightarrow> nat rpc_sys" where
  "demo_rpc P = \<lparr>msgs = (\<lambda>_. demo_msg), g_rpc_pool = (\<lambda>_. None)(1 := Some (Some P)),
     rpc_queue = (\<lambda>_. lockless_queue_init \<lparr>head = Stub, tail = Stub, nxt = (\<lambda>_. None)\<rparr>),
     call_null = (\<lambda>_. 0), call_alloc_fail = 0, world = 0\<rparr>"

definition demo_alloc :: rpc_alloc where
  "demo_alloc = \<lparr>calloc_ok = True, create_mempool = None,
     mempool_get = (\<lambda>P. if 5 \<in> P then Some 5 else if 6 \<in> P then Some 6 else None)\<rparr>"

lemma demo_rpc_inv: "rpc_inv (demo_rpc P)" "queued (demo_rpc P) k = []" "in_pool (demo_rpc P) th a \<longleftrightarrow> th = 1 \<and> a \<in> P"
  by (auto simp: rpc_inv_def demo_rpc_def queued_def queue_init in_pool_def)

lemma demo_alloc_ok: "mempool_ok demo_alloc" "pools_fresh demo_alloc s"
  by (auto simp: mempool_ok_def demo_alloc_def pools_fresh_def split: if_splits)

section \<open>Properties\<close>

text \<open>C6: A synchronous call is transparent: any but \<open>rpc_call_msgcnt\<close>, whose answer is the
  length of the queue (\<open>stack_send\<close> is never called synchronously), whose handler writes a
  result. Once it has got a message, whatever messages wait before it, the caller blocks as long as the stack thread
  has not polled them and its own; the handler then gets exactly the arguments
  the caller put in, in the world the messages before it have left; the caller returns the 32-bit
  result of the handler, and the message is back in the pool of the thread it came from. When
  none of those before it is queued again, a poll of just enough messages leaves the world of
  this handler and an empty queue. The pools of the system are those of the invariant, and DPDK hands
  out objects of the pool and makes new pools of new objects.\<close>

theorem rpc_call_is_transparent:
  assumes "rpc_inv s" and "mempool_ok A" and "pools_fresh A s"
    and "rpc_issue A th (Some k) f xs s = Some (Some a, s1)"
    and "f \<noteq> Stack_send" and "f \<noteq> Rpc_msgcnt"
    and "run_handler E k f (msgs s1 a) (fold (\<lambda>b. handled E k (msgs s1 b)) (queued s k) (world s)) = (Some v, w)"
  shows "args (msgs s1 a) = fold (\<lambda>(i, x) g. g(i := x)) xs (args (msgs s a)) \<and>
    (\<forall>n \<le> length (queued s k). \<exists>s2. poll_rpc_msg E k n s1 = Some s2 \<and> rpc_sync_end a s2 = None) \<and>
    (\<forall>n > length (queued s k). \<exists>s2 s3. poll_rpc_msg E k n s1 = Some s2 \<and> rpc_sync_end a s2 = Some (ucast v, s3) \<and>
       in_pool s3 th a \<and> rpc_inv s3 \<and>
       (requeued E k (msgs s1) k (queued s k) (world s) = [] \<longrightarrow> world s3 = w \<and> queued s3 k = []))"
proof -
  note I = rpc_issue_law [OF assms(1-4)]
  let ?qs = "queued s k"
  have q1: "queued s1 k = ?qs @ [a]" using I by simp
  then have new: "a \<notin> set ?qs" using queued_distinct [OF I [THEN conjunct1], of k] by simp
  have early: "\<exists>s2. poll_rpc_msg E k n s1 = Some s2 \<and> rpc_sync_end a s2 = None" if n: "n \<le> length ?qs" for n
  proof -
    obtain t served where t: "poll_rpc_msg E k n s1 = Some t" "poll_done E k n s1 served t" using poll_law I by blast
    have "take (length served) (served @ queued t k) = take (length served) ((?qs @ [a]) @ requeued E k (msgs s1) k served (world s1))"
      using t(2) q1 by (simp add: poll_done_def)
    then have "served = take (length served) ?qs" using t(2) n by (simp add: poll_done_def)
    then have "a \<notin> set served" using new in_set_takeD by metis
    then have "msgs t a = msgs s1 a" using t(2) by (simp add: poll_done_def)
    then show ?thesis using t(1) I by (simp add: rpc_sync_end_def)
  qed
  have late: "\<exists>s2 s3. poll_rpc_msg E k n s1 = Some s2 \<and> rpc_sync_end a s2 = Some (ucast v, s3) \<and>
       in_pool s3 th a \<and> rpc_inv s3 \<and>
       (requeued E k (msgs s1) k ?qs (world s) = [] \<longrightarrow> world s3 = w \<and> queued s3 k = [])" if n: "length ?qs < n" for n
  proof -
    obtain t served where t: "poll_rpc_msg E k n s1 = Some t" and T: "poll_done E k n s1 served t" using poll_law I by blast
    let ?W = "fold (\<lambda>b. handled E k (msgs s1 b)) ?qs (world s)"
    have all: "served @ queued t k = (?qs @ [a]) @ requeued E k (msgs s1) k served (world s)"
      using T q1 I by (simp add: poll_done_def)
    have long: "length ?qs < length served"
    proof (cases "length served < n")
      case True
      then have "queued t k = []" using T by (simp add: poll_done_def)
      then have "length served = length ((?qs @ [a]) @ requeued E k (msgs s1) k served (world s))" using all by simp
      then show ?thesis by simp
    qed (use n T in \<open>simp add: poll_done_def\<close>)
    have "take (Suc (length ?qs)) (served @ queued t k) = ?qs @ [a]" unfolding all by simp
    then have pre: "take (Suc (length ?qs)) served = ?qs @ [a]" using long by simp
    then have at: "served ! length ?qs = a" "take (length ?qs) served = ?qs"
      using long by (simp_all add: take_Suc_conv_app_nth)
    have "served_ok E k ?W (msgs s1 a) a t" using T long at I by (auto simp: poll_done_def)
    then have ok: "in_hand t a" "pool (msgs t a) = th" "\<not> locked (msgs t a)" "result (msgs t a) = v"
      using I assms(5-7) by (simp_all add: served_ok_def)
    have inv: "rpc_inv t" using T by (simp add: poll_done_def)
    note F = rpc_msg_free_law [OF inv ok(1)]
    have "rpc_sync_end a t = Some (ucast v, rpc_msg_free a t)" using ok by (simp add: rpc_sync_end_def Let_def)
    moreover have "world (rpc_msg_free a t) = w \<and> queued (rpc_msg_free a t) k = []"
      if none: "requeued E k (msgs s1) k ?qs (world s) = []"
    proof -
      have Q: "requeued E k (msgs s1) k (?qs @ [a]) (world s) = []"
        using none I assms(5) by (simp add: requeued_append again_to_def)
      have "length served = Suc (length ?qs)"
      proof (rule ccontr)
        assume "length served \<noteq> Suc (length ?qs)"
        then have "Suc (length ?qs) < length served" using long by simp
        then obtain rest where "queued s1 k @ requeued E k (msgs s1) k (take (Suc (length ?qs)) served) (world s1) = take (Suc (Suc (length ?qs))) served @ rest"
          using T unfolding poll_done_def by blast
        then have "length (?qs @ [a]) = length (take (Suc (Suc (length ?qs))) served @ rest)" using pre Q q1 I by simp
        then show False using \<open>Suc (length ?qs) < length served\<close> by simp
      qed
      then have "served = ?qs @ [a]" using pre by simp
      moreover from this have "queued t k = []" using all Q by simp
      moreover have "handled E k (msgs s1 a) ?W = w" using I assms(5-7) by (simp add: handled_def)
      ultimately show ?thesis using T I F(3) by (simp add: poll_done_def rpc_msg_free_def Let_def)
    qed
    ultimately show ?thesis using t F(1,2) ok(2) by blast
  qed
  show ?thesis using I early late by blast
qed

lemma rpc_call_is_transparent_witness:
  "\<exists>s1 s2 s3. rpc_call_bind demo_alloc (get_socket demo_env) 1 3 (Some 40) 16 (demo_rpc {5, 6}) = Some (Some 5, s1) \<and>
     poll_rpc_msg demo_env 0 8 s1 = Some s2 \<and> rpc_sync_end 5 s2 = Some (7, s3) \<and> world s3 = 1"
proof -
  let ?s = "demo_rpc {5, 6}"
  let ?xs = "[(0, Arg_i 3), (1, Arg_p (Some 40)), (2, Arg_socklen 16)]"
  have g: "get_protocol_stack_by_fd (get_socket demo_env) 3 ?s = Some 0"
    by (simp add: get_protocol_stack_by_fd_def demo_env_def)
  obtain s1 where i: "rpc_issue demo_alloc 1 (Some 0) Stack_bind ?xs ?s = Some (Some 5, s1)"
    by (simp add: rpc_issue_def rpc_msg_alloc_def demo_rpc_def demo_alloc_def get_rpc_msg_def Let_def)
  note L = rpc_issue_law [OF demo_rpc_inv(1) demo_alloc_ok i]
  have "run_handler demo_env 0 Stack_bind (msgs s1 5) (fold (\<lambda>b. handled demo_env 0 (msgs s1 b)) (queued ?s 0) (world ?s)) = (Some 7, 1)"
    using L by (simp add: demo_rpc_inv(2)) (simp add: stack_bind_def int_result_def demo_env_def demo_rpc_def)
  from rpc_call_is_transparent [OF demo_rpc_inv(1) demo_alloc_ok i _ _ this]
  have "\<forall>n > length (queued ?s 0). \<exists>s2 s3. poll_rpc_msg demo_env 0 n s1 = Some s2 \<and>
      rpc_sync_end 5 s2 = Some (ucast (7 :: u64), s3) \<and> world s3 = 1" by (simp add: demo_rpc_inv(2)) blast
  then have "\<exists>s2 s3. poll_rpc_msg demo_env 0 8 s1 = Some s2 \<and> rpc_sync_end 5 s2 = Some (ucast (7 :: u64), s3) \<and> world s3 = 1"
    by (simp add: demo_rpc_inv(2))
  then show ?thesis using i by (auto simp: rpc_call_bind_def g)
qed

text \<open>C23: A poll always ends, keeps every message in exactly one place (a queue, its pool, or one
  thread's hands), and handles messages oldest first, as many as \<open>max_num\<close> allows or until
  the queue is empty: those that were queued and, behind them, the \<open>stack_send\<close> messages that are
  queued again because their socket has more to send. Every handled message runs its handler once per turn, in the
  world the messages before it have left, and the poll changes the world in no other way; a synchronous one
  is then unlocked, with its handler's answer as the result (\<open>rpc_msgcnt\<close> apart, which answers from the queue), an asynchronous one is back
  in its pool, and one of \<open>stack_send\<close> is in its pool or in a queue again. Messages not handled are
  untouched. Without a message of \<open>stack_send\<close> in the queue, the handled ones are just
  the oldest \<open>max_num\<close>. Each message is served in one step (for what the reads of a message after its handler can meet,
  see \<open>poll_releases_reused_message\<close>).\<close>

theorem poll_rpc_msg_serves_in_order:
  assumes "rpc_inv s"
  shows "\<exists>t served. poll_rpc_msg E k n s = Some t \<and> rpc_inv t \<and>
     length served \<le> n \<and> (length served < n \<longrightarrow> queued t k = []) \<and>
     served @ queued t k = queued s k @ requeued E k (msgs s) k served (world s) \<and>
     (\<forall>i < length served. \<exists>rest. queued s k @ requeued E k (msgs s) k (take i served) (world s) = take (Suc i) served @ rest) \<and>
     (\<forall>l. l \<noteq> k \<longrightarrow> queued t l = queued s l @ requeued E k (msgs s) l served (world s)) \<and>
     world t = fold (\<lambda>a. handled E k (msgs s a)) served (world s) \<and>
     (\<forall>b. b \<notin> set served \<longrightarrow> msgs t b = msgs s b) \<and>
     (\<forall>i < length served. served_ok E k (fold (\<lambda>a. handled E k (msgs s a)) (take i served) (world s))
        (msgs s (served ! i)) (served ! i) t) \<and>
     ((\<forall>a \<in> set (queued s k). func (msgs s a) \<noteq> Some Stack_send) \<longrightarrow>
        served = take n (queued s k) \<and> queued t = (queued s)(k := drop n (queued s k)))"
proof -
  obtain t served where t: "poll_rpc_msg E k n s = Some t" and T: "poll_done E k n s served t" using poll_law [OF assms] by blast
  have "served = take n (queued s k) \<and> queued t = (queued s)(k := drop n (queued s k))"
    if "\<forall>a \<in> set (queued s k). func (msgs s a) \<noteq> Some Stack_send"
    by (rule poll_no_send [OF T that])
  then show ?thesis using t T unfolding poll_done_def by blast
qed

lemma poll_rpc_msg_serves_in_order_witness:
  "\<exists>s t. queued s 0 = [5, 6] \<and> poll_rpc_msg demo_env 0 1 s = Some t \<and> queued t 0 = [6] \<and> \<not> locked (msgs t 5)"
proof -
  let ?s = "demo_rpc {5, 6}"
  obtain s1 where i: "rpc_issue demo_alloc 1 (Some 0) Stack_bind [] ?s = Some (Some 5, s1)"
    and p: "g_rpc_pool s1 1 = Some (Some {6})"
    by (simp add: rpc_issue_def rpc_msg_alloc_def demo_rpc_def demo_alloc_def get_rpc_msg_def Let_def
        rpc_sync_begin_def rpc_call_def set_args_def)
  note L1 = rpc_issue_law [OF demo_rpc_inv(1) demo_alloc_ok i]
  obtain s2 where j: "rpc_issue demo_alloc 1 (Some 0) Stack_bind [] s1 = Some (Some 6, s2)"
    and m: "msgs s2 5 = msgs s1 5"
    using p by (simp add: rpc_issue_def rpc_msg_alloc_def demo_alloc_def get_rpc_msg_def Let_def
        rpc_sync_begin_def rpc_call_def set_args_def)
  note L2 = rpc_issue_law [OF L1 [THEN conjunct1] demo_alloc_ok j]
  have q: "queued s2 0 = [5, 6]" using L1 L2 by (simp add: demo_rpc_inv(2))
  then have n: "\<forall>a \<in> set (queued s2 0). func (msgs s2 a) \<noteq> Some Stack_send" using L1 L2 m by simp
  from poll_rpc_msg_serves_in_order [OF L2 [THEN conjunct1], of demo_env 0 1]
  obtain t served where t: "poll_rpc_msg demo_env 0 1 s2 = Some t" "served = take 1 (queued s2 0)"
      "queued t = (queued s2)(0 := drop 1 (queued s2 0))"
      "\<forall>i < length served. served_ok demo_env 0 (fold (\<lambda>a. handled demo_env 0 (msgs s2 a)) (take i served) (world s2))
        (msgs s2 (served ! i)) (served ! i) t" using n by blast
  have "served_ok demo_env 0 (world s2) (msgs s2 5) 5 t" using t(2,4) q by simp
  then have "\<not> locked (msgs t 5)" using L1 m by (simp add: served_ok_def)
  then show ?thesis using q t by auto
qed

text \<open>
  A failed \<open>connect\<close> reaches the application with the stack thread's \<open>errno\<close>: the handler
  answers \<open>-errno\<close>, and \<open>rpc_call_connect\<close> turns it into the result -1 and that \<open>errno\<close>; a
  result that is not negative is returned as it is.\<close>

theorem rpc_connect_errno:
  assumes "lwip_connect E (arg_i (args msg 0)) (arg_p (args msg 1)) (arg_socklen (args msg 2)) w = (r, w')"
    and "0 < sint (errno E w')"
  shows "\<exists>v. stack_connect E msg w = (Some v, w') \<and>
    rpc_call_connect_return (ucast v) = (if sint r < 0 then (- 1, Some (errno E w')) else (r, None))"
proof -
  have cast: "ucast (scast x :: u64) = x" for x :: i32
    by (rule bit_word_eqI) (simp add: bit_simps)
  have "sint (- errno E w') < 0"
  proof -
    have "sint (errno E w') < 2 ^ 31" using sint_lt [of "errno E w'"] by simp
    then have "sint (- errno E w') = - sint (errno E w')"
      using assms(2) by (simp add: sint_word_ariths signed_take_bit_int_eq_self)
    then show ?thesis using assms(2) by simp
  qed
  then show ?thesis using assms(1)
    by (simp add: stack_connect_def int_result_def rpc_call_connect_return_def cast)
qed

lemma rpc_connect_errno_witness:
  "\<exists>v. stack_connect demo_env demo_msg 0 = (Some v, 0) \<and> rpc_call_connect_return (ucast v) = (- 1, Some 111)"
  using rpc_connect_errno [of demo_env demo_msg 0 "- 1" 0] by (simp add: demo_env_def)

text \<open>
  When the mempool of a thread cannot be created, its first call fails cleanly, but the
  pool structure stays behind with a NULL \<open>rpc_pool\<close>: the thread's next call, and every later
  one, hands NULL to \<open>rte_mempool_get\<close>.\<close>

theorem rpc_alloc_after_failed_mempool:
  assumes "g_rpc_pool s th = None" and "calloc_ok A" and "create_mempool A = None"
  shows "\<exists>t. rpc_msg_alloc A th (Some k) f s = Some (None, t) \<and>
    call_alloc_fail t = call_alloc_fail s + 1 \<and>
    (\<forall>B g l. rpc_msg_alloc B th (Some l) g t = None)"
  using assms by (auto simp: rpc_msg_alloc_def alloc_failed_def get_rpc_msg_def Let_def)

lemma rpc_alloc_after_failed_mempool_witness:
  "\<exists>t. rpc_msg_alloc demo_alloc 2 (Some 0) Stack_bind (demo_rpc {}) = Some (None, t) \<and>
    call_alloc_fail t = 1 \<and> rpc_msg_alloc demo_alloc 2 (Some 0) Stack_bind t = None"
  using rpc_alloc_after_failed_mempool [of "demo_rpc {}" 2 demo_alloc 0 Stack_bind]
  by (auto simp: demo_rpc_def demo_alloc_def)

text \<open>
  between \<open>stack_send\<close>, which gives its message back to the pool, and the reads of
  \<open>msg->func\<close> and \<open>msg->self_release\<close> that follow it in \<open>poll_rpc_msg\<close>, the owning thread can
  take the same message for a synchronous call. The poll then unlocks a call whose handler
  has not run: the caller returns at once and frees a message that is still queued.\<close>

theorem poll_releases_reused_message:
  assumes "rpc_inv s" and "in_hand s a" and "func (msgs s a) = Some Stack_send"
    and "get_socket E (arg_i (args (msgs s a) 0)) (world s) = None"
    and "serve_run E k a s = Some s1"
    and "mempool_ok A" and "pools_fresh A s1"
    and "rpc_issue A th (Some k) f xs s1 = Some (Some a, s2)" and "f \<noteq> Stack_send"
  shows "\<exists>ret s3. rpc_sync_end a s2 = None \<and>
    rpc_sync_end a (serve_release a s2) = Some (ret, s3) \<and> world s3 = world s \<and>
    a \<in> set (queued s3 k) \<and> in_pool s3 th a"
proof -
  have s1: "s1 = rpc_msg_free a (put_result a (Some (- 1)) s)"
    using assms(3-5) by (simp add: serve_run_def run_func_def stack_send_def Let_def)
  have P: "rpc_inv (put_result a (Some (- 1)) s)" "in_hand (put_result a (Some (- 1)) s) a"
    using rpc_inv_cong [OF assms(1), of "put_result a (Some (- 1)) s"] assms(2)
    by (simp_all add: put_result_same)
  have inv1: "rpc_inv s1" unfolding s1 by (rule rpc_msg_free_law(1) [OF P])
  note I = rpc_issue_law [OF inv1 assms(6-8)]
  let ?r = "s2\<lparr>msgs := (msgs s2)(a := (msgs s2 a)\<lparr>locked := False\<rparr>)\<rparr>"
  have r: "serve_release a s2 = ?r" using I assms(9) by (simp add: serve_release_def)
  have q: "a \<in> set (queued (rpc_msg_free a ?r) k)"
  proof -
    have "queued (rpc_msg_free a ?r) = queued s2"
      by (simp add: fun_eq_iff queued_def rpc_msg_free_def Let_def)
    then show ?thesis using I by simp
  qed
  have hp: "has_pool s2 th" using rpc_invD(4) [of s2 a k] I by simp
  then have "in_pool (rpc_msg_free a ?r) th a" using I
    by (auto simp: has_pool_def in_pool_def rpc_msg_free_def Let_def)
  moreover have "world (rpc_msg_free a ?r) = world s"
    using I by (simp add: rpc_msg_free_def Let_def s1 put_result_same)
  ultimately show ?thesis using q I by (simp add: r rpc_sync_end_def Let_def)
qed

lemma poll_releases_reused_message_witness:
  "\<exists>s1 s2 ret s3. serve_run demo_env 0 5 (demo_rpc {6}) = Some s1 \<and>
     rpc_call_bind demo_alloc (get_socket demo_env) 1 3 (Some 40) 16 s1 = Some (Some 5, s2) \<and>
     rpc_sync_end 5 (serve_release 5 s2) = Some (ret, s3) \<and> world s3 = 0 \<and> 5 \<in> set (queued s3 0)"
proof -
  let ?s = "demo_rpc {6}" and ?xs = "[(0, Arg_i 3), (1, Arg_p (Some 40)), (2, Arg_socklen 16)]"
  have h: "in_hand ?s 5" "func (msgs ?s 5) = Some Stack_send"
    "get_socket demo_env (arg_i (args (msgs ?s 5) 0)) (world ?s) = None"
    by (simp_all add: in_hand_def demo_rpc_inv has_pool_def) (simp_all add: demo_rpc_def demo_msg_def demo_env_def)
  obtain s1 where r: "serve_run demo_env 0 5 ?s = Some s1" and p: "g_rpc_pool s1 1 = Some (Some {5, 6})"
      and w: "world s1 = 0"
    using h by (simp add: serve_run_def run_func_def stack_send_def rpc_msg_free_def put_result_def Let_def)
      (simp add: demo_rpc_def demo_msg_def)
  obtain s2 where i: "rpc_issue demo_alloc 1 (Some 0) Stack_bind ?xs s1 = Some (Some 5, s2)"
    using p by (simp add: rpc_issue_def rpc_msg_alloc_def demo_alloc_def get_rpc_msg_def Let_def)
  have g: "get_protocol_stack_by_fd (get_socket demo_env) 3 s1 = Some 0"
    by (simp add: get_protocol_stack_by_fd_def demo_env_def)
  from poll_releases_reused_message [OF demo_rpc_inv(1) h r demo_alloc_ok i] r i
  show ?thesis by (auto simp: rpc_call_bind_def g demo_rpc_def)
qed

end
