(* ===== verification/Htable.thy ===== *)
theory Htable
  imports Gazelle_Prelude
begin

text \<open>
  The chained hash tables of ltran. The connection, socket and stack tables
  (\<open>ltran_tcp_conn.c\<close>, \<open>ltran_tcp_sock.c\<close>, \<open>ltran_stack.c\<close>) have the same shape: an array of
  buckets, each a chain of heap objects with its length, and the number of objects in
  the table with its limit. The shape, the two ways the code changes it and the invariant are
  shared here; what is an entry and how it is found is each table's own.

  A chain is the list of the addresses of its objects, first object first. \<open>hlist.h\<close> belongs to
  lwIP and is not in the repository: \<open>hlist_add_head\<close> and \<open>hlist_del_init\<close> are modelled by
  their documented effect on that list.
\<close>

record 'e htable =
  heap :: "addr \<rightharpoonup> 'e"
  chain :: "nat \<Rightarrow> addr list"
  chain_size :: "nat \<Rightarrow> u32"
  cur_num :: u32
  max_num :: u32

definition htable_empty :: "u32 \<Rightarrow> 'e htable" where
  "htable_empty m = \<lparr>heap = Map.empty, chain = (\<lambda>_. []), chain_size = (\<lambda>_. 0), cur_num = 0, max_num = m\<rparr>"

text \<open>
  A scan of a chain for the first object that satisfies \<open>P\<close>. The outer option is undefined
  behaviour: the chain has a freed object.
\<close>

fun hscan :: "('e \<Rightarrow> bool) \<Rightarrow> (addr \<rightharpoonup> 'e) \<Rightarrow> addr list \<Rightarrow> addr option option" where
  "hscan P h [] = Some None"
| "hscan P h (a # as) = (case h a of None \<Rightarrow> None | Some e \<Rightarrow> if P e then Some (Some a) else hscan P h as)"

definition hadd :: "nat \<Rightarrow> addr \<Rightarrow> 'e \<Rightarrow> 'e htable \<Rightarrow> 'e htable" where
  "hadd b a e t = t\<lparr>heap := (heap t)(a \<mapsto> e), chain := (chain t)(b := a # chain t b),
     cur_num := cur_num t + 1, chain_size := (chain_size t)(b := chain_size t b + 1)\<rparr>"

definition hdel :: "nat \<Rightarrow> addr \<Rightarrow> 'e htable \<Rightarrow> 'e htable" where
  "hdel b a t = t\<lparr>heap := (heap t)(a := None), chain := (chain t)(b := remove1 a (chain t b)),
     cur_num := cur_num t - 1, chain_size := (chain_size t)(b := chain_size t b - 1)\<rparr>"

definition hset :: "addr \<Rightarrow> 'e \<Rightarrow> 'e htable \<Rightarrow> 'e htable" where
  "hset a e t = t\<lparr>heap := (heap t)(a \<mapsto> e)\<rparr>"

section \<open>The invariant\<close>

definition entries :: "nat \<Rightarrow> 'e htable \<Rightarrow> addr list" where
  "entries N t = concat (map (chain t) [0..<N])"

definition htable_inv :: "nat \<Rightarrow> ('e \<Rightarrow> nat) \<Rightarrow> 'e htable \<Rightarrow> bool" where
  "htable_inv N bucket t \<longleftrightarrow>
     distinct (entries N t) \<and> dom (heap t) = set (entries N t) \<and>
     (\<forall>b < N. \<forall>a \<in> set (chain t b). bucket (the (heap t a)) = b) \<and>
     (\<forall>b < N. chain_size t b = word_of_nat (length (chain t b))) \<and>
     cur_num t = word_of_nat (length (entries N t)) \<and>
     length (entries N t) \<le> unat (max_num t)"

lemma htable_invD:
  assumes "htable_inv N bucket t"
  shows "distinct (entries N t)" and "dom (heap t) = set (entries N t)"
    and "b < N \<Longrightarrow> a \<in> set (chain t b) \<Longrightarrow> bucket (the (heap t a)) = b"
    and "b < N \<Longrightarrow> chain_size t b = word_of_nat (length (chain t b))"
    and "cur_num t = word_of_nat (length (entries N t))"
    and "length (entries N t) \<le> unat (max_num t)"
    and "unat (cur_num t) = length (entries N t)"
proof -
  show "distinct (entries N t)" and "dom (heap t) = set (entries N t)"
    and "b < N \<Longrightarrow> a \<in> set (chain t b) \<Longrightarrow> bucket (the (heap t a)) = b"
    and "b < N \<Longrightarrow> chain_size t b = word_of_nat (length (chain t b))"
    and c: "cur_num t = word_of_nat (length (entries N t))"
    and m: "length (entries N t) \<le> unat (max_num t)"
    using assms unfolding htable_inv_def by blast+
  have "length (entries N t) < 2 ^ 32" using m unat_lt32 [of "max_num t"] by simp
  then show "unat (cur_num t) = length (entries N t)" unfolding c by (simp add: unat_of_nat)
qed

lemma in_entries: "a \<in> set (entries N t) \<longleftrightarrow> (\<exists>b < N. a \<in> set (chain t b))"
  by (auto simp: entries_def)

lemma entries_split:
  assumes "b < N"
  shows "entries N t = concat (map (chain t) [0..<b]) @ chain t b @ concat (map (chain t) [Suc b..<N])"
proof -
  have "[0..<N] = [0..<b] @ b # [Suc b..<N]"
    using assms upt_add_eq_append [of 0 b "N - b"] by (simp add: upt_conv_Cons)
  then show ?thesis by (simp add: entries_def)
qed

lemma entries_upd:
  assumes "b < N"
  shows "entries N (t\<lparr>chain := (chain t)(b := c)\<rparr>) =
    concat (map (chain t) [0..<b]) @ c @ concat (map (chain t) [Suc b..<N])"
proof -
  have "map ((chain t)(b := c)) [0..<b] = map (chain t) [0..<b]"
    "map ((chain t)(b := c)) [Suc b..<N] = map (chain t) [Suc b..<N]" by simp_all
  then show ?thesis using entries_split [OF assms, of "t\<lparr>chain := (chain t)(b := c)\<rparr>"] by simp
qed

lemma chain_in_heap:
  "htable_inv N bucket t \<Longrightarrow> b < N \<Longrightarrow> set (chain t b) \<subseteq> dom (heap t)"
  using htable_invD(2) [of N bucket t] by (auto simp: in_entries)

lemma chain_distinct: "htable_inv N bucket t \<Longrightarrow> b < N \<Longrightarrow> distinct (chain t b)"
  using htable_invD(1) [of N bucket t] by (auto simp: entries_split)

lemma heap_in_chain:
  assumes "htable_inv N bucket t" and "heap t a = Some e"
  shows "bucket e < N" and "a \<in> set (chain t (bucket e))"
proof -
  have "a \<in> set (entries N t)" using htable_invD(2) [OF assms(1)] assms(2) by blast
  then obtain b where b: "b < N" "a \<in> set (chain t b)" by (auto simp: in_entries)
  with htable_invD(3) [OF assms(1) this] assms(2) show "bucket e < N" "a \<in> set (chain t (bucket e))"
    by simp_all
qed

lemma htable_inv_empty: "htable_inv N bucket (htable_empty m :: 'e htable)"
proof -
  have "entries N (htable_empty m :: 'e htable) = []" by (simp add: entries_def htable_empty_def)
  then show ?thesis by (simp add: htable_inv_def) (simp add: htable_empty_def)
qed

lemma length_entries_upd:
  "b < N \<Longrightarrow> length (entries N (t\<lparr>chain := (chain t)(b := c)\<rparr>)) + length (chain t b) =
     length (entries N t) + length c"
  unfolding entries_upd entries_split by simp

lemma hadd_inv:
  assumes inv: "htable_inv N bucket t" and b: "b = bucket e" "b < N" and a: "heap t a = None"
    and room: "cur_num t \<noteq> max_num t"
  shows "htable_inv N bucket (hadd b a e t)"
proof -
  note D = htable_invD [OF inv]
  let ?c = "t\<lparr>chain := (chain t)(b := a # chain t b)\<rparr>"
  have e: "entries N (hadd b a e t) = entries N ?c" by (simp add: entries_def hadd_def)
  have new: "a \<notin> set (entries N t)" using D(2) a by blast
  have s: "set (entries N ?c) = insert a (set (entries N t))"
    unfolding entries_upd [OF b(2)] entries_split [OF b(2)] by auto
  have d: "distinct (entries N ?c)"
    using D(1) new unfolding entries_upd [OF b(2)] entries_split [OF b(2)] by auto
  have l: "length (entries N ?c) = Suc (length (entries N t))"
    using length_entries_upd [OF b(2), of t "a # chain t b"] by simp
  have "unat (cur_num t) \<noteq> unat (max_num t)" using room by (simp add: word_unat_eq_iff)
  then have max: "length (entries N t) < unat (max_num t)" using D(6,7) by simp
  have buck: "bucket (the (((heap t)(a \<mapsto> e)) x)) = c" if "c < N" "x \<in> set (chain (hadd b a e t) c)" for c x
  proof (cases "x = a")
    case True
    have "a \<notin> set (chain t c)" using new that(1) by (auto simp: in_entries)
    then show ?thesis using that True b by (auto simp: hadd_def split: if_splits)
  next
    case False
    then show ?thesis using D(3) [OF that(1), of x] that(2) by (auto simp: hadd_def split: if_splits)
  qed
  show ?thesis unfolding htable_inv_def e
  proof (intro conjI allI impI ballI)
    show "dom (heap (hadd b a e t)) = set (entries N ?c)" using D(2) s by (auto simp: hadd_def)
    show "bucket (the (heap (hadd b a e t) x)) = c" if "c < N" "x \<in> set (chain (hadd b a e t) c)" for c x
      using buck [OF that] by (simp add: hadd_def)
    show "chain_size (hadd b a e t) c = word_of_nat (length (chain (hadd b a e t) c))" if "c < N" for c
      using D(4) [OF that] by (auto simp: hadd_def)
    show "cur_num (hadd b a e t) = word_of_nat (length (entries N ?c))" using D(5) l by (simp add: hadd_def)
    show "length (entries N ?c) \<le> unat (max_num (hadd b a e t))" using l max by (simp add: hadd_def)
  qed (rule d)
qed

lemma hdel_inv:
  assumes inv: "htable_inv N bucket t" and b: "b < N" and a: "a \<in> set (chain t b)"
  shows "htable_inv N bucket (hdel b a t)"
proof -
  note D = htable_invD [OF inv]
  let ?c = "t\<lparr>chain := (chain t)(b := remove1 a (chain t b))\<rparr>"
  have e: "entries N (hdel b a t) = entries N ?c" by (simp add: entries_def hdel_def)
  have dt: "distinct (chain t b)" by (rule chain_distinct [OF inv b])
  have s: "set (entries N ?c) = set (entries N t) - {a}" and d: "distinct (entries N ?c)"
    using D(1) a unfolding entries_upd [OF b] entries_split [OF b] by auto
  have pos: "0 < length (chain t b)" using a by (cases "chain t b") auto
  have l: "Suc (length (entries N ?c)) = length (entries N t)"
  proof -
    have "length (entries N ?c) + length (chain t b) = length (entries N t) + (length (chain t b) - 1)"
      using length_entries_upd [OF b, of t "remove1 a (chain t b)"] a by (simp add: length_remove1)
    then show ?thesis using pos by linarith
  qed
  have sub: "x \<in> set (chain (hdel b a t) c) \<Longrightarrow> c < N \<Longrightarrow> x \<in> set (chain t c) \<and> x \<noteq> a" for c x
  proof -
    assume x: "x \<in> set (chain (hdel b a t) c)" and c: "c < N"
    have "x \<in> set (entries N ?c)" using x c by (auto simp: in_entries hdel_def)
    moreover have "x \<in> set (chain t c)" using x set_remove1_subset [of a "chain t b"] by (auto simp: hdel_def split: if_splits)
    ultimately show "x \<in> set (chain t c) \<and> x \<noteq> a" using s by simp
  qed
  show ?thesis unfolding htable_inv_def e
  proof (intro conjI allI impI ballI)
    show "dom (heap (hdel b a t)) = set (entries N ?c)" using D(2) s by (auto simp: hdel_def)
    show "bucket (the (heap (hdel b a t) x)) = c" if "c < N" "x \<in> set (chain (hdel b a t) c)" for c x
      using D(3) [OF that(1)] sub [OF that(2,1)] by (simp add: hdel_def)
    show "chain_size (hdel b a t) c = word_of_nat (length (chain (hdel b a t) c))" if "c < N" for c
      using D(4) [OF that] word_of_nat_diff1 [OF pos, where 'w = 32] a by (auto simp: hdel_def length_remove1)
    show "cur_num (hdel b a t) = word_of_nat (length (entries N ?c))" using D(5) l [symmetric] by (simp add: hdel_def)
    show "length (entries N ?c) \<le> unat (max_num (hdel b a t))" using l D(6) by (simp add: hdel_def)
  qed (rule d)
qed

lemma hset_inv:
  assumes inv: "htable_inv N bucket t" and a: "heap t a = Some e" and k: "bucket e' = bucket e"
  shows "htable_inv N bucket (hset a e' t)"
proof -
  note D = htable_invD [OF inv]
  have "entries N (hset a e' t) = entries N t" by (simp add: entries_def hset_def)
  then show ?thesis unfolding htable_inv_def using D a k
    by (auto simp: hset_def) (metis option.sel)
qed

section \<open>Scans\<close>

lemma hscan_find:
  "set c \<subseteq> dom h \<Longrightarrow> hscan P h c = Some (find (\<lambda>a. P (the (h a))) c)"
  by (induction c) (auto split: option.splits)

lemma hscan_SomeD:
  "hscan P h c = Some (Some a) \<Longrightarrow> \<exists>e. a \<in> set c \<and> h a = Some e \<and> P e"
  by (induction c) (auto split: option.splits if_splits)

lemma hscan_NoneD:
  "hscan P h c = Some None \<Longrightarrow> a \<in> set c \<Longrightarrow> h a = Some e \<Longrightarrow> \<not> P e"
  by (induction c) (auto split: option.splits if_splits)

lemma hscan_total:
  "htable_inv N bucket t \<Longrightarrow> b < N \<Longrightarrow> \<exists>r. hscan P (heap t) (chain t b) = Some r"
  using hscan_find [OF chain_in_heap] by blast

lemma hscan_other:
  "a \<notin> set c \<Longrightarrow> hscan P (h(a := x)) c = hscan P h c"
  by (induction c) (auto split: option.splits)

lemma hscan_del:
  assumes "distinct c" and "h a = Some e" and "\<not> P e"
  shows "hscan P (h(a := None)) (remove1 a c) = hscan P h c"
  using assms by (induction c) (auto simp: hscan_other split: option.splits)

end
