(* ===== verification/Flow_Table.thy ===== *)
theory Flow_Table
  imports Htable
begin

text \<open>
  What the forwarding code relies on when it looks up a flow: a table binds keys to live
  entries, binding and unbinding a key changes that key only, and a bound flow stays where
  it is until its key is unbound. The contract is a locale; a chained hash table whose
  lookups skip dead entries, while its deletions do not, satisfies it as long as the live
  entry of a key is the first of its key in the chain.
\<close>

datatype ('k, 'v) table_op = Bind 'k 'v | Unbind 'k

fun op_key :: "('k, 'v) table_op \<Rightarrow> 'k" where
  "op_key (Bind k v) = k" | "op_key (Unbind k) = k"

text \<open>A history of a table; a key is bound only when it is free and the entry admissible.\<close>

inductive table_run ::
  "('s \<Rightarrow> 'k \<Rightarrow> 'v option) \<Rightarrow> ('s \<Rightarrow> 'k \<Rightarrow> 'v \<Rightarrow> bool) \<Rightarrow> ('s \<Rightarrow> 'k \<Rightarrow> 'v \<Rightarrow> 's) \<Rightarrow> ('s \<Rightarrow> 'k \<Rightarrow> 's) \<Rightarrow>
   's \<Rightarrow> ('k, 'v) table_op list \<Rightarrow> 's \<Rightarrow> bool"
  for lookup adm put del where
  table_start: "table_run lookup adm put del s [] s"
| table_bind: "table_run lookup adm put del s ops t \<Longrightarrow> lookup t k = None \<Longrightarrow> adm t k v \<Longrightarrow>
     table_run lookup adm put del s (ops @ [Bind k v]) (put t k v)"
| table_unbind: "table_run lookup adm put del s ops t \<Longrightarrow>
     table_run lookup adm put del s (ops @ [Unbind k]) (del t k)"

locale flow_table =
  fixes inv :: "'s \<Rightarrow> bool"
    and lookup :: "'s \<Rightarrow> 'k \<Rightarrow> 'v option"
    and adm :: "'s \<Rightarrow> 'k \<Rightarrow> 'v \<Rightarrow> bool"
    and put :: "'s \<Rightarrow> 'k \<Rightarrow> 'v \<Rightarrow> 's"
    and del :: "'s \<Rightarrow> 'k \<Rightarrow> 's"
  assumes put_inv: "inv s \<Longrightarrow> lookup s k = None \<Longrightarrow> adm s k v \<Longrightarrow> inv (put s k v)"
    and put_lookup: "inv s \<Longrightarrow> lookup s k = None \<Longrightarrow> adm s k v \<Longrightarrow>
      lookup (put s k v) j = (if j = k then Some v else lookup s j)"
    and del_inv: "inv s \<Longrightarrow> inv (del s k)"
    and del_lookup: "inv s \<Longrightarrow> lookup (del s k) j = (if j = k then None else lookup s j)"
begin

lemma run_inv: "table_run lookup adm put del s ops t \<Longrightarrow> inv s \<Longrightarrow> inv t"
  by (induction rule: table_run.induct) (auto intro: put_inv del_inv)

lemma sticky:
  assumes "table_run lookup adm put del s ops t" and "inv s" and "\<forall>x \<in> set ops. op_key x \<noteq> k"
  shows "lookup t k = lookup s k"
  using assms
proof (induction rule: table_run.induct)
  case (table_bind s ops t j v)
  then show ?case using put_lookup [OF run_inv [OF table_bind(1,5)] table_bind(2,3), of k] by auto
next
  case (table_unbind s ops t j)
  then show ?case using del_lookup [OF run_inv [OF table_unbind(1,3)], of j k] by auto
qed simp

text \<open>The table is the replay of its history on a map.\<close>

fun replay :: "('k, 'v) table_op list \<Rightarrow> ('k \<rightharpoonup> 'v) \<Rightarrow> ('k \<rightharpoonup> 'v)" where
  "replay [] m = m"
| "replay (Bind k v # ops) m = replay ops (m(k \<mapsto> v))"
| "replay (Unbind k # ops) m = replay ops (m(k := None))"

lemma replay_append: "replay (ops @ ops') m = replay ops' (replay ops m)"
  by (induction ops m rule: replay.induct) (simp_all del: fun_upd_apply)

lemma run_replay:
  "table_run lookup adm put del s ops t \<Longrightarrow> inv s \<Longrightarrow> lookup t = replay ops (lookup s)"
proof (induction rule: table_run.induct)
  case (table_bind s ops t k v)
  have "lookup (put t k v) = (lookup t)(k \<mapsto> v)"
    using put_lookup [OF run_inv [OF table_bind(1,5)] table_bind(2,3)] by (auto simp: fun_eq_iff)
  with table_bind show ?case by (simp add: replay_append)
next
  case (table_unbind s ops t k)
  have "lookup (del t k) = (lookup t)(k := None)"
    using del_lookup [OF run_inv [OF table_unbind(1,3)]] by (auto simp: fun_eq_iff)
  with table_unbind show ?case by (simp add: replay_append)
qed simp

end

section \<open>Chained tables with live and dead entries\<close>

definition live_first :: "('e \<Rightarrow> bool) \<Rightarrow> ('e \<Rightarrow> 'k) \<Rightarrow> ('k \<Rightarrow> nat) \<Rightarrow> 'e htable \<Rightarrow> bool" where
  "live_first on key hb t \<longleftrightarrow> (\<forall>a e. heap t a = Some e \<longrightarrow> on e \<longrightarrow>
     hscan (\<lambda>x. key x = key e) (heap t) (chain t (hb (key e))) = Some (Some a))"

definition table_inv :: "nat \<Rightarrow> ('e \<Rightarrow> bool) \<Rightarrow> ('e \<Rightarrow> 'k) \<Rightarrow> ('k \<Rightarrow> nat) \<Rightarrow> 'e htable \<Rightarrow> bool" where
  "table_inv N on key hb t \<longleftrightarrow> htable_inv N (\<lambda>e. hb (key e)) t \<and> (\<forall>k. hb k < N) \<and> live_first on key hb t"

definition hfind :: "('e \<Rightarrow> bool) \<Rightarrow> ('e \<Rightarrow> 'k) \<Rightarrow> ('k \<Rightarrow> nat) \<Rightarrow> 'e htable \<Rightarrow> 'k \<Rightarrow> (addr \<times> 'e) option" where
  "hfind on key hb t k =
     (case hscan (\<lambda>e. on e \<and> key e = k) (heap t) (chain t (hb k)) of
        Some (Some a) \<Rightarrow> map_option (Pair a) (heap t a) | _ \<Rightarrow> None)"

definition hbind_ok :: "('e \<Rightarrow> bool) \<Rightarrow> ('e \<Rightarrow> 'k) \<Rightarrow> 'e htable \<Rightarrow> 'k \<Rightarrow> addr \<times> 'e \<Rightarrow> bool" where
  "hbind_ok on key t k v \<longleftrightarrow> heap t (fst v) = None \<and> cur_num t \<noteq> max_num t \<and> on (snd v) \<and> key (snd v) = k"

definition hbind :: "('k \<Rightarrow> nat) \<Rightarrow> 'e htable \<Rightarrow> 'k \<Rightarrow> addr \<times> 'e \<Rightarrow> 'e htable" where
  "hbind hb t k v = hadd (hb k) (fst v) (snd v) t"

definition hunbind :: "('e \<Rightarrow> 'k) \<Rightarrow> ('k \<Rightarrow> nat) \<Rightarrow> 'e htable \<Rightarrow> 'k \<Rightarrow> 'e htable" where
  "hunbind key hb t k =
     (case hscan (\<lambda>e. key e = k) (heap t) (chain t (hb k)) of Some (Some a) \<Rightarrow> hdel (hb k) a t | _ \<Rightarrow> t)"

lemma table_invD:
  assumes "table_inv N on key hb t"
  shows "htable_inv N (\<lambda>e. hb (key e)) t" and "hb k < N"
    and "heap t a = Some e \<Longrightarrow> on e \<Longrightarrow>
      hscan (\<lambda>x. key x = key e) (heap t) (chain t (hb (key e))) = Some (Some a)"
  using assms unfolding table_inv_def live_first_def by blast+

text \<open>The lookup finds the live entry of a key, which is unique.\<close>

lemma hscan_stronger:
  "hscan P h c = Some (Some a) \<Longrightarrow> h a = Some e \<Longrightarrow> Q e \<Longrightarrow> (\<And>x. Q x \<Longrightarrow> P x) \<Longrightarrow>
   hscan Q h c = Some (Some a)"
  by (induction c) (auto split: option.splits if_splits)

lemma hfind_iff:
  assumes inv: "table_inv N on key hb t"
  shows "hfind on key hb t k = Some (a, e) \<longleftrightarrow> heap t a = Some e \<and> on e \<and> key e = k"
proof
  assume "hfind on key hb t k = Some (a, e)"
  then show "heap t a = Some e \<and> on e \<and> key e = k"
    by (auto simp: hfind_def dest: hscan_SomeD split: option.splits)
next
  assume e: "heap t a = Some e \<and> on e \<and> key e = k"
  then have "hscan (\<lambda>x. key x = k) (heap t) (chain t (hb k)) = Some (Some a)"
    using table_invD(3) [OF inv] by blast
  then have "hscan (\<lambda>x. on x \<and> key x = k) (heap t) (chain t (hb k)) = Some (Some a)"
    by (rule hscan_stronger) (use e in auto)
  with e show "hfind on key hb t k = Some (a, e)" by (simp add: hfind_def)
qed

lemma hfind_None: "table_inv N on key hb t \<Longrightarrow> hfind on key hb t k = None \<Longrightarrow> heap t a = Some e \<Longrightarrow> key e = k \<Longrightarrow> \<not> on e"
  using hfind_iff [of N on key hb t k a e] by auto

lemma hfind_eqI:
  assumes "table_inv N on key hb t" and "table_inv N on key hb u"
    and "\<And>a e. on e \<Longrightarrow> key e = k \<Longrightarrow> heap u a = Some e \<longleftrightarrow> heap t a = Some e"
  shows "hfind on key hb u k = hfind on key hb t k"
proof (cases "hfind on key hb t k")
  case None
  then have "\<And>a e. \<not> (heap u a = Some e \<and> on e \<and> key e = k)"
    using assms(3) hfind_None [OF assms(1)] by blast
  then show ?thesis using None hfind_iff [OF assms(2)] by (metis not_None_eq surj_pair)
next
  case (Some v)
  obtain a e where "v = (a, e)" by fastforce
  with Some assms(3) have "hfind on key hb u k = Some (a, e)"
    using hfind_iff [OF assms(1)] hfind_iff [OF assms(2)] by simp
  with Some \<open>v = (a, e)\<close> show ?thesis by simp
qed

text \<open>Putting an entry at the head of its chain, when no live entry has its key.\<close>

lemma hadd_table_inv:
  assumes inv: "table_inv N on key hb t" and free: "\<And>b x. heap t b = Some x \<Longrightarrow> key x = key e \<Longrightarrow> \<not> on x"
    and a: "heap t a = None" "cur_num t \<noteq> max_num t"
  shows "table_inv N on key hb (hadd (hb (key e)) a e t)"
proof -
  let ?u = "hadd (hb (key e)) a e t"
  note I = table_invD [OF inv]
  have "htable_inv N (\<lambda>e. hb (key e)) ?u" using I(1,2) a by (intro hadd_inv) auto
  moreover have "live_first on key hb ?u"
    unfolding live_first_def
  proof (intro allI impI)
    fix b x assume x: "heap ?u b = Some x" "on x"
    show "hscan (\<lambda>y. key y = key x) (heap ?u) (chain ?u (hb (key x))) = Some (Some b)"
    proof (cases "b = a")
      case True
      then show ?thesis using x by (simp add: hadd_def)
    next
      case False
      then have hx: "heap t b = Some x" using x(1) by (simp add: hadd_def)
      with x(2) free have k: "key x \<noteq> key e" by blast
      note s = I(3) [OF hx x(2)]
      have "a \<notin> set (chain t (hb (key x)))"
        using chain_in_heap [OF I(1,2), of "key x"] a(1) by auto
      then have "hscan (\<lambda>y. key y = key x) ((heap t)(a \<mapsto> e)) (chain t (hb (key x))) = Some (Some b)"
        using s by (simp add: hscan_other)
      then show ?thesis using k by (auto simp: hadd_def)
    qed
  qed
  ultimately show ?thesis using I(2) by (simp add: table_inv_def)
qed

text \<open>Removing the first entry of a key.\<close>

lemma hdel_table_inv:
  assumes inv: "table_inv N on key hb t"
    and s: "hscan (\<lambda>x. key x = k) (heap t) (chain t (hb k)) = Some (Some a)"
  shows "table_inv N on key hb (hdel (hb k) a t)"
    and "heap t b = Some x \<Longrightarrow> on x \<Longrightarrow> key x = k \<Longrightarrow> b = a"
proof -
  let ?u = "hdel (hb k) a t"
  note I = table_invD [OF inv]
  obtain e where e: "a \<in> set (chain t (hb k))" "heap t a = Some e" "key e = k" using hscan_SomeD [OF s] by blast
  show only: "heap t b = Some x \<Longrightarrow> on x \<Longrightarrow> key x = k \<Longrightarrow> b = a" for b x
    using I(3) [of b x] s by simp
  have "htable_inv N (\<lambda>e. hb (key e)) ?u" using I(1,2) e by (intro hdel_inv) auto
  moreover have "live_first on key hb ?u"
    unfolding live_first_def
  proof (intro allI impI)
    fix b x assume x: "heap ?u b = Some x" "on x"
    then have hx: "heap t b = Some x" "b \<noteq> a" by (auto simp: hdel_def split: if_splits)
    with only x(2) have k: "key x \<noteq> k" by blast
    note sx = I(3) [OF hx(1) x(2)]
    have d: "distinct (chain t (hb (key x)))" by (rule chain_distinct [OF I(1,2)])
    have "hscan (\<lambda>y. key y = key x) ((heap t)(a := None)) (remove1 a (chain t (hb (key x)))) = Some (Some b)"
      using hscan_del [where h = "heap t" and a = a and P = "\<lambda>y. key y = key x", OF d e(2)] k e(3) sx by simp
    moreover have "hb (key x) \<noteq> hb k \<Longrightarrow> a \<notin> set (chain t (hb (key x)))"
      using htable_invD(3) [OF I(1,2), of a "key x"] e by auto
    ultimately show "hscan (\<lambda>y. key y = key x) (heap ?u) (chain ?u (hb (key x))) = Some (Some b)"
      by (cases "hb (key x) = hb k") (auto simp: hdel_def remove1_idem)
  qed
  ultimately show "table_inv N on key hb ?u" using I(2) by (simp add: table_inv_def)
qed

text \<open>Changing an entry in place keeps the table if a live result is the first of its key.\<close>

lemma hscan_same_key:
  assumes "h a = Some e" and "key e' = key e"
  shows "hscan (\<lambda>x. key x = k) (h(a \<mapsto> e')) c = hscan (\<lambda>x. key x = k) h c"
  using assms by (induction c) (auto split: option.splits)

lemma hset_table_inv:
  assumes inv: "table_inv N on key hb t" and e: "heap t a = Some e" "key e' = key e"
    and first: "on e' \<Longrightarrow> hscan (\<lambda>x. key x = key e) (heap t) (chain t (hb (key e))) = Some (Some a)"
  shows "table_inv N on key hb (hset a e' t)"
proof -
  note I = table_invD [OF inv]
  have "htable_inv N (\<lambda>e. hb (key e)) (hset a e' t)" using I(1) e by (intro hset_inv) auto
  moreover have "live_first on key hb (hset a e' t)"
    unfolding live_first_def
  proof (intro allI impI)
    fix b x assume x: "heap (hset a e' t) b = Some x" "on x"
    have "hscan (\<lambda>y. key y = key x) (heap t) (chain t (hb (key x))) = Some (Some b)"
    proof (cases "b = a")
      case True
      then have "x = e'" using x(1) by (simp add: hset_def)
      then show ?thesis using True first x(2) e(2) by simp
    next
      case False
      then show ?thesis using I(3) [of b x] x by (simp add: hset_def)
    qed
    then show "hscan (\<lambda>y. key y = key x) (heap (hset a e' t)) (chain (hset a e' t) (hb (key x))) = Some (Some b)"
      using hscan_same_key [where h = "heap t" and a = a and key = key, OF e] by (simp add: hset_def)
  qed
  ultimately show ?thesis using I(2) by (simp add: table_inv_def)
qed

interpretation chained: flow_table "table_inv N on key hb" "hfind on key hb" "hbind_ok on key" "hbind hb" "hunbind key hb"
  for N :: nat and "on" :: "'e \<Rightarrow> bool" and key :: "'e \<Rightarrow> 'k" and hb :: "'k \<Rightarrow> nat"
proof
  fix t k v j
  assume inv: "table_inv N on key hb t" and free: "hfind on key hb t k = None" and ok: "hbind_ok on key t k v"
  obtain a e where v: "v = (a, e)" by fastforce
  have k: "key e = k" "on e" "heap t a = None" "cur_num t \<noteq> max_num t" using ok v by (auto simp: hbind_ok_def)
  show inv': "table_inv N on key hb (hbind hb t k v)"
    using hadd_table_inv [OF inv, of e a] hfind_None [OF inv free] k v by (auto simp: hbind_def)
  show "hfind on key hb (hbind hb t k v) j = (if j = k then Some v else hfind on key hb t j)"
  proof (cases "j = k")
    case True
    then show ?thesis using hfind_iff [OF inv', of k a e] k v by (simp add: hbind_def hadd_def)
  next
    case False
    have "hfind on key hb (hbind hb t k v) j = hfind on key hb t j"
      by (rule hfind_eqI [OF inv inv']) (use False k v in \<open>auto simp: hbind_def hadd_def\<close>)
    with False show ?thesis by simp
  qed
next
  fix t k j
  assume inv: "table_inv N on key hb t"
  note I = table_invD [OF inv]
  obtain r where r: "hscan (\<lambda>e. key e = k) (heap t) (chain t (hb k)) = Some r" using hscan_total [OF I(1,2)] by blast
  show inv': "table_inv N on key hb (hunbind key hb t k)"
    using hdel_table_inv(1) [OF inv] r inv by (cases r) (auto simp: hunbind_def)
  show "hfind on key hb (hunbind key hb t k) j = (if j = k then None else hfind on key hb t j)"
  proof (cases "j = k")
    case True
    have "\<not> (heap (hunbind key hb t k) a = Some e \<and> on e \<and> key e = k)" for a e
    proof (cases r)
      case None
      then have "heap t a = Some e \<Longrightarrow> key e = k \<Longrightarrow> False" for a e
        using hscan_NoneD [of "\<lambda>e. key e = k"] r heap_in_chain(2) [OF I(1), of a e] by auto
      then show ?thesis using None r by (auto simp: hunbind_def)
    next
      case (Some b)
      then show ?thesis using hdel_table_inv(2) [OF inv, of k b a e] r by (auto simp: hunbind_def hdel_def)
    qed
    then have "hfind on key hb (hunbind key hb t k) k = None"
      using hfind_iff [OF inv'] by (metis not_None_eq surj_pair)
    with True show ?thesis by simp
  next
    case False
    have "hfind on key hb (hunbind key hb t k) j = hfind on key hb t j"
    proof (rule hfind_eqI [OF inv inv'])
      fix a e assume "on e" "key e = j"
      then show "heap (hunbind key hb t k) a = Some e \<longleftrightarrow> heap t a = Some e"
        using False hscan_SomeD [of "\<lambda>e. key e = k" "heap t" "chain t (hb k)"] r
        by (cases r) (auto simp: hunbind_def hdel_def)
    qed
    with False show ?thesis by simp
  qed
qed

end
