(* ===== verification/Ltran_Tables.thy ===== *)
theory Ltran_Tables
  imports Flow_Table
begin

text \<open>
  The three tables of ltran: TCP connections (\<open>src/ltran/ltran_tcp_conn.c\<close>), listening sockets
  (\<open>src/ltran/ltran_tcp_sock.c\<close>) and protocol stacks (\<open>src/ltran/ltran_stack.c\<close>), with the hash
  functions of \<open>src/ltran/ltran_jhash.h\<close>.

  Parameters: \<open>jh\<close> is DPDK's \<open>rte_jhash_3words\<close>; \<open>eos\<close> is the value the cursor of lwIP's
  \<open>hlist_for_each_entry\<close> has after a scan that was not left early (the code relies on NULL);
  \<open>got\<close> is what the allocator returned, \<open>None\<close> for NULL.
\<close>

section \<open>Instances and ticks\<close>

text \<open>
  Every entry points to the tick counter of the instance it belongs to and keeps the value the
  counter had at registration: the entry is on while the two agree. Before it is given to an
  instance it points to a static -1 (\<open>instance_cur_tick_init_val\<close>) and keeps 0.
\<close>

datatype tick_ptr = InitTick | MgrTick nat

definition tick_at :: "(nat \<Rightarrow> i32) \<Rightarrow> tick_ptr \<Rightarrow> i32" where
  "tick_at ticks p = (case p of InitTick \<Rightarrow> - 1 | MgrTick i \<Rightarrow> ticks i)"

definition instance_is_on :: "(nat \<Rightarrow> i32) \<Rightarrow> tick_ptr \<Rightarrow> i32 \<Rightarrow> bool" where
  "instance_is_on ticks cur reg \<longleftrightarrow> reg = tick_at ticks cur"

lemma init_tick_off: "\<not> instance_is_on ticks InitTick 0"
  by (simp add: instance_is_on_def tick_at_def)

section \<open>Entries\<close>

record quintuple =
  protocol :: u32
  src_ip :: u32
  src_port :: u16
  dst_ip :: u32
  dst_port :: u16

record tcp_conn =
  conn_tid :: u32
  conn_sock :: "addr option"
  conn_stack :: "addr option"
  conn_key :: quintuple
  conn_cur_tick :: tick_ptr
  conn_reg_tick :: i32
  conn_timeout :: "16 word"

record tcp_sock =
  sock_ip :: u32
  sock_tid :: u32
  sock_port :: u16
  sock_cur_tick :: tick_ptr
  sock_reg_tick :: i32
  sock_stack :: "addr option"
  tcp_con_num :: u32

text \<open>\<open>struct gazelle_stack\<close>; the mbuf arrays are functions, their counts and start are fields.\<close>

record gazelle_stack =
  stack_index :: i32
  stack_tid :: u32
  stack_cur_tick :: tick_ptr
  stack_reg_tick :: i32
  reg_ring :: "addr option"
  tx_ring :: "addr option"
  rx_ring :: "addr option"
  pkt_buf :: "nat \<Rightarrow> addr option"
  pkt_cnt :: u32
  backup_pkt_buf :: "nat \<Rightarrow> addr option"
  backup_pkt_cnt :: u32
  backup_start :: u32

definition conn_on :: "(nat \<Rightarrow> i32) \<Rightarrow> tcp_conn \<Rightarrow> bool" where
  "conn_on ticks c = instance_is_on ticks (conn_cur_tick c) (conn_reg_tick c)"

definition sock_on :: "(nat \<Rightarrow> i32) \<Rightarrow> tcp_sock \<Rightarrow> bool" where
  "sock_on ticks s = instance_is_on ticks (sock_cur_tick s) (sock_reg_tick s)"

definition stack_on :: "(nat \<Rightarrow> i32) \<Rightarrow> gazelle_stack \<Rightarrow> bool" where
  "stack_on ticks s = instance_is_on ticks (stack_cur_tick s) (stack_reg_tick s)"

section \<open>Hashing\<close>

type_synonym jhash = "u32 \<Rightarrow> u32 \<Rightarrow> u32 \<Rightarrow> u32 \<Rightarrow> u32"

definition tuple_hash_fn :: "jhash \<Rightarrow> u32 \<Rightarrow> u16 \<Rightarrow> u32 \<Rightarrow> u16 \<Rightarrow> u32" where
  "tuple_hash_fn jh laddr lport faddr fport = jh laddr faddr (ucast lport OR push_bit 16 (ucast fport)) 0"

definition ip_port_hash_fn :: "jhash \<Rightarrow> u32 \<Rightarrow> u16 \<Rightarrow> u32" where
  "ip_port_hash_fn jh ip port = jh ip (ucast port) 0 0"

definition tid_hash_fn :: "jhash \<Rightarrow> u32 \<Rightarrow> u32" where
  "tid_hash_fn jh tid = jh tid 0 0 0"

definition conn_htable_size :: nat where "conn_htable_size = 2048"
definition sock_htable_size :: nat where "sock_htable_size = 256"
definition stack_htable_size :: nat where "stack_htable_size = 32"

definition gazelle_conn_hbucket_get :: "jhash \<Rightarrow> quintuple \<Rightarrow> nat" where
  "gazelle_conn_hbucket_get jh q =
     unat (tuple_hash_fn jh (src_ip q) (src_port q) (dst_ip q) (dst_port q)) mod conn_htable_size"

definition gazelle_hbucket_get_by_ipport :: "jhash \<Rightarrow> u32 \<Rightarrow> u16 \<Rightarrow> nat" where
  "gazelle_hbucket_get_by_ipport jh ip port = unat (ip_port_hash_fn jh ip port) mod sock_htable_size"

definition gazelle_stack_hbucket_get_by_tid :: "jhash \<Rightarrow> u32 \<Rightarrow> nat" where
  "gazelle_stack_hbucket_get_by_tid jh tid = unat (tid_hash_fn jh tid) mod stack_htable_size"

lemma bucket_bounds [simp]:
  "gazelle_conn_hbucket_get jh q < conn_htable_size"
  "gazelle_hbucket_get_by_ipport jh ip port < sock_htable_size"
  "gazelle_stack_hbucket_get_by_tid jh tid < stack_htable_size"
  by (simp_all add: gazelle_conn_hbucket_get_def gazelle_hbucket_get_by_ipport_def
      gazelle_stack_hbucket_get_by_tid_def conn_htable_size_def sock_htable_size_def stack_htable_size_def)

section \<open>Creating and destroying a table\<close>

definition gazelle_tcp_conn_htable_create :: "bool \<Rightarrow> u32 \<Rightarrow> tcp_conn htable option" where
  "gazelle_tcp_conn_htable_create malloc_ok max_conn_num =
     (if \<not> malloc_ok then None else Some (htable_empty max_conn_num))"

definition gazelle_tcp_sock_htable_create :: "bool \<Rightarrow> bool \<Rightarrow> u32 \<Rightarrow> tcp_sock htable option" where
  "gazelle_tcp_sock_htable_create calloc_ok mutex_ok max_tcp_sock_num =
     (if \<not> calloc_ok then None else if \<not> mutex_ok then None else Some (htable_empty max_tcp_sock_num))"

definition gazelle_stack_htable_create :: "bool \<Rightarrow> u32 \<Rightarrow> gazelle_stack htable option" where
  "gazelle_stack_htable_create calloc_ok max_stack_num =
     (if \<not> calloc_ok then None else Some (htable_empty max_stack_num))"

text \<open>
  The destroy functions unlink and free node by node, bucket by bucket, then drop the table.
  The value is the sequence of objects freed; \<open>None\<close> when one is freed twice.
\<close>

fun free_chain :: "(addr \<rightharpoonup> 'e) \<Rightarrow> addr list \<Rightarrow> (addr \<rightharpoonup> 'e) option" where
  "free_chain h [] = Some h"
| "free_chain h (a # as) = (case h a of None \<Rightarrow> None | Some _ \<Rightarrow> free_chain (h(a := None)) as)"

definition htable_destroy :: "nat \<Rightarrow> 'e htable option \<Rightarrow> (addr \<rightharpoonup> 'e) option" where
  "htable_destroy N g = (case g of None \<Rightarrow> Some Map.empty | Some t \<Rightarrow> free_chain (heap t) (entries N t))"

definition gazelle_tcp_conn_htable_destroy :: "tcp_conn htable option \<Rightarrow> (addr \<rightharpoonup> tcp_conn) option" where
  "gazelle_tcp_conn_htable_destroy g = htable_destroy conn_htable_size g"

definition gazelle_tcp_sock_htable_destroy :: "tcp_sock htable option \<Rightarrow> (addr \<rightharpoonup> tcp_sock) option" where
  "gazelle_tcp_sock_htable_destroy g = htable_destroy sock_htable_size g"

definition gazelle_stack_htable_destroy :: "gazelle_stack htable option \<Rightarrow> (addr \<rightharpoonup> gazelle_stack) option" where
  "gazelle_stack_htable_destroy g = htable_destroy stack_htable_size g"

section \<open>Connections\<close>

definition gazelle_conn_get_by_quintuple ::
  "jhash \<Rightarrow> (nat \<Rightarrow> i32) \<Rightarrow> tcp_conn htable \<Rightarrow> quintuple \<Rightarrow> addr option option" where
  "gazelle_conn_get_by_quintuple jh ticks t q =
     hscan (\<lambda>c. conn_on ticks c \<and> conn_key c = q) (heap t) (chain t (gazelle_conn_hbucket_get jh q))"

text \<open>\<open>rte_malloc\<close> returns memory with arbitrary contents, the \<open>raw\<close> connection.\<close>

definition gazelle_conn_add_by_quintuple ::
  "jhash \<Rightarrow> (nat \<Rightarrow> i32) \<Rightarrow> (addr \<times> tcp_conn) option \<Rightarrow> tcp_conn htable \<Rightarrow> quintuple \<Rightarrow>
   (addr option \<times> tcp_conn htable) option" where
  "gazelle_conn_add_by_quintuple jh ticks got t q = do {
     conn \<leftarrow> gazelle_conn_get_by_quintuple jh ticks t q;
     (case conn of
        Some a \<Rightarrow> Some (Some a, t)
      | None \<Rightarrow>
          if cur_num t = max_num t then Some (None, t)
          else (case got of
                  None \<Rightarrow> Some (None, t)
                | Some (a, raw) \<Rightarrow>
                    Some (Some a, hadd (gazelle_conn_hbucket_get jh q) a
                      (raw\<lparr>conn_key := q, conn_reg_tick := 0, conn_cur_tick := InitTick, conn_sock := None\<rparr>) t)))}"

definition gazelle_conn_del_by_quintuple ::
  "jhash \<Rightarrow> (addr list \<Rightarrow> addr option) \<Rightarrow> tcp_conn htable \<Rightarrow> quintuple \<Rightarrow> tcp_conn htable option" where
  "gazelle_conn_del_by_quintuple jh eos t q = do {
     let b = gazelle_conn_hbucket_get jh q;
     found \<leftarrow> hscan (\<lambda>c. conn_key c = q) (heap t) (chain t b);
     (case (case found of Some a \<Rightarrow> Some a | None \<Rightarrow> eos (chain t b)) of
        None \<Rightarrow> Some t
      | Some a \<Rightarrow> Some (hdel b a t))}"

section \<open>Listening sockets\<close>

text \<open>
  \<open>recover_sock_info_from_conn\<close>: every connection to the new socket's address and thread is
  counted, and adopted if it has no socket.
\<close>

fun recover_sock_info_from_conn ::
  "addr \<Rightarrow> tcp_sock \<Rightarrow> addr list \<Rightarrow> (addr \<rightharpoonup> tcp_conn) \<Rightarrow> u32 \<Rightarrow> (u32 \<times> (addr \<rightharpoonup> tcp_conn)) option" where
  "recover_sock_info_from_conn a s [] h count = Some (count, h)"
| "recover_sock_info_from_conn a s (c # cs) h count =
     (case h c of None \<Rightarrow> None
      | Some conn \<Rightarrow>
          if dst_ip (conn_key conn) \<noteq> sock_ip s \<or> dst_port (conn_key conn) \<noteq> sock_port s \<or>
             conn_tid conn \<noteq> sock_tid s
          then recover_sock_info_from_conn a s cs h count
          else recover_sock_info_from_conn a s cs
                 (if conn_sock conn = None then h(c \<mapsto> conn\<lparr>conn_sock := Some a\<rparr>) else h) (count + 1))"

definition gazelle_sock_add_by_ipporttid ::
  "jhash \<Rightarrow> (nat \<Rightarrow> i32) \<Rightarrow> addr option \<Rightarrow> tcp_conn htable \<Rightarrow> tcp_sock htable \<Rightarrow> u32 \<Rightarrow> u16 \<Rightarrow> u32 \<Rightarrow>
   (addr option \<times> tcp_sock htable \<times> tcp_conn htable) option" where
  "gazelle_sock_add_by_ipporttid jh ticks got ct t ip port tid = do {
     let b = gazelle_hbucket_get_by_ipport jh ip port;
     found \<leftarrow> hscan (\<lambda>s. sock_tid s = tid \<and> sock_on ticks s) (heap t) (chain t b);
     (case found of
        Some a \<Rightarrow> Some (Some a, t, ct)
      | None \<Rightarrow>
          if cur_num t = max_num t then Some (None, t, ct)
          else (case got of
                  None \<Rightarrow> Some (None, t, ct)
                | Some a \<Rightarrow> do {
                    let s = \<lparr>sock_ip = ip, sock_tid = tid, sock_port = port, sock_cur_tick = InitTick,
                             sock_reg_tick = 0, sock_stack = None, tcp_con_num = 0\<rparr>;
                    let t = hadd b a s t;
                    (count, h) \<leftarrow> recover_sock_info_from_conn a s (entries conn_htable_size ct) (heap ct) 0;
                    Some (Some a, hset a (s\<lparr>tcp_con_num := count\<rparr>) t, ct\<lparr>heap := h\<rparr>)}))}"

definition gazelle_sock_del_by_ipporttid ::
  "jhash \<Rightarrow> (addr list \<Rightarrow> addr option) \<Rightarrow> tcp_sock htable \<Rightarrow> u32 \<Rightarrow> u16 \<Rightarrow> u32 \<Rightarrow> tcp_sock htable option" where
  "gazelle_sock_del_by_ipporttid jh eos t ip port tid = do {
     let b = gazelle_hbucket_get_by_ipport jh ip port;
     found \<leftarrow> hscan (\<lambda>s. sock_tid s = tid) (heap t) (chain t b);
     (case (case found of Some a \<Rightarrow> Some a | None \<Rightarrow> eos (chain t b)) of
        None \<Rightarrow> Some t
      | Some a \<Rightarrow> Some (hdel b a t))}"

fun min_conn_scan ::
  "(nat \<Rightarrow> i32) \<Rightarrow> u32 \<Rightarrow> u16 \<Rightarrow> (addr \<rightharpoonup> tcp_sock) \<Rightarrow> addr list \<Rightarrow> addr option \<Rightarrow> u32 \<Rightarrow> addr option option" where
  "min_conn_scan ticks ip port h [] best min_tcp_con = Some best"
| "min_conn_scan ticks ip port h (a # as) best min_tcp_con =
     (case h a of None \<Rightarrow> None
      | Some s \<Rightarrow>
          if \<not> sock_on ticks s then min_conn_scan ticks ip port h as best min_tcp_con
          else if sock_port s \<noteq> port \<or> sock_ip s \<noteq> ip then min_conn_scan ticks ip port h as best min_tcp_con
          else if tcp_con_num s < min_tcp_con then min_conn_scan ticks ip port h as (Some a) (tcp_con_num s)
          else min_conn_scan ticks ip port h as best min_tcp_con)"

definition gazelle_stack_max_tcp_con_num :: u32 where
  "gazelle_stack_max_tcp_con_num = 1024 * 1024 * 1024"

definition gazelle_sock_get_by_min_conn ::
  "jhash \<Rightarrow> (nat \<Rightarrow> i32) \<Rightarrow> tcp_sock htable \<Rightarrow> u32 \<Rightarrow> u16 \<Rightarrow> addr option option" where
  "gazelle_sock_get_by_min_conn jh ticks t ip port =
     min_conn_scan ticks ip port (heap t) (chain t (gazelle_hbucket_get_by_ipport jh ip port)) None
       gazelle_stack_max_tcp_con_num"

section \<open>Stacks\<close>

definition gazelle_stack_get_by_tid ::
  "jhash \<Rightarrow> (nat \<Rightarrow> i32) \<Rightarrow> gazelle_stack htable \<Rightarrow> u32 \<Rightarrow> addr option option" where
  "gazelle_stack_get_by_tid jh ticks t tid =
     hscan (\<lambda>s. stack_tid s = tid \<and> stack_on ticks s) (heap t) (chain t (gazelle_stack_hbucket_get_by_tid jh tid))"

definition new_stack :: "u32 \<Rightarrow> gazelle_stack" where
  "new_stack tid = \<lparr>stack_index = - 1, stack_tid = tid, stack_cur_tick = InitTick, stack_reg_tick = 0,
     reg_ring = None, tx_ring = None, rx_ring = None, pkt_buf = (\<lambda>_. None), pkt_cnt = 0,
     backup_pkt_buf = (\<lambda>_. None), backup_pkt_cnt = 0, backup_start = 0\<rparr>"

definition gazelle_stack_add_by_tid ::
  "jhash \<Rightarrow> addr option \<Rightarrow> gazelle_stack htable \<Rightarrow> u32 \<Rightarrow> addr option \<times> gazelle_stack htable" where
  "gazelle_stack_add_by_tid jh got t tid =
     (if cur_num t = max_num t then (None, t)
      else (case got of None \<Rightarrow> (None, t)
            | Some a \<Rightarrow> (Some a, hadd (gazelle_stack_hbucket_get_by_tid jh tid) a (new_stack tid) t)))"

definition backup_mbuf_size :: nat where "backup_mbuf_size = 32768"

text \<open>The mbufs a stack still holds, in the order \<open>gazelle_stack_del_by_tid\<close> frees them.\<close>

definition stack_mbufs :: "gazelle_stack \<Rightarrow> addr list" where
  "stack_mbufs s =
     List.map_filter (pkt_buf s) [0..<unat (pkt_cnt s)] @
     List.map_filter (\<lambda>i. backup_pkt_buf s ((unat (backup_start s + word_of_nat i)) mod backup_mbuf_size))
       [0..<unat (backup_pkt_cnt s)]"

text \<open>The value is the list of mbufs given to \<open>rte_pktmbuf_free\<close>, and the table.\<close>

definition gazelle_stack_del_by_tid ::
  "jhash \<Rightarrow> (addr list \<Rightarrow> addr option) \<Rightarrow> gazelle_stack htable \<Rightarrow> u32 \<Rightarrow>
   (addr list \<times> gazelle_stack htable) option" where
  "gazelle_stack_del_by_tid jh eos t tid = do {
     let b = gazelle_stack_hbucket_get_by_tid jh tid;
     found \<leftarrow> hscan (\<lambda>s. stack_tid s = tid) (heap t) (chain t b);
     (case (case found of Some a \<Rightarrow> Some a | None \<Rightarrow> eos (chain t b)) of
        None \<Rightarrow> Some ([], t)
      | Some a \<Rightarrow> do { s \<leftarrow> heap t a; Some (stack_mbufs s, hdel b a t) })}"

section \<open>The connection table as a flow table\<close>

definition conn_inv :: "jhash \<Rightarrow> (nat \<Rightarrow> i32) \<Rightarrow> tcp_conn htable \<Rightarrow> bool" where
  "conn_inv jh ticks = table_inv conn_htable_size (conn_on ticks) conn_key (gazelle_conn_hbucket_get jh)"

definition conn_find :: "jhash \<Rightarrow> (nat \<Rightarrow> i32) \<Rightarrow> tcp_conn htable \<Rightarrow> quintuple \<Rightarrow> (addr \<times> tcp_conn) option" where
  "conn_find jh ticks = hfind (conn_on ticks) conn_key (gazelle_conn_hbucket_get jh)"

definition fresh_conn :: "quintuple \<Rightarrow> tcp_conn \<Rightarrow> tcp_conn" where
  "fresh_conn q raw = raw\<lparr>conn_key := q, conn_reg_tick := 0, conn_cur_tick := InitTick, conn_sock := None\<rparr>"

definition no_cursor :: "addr list \<Rightarrow> addr option" where
  "no_cursor c = None"

lemma conn_get_find:
  assumes "conn_inv jh ticks t"
  shows "gazelle_conn_get_by_quintuple jh ticks t q = Some (map_option fst (conn_find jh ticks t q))"
proof -
  note I = table_invD [OF assms [unfolded conn_inv_def]]
  obtain r where r: "gazelle_conn_get_by_quintuple jh ticks t q = Some r"
    using hscan_total [OF I(1,2)] unfolding gazelle_conn_get_by_quintuple_def by blast
  then show ?thesis
    by (cases r) (auto simp: gazelle_conn_get_by_quintuple_def conn_find_def hfind_def dest!: hscan_SomeD)
qed

lemma conn_find_iff:
  "conn_inv jh ticks t \<Longrightarrow> conn_find jh ticks t q = Some (a, c) \<longleftrightarrow> heap t a = Some c \<and> conn_on ticks c \<and> conn_key c = q"
  unfolding conn_inv_def conn_find_def by (rule hfind_iff)

lemma conn_del_unbind:
  assumes "conn_inv jh ticks t"
  shows "gazelle_conn_del_by_quintuple jh no_cursor t q = Some (hunbind conn_key (gazelle_conn_hbucket_get jh) t q)"
proof -
  note I = table_invD [OF assms [unfolded conn_inv_def]]
  obtain r where "hscan (\<lambda>c. conn_key c = q) (heap t) (chain t (gazelle_conn_hbucket_get jh q)) = Some r"
    using hscan_total [OF I(1,2)] by blast
  then show ?thesis
    by (cases r) (simp_all add: gazelle_conn_del_by_quintuple_def hunbind_def no_cursor_def Let_def)
qed

lemma conn_add_cases:
  assumes "conn_inv jh ticks t"
  shows "gazelle_conn_add_by_quintuple jh ticks got t q =
    Some (case conn_find jh ticks t q of
      Some (a, c) \<Rightarrow> (Some a, t)
    | None \<Rightarrow> if cur_num t = max_num t then (None, t)
              else (case got of None \<Rightarrow> (None, t)
                    | Some (a, raw) \<Rightarrow> (Some a, hadd (gazelle_conn_hbucket_get jh q) a (fresh_conn q raw) t)))"
  unfolding gazelle_conn_add_by_quintuple_def conn_get_find [OF assms]
  by (auto simp: fresh_conn_def split: option.splits)

text \<open>A fresh connection is off until it is given a tick; activating it binds its key.\<close>

lemma fresh_conn_off: "\<not> conn_on ticks (fresh_conn q raw)"
  using init_tick_off [of ticks] by (simp add: fresh_conn_def conn_on_def)

lemma hset_hadd: "hset a e' (hadd b a e t) = hadd b a e' t"
  by (simp add: hset_def hadd_def)

lemma conn_hadd_inv:
  assumes "conn_inv jh ticks t" and "conn_find jh ticks t (conn_key c) = None"
    and "heap t a = None" "cur_num t \<noteq> max_num t"
  shows "conn_inv jh ticks (hadd (gazelle_conn_hbucket_get jh (conn_key c)) a c t)"
  using hadd_table_inv [of conn_htable_size "conn_on ticks" conn_key "gazelle_conn_hbucket_get jh" t c a]
    hfind_None [of conn_htable_size "conn_on ticks" conn_key "gazelle_conn_hbucket_get jh" t] assms
  unfolding conn_inv_def conn_find_def by blast

text \<open>The table contract on the code's own functions: bind is add and activate, unbind is delete.\<close>

definition conn_bind :: "jhash \<Rightarrow> (nat \<Rightarrow> i32) \<Rightarrow> tcp_conn htable \<Rightarrow> quintuple \<Rightarrow> addr \<times> tcp_conn \<Rightarrow> tcp_conn htable" where
  "conn_bind jh ticks t q v =
     (case gazelle_conn_add_by_quintuple jh ticks (Some v) t q of
        Some (Some a, u) \<Rightarrow> hset a (snd v) u | _ \<Rightarrow> t)"

definition conn_unbind :: "jhash \<Rightarrow> tcp_conn htable \<Rightarrow> quintuple \<Rightarrow> tcp_conn htable" where
  "conn_unbind jh t q = (case gazelle_conn_del_by_quintuple jh no_cursor t q of Some u \<Rightarrow> u | None \<Rightarrow> t)"

lemma conn_bind_hbind:
  assumes "conn_inv jh ticks t" and "conn_find jh ticks t q = None" and "hbind_ok (conn_on ticks) conn_key t q v"
  shows "conn_bind jh ticks t q v = hbind (gazelle_conn_hbucket_get jh) t q v"
  using assms(2,3) unfolding conn_bind_def conn_add_cases [OF assms(1)]
  by (cases v) (simp add: hset_hadd hbind_def hbind_ok_def)

interpretation conns: flow_table "conn_inv jh ticks" "conn_find jh ticks" "hbind_ok (conn_on ticks) conn_key"
    "conn_bind jh ticks" "conn_unbind jh"
  for jh :: jhash and ticks :: "nat \<Rightarrow> i32"
proof
  fix t q v j
  assume a: "conn_inv jh ticks t" "conn_find jh ticks t q = None" "hbind_ok (conn_on ticks) conn_key t q v"
  note e = conn_bind_hbind [OF a]
  show "conn_inv jh ticks (conn_bind jh ticks t q v)"
    using a unfolding e conn_inv_def conn_find_def by (rule chained.put_inv)
  show "conn_find jh ticks (conn_bind jh ticks t q v) j = (if j = q then Some v else conn_find jh ticks t j)"
    using a unfolding e conn_inv_def conn_find_def by (rule chained.put_lookup)
next
  fix t q j
  assume a: "conn_inv jh ticks t"
  have e: "conn_unbind jh t q = hunbind conn_key (gazelle_conn_hbucket_get jh) t q"
    by (simp add: conn_unbind_def conn_del_unbind [OF a])
  show "conn_inv jh ticks (conn_unbind jh t q)"
    using a unfolding e conn_inv_def by (rule chained.del_inv)
  show "conn_find jh ticks (conn_unbind jh t q) j = (if j = q then None else conn_find jh ticks t j)"
    using a unfolding e conn_inv_def conn_find_def by (rule chained.del_lookup)
qed

section \<open>The stack table as a flow table\<close>

definition stack_inv :: "jhash \<Rightarrow> (nat \<Rightarrow> i32) \<Rightarrow> gazelle_stack htable \<Rightarrow> bool" where
  "stack_inv jh ticks = table_inv stack_htable_size (stack_on ticks) stack_tid (gazelle_stack_hbucket_get_by_tid jh)"

definition stack_find :: "jhash \<Rightarrow> (nat \<Rightarrow> i32) \<Rightarrow> gazelle_stack htable \<Rightarrow> u32 \<Rightarrow> (addr \<times> gazelle_stack) option" where
  "stack_find jh ticks = hfind (stack_on ticks) stack_tid (gazelle_stack_hbucket_get_by_tid jh)"

definition stack_bind :: "jhash \<Rightarrow> gazelle_stack htable \<Rightarrow> u32 \<Rightarrow> addr \<times> gazelle_stack \<Rightarrow> gazelle_stack htable" where
  "stack_bind jh t tid v =
     (case gazelle_stack_add_by_tid jh (Some (fst v)) t tid of (Some a, u) \<Rightarrow> hset a (snd v) u | _ \<Rightarrow> t)"

definition stack_unbind :: "jhash \<Rightarrow> gazelle_stack htable \<Rightarrow> u32 \<Rightarrow> gazelle_stack htable" where
  "stack_unbind jh t tid = (case gazelle_stack_del_by_tid jh no_cursor t tid of Some (_, u) \<Rightarrow> u | None \<Rightarrow> t)"

lemma stack_get_find:
  assumes "stack_inv jh ticks t"
  shows "gazelle_stack_get_by_tid jh ticks t tid = Some (map_option fst (stack_find jh ticks t tid))"
proof -
  note I = table_invD [OF assms [unfolded stack_inv_def]]
  have c: "(\<lambda>s. stack_tid s = tid \<and> stack_on ticks s) = (\<lambda>s. stack_on ticks s \<and> stack_tid s = tid)" by auto
  obtain r where r: "gazelle_stack_get_by_tid jh ticks t tid = Some r"
    using hscan_total [OF I(1,2)] unfolding gazelle_stack_get_by_tid_def by blast
  then show ?thesis
    by (cases r) (auto simp: gazelle_stack_get_by_tid_def c stack_find_def hfind_def dest!: hscan_SomeD)
qed

lemma stack_del_unbind:
  assumes "stack_inv jh ticks t"
  shows "\<exists>ms. gazelle_stack_del_by_tid jh no_cursor t tid =
    Some (ms, hunbind stack_tid (gazelle_stack_hbucket_get_by_tid jh) t tid)"
proof -
  note I = table_invD [OF assms [unfolded stack_inv_def]]
  obtain r where "hscan (\<lambda>s. stack_tid s = tid) (heap t) (chain t (gazelle_stack_hbucket_get_by_tid jh tid)) = Some r"
    using hscan_total [OF I(1,2)] by blast
  then show ?thesis
    by (cases r) (auto simp: gazelle_stack_del_by_tid_def hunbind_def no_cursor_def Let_def dest!: hscan_SomeD)
qed

interpretation stacks: flow_table "stack_inv jh ticks" "stack_find jh ticks" "hbind_ok (stack_on ticks) stack_tid"
    "stack_bind jh" "stack_unbind jh"
  for jh :: jhash and ticks :: "nat \<Rightarrow> i32"
proof
  fix t tid v j
  assume a: "stack_inv jh ticks t" "stack_find jh ticks t tid = None" "hbind_ok (stack_on ticks) stack_tid t tid v"
  have e: "stack_bind jh t tid v = hbind (gazelle_stack_hbucket_get_by_tid jh) t tid v"
    using a(3) by (simp add: stack_bind_def gazelle_stack_add_by_tid_def hbind_ok_def hset_hadd hbind_def)
  show "stack_inv jh ticks (stack_bind jh t tid v)"
    using a unfolding e stack_inv_def stack_find_def by (rule chained.put_inv)
  show "stack_find jh ticks (stack_bind jh t tid v) j = (if j = tid then Some v else stack_find jh ticks t j)"
    using a unfolding e stack_inv_def stack_find_def by (rule chained.put_lookup)
next
  fix t tid j
  assume a: "stack_inv jh ticks t"
  have e: "stack_unbind jh t tid = hunbind stack_tid (gazelle_stack_hbucket_get_by_tid jh) t tid"
    using stack_del_unbind [OF a, of tid] by (auto simp: stack_unbind_def)
  show "stack_inv jh ticks (stack_unbind jh t tid)"
    using a unfolding e stack_inv_def by (rule chained.del_inv)
  show "stack_find jh ticks (stack_unbind jh t tid) j = (if j = tid then None else stack_find jh ticks t j)"
    using a unfolding e stack_inv_def stack_find_def by (rule chained.del_lookup)
qed

section \<open>Destroying a table\<close>

lemma free_chain_all:
  "distinct c \<Longrightarrow> set c \<subseteq> dom h \<Longrightarrow> free_chain h c = Some (h |` (- set c))"
proof (induction c arbitrary: h)
  case (Cons a c)
  then obtain e where "h a = Some e" by auto
  moreover have "set c \<subseteq> dom (h(a := None))" using Cons.prems by auto
  moreover have "(h(a := None)) |` (- set c) = h |` (- set (a # c))" by (auto simp: restrict_map_def)
  ultimately show ?case using Cons by simp
qed (simp add: restrict_map_def)

lemma htable_destroy_all:
  assumes "htable_inv N bucket t"
  shows "htable_destroy N (Some t) = Some Map.empty"
proof -
  note D = htable_invD [OF assms]
  have "heap t |` (- dom (heap t)) = Map.empty" by (auto simp: restrict_map_def dom_def)
  then show ?thesis using free_chain_all [OF D(1), of "heap t"] D(2) by (simp add: htable_destroy_def)
qed

section \<open>The listener with the fewest connections\<close>

definition listener :: "(nat \<Rightarrow> i32) \<Rightarrow> u32 \<Rightarrow> u16 \<Rightarrow> tcp_sock \<Rightarrow> bool" where
  "listener ticks ip port s \<longleftrightarrow> sock_on ticks s \<and> sock_ip s = ip \<and> sock_port s = port"

lemma min_conn_scan_result:
  assumes "set c \<subseteq> dom h" and "best = None \<or> (\<exists>s. h (the best) = Some s \<and> tcp_con_num s = m)"
  shows "\<exists>r. min_conn_scan ticks ip port h c best m = Some r \<and>
    (r = best \<and> (\<forall>a \<in> set c. listener ticks ip port (the (h a)) \<longrightarrow> m \<le> tcp_con_num (the (h a))) \<or>
     (\<exists>a s. r = Some a \<and> a \<in> set c \<and> h a = Some s \<and> listener ticks ip port s \<and> tcp_con_num s < m \<and>
       (\<forall>b \<in> set c. listener ticks ip port (the (h b)) \<longrightarrow> tcp_con_num s \<le> tcp_con_num (the (h b)))))"
  using assms
proof (induction c arbitrary: best m)
  case (Cons a c)
  obtain s where s: "h a = Some s" using Cons.prems(1) by auto
  have sub: "set c \<subseteq> dom h" using Cons.prems(1) by simp
  show ?case
  proof (cases "listener ticks ip port s \<and> tcp_con_num s < m")
    case True
    have "Some a = None \<or> (\<exists>x. h (the (Some a)) = Some x \<and> tcp_con_num x = tcp_con_num s)" using s by simp
    from Cons.IH [OF sub this] obtain r where r: "min_conn_scan ticks ip port h c (Some a) (tcp_con_num s) = Some r"
      and w: "r = Some a \<and> (\<forall>b \<in> set c. listener ticks ip port (the (h b)) \<longrightarrow> tcp_con_num s \<le> tcp_con_num (the (h b))) \<or>
        (\<exists>b x. r = Some b \<and> b \<in> set c \<and> h b = Some x \<and> listener ticks ip port x \<and> tcp_con_num x < tcp_con_num s \<and>
          (\<forall>d \<in> set c. listener ticks ip port (the (h d)) \<longrightarrow> tcp_con_num x \<le> tcp_con_num (the (h d))))" by blast
    have step: "min_conn_scan ticks ip port h (a # c) best m = Some r"
      using True s r by (simp add: listener_def)
    from w show ?thesis
    proof
      assume "r = Some a \<and> (\<forall>b \<in> set c. listener ticks ip port (the (h b)) \<longrightarrow> tcp_con_num s \<le> tcp_con_num (the (h b)))"
      then show ?thesis using step s True by auto
    next
      assume "\<exists>b x. r = Some b \<and> b \<in> set c \<and> h b = Some x \<and> listener ticks ip port x \<and> tcp_con_num x < tcp_con_num s \<and>
          (\<forall>d \<in> set c. listener ticks ip port (the (h d)) \<longrightarrow> tcp_con_num x \<le> tcp_con_num (the (h d)))"
      then obtain b x where b: "r = Some b" "b \<in> set c" "h b = Some x" "listener ticks ip port x" "tcp_con_num x < tcp_con_num s"
        "\<forall>d \<in> set c. listener ticks ip port (the (h d)) \<longrightarrow> tcp_con_num x \<le> tcp_con_num (the (h d))" by blast
      have "tcp_con_num x < m" using b(5) True less_trans by blast
      then have "\<exists>b x. r = Some b \<and> b \<in> set (a # c) \<and> h b = Some x \<and> listener ticks ip port x \<and> tcp_con_num x < m \<and>
          (\<forall>d \<in> set (a # c). listener ticks ip port (the (h d)) \<longrightarrow> tcp_con_num x \<le> tcp_con_num (the (h d)))"
        using b s by (intro exI [of _ b] exI [of _ x]) auto
      then show ?thesis using step by blast
    qed
  next
    case False
    have step: "min_conn_scan ticks ip port h (a # c) best m = min_conn_scan ticks ip port h c best m"
      using False s by (simp add: listener_def)
    have skip: "listener ticks ip port (the (h a)) \<Longrightarrow> x \<le> m \<Longrightarrow> x \<le> tcp_con_num (the (h a))" for x
      using False s by (auto simp: not_less intro: order_trans)
    from Cons.IH [OF sub Cons.prems(2)] obtain r where
      r: "min_conn_scan ticks ip port h c best m = Some r"
      and w: "r = best \<and> (\<forall>a \<in> set c. listener ticks ip port (the (h a)) \<longrightarrow> m \<le> tcp_con_num (the (h a))) \<or>
       (\<exists>a s. r = Some a \<and> a \<in> set c \<and> h a = Some s \<and> listener ticks ip port s \<and> tcp_con_num s < m \<and>
         (\<forall>b \<in> set c. listener ticks ip port (the (h b)) \<longrightarrow> tcp_con_num s \<le> tcp_con_num (the (h b))))" by blast
    from w show ?thesis
    proof
      assume "r = best \<and> (\<forall>a \<in> set c. listener ticks ip port (the (h a)) \<longrightarrow> m \<le> tcp_con_num (the (h a)))"
      then show ?thesis using step r skip [of m] by auto
    next
      assume "\<exists>a s. r = Some a \<and> a \<in> set c \<and> h a = Some s \<and> listener ticks ip port s \<and> tcp_con_num s < m \<and>
         (\<forall>b \<in> set c. listener ticks ip port (the (h b)) \<longrightarrow> tcp_con_num s \<le> tcp_con_num (the (h b)))"
      then obtain b x where b: "r = Some b" "b \<in> set c" "h b = Some x" "listener ticks ip port x" "tcp_con_num x < m"
        "\<forall>d \<in> set c. listener ticks ip port (the (h d)) \<longrightarrow> tcp_con_num x \<le> tcp_con_num (the (h d))" by blast
      then have "\<exists>b x. r = Some b \<and> b \<in> set (a # c) \<and> h b = Some x \<and> listener ticks ip port x \<and> tcp_con_num x < m \<and>
          (\<forall>d \<in> set (a # c). listener ticks ip port (the (h d)) \<longrightarrow> tcp_con_num x \<le> tcp_con_num (the (h d)))"
        using skip [of "tcp_con_num x"] by (intro exI [of _ b] exI [of _ x]) auto
      then show ?thesis using step r by metis
    qed
  qed
qed auto

end
