(* ===== verification/Ltran_Tcp.thy ===== *)
theory Ltran_Tcp
  imports Ltran_Tables Rte_Ring
begin

text \<open>
  The TCP side of ltran's forwarding thread: which stack a packet goes to (\<open>tcp_handle\<close>), the
  registration messages of lstack (\<open>tcp_hash_table_modify\<close> and its callers, all of
  \<open>src/ltran/ltran_forward.c\<close>), and the periodic clean-up of the tables
  (\<open>src/ltran/ltran_timer.c\<close>).
\<close>

section \<open>State\<close>

text \<open>
  The two tables are guarded by one mutex, that of the socket table. What the allocators
  return is a function of the table; a fresh address is not in it.
\<close>

record tcp_tables =
  ct :: "tcp_conn htable"
  st :: "tcp_sock htable"
  mlock :: bool

record ltran_env =
  jh :: jhash
  eos :: "addr list \<Rightarrow> addr option"
  new_conn :: "tcp_conn htable \<Rightarrow> (addr \<times> tcp_conn) option"
  new_sock :: "tcp_sock htable \<Rightarrow> addr option"

definition env_ok :: "ltran_env \<Rightarrow> bool" where
  "env_ok E \<longleftrightarrow> eos E = no_cursor \<and>
     (\<forall>t a raw. new_conn E t = Some (a, raw) \<longrightarrow> heap t a = None) \<and>
     (\<forall>t a. new_sock E t = Some a \<longrightarrow> heap t a = None)"

section \<open>Packets\<close>

definition gazelle_conn_timeout :: "16 word" where "gazelle_conn_timeout = 5"

text \<open>
  The value is the stack the packet is put on, \<open>None\<close> for \<open>GAZELLE_ERR\<close>. Putting it there is the
  last thing the function does, in \<open>Ltran_Backup\<close>. The quintuple, which the function fills in from the packet with
  protocol 0, is an argument here; \<open>pkt_quintuple\<close> of \<open>Ltran_Forward\<close> builds it. The outer option is undefined behaviour, here
  a freed object or a NULL stack.
\<close>

definition tcp_handle ::
  "ltran_env \<Rightarrow> (nat \<Rightarrow> i32) \<Rightarrow> tcp_tables \<Rightarrow> quintuple \<Rightarrow> (addr option \<times> tcp_tables) option" where
  "tcp_handle E ticks T q = do {
     tcp_conn \<leftarrow> gazelle_conn_get_by_quintuple (jh E) ticks (ct T) q;
     (case tcp_conn of
        Some a \<Rightarrow> do { c \<leftarrow> heap (ct T) a; k \<leftarrow> conn_stack c; Some (Some k, T) }
      | None \<Rightarrow> do {
          tcp_sock \<leftarrow> gazelle_sock_get_by_min_conn (jh E) ticks (st T) (dst_ip q) (dst_port q);
          (case tcp_sock of
             None \<Rightarrow> Some (None, T)
           | Some sa \<Rightarrow> do {
               (tcp_conn, u) \<leftarrow> gazelle_conn_add_by_quintuple (jh E) ticks (new_conn E (ct T)) (ct T) q;
               (case tcp_conn of
                  None \<Rightarrow> Some (None, T\<lparr>ct := u\<rparr>)
                | Some a \<Rightarrow> do {
                    c \<leftarrow> heap u a;
                    s \<leftarrow> heap (st T) sa;
                    k \<leftarrow> sock_stack s;
                    let c = c\<lparr>conn_timeout := gazelle_conn_timeout, conn_stack := sock_stack s,
                              conn_sock := Some sa, conn_tid := sock_tid s,
                              conn_cur_tick := sock_cur_tick s, conn_reg_tick := sock_reg_tick s\<rparr>;
                    Some (Some k, T\<lparr>ct := hset a c u,
                                    st := hset sa (s\<lparr>tcp_con_num := tcp_con_num s + 1\<rparr>) (st T)\<rparr>)})})})}"

section \<open>Registration messages\<close>

datatype reg_ring_type =
    Reg_ring_tcp_listen | Reg_ring_tcp_listen_close | Reg_ring_tcp_connect | Reg_ring_tcp_connect_close
  | Reg_ring_other

record reg_ring_msg =
  msg_type :: reg_ring_type
  msg_tid :: u32
  qtuple :: quintuple

definition msg_to_quintuple :: "reg_ring_msg \<Rightarrow> quintuple" where
  "msg_to_quintuple msg =
     (let q = qtuple msg in
      \<lparr>protocol = protocol q, src_ip = dst_ip q, src_port = dst_port q, dst_ip = src_ip q, dst_port = src_port q\<rparr>)"

definition tcp_hash_table_del_conn ::
  "ltran_env \<Rightarrow> (nat \<Rightarrow> i32) \<Rightarrow> tcp_tables \<Rightarrow> quintuple \<Rightarrow> tcp_tables option" where
  "tcp_hash_table_del_conn E ticks T q = do {
     tcp_conn \<leftarrow> gazelle_conn_get_by_quintuple (jh E) ticks (ct T) q;
     (case tcp_conn of
        None \<Rightarrow> Some T
      | Some a \<Rightarrow> do {
          c \<leftarrow> heap (ct T) a;
          T \<leftarrow> (case conn_sock c of
                  None \<Rightarrow> Some T
                | Some sa \<Rightarrow> do {
                    s \<leftarrow> heap (st T) sa;
                    Some (if tcp_con_num s > 0 then T\<lparr>st := hset sa (s\<lparr>tcp_con_num := tcp_con_num s - 1\<rparr>) (st T)\<rparr>
                          else T)});
          t \<leftarrow> gazelle_conn_del_by_quintuple (jh E) (eos E) (ct T) q;
          Some (T\<lparr>ct := t\<rparr>)})}"

text \<open>The stack argument is given by its address and its ticks.\<close>

definition tcp_hash_table_add_conn ::
  "ltran_env \<Rightarrow> (nat \<Rightarrow> i32) \<Rightarrow> addr \<Rightarrow> gazelle_stack \<Rightarrow> tcp_tables \<Rightarrow> quintuple \<Rightarrow> u32 \<Rightarrow> tcp_tables option" where
  "tcp_hash_table_add_conn E ticks sa stack T q tid = do {
     tcp_conn \<leftarrow> gazelle_conn_get_by_quintuple (jh E) ticks (ct T) q;
     accepted \<leftarrow> (case tcp_conn of
        None \<Rightarrow> Some (False, T)
      | Some a \<Rightarrow> do {
          c \<leftarrow> heap (ct T) a;
          (if 0 \<le> sint (conn_timeout c) then Some (True, T\<lparr>ct := hset a (c\<lparr>conn_timeout := - 1\<rparr>) (ct T)\<rparr>)
           else do { t \<leftarrow> gazelle_conn_del_by_quintuple (jh E) (eos E) (ct T) q; Some (False, T\<lparr>ct := t\<rparr>) })});
     (if fst accepted then Some (snd accepted)
      else do {
        let T = snd accepted;
        (tcp_conn, u) \<leftarrow> gazelle_conn_add_by_quintuple (jh E) ticks (new_conn E (ct T)) (ct T) q;
        (case tcp_conn of
           None \<Rightarrow> Some (T\<lparr>ct := u\<rparr>)
         | Some a \<Rightarrow> do {
             c \<leftarrow> heap u a;
             Some (T\<lparr>ct := hset a (c\<lparr>conn_stack := Some sa, conn_tid := tid, conn_timeout := - 1,
                 conn_reg_tick := stack_reg_tick stack, conn_cur_tick := stack_cur_tick stack\<rparr>) u\<rparr>)})})}"

definition tcp_hash_table_modify ::
  "ltran_env \<Rightarrow> (nat \<Rightarrow> i32) \<Rightarrow> addr \<Rightarrow> gazelle_stack \<Rightarrow> tcp_tables \<Rightarrow> reg_ring_msg \<Rightarrow> tcp_tables option" where
  "tcp_hash_table_modify E ticks sa stack T msg =
     (let q = msg_to_quintuple msg in
      case msg_type msg of
        Reg_ring_tcp_listen \<Rightarrow> do {
          (tcp_sock, t, c) \<leftarrow> gazelle_sock_add_by_ipporttid (jh E) ticks (new_sock E (st T)) (ct T) (st T)
             (dst_ip q) (dst_port q) (msg_tid msg);
          (case tcp_sock of
             None \<Rightarrow> Some (T\<lparr>ct := c, st := t\<rparr>)
           | Some a \<Rightarrow> do {
               s \<leftarrow> heap t a;
               Some (T\<lparr>ct := c, st := hset a (s\<lparr>sock_reg_tick := stack_reg_tick stack,
                  sock_cur_tick := stack_cur_tick stack, sock_stack := Some sa\<rparr>) t\<rparr>)})}
      | Reg_ring_tcp_listen_close \<Rightarrow> do {
          t \<leftarrow> gazelle_sock_del_by_ipporttid (jh E) (eos E) (st T) (dst_ip q) (dst_port q) (msg_tid msg);
          Some (T\<lparr>st := t\<rparr>)}
      | Reg_ring_tcp_connect \<Rightarrow> tcp_hash_table_add_conn E ticks sa stack T q (msg_tid msg)
      | Reg_ring_tcp_connect_close \<Rightarrow> tcp_hash_table_del_conn E ticks T q
      | Reg_ring_other \<Rightarrow> Some T)"

fun modify_all ::
  "ltran_env \<Rightarrow> (nat \<Rightarrow> i32) \<Rightarrow> addr \<Rightarrow> gazelle_stack \<Rightarrow> reg_ring_msg list \<Rightarrow> tcp_tables \<Rightarrow> tcp_tables option" where
  "modify_all E ticks sa stack [] T = Some T"
| "modify_all E ticks sa stack (m # ms) T = do {
     T \<leftarrow> tcp_hash_table_modify E ticks sa stack T m; modify_all E ticks sa stack ms T }"

text \<open>
  \<open>tcp_hash_table_handle\<close> reads the messages in place on the stack's registration ring and hands
  them back when all are processed. Nothing happens while the mutex is taken.
\<close>

definition packet_read_size :: u32 where "packet_read_size = 32"

definition tcp_hash_table_handle ::
  "ltran_env \<Rightarrow> reg_ring_msg ring_elems \<Rightarrow> (nat \<Rightarrow> i32) \<Rightarrow> addr \<Rightarrow> gazelle_stack \<Rightarrow>
   reg_ring_msg rte_ring \<Rightarrow> tcp_tables \<Rightarrow> (reg_ring_msg rte_ring \<times> tcp_tables) option" where
  "tcp_hash_table_handle E R ticks sa stack ring T =
     (if gazelle_ring_readable_count ring = 0 then Some (ring, T)
      else if mlock T then Some (ring, T)
      else do {
        let T = T\<lparr>mlock := True\<rparr>;
        let (num, pkts, ring) = gazelle_ring_read R ring packet_read_size;
        T \<leftarrow> modify_all E ticks sa stack pkts T;
        let ring = gazelle_ring_read_over ring;
        Some (ring, T\<lparr>mlock := False\<rparr>)})"

section \<open>Timers\<close>

fun each_bucket :: "(nat \<Rightarrow> 's \<Rightarrow> 's option) \<Rightarrow> nat list \<Rightarrow> 's \<Rightarrow> 's option" where
  "each_bucket f [] s = Some s"
| "each_bucket f (b # bs) s = (case f b s of None \<Rightarrow> None | Some s \<Rightarrow> each_bucket f bs s)"

fun logout_chain :: "('e \<Rightarrow> bool) \<Rightarrow> nat \<Rightarrow> addr list \<Rightarrow> 'e htable \<Rightarrow> 'e htable option" where
  "logout_chain on b [] t = Some t"
| "logout_chain on b (a # as) t =
     (case heap t a of None \<Rightarrow> None | Some e \<Rightarrow> logout_chain on b as (if on e then t else hdel b a t))"

definition logout_all :: "nat \<Rightarrow> ('e \<Rightarrow> bool) \<Rightarrow> 'e htable \<Rightarrow> 'e htable option" where
  "logout_all N on t = each_bucket (\<lambda>b t. logout_chain on b (chain t b) t) [0..<N] t"

definition gazelle_detect_sock_logout :: "(nat \<Rightarrow> i32) \<Rightarrow> tcp_tables \<Rightarrow> tcp_tables option" where
  "gazelle_detect_sock_logout ticks T =
     (if mlock T then Some T
      else do { t \<leftarrow> logout_all sock_htable_size (sock_on ticks) (st T); Some (T\<lparr>st := t\<rparr>) })"

definition gazelle_detect_conn_logout :: "(nat \<Rightarrow> i32) \<Rightarrow> tcp_tables \<Rightarrow> tcp_tables option" where
  "gazelle_detect_conn_logout ticks T =
     (if mlock T then Some T
      else do { t \<leftarrow> logout_all conn_htable_size (conn_on ticks) (ct T); Some (T\<lparr>ct := t\<rparr>) })"

definition aging_step :: "nat \<Rightarrow> addr \<Rightarrow> tcp_tables \<Rightarrow> tcp_tables option" where
  "aging_step b a T = do {
     c \<leftarrow> heap (ct T) a;
     (if sint (conn_timeout c) < 0 then Some T
      else do {
        let c = c\<lparr>conn_timeout := conn_timeout c - 1\<rparr>;
        let T = T\<lparr>ct := hset a c (ct T)\<rparr>;
        (if 0 < sint (conn_timeout c) then Some T
         else do {
           let T = T\<lparr>ct := hdel b a (ct T)\<rparr>;
           (case conn_sock c of
              None \<Rightarrow> Some T
            | Some sa \<Rightarrow> do {
                s \<leftarrow> heap (st T) sa;
                Some (T\<lparr>st := hset sa (s\<lparr>tcp_con_num := tcp_con_num s - 1\<rparr>) (st T)\<rparr>)})})})}"

fun aging_chain :: "nat \<Rightarrow> addr list \<Rightarrow> tcp_tables \<Rightarrow> tcp_tables option" where
  "aging_chain b [] T = Some T"
| "aging_chain b (a # as) T = (case aging_step b a T of None \<Rightarrow> None | Some T \<Rightarrow> aging_chain b as T)"

definition gazelle_delete_aging_conn :: "tcp_tables \<Rightarrow> tcp_tables option" where
  "gazelle_delete_aging_conn T =
     (if mlock T then Some T
      else each_bucket (\<lambda>b T. aging_chain b (chain (ct T) b) T) [0..<conn_htable_size] T)"

text \<open>\<open>get_current_time\<close> and \<open>calibrate_time\<close>: microseconds from the cycle counter.\<close>

definition calibrate_time :: "u64 \<Rightarrow> u64" where
  "calibrate_time tsc_hz = (tsc_hz + 1000000 - 1) div 1000000"

definition get_current_time :: "u64 \<Rightarrow> u64 \<Rightarrow> u64" where
  "get_current_time cycles_per_us rdtsc = (if cycles_per_us = 0 then 0 else rdtsc div cycles_per_us)"

section \<open>The invariant of the two tables\<close>

definition sock_bucket :: "jhash \<Rightarrow> tcp_sock \<Rightarrow> nat" where
  "sock_bucket J s = gazelle_hbucket_get_by_ipport J (sock_ip s) (sock_port s)"

text \<open>Live entries have a stack.\<close>

definition tcp_inv :: "ltran_env \<Rightarrow> (nat \<Rightarrow> i32) \<Rightarrow> tcp_tables \<Rightarrow> bool" where
  "tcp_inv E ticks T \<longleftrightarrow> conn_inv (jh E) ticks (ct T) \<and>
     htable_inv sock_htable_size (sock_bucket (jh E)) (st T) \<and>
     (\<forall>a c. heap (ct T) a = Some c \<longrightarrow> conn_on ticks c \<longrightarrow> conn_stack c \<noteq> None) \<and>
     (\<forall>a s. heap (st T) a = Some s \<longrightarrow> sock_on ticks s \<longrightarrow> sock_stack s \<noteq> None)"

lemma tcp_invD:
  assumes "tcp_inv E ticks T"
  shows "conn_inv (jh E) ticks (ct T)" and "htable_inv sock_htable_size (sock_bucket (jh E)) (st T)"
    and "heap (ct T) a = Some c \<Longrightarrow> conn_on ticks c \<Longrightarrow> conn_stack c \<noteq> None"
    and "heap (st T) b = Some s \<Longrightarrow> sock_on ticks s \<Longrightarrow> sock_stack s \<noteq> None"
  using assms unfolding tcp_inv_def by blast+

text \<open>The listener chosen for a new flow, over the whole table.\<close>

lemma min_conn_choice:
  assumes inv: "htable_inv sock_htable_size (sock_bucket J) t"
  shows "\<exists>r. gazelle_sock_get_by_min_conn J ticks t ip port = Some r \<and>
    (case r of
       None \<Rightarrow> \<forall>a s. heap t a = Some s \<longrightarrow> listener ticks ip port s \<longrightarrow> gazelle_stack_max_tcp_con_num \<le> tcp_con_num s
     | Some a \<Rightarrow> \<exists>s. heap t a = Some s \<and> listener ticks ip port s \<and> tcp_con_num s < gazelle_stack_max_tcp_con_num \<and>
         (\<forall>b x. heap t b = Some x \<longrightarrow> listener ticks ip port x \<longrightarrow> tcp_con_num s \<le> tcp_con_num x))"
proof -
  let ?b = "gazelle_hbucket_get_by_ipport J ip port"
  have dom: "set (chain t ?b) \<subseteq> dom (heap t)" by (rule chain_in_heap [OF inv]) simp
  have all: "a \<in> set (chain t ?b)" if "heap t a = Some s" "listener ticks ip port s" for a s
    using heap_in_chain(2) [OF inv that(1)] that(2) by (simp add: sock_bucket_def listener_def)
  from min_conn_scan_result [OF dom, of None gazelle_stack_max_tcp_con_num ticks ip port]
  obtain r where r: "gazelle_sock_get_by_min_conn J ticks t ip port = Some r"
    and w: "r = None \<and> (\<forall>a \<in> set (chain t ?b). listener ticks ip port (the (heap t a)) \<longrightarrow>
         gazelle_stack_max_tcp_con_num \<le> tcp_con_num (the (heap t a))) \<or>
     (\<exists>a s. r = Some a \<and> a \<in> set (chain t ?b) \<and> heap t a = Some s \<and> listener ticks ip port s \<and>
       tcp_con_num s < gazelle_stack_max_tcp_con_num \<and>
       (\<forall>b \<in> set (chain t ?b). listener ticks ip port (the (heap t b)) \<longrightarrow> tcp_con_num s \<le> tcp_con_num (the (heap t b))))"
    by (auto simp: gazelle_sock_get_by_min_conn_def)
  from w show ?thesis
  proof
    assume n: "r = None \<and> (\<forall>a \<in> set (chain t ?b). listener ticks ip port (the (heap t a)) \<longrightarrow>
         gazelle_stack_max_tcp_con_num \<le> tcp_con_num (the (heap t a)))"
    then have "gazelle_stack_max_tcp_con_num \<le> tcp_con_num s"
      if "heap t a = Some s" "listener ticks ip port s" for a s using all [OF that] that by auto
    then show ?thesis using r n by auto
  next
    assume "\<exists>a s. r = Some a \<and> a \<in> set (chain t ?b) \<and> heap t a = Some s \<and> listener ticks ip port s \<and>
       tcp_con_num s < gazelle_stack_max_tcp_con_num \<and>
       (\<forall>b \<in> set (chain t ?b). listener ticks ip port (the (heap t b)) \<longrightarrow> tcp_con_num s \<le> tcp_con_num (the (heap t b)))"
    then obtain a s where s: "r = Some a" "heap t a = Some s" "listener ticks ip port s" "tcp_con_num s < gazelle_stack_max_tcp_con_num"
      and m: "\<forall>b \<in> set (chain t ?b). listener ticks ip port (the (heap t b)) \<longrightarrow> tcp_con_num s \<le> tcp_con_num (the (heap t b))"
      by blast
    have "tcp_con_num s \<le> tcp_con_num x" if "heap t b = Some x" "listener ticks ip port x" for b x
      using m all [OF that] that by auto
    then show ?thesis using r s by auto
  qed
qed

section \<open>Where a packet goes\<close>

text \<open>What \<open>tcp_handle\<close> does in each of its cases.\<close>

lemma tcp_handle_bound:
  assumes inv: "tcp_inv E ticks T" and f: "conn_find (jh E) ticks (ct T) q = Some (a, c)"
  shows "\<exists>k. conn_stack c = Some k \<and> tcp_handle E ticks T q = Some (Some k, T)"
proof -
  note D = tcp_invD [OF inv]
  have c: "heap (ct T) a = Some c" "conn_on ticks c" using f conn_find_iff [OF D(1)] by simp_all
  obtain k where "conn_stack c = Some k" using D(3) [OF c] by auto
  then show ?thesis using c f by (simp add: tcp_handle_def conn_get_find [OF D(1)])
qed

lemma tcp_handle_new:
  assumes inv: "tcp_inv E ticks T" and env: "env_ok E"
    and f: "conn_find (jh E) ticks (ct T) q = None"
    and m: "gazelle_sock_get_by_min_conn (jh E) ticks (st T) (dst_ip q) (dst_port q) = Some (Some sa)"
    and s: "heap (st T) sa = Some s" "listener ticks (dst_ip q) (dst_port q) s"
    and room: "cur_num (ct T) \<noteq> max_num (ct T)" and n: "new_conn E (ct T) = Some (a, raw)"
  shows "\<exists>k c t. sock_stack s = Some k \<and> conn_stack c = Some k \<and> conn_sock c = Some sa \<and>
    conn_timeout c = gazelle_conn_timeout \<and> conn_tid c = sock_tid s \<and>
    hbind_ok (conn_on ticks) conn_key (ct T) q (a, c) \<and>
    t = T\<lparr>ct := conn_bind (jh E) ticks (ct T) q (a, c), st := hset sa (s\<lparr>tcp_con_num := tcp_con_num s + 1\<rparr>) (st T)\<rparr> \<and>
    tcp_handle E ticks T q = Some (Some k, t) \<and> tcp_inv E ticks t"
proof -
  note D = tcp_invD [OF inv]
  have on: "sock_on ticks s" using s(2) by (simp add: listener_def)
  obtain k where k: "sock_stack s = Some k" using D(4) [OF s(1) on] by auto
  let ?c = "(fresh_conn q raw)\<lparr>conn_timeout := gazelle_conn_timeout, conn_stack := Some k,
     conn_sock := Some sa, conn_tid := sock_tid s, conn_cur_tick := sock_cur_tick s, conn_reg_tick := sock_reg_tick s\<rparr>"
  have con: "conn_on ticks ?c" using on by (simp add: conn_on_def sock_on_def)
  have ok: "hbind_ok (conn_on ticks) conn_key (ct T) q (a, ?c)"
    using env n room con by (auto simp: hbind_ok_def env_ok_def fresh_conn_def)
  note b = conn_bind_hbind [OF D(1) f ok]
  let ?s = "s\<lparr>tcp_con_num := tcp_con_num s + 1\<rparr>"
  let ?t = "T\<lparr>ct := conn_bind (jh E) ticks (ct T) q (a, ?c), st := hset sa ?s (st T)\<rparr>"
  have add: "gazelle_conn_add_by_quintuple (jh E) ticks (new_conn E (ct T)) (ct T) q =
     Some (Some a, hadd (gazelle_conn_hbucket_get (jh E) q) a (fresh_conn q raw) (ct T))"
    using f room n by (simp add: conn_add_cases [OF D(1)])
  have fresh: "heap (hadd (gazelle_conn_hbucket_get (jh E) q) a (fresh_conn q raw) (ct T)) a = Some (fresh_conn q raw)"
    by (simp add: hadd_def)
  have run: "tcp_handle E ticks T q = Some (Some k, ?t)"
    using f m s k add fresh by (simp add: tcp_handle_def conn_get_find [OF D(1)] Let_def b hset_hadd hbind_def)
  have "conn_inv (jh E) ticks (ct ?t)" using conns.put_inv [OF D(1) f ok] by simp
  moreover have "htable_inv sock_htable_size (sock_bucket (jh E)) (st ?t)"
    using hset_inv [OF D(2) s(1), of ?s] by (simp add: sock_bucket_def)
  moreover have "conn_stack c \<noteq> None" if "heap (ct ?t) x = Some c" "conn_on ticks c" for x c
    using that D(3) [of x c] k by (auto simp: b hbind_def hadd_def split: if_splits)
  moreover have "sock_stack x \<noteq> None" if "heap (st ?t) y = Some x" "sock_on ticks x" for x y
    using that D(4) [of y x] k by (auto simp: hset_def split: if_splits)
  ultimately have "tcp_inv E ticks ?t" unfolding tcp_inv_def by blast
  then show ?thesis using k ok run
    by (intro exI [of _ k] exI [of _ ?c] exI [of _ ?t]) (simp add: fresh_conn_def)
qed

lemma tcp_handle_refused:
  assumes inv: "tcp_inv E ticks T"
    and f: "conn_find (jh E) ticks (ct T) q = None"
    and n: "gazelle_sock_get_by_min_conn (jh E) ticks (st T) (dst_ip q) (dst_port q) = Some None \<or>
      cur_num (ct T) = max_num (ct T) \<or> new_conn E (ct T) = None"
  shows "tcp_handle E ticks T q = Some (None, T)"
proof -
  note D = tcp_invD [OF inv]
  obtain r where r: "gazelle_sock_get_by_min_conn (jh E) ticks (st T) (dst_ip q) (dst_port q) = Some r"
    using min_conn_choice [OF D(2)] by blast
  show ?thesis using n f r
    by (cases r) (auto simp: tcp_handle_def conn_get_find [OF D(1)] conn_add_cases [OF D(1)] split: option.splits)
qed

text \<open>Whatever the case, a flow that is bound stays bound to the same connection.\<close>

lemma tcp_handle_step:
  assumes inv: "tcp_inv E ticks T" and env: "env_ok E"
  shows "\<exists>r t. tcp_handle E ticks T q = Some (r, t) \<and> tcp_inv E ticks t \<and>
    (\<forall>j v. conn_find (jh E) ticks (ct T) j = Some v \<longrightarrow> conn_find (jh E) ticks (ct t) j = Some v) \<and>
    (\<forall>k. r = Some k \<longrightarrow> (\<exists>a c. conn_find (jh E) ticks (ct t) q = Some (a, c) \<and> conn_stack c = Some k))"
proof (cases "conn_find (jh E) ticks (ct T) q")
  case (Some v)
  obtain a c where "v = (a, c)" by fastforce
  then show ?thesis using tcp_handle_bound [OF inv] Some inv by fastforce
next
  case None
  note D = tcp_invD [OF inv]
  obtain r where r: "gazelle_sock_get_by_min_conn (jh E) ticks (st T) (dst_ip q) (dst_port q) = Some r"
    and w: "case r of None \<Rightarrow> True | Some a \<Rightarrow> \<exists>s. heap (st T) a = Some s \<and> listener ticks (dst_ip q) (dst_port q) s"
  proof -
    obtain r where "gazelle_sock_get_by_min_conn (jh E) ticks (st T) (dst_ip q) (dst_port q) = Some r"
      and "case r of
       None \<Rightarrow> \<forall>a s. heap (st T) a = Some s \<longrightarrow> listener ticks (dst_ip q) (dst_port q) s \<longrightarrow> gazelle_stack_max_tcp_con_num \<le> tcp_con_num s
     | Some a \<Rightarrow> \<exists>s. heap (st T) a = Some s \<and> listener ticks (dst_ip q) (dst_port q) s \<and>
         tcp_con_num s < gazelle_stack_max_tcp_con_num \<and> (\<forall>b x. heap (st T) b = Some x \<longrightarrow> listener ticks (dst_ip q) (dst_port q) x \<longrightarrow> tcp_con_num s \<le> tcp_con_num x)"
      using min_conn_choice [OF D(2), of ticks "dst_ip q" "dst_port q"] by blast
    then show thesis by (intro that [of r]) (cases r; auto)+
  qed
  show ?thesis
  proof (cases "r = None \<or> cur_num (ct T) = max_num (ct T) \<or> new_conn E (ct T) = None")
    case True
    then have "tcp_handle E ticks T q = Some (None, T)" using r by (intro tcp_handle_refused [OF inv None]) auto
    then show ?thesis using inv by auto
  next
    case False
    then obtain sa where sa: "r = Some sa" by auto
    obtain a raw where n: "new_conn E (ct T) = Some (a, raw)" using False by auto
    obtain s where s: "heap (st T) sa = Some s" "listener ticks (dst_ip q) (dst_port q) s" using w sa by auto
    have room: "cur_num (ct T) \<noteq> max_num (ct T)" using False by blast
    obtain k c t where c: "conn_stack c = Some k" "hbind_ok (conn_on ticks) conn_key (ct T) q (a, c)"
      "ct t = conn_bind (jh E) ticks (ct T) q (a, c)" "tcp_handle E ticks T q = Some (Some k, t)" "tcp_inv E ticks t"
      using tcp_handle_new [OF inv env None r [unfolded sa] s room n] by auto
    note L = conns.put_lookup [OF D(1) None c(2)]
    show ?thesis using c L None by (intro exI [of _ "Some k"] exI [of _ t]) auto
  qed
qed

text \<open>A burst of packets.\<close>

fun tcp_handle_all :: "ltran_env \<Rightarrow> (nat \<Rightarrow> i32) \<Rightarrow> tcp_tables \<Rightarrow> quintuple list \<Rightarrow> (addr option list \<times> tcp_tables) option" where
  "tcp_handle_all E ticks T [] = Some ([], T)"
| "tcp_handle_all E ticks T (q # qs) = do {
     (r, T) \<leftarrow> tcp_handle E ticks T q;
     (rs, T) \<leftarrow> tcp_handle_all E ticks T qs;
     Some (r # rs, T)}"

lemma tcp_handle_all_step:
  assumes "tcp_inv E ticks T" and "env_ok E"
  shows "\<exists>rs t. tcp_handle_all E ticks T qs = Some (rs, t) \<and> length rs = length qs \<and> tcp_inv E ticks t \<and>
    (\<forall>j v. conn_find (jh E) ticks (ct T) j = Some v \<longrightarrow> conn_find (jh E) ticks (ct t) j = Some v) \<and>
    (\<forall>i < length qs. \<forall>k. rs ! i = Some k \<longrightarrow>
       (\<exists>a c. conn_find (jh E) ticks (ct t) (qs ! i) = Some (a, c) \<and> conn_stack c = Some k))"
  using assms(1)
proof (induction qs arbitrary: T)
  case (Cons q qs)
  obtain r u where u: "tcp_handle E ticks T q = Some (r, u)" "tcp_inv E ticks u"
    and keep: "\<And>j v. conn_find (jh E) ticks (ct T) j = Some v \<Longrightarrow> conn_find (jh E) ticks (ct u) j = Some v"
    and here: "\<And>k. r = Some k \<Longrightarrow> \<exists>a c. conn_find (jh E) ticks (ct u) q = Some (a, c) \<and> conn_stack c = Some k"
    using tcp_handle_step [OF Cons.prems assms(2), of q] by blast
  obtain rs t where t: "tcp_handle_all E ticks u qs = Some (rs, t)" "length rs = length qs" "tcp_inv E ticks t"
    and keep': "\<And>j v. conn_find (jh E) ticks (ct u) j = Some v \<Longrightarrow> conn_find (jh E) ticks (ct t) j = Some v"
    and rest: "\<And>i k. i < length qs \<Longrightarrow> rs ! i = Some k \<Longrightarrow>
       \<exists>a c. conn_find (jh E) ticks (ct t) (qs ! i) = Some (a, c) \<and> conn_stack c = Some k"
    using Cons.IH [OF u(2)] by blast
  have "\<exists>a c. conn_find (jh E) ticks (ct t) ((q # qs) ! i) = Some (a, c) \<and> conn_stack c = Some k"
    if "i < length (q # qs)" "(r # rs) ! i = Some k" for i k
    using that here [of k] keep' rest by (cases i) fastforce+
  then show ?case using u(1) t keep keep' by auto
qed simp

section \<open>Logout and aging\<close>

lemma each_bucket_rule:
  assumes "Q ds s" and "distinct (ds @ bs)"
    and step: "\<And>ds b s. Q ds s \<Longrightarrow> b \<in> set bs \<Longrightarrow> b \<notin> set ds \<Longrightarrow> \<exists>u. f b s = Some u \<and> Q (ds @ [b]) u"
  shows "\<exists>u. each_bucket f bs s = Some u \<and> Q (ds @ bs) u"
  using assms
proof (induction bs arbitrary: ds s)
  case (Cons b bs)
  obtain u where u: "f b s = Some u" "Q (ds @ [b]) u" using Cons.prems(3) [OF Cons.prems(1)] Cons.prems(2) by auto
  have "\<exists>v. each_bucket f bs u = Some v \<and> Q ((ds @ [b]) @ bs) v"
    using u Cons.prems by (intro Cons.IH) auto
  then show ?case using u by simp
qed simp

text \<open>Removing a dead entry leaves every live entry the first of its key.\<close>

lemma hscan_del_other:
  "hscan P h c = Some (Some b) \<Longrightarrow> b \<noteq> a \<Longrightarrow> distinct c \<Longrightarrow>
   hscan P (h(a := None)) (remove1 a c) = Some (Some b)"
proof (induction c)
  case (Cons x c)
  then obtain e where e: "h x = Some e" by (auto split: option.splits)
  show ?case
  proof (cases "x = a")
    case True
    then have "hscan P h c = Some (Some b)" using Cons.prems e by (auto split: if_splits)
    moreover have "hscan P (h(a := None)) c = hscan P h c" by (rule hscan_other) (use True Cons.prems in simp)
    ultimately show ?thesis using True by (simp del: fun_upd_apply)
  next
    case False
    then show ?thesis using Cons e by (auto split: if_splits)
  qed
qed simp

lemma hdel_dead_table_inv:
  assumes inv: "table_inv N on key hb t" and a: "heap t a = Some e" "\<not> on e"
  shows "table_inv N on key hb (hdel (hb (key e)) a t)"
proof -
  note I = table_invD [OF inv]
  have "htable_inv N (\<lambda>e. hb (key e)) (hdel (hb (key e)) a t)"
    using hdel_inv [OF I(1,2)] heap_in_chain(2) [OF I(1) a(1)] by simp
  moreover have "live_first on key hb (hdel (hb (key e)) a t)"
    unfolding live_first_def
  proof (intro allI impI)
    fix b x assume x: "heap (hdel (hb (key e)) a t) b = Some x" "on x"
    then have hx: "heap t b = Some x" "b \<noteq> a" by (auto simp: hdel_def split: if_splits)
    note s = I(3) [OF hx(1) x(2)]
    have d: "distinct (chain t (hb (key x)))" by (rule chain_distinct [OF I(1,2)])
    have "hb (key x) \<noteq> hb (key e) \<Longrightarrow> a \<notin> set (chain t (hb (key x)))"
      using htable_invD(3) [OF I(1,2), of a "key x"] a by auto
    then show "hscan (\<lambda>y. key y = key x) (heap (hdel (hb (key e)) a t)) (chain (hdel (hb (key e)) a t) (hb (key x))) = Some (Some b)"
      using hscan_del_other [OF s hx(2) d] by (cases "hb (key x) = hb (key e)") (auto simp: hdel_def remove1_idem)
  qed
  ultimately show ?thesis using I(2) by (simp add: table_inv_def)
qed

text \<open>The loops over a chain, for any invariant \<open>I\<close> that removing a dead entry keeps.\<close>

lemma logout_chain_law:
  assumes I: "\<And>t a e. I t \<Longrightarrow> heap t a = Some e \<Longrightarrow> a \<in> set (chain t b) \<Longrightarrow> \<not> on e \<Longrightarrow> I (hdel b a t)"
    and t: "I t" "distinct as" "set as \<subseteq> set (chain t b)" "set as \<subseteq> dom (heap t)"
  shows "\<exists>u. logout_chain on b as t = Some u \<and> I u \<and> (\<forall>c. c \<noteq> b \<longrightarrow> chain u c = chain t c) \<and>
    (\<forall>a. heap u a = (if a \<in> set as \<and> \<not> on (the (heap t a)) then None else heap t a))"
  using t
proof (induction as arbitrary: t)
  case (Cons a as)
  obtain e where e: "heap t a = Some e" using Cons.prems(4) by auto
  show ?case
  proof (cases "on e")
    case True
    then show ?thesis using Cons.IH [OF Cons.prems(1)] Cons.prems e by auto
  next
    case False
    let ?t = "hdel b a t"
    have "I ?t" using I [OF Cons.prems(1) e] Cons.prems(3) False by simp
    moreover have "set as \<subseteq> set (chain ?t b)"
    proof
      fix x assume "x \<in> set as"
      then have "x \<noteq> a" "x \<in> set (chain t b)" using Cons.prems(2,3) by auto
      then show "x \<in> set (chain ?t b)" by (simp add: hdel_def in_set_remove1)
    qed
    moreover have "set as \<subseteq> dom (heap ?t)" using Cons.prems(2,4) by (auto simp: hdel_def)
    ultimately obtain u where "logout_chain on b as ?t = Some u" "I u" "\<forall>c. c \<noteq> b \<longrightarrow> chain u c = chain ?t c"
      "\<forall>x. heap u x = (if x \<in> set as \<and> \<not> on (the (heap ?t x)) then None else heap ?t x)"
      using Cons.IH [of ?t] Cons.prems(2) by auto
    then show ?thesis using e False Cons.prems(2) by (auto simp: hdel_def)
  qed
qed simp

lemma logout_all_law:
  assumes H: "\<And>t. I t \<Longrightarrow> htable_inv N bucket t" and t: "I t"
    and I: "\<And>t a e. I t \<Longrightarrow> heap t a = Some e \<Longrightarrow> \<not> on e \<Longrightarrow> I (hdel (bucket e) a t)"
  shows "\<exists>u. logout_all N on t = Some u \<and> I u \<and>
    (\<forall>a. heap u a = (case heap t a of None \<Rightarrow> None | Some e \<Rightarrow> if on e then Some e else None))"
proof -
  define Q where "Q ds u \<longleftrightarrow> I u \<and> (\<forall>c. c \<notin> set ds \<longrightarrow> chain u c = chain t c) \<and>
    (\<forall>a. heap u a = (if (\<exists>c \<in> set ds. a \<in> set (chain t c)) \<and> \<not> on (the (heap t a)) then None else heap t a))"
    for ds u
  have step: "\<exists>u. logout_chain on b (chain s b) s = Some u \<and> Q (ds @ [b]) u"
    if q: "Q ds s" and b: "b \<in> set [0..<N]" "b \<notin> set ds" for ds b s
  proof -
    have bN: "b < N" using b by simp
    have s: "I s" "chain s b = chain t b" using q b by (simp_all add: Q_def)
    note D = H [OF s(1)] H [OF t]
    have new: "c \<noteq> b" if "c \<in> set ds" for c using that b by auto
    have hs: "heap s a = heap t a" if "a \<in> set (chain t b)" for a
    proof -
      have "a \<in> dom (heap s)" using chain_in_heap [OF D(1) bN] s(2) that by auto
      then show ?thesis using q by (auto simp: Q_def split: if_splits)
    qed
    obtain u where u: "logout_chain on b (chain s b) s = Some u" "I u" "\<forall>c. c \<noteq> b \<longrightarrow> chain u c = chain s c"
      "\<forall>a. heap u a = (if a \<in> set (chain s b) \<and> \<not> on (the (heap s a)) then None else heap s a)"
    proof -
      have "\<exists>u. logout_chain on b (chain s b) s = Some u \<and> I u \<and> (\<forall>c. c \<noteq> b \<longrightarrow> chain u c = chain s c) \<and>
        (\<forall>a. heap u a = (if a \<in> set (chain s b) \<and> \<not> on (the (heap s a)) then None else heap s a))"
      proof (rule logout_chain_law)
        fix t a e assume x: "I t" "heap t a = Some e" "a \<in> set (chain t b)" "\<not> on e"
        then have "bucket e = b" using htable_invD(3) [OF H [OF x(1)] bN x(3)] by simp
        then show "I (hdel b a t)" using I x by blast
      qed (use s chain_distinct [OF D(1) bN] chain_in_heap [OF D(1) bN] in simp_all)
      then show thesis using that by blast
    qed
    have "heap u a = (if (\<exists>c \<in> set (ds @ [b]). a \<in> set (chain t c)) \<and> \<not> on (the (heap t a)) then None else heap t a)" for a
      using u(4) q hs [of a] s(2) by (auto simp: Q_def)
    then show ?thesis using u(1-3) q by (auto simp: Q_def)
  qed
  have "Q [] t" using t by (simp add: Q_def)
  then obtain u where u: "logout_all N on t = Some u" "Q [0..<N] u"
    using each_bucket_rule [of Q "[]" t "[0..<N]" "\<lambda>b t. logout_chain on b (chain t b) t", OF _ _ step]
    unfolding logout_all_def by auto
  have "heap u a = (case heap t a of None \<Rightarrow> None | Some e \<Rightarrow> if on e then Some e else None)" for a
  proof (cases "heap t a")
    case (Some e)
    have "\<exists>c \<in> {0..<N}. a \<in> set (chain t c)"
      using heap_in_chain [OF H [OF t] Some] by (intro bexI [of _ "bucket e"]) auto
    then show ?thesis using u(2) Some by (simp add: Q_def)
  qed (use u(2) in \<open>simp add: Q_def\<close>)
  then show ?thesis using u by (auto simp: Q_def)
qed

section \<open>Aging\<close>

text \<open>What one aging pass makes of a connection.\<close>

definition aged :: "tcp_conn \<Rightarrow> tcp_conn option" where
  "aged c = (if sint (conn_timeout c) < 0 then Some c
     else if sint (conn_timeout c) \<le> 1 then None
     else Some (c\<lparr>conn_timeout := conn_timeout c - 1\<rparr>))"

text \<open>No connection refers to a freed socket.\<close>

definition refs_ok :: "tcp_tables \<Rightarrow> bool" where
  "refs_ok T \<longleftrightarrow> (\<forall>a c sa. heap (ct T) a = Some c \<longrightarrow> conn_sock c = Some sa \<longrightarrow> heap (st T) sa \<noteq> None)"

definition aging_inv :: "ltran_env \<Rightarrow> (nat \<Rightarrow> i32) \<Rightarrow> tcp_tables \<Rightarrow> bool" where
  "aging_inv E ticks T \<longleftrightarrow> conn_inv (jh E) ticks (ct T) \<and>
     htable_inv sock_htable_size (sock_bucket (jh E)) (st T) \<and> refs_ok T"

lemma timeout_dec: "0 \<le> sint (x :: 16 word) \<Longrightarrow> sint (x - 1) = sint x - 1"
proof -
  assume "0 \<le> sint x"
  moreover have "sint x < 2 ^ 15" using sint_lt [of x] by simp
  ultimately show ?thesis by (simp add: sint_word_ariths signed_take_bit_int_eq_self)
qed

lemma conn_hset_inv:
  assumes "conn_inv J ticks t" and "heap t a = Some c" and "conn_key d = conn_key c"
    and "conn_on ticks d \<Longrightarrow> conn_on ticks c"
  shows "conn_inv J ticks (hset a d t)"
  using hset_table_inv [OF assms(1) [unfolded conn_inv_def] assms(2,3)]
    table_invD(3) [OF assms(1) [unfolded conn_inv_def] assms(2)] assms(4)
  unfolding conn_inv_def by blast

lemma conn_hdel_inv:
  assumes inv: "conn_inv J ticks t" and c: "heap t a = Some c"
  shows "conn_inv J ticks (hdel (gazelle_conn_hbucket_get J (conn_key c)) a t)"
proof (cases "conn_on ticks c")
  case True
  from table_invD(3) [OF inv [unfolded conn_inv_def] c True]
  show ?thesis using inv unfolding conn_inv_def by (intro hdel_table_inv(1))
next
  case False
  then show ?thesis using hdel_dead_table_inv [OF inv [unfolded conn_inv_def] c] by (simp add: conn_inv_def)
qed

definition uncount :: "addr \<Rightarrow> tcp_conn \<Rightarrow> u32" where
  "uncount sa c = (if aged c = None \<and> conn_sock c = Some sa then 1 else 0)"

lemma aging_step_law:
  assumes inv: "aging_inv E ticks T" and c: "heap (ct T) a = Some c"
    and b: "b = gazelle_conn_hbucket_get (jh E) (conn_key c)"
  shows "\<exists>U. aging_step b a T = Some U \<and> aging_inv E ticks U \<and> mlock U = mlock T \<and>
    (\<forall>d. d \<noteq> b \<longrightarrow> chain (ct U) d = chain (ct T) d) \<and>
    heap (ct U) = (heap (ct T))(a := aged c) \<and>
    (\<forall>sa. heap (st U) sa = map_option (\<lambda>s. s\<lparr>tcp_con_num := tcp_con_num s - uncount sa c\<rparr>) (heap (st T) sa))"
proof -
  have C: "conn_inv (jh E) ticks (ct T)" and S: "htable_inv sock_htable_size (sock_bucket (jh E)) (st T)"
    and R: "refs_ok T" using inv by (auto simp: aging_inv_def)
  let ?d = "c\<lparr>conn_timeout := conn_timeout c - 1\<rparr>"
  have on: "conn_on ticks ?d = conn_on ticks c" by (simp add: conn_on_def)
  have C1: "conn_inv (jh E) ticks (hset a ?d (ct T))"
    by (rule conn_hset_inv [OF C c]) (simp_all add: on)
  have c1: "heap (hset a ?d (ct T)) a = Some ?d" by (simp add: hset_def)
  consider "sint (conn_timeout c) < 0" | "0 \<le> sint (conn_timeout c)" "1 < sint (conn_timeout c)"
    | "0 \<le> sint (conn_timeout c)" "sint (conn_timeout c) \<le> 1" by linarith
  then show ?thesis
  proof cases
    case 1
    then have "aging_step b a T = Some T" "aged c = Some c" using c by (simp_all add: aging_step_def aged_def)
    then show ?thesis using inv c by (auto simp: uncount_def option.map_ident)
  next
    case 2
    let ?U = "T\<lparr>ct := hset a ?d (ct T)\<rparr>"
    have "aging_step b a T = Some ?U" "aged c = Some ?d"
      using c 2 timeout_dec [OF 2(1)] by (simp_all add: aging_step_def aged_def Let_def)
    moreover have "aging_inv E ticks ?U"
      using C1 S R c by (auto simp: aging_inv_def refs_ok_def hset_def split: if_splits)
    ultimately show ?thesis by (auto simp: uncount_def hset_def option.map_ident)
  next
    case 3
    let ?t = "hdel b a (hset a ?d (ct T))"
    have C2: "conn_inv (jh E) ticks ?t" using conn_hdel_inv [OF C1 c1] b by simp
    have h: "heap ?t = (heap (ct T))(a := None)" by (auto simp: hdel_def hset_def)
    have ch: "\<forall>d. d \<noteq> b \<longrightarrow> chain ?t d = chain (ct T) d" by (simp add: hdel_def hset_def)
    have ag: "aged c = None" using 3 by (simp add: aged_def)
    have t: "\<not> 0 < sint (conn_timeout c - 1)" using 3 timeout_dec [OF 3(1)] by simp
    show ?thesis
    proof (cases "conn_sock c")
      case None
      let ?U = "T\<lparr>ct := ?t\<rparr>"
      have "aging_step b a T = Some ?U" using c 3 t None by (simp add: aging_step_def Let_def)
      moreover have "aging_inv E ticks ?U" using C2 S R h by (auto simp: aging_inv_def refs_ok_def split: if_splits)
      ultimately show ?thesis using None ag h ch by (auto simp: uncount_def option.map_ident)
    next
      case (Some sa)
      have "heap (st T) sa \<noteq> None" using R c Some unfolding refs_ok_def by blast
      then obtain s where s: "heap (st T) sa = Some s" by blast
      let ?s = "s\<lparr>tcp_con_num := tcp_con_num s - 1\<rparr>"
      let ?U = "T\<lparr>ct := ?t, st := hset sa ?s (st T)\<rparr>"
      have "aging_step b a T = Some ?U" using c 3 t Some s by (simp add: aging_step_def Let_def)
      moreover have "htable_inv sock_htable_size (sock_bucket (jh E)) (hset sa ?s (st T))"
        using hset_inv [OF S s, of ?s] by (simp add: sock_bucket_def)
      then have "aging_inv E ticks ?U" using C2 R h by (auto simp: aging_inv_def refs_ok_def hset_def split: if_splits)
      moreover have "heap (st ?U) x = map_option (\<lambda>s. s\<lparr>tcp_con_num := tcp_con_num s - uncount x c\<rparr>) (heap (st T) x)" for x
        using Some s ag by (auto simp: uncount_def hset_def option.map_ident)
      ultimately show ?thesis using ag h ch by (intro exI [of _ ?U]) auto
    qed
  qed
qed

text \<open>The pass over all buckets is a walk over the entries the table had at its start.\<close>

fun aging_list :: "(nat \<times> addr) list \<Rightarrow> tcp_tables \<Rightarrow> tcp_tables option" where
  "aging_list [] T = Some T"
| "aging_list ((b, a) # xs) T = (case aging_step b a T of None \<Rightarrow> None | Some U \<Rightarrow> aging_list xs U)"

definition uncounts :: "(addr \<rightharpoonup> tcp_conn) \<Rightarrow> addr \<Rightarrow> (nat \<times> addr) list \<Rightarrow> u32" where
  "uncounts h sa xs = sum_list (map (\<lambda>(b, a). uncount sa (the (h a))) xs)"

definition homes :: "jhash \<Rightarrow> (addr \<rightharpoonup> tcp_conn) \<Rightarrow> (nat \<times> addr) list \<Rightarrow> bool" where
  "homes J h xs \<longleftrightarrow> distinct (map snd xs) \<and>
     (\<forall>(b, a) \<in> set xs. \<exists>c. h a = Some c \<and> b = gazelle_conn_hbucket_get J (conn_key c))"

lemma aging_list_law:
  "aging_inv E ticks T \<Longrightarrow> homes (jh E) (heap (ct T)) xs \<Longrightarrow>
   \<exists>U. aging_list xs T = Some U \<and> aging_inv E ticks U \<and> mlock U = mlock T \<and>
    (\<forall>d. d \<notin> fst ` set xs \<longrightarrow> chain (ct U) d = chain (ct T) d) \<and>
    (\<forall>a. heap (ct U) a = (if a \<in> snd ` set xs then aged (the (heap (ct T) a)) else heap (ct T) a)) \<and>
    (\<forall>sa. heap (st U) sa =
       map_option (\<lambda>s. s\<lparr>tcp_con_num := tcp_con_num s - uncounts (heap (ct T)) sa xs\<rparr>) (heap (st T) sa))"
proof (induction xs arbitrary: T)
  case Nil
  then show ?case by (auto simp: uncounts_def option.map_ident)
next
  case (Cons x xs)
  obtain b a where x: "x = (b, a)" by fastforce
  obtain c where c: "heap (ct T) a = Some c" "b = gazelle_conn_hbucket_get (jh E) (conn_key c)"
    and d: "a \<notin> snd ` set xs" using Cons.prems(2) x by (auto simp: homes_def)
  obtain U where U: "aging_step b a T = Some U" "aging_inv E ticks U" "mlock U = mlock T"
      "\<forall>d. d \<noteq> b \<longrightarrow> chain (ct U) d = chain (ct T) d" "heap (ct U) = (heap (ct T))(a := aged c)"
      "\<forall>sa. heap (st U) sa = map_option (\<lambda>s. s\<lparr>tcp_con_num := tcp_con_num s - uncount sa c\<rparr>) (heap (st T) sa)"
    using aging_step_law [OF Cons.prems(1) c] by blast
  have same: "heap (ct U) y = heap (ct T) y" if "y \<in> snd ` set xs" for y using U(5) d that by auto
  have h: "homes (jh E) (heap (ct U)) xs"
    unfolding homes_def
  proof (intro conjI ballI, goal_cases)
    case 1
    then show ?case using Cons.prems(2) x by (simp add: homes_def)
  next
    case (2 p)
    then show ?case using Cons.prems(2) x same [of "snd p"] by (auto simp: homes_def)
  qed
  have un: "uncounts (heap (ct U)) sa xs = uncounts (heap (ct T)) sa xs" for sa
    unfolding uncounts_def by (rule arg_cong [of _ _ sum_list], rule map_cong) (auto simp: same rev_image_eqI)
  obtain V where V: "aging_list xs U = Some V" "aging_inv E ticks V" "mlock V = mlock U"
      "\<forall>d. d \<notin> fst ` set xs \<longrightarrow> chain (ct V) d = chain (ct U) d"
      "\<forall>a. heap (ct V) a = (if a \<in> snd ` set xs then aged (the (heap (ct U) a)) else heap (ct U) a)"
      "\<forall>sa. heap (st V) sa = map_option (\<lambda>s. s\<lparr>tcp_con_num := tcp_con_num s - uncounts (heap (ct U)) sa xs\<rparr>) (heap (st U) sa)"
    using Cons.IH [OF U(2) h] by blast
  have "aging_list (x # xs) T = Some V" using x U(1) V(1) by simp
  moreover have "\<forall>d. d \<notin> fst ` set (x # xs) \<longrightarrow> chain (ct V) d = chain (ct T) d" using V(4) U(4) x by auto
  moreover have "heap (ct V) y = (if y \<in> snd ` set (x # xs) then aged (the (heap (ct T) y)) else heap (ct T) y)" for y
    using V(5) U(5) c x d same [of y] by auto
  moreover have "heap (st V) sa = map_option (\<lambda>s. s\<lparr>tcp_con_num := tcp_con_num s - uncounts (heap (ct T)) sa (x # xs)\<rparr>) (heap (st T) sa)" for sa
  proof -
    have "uncounts (heap (ct T)) sa (x # xs) = uncount sa c + uncounts (heap (ct T)) sa xs"
      using x c by (simp add: uncounts_def)
    then show ?thesis using V(6) U(6) un
      by (cases "heap (st T) sa") (simp_all add: algebra_simps)
  qed
  ultimately show ?case using V(2,3) U(3) by auto
qed

lemma aging_list_append:
  "aging_list (xs @ ys) T = (case aging_list xs T of None \<Rightarrow> None | Some U \<Rightarrow> aging_list ys U)"
  by (induction xs T rule: aging_list.induct) (auto split: option.splits)

lemma aging_chain_list: "aging_chain b as T = aging_list (map (Pair b) as) T"
  by (induction as arbitrary: T) (auto split: option.splits)

definition placed :: "nat list \<Rightarrow> 'e htable \<Rightarrow> (nat \<times> addr) list" where
  "placed bs t = concat (map (\<lambda>b. map (Pair b) (chain t b)) bs)"

lemma snd_placed: "map snd (placed bs t) = concat (map (chain t) bs)"
  by (induction bs) (simp_all add: placed_def comp_def)

lemma placed_homes:
  assumes "conn_inv J ticks t" and "distinct bs" and "set bs \<subseteq> {..<conn_htable_size}"
  shows "homes J (heap t) (placed bs t)"
proof -
  note I = table_invD [OF assms(1) [unfolded conn_inv_def]]
  have "distinct (concat (map (chain t) bs))"
    using assms(2,3)
  proof (induction bs)
    case (Cons b bs)
    have "a \<notin> set (chain t d)" if "a \<in> set (chain t b)" "d \<in> set bs" for a d
    proof
      assume "a \<in> set (chain t d)"
      moreover have "d < conn_htable_size" "b < conn_htable_size" "d \<noteq> b" using Cons.prems that by auto
      ultimately show False
        using htable_invD(3) [OF I(1), of d a] htable_invD(3) [OF I(1), of b a] that(1) by simp
    qed
    then have "set (chain t b) \<inter> set (concat (map (chain t) bs)) = {}" by auto
    then show ?case using Cons chain_distinct [OF I(1), of b] by simp
  qed simp
  moreover have "\<exists>c. heap t a = Some c \<and> b = gazelle_conn_hbucket_get J (conn_key c)"
    if "(b, a) \<in> set (placed bs t)" for b a
  proof -
    have b: "b < conn_htable_size" "a \<in> set (chain t b)" using that assms(3) by (auto simp: placed_def)
    then obtain c where "heap t a = Some c" using chain_in_heap [OF I(1) b(1)] by auto
    then show ?thesis using htable_invD(3) [OF I(1) b] by auto
  qed
  ultimately show ?thesis by (auto simp: homes_def snd_placed)
qed

lemma aging_buckets:
  assumes "aging_inv E ticks T" and "distinct bs" and "set bs \<subseteq> {..<conn_htable_size}"
  shows "each_bucket (\<lambda>b T. aging_chain b (chain (ct T) b) T) bs T = aging_list (placed bs (ct T)) T"
  using assms
proof (induction bs arbitrary: T)
  case (Cons b bs)
  let ?xs = "map (Pair b) (chain (ct T) b)"
  have "homes (jh E) (heap (ct T)) (placed [b] (ct T))"
    using Cons.prems by (intro placed_homes [of _ ticks]) (auto simp: aging_inv_def)
  then have h: "homes (jh E) (heap (ct T)) ?xs" by (simp add: placed_def)
  obtain U where U: "aging_list ?xs T = Some U" "aging_inv E ticks U"
      "\<forall>d. d \<notin> fst ` set ?xs \<longrightarrow> chain (ct U) d = chain (ct T) d"
    using aging_list_law [OF Cons.prems(1) h] by blast
  have "chain (ct U) d = chain (ct T) d" if "d \<in> set bs" for d
    using U(3) that Cons.prems(2) by (auto simp: image_iff)
  then have "placed bs (ct U) = placed bs (ct T)"
    unfolding placed_def by (intro arg_cong [of _ _ concat] map_cong) auto
  moreover have "placed (b # bs) (ct T) = ?xs @ placed bs (ct T)" by (simp add: placed_def)
  ultimately show ?case
    using Cons.IH [OF U(2)] Cons.prems U(1) by (simp add: aging_chain_list aging_list_append)
qed (simp add: placed_def)

lemma aging_law:
  assumes inv: "aging_inv E ticks T" and l: "\<not> mlock T"
  shows "\<exists>U. gazelle_delete_aging_conn T = Some U \<and> aging_inv E ticks U \<and> \<not> mlock U \<and>
    (\<forall>a. heap (ct U) a = Option.bind (heap (ct T) a) aged) \<and>
    (\<forall>sa. heap (st U) sa = map_option (\<lambda>s. s\<lparr>tcp_con_num := tcp_con_num s -
        uncounts (heap (ct T)) sa (placed [0..<conn_htable_size] (ct T))\<rparr>) (heap (st T) sa))"
proof -
  let ?xs = "placed [0..<conn_htable_size] (ct T)"
  have C: "conn_inv (jh E) ticks (ct T)" using inv by (simp add: aging_inv_def)
  note I = table_invD [OF C [unfolded conn_inv_def]]
  have h: "homes (jh E) (heap (ct T)) ?xs" by (rule placed_homes [OF C]) auto
  have e: "gazelle_delete_aging_conn T = aging_list ?xs T"
  proof -
    have "set [0..<conn_htable_size] \<subseteq> {..<conn_htable_size}" by auto
    from aging_buckets [OF inv distinct_upt this] show ?thesis
      using l by (simp add: gazelle_delete_aging_conn_def)
  qed
  have "set (map snd ?xs) = dom (heap (ct T))"
    unfolding snd_placed using htable_invD(2) [OF I(1)] by (simp add: entries_def)
  then have s: "snd ` set ?xs = dom (heap (ct T))" by simp
  obtain U where U: "aging_list ?xs T = Some U" "aging_inv E ticks U" "mlock U = mlock T"
    "\<forall>a. heap (ct U) a = (if a \<in> snd ` set ?xs then aged (the (heap (ct T) a)) else heap (ct T) a)"
    "\<forall>sa. heap (st U) sa = map_option (\<lambda>s. s\<lparr>tcp_con_num := tcp_con_num s - uncounts (heap (ct T)) sa ?xs\<rparr>) (heap (st T) sa)"
    using aging_list_law [OF inv h] by blast
  have "heap (ct U) a = Option.bind (heap (ct T) a) aged" for a
    using U(4) unfolding s by (cases "heap (ct T) a") (auto simp: domIff)
  then show ?thesis using e U l by auto
qed

end
