(* ===== verification/Ltran_Instance.thy ===== *)
theory Ltran_Instance
  imports Ltran_Tcp
begin

text \<open>
  The registration of processes with ltran (\<open>src/ltran/ltran_instance.c\<close>): the table of
  instances, the reservation of address space, the three registration messages and the logout,
  with the tick counters that switch all entries of an instance on and off at once. The control
  thread runs these handlers one after the other.

  Parameters: the configuration, what the allocators, \<open>mmap\<close>, the page size, the safe string
  functions of securec, DPDK's secondary attach and detach and the socket writes return.
\<close>

section \<open>State\<close>

datatype request_type = Rqt_check | Rqt_stop | Rqt_reg_proc_mem | Rqt_reg_proc_att | Rqt_reg_thrd_ring | Rqt_max

datatype response_type = Rsp_ok | Rsp_err | Rsp_max

record ltran_conf =
  num_clients :: u8
  ipv4_subnet_addr :: u32
  ipv4_net_mask :: u32
  ipv4_subnet_size :: i32
  bond_mac :: "nat \<Rightarrow> nat \<Rightarrow> u8"
  conf_rx_offload :: u64
  conf_tx_offload :: u64

record client_proc_conf =
  proc_pid :: u32
  proc_base_virtaddr :: u64
  proc_socket_size :: u64
  proc_file_prefix :: string
  proc_mac_addr :: "nat \<Rightarrow> u8"
  proc_ipv4 :: u32
  proc_argv :: "string list"
  proc_argc :: u32

record client_thrd_conf =
  thrd_tid :: u32
  thrd_pid :: u32
  thrd_reg_ring :: "addr option"
  thrd_tx_ring :: "addr option"
  thrd_rx_ring :: "addr option"

record gazelle_instance =
  inst_pid :: u32
  inst_ip :: u32
  inst_cur_tick :: nat \<comment> \<open>index of the counter it points to\<close>
  inst_reg_tick :: i32
  stack_cnt :: u32
  stack_array :: "nat \<Rightarrow> addr option"
  inst_sockfd :: i32
  reg_state :: request_type
  base_virtaddr :: u64
  socket_size :: u64
  inst_mac :: "nat \<Rightarrow> u8"
  inst_file_prefix :: string

record gazelle_instance_mgr =
  cur_instance_num :: u32
  max_instance_num :: u32
  instance_cur_tick :: "nat \<Rightarrow> i32"
  instances :: "nat \<Rightarrow> addr option"
  net_mask :: u32
  subnet_size :: u32

text \<open>
  The control thread's state: the manager, the instances it allocated, the stack table, the next
  address \<open>get_virtual_area\<close> will try, the reservations in force and the responses sent.
\<close>

record ltran_ctl =
  mgr :: gazelle_instance_mgr
  insts :: "addr \<rightharpoonup> gazelle_instance"
  stacks :: "gazelle_stack htable"
  next_addr :: u64
  reserved :: "(u64 \<times> u64) list"
  responses :: "(i32 \<times> response_type \<times> u64 \<times> u64) list"

record ctl_env =
  conf :: ltran_conf
  hash :: jhash
  cursor :: "addr list \<Rightarrow> addr option"
  new_inst :: "(addr \<rightharpoonup> gazelle_instance) \<Rightarrow> addr option"
  new_stk :: "gazelle_stack htable \<Rightarrow> addr option"
  mmap :: "u64 \<Rightarrow> u64 \<Rightarrow> u64 option"
  page_sz :: u64
  securec_ok :: "nat \<Rightarrow> bool"
  sec_attach_ok :: bool
  write_ok :: bool

definition gazelle_max_instance_num :: nat where "gazelle_max_instance_num = 32"
definition gazelle_max_stack_array_size :: nat where "gazelle_max_stack_array_size = 32"
definition null_client_ip :: u32 where "null_client_ip = - 1"

text \<open>\<open>ntohl\<close> and \<open>htonl\<close> on a little-endian machine.\<close>

definition ntohl :: "u32 \<Rightarrow> u32" where
  "ntohl x = push_bit 24 (x AND 0xff) OR push_bit 8 (x AND 0xff00) OR
     drop_bit 8 (x AND 0xff0000) OR drop_bit 24 (x AND 0xff000000)"

section \<open>The instance table\<close>

definition gazelle_instance_mgr_create :: "bool \<Rightarrow> ltran_conf \<Rightarrow> gazelle_instance_mgr option" where
  "gazelle_instance_mgr_create calloc_ok c =
     (if \<not> calloc_ok then None
      else Some \<lparr>cur_instance_num = 0, max_instance_num = ucast (num_clients c), instance_cur_tick = (\<lambda>_. 0),
        instances = (\<lambda>_. None), net_mask = ntohl (ipv4_net_mask c), subnet_size = ipv4_subnet_size c\<rparr>)"

text \<open>The file prefixes detached, in order, and the instances left allocated.\<close>

fun mgr_destroy_slots :: "(addr \<rightharpoonup> gazelle_instance) \<Rightarrow> (nat \<Rightarrow> addr option) \<Rightarrow> nat list \<Rightarrow>
  (string list \<times> (addr \<rightharpoonup> gazelle_instance)) option" where
  "mgr_destroy_slots h slots [] = Some ([], h)"
| "mgr_destroy_slots h slots (i # is) =
     (case slots i of
        None \<Rightarrow> mgr_destroy_slots h slots is
      | Some a \<Rightarrow> (case h a of None \<Rightarrow> None
          | Some inst \<Rightarrow> (case mgr_destroy_slots (h(a := None)) slots is of None \<Rightarrow> None
              | Some (ps, u) \<Rightarrow> Some (inst_file_prefix inst # ps, u))))"

definition gazelle_instance_mgr_destroy ::
  "gazelle_instance_mgr option \<Rightarrow> (addr \<rightharpoonup> gazelle_instance) \<Rightarrow> (string list \<times> (addr \<rightharpoonup> gazelle_instance)) option" where
  "gazelle_instance_mgr_destroy m h =
     (case m of None \<Rightarrow> Some ([], h) | Some m \<Rightarrow> mgr_destroy_slots h (instances m) [0..<gazelle_max_instance_num])"

fun scan_slots :: "(gazelle_instance \<Rightarrow> bool) \<Rightarrow> (addr \<rightharpoonup> gazelle_instance) \<Rightarrow> (nat \<Rightarrow> addr option) \<Rightarrow> nat list \<Rightarrow>
  nat option option" where
  "scan_slots P h slots [] = Some None"
| "scan_slots P h slots (i # is) =
     (case slots i of
        None \<Rightarrow> scan_slots P h slots is
      | Some a \<Rightarrow> (case h a of None \<Rightarrow> None
          | Some inst \<Rightarrow> if P inst then Some (Some i) else scan_slots P h slots is))"

definition gazelle_instance_get_by_ip :: "ltran_ctl \<Rightarrow> u32 \<Rightarrow> addr option option" where
  "gazelle_instance_get_by_ip C ip = do {
     i \<leftarrow> scan_slots (\<lambda>x. inst_ip x = ip) (insts C) (instances (mgr C)) [0..<gazelle_max_instance_num];
     Some (Option.bind i (instances (mgr C)))}"

definition gazelle_instance_get_by_pid :: "ltran_ctl \<Rightarrow> u32 \<Rightarrow> addr option option" where
  "gazelle_instance_get_by_pid C pid = do {
     i \<leftarrow> scan_slots (\<lambda>x. inst_pid x = pid) (insts C) (instances (mgr C)) [0..<gazelle_max_instance_num];
     Some (Option.bind i (instances (mgr C)))}"

definition fresh_instance :: gazelle_instance where
  "fresh_instance = \<lparr>inst_pid = 0, inst_ip = 0, inst_cur_tick = 0, inst_reg_tick = 0, stack_cnt = 0,
     stack_array = (\<lambda>_. None), inst_sockfd = 0, reg_state = Rqt_check, base_virtaddr = 0, socket_size = 0,
     inst_mac = (\<lambda>_. 0), inst_file_prefix = []\<rparr>"

definition gazelle_instance_add_by_pid :: "ctl_env \<Rightarrow> ltran_ctl \<Rightarrow> u32 \<Rightarrow> (addr option \<times> ltran_ctl) option" where
  "gazelle_instance_add_by_pid E C pid = do {
     found \<leftarrow> gazelle_instance_get_by_pid C pid;
     (case found of
        Some a \<Rightarrow> Some (Some a, C)
      | None \<Rightarrow>
          let m = mgr C in
          if cur_instance_num m \<ge> max_instance_num m then Some (None, C)
          else (case find (\<lambda>i. instances m i = None) [0..<gazelle_max_instance_num] of
            None \<Rightarrow> Some (None, C)
          | Some i \<Rightarrow> (case new_inst E (insts C) of
              None \<Rightarrow> Some (None, C)
            | Some a \<Rightarrow>
                let tick = instance_cur_tick m i + 1;
                    inst = fresh_instance\<lparr>inst_pid := pid, inst_reg_tick := tick - 1, inst_cur_tick := i\<rparr>
                in Some (Some a, C\<lparr>insts := (insts C)(a \<mapsto> inst),
                     mgr := m\<lparr>instance_cur_tick := (instance_cur_tick m)(i := tick),
                             instances := (instances m)(i := Some a), cur_instance_num := cur_instance_num m + 1\<rparr>\<rparr>))))}"

definition gazelle_set_instance_null_by_pid :: "ltran_ctl \<Rightarrow> u32 \<Rightarrow> ltran_ctl option" where
  "gazelle_set_instance_null_by_pid C pid = do {
     i \<leftarrow> scan_slots (\<lambda>x. inst_pid x = pid) (insts C) (instances (mgr C)) [0..<gazelle_max_instance_num];
     (case i of
        None \<Rightarrow> Some C
      | Some i \<Rightarrow> Some (C\<lparr>mgr := (mgr C)\<lparr>cur_instance_num := cur_instance_num (mgr C) - 1,
                             instances := (instances (mgr C))(i := None)\<rparr>\<rparr>))}"

section \<open>Checks\<close>

text \<open>\<open>strncpy_s\<close>, \<open>memset_s\<close> and \<open>memcpy_s\<close> in this order; a failure returns at once.\<close>

definition instance_info_set :: "ctl_env \<Rightarrow> gazelle_instance \<Rightarrow> client_proc_conf \<Rightarrow> bool \<times> gazelle_instance" where
  "instance_info_set E inst c =
     (let inst = inst\<lparr>inst_ip := proc_ipv4 c, inst_pid := proc_pid c, base_virtaddr := proc_base_virtaddr c,
                     socket_size := proc_socket_size c, stack_cnt := 0\<rparr>
      in if \<not> securec_ok E 0 then (False, inst)
         else let inst = inst\<lparr>inst_file_prefix := proc_file_prefix c\<rparr>
         in if \<not> securec_ok E 1 then (False, inst)
         else let inst = inst\<lparr>stack_array := (\<lambda>_. None)\<rparr>
         in if \<not> securec_ok E 2 then (False, inst)
         else (True, inst\<lparr>inst_mac := proc_mac_addr c\<rparr>))"

definition is_same_mac_addr :: "(nat \<Rightarrow> u8) \<Rightarrow> (nat \<Rightarrow> u8) \<Rightarrow> bool" where
  "is_same_mac_addr smac dmac \<longleftrightarrow> list_all (\<lambda>i. smac i = dmac i) [0..<6]"

definition instance_match_bond_port :: "ltran_conf \<Rightarrow> (nat \<Rightarrow> u8) \<Rightarrow> int" where
  "instance_match_bond_port c mac =
     (case find (\<lambda>i. is_same_mac_addr mac (bond_mac c i)) [0..<2] of Some i \<Rightarrow> int i | None \<Rightarrow> - 1)"

definition instance_info_check :: "ctl_env \<Rightarrow> ltran_ctl \<Rightarrow> client_proc_conf \<Rightarrow> bool option" where
  "instance_info_check E C c =
     (let in_ipv4 = ntohl (proc_ipv4 c); mask = ipv4_net_mask (conf E) in
      if in_ipv4 = null_client_ip then Some False
      else if in_ipv4 AND mask = null_client_ip AND mask then Some False
      else if in_ipv4 AND mask = 0 then Some False
      else if in_ipv4 AND NOT mask \<noteq> ipv4_subnet_addr (conf E) then Some False
      else do {
        found \<leftarrow> gazelle_instance_get_by_pid C (proc_pid c);
        Some (if found \<noteq> None then False else instance_match_bond_port (conf E) (proc_mac_addr c) \<ge> 0)})"

section \<open>Address space\<close>

definition map_addr_tail :: u64 where "map_addr_tail = 0x7fffffffff"
definition map_addr_head :: u64 where "map_addr_head = 0x1000000000"
definition map_reserve_size :: u64 where "map_reserve_size = 0x8000000"
definition max_hugepage_size :: u64 where "max_hugepage_size = 0x40000000"
definition map_addr_step :: u64 where "map_addr_step = 0x8000000"

definition map_size_align :: "u64 \<Rightarrow> u64 \<Rightarrow> u64" where
  "map_size_align sz pg =
     (let map_size = map_reserve_size + sz;
          map_size = (map_size div max_hugepage_size + 1) * max_hugepage_size;
          map_size = (if pg > 0 then (map_size div pg + 1) * pg else map_size)
      in if map_size < sz then sz else map_size)"

text \<open>DPDK's \<open>RTE_PTR_ALIGN\<close>: up to the next multiple of a power of two.\<close>

definition ptr_align :: "u64 \<Rightarrow> u64 \<Rightarrow> u64" where
  "ptr_align p a = (p + (a - 1)) AND NOT (a - 1)"

text \<open>
  The search of \<open>get_virtual_area\<close> when the caller names no address. At the start of a round
  the address tried is \<open>next_addr\<close>. The result is \<open>Some\<close> of what \<open>mmap\<close> gave, \<open>None\<close> when it
  failed or the range is exhausted, with \<open>next_addr\<close> at the end.
\<close>

function va_search :: "(u64 \<Rightarrow> u64 \<Rightarrow> u64 option) \<Rightarrow> u64 \<Rightarrow> u64 \<Rightarrow> bool \<Rightarrow> u64 \<Rightarrow> u64 option \<times> u64" where
  "va_search mm map_size pg try_flags nxt =
     (let wrap = nxt \<ge> map_addr_tail;
          try_flags = (try_flags \<or> wrap);
          map_head = ptr_align (if wrap then map_addr_head else nxt) pg
      in case mm map_head map_size of
           None \<Rightarrow> (None, nxt)
         | Some map_addr \<Rightarrow>
             if map_addr = map_head then (Some map_addr, map_addr + map_size)
             else let nxt = nxt + map_addr_step in
               if \<not> try_flags \<or> nxt < map_addr_tail then va_search mm map_size pg try_flags nxt
               else (None, nxt))"
  by pat_completeness auto

definition va_measure :: "bool \<Rightarrow> u64 \<Rightarrow> nat" where
  "va_measure tried n = (if tried then 0 else 2 ^ 66) +
     (if n \<ge> map_addr_tail then (if tried then 2 ^ 64 else 0) else unat map_addr_tail - unat n)"

lemma va_measure_less:
  assumes "tried' = (tried \<or> n \<ge> map_addr_tail)" and "\<not> tried' \<or> n + map_addr_step < map_addr_tail"
  shows "va_measure tried' (n + map_addr_step) < va_measure tried n"
proof -
  have T: "unat map_addr_tail = 0x7fffffffff" and S: "unat map_addr_step = 0x8000000"
    by (simp_all add: map_addr_tail_def map_addr_step_def)
  have N: "unat (n + map_addr_step) = unat n + 0x8000000" if "n < map_addr_tail"
    using that T S by (simp add: word_less_nat_alt unat_plus_small)
  show ?thesis
    using assms T N unfolding va_measure_def by (auto simp: word_less_nat_alt word_le_nat_alt not_less)
qed

termination va_search
  by (relation "measure (\<lambda>(mm, ms, pg, tried, n). va_measure tried n)") (auto intro!: va_measure_less)

text \<open>
  \<open>get_virtual_area\<close>: a caller's address is tried once. The value is the area, \<open>None\<close> on failure,
  and the next address to try.
\<close>

definition get_virtual_area :: "ctl_env \<Rightarrow> u64 \<Rightarrow> u64 \<Rightarrow> u64 \<Rightarrow> (u64 \<times> u64) option \<times> u64" where
  "get_virtual_area E need_addr sz nxt =
     (if page_sz E = 0 then (None, nxt)
      else let map_size = map_size_align sz (page_sz E) in
        if need_addr \<noteq> 0 then
          (let map_head = ptr_align (if need_addr \<ge> map_addr_tail then map_addr_head else need_addr) (page_sz E)
           in case mmap E map_head map_size of
                None \<Rightarrow> (None, nxt)
              | Some a \<Rightarrow> if a = map_head \<and> a \<noteq> 0 then (Some (a, map_size), a + map_size)
                          else if a = map_head then (None, a + map_size) else (None, nxt))
        else (case va_search (mmap E) map_size (page_sz E) False nxt of
            (None, nxt) \<Rightarrow> (None, nxt)
          | (Some a, nxt) \<Rightarrow> (if a = 0 then None else Some (a, map_size), nxt)))"

definition remove_virtual_area :: "u64 \<Rightarrow> u64 \<Rightarrow> (u64 \<times> u64) list \<Rightarrow> (u64 \<times> u64) list" where
  "remove_virtual_area a sz areas = (if sz = 0 \<or> a = 0 then areas else remove1 (a, sz) areas)"

section \<open>The registration messages\<close>

definition simple_response :: "i32 \<Rightarrow> response_type \<Rightarrow> ltran_ctl \<Rightarrow> ltran_ctl" where
  "simple_response fd t C = C\<lparr>responses := responses C @ [(fd, t, 0, 0)]\<rparr>"

definition inst_upd :: "addr \<Rightarrow> (gazelle_instance \<Rightarrow> gazelle_instance) \<Rightarrow> ltran_ctl \<Rightarrow> ltran_ctl" where
  "inst_upd a f C = C\<lparr>insts := (insts C)(a := map_option f (insts C a))\<rparr>"

text \<open>The result is \<open>True\<close> for \<open>GAZELLE_OK\<close>.\<close>

definition handle_reg_msg_proc_mem :: "ctl_env \<Rightarrow> i32 \<Rightarrow> client_proc_conf \<Rightarrow> ltran_ctl \<Rightarrow> (bool \<times> ltran_ctl) option" where
  "handle_reg_msg_proc_mem E fd c C = do {
     ok \<leftarrow> instance_info_check E C c;
     (if \<not> ok then Some (False, simple_response fd Rsp_err C)
      else do {
        (inst, C) \<leftarrow> gazelle_instance_add_by_pid E C (proc_pid c);
        (case inst of
           None \<Rightarrow> Some (False, simple_response fd Rsp_err C)
         | Some a \<Rightarrow>
             let C = inst_upd a (\<lambda>x. x\<lparr>reg_state := Rqt_reg_proc_mem\<rparr>) C;
                 (area, nxt) = get_virtual_area E (proc_base_virtaddr c) (proc_socket_size c) (next_addr C);
                 C = C\<lparr>next_addr := nxt\<rparr>
             in (case area of
                   None \<Rightarrow> Some (False, simple_response fd Rsp_err C)
                 | Some (base, sz) \<Rightarrow> do {
                     let C = C\<lparr>reserved := (base, sz) # reserved C\<rparr>;
                     x \<leftarrow> insts C a;
                     let (set_ok, x) = instance_info_set E x (c\<lparr>proc_base_virtaddr := base, proc_socket_size := sz\<rparr>);
                     (if \<not> set_ok then Some (False, simple_response fd Rsp_err (inst_upd a (\<lambda>_. x) C))
                      else
                        let x = x\<lparr>inst_sockfd := fd\<rparr>;
                            C = inst_upd a (\<lambda>_. x) C;
                            C = C\<lparr>responses := responses C @ [(fd, Rsp_ok, base_virtaddr x, socket_size x)]\<rparr>
                        in Some (write_ok E, C))}))})}"

definition gazelle_max_reg_args :: u32 where "gazelle_max_reg_args = 32"

definition handle_reg_msg_proc_att :: "ctl_env \<Rightarrow> i32 \<Rightarrow> client_proc_conf \<Rightarrow> ltran_ctl \<Rightarrow> (bool \<times> ltran_ctl) option" where
  "handle_reg_msg_proc_att E fd c C = do {
     found \<leftarrow> gazelle_instance_get_by_pid C (proc_pid c);
     (case found of
        None \<Rightarrow> Some (False, simple_response fd Rsp_err C)
      | Some a \<Rightarrow>
          if sint (proc_argc c) < 0 \<or> sint (proc_argc c) > sint gazelle_max_reg_args
          then Some (False, simple_response fd Rsp_err C)
          else do {
            x \<leftarrow> insts C a;
            let C = C\<lparr>reserved := remove_virtual_area (base_virtaddr x) (socket_size x) (reserved C)\<rparr>;
            let C = inst_upd a (\<lambda>x. x\<lparr>reg_state := Rqt_reg_proc_att\<rparr>) C;
            (if \<not> sec_attach_ok E then Some (False, simple_response fd Rsp_err C)
             else let C = simple_response fd Rsp_ok C in
               if \<not> write_ok E then Some (False, C)
               else Some (True, inst_upd a (\<lambda>x. x\<lparr>inst_reg_tick := instance_cur_tick (mgr C) (inst_cur_tick x)\<rparr>) C))})}"

definition gazelle_get_free_stack_idx :: "gazelle_instance \<Rightarrow> nat option" where
  "gazelle_get_free_stack_idx x = find (\<lambda>i. stack_array x i = None) [0..<gazelle_max_stack_array_size]"

definition handle_reg_msg_thrd_ring :: "ctl_env \<Rightarrow> i32 \<Rightarrow> client_thrd_conf \<Rightarrow> ltran_ctl \<Rightarrow> (bool \<times> ltran_ctl) option" where
  "handle_reg_msg_thrd_ring E fd c C = do {
     exist_stack \<leftarrow> gazelle_stack_get_by_tid (hash E) (instance_cur_tick (mgr C)) (stacks C) (thrd_tid c);
     (if exist_stack \<noteq> None then Some (write_ok E, simple_response fd Rsp_ok C)
      else do {
        found \<leftarrow> gazelle_instance_get_by_pid C (thrd_pid c);
        (case found of
           None \<Rightarrow> Some (False, simple_response fd Rsp_err C)
         | Some a \<Rightarrow> do {
             x \<leftarrow> insts C a;
             (if stack_cnt x > 31 then Some (False, simple_response fd Rsp_err C)
              else (case gazelle_stack_add_by_tid (hash E) (new_stk E (stacks C)) (stacks C) (thrd_tid c) of
                 (None, t) \<Rightarrow> Some (False, simple_response fd Rsp_err (C\<lparr>stacks := t\<rparr>))
               | (Some sa, t) \<Rightarrow> do {
                   s \<leftarrow> heap t sa;
                   let s = s\<lparr>reg_ring := thrd_reg_ring c, tx_ring := thrd_tx_ring c, rx_ring := thrd_rx_ring c\<rparr>;
                   let C = C\<lparr>stacks := hset sa s t\<rparr>;
                   (case gazelle_get_free_stack_idx x of
                      None \<Rightarrow> do {
                        (_, t) \<leftarrow> gazelle_stack_del_by_tid (hash E) (cursor E) (stacks C) (thrd_tid c);
                        Some (False, simple_response fd Rsp_err (C\<lparr>stacks := t\<rparr>)) }
                    | Some idx \<Rightarrow>
                        let C = inst_upd a (\<lambda>x. x\<lparr>stack_array := (stack_array x)(idx := Some sa),
                                  stack_cnt := stack_cnt x + 1, reg_state := Rqt_reg_thrd_ring\<rparr>) C;
                            s = s\<lparr>stack_index := word_of_nat idx\<rparr>;
                            C = simple_response fd Rsp_ok (C\<lparr>stacks := hset sa s (stacks C)\<rparr>)
                        in if \<not> write_ok E then Some (False, C)
                           else Some (True, C\<lparr>stacks := hset sa (s\<lparr>stack_reg_tick := inst_reg_tick x,
                             stack_cur_tick := MgrTick (inst_cur_tick x)\<rparr>) (stacks C)\<rparr>))}))})})}"

section \<open>Logout\<close>

text \<open>Stacks are removed while the instance's count is not zero; what is freed is left to \<open>Ltran_Tables\<close>.\<close>

definition handle_stack_logout :: "ctl_env \<Rightarrow> gazelle_instance \<Rightarrow> addr \<Rightarrow> gazelle_stack htable \<Rightarrow>
  (gazelle_instance \<times> gazelle_stack htable) option" where
  "handle_stack_logout E x sa t = do {
     s \<leftarrow> heap t sa;
     let x = x\<lparr>stack_array := (stack_array x)(nat (sint (stack_index s)) := None), stack_cnt := stack_cnt x - 1\<rparr>;
     (_, t) \<leftarrow> gazelle_stack_del_by_tid (hash E) (cursor E) t (stack_tid s);
     Some (x, t)}"

fun logout_stacks :: "ctl_env \<Rightarrow> nat list \<Rightarrow> gazelle_instance \<Rightarrow> gazelle_stack htable \<Rightarrow>
  (gazelle_instance \<times> gazelle_stack htable) option" where
  "logout_stacks E [] x t = Some (x, t)"
| "logout_stacks E (i # is) x t =
     (if stack_cnt x = 0 then Some (x, t)
      else (case stack_array x i of
          None \<Rightarrow> logout_stacks E is x t
        | Some sa \<Rightarrow> (case handle_stack_logout E x sa t of None \<Rightarrow> None | Some (x, t) \<Rightarrow> logout_stacks E is x t)))"

definition handle_inst_logout_for_reg_thrd_ring :: "ctl_env \<Rightarrow> gazelle_instance \<Rightarrow> gazelle_stack htable \<Rightarrow>
  (gazelle_instance \<times> gazelle_stack htable) option" where
  "handle_inst_logout_for_reg_thrd_ring E x t = logout_stacks E [0..<gazelle_max_stack_array_size] x t"

definition handle_inst_logout_reg_proc_att :: "gazelle_instance \<Rightarrow> gazelle_instance" where
  "handle_inst_logout_reg_proc_att x = x\<lparr>socket_size := 0, base_virtaddr := 0\<rparr>"

definition handle_inst_logout_reg_proc_mem :: "addr \<Rightarrow> gazelle_instance \<Rightarrow> ltran_ctl \<Rightarrow> ltran_ctl" where
  "handle_inst_logout_reg_proc_mem a x C =
     C\<lparr>reserved := remove_virtual_area (base_virtaddr x) (socket_size x) (reserved C), insts := (insts C)(a := None)\<rparr>"

text \<open>
  \<open>wait_forward_done\<close> waits until both forwarding threads have gone round once; it leaves the
  state alone. The three cases of the switch fall through.
\<close>

definition handle_instance_logout :: "ctl_env \<Rightarrow> u32 \<Rightarrow> ltran_ctl \<Rightarrow> ltran_ctl option" where
  "handle_instance_logout E pid C = do {
     found \<leftarrow> gazelle_instance_get_by_pid C pid;
     (case found of
        None \<Rightarrow> Some C
      | Some a \<Rightarrow> do {
          x \<leftarrow> insts C a;
          let i = inst_cur_tick x;
          let C = C\<lparr>mgr := (mgr C)\<lparr>instance_cur_tick := (instance_cur_tick (mgr C))(i := instance_cur_tick (mgr C) i + 1)\<rparr>\<rparr>;
          C \<leftarrow> gazelle_set_instance_null_by_pid C pid;
          (case reg_state x of
             Rqt_reg_thrd_ring \<Rightarrow> do {
               (x, t) \<leftarrow> handle_inst_logout_for_reg_thrd_ring E x (stacks C);
               Some (handle_inst_logout_reg_proc_mem a (handle_inst_logout_reg_proc_att x) (C\<lparr>stacks := t\<rparr>)) }
           | Rqt_reg_proc_att \<Rightarrow> Some (handle_inst_logout_reg_proc_mem a (handle_inst_logout_reg_proc_att x) C)
           | Rqt_reg_proc_mem \<Rightarrow> Some (handle_inst_logout_reg_proc_mem a x C)
           | _ \<Rightarrow> Some C)})}"

section \<open>The invariant of the instance table\<close>

definition inst_at :: "ltran_ctl \<Rightarrow> nat \<Rightarrow> gazelle_instance option" where
  "inst_at C i = Option.bind (instances (mgr C) i) (insts C)"

text \<open>
  Every instance sits in a slot below \<open>max_instance_num\<close>, the range the forwarding loops scan,
  points to the tick of its slot and has a pid of its own; the count is exact.
\<close>

definition mgr_inv :: "ltran_ctl \<Rightarrow> bool" where
  "mgr_inv C \<longleftrightarrow> unat (max_instance_num (mgr C)) \<le> gazelle_max_instance_num \<and>
     (\<forall>i a. instances (mgr C) i = Some a \<longrightarrow> i < unat (max_instance_num (mgr C)) \<and>
        (\<exists>x. insts C a = Some x \<and> inst_cur_tick x = i)) \<and>
     (\<forall>i j x y. inst_at C i = Some x \<longrightarrow> inst_at C j = Some y \<longrightarrow> inst_pid x = inst_pid y \<longrightarrow> i = j) \<and>
     unat (cur_instance_num (mgr C)) = card {i. instances (mgr C) i \<noteq> None}"

lemma mgr_invD:
  assumes "mgr_inv C"
  shows "unat (max_instance_num (mgr C)) \<le> 32"
    and "instances (mgr C) i = Some a \<Longrightarrow> i < unat (max_instance_num (mgr C))"
    and "instances (mgr C) i = Some a \<Longrightarrow> \<exists>x. insts C a = Some x \<and> inst_cur_tick x = i"
    and "inst_at C i = Some x \<Longrightarrow> inst_at C j = Some y \<Longrightarrow> inst_pid x = inst_pid y \<Longrightarrow> i = j"
    and "unat (cur_instance_num (mgr C)) = card {i. instances (mgr C) i \<noteq> None}"
    and "{i. instances (mgr C) i \<noteq> None} \<subseteq> {..<unat (max_instance_num (mgr C))}"
  using assms unfolding mgr_inv_def gazelle_max_instance_num_def by blast+

lemma scan_slots_find:
  "(\<And>i a. slots i = Some a \<Longrightarrow> h a \<noteq> None) \<Longrightarrow>
   scan_slots P h slots is = Some (find (\<lambda>i. \<exists>x. Option.bind (slots i) h = Some x \<and> P x) is)"
  by (induction "is") (fastforce split: option.splits)+

lemma find_slot:
  assumes "mgr_inv C"
  shows "scan_slots P (insts C) (instances (mgr C)) [0..<gazelle_max_instance_num] =
    Some (find (\<lambda>i. \<exists>x. inst_at C i = Some x \<and> P x) [0..<32])"
  unfolding inst_at_def gazelle_max_instance_num_def
  by (rule scan_slots_find) (use mgr_invD(3) [OF assms] in fastforce)

lemma slot_bound: "mgr_inv C \<Longrightarrow> inst_at C i = Some x \<Longrightarrow> i < 32"
  using mgr_invD(1) [of C] mgr_invD(2) [of C i] by (fastforce simp: inst_at_def split: bind_splits)

text \<open>Looking a process up.\<close>

lemma get_by_pid_law:
  assumes inv: "mgr_inv C"
  shows "inst_at C i = Some x \<Longrightarrow> inst_pid x = pid \<Longrightarrow>
      scan_slots (\<lambda>x. inst_pid x = pid) (insts C) (instances (mgr C)) [0..<gazelle_max_instance_num] = Some (Some i) \<and>
      gazelle_instance_get_by_pid C pid = Some (instances (mgr C) i)"
    and "(\<And>i x. inst_at C i = Some x \<Longrightarrow> inst_pid x \<noteq> pid) \<Longrightarrow>
      scan_slots (\<lambda>x. inst_pid x = pid) (insts C) (instances (mgr C)) [0..<gazelle_max_instance_num] = Some None \<and>
      gazelle_instance_get_by_pid C pid = Some None"
proof -
  assume i: "inst_at C i = Some x" "inst_pid x = pid"
  have "find (\<lambda>i. \<exists>x. inst_at C i = Some x \<and> inst_pid x = pid) [0..<32] = Some i"
  proof (cases "find (\<lambda>i. \<exists>x. inst_at C i = Some x \<and> inst_pid x = pid) [0..<32]")
    case None
    then show ?thesis using i slot_bound [OF inv i(1)] by (auto simp: find_None_iff)
  next
    case (Some j)
    then obtain y where "inst_at C j = Some y" "inst_pid y = pid" using find_Some_in by fast
    then show ?thesis using Some mgr_invD(4) [OF inv i(1)] i(2) by auto
  qed
  then show "scan_slots (\<lambda>x. inst_pid x = pid) (insts C) (instances (mgr C)) [0..<gazelle_max_instance_num] = Some (Some i) \<and>
      gazelle_instance_get_by_pid C pid = Some (instances (mgr C) i)"
    by (simp add: gazelle_instance_get_by_pid_def find_slot [OF inv])
next
  assume "\<And>i x. inst_at C i = Some x \<Longrightarrow> inst_pid x \<noteq> pid"
  then have "find (\<lambda>i. \<exists>x. inst_at C i = Some x \<and> inst_pid x = pid) [0..<32] = None"
    by (auto simp: find_None_iff)
  then show "scan_slots (\<lambda>x. inst_pid x = pid) (insts C) (instances (mgr C)) [0..<gazelle_max_instance_num] = Some None \<and>
      gazelle_instance_get_by_pid C pid = Some None"
    by (simp add: gazelle_instance_get_by_pid_def find_slot [OF inv])
qed

lemma get_by_pid_cases:
  assumes inv: "mgr_inv C"
  obtains (found) i a x where "instances (mgr C) i = Some a" "insts C a = Some x" "inst_at C i = Some x"
      "inst_pid x = pid" "inst_cur_tick x = i" "gazelle_instance_get_by_pid C pid = Some (Some a)"
      "scan_slots (\<lambda>x. inst_pid x = pid) (insts C) (instances (mgr C)) [0..<gazelle_max_instance_num] = Some (Some i)"
  | (missing) "\<And>i x. inst_at C i = Some x \<Longrightarrow> inst_pid x \<noteq> pid" "gazelle_instance_get_by_pid C pid = Some None"
      "scan_slots (\<lambda>x. inst_pid x = pid) (insts C) (instances (mgr C)) [0..<gazelle_max_instance_num] = Some None"
proof (cases "\<exists>i x. inst_at C i = Some x \<and> inst_pid x = pid")
  case True
  then obtain i x where i: "inst_at C i = Some x" "inst_pid x = pid" by blast
  then obtain a where a: "instances (mgr C) i = Some a" "insts C a = Some x" by (auto simp: inst_at_def split: bind_splits)
  have "inst_cur_tick x = i" using mgr_invD(3) [OF inv a(1)] a(2) by simp
  then show thesis using found [OF a i] get_by_pid_law(1) [OF inv i] a(1) by simp
next
  case False
  then have none: "inst_pid x \<noteq> pid" if "inst_at C i = Some x" for i x using that by blast
  have "scan_slots (\<lambda>x. inst_pid x = pid) (insts C) (instances (mgr C)) [0..<gazelle_max_instance_num] = Some None \<and>
      gazelle_instance_get_by_pid C pid = Some None" by (rule get_by_pid_law(2) [OF inv]) (rule none)
  then show thesis using missing none by blast
qed

text \<open>Changing an instance in place, or anything but the manager and the instances.\<close>

lemma mgr_inv_cong: "mgr D = mgr C \<Longrightarrow> insts D = insts C \<Longrightarrow> mgr_inv D = mgr_inv C"
  by (simp add: mgr_inv_def inst_at_def)

lemma mgr_inv_upd:
  assumes inv: "mgr_inv C" and keep: "\<And>x. insts C a = Some x \<Longrightarrow> inst_pid (f x) = inst_pid x \<and> inst_cur_tick (f x) = inst_cur_tick x"
  shows "mgr_inv (inst_upd a f C)"
proof -
  have at: "inst_at (inst_upd a f C) i = (if instances (mgr C) i = Some a then map_option f (inst_at C i) else inst_at C i)" for i
    by (auto simp: inst_at_def inst_upd_def split: bind_splits option.splits)
  have pid: "\<exists>y. inst_at C i = Some y \<and> inst_pid y = inst_pid x" if "inst_at (inst_upd a f C) i = Some x" for i x
    using that keep unfolding at by (auto simp: inst_at_def split: if_splits)
  show ?thesis
    unfolding mgr_inv_def
  proof (intro conjI allI impI)
    fix i j x y assume "inst_at (inst_upd a f C) i = Some x" "inst_at (inst_upd a f C) j = Some y" "inst_pid x = inst_pid y"
    then show "i = j" using pid [of i x] pid [of j y] mgr_invD(4) [OF inv] by metis
  next
    fix i b assume "instances (mgr (inst_upd a f C)) i = Some b"
    then have b: "instances (mgr C) i = Some b" by (simp add: inst_upd_def)
    then obtain x where "insts C b = Some x" "inst_cur_tick x = i" using mgr_invD(3) [OF inv] by blast
    then show "\<exists>x. insts (inst_upd a f C) b = Some x \<and> inst_cur_tick x = i"
      using keep by (auto simp: inst_upd_def)
  qed (use inv mgr_invD(2) [OF inv] in \<open>auto simp: inst_upd_def mgr_inv_def\<close>)
qed

section \<open>Adding and removing an instance\<close>

definition ctl_ok :: "ctl_env \<Rightarrow> bool" where
  "ctl_ok E \<longleftrightarrow> (\<forall>h a. new_inst E h = Some a \<longrightarrow> h a = None) \<and> (\<forall>t a. new_stk E t = Some a \<longrightarrow> heap t a = None) \<and>
     cursor E = no_cursor"

lemma free_slot:
  assumes inv: "mgr_inv C" and room: "cur_instance_num (mgr C) < max_instance_num (mgr C)"
  obtains i where "find (\<lambda>i. instances (mgr C) i = None) [0..<gazelle_max_instance_num] = Some i"
    "i < unat (max_instance_num (mgr C))" "instances (mgr C) i = None"
proof -
  let ?O = "{i. instances (mgr C) i \<noteq> None}" and ?m = "unat (max_instance_num (mgr C))"
  have "card ?O < ?m" using room mgr_invD(5) [OF inv] by (simp add: word_less_nat_alt)
  then have "?O \<noteq> {..<?m}" by auto
  then obtain j where j: "j < ?m" "instances (mgr C) j = None" using mgr_invD(6) [OF inv] by blast
  have m: "?m \<le> 32" using mgr_invD(1) [OF inv] .
  have "find (\<lambda>i. instances (mgr C) i = None) [0..<32] \<noteq> None"
    using j m by (auto simp: find_None_iff intro!: exI [of _ j])
  then obtain i where i: "find (\<lambda>i. instances (mgr C) i = None) [0..<32] = Some i" by blast
  then obtain k where k: "k < 32" "i = [0..<32] ! k" "instances (mgr C) i = None"
    "\<forall>l<k. instances (mgr C) ([0..<32] ! l) \<noteq> None" by (auto simp: find_Some_iff)
  have "k \<le> j"
  proof (rule ccontr)
    assume "\<not> k \<le> j"
    then have "instances (mgr C) ([0..<32] ! j) \<noteq> None" using k(4) by simp
    then show False using j m by simp
  qed
  then show thesis using that [of i] i k j by (simp add: gazelle_max_instance_num_def)
qed

lemma add_law:
  assumes inv: "mgr_inv C" and ok: "ctl_ok E"
    and none: "\<And>i x. inst_at C i = Some x \<Longrightarrow> inst_pid x \<noteq> pid"
    and room: "cur_instance_num (mgr C) < max_instance_num (mgr C)" and n: "new_inst E (insts C) = Some a"
  shows "\<exists>i D. gazelle_instance_add_by_pid E C pid = Some (Some a, D) \<and> mgr_inv D \<and>
    i < unat (max_instance_num (mgr C)) \<and> instances (mgr C) i = None \<and>
    D = C\<lparr>insts := (insts C)(a \<mapsto> fresh_instance\<lparr>inst_pid := pid, inst_reg_tick := instance_cur_tick (mgr C) i, inst_cur_tick := i\<rparr>),
      mgr := (mgr C)\<lparr>instance_cur_tick := (instance_cur_tick (mgr C))(i := instance_cur_tick (mgr C) i + 1),
        instances := (instances (mgr C))(i := Some a), cur_instance_num := cur_instance_num (mgr C) + 1\<rparr>\<rparr>"
proof -
  obtain i where i: "find (\<lambda>i. instances (mgr C) i = None) [0..<gazelle_max_instance_num] = Some i"
    "i < unat (max_instance_num (mgr C))" "instances (mgr C) i = None" using free_slot [OF inv room] .
  let ?x = "fresh_instance\<lparr>inst_pid := pid, inst_reg_tick := instance_cur_tick (mgr C) i, inst_cur_tick := i\<rparr>"
  let ?D = "C\<lparr>insts := (insts C)(a \<mapsto> ?x),
      mgr := (mgr C)\<lparr>instance_cur_tick := (instance_cur_tick (mgr C))(i := instance_cur_tick (mgr C) i + 1),
        instances := (instances (mgr C))(i := Some a), cur_instance_num := cur_instance_num (mgr C) + 1\<rparr>\<rparr>"
  have get: "gazelle_instance_get_by_pid C pid = Some None" using get_by_pid_law(2) [OF inv] none by blast
  have run: "gazelle_instance_add_by_pid E C pid = Some (Some a, ?D)"
    using room by (simp add: gazelle_instance_add_by_pid_def get i(1) n Let_def not_le)
  have a: "insts C a = None" using ok n by (simp add: ctl_ok_def)
  have other: "b \<noteq> a" if "instances (mgr C) j = Some b" for j b using mgr_invD(3) [OF inv that] a by auto
  have at: "inst_at ?D j = (if j = i then Some ?x else inst_at C j)" for j
    using other [of j] by (auto simp: inst_at_def split: bind_splits)
  have fin: "finite {j. instances (mgr C) j \<noteq> None}" by (rule finite_subset [OF mgr_invD(6) [OF inv]]) simp
  have "{j. instances (mgr ?D) j \<noteq> None} = insert i {j. instances (mgr C) j \<noteq> None}" by auto
  then have card: "card {j. instances (mgr ?D) j \<noteq> None} = Suc (card {j. instances (mgr C) j \<noteq> None})"
    using fin i(3) by simp
  have cnt: "unat (cur_instance_num (mgr C) + 1) = Suc (unat (cur_instance_num (mgr C)))"
    using room mgr_invD(1) [OF inv] by (simp add: word_less_nat_alt unat_plus_small)
  have "mgr_inv ?D"
    unfolding mgr_inv_def
  proof (intro conjI allI impI)
    fix j b assume b: "instances (mgr ?D) j = Some b"
    show "j < unat (max_instance_num (mgr ?D))" using b i(2) mgr_invD(2) [OF inv, of j b] by (auto split: if_splits)
    show "\<exists>x. insts ?D b = Some x \<and> inst_cur_tick x = j"
      using b mgr_invD(3) [OF inv, of j b] other [of j b] by (auto split: if_splits)
  next
    fix j k x y assume x: "inst_at ?D j = Some x" "inst_at ?D k = Some y" "inst_pid x = inst_pid y"
    show "j = k"
    proof (cases "j = i \<or> k = i")
      case True
      then show ?thesis using x none [of j x] none [of k y] unfolding at by (auto split: if_splits)
    next
      case False
      then show ?thesis using x mgr_invD(4) [OF inv, of j x k y] unfolding at by simp
    qed
  qed (use mgr_invD(1,5) [OF inv] card cnt in \<open>auto simp: gazelle_max_instance_num_def\<close>)
  then show ?thesis using run i by blast
qed

lemma add_other:
  assumes inv: "mgr_inv C" and r: "gazelle_instance_add_by_pid E C pid = Some (r, D)"
    and no: "\<not> (r \<noteq> None \<and> gazelle_instance_get_by_pid C pid = Some None)"
  shows "D = C"
proof (cases rule: get_by_pid_cases [OF inv, of pid])
  case (1 i a x)
  then show ?thesis using r by (simp add: gazelle_instance_add_by_pid_def)
next
  case 2
  then show ?thesis using r no by (auto simp: gazelle_instance_add_by_pid_def Let_def split: if_splits option.splits)
qed

lemma set_null_law:
  assumes inv: "mgr_inv C" and i: "inst_at C i = Some x" "inst_pid x = pid"
  shows "\<exists>D. gazelle_set_instance_null_by_pid C pid = Some D \<and> mgr_inv D \<and>
    D = C\<lparr>mgr := (mgr C)\<lparr>cur_instance_num := cur_instance_num (mgr C) - 1, instances := (instances (mgr C))(i := None)\<rparr>\<rparr>"
proof -
  let ?D = "C\<lparr>mgr := (mgr C)\<lparr>cur_instance_num := cur_instance_num (mgr C) - 1, instances := (instances (mgr C))(i := None)\<rparr>\<rparr>"
  have run: "gazelle_set_instance_null_by_pid C pid = Some ?D"
    using get_by_pid_law(1) [OF inv i] by (simp add: gazelle_set_instance_null_by_pid_def)
  let ?O = "{j. instances (mgr C) j \<noteq> None}"
  have fin: "finite ?O" by (rule finite_subset [OF mgr_invD(6) [OF inv]]) simp
  have mem: "i \<in> ?O" using i(1) by (auto simp: inst_at_def split: bind_splits)
  have "{j. instances (mgr ?D) j \<noteq> None} = ?O - {i}" by auto
  then have card: "card {j. instances (mgr ?D) j \<noteq> None} = card ?O - 1" using fin mem by simp
  have "0 < card ?O" using fin mem by (auto simp: card_gt_0_iff)
  then have cnt: "unat (cur_instance_num (mgr C) - 1) = unat (cur_instance_num (mgr C)) - 1"
    using mgr_invD(5) [OF inv] by (simp add: unat_minus_le)
  have at: "inst_at ?D j = (if j = i then None else inst_at C j)" for j by (simp add: inst_at_def)
  have "mgr_inv ?D"
    unfolding mgr_inv_def
  proof (intro conjI allI impI)
    fix j b assume b: "instances (mgr ?D) j = Some b"
    then have c: "instances (mgr C) j = Some b" by (simp split: if_splits)
    show "j < unat (max_instance_num (mgr ?D))" using mgr_invD(2) [OF inv c] by simp
    show "\<exists>x. insts ?D b = Some x \<and> inst_cur_tick x = j" using mgr_invD(3) [OF inv c] by simp
  next
    fix j k x y assume "inst_at ?D j = Some x" "inst_at ?D k = Some y" "inst_pid x = inst_pid y"
    then show "j = k" using mgr_invD(4) [OF inv, of j x k y] unfolding at by (simp split: if_splits)
  qed (use mgr_invD(1,5) [OF inv] card cnt in \<open>auto simp: gazelle_max_instance_num_def\<close>)
  then show ?thesis using run by blast
qed

section \<open>Every message keeps the invariant\<close>

lemma simple_response_simps [simp]:
  "mgr (simple_response fd t C) = mgr C" "insts (simple_response fd t C) = insts C"
  "stacks (simple_response fd t C) = stacks C" "reserved (simple_response fd t C) = reserved C"
  "next_addr (simple_response fd t C) = next_addr C"
  by (simp_all add: simple_response_def)

lemma inst_upd_simps [simp]:
  "mgr (inst_upd a f C) = mgr C" "stacks (inst_upd a f C) = stacks C" "reserved (inst_upd a f C) = reserved C"
  "next_addr (inst_upd a f C) = next_addr C" "insts (inst_upd a f C) = (insts C)(a := map_option f (insts C a))"
  by (simp_all add: inst_upd_def)

lemma info_set_keeps:
  "inst_pid (snd (instance_info_set E x c)) = proc_pid c" "inst_cur_tick (snd (instance_info_set E x c)) = inst_cur_tick x"
  "inst_reg_tick (snd (instance_info_set E x c)) = inst_reg_tick x" "reg_state (snd (instance_info_set E x c)) = reg_state x"
  "base_virtaddr (snd (instance_info_set E x c)) = proc_base_virtaddr c" "socket_size (snd (instance_info_set E x c)) = proc_socket_size c"
  by (simp_all add: instance_info_set_def Let_def)

lemma info_check_law:
  assumes inv: "mgr_inv C" and ok: "instance_info_check E C c = Some True"
  shows "gazelle_instance_get_by_pid C (proc_pid c) = Some None"
  using ok by (cases rule: get_by_pid_cases [OF inv, of "proc_pid c"])
    (auto simp: instance_info_check_def Let_def split: if_splits)

text \<open>The part of the first message after the instance is added.\<close>

lemma proc_mem_split:
  assumes inv: "mgr_inv C" and ok: "ctl_ok E" and h: "handle_reg_msg_proc_mem E fd c C = Some (r, D)"
  obtains (same) "mgr D = mgr C" "insts D = insts C" "stacks D = stacks C" "\<not> r"
  | (added) i a y where "insts C a = None" "instances (mgr C) i = None" "mgr_inv D" "stacks D = stacks C"
      "insts D = (insts C)(a \<mapsto> y)" "instances (mgr D) = (instances (mgr C))(i := Some a)"
      "inst_pid y = proc_pid c" "stack_cnt y = 0" "stack_array y = (\<lambda>_. None)" "reg_state y = Rqt_reg_proc_mem"
proof -
  obtain okc where c: "instance_info_check E C c = Some okc"
    using h by (cases "instance_info_check E C c") (auto simp: handle_reg_msg_proc_mem_def)
  show thesis
  proof (cases okc)
    case False
    then show thesis using same h c by (auto simp: handle_reg_msg_proc_mem_def)
  next
    case True
    have get: "gazelle_instance_get_by_pid C (proc_pid c) = Some None" using info_check_law [OF inv] c True by simp
    obtain i C1 where add: "gazelle_instance_add_by_pid E C (proc_pid c) = Some (i, C1)"
      using h c True by (cases "gazelle_instance_add_by_pid E C (proc_pid c)") (auto simp: handle_reg_msg_proc_mem_def)
    show thesis
    proof (cases i)
      case None
      then have "C1 = C" using add_other [OF inv add] by simp
      then show thesis using same h c True add None by (auto simp: handle_reg_msg_proc_mem_def)
    next
      case (Some a)
      have none: "inst_pid x \<noteq> proc_pid c" if "inst_at C j = Some x" for j x
        using get_by_pid_law(1) [OF inv that] get that by (auto simp: inst_at_def split: bind_splits)
      have room: "cur_instance_num (mgr C) < max_instance_num (mgr C)" and n: "new_inst E (insts C) = Some a"
        using add Some get by (auto simp: gazelle_instance_add_by_pid_def Let_def not_le split: if_splits option.splits)
      have free: "insts C a = None" using ok n by (simp add: ctl_ok_def)
      have "\<exists>i D. gazelle_instance_add_by_pid E C (proc_pid c) = Some (Some a, D) \<and> mgr_inv D \<and>
        i < unat (max_instance_num (mgr C)) \<and> instances (mgr C) i = None \<and>
        D = C\<lparr>insts := (insts C)(a \<mapsto> fresh_instance\<lparr>inst_pid := proc_pid c,
          inst_reg_tick := instance_cur_tick (mgr C) i, inst_cur_tick := i\<rparr>),
        mgr := (mgr C)\<lparr>instance_cur_tick := (instance_cur_tick (mgr C))(i := instance_cur_tick (mgr C) i + 1),
          instances := (instances (mgr C))(i := Some a), cur_instance_num := cur_instance_num (mgr C) + 1\<rparr>\<rparr>"
        by (rule add_law [OF inv ok _ room n]) (rule none)
      then obtain j where D: "mgr_inv C1" "instances (mgr C) j = None" "C1 = C\<lparr>insts := (insts C)(a \<mapsto> fresh_instance\<lparr>inst_pid := proc_pid c,
          inst_reg_tick := instance_cur_tick (mgr C) j, inst_cur_tick := j\<rparr>),
        mgr := (mgr C)\<lparr>instance_cur_tick := (instance_cur_tick (mgr C))(j := instance_cur_tick (mgr C) j + 1),
          instances := (instances (mgr C))(j := Some a), cur_instance_num := cur_instance_num (mgr C) + 1\<rparr>\<rparr>"
        using add Some by auto
      let ?x = "fresh_instance\<lparr>inst_pid := proc_pid c, inst_reg_tick := instance_cur_tick (mgr C) j, inst_cur_tick := j\<rparr>"
      have x: "insts C1 a = Some ?x" by (subst D(3)) simp
      have "\<exists>y. mgr D = mgr C1 \<and> stacks D = stacks C1 \<and> insts D = insts (inst_upd a (\<lambda>_. y) C1) \<and> inst_pid y = proc_pid c \<and>
          inst_cur_tick y = inst_cur_tick ?x \<and> stack_cnt y = 0 \<and> stack_array y = (\<lambda>_. None) \<and> reg_state y = Rqt_reg_proc_mem"
      proof (cases "fst (get_virtual_area E (proc_base_virtaddr c) (proc_socket_size c) (next_addr C1))")
        case None
        let ?y = "?x\<lparr>reg_state := Rqt_reg_proc_mem\<rparr>"
        from None have "D = simple_response fd Rsp_err ((inst_upd a (\<lambda>x. x\<lparr>reg_state := Rqt_reg_proc_mem\<rparr>) C1)\<lparr>next_addr :=
            snd (get_virtual_area E (proc_base_virtaddr c) (proc_socket_size c) (next_addr C1))\<rparr>)"
          using h c True add Some by (simp add: handle_reg_msg_proc_mem_def Let_def split_def)
        then show ?thesis using x by (intro exI [of _ ?y]) (simp add: fresh_instance_def)
      next
        case (Some area)
        let ?s = "instance_info_set E (?x\<lparr>reg_state := Rqt_reg_proc_mem\<rparr>) (c\<lparr>proc_base_virtaddr := fst area, proc_socket_size := snd area\<rparr>)"
        let ?y = "if fst ?s then (snd ?s)\<lparr>inst_sockfd := fd\<rparr> else snd ?s"
        have "mgr D = mgr C1 \<and> stacks D = stacks C1 \<and> insts D = insts (inst_upd a (\<lambda>_. ?y) C1)"
          using h c True add \<open>i = Some a\<close> Some x
          by (auto simp: handle_reg_msg_proc_mem_def Let_def split_def split: if_splits)
        moreover have "inst_pid ?y = proc_pid c \<and> inst_cur_tick ?y = inst_cur_tick ?x \<and> stack_cnt ?y = 0 \<and>
            stack_array ?y = (\<lambda>_. None) \<and> reg_state ?y = Rqt_reg_proc_mem"
          by (simp add: instance_info_set_def Let_def fresh_instance_def)
        ultimately show ?thesis by blast
      qed
      then obtain y where y: "mgr D = mgr C1" "stacks D = stacks C1" "insts D = insts (inst_upd a (\<lambda>_. y) C1)" "inst_pid y = proc_pid c"
        "inst_cur_tick y = inst_cur_tick ?x" "stack_cnt y = 0" "stack_array y = (\<lambda>_. None)" "reg_state y = Rqt_reg_proc_mem" by blast
      have "mgr_inv (inst_upd a (\<lambda>_. y) C1)" by (rule mgr_inv_upd [OF D(1)]) (use y x in auto)
      then have inv_D: "mgr_inv D" using mgr_inv_cong [of D "inst_upd a (\<lambda>_. y) C1"] y by simp
      have st: "stacks D = stacks C" and ins: "insts D = (insts C)(a \<mapsto> y)"
        and slots: "instances (mgr D) = (instances (mgr C))(j := Some a)" unfolding y by (simp_all add: D(3))
      show thesis by (rule added [OF free D(2) inv_D st ins slots y(4,6,7,8)])
    qed
  qed
qed

lemma proc_mem_inv:
  assumes "mgr_inv C" and "ctl_ok E" and "handle_reg_msg_proc_mem E fd c C = Some (r, D)"
  shows "mgr_inv D"
proof (cases rule: proc_mem_split [OF assms])
  case 1
  then show ?thesis using assms(1) mgr_inv_cong by blast
qed

lemma proc_att_inv:
  assumes inv: "mgr_inv C" and h: "handle_reg_msg_proc_att E fd c C = Some (r, D)"
  shows "mgr_inv D"
proof (cases rule: get_by_pid_cases [OF inv, of "proc_pid c"])
  case (1 i a x)
  have "mgr D = mgr C \<and> insts D = insts C \<or>
    mgr D = mgr C \<and> (\<exists>y. insts D = insts (inst_upd a (\<lambda>_. y) C) \<and> inst_pid y = inst_pid x \<and> inst_cur_tick y = inst_cur_tick x)"
    using h 1 by (auto simp: handle_reg_msg_proc_att_def Let_def split: if_splits
        intro: exI [of _ "x\<lparr>reg_state := Rqt_reg_proc_att\<rparr>"]
          exI [of _ "x\<lparr>reg_state := Rqt_reg_proc_att, inst_reg_tick := instance_cur_tick (mgr C) (inst_cur_tick x)\<rparr>"])
  then show ?thesis
  proof
    assume "mgr D = mgr C \<and> insts D = insts C"
    then show ?thesis using inv mgr_inv_cong by blast
  next
    assume "mgr D = mgr C \<and> (\<exists>y. insts D = insts (inst_upd a (\<lambda>_. y) C) \<and> inst_pid y = inst_pid x \<and> inst_cur_tick y = inst_cur_tick x)"
    then obtain y where y: "mgr D = mgr C" "insts D = insts (inst_upd a (\<lambda>_. y) C)" "inst_pid y = inst_pid x"
      "inst_cur_tick y = inst_cur_tick x" by blast
    have "mgr_inv (inst_upd a (\<lambda>_. y) C)" by (rule mgr_inv_upd [OF inv]) (use y 1 in auto)
    then show ?thesis using mgr_inv_cong [of D "inst_upd a (\<lambda>_. y) C"] y by simp
  qed
next
  case 2
  then have "D = simple_response fd Rsp_err C" using h by (simp add: handle_reg_msg_proc_att_def)
  then show ?thesis using inv mgr_inv_cong [of D C] by simp
qed

lemma thrd_ring_inv:
  assumes inv: "mgr_inv C" and h: "handle_reg_msg_thrd_ring E fd c C = Some (r, D)"
  shows "mgr_inv D"
proof (cases rule: get_by_pid_cases [OF inv, of "thrd_pid c"])
  case (1 i a x)
  have "mgr D = mgr C \<and> insts D = insts C \<or>
    mgr D = mgr C \<and> (\<exists>f. insts D = insts (inst_upd a f C) \<and> (\<forall>y. inst_pid (f y) = inst_pid y \<and> inst_cur_tick (f y) = inst_cur_tick y))"
    using h 1 by (auto simp: handle_reg_msg_thrd_ring_def Let_def split: if_splits bind_splits option.splits prod.splits)
  then show ?thesis
  proof
    assume "mgr D = mgr C \<and> insts D = insts C"
    then show ?thesis using inv mgr_inv_cong by blast
  next
    assume "mgr D = mgr C \<and> (\<exists>f. insts D = insts (inst_upd a f C) \<and> (\<forall>y. inst_pid (f y) = inst_pid y \<and> inst_cur_tick (f y) = inst_cur_tick y))"
    then obtain f where f: "mgr D = mgr C" "insts D = insts (inst_upd a f C)"
      "\<And>y. inst_pid (f y) = inst_pid y \<and> inst_cur_tick (f y) = inst_cur_tick y" by blast
    have "mgr_inv (inst_upd a f C)" by (rule mgr_inv_upd [OF inv]) (use f in auto)
    then show ?thesis using mgr_inv_cong [of D "inst_upd a f C"] f by simp
  qed
next
  case 2
  then have "mgr D = mgr C \<and> insts D = insts C"
    using h by (auto simp: handle_reg_msg_thrd_ring_def split: if_splits bind_splits)
  then show ?thesis using inv mgr_inv_cong by blast
qed

section \<open>The stacks of an instance\<close>

text \<open>
  The slots and the stack table agree: every stack of the table stands in the array of exactly one
  instance, at the index it carries; an instance's count is exact; no thread id occurs twice; and
  the registration state tells the logout everything there is to release.
\<close>

definition stacks_wf :: "jhash \<Rightarrow> gazelle_stack htable \<Rightarrow> bool" where
  "stacks_wf hf t \<longleftrightarrow> htable_inv stack_htable_size (\<lambda>s. gazelle_stack_hbucket_get_by_tid hf (stack_tid s)) t \<and>
     (\<forall>a b s s'. heap t a = Some s \<longrightarrow> heap t b = Some s' \<longrightarrow> stack_tid s = stack_tid s' \<longrightarrow> a = b)"

definition array_ok :: "gazelle_instance \<Rightarrow> gazelle_stack htable \<Rightarrow> bool" where
  "array_ok x t \<longleftrightarrow> {k. stack_array x k \<noteq> None} \<subseteq> {..<32} \<and>
     unat (stack_cnt x) = card {k. stack_array x k \<noteq> None} \<and>
     (\<forall>k sa. stack_array x k = Some sa \<longrightarrow> (\<exists>s. heap t sa = Some s \<and> stack_index s = word_of_nat k))"

definition link_inv :: "(nat \<Rightarrow> gazelle_instance option) \<Rightarrow> gazelle_stack htable \<Rightarrow> bool" where
  "link_inv I t \<longleftrightarrow>
     (\<forall>i x. I i = Some x \<longrightarrow> array_ok x t \<and> reg_state x \<in> {Rqt_reg_proc_mem, Rqt_reg_proc_att, Rqt_reg_thrd_ring} \<and>
        (reg_state x \<noteq> Rqt_reg_thrd_ring \<longrightarrow> stack_array x = (\<lambda>_. None))) \<and>
     (\<forall>i j x y k l sa. I i = Some x \<longrightarrow> I j = Some y \<longrightarrow> stack_array x k = Some sa \<longrightarrow> stack_array y l = Some sa \<longrightarrow> i = j) \<and>
     (\<forall>a s. heap t a = Some s \<longrightarrow> (\<exists>i x k. I i = Some x \<and> stack_array x k = Some a))"

definition no_leak :: "ltran_ctl \<Rightarrow> bool" where
  "no_leak C \<longleftrightarrow> (\<forall>a x. insts C a = Some x \<longrightarrow> (\<exists>i. instances (mgr C) i = Some a))"

definition ctl_inv :: "jhash \<Rightarrow> ltran_ctl \<Rightarrow> bool" where
  "ctl_inv hf C \<longleftrightarrow> mgr_inv C \<and> no_leak C \<and> stacks_wf hf (stacks C) \<and> link_inv (inst_at C) (stacks C)"

lemma link_invD:
  assumes "link_inv I t" and "I i = Some x"
  shows "array_ok x t" "reg_state x \<in> {Rqt_reg_proc_mem, Rqt_reg_proc_att, Rqt_reg_thrd_ring}"
    "reg_state x \<noteq> Rqt_reg_thrd_ring \<Longrightarrow> stack_array x = (\<lambda>_. None)"
    "I j = Some y \<Longrightarrow> stack_array x k = Some sa \<Longrightarrow> stack_array y l = Some sa \<Longrightarrow> i = j"
  using assms unfolding link_inv_def by blast+

lemma link_inv_owned: "link_inv I t \<Longrightarrow> heap t a = Some s \<Longrightarrow> \<exists>i x k. I i = Some x \<and> stack_array x k = Some a"
  unfolding link_inv_def by blast

lemma array_okD:
  assumes "array_ok x t"
  shows "stack_array x k = Some sa \<Longrightarrow> k < 32"
    and "stack_array x k = Some sa \<Longrightarrow> \<exists>s. heap t sa = Some s \<and> stack_index s = word_of_nat k"
    and "unat (stack_cnt x) = card {k. stack_array x k \<noteq> None}" and "finite {k. stack_array x k \<noteq> None}"
  using assms finite_subset [of "{k. stack_array x k \<noteq> None}" "{..<32}"] unfolding array_ok_def by fastforce+

lemma small_index: "k < 32 \<Longrightarrow> nat (sint (word_of_nat k :: i32)) = k"
  by (simp add: signed_of_nat signed_take_bit_eq_take_bit_minus take_bit_int_eq_self bit_iff_odd)

lemma array_inj:
  assumes "array_ok x t" and "stack_array x k = Some sa" and "stack_array x l = Some sa"
  shows "k = l"
proof -
  obtain s where "heap t sa = Some s" "stack_index s = word_of_nat k" using array_okD(2) [OF assms(1,2)] by blast
  moreover have "stack_index s = word_of_nat l" using array_okD(2) [OF assms(1,3)] calculation(1) by auto
  ultimately show ?thesis using small_index array_okD(1) [OF assms(1)] assms(2,3) by metis
qed

lemma array_ok_empty: "stack_array x = (\<lambda>_. None) \<Longrightarrow> stack_cnt x = 0 \<Longrightarrow> array_ok x t"
  by (simp add: array_ok_def)

text \<open>An instance replaced by one with the same stacks, added without stacks, removed.\<close>

lemma link_inv_same:
  assumes link: "link_inv I t" and x: "I i = Some x" and y: "stack_array y = stack_array x" "stack_cnt y = stack_cnt x"
    "reg_state y \<in> {Rqt_reg_proc_mem, Rqt_reg_proc_att, Rqt_reg_thrd_ring}"
    "reg_state y \<noteq> Rqt_reg_thrd_ring \<Longrightarrow> stack_array x = (\<lambda>_. None)"
  shows "link_inv (I(i := Some y)) t"
proof -
  note L = link_invD [OF link]
  have "array_ok y t" using L(1) [OF x] y(1,2) by (simp add: array_ok_def)
  moreover have "\<exists>j z k. (I(i := Some y)) j = Some z \<and> stack_array z k = Some a" if s: "heap t a = Some s" for a s
  proof -
    obtain j z k where z: "I j = Some z" "stack_array z k = Some a" using link_inv_owned [OF link s] by blast
    show ?thesis using z x y(1) by (intro exI [of _ j] exI [of _ "if j = i then y else z"] exI [of _ k]) auto
  qed
  ultimately show ?thesis using L(1,2,3) L(4) [OF x] link y x unfolding link_inv_def by (auto 0 3 split: if_splits)
qed

lemma link_inv_add:
  assumes link: "link_inv I t" and i: "I i = None" and y: "stack_array y = (\<lambda>_. None)" "stack_cnt y = 0" "reg_state y = Rqt_reg_proc_mem"
  shows "link_inv (I(i := Some y)) t"
proof -
  have "\<exists>j z k. (I(i := Some y)) j = Some z \<and> stack_array z k = Some a" if s: "heap t a = Some s" for a s
  proof -
    obtain j z k where z: "I j = Some z" "stack_array z k = Some a" using link_inv_owned [OF link s] by blast
    then have "j \<noteq> i" using i by auto
    then show ?thesis using z by (intro exI [of _ j] exI [of _ z] exI [of _ k]) simp
  qed
  then show ?thesis using link array_ok_empty [OF y(1,2)] y unfolding link_inv_def by (auto split: if_splits)
qed

section \<open>Adding a stack to an instance\<close>

lemma stacks_wf_scan:
  assumes wf: "stacks_wf hf t"
  shows "hscan (\<lambda>s. stack_tid s = tid) (heap t) (chain t (gazelle_stack_hbucket_get_by_tid hf tid)) =
    Some (if \<exists>a s. heap t a = Some s \<and> stack_tid s = tid then Some (THE a. \<exists>s. heap t a = Some s \<and> stack_tid s = tid) else None)"
    (is "?scan = _")
proof -
  have inv: "htable_inv stack_htable_size (\<lambda>s. gazelle_stack_hbucket_get_by_tid hf (stack_tid s)) t"
    and uniq: "\<And>a b s s'. heap t a = Some s \<Longrightarrow> heap t b = Some s' \<Longrightarrow> stack_tid s = stack_tid s' \<Longrightarrow> a = b"
    using wf unfolding stacks_wf_def by blast+
  obtain r where r: "?scan = Some r" using hscan_total [OF inv bucket_bounds(3)] by blast
  show ?thesis
  proof (cases r)
    case None
    have "\<not> (heap t a = Some s \<and> stack_tid s = tid)" for a s
      using heap_in_chain [OF inv, of a s] hscan_NoneD [OF r [unfolded None], of a s] by auto
    then show ?thesis using r None by auto
  next
    case (Some a)
    then obtain s where s: "heap t a = Some s" "stack_tid s = tid" using hscan_SomeD [OF r [unfolded Some]] by blast
    then have "(THE a. \<exists>s. heap t a = Some s \<and> stack_tid s = tid) = a" using uniq by (blast intro: the_equality)
    then show ?thesis using r Some s by auto
  qed
qed

lemma stacks_wf_scan_at:
  assumes wf: "stacks_wf hf t" and s: "heap t a = Some s"
  shows "hscan (\<lambda>x. stack_tid x = stack_tid s) (heap t) (chain t (gazelle_stack_hbucket_get_by_tid hf (stack_tid s))) = Some (Some a)"
proof -
  have "(THE b. \<exists>x. heap t b = Some x \<and> stack_tid x = stack_tid s) = a"
    using wf s unfolding stacks_wf_def by (blast intro: the_equality)
  then show ?thesis using stacks_wf_scan [OF wf, of "stack_tid s"] s by auto
qed

text \<open>With unique thread ids the first entry of an id is its only one, whatever is switched on.\<close>

lemma stacks_wf_inv: "stacks_wf hf t \<Longrightarrow> stack_inv hf ticks t"
  unfolding stack_inv_def table_inv_def live_first_def using stacks_wf_scan_at by (simp add: stacks_wf_def)

lemma stacks_wf_add:
  assumes wf: "stacks_wf hf t" and a: "heap t sa = None" and room: "cur_num t \<noteq> max_num t"
    and fresh: "\<And>b s. heap t b = Some s \<Longrightarrow> stack_tid s \<noteq> stack_tid e" and k: "stack_tid e' = stack_tid e"
  shows "stacks_wf hf (hset sa e' (hadd (gazelle_stack_hbucket_get_by_tid hf (stack_tid e)) sa e t))"
proof -
  let ?b = "gazelle_stack_hbucket_get_by_tid hf (stack_tid e)"
  have "htable_inv stack_htable_size (\<lambda>s. gazelle_stack_hbucket_get_by_tid hf (stack_tid s)) (hadd ?b sa e t)"
    using wf a room unfolding stacks_wf_def by (intro hadd_inv) auto
  then have inv: "htable_inv stack_htable_size (\<lambda>s. gazelle_stack_hbucket_get_by_tid hf (stack_tid s)) (hset sa e' (hadd ?b sa e t))"
    by (rule hset_inv [where e = e]) (simp_all add: hadd_def k)
  have h: "heap (hset sa e' (hadd ?b sa e t)) = (heap t)(sa \<mapsto> e')" by (simp add: hset_def hadd_def)
  have uniq: "\<And>a b s s'. heap t a = Some s \<Longrightarrow> heap t b = Some s' \<Longrightarrow> stack_tid s = stack_tid s' \<Longrightarrow> a = b"
    using wf unfolding stacks_wf_def by blast
  have "a = b" if "((heap t)(sa \<mapsto> e')) a = Some s" "((heap t)(sa \<mapsto> e')) b = Some s'" "stack_tid s = stack_tid s'" for a b s s'
  proof (cases "a = sa \<or> b = sa")
    case True
    then show ?thesis using that fresh k by (cases "a = sa"; cases "b = sa") auto
  next
    case False
    then show ?thesis using that uniq by simp
  qed
  then show ?thesis unfolding stacks_wf_def h using inv by blast
qed

lemma stacks_wf_set:
  assumes wf: "stacks_wf hf t" and a: "heap t sa = Some e" and k: "stack_tid e' = stack_tid e"
  shows "stacks_wf hf (hset sa e' t)"
proof -
  have "htable_inv stack_htable_size (\<lambda>s. gazelle_stack_hbucket_get_by_tid hf (stack_tid s)) t"
    using wf unfolding stacks_wf_def by blast
  then have inv: "htable_inv stack_htable_size (\<lambda>s. gazelle_stack_hbucket_get_by_tid hf (stack_tid s)) (hset sa e' t)"
    by (rule hset_inv [OF _ a]) (simp only: k)
  have uniq: "a = b" if "heap t a = Some s" "heap t b = Some s'" "stack_tid s = stack_tid s'" for a b s s'
    using wf that unfolding stacks_wf_def by blast
  have old: "\<exists>z. heap t c = Some z \<and> stack_tid z = stack_tid s" if "heap (hset sa e' t) c = Some s" for c s
    using that a k by (cases "c = sa") (simp_all add: hset_def)
  have "c = b" if c: "heap (hset sa e' t) c = Some s" and b: "heap (hset sa e' t) b = Some s'"
    and eq: "stack_tid s = stack_tid s'" for c b s s'
  proof -
    obtain z where "heap t c = Some z" "stack_tid z = stack_tid s" using old [OF c] by blast
    moreover obtain z' where "heap t b = Some z'" "stack_tid z' = stack_tid s'" using old [OF b] by blast
    ultimately show ?thesis using uniq [of c z b z'] eq by simp
  qed
  with inv show ?thesis unfolding stacks_wf_def by blast
qed

lemma link_inv_stack:
  assumes link: "link_inv I t" and x: "I i = Some x" and free: "stack_array x k = None" "k < 32"
    and sa: "heap t sa = None" and h: "heap u = (heap t)(sa \<mapsto> s)" "stack_index s = word_of_nat k"
    and y: "stack_array y = (stack_array x)(k \<mapsto> sa)" "stack_cnt y = stack_cnt x + 1" "reg_state y = Rqt_reg_thrd_ring"
  shows "link_inv (I(i := Some y)) u"
proof -
  note L = link_invD [OF link]
  have other: "l = l' \<and> False" if "I j = Some z" "stack_array z l = Some sa" for j z l l'
    using array_okD(2) [OF L(1) [OF that(1)] that(2)] sa by simp
  have keep: "array_ok z u" if "I j = Some z" for j z
    using L(1) [OF that] other [OF that] unfolding array_ok_def h(1) by (metis fun_upd_other)
  have dom: "{l. stack_array y l \<noteq> None} = insert k {l. stack_array x l \<noteq> None}" using y(1) by auto
  have fin: "finite {l. stack_array x l \<noteq> None}" and sub: "{l. stack_array x l \<noteq> None} \<subseteq> {..<32}"
    using array_okD(4) [OF L(1) [OF x]] L(1) [OF x] by (simp_all add: array_ok_def)
  have "card {l. stack_array x l \<noteq> None} \<le> 32" using card_mono [OF finite_lessThan sub] by simp
  then have "unat (stack_cnt x) \<le> 32" using array_okD(3) [OF L(1) [OF x]] by simp
  then have "unat (stack_cnt y) = Suc (unat (stack_cnt x))" by (simp add: y(2) unat_plus_small)
  moreover have "\<exists>s. heap u sb = Some s \<and> stack_index s = word_of_nat l" if "stack_array y l = Some sb" for l sb
  proof (cases "l = k")
    case True
    then show ?thesis using that y(1) h by simp
  next
    case False
    then have "stack_array x l = Some sb" using that y(1) by simp
    then show ?thesis using array_okD(2) [OF keep [OF x]] by blast
  qed
  ultimately have ok: "array_ok y u"
    using array_okD(3) [OF L(1) [OF x]] fin free sub unfolding array_ok_def dom by simp
  have "\<exists>j z l. (I(i := Some y)) j = Some z \<and> stack_array z l = Some b" if b: "heap u b = Some e" for b e
  proof (cases "b = sa")
    case True
    then show ?thesis using y(1) by (intro exI [of _ i] exI [of _ y] exI [of _ k]) simp
  next
    case False
    then have "heap t b = Some e" using b h(1) by simp
    from link_inv_owned [OF link this] obtain j z l where z: "I j = Some z" "stack_array z l = Some b" by blast
    show ?thesis
    proof (cases "j = i")
      case True
      then have "l \<noteq> k" using z x free(1) by auto
      then show ?thesis using z x True y(1) by (intro exI [of _ i] exI [of _ y] exI [of _ l]) simp
    next
      case False
      then show ?thesis using z by (intro exI [of _ j] exI [of _ z] exI [of _ l]) simp
    qed
  qed
  moreover have "j = i" if "I j = Some z" "stack_array z l = Some b" "stack_array y m = Some b" for j z l b m
    using that L(4) [OF x that(1)] other [OF that(1)] y(1) by (cases "m = k") auto
  ultimately show ?thesis
    unfolding link_inv_def using ok keep L(4) y(3) link unfolding link_inv_def by (auto split: if_splits)
qed

section \<open>Every registration message is answered and keeps the tables\<close>

lemma ctl_invD:
  assumes "ctl_inv hf C"
  shows "mgr_inv C" "no_leak C" "stacks_wf hf (stacks C)" "link_inv (inst_at C) (stacks C)"
  using assms unfolding ctl_inv_def by blast+

lemma ctl_inv_cong:
  assumes "ctl_inv hf C" and "mgr D = mgr C" and "insts D = insts C" and "stacks D = stacks C"
  shows "ctl_inv hf D"
proof -
  have "inst_at D = inst_at C" using assms(2,3) by (auto simp: inst_at_def)
  then show ?thesis using assms mgr_inv_cong [of D C] by (simp add: ctl_inv_def no_leak_def)
qed

lemma inst_slot: "mgr_inv C \<Longrightarrow> instances (mgr C) i = Some a \<Longrightarrow> instances (mgr C) j = Some a \<Longrightarrow> i = j"
  using mgr_invD(3) [of C i a] mgr_invD(3) [of C j a] by fastforce

text \<open>An instance changed in place, with its stack table.\<close>

lemma ctl_inv_upd:
  assumes inv: "ctl_inv hf C" and i: "instances (mgr C) i = Some a" "insts C a = Some x"
    and D: "mgr D = mgr C" "insts D = (insts C)(a \<mapsto> y)" and keep: "inst_pid y = inst_pid x" "inst_cur_tick y = inst_cur_tick x"
    and t: "stacks_wf hf (stacks D)" "link_inv ((inst_at C)(i := Some y)) (stacks D)"
  shows "ctl_inv hf D"
proof -
  note I = ctl_invD [OF inv]
  have "mgr_inv (inst_upd a (\<lambda>_. y) C)" by (rule mgr_inv_upd [OF I(1)]) (use i keep in auto)
  moreover have "insts (inst_upd a (\<lambda>_. y) C) = insts D" using i(2) D(2) by simp
  ultimately have m: "mgr_inv D" using mgr_inv_cong [of D "inst_upd a (\<lambda>_. y) C"] D(1) by simp
  have "inst_at D = (inst_at C)(i := Some y)"
  proof
    fix j
    show "inst_at D j = ((inst_at C)(i := Some y)) j"
    proof (cases "instances (mgr C) j = Some a")
      case True
      then show ?thesis using inst_slot [OF I(1) i(1) True] D by (simp add: inst_at_def)
    next
      case False
      then have "j \<noteq> i" using i(1) by auto
      then show ?thesis using False D by (cases "instances (mgr C) j") (auto simp: inst_at_def)
    qed
  qed
  moreover have "no_leak D" using I(2) i(1) D by (auto simp: no_leak_def)
  ultimately show ?thesis using m t by (simp add: ctl_inv_def)
qed

lemma proc_mem_total:
  assumes inv: "mgr_inv C" and ok: "ctl_ok E"
  shows "\<exists>r D. handle_reg_msg_proc_mem E fd c C = Some (r, D)"
proof -
  have "instance_info_check E C c \<noteq> None"
    by (cases rule: get_by_pid_cases [OF inv, of "proc_pid c"]) (auto simp: instance_info_check_def Let_def)
  then obtain b where b: "instance_info_check E C c = Some b" by blast
  obtain g where g: "gazelle_instance_get_by_pid C (proc_pid c) = Some g"
    by (cases rule: get_by_pid_cases [OF inv, of "proc_pid c"]) auto
  have "gazelle_instance_add_by_pid E C (proc_pid c) \<noteq> None"
    using g by (cases g) (auto simp: gazelle_instance_add_by_pid_def Let_def split: option.splits)
  then obtain i C1 where add: "gazelle_instance_add_by_pid E C (proc_pid c) = Some (i, C1)" by fast
  show ?thesis
  proof (cases "b \<and> i \<noteq> None")
    case False
    then show ?thesis using b add by (auto simp: handle_reg_msg_proc_mem_def)
  next
    case True
    then obtain a where a: "i = Some a" by blast
    have "gazelle_instance_get_by_pid C (proc_pid c) = Some None" using info_check_law [OF inv] b True by simp
    then have "insts C1 a \<noteq> None"
      using add a by (auto simp: gazelle_instance_add_by_pid_def Let_def split: if_splits option.splits)
    then show ?thesis using b add a True
      by (auto simp: handle_reg_msg_proc_mem_def Let_def split_def split: option.splits if_splits)
  qed
qed

lemma proc_mem_ctl_inv:
  assumes inv: "ctl_inv hf C" and ok: "ctl_ok E" and h: "handle_reg_msg_proc_mem E fd c C = Some (r, D)"
  shows "ctl_inv hf D"
proof (cases rule: proc_mem_split [OF ctl_invD(1) [OF inv] ok h])
  case 1
  then show ?thesis using ctl_inv_cong [OF inv] by simp
next
  case (2 i a y)
  note I = ctl_invD [OF inv]
  have other: "instances (mgr C) j \<noteq> Some a" for j using mgr_invD(3) [OF I(1), of j a] 2(1) by auto
  have "inst_at D = (inst_at C)(i := Some y)"
  proof
    fix j show "inst_at D j = ((inst_at C)(i := Some y)) j"
      using other [of j] 2(5,6) by (cases "instances (mgr C) j") (auto simp: inst_at_def)
  qed
  moreover have "link_inv ((inst_at C)(i := Some y)) (stacks C)"
    by (rule link_inv_add [OF I(4)]) (use 2 in \<open>auto simp: inst_at_def\<close>)
  moreover have "no_leak D"
    unfolding no_leak_def
  proof (intro allI impI)
    fix b x assume b: "insts D b = Some x"
    show "\<exists>j. instances (mgr D) j = Some b"
    proof (cases "b = a")
      case True
      then show ?thesis using 2(6) by (intro exI [of _ i]) simp
    next
      case False
      then obtain j where "instances (mgr C) j = Some b" using I(2) b 2(5) by (auto simp: no_leak_def)
      then show ?thesis using 2(2,6) by (intro exI [of _ j]) auto
    qed
  qed
  ultimately show ?thesis using 2(3,4) I(3) by (simp add: ctl_inv_def)
qed

lemma proc_att_ctl:
  assumes inv: "ctl_inv hf C"
    and early: "\<And>i x. inst_at C i = Some x \<Longrightarrow> inst_pid x = proc_pid c \<Longrightarrow> reg_state x \<noteq> Rqt_reg_thrd_ring"
  shows "\<exists>r D. handle_reg_msg_proc_att E fd c C = Some (r, D) \<and> ctl_inv hf D"
proof (cases rule: get_by_pid_cases [OF ctl_invD(1) [OF inv], of "proc_pid c"])
  case (1 i a x)
  note I = ctl_invD [OF inv]
  have "handle_reg_msg_proc_att E fd c C \<noteq> None" using 1 by (auto simp: handle_reg_msg_proc_att_def Let_def)
  then obtain r D where h: "handle_reg_msg_proc_att E fd c C = Some (r, D)" by fast
  have "mgr D = mgr C \<and> stacks D = stacks C \<and> (insts D = insts C \<or>
      (\<exists>y. insts D = (insts C)(a \<mapsto> y) \<and> inst_pid y = inst_pid x \<and> inst_cur_tick y = inst_cur_tick x \<and>
        stack_array y = stack_array x \<and> stack_cnt y = stack_cnt x \<and> reg_state y = Rqt_reg_proc_att))"
    using h 1 by (auto simp: handle_reg_msg_proc_att_def Let_def split: if_splits
        intro: exI [of _ "x\<lparr>reg_state := Rqt_reg_proc_att\<rparr>"]
          exI [of _ "x\<lparr>reg_state := Rqt_reg_proc_att, inst_reg_tick := instance_cur_tick (mgr C) (inst_cur_tick x)\<rparr>"])
  then have "ctl_inv hf D"
  proof (elim conjE disjE exE)
    assume "mgr D = mgr C" "stacks D = stacks C" "insts D = insts C"
    then show ?thesis using ctl_inv_cong [OF inv] by simp
  next
    fix y assume m: "mgr D = mgr C" and t: "stacks D = stacks C" and y: "insts D = (insts C)(a \<mapsto> y)" "inst_pid y = inst_pid x"
      "inst_cur_tick y = inst_cur_tick x" "stack_array y = stack_array x" "stack_cnt y = stack_cnt x" "reg_state y = Rqt_reg_proc_att"
    have "stack_array x = (\<lambda>_. None)" using link_invD(3) [OF I(4) 1(3)] early [OF 1(3,4)] by blast
    then have "link_inv ((inst_at C)(i := Some y)) (stacks C)"
      by (intro link_inv_same [OF I(4) 1(3)]) (use y in auto)
    then show ?thesis using I(3) t by (intro ctl_inv_upd [OF inv 1(1,2) m y(1-3)]) simp_all
  qed
  then show ?thesis using h by blast
next
  case 2
  then have "handle_reg_msg_proc_att E fd c C = Some (False, simple_response fd Rsp_err C)" by (simp add: handle_reg_msg_proc_att_def)
  moreover have "ctl_inv hf (simple_response fd Rsp_err C)" by (rule ctl_inv_cong [OF inv]) simp_all
  ultimately show ?thesis by blast
qed

lemma free_idx:
  assumes x: "array_ok x t" and c: "\<not> stack_cnt x > 31"
  shows "\<exists>k. gazelle_get_free_stack_idx x = Some k \<and> k < 32 \<and> stack_array x k = None"
proof -
  have "card {k. stack_array x k \<noteq> None} < 32"
    using array_okD(3) [OF x] c by (simp add: word_less_nat_alt)
  then have "{k. stack_array x k \<noteq> None} \<noteq> {..<32}" by auto
  then obtain k where "k < 32" "stack_array x k = None" using x unfolding array_ok_def by blast
  then have "find (\<lambda>i. stack_array x i = None) [0..<32] \<noteq> None" by (auto simp: find_None_iff)
  then obtain j where j: "find (\<lambda>i. stack_array x i = None) [0..<32] = Some j" by blast
  from find_Some_in [OF this] show ?thesis using j
    by (simp add: gazelle_get_free_stack_idx_def gazelle_max_stack_array_size_def)
qed

lemma thrd_ring_ctl:
  assumes inv: "ctl_inv (hash E) C" and ok: "ctl_ok E"
    and fresh: "(\<exists>a. gazelle_stack_get_by_tid (hash E) (instance_cur_tick (mgr C)) (stacks C) (thrd_tid c) = Some (Some a)) \<or>
      (\<forall>a s. heap (stacks C) a = Some s \<longrightarrow> stack_tid s \<noteq> thrd_tid c)"
  shows "\<exists>r D. handle_reg_msg_thrd_ring E fd c C = Some (r, D) \<and> ctl_inv (hash E) D"
proof -
  note I = ctl_invD [OF inv]
  obtain ex where ex: "gazelle_stack_get_by_tid (hash E) (instance_cur_tick (mgr C)) (stacks C) (thrd_tid c) = Some ex"
    using stack_get_find [OF stacks_wf_inv [OF I(3)]] by blast
  have resp: "ctl_inv (hash E) (simple_response fd ty C)" for ty by (rule ctl_inv_cong [OF inv]) simp_all
  show ?thesis
  proof (cases ex)
    case (Some e)
    then have "handle_reg_msg_thrd_ring E fd c C = Some (write_ok E, simple_response fd Rsp_ok C)"
      using ex by (simp add: handle_reg_msg_thrd_ring_def)
    then show ?thesis using resp by blast
  next
    case None
    then have new: "\<And>a s. heap (stacks C) a = Some s \<Longrightarrow> stack_tid s \<noteq> thrd_tid c" using fresh ex by auto
    show ?thesis
    proof (cases rule: get_by_pid_cases [OF I(1), of "thrd_pid c"])
      case 2
      then have "handle_reg_msg_thrd_ring E fd c C = Some (False, simple_response fd Rsp_err C)"
        using ex None by (simp add: handle_reg_msg_thrd_ring_def)
      then show ?thesis using resp by blast
    next
      case (1 i a x)
      show ?thesis
      proof (cases "stack_cnt x > 31 \<or> cur_num (stacks C) = max_num (stacks C) \<or> new_stk E (stacks C) = None")
        case True
        then have "handle_reg_msg_thrd_ring E fd c C = Some (False, simple_response fd Rsp_err C)"
          using ex None 1 by (auto simp: handle_reg_msg_thrd_ring_def gazelle_stack_add_by_tid_def)
        then show ?thesis using resp by blast
      next
        case False
        then obtain sa where sa: "new_stk E (stacks C) = Some sa" by blast
        have free: "heap (stacks C) sa = None" using ok sa by (simp add: ctl_ok_def)
        obtain k where k: "gazelle_get_free_stack_idx x = Some k" "k < 32" "stack_array x k = None"
          using free_idx [OF link_invD(1) [OF I(4) 1(3)]] False by blast
        let ?b = "gazelle_stack_hbucket_get_by_tid (hash E) (thrd_tid c)"
        let ?t = "hadd ?b sa (new_stack (thrd_tid c)) (stacks C)"
        let ?s = "(new_stack (thrd_tid c))\<lparr>reg_ring := thrd_reg_ring c, tx_ring := thrd_tx_ring c, rx_ring := thrd_rx_ring c,
          stack_index := word_of_nat k\<rparr>"
        let ?s' = "if write_ok E then ?s\<lparr>stack_reg_tick := inst_reg_tick x, stack_cur_tick := MgrTick (inst_cur_tick x)\<rparr> else ?s"
        let ?y = "x\<lparr>stack_array := (stack_array x)(k \<mapsto> sa), stack_cnt := stack_cnt x + 1, reg_state := Rqt_reg_thrd_ring\<rparr>"
        have add: "gazelle_stack_add_by_tid (hash E) (Some sa) (stacks C) (thrd_tid c) = (Some sa, ?t)"
          using False by (simp add: gazelle_stack_add_by_tid_def)
        have h: "heap ?t sa = Some (new_stack (thrd_tid c))" by (simp add: hadd_def)
        have "\<exists>D. handle_reg_msg_thrd_ring E fd c C = Some (write_ok E, D) \<and> mgr D = mgr C \<and> insts D = (insts C)(a \<mapsto> ?y) \<and>
          stacks D = hset sa ?s' ?t"
          using ex None 1(2,6) False add h k(1) sa
          by (simp add: handle_reg_msg_thrd_ring_def Let_def hset_def)
        then obtain D where D: "handle_reg_msg_thrd_ring E fd c C = Some (write_ok E, D)" "mgr D = mgr C"
          "insts D = (insts C)(a \<mapsto> ?y)" "stacks D = hset sa ?s' ?t" by blast
        have tid: "stack_tid (new_stack (thrd_tid c)) = thrd_tid c" by (simp add: new_stack_def)
        have "stacks_wf (hash E) (hset sa ?s' (hadd (gazelle_stack_hbucket_get_by_tid (hash E) (stack_tid (new_stack (thrd_tid c)))) sa
            (new_stack (thrd_tid c)) (stacks C)))"
          by (rule stacks_wf_add [OF I(3) free]) (use False new tid in auto)
        then have wf: "stacks_wf (hash E) (stacks D)" unfolding D(4) tid .
        have "link_inv ((inst_at C)(i := Some ?y)) (stacks D)"
          by (rule link_inv_stack [OF I(4) 1(3) k(3,2) free, where s = ?s']) (simp_all add: D(4) hset_def hadd_def)
        then have "ctl_inv (hash E) D" by (intro ctl_inv_upd [OF inv 1(1,2) D(2,3)] wf) simp_all
        then show ?thesis using D(1) by blast
      qed
    qed
  qed
qed

section \<open>The logout\<close>

lemma stacks_wf_del:
  assumes wf: "stacks_wf hf t" and s: "heap t sa = Some s"
  shows "\<exists>ms. gazelle_stack_del_by_tid hf no_cursor t (stack_tid s) = Some (ms, hdel (gazelle_stack_hbucket_get_by_tid hf (stack_tid s)) sa t)"
    and "stacks_wf hf (hdel (gazelle_stack_hbucket_get_by_tid hf (stack_tid s)) sa t)"
proof -
  let ?b = "gazelle_stack_hbucket_get_by_tid hf (stack_tid s)"
  have inv: "htable_inv stack_htable_size (\<lambda>s. gazelle_stack_hbucket_get_by_tid hf (stack_tid s)) t"
    using wf unfolding stacks_wf_def by blast
  show "\<exists>ms. gazelle_stack_del_by_tid hf no_cursor t (stack_tid s) = Some (ms, hdel ?b sa t)"
    using stacks_wf_scan_at [OF wf s] s by (simp add: gazelle_stack_del_by_tid_def Let_def)
  have "htable_inv stack_htable_size (\<lambda>s. gazelle_stack_hbucket_get_by_tid hf (stack_tid s)) (hdel ?b sa t)"
    using heap_in_chain [OF inv s] by (intro hdel_inv [OF inv]) simp_all
  moreover have "\<forall>a b z z'. heap (hdel ?b sa t) a = Some z \<longrightarrow> heap (hdel ?b sa t) b = Some z' \<longrightarrow> stack_tid z = stack_tid z' \<longrightarrow> a = b"
    using wf unfolding stacks_wf_def hdel_def by (auto split: if_splits)
  ultimately show "stacks_wf hf (hdel ?b sa t)" unfolding stacks_wf_def by blast
qed

definition owned :: "gazelle_instance \<Rightarrow> addr set" where
  "owned x = {sa. \<exists>k. stack_array x k = Some sa}"

text \<open>The loop removes the instance's stacks and nothing else, and empties the array.\<close>

lemma stack_logout_step:
  assumes ok: "ctl_ok E" and wf: "stacks_wf (hash E) t" and x: "array_ok x t" and k: "stack_array x k = Some sa"
  obtains y u where "handle_stack_logout E x sa t = Some (y, u)" "stacks_wf (hash E) u" "array_ok y u"
    "stack_array y = (stack_array x)(k := None)" "heap u = (heap t)(sa := None)"
    "base_virtaddr y = base_virtaddr x" "socket_size y = socket_size x"
proof -
  obtain s where s: "heap t sa = Some s" "stack_index s = word_of_nat k" using array_okD(2) [OF x k] by blast
  have ix: "nat (sint (stack_index s)) = k" using small_index array_okD(1) [OF x k] s(2) by simp
  let ?u = "hdel (gazelle_stack_hbucket_get_by_tid (hash E) (stack_tid s)) sa t"
  let ?y = "x\<lparr>stack_array := (stack_array x)(k := None), stack_cnt := stack_cnt x - 1\<rparr>"
  have cur: "cursor E = no_cursor" using ok by (simp add: ctl_ok_def)
  obtain ms where del: "gazelle_stack_del_by_tid (hash E) no_cursor t (stack_tid s) = Some (ms, ?u)"
    using stacks_wf_del(1) [OF wf s(1)] by blast
  have run: "handle_stack_logout E x sa t = Some (?y, ?u)"
    using s(1) del by (simp add: handle_stack_logout_def ix cur Let_def)
  have dom: "{l. stack_array ?y l \<noteq> None} = {l. stack_array x l \<noteq> None} - {k}" by auto
  have fin: "finite {l. stack_array x l \<noteq> None}" and mem: "k \<in> {l. stack_array x l \<noteq> None}"
    using array_okD(4) [OF x] k by simp_all
  have pos: "0 < card {l. stack_array x l \<noteq> None}" using fin mem by (auto simp: card_gt_0_iff)
  have "card {l. stack_array ?y l \<noteq> None} = card {l. stack_array x l \<noteq> None} - 1"
    unfolding dom using fin mem by (simp add: card_Diff_singleton)
  moreover have "unat (stack_cnt x - 1) = unat (stack_cnt x) - 1" using pos array_okD(3) [OF x] by (simp add: unat_minus_le)
  ultimately have cnt: "unat (stack_cnt ?y) = card {l. stack_array ?y l \<noteq> None}" using array_okD(3) [OF x] by simp
  have "\<exists>z. heap ?u sb = Some z \<and> stack_index z = word_of_nat l" if l: "stack_array ?y l = Some sb" for l sb
  proof -
    have l': "stack_array x l = Some sb" "l \<noteq> k" using l by (auto split: if_splits)
    then have "sb \<noteq> sa" using array_inj [OF x] k by blast
    then show ?thesis using array_okD(2) [OF x l'(1)] by (simp add: hdel_def)
  qed
  then have "array_ok ?y ?u" using x cnt unfolding array_ok_def dom by auto
  then show thesis using that [OF run stacks_wf_del(2) [OF wf s(1)]] by (simp add: hdel_def)
qed

lemma logout_stacks_law:
  assumes ok: "ctl_ok E" and wf: "stacks_wf (hash E) t" and x: "array_ok x t"
    and sub: "{k. stack_array x k \<noteq> None} \<subseteq> set ks"
  shows "\<exists>y u. logout_stacks E ks x t = Some (y, u) \<and> stacks_wf (hash E) u \<and> heap u = heap t |` (- owned x) \<and>
    base_virtaddr y = base_virtaddr x \<and> socket_size y = socket_size x"
  using wf x sub
proof (induction ks arbitrary: x t)
  case Nil
  then have "owned x = {}" by (auto simp: owned_def)
  then show ?case using Nil by simp
next
  case (Cons k ks)
  show ?case
  proof (cases "stack_cnt x = 0")
    case True
    then have "{k. stack_array x k \<noteq> None} = {}" using array_okD(3,4) [OF Cons.prems(2)] by simp
    then have "owned x = {}" by (auto simp: owned_def)
    then show ?thesis using True Cons.prems(1) by simp
  next
    case busy: False
    show ?thesis
    proof (cases "stack_array x k")
      case None
      then have "{k. stack_array x k \<noteq> None} \<subseteq> set ks" using Cons.prems(3) by auto
      then show ?thesis using Cons.IH [OF Cons.prems(1,2)] busy None by simp
    next
      case (Some sa)
      obtain y u where y: "handle_stack_logout E x sa t = Some (y, u)" "stacks_wf (hash E) u" "array_ok y u"
        "stack_array y = (stack_array x)(k := None)" "heap u = (heap t)(sa := None)"
        "base_virtaddr y = base_virtaddr x" "socket_size y = socket_size x"
        using stack_logout_step [OF ok Cons.prems(1,2) Some] .
      have sub: "{l. stack_array y l \<noteq> None} \<subseteq> set ks" using Cons.prems(3) y(4) by (auto split: if_splits)
      have own: "owned x = insert sa (owned y)"
      proof (intro set_eqI iffI)
        fix z assume "z \<in> owned x"
        then obtain l where l: "stack_array x l = Some z" by (auto simp: owned_def)
        show "z \<in> insert sa (owned y)"
        proof (cases "l = k")
          case True
          then show ?thesis using l Some by simp
        next
          case False
          then have "stack_array y l = Some z" using l y(4) by simp
          then show ?thesis by (auto simp: owned_def)
        qed
      next
        fix z assume "z \<in> insert sa (owned y)"
        then show "z \<in> owned x" using Some y(4) by (auto simp: owned_def split: if_splits)
      qed
      have "heap u |` (- owned y) = heap t |` (- owned x)" unfolding own y(5) by (auto simp: restrict_map_def)
      then show ?thesis using Cons.IH [OF y(2,3) sub] busy Some y(1,6,7) by simp
    qed
  qed
qed

lemma link_inv_del:
  assumes link: "link_inv I t" and x: "I i = Some x" and h: "heap u = heap t |` (- owned x)"
  shows "link_inv (I(i := None)) u"
proof -
  note L = link_invD [OF link]
  have "array_ok z u" if z: "I j = Some z" "j \<noteq> i" for j z
  proof -
    have out: "sa \<notin> owned x" if "stack_array z k = Some sa" for k sa
      using L(4) [OF x z(1)] that z(2) by (auto simp: owned_def)
    have "\<exists>s. heap u sa = Some s \<and> stack_index s = word_of_nat k" if "stack_array z k = Some sa" for k sa
      using array_okD(2) [OF L(1) [OF z(1)] that] out [OF that] by (simp add: h)
    then show ?thesis using L(1) [OF z(1)] unfolding array_ok_def by blast
  qed
  moreover have "\<exists>j z k. (I(i := None)) j = Some z \<and> stack_array z k = Some b" if b: "heap u b = Some e" for b e
  proof -
    have o: "b \<notin> owned x" "heap t b = Some e" using b by (auto simp: h restrict_map_def split: if_splits)
    obtain j z k where z: "I j = Some z" "stack_array z k = Some b" using link_inv_owned [OF link o(2)] by blast
    then have "j \<noteq> i" using x o(1) by (auto simp: owned_def)
    then show ?thesis using z by (intro exI [of _ j] exI [of _ z] exI [of _ k]) simp
  qed
  ultimately show ?thesis using L(2,3,4) unfolding link_inv_def by (auto split: if_splits)
qed

lemma owned_empty: "stack_array x = (\<lambda>_. None) \<Longrightarrow> heap t |` (- owned x) = heap t"
  by (auto simp: owned_def restrict_map_def)

lemma logout_law:
  assumes inv: "ctl_inv (hash E) C" and ok: "ctl_ok E"
    and i: "instances (mgr C) i = Some a" "insts C a = Some x" "inst_pid x = pid"
  shows "\<exists>D. handle_instance_logout E pid C = Some D \<and> ctl_inv (hash E) D \<and>
    mgr D = (mgr C)\<lparr>instance_cur_tick := (instance_cur_tick (mgr C))(i := instance_cur_tick (mgr C) i + 1),
      cur_instance_num := cur_instance_num (mgr C) - 1, instances := (instances (mgr C))(i := None)\<rparr> \<and>
    insts D = (insts C)(a := None) \<and> heap (stacks D) = heap (stacks C) |` (- owned x) \<and>
    reserved D = (if reg_state x = Rqt_reg_proc_mem then remove_virtual_area (base_virtaddr x) (socket_size x) (reserved C)
      else reserved C) \<and>
    next_addr D = next_addr C"
proof -
  note I = ctl_invD [OF inv]
  have at: "inst_at C i = Some x" using i by (simp add: inst_at_def)
  have tick: "inst_cur_tick x = i" using mgr_invD(3) [OF I(1) i(1)] i(2) by simp
  note L = link_invD [OF I(4) at]
  let ?C = "C\<lparr>mgr := (mgr C)\<lparr>instance_cur_tick := (instance_cur_tick (mgr C))(i := instance_cur_tick (mgr C) i + 1)\<rparr>\<rparr>"
  let ?m = "(mgr C)\<lparr>instance_cur_tick := (instance_cur_tick (mgr C))(i := instance_cur_tick (mgr C) i + 1),
      cur_instance_num := cur_instance_num (mgr C) - 1, instances := (instances (mgr C))(i := None)\<rparr>"
  have inv': "mgr_inv ?C" using I(1) by (simp add: mgr_inv_def inst_at_def)
  have at': "inst_at ?C i = Some x" using at by (simp add: inst_at_def)
  have null: "gazelle_set_instance_null_by_pid ?C pid = Some (?C\<lparr>mgr := ?m\<rparr>)" "mgr_inv (?C\<lparr>mgr := ?m\<rparr>)"
    using set_null_law [OF inv' at' i(3)] by simp_all
  have get: "gazelle_instance_get_by_pid C pid = Some (Some a)" using get_by_pid_law(1) [OF I(1) at i(3)] i(1) by simp
  obtain y u where loop: "handle_inst_logout_for_reg_thrd_ring E x (stacks C) = Some (y, u)" "stacks_wf (hash E) u"
    "heap u = heap (stacks C) |` (- owned x)"
    using logout_stacks_law [OF ok I(3) L(1), of "[0..<gazelle_max_stack_array_size]"] array_okD(1) [OF L(1)]
    by (fastforce simp: handle_inst_logout_for_reg_thrd_ring_def gazelle_max_stack_array_size_def)
  let ?t = "if reg_state x = Rqt_reg_thrd_ring then u else stacks C"
  have t: "heap ?t = heap (stacks C) |` (- owned x)" "stacks_wf (hash E) ?t"
    using loop(2,3) I(3) by (simp_all add: owned_empty L(3))
  have "\<exists>D. handle_instance_logout E pid C = Some D \<and> mgr D = ?m \<and> insts D = (insts C)(a := None) \<and> stacks D = ?t \<and>
      reserved D = (if reg_state x = Rqt_reg_proc_mem then remove_virtual_area (base_virtaddr x) (socket_size x) (reserved C)
        else reserved C) \<and> next_addr D = next_addr C"
    using L(2) get i(2) null(1) loop(1)
    by (auto simp: handle_instance_logout_def tick Let_def handle_inst_logout_reg_proc_mem_def handle_inst_logout_reg_proc_att_def
        remove_virtual_area_def)
  then obtain D where D: "handle_instance_logout E pid C = Some D" "mgr D = ?m" "insts D = (insts C)(a := None)" "stacks D = ?t"
    "reserved D = (if reg_state x = Rqt_reg_proc_mem then remove_virtual_area (base_virtaddr x) (socket_size x) (reserved C)
        else reserved C)" "next_addr D = next_addr C" by blast
  have atD: "inst_at D j = ((inst_at C)(i := None)) j" for j
  proof (cases "instances (mgr C) j = Some a")
    case True
    then show ?thesis using inst_slot [OF I(1) i(1) True] D(2) by (simp add: inst_at_def)
  next
    case False
    then show ?thesis using D(2,3) i(1) by (cases "instances (mgr C) j") (auto simp: inst_at_def)
  qed
  then have "inst_at D = (inst_at C)(i := None)" by blast
  moreover have "link_inv ((inst_at C)(i := None)) (stacks D)" by (rule link_inv_del [OF I(4) at]) (simp only: D(4) t)
  moreover have "no_leak D"
    unfolding no_leak_def
  proof (intro allI impI)
    fix b z assume "insts D b = Some z"
    then have b: "insts C b = Some z" "b \<noteq> a" using D(3) by (auto split: if_splits)
    then obtain j where j: "instances (mgr C) j = Some b" using I(2) by (auto simp: no_leak_def)
    then have "j \<noteq> i" using i(1) b(2) by auto
    then show "\<exists>j. instances (mgr D) j = Some b" using j D(2) by (intro exI [of _ j]) simp
  qed
  moreover have "mgr_inv D"
  proof -
    have n: "instances (mgr (?C\<lparr>mgr := ?m\<rparr>)) j = Some b \<Longrightarrow> b \<noteq> a" for j b
      using inst_slot [OF I(1) i(1), of j] by (auto split: if_splits)
    have "inst_at (?C\<lparr>mgr := ?m\<rparr>) j = inst_at D j" for j
      using n [of j] D(2,3) by (auto simp: inst_at_def split: bind_splits if_splits)
    moreover have "\<exists>z. insts D b = Some z \<and> inst_cur_tick z = j" if b: "instances ?m j = Some b" for j b
      using mgr_invD(3) [OF null(2), of j b] n [of j b] b D(3) by simp
    ultimately show ?thesis using null(2) D(2) unfolding mgr_inv_def by auto
  qed
  ultimately have "ctl_inv (hash E) D" using t(2) D(4) by (simp add: ctl_inv_def)
  then show ?thesis using D t(1) by (intro exI [of _ D]) simp
qed

section \<open>Runs of the control thread\<close>

datatype ctl_msg =
  Reg_mem i32 client_proc_conf | Reg_att i32 client_proc_conf | Reg_ring i32 client_thrd_conf | Logout u32

fun ctl_step :: "ctl_env \<Rightarrow> ctl_msg \<Rightarrow> ltran_ctl \<Rightarrow> ltran_ctl option" where
  "ctl_step E (Reg_mem fd c) C = map_option snd (handle_reg_msg_proc_mem E fd c C)"
| "ctl_step E (Reg_att fd c) C = map_option snd (handle_reg_msg_proc_att E fd c C)"
| "ctl_step E (Reg_ring fd c) C = map_option snd (handle_reg_msg_thrd_ring E fd c C)"
| "ctl_step E (Logout pid) C = handle_instance_logout E pid C"

fun ctl_run :: "(ctl_env \<times> ctl_msg) list \<Rightarrow> ltran_ctl \<Rightarrow> ltran_ctl option" where
  "ctl_run [] C = Some C"
| "ctl_run ((E, m) # es) C = Option.bind (ctl_step E m C) (ctl_run es)"

text \<open>
  The order a client keeps: a process attaches before its threads register, and a thread that
  registers is either known and switched on, or its id is not in the table.
\<close>

fun in_order :: "ctl_env \<Rightarrow> ctl_msg \<Rightarrow> ltran_ctl \<Rightarrow> bool" where
  "in_order E (Reg_att fd c) C =
     (case gazelle_instance_get_by_pid C (proc_pid c) of
        Some (Some a) \<Rightarrow> map_option reg_state (insts C a) \<noteq> Some Rqt_reg_thrd_ring | _ \<Rightarrow> True)"
| "in_order E (Reg_ring fd c) C =
     (let tid = thrd_tid c in
      (case gazelle_stack_get_by_tid (hash E) (instance_cur_tick (mgr C)) (stacks C) tid of Some (Some _) \<Rightarrow> True | _ \<Rightarrow>
        hscan (\<lambda>s. stack_tid s = tid) (heap (stacks C)) (chain (stacks C) (gazelle_stack_hbucket_get_by_tid (hash E) tid)) =
          Some None))"
| "in_order E m C = True"

fun run_in_order :: "(ctl_env \<times> ctl_msg) list \<Rightarrow> ltran_ctl \<Rightarrow> bool" where
  "run_in_order [] C = True"
| "run_in_order ((E, m) # es) C = (in_order E m C \<and> (case ctl_step E m C of Some D \<Rightarrow> run_in_order es D | None \<Rightarrow> True))"

definition ctl_init :: "gazelle_instance_mgr \<Rightarrow> gazelle_stack htable \<Rightarrow> ltran_ctl" where
  "ctl_init m t = \<lparr>mgr = m, insts = Map.empty, stacks = t, next_addr = map_addr_head, reserved = [], responses = []\<rparr>"

lemma ctl_init_inv:
  assumes "gazelle_instance_mgr_create ok c = Some m" and "unat (num_clients c) \<le> 32"
    and "gazelle_stack_htable_create ok' n = Some t"
  shows "ctl_inv hf (ctl_init m t)"
proof -
  have m: "m = \<lparr>cur_instance_num = 0, max_instance_num = ucast (num_clients c), instance_cur_tick = (\<lambda>_. 0),
        instances = (\<lambda>_. None), net_mask = ntohl (ipv4_net_mask c), subnet_size = ipv4_subnet_size c\<rparr>"
    using assms(1) by (auto simp: gazelle_instance_mgr_create_def split: if_splits)
  have t: "t = htable_empty n" using assms(3) by (auto simp: gazelle_stack_htable_create_def split: if_splits)
  have at: "inst_at (ctl_init m t) i = None" for i by (simp add: inst_at_def ctl_init_def m)
  have "unat (ucast (num_clients c) :: u32) = unat (num_clients c)" 
    using unsigned_less [of "num_clients c", where ?'a = nat] by (simp add: unsigned_ucast_eq take_bit_nat_eq_self)
  then have "mgr_inv (ctl_init m t)" using assms(2) at by (simp add: mgr_inv_def) (simp add: ctl_init_def m gazelle_max_instance_num_def)
  moreover have "stacks_wf hf t" using htable_inv_empty by (simp add: stacks_wf_def t) (simp add: htable_empty_def)
  moreover have "link_inv (inst_at (ctl_init m t)) t" using at by (simp add: link_inv_def) (simp add: t htable_empty_def)
  ultimately show ?thesis by (simp add: ctl_inv_def no_leak_def) (simp add: ctl_init_def)
qed

lemma ctl_step_inv:
  assumes inv: "ctl_inv (hash E) C" and ok: "ctl_ok E" and ord: "in_order E m C"
  shows "\<exists>D. ctl_step E m C = Some D \<and> ctl_inv (hash E) D"
proof (cases m)
  case (Reg_mem fd c)
  obtain r D where "handle_reg_msg_proc_mem E fd c C = Some (r, D)" using proc_mem_total [OF ctl_invD(1) [OF inv] ok] by blast
  then show ?thesis using proc_mem_ctl_inv [OF inv ok] Reg_mem by fastforce
next
  case (Reg_att fd c)
  have "reg_state x \<noteq> Rqt_reg_thrd_ring" if x: "inst_at C i = Some x" "inst_pid x = proc_pid c" for i x
    using get_by_pid_law(1) [OF ctl_invD(1) [OF inv] x] x(1) ord Reg_att by (auto simp: inst_at_def split: bind_splits)
  from proc_att_ctl [OF inv this] Reg_att show ?thesis by fastforce
next
  case (Reg_ring fd c)
  let ?get = "gazelle_stack_get_by_tid (hash E) (instance_cur_tick (mgr C)) (stacks C) (thrd_tid c)"
  have "(\<exists>a. ?get = Some (Some a)) \<or> (\<forall>a s. heap (stacks C) a = Some s \<longrightarrow> stack_tid s \<noteq> thrd_tid c)"
    using ord Reg_ring stacks_wf_scan [OF ctl_invD(3) [OF inv], of "thrd_tid c"]
    by (auto simp: Let_def split: option.splits if_splits)
  from thrd_ring_ctl [OF inv ok this] Reg_ring show ?thesis by fastforce
next
  case (Logout pid)
  show ?thesis
  proof (cases rule: get_by_pid_cases [OF ctl_invD(1) [OF inv], of pid])
    case (1 i a x)
    then show ?thesis using logout_law [OF inv ok 1(1,2,4)] Logout by auto
  next
    case 2
    then show ?thesis using inv Logout by (simp add: handle_instance_logout_def)
  qed
qed

lemma ctl_run_inv:
  assumes "ctl_inv hf C" and "list_all (\<lambda>(E, m). ctl_ok E \<and> hash E = hf) es" and "run_in_order es C"
  shows "\<exists>D. ctl_run es C = Some D \<and> ctl_inv hf D"
  using assms
proof (induction es arbitrary: C)
  case (Cons e es)
  obtain E m where e: "e = (E, m)" by (rule prod.exhaust)
  obtain D where D: "ctl_step E m C = Some D" "ctl_inv hf D" using ctl_step_inv [of E C m] Cons.prems e by auto
  show ?case using Cons.IH [OF D(2)] Cons.prems e D(1) by auto
qed simp

text \<open>C7: Starting from the manager and the stack table that ltran creates, with at most 32 clients
  configured, no sequence of registration messages and logouts in the clients' order makes the
  control thread touch freed memory, whatever the allocators, mmap, the secondary attach and the
  sockets do on the way: every message is handled to its end, and afterwards every instance sits
  in a slot the forwarding loops scan, pids and thread ids are unique, the counters are exact and the
  stack table holds exactly the stacks that stand in the arrays of the registered instances.
\<close>

theorem control_messages_safe:
  assumes "gazelle_instance_mgr_create ok c = Some m" and "unat (num_clients c) \<le> 32"
    and "gazelle_stack_htable_create ok' n = Some t"
    and "list_all (\<lambda>(E, m). ctl_ok E \<and> hash E = hf) es" and "run_in_order es (ctl_init m t)"
  shows "\<exists>D. ctl_run es (ctl_init m t) = Some D \<and> ctl_inv hf D"
  by (rule ctl_run_inv [OF ctl_init_inv [OF assms(1,2,3)] assms(4,5)])

definition demo_ctl_env :: "addr option \<Rightarrow> addr option \<Rightarrow> ctl_env" where
  "demo_ctl_env i s = \<lparr>conf = \<lparr>num_clients = 2, ipv4_subnet_addr = 0xC0A80100, ipv4_net_mask = 0xff, ipv4_subnet_size = 256,
       bond_mac = (\<lambda>_ _. 0), conf_rx_offload = 0, conf_tx_offload = 0\<rparr>,
     hash = (\<lambda>_ _ _ _. 0), cursor = no_cursor,
     new_inst = (\<lambda>h. case i of None \<Rightarrow> None | Some a \<Rightarrow> if h a = None then Some a else None),
     new_stk = (\<lambda>t. case s of None \<Rightarrow> None | Some a \<Rightarrow> if heap t a = None then Some a else None),
     mmap = (\<lambda>a n. Some a), page_sz = 4096, securec_ok = (\<lambda>_. True), sec_attach_ok = True, write_ok = True\<rparr>"

definition demo_proc :: client_proc_conf where
  "demo_proc = \<lparr>proc_pid = 7, proc_base_virtaddr = 0, proc_socket_size = 100, proc_file_prefix = ''p'', proc_mac_addr = (\<lambda>_. 0),
     proc_ipv4 = 0x0201A8C0, proc_argv = [], proc_argc = 0\<rparr>"

definition demo_thrd :: client_thrd_conf where
  "demo_thrd = \<lparr>thrd_tid = 70, thrd_pid = 7, thrd_reg_ring = Some 1, thrd_tx_ring = Some 2, thrd_rx_ring = Some 3\<rparr>"

lemma demo_ctl_env_ok: "ctl_ok (demo_ctl_env i s)" "hash (demo_ctl_env i s) = (\<lambda>_ _ _ _. 0)"
  by (auto simp: demo_ctl_env_def ctl_ok_def split: option.splits if_splits)

lemmas demo_defs = demo_ctl_env_def demo_proc_def demo_thrd_def ctl_init_def
lemmas table_defs = gazelle_instance_get_by_pid_def gazelle_max_instance_num_def gazelle_stack_get_by_tid_def
  gazelle_stack_hbucket_get_by_tid_def tid_hash_fn_def stack_htable_size_def hadd_def hset_def hdel_def

lemma demo_area: "get_virtual_area (demo_ctl_env i s) 0 100 map_addr_head = (Some (0x1000000000, 0x40001000), 0x1040001000)"
  by (simp add: get_virtual_area_def va_search.simps demo_ctl_env_def map_size_align_def ptr_align_def map_addr_head_def map_addr_tail_def
      map_reserve_size_def max_hugepage_size_def map_addr_step_def Let_def)

definition demo_ctl :: ltran_ctl where
  "demo_ctl = ctl_init \<lparr>cur_instance_num = 0, max_instance_num = 2, instance_cur_tick = (\<lambda>_. 0),
     instances = (\<lambda>_. None), net_mask = 0xff000000, subnet_size = 256\<rparr> (htable_empty 4)"

lemma demo_ntohl: "ntohl 0x0201A8C0 = 0xC0A80102"
  by code_simp

lemma demo_check: "instance_info_check (demo_ctl_env i s) demo_ctl demo_proc = Some True"
  by (simp add: instance_info_check_def Let_def demo_ctl_env_def demo_proc_def demo_ntohl null_client_ip_def
      instance_match_bond_port_def is_same_mac_addr_def gazelle_instance_get_by_pid_def demo_ctl_def ctl_init_def
      gazelle_max_instance_num_def upt_rec)


definition demo_inst :: "i32 \<Rightarrow> request_type \<Rightarrow> gazelle_instance" where
  "demo_inst reg rst = \<lparr>inst_pid = 7, inst_ip = 0x0201A8C0, inst_cur_tick = 0, inst_reg_tick = reg, stack_cnt = 0,
     stack_array = (\<lambda>_. None), inst_sockfd = 3, reg_state = rst, base_virtaddr = 0x1000000000, socket_size = 0x40001000,
     inst_mac = (\<lambda>_. 0), inst_file_prefix = ''p''\<rparr>"

definition demo_ctl1 :: "ltran_ctl" where
  "demo_ctl1 = \<lparr>mgr = \<lparr>cur_instance_num = 1, max_instance_num = 2, instance_cur_tick = (\<lambda>_. 0)(0 := 1),
     instances = (\<lambda>_. None)(0 := Some 5), net_mask = 0xff000000, subnet_size = 256\<rparr>,
     insts = [5 \<mapsto> demo_inst 0 Rqt_reg_proc_mem], stacks = htable_empty 4, next_addr = 0x1040001000,
     reserved = [(0x1000000000, 0x40001000)], responses = [(3, Rsp_ok, 0x1000000000, 0x40001000)]\<rparr>"

lemma demo_proc_simps [simp]:
  "proc_pid demo_proc = 7" "proc_base_virtaddr demo_proc = 0" "proc_socket_size demo_proc = 100" "proc_argc demo_proc = 0"
  by (simp_all add: demo_proc_def)

lemma demo_ctl_simps [simp]:
  "mgr demo_ctl = \<lparr>cur_instance_num = 0, max_instance_num = 2, instance_cur_tick = (\<lambda>_. 0),
     instances = (\<lambda>_. None), net_mask = 0xff000000, subnet_size = 256\<rparr>"
  "insts demo_ctl = Map.empty" "next_addr demo_ctl = map_addr_head" "reserved demo_ctl = []" "responses demo_ctl = []"
  "stacks demo_ctl = htable_empty 4"
  by (simp_all add: demo_ctl_def ctl_init_def)

lemma demo_ctl_env_simps [simp]:
  "new_inst (demo_ctl_env (Some 5) s) Map.empty = Some 5" "write_ok (demo_ctl_env i s)" "sec_attach_ok (demo_ctl_env i s)"
  by (simp_all add: demo_ctl_env_def)

lemma demo_add: "gazelle_instance_add_by_pid (demo_ctl_env (Some 5) s) demo_ctl 7 = Some (Some 5,
      demo_ctl\<lparr>insts := [5 \<mapsto> fresh_instance\<lparr>inst_pid := 7\<rparr>], mgr := (mgr demo_ctl)\<lparr>instance_cur_tick := (\<lambda>_. 0)(0 := 1),
        instances := [0 \<mapsto> 5], cur_instance_num := 1\<rparr>\<rparr>)"
proof -
  have get: "gazelle_instance_get_by_pid demo_ctl 7 = Some None"
    by (simp add: gazelle_instance_get_by_pid_def gazelle_max_instance_num_def upt_rec)
  have "find (\<lambda>i. True) [0..<32] = Some (0 :: nat)" by (simp add: upt_rec)
  then show ?thesis
    by (simp add: gazelle_instance_add_by_pid_def get Let_def gazelle_max_instance_num_def fresh_instance_def)
qed

lemma demo_set: "instance_info_set (demo_ctl_env i s) (fresh_instance\<lparr>inst_pid := 7, reg_state := Rqt_reg_proc_mem\<rparr>)
   (demo_proc\<lparr>proc_base_virtaddr := 0x1000000000, proc_socket_size := 0x40001000\<rparr>) =
   (True, (demo_inst 0 Rqt_reg_proc_mem)\<lparr>inst_sockfd := 0\<rparr>)"
  by (simp add: instance_info_set_def Let_def demo_ctl_env_def demo_proc_def fresh_instance_def demo_inst_def)

lemma demo_mem: "handle_reg_msg_proc_mem (demo_ctl_env (Some 5) s) 3 demo_proc demo_ctl = Some (True, demo_ctl1)"
  using demo_area [of "Some 5" s]
  by (simp add: handle_reg_msg_proc_mem_def demo_check demo_add demo_set Let_def inst_upd_def)
    (simp add: demo_ctl_def ctl_init_def demo_ctl1_def demo_inst_def demo_set)

definition demo_ctl2 :: "ltran_ctl" where
  "demo_ctl2 = demo_ctl1\<lparr>insts := [5 \<mapsto> demo_inst 1 Rqt_reg_proc_att], reserved := [],
     responses := responses demo_ctl1 @ [(3, Rsp_ok, 0, 0)]\<rparr>"

lemma demo_get:
  "gazelle_instance_get_by_pid demo_ctl1 7 = Some (Some 5)" "gazelle_instance_get_by_pid demo_ctl2 7 = Some (Some 5)"
  by (simp_all add: gazelle_instance_get_by_pid_def demo_ctl2_def demo_ctl1_def gazelle_max_instance_num_def upt_rec demo_inst_def)

lemma demo_att: "handle_reg_msg_proc_att (demo_ctl_env i s) 3 demo_proc demo_ctl1 = Some (True, demo_ctl2)"
  using demo_get(1)
  by (simp add: handle_reg_msg_proc_att_def Let_def gazelle_max_reg_args_def inst_upd_def simple_response_def)
    (simp add: demo_ctl2_def demo_ctl1_def demo_inst_def remove_virtual_area_def)

lemma demo_run: "run_in_order [(demo_ctl_env (Some 5) None, Reg_mem 3 demo_proc), (demo_ctl_env None None, Reg_att 3 demo_proc),
    (demo_ctl_env None (Some 11), Reg_ring 4 demo_thrd), (demo_ctl_env None None, Logout 7)] demo_ctl"
proof -
  have "in_order (demo_ctl_env None None) (Reg_att 3 demo_proc) demo_ctl1"
    using demo_get(1) by (simp add: demo_ctl1_def demo_inst_def)
  moreover have "in_order (demo_ctl_env None (Some 11)) (Reg_ring 4 demo_thrd) demo_ctl2"
    by (simp add: Let_def demo_ctl2_def demo_ctl1_def htable_empty_def gazelle_stack_get_by_tid_def)
  ultimately show ?thesis using demo_mem [of None] demo_att [of None None] by (simp split: option.split)
qed

theorem control_messages_safe_witness:
  "\<exists>D. ctl_run [(demo_ctl_env (Some 5) None, Reg_mem 3 demo_proc), (demo_ctl_env None None, Reg_att 3 demo_proc),
    (demo_ctl_env None (Some 11), Reg_ring 4 demo_thrd), (demo_ctl_env None None, Logout 7)] demo_ctl = Some D \<and> ctl_inv (\<lambda>_ _ _ _. 0) D"
  unfolding demo_ctl_def
proof (rule control_messages_safe)
  show "gazelle_instance_mgr_create True \<lparr>num_clients = 2, ipv4_subnet_addr = 0, ipv4_net_mask = 0xff, ipv4_subnet_size = 256,
      bond_mac = (\<lambda>_ _. 0), conf_rx_offload = 0, conf_tx_offload = 0\<rparr> =
    Some \<lparr>cur_instance_num = 0, max_instance_num = 2, instance_cur_tick = (\<lambda>_. 0),
     instances = (\<lambda>_. None), net_mask = 0xff000000, subnet_size = 256\<rparr>"
    by (simp add: gazelle_instance_mgr_create_def) code_simp
  show "gazelle_stack_htable_create True 4 = Some (htable_empty 4)" by (simp add: gazelle_stack_htable_create_def)
  show "run_in_order [(demo_ctl_env (Some 5) None, Reg_mem 3 demo_proc), (demo_ctl_env None None, Reg_att 3 demo_proc),
    (demo_ctl_env None (Some 11), Reg_ring 4 demo_thrd), (demo_ctl_env None None, Logout 7)]
     (ctl_init \<lparr>cur_instance_num = 0, max_instance_num = 2, instance_cur_tick = (\<lambda>_. 0),
     instances = (\<lambda>_. None), net_mask = 0xff000000, subnet_size = 256\<rparr> (htable_empty 4))"
    using demo_run by (simp only: demo_ctl_def)
qed (simp_all add: demo_ctl_env_ok)

definition demo_ring_stack :: "i32 \<Rightarrow> gazelle_stack" where
  "demo_ring_stack k = (new_stack 70)\<lparr>reg_ring := Some 1, tx_ring := Some 2, rx_ring := Some 3, stack_index := k,
     stack_reg_tick := 0, stack_cur_tick := MgrTick 0\<rparr>"

text \<open>The state after the stacks at the given addresses were registered for thread 70.\<close>

definition demo_rings :: "addr list \<Rightarrow> (nat \<Rightarrow> addr option) \<Rightarrow> (addr \<rightharpoonup> gazelle_stack) \<Rightarrow> ltran_ctl" where
  "demo_rings as arr h = demo_ctl1\<lparr>
     insts := [5 \<mapsto> (demo_inst 0 Rqt_reg_thrd_ring)\<lparr>stack_array := arr, stack_cnt := word_of_nat (length as)\<rparr>],
     stacks := \<lparr>heap = h, chain = (\<lambda>_. [])(0 := as), chain_size = (\<lambda>_. 0)(0 := word_of_nat (length as)),
       cur_num = word_of_nat (length as), max_num = 4\<rparr>,
     responses := responses demo_ctl1 @ replicate (length as) (4, Rsp_ok, 0, 0)\<rparr>"

lemma demo_bucket: "gazelle_stack_hbucket_get_by_tid (\<lambda>_ _ _ _. 0) 70 = 0"
  by (simp add: gazelle_stack_hbucket_get_by_tid_def tid_hash_fn_def)

lemma demo_hash: "hash (demo_ctl_env i s) = (\<lambda>_ _ _ _. 0)" "cursor (demo_ctl_env i s) = no_cursor"
  by (simp_all add: demo_ctl_env_def)

lemma demo_get_rings: "gazelle_instance_get_by_pid (demo_rings as arr h) 7 = Some (Some 5)"
  by (simp add: gazelle_instance_get_by_pid_def demo_rings_def demo_ctl1_def gazelle_max_instance_num_def upt_rec demo_inst_def)

lemmas demo_ring_defs = handle_reg_msg_thrd_ring_def demo_bucket demo_hash demo_thrd_def demo_ctl1_def gazelle_stack_get_by_tid_def
  htable_empty_def gazelle_stack_add_by_tid_def hadd_def hset_def Let_def inst_upd_def simple_response_def demo_rings_def
  new_stack_def demo_ring_stack_def

lemma demo_idx:
  "gazelle_get_free_stack_idx (demo_inst 0 Rqt_reg_proc_mem) = Some 0"
  "gazelle_get_free_stack_idx ((demo_inst 0 Rqt_reg_thrd_ring)\<lparr>stack_array := [0 \<mapsto> 11], stack_cnt := 1\<rparr>) = Some 1"
  by (simp_all add: gazelle_get_free_stack_idx_def gazelle_max_stack_array_size_def demo_inst_def upt_rec)

lemma demo_ring1: "handle_reg_msg_thrd_ring (demo_ctl_env None (Some 11)) 4 demo_thrd demo_ctl1 =
    Some (True, demo_rings [11] [0 \<mapsto> 11] [11 \<mapsto> demo_ring_stack 0])"
  using demo_get(1) demo_idx(1)
  by (simp add: demo_ring_defs) (simp add: demo_ring_defs demo_ctl_env_def demo_inst_def)

lemma demo_ring2: "handle_reg_msg_thrd_ring (demo_ctl_env None (Some 12)) 4 demo_thrd (demo_rings [11] [0 \<mapsto> 11] [11 \<mapsto> demo_ring_stack 0]) =
    Some (True, demo_rings [12, 11] [0 \<mapsto> 11, 1 \<mapsto> 12] [11 \<mapsto> demo_ring_stack 0, 12 \<mapsto> demo_ring_stack 1])"
  using demo_get_rings [of "[11]" "[0 \<mapsto> 11]" "[11 \<mapsto> demo_ring_stack 0]"] demo_idx(2)
  by (simp add: demo_ring_defs stack_on_def instance_is_on_def tick_at_def)
    (simp add: demo_ring_defs demo_ctl_env_def demo_inst_def)

lemma set_null_stacks: "gazelle_set_instance_null_by_pid C pid = Some D \<Longrightarrow> stacks D = stacks C"
  by (auto simp: gazelle_set_instance_null_by_pid_def split: bind_splits option.splits)

lemma demo_logout: "handle_instance_logout (demo_ctl_env None None) 7
    (demo_rings [12, 11] [0 \<mapsto> 11, 1 \<mapsto> 12] [11 \<mapsto> demo_ring_stack 0, 12 \<mapsto> demo_ring_stack 1]) = None"
  (is "handle_instance_logout ?E 7 ?C = None")
proof -
  let ?x = "(demo_inst 0 Rqt_reg_thrd_ring)\<lparr>stack_array := [0 \<mapsto> 11, 1 \<mapsto> 12], stack_cnt := 2\<rparr>"
  have "handle_inst_logout_for_reg_thrd_ring ?E ?x (stacks ?C) = None"
    by (simp add: handle_inst_logout_for_reg_thrd_ring_def gazelle_max_stack_array_size_def upt_rec handle_stack_logout_def
        gazelle_stack_del_by_tid_def demo_ring_defs hdel_def demo_inst_def)
  moreover have "insts ?C 5 = Some ?x" "reg_state ?x = Rqt_reg_thrd_ring"
    by (simp_all add: demo_rings_def demo_inst_def)
  ultimately show ?thesis
    using demo_get_rings
    by (auto simp: handle_instance_logout_def Let_def split: bind_splits dest!: set_null_stacks)
qed

text \<open>
  A thread that registers its rings twice before its process is attached is not found by the
  check for a second registration, which sees only stacks that are switched on. It then stands
  twice in the table and in the instance's array, and since a logout deletes by thread id, the
  logout of the process deletes the newer entry first and then reads it after it was freed.
\<close>

theorem second_registration_before_attach_breaks_logout:
  "map_option responses (ctl_run [(demo_ctl_env None (Some 11), Reg_ring 4 demo_thrd), (demo_ctl_env None (Some 12), Reg_ring 4 demo_thrd)]
     demo_ctl1) = Some (responses demo_ctl1 @ [(4, Rsp_ok, 0, 0), (4, Rsp_ok, 0, 0)]) \<and>
   ctl_run [(demo_ctl_env None (Some 11), Reg_ring 4 demo_thrd), (demo_ctl_env None (Some 12), Reg_ring 4 demo_thrd),
     (demo_ctl_env None None, Logout 7)] demo_ctl1 = None"
  using demo_ring1 demo_ring2 demo_logout by (simp add: demo_rings_def numeral_2_eq_2)

section \<open>What a logout takes away\<close>

lemma stack_find_dead:
  assumes inv: "stack_inv hf ticks t" "stack_inv hf ticks u" and h: "heap u = heap t |` (- S)"
  shows "stack_find hf ticks u tid = (case stack_find hf ticks t tid of
    None \<Rightarrow> None | Some (a, s) \<Rightarrow> if a \<in> S then None else Some (a, s))"
proof -
  have T: "stack_find hf ticks t tid = Some (a, s) \<longleftrightarrow> heap t a = Some s \<and> stack_on ticks s \<and> stack_tid s = tid" for a s
    unfolding stack_find_def by (rule hfind_iff [OF inv(1) [unfolded stack_inv_def]])
  have U: "stack_find hf ticks u tid = Some (a, s) \<longleftrightarrow> heap u a = Some s \<and> stack_on ticks s \<and> stack_tid s = tid" for a s
    unfolding stack_find_def by (rule hfind_iff [OF inv(2) [unfolded stack_inv_def]])
  have V: "stack_find hf ticks u tid = Some v \<longleftrightarrow> stack_find hf ticks t tid = Some v \<and> fst v \<notin> S" for v
    by (cases v) (auto simp: T U h restrict_map_def split: if_splits)
  show ?thesis
  proof (cases "stack_find hf ticks u tid")
    case None
    then have "stack_find hf ticks t tid = Some v \<Longrightarrow> fst v \<in> S" for v using V [of v] by simp
    then show ?thesis using None by (auto split: option.split)
  next
    case (Some v)
    then show ?thesis using V [of v] by (cases v) simp
  qed
qed

lemma stack_get_logout:
  assumes "stacks_wf hf t" and "stacks_wf hf u" and "heap u = heap t |` (- S)"
  shows "gazelle_stack_get_by_tid hf ticks u tid = (case gazelle_stack_get_by_tid hf ticks t tid of
    Some (Some a) \<Rightarrow> if a \<in> S then Some None else Some (Some a) | r \<Rightarrow> r)"
  unfolding stack_get_find [OF stacks_wf_inv [OF assms(1)]] stack_get_find [OF stacks_wf_inv [OF assms(2)]]
    stack_find_dead [OF stacks_wf_inv [OF assms(1)] stacks_wf_inv [OF assms(2)] assms(3)]
  by (simp split: option.splits)

lemma get_by_pid_eqI:
  assumes inv: "mgr_inv C" "mgr_inv D"
    and same: "\<And>i. (\<exists>x. inst_at D i = Some x \<and> inst_pid x = q) \<longleftrightarrow> (\<exists>x. inst_at C i = Some x \<and> inst_pid x = q)"
    and slot: "\<And>i x. inst_at C i = Some x \<Longrightarrow> inst_pid x = q \<Longrightarrow> instances (mgr D) i = instances (mgr C) i"
  shows "gazelle_instance_get_by_pid D q = gazelle_instance_get_by_pid C q"
proof (cases rule: get_by_pid_cases [OF inv(1), of q])
  case (1 i a x)
  then obtain y where "inst_at D i = Some y" "inst_pid y = q" using same [of i] by blast
  then show ?thesis using get_by_pid_law(1) [OF inv(2)] slot [OF 1(3,4)] 1(1,6) by simp
next
  case 2
  have "inst_pid y \<noteq> q" if "inst_at D i = Some y" for i y using same [of i] 2(1) that by blast
  then have "gazelle_instance_get_by_pid D q = Some None" using get_by_pid_law(2) [OF inv(2)] by blast
  then show ?thesis using 2(2) by simp
qed

text \<open>C20: The logout of a process removes exactly what is its own. Its slot is free, the process is
  no longer found, every other process is found as before; of the stack table exactly the stacks
  in the array of the instance are gone, whatever the state of the registration was, and every
  lookup of another stack gives what it gave, under the tick counters before the logout and after.
\<close>

theorem logout_removes_only_its_own:
  assumes "ctl_inv (hash E) C" and "ctl_ok E"
    and "instances (mgr C) i = Some a" and "insts C a = Some x" and "inst_pid x = pid"
  shows "\<exists>D. handle_instance_logout E pid C = Some D \<and>
    gazelle_instance_get_by_pid D pid = Some None \<and>
    (\<forall>q. q \<noteq> pid \<longrightarrow> gazelle_instance_get_by_pid D q = gazelle_instance_get_by_pid C q) \<and>
    insts D = (insts C)(a := None) \<and> cur_instance_num (mgr D) = cur_instance_num (mgr C) - 1 \<and>
    heap (stacks D) = heap (stacks C) |` (- owned x) \<and>
    (\<forall>ticks tid. gazelle_stack_get_by_tid (hash E) ticks (stacks D) tid =
      (case gazelle_stack_get_by_tid (hash E) ticks (stacks C) tid of
         Some (Some sa) \<Rightarrow> if sa \<in> owned x then Some None else Some (Some sa) | r \<Rightarrow> r))"
proof -
  note I = ctl_invD [OF assms(1)]
  obtain D where D: "handle_instance_logout E pid C = Some D" "ctl_inv (hash E) D"
    "mgr D = (mgr C)\<lparr>instance_cur_tick := (instance_cur_tick (mgr C))(i := instance_cur_tick (mgr C) i + 1),
      cur_instance_num := cur_instance_num (mgr C) - 1, instances := (instances (mgr C))(i := None)\<rparr>"
    "insts D = (insts C)(a := None)" "heap (stacks D) = heap (stacks C) |` (- owned x)"
    using logout_law [OF assms] by blast
  note J = ctl_invD [OF D(2)]
  have at: "inst_at C i = Some x" using assms(3,4) by (simp add: inst_at_def)
  have atD: "inst_at D j = (if j = i then None else inst_at C j)" for j
  proof (cases "instances (mgr C) j = Some a")
    case True
    then show ?thesis using inst_slot [OF I(1) assms(3) True] D(3) by (simp add: inst_at_def)
  next
    case False
    then show ?thesis using D(3,4) assms(3) by (cases "instances (mgr C) j") (auto simp: inst_at_def)
  qed
  have gone: "inst_pid y \<noteq> pid" if "inst_at D j = Some y" for j y
    using that mgr_invD(4) [OF I(1) at, of j y] assms(5) unfolding atD by (auto split: if_splits)
  have "gazelle_instance_get_by_pid D pid = Some None"
    using get_by_pid_law(2) [OF J(1), of pid] gone by blast
  moreover have "gazelle_instance_get_by_pid D q = gazelle_instance_get_by_pid C q" if "q \<noteq> pid" for q
    by (rule get_by_pid_eqI [OF I(1) J(1)]) (use atD at assms(5) that D(3) in \<open>auto split: if_splits\<close>)
  moreover note stack_get_logout [OF I(3) J(3) D(5)]
  ultimately show ?thesis using D by (intro exI [of _ D]) simp
qed

section \<open>Areas\<close>

declare va_search.simps [simp del]

lemma unat_div_mult:
  fixes x g :: u64
  assumes "g \<noteq> 0" and "unat x + unat g < 2 ^ 64"
  shows "unat ((x div g + 1) * g) = (unat x div unat g + 1) * unat g"
proof -
  have g: "0 < unat g" using assms(1) by (simp add: unat_gt_0)
  have le: "unat x div unat g * unat g \<le> unat x" by (simp add: div_times_less_eq_dividend)
  have "unat x div unat g \<le> unat x" by simp
  then have "unat x div unat g + 1 < 2 ^ 64" using g assms(2) by linarith
  then have q: "unat (x div g + 1) = unat x div unat g + 1"
    by (simp add: unat_plus_small unat_div_distrib)
  have "(unat x div unat g + 1) * unat g < 2 ^ 64" using le assms(2) unfolding distrib_right by linarith
  then show ?thesis unfolding q [symmetric] by (simp add: unat_word_ariths)
qed

lemma round_up_nat: "0 < (g::nat) \<Longrightarrow> x < (x div g + 1) * g"
  using dividend_less_div_times [of g x] by (simp add: algebra_simps)

lemma round_up_le: "(x div g + 1) * g \<le> x + (g::nat)"
  using div_times_less_eq_dividend [of x g] by (simp add: algebra_simps)

text \<open>For requests and pages of a sane size the area is a multiple of the page, and larger than the request and the reserve.\<close>

lemma map_size_align_law:
  assumes "unat sz < 2 ^ 62" and "pg \<noteq> 0" and "unat pg \<le> 2 ^ 30"
  shows "unat (map_size_align sz pg) mod unat pg = 0"
    and "unat sz + unat map_reserve_size < unat (map_size_align sz pg)"
    and "unat (map_size_align sz pg) \<le> unat sz + unat map_reserve_size + 2 ^ 31"
proof -
  let ?r = "unat map_reserve_size" and ?h = "unat max_hugepage_size"
  have r: "?r = 0x8000000" and h: "?h = 2 ^ 30" by (simp_all add: map_reserve_size_def max_hugepage_size_def)
  have m1: "unat (map_reserve_size + sz) = ?r + unat sz" using assms(1) r by (simp add: unat_plus_small)
  define m2 where "m2 = ((map_reserve_size + sz) div max_hugepage_size + 1) * max_hugepage_size"
  have hn: "max_hugepage_size \<noteq> 0" by (simp add: max_hugepage_size_def)
  have m2: "unat m2 = ((?r + unat sz) div ?h + 1) * ?h"
    unfolding m2_def using unat_div_mult [OF hn, of "map_reserve_size + sz"] m1 assms(1) r h by simp
  have b2: "?r + unat sz < unat m2" "unat m2 \<le> ?r + unat sz + 2 ^ 30"
    unfolding m2 using round_up_nat [of ?h "?r + unat sz"] round_up_le [of "?r + unat sz" ?h] h by simp_all
  have g: "0 < unat pg" using assms(2) by (simp add: unat_gt_0)
  have m3: "unat ((m2 div pg + 1) * pg) = (unat m2 div unat pg + 1) * unat pg"
    by (rule unat_div_mult [OF assms(2)]) (use b2 assms r in simp)
  have b3: "unat m2 < unat ((m2 div pg + 1) * pg)" "unat ((m2 div pg + 1) * pg) \<le> unat m2 + unat pg"
    unfolding m3 using round_up_nat [OF g, of "unat m2"] round_up_le [of "unat m2" "unat pg"] by simp_all
  have "pg > 0" using g by (simp add: word_less_nat_alt)
  moreover have "\<not> (m2 div pg + 1) * pg < sz" using b2 b3 by (simp add: word_less_nat_alt)
  ultimately have e: "map_size_align sz pg = (m2 div pg + 1) * pg"
    by (simp add: map_size_align_def Let_def m2_def [symmetric])
  show "unat (map_size_align sz pg) mod unat pg = 0" unfolding e m3 by simp
  show "unat sz + ?r < unat (map_size_align sz pg)" unfolding e using b2 b3 by linarith
  show "unat (map_size_align sz pg) \<le> unat sz + ?r + 2 ^ 31" unfolding e using b2 b3 assms(3) by simp
qed

lemma map_size_align_pos:
  assumes "pg \<noteq> 0"
  shows "map_size_align sz pg \<noteq> 0"
proof (cases "sz = 0")
  case False
  then show ?thesis by (auto simp: map_size_align_def Let_def word_neq_0_conv not_less split: if_splits)
next
  case True
  have c: "(map_reserve_size div max_hugepage_size + 1) * max_hugepage_size = 0x40000000"
    by (simp add: map_reserve_size_def max_hugepage_size_def)
  have "(0x40000000 div pg + 1) * pg \<noteq> 0"
  proof (cases "unat pg \<le> 2 ^ 30")
    case True
    have "unat ((0x40000000 div pg + 1) * pg) = (unat (0x40000000 :: u64) div unat pg + 1) * unat pg"
      by (rule unat_div_mult [OF assms]) (use True in simp)
    moreover have "0 < unat pg" using assms by (simp add: unat_gt_0)
    ultimately show ?thesis by (metis add_gr_0 less_numeral_extra(1) mult_pos_pos not_gr_zero unat_0)
  next
    case False
    then have "unat ((0x40000000 :: u64) div pg) = 0" by (simp add: unat_div_distrib)
    then have "(0x40000000 :: u64) div pg = 0" using unat_eq_zero by blast
    then show ?thesis using assms by simp
  qed
  moreover have "pg > 0" using assms by (simp add: word_neq_0_conv)
  ultimately show ?thesis by (simp add: map_size_align_def Let_def True c)
qed

lemma va_search_law:
  "va_search mm ms pg tried nxt = (Some a, nxt') \<Longrightarrow>
   mm a ms = Some a \<and> a AND (pg - 1) = 0 \<and> nxt' = a + ms \<and> (\<exists>h. h < map_addr_tail \<and> a = ptr_align h pg)"
proof (induction mm ms pg tried nxt rule: va_search.induct)
  case (1 mm ms pg tried nxt)
  let ?h = "if nxt \<ge> map_addr_tail then map_addr_head else nxt"
  have h: "?h < map_addr_tail" by (simp add: map_addr_tail_def map_addr_head_def not_le)
  show ?case
  proof (cases "mm (ptr_align ?h pg) ms")
    case None
    then show ?thesis using 1(2) by (subst (asm) va_search.simps) (simp add: Let_def)
  next
    case (Some b)
    show ?thesis
    proof (cases "b = ptr_align ?h pg")
      case True
      have "va_search mm ms pg tried nxt = (Some b, b + ms)"
        using Some True by (subst va_search.simps) (simp add: Let_def)
      then have "a = b" "nxt' = a + ms" using 1(2) by auto
      then show ?thesis using True Some h by (auto simp: ptr_align_def and.assoc)
    next
      case False
      then show ?thesis using 1 Some by (subst (asm) (1) va_search.simps) (simp add: Let_def split: if_splits)
    qed
  qed
qed

text \<open>C30: For a request of less than 2^62 bytes and a page size of at most 1 GB (beyond, the sum in \<open>map_size_align\<close>
  can overflow, and it falls back to the size as it was asked for): the area a process gets
  for its hugepages is where mmap put it and where it was asked for,
  aligned to the page, not null, a whole number of pages, larger than what the process asked for
  plus the reserve of 128 MB and by at most 2 GB more; the next search starts right behind it; and
  when the process named no address it lies below the end of the range, up to the alignment.
\<close>

theorem get_virtual_area_sound:
  assumes "page_sz E \<noteq> 0" and "unat (page_sz E) \<le> 2 ^ 30" and "unat sz < 2 ^ 62"
    and "get_virtual_area E need sz nxt = (Some (a, ms), nxt')"
  shows "mmap E a ms = Some a \<and> a \<noteq> 0 \<and> a AND (page_sz E - 1) = 0 \<and> unat ms mod unat (page_sz E) = 0 \<and>
    unat sz + unat map_reserve_size < unat ms \<and> unat ms \<le> unat sz + unat map_reserve_size + 2 ^ 31 \<and> nxt' = a + ms \<and>
    (need = 0 \<longrightarrow> (\<exists>h < map_addr_tail. a = ptr_align h (page_sz E)))"
proof -
  have ms: "ms = map_size_align sz (page_sz E)"
    using assms(1,4) by (auto simp: get_virtual_area_def Let_def split: if_splits option.splits prod.splits)
  have "mmap E a ms = Some a \<and> a \<noteq> 0 \<and> a AND (page_sz E - 1) = 0 \<and> nxt' = a + ms \<and>
      (need = 0 \<longrightarrow> (\<exists>h < map_addr_tail. a = ptr_align h (page_sz E)))"
  proof (cases "need = 0")
    case True
    then have "va_search (mmap E) ms (page_sz E) False nxt = (Some a, nxt')" "a \<noteq> 0"
      using assms(1,4) ms by (auto simp: get_virtual_area_def Let_def split: if_splits option.splits prod.splits)
    then show ?thesis using va_search_law by blast
  next
    case False
    then show ?thesis using assms(1,4) ms
      by (auto simp: get_virtual_area_def Let_def ptr_align_def and.assoc split: if_splits option.splits)
  qed
  then show ?thesis using map_size_align_law [OF assms(3,1,2)] ms by simp
qed

theorem get_virtual_area_sound_witness:
  "get_virtual_area (demo_ctl_env None None) 0 100 map_addr_head = (Some (0x1000000000, 0x40001000), 0x1040001000) \<and>
   mmap (demo_ctl_env None None) 0x1000000000 0x40001000 = Some 0x1000000000 \<and> unat (0x40001000 :: u64) mod unat (0x1000 :: u64) = 0"
  using get_virtual_area_sound [OF _ _ _ demo_area [of None None]] demo_area [of None None] by (simp add: demo_ctl_env_def)

text \<open>
  The search wraps once it has passed the end of the range, but the address it remembers is
  not reset with it: the address it tries next is past the end again, so after the wrap only the head of
  the range is tried. When that one address is taken the search gives up, though every other
  address of the range may be free.
\<close>

theorem area_search_gives_up_after_wrap:
  "va_search (\<lambda>h n. if h = map_addr_head then Some (map_addr_head + map_addr_step) else Some h) 0x1000 0x1000 False map_addr_tail =
     (None, map_addr_tail + map_addr_step) \<and>
   va_search (\<lambda>h n. if h = map_addr_head then Some (map_addr_head + map_addr_step) else Some h) 0x1000 0x1000 False
     (map_addr_head + map_addr_step) = (Some (map_addr_head + map_addr_step), map_addr_head + map_addr_step + 0x1000)"
  by (subst (1 2) va_search.simps)
    (simp add: Let_def ptr_align_def map_addr_tail_def map_addr_head_def map_addr_step_def)

section \<open>Registering and logging out again\<close>

lemma proc_mem_ok:
  assumes inv: "mgr_inv C" and ok: "ctl_ok E" and h: "handle_reg_msg_proc_mem E fd c C = Some (True, D)"
  shows "\<exists>a y. insts D a = Some y \<and> inst_pid y = proc_pid c \<and> reserved D = (base_virtaddr y, socket_size y) # reserved C \<and>
    base_virtaddr y \<noteq> 0 \<and> socket_size y \<noteq> 0"
proof -
  have chk: "instance_info_check E C c = Some True"
    using h by (cases "instance_info_check E C c") (auto simp: handle_reg_msg_proc_mem_def split: if_splits)
  have get: "gazelle_instance_get_by_pid C (proc_pid c) = Some None" using info_check_law [OF inv chk] .
  obtain a C1 where add: "gazelle_instance_add_by_pid E C (proc_pid c) = Some (Some a, C1)"
    using h chk by (cases "gazelle_instance_add_by_pid E C (proc_pid c)") (auto simp: handle_reg_msg_proc_mem_def split: option.splits)
  have C1: "reserved C1 = reserved C" "insts C1 a \<noteq> None"
    using add get by (auto simp: gazelle_instance_add_by_pid_def Let_def split: if_splits option.splits)
  obtain x where x: "insts C1 a = Some x" using C1(2) by blast
  let ?g = "get_virtual_area E (proc_base_virtaddr c) (proc_socket_size c) (next_addr C1)"
  obtain base sz where g: "fst ?g = Some (base, sz)"
    using h chk add by (cases "fst ?g") (auto simp: handle_reg_msg_proc_mem_def Let_def split_def)
  have nz: "base \<noteq> 0 \<and> sz = map_size_align (proc_socket_size c) (page_sz E) \<and> page_sz E \<noteq> 0"
    using g by (auto simp: get_virtual_area_def Let_def split: if_splits option.splits prod.splits)
  let ?s = "instance_info_set E (x\<lparr>reg_state := Rqt_reg_proc_mem\<rparr>) (c\<lparr>proc_base_virtaddr := base, proc_socket_size := sz\<rparr>)"
  have "fst ?s" using h chk add g x by (auto simp: handle_reg_msg_proc_mem_def Let_def split_def split: if_splits)
  then have "insts D a = Some ((snd ?s)\<lparr>inst_sockfd := fd\<rparr>) \<and> reserved D = (base, sz) # reserved C"
    using h chk add g x C1(1) by (auto simp: handle_reg_msg_proc_mem_def Let_def split_def)
  then show ?thesis
    using nz map_size_align_pos [of "page_sz E" "proc_socket_size c"]
    by (intro exI [of _ a] exI [of _ "(snd ?s)\<lparr>inst_sockfd := fd\<rparr>"]) (simp add: info_set_keeps)
qed

definition same_tables :: "ltran_ctl \<Rightarrow> ltran_ctl \<Rightarrow> bool" where
  "same_tables C D \<longleftrightarrow> insts D = insts C \<and> instances (mgr D) = instances (mgr C) \<and>
     cur_instance_num (mgr D) = cur_instance_num (mgr C) \<and> heap (stacks D) = heap (stacks C) \<and> reserved D = reserved C"

text \<open>Logging out an instance without stacks that was added to \<open>C\<close>.\<close>

lemma logout_restores:
  assumes inv: "ctl_inv (hash E) C" "ctl_inv (hash E) D" and ok: "ctl_ok E"
    and new: "insts C a = None" "instances (mgr C) i = None"
    and D: "insts D = (insts C)(a \<mapsto> y)" "instances (mgr D) = (instances (mgr C))(i := Some a)" "heap (stacks D) = heap (stacks C)"
    and y: "inst_pid y = pid" "stack_array y = (\<lambda>_. None)"
    and res: "(if reg_state y = Rqt_reg_proc_mem then remove_virtual_area (base_virtaddr y) (socket_size y) (reserved D) else reserved D) =
      reserved C"
  shows "\<exists>D'. handle_instance_logout E pid D = Some D' \<and> same_tables C D'"
proof -
  have "instances (mgr D) i = Some a" "insts D a = Some y" using D by simp_all
  from logout_law [OF inv(2) ok this y(1)] obtain D' where D': "handle_instance_logout E pid D = Some D'" "ctl_inv (hash E) D'"
    "instances (mgr D') = (instances (mgr D))(i := None)" "insts D' = (insts D)(a := None)"
    "heap (stacks D') = heap (stacks D) |` (- owned y)" "reserved D' = reserved C" using res by auto
  have i: "instances (mgr D') = instances (mgr C)" using D'(3) D(2) new(2) by auto
  have "unat (cur_instance_num (mgr D')) = unat (cur_instance_num (mgr C))"
    using mgr_invD(5) [OF ctl_invD(1) [OF D'(2)]] mgr_invD(5) [OF ctl_invD(1) [OF inv(1)]] i by simp
  then have "cur_instance_num (mgr D') = cur_instance_num (mgr C)" by (simp add: word_unat_eq_iff)
  moreover have "insts D' = insts C" using D'(4) D(1) new(1) by auto
  ultimately have "same_tables C D'"
    using D' i D(3) by (simp add: same_tables_def owned_empty [OF y(2)])
  then show ?thesis using D'(1) by blast
qed

text \<open>C26: Registering a process and logging it out is a round trip, whether the process attached in
  between or not and whether the attach succeeded: the instance table, the instances allocated,
  the stack table and the reservations are what they were. The reservation of address space is
  released exactly once, by the attach or by the logout, and never by both.
\<close>

theorem register_logout_round_trip:
  assumes "ctl_inv (hash E) C" and "ctl_ok E" and "handle_reg_msg_proc_mem E fd c C = Some (True, D)"
    and "ctl_ok E'" and "hash E' = hash E"
  shows "(\<exists>D'. handle_instance_logout E' (proc_pid c) D = Some D' \<and> same_tables C D') \<and>
    (\<exists>r A D'. handle_reg_msg_proc_att E'' fd c D = Some (r, A) \<and> handle_instance_logout E' (proc_pid c) A = Some D' \<and> same_tables C D')"
proof -
  note I = ctl_invD [OF assms(1)]
  have D: "ctl_inv (hash E) D" using proc_mem_ctl_inv [OF assms(1-3)] .
  obtain b z where z: "insts D b = Some z" "inst_pid z = proc_pid c" "reserved D = (base_virtaddr z, socket_size z) # reserved C"
    "base_virtaddr z \<noteq> 0" "socket_size z \<noteq> 0" using proc_mem_ok [OF I(1) assms(2,3)] by blast
  show ?thesis
  proof (cases rule: proc_mem_split [OF I(1) assms(2,3)])
    case 1
    then show ?thesis by simp
  next
    case (2 i a y)
    have at: "inst_at D i = Some y" using 2(5,6) by (simp add: inst_at_def)
    obtain j where "instances (mgr D) j = Some b" using ctl_invD(2) [OF D] z(1) by (auto simp: no_leak_def)
    then have "inst_at D j = Some z" using z(1) by (simp add: inst_at_def)
    then have "j = i" using mgr_invD(4) [OF 2(3), of j z i y] at z(2) 2(7) by simp
    then have yz: "z = y" using at \<open>inst_at D j = Some z\<close> by simp
    have "\<exists>D'. handle_instance_logout E' (proc_pid c) D = Some D' \<and> same_tables C D'"
      by (rule logout_restores [OF _ _ assms(4) 2(1,2,5,6) _ 2(7,9)])
        (use assms(1,5) D 2(4,10) z(3-5) yz in \<open>auto simp: remove_virtual_area_def\<close>)
    moreover have "\<exists>r A D'. handle_reg_msg_proc_att E'' fd c D = Some (r, A) \<and>
        handle_instance_logout E' (proc_pid c) A = Some D' \<and> same_tables C D'"
    proof -
      have early: "reg_state x \<noteq> Rqt_reg_thrd_ring" if "inst_at D j = Some x" "inst_pid x = proc_pid c" for j x
        using mgr_invD(4) [OF 2(3), of j x i y] at that 2(7,10) by auto
      obtain r A where A: "handle_reg_msg_proc_att E'' fd c D = Some (r, A)" "ctl_inv (hash E) A"
        using proc_att_ctl [OF D, of c E'' fd] early by blast
      have get: "gazelle_instance_get_by_pid D (proc_pid c) = Some (Some a)" "insts D a = Some y"
        using get_by_pid_law(1) [OF 2(3) at 2(7)] 2(5,6) by simp_all
      let ?p = "\<lambda>v R. insts A = (insts C)(a \<mapsto> v) \<and> mgr A = mgr D \<and> stacks A = stacks D \<and> inst_pid v = proc_pid c \<and>
        stack_array v = (\<lambda>_. None) \<and> reserved A = R"
      have "?p y (reserved D) \<or> (\<exists>v. reg_state v = Rqt_reg_proc_att \<and> ?p v (remove_virtual_area (base_virtaddr y) (socket_size y) (reserved D)))"
      proof (cases "sint (proc_argc c) < 0 \<or> sint (proc_argc c) > sint gazelle_max_reg_args")
        case True
        then have "A = simple_response fd Rsp_err D" using A(1) get(1) by (simp add: handle_reg_msg_proc_att_def)
        then show ?thesis using 2(5,7,9) by simp
      next
        case False
        let ?v = "if sec_attach_ok E'' \<and> write_ok E'' then y\<lparr>reg_state := Rqt_reg_proc_att, inst_reg_tick := instance_cur_tick (mgr D) (inst_cur_tick y)\<rparr>
          else y\<lparr>reg_state := Rqt_reg_proc_att\<rparr>"
        have "?p ?v (remove_virtual_area (base_virtaddr y) (socket_size y) (reserved D))"
          using A(1) get False 2(5,7,9) by (auto simp: handle_reg_msg_proc_att_def Let_def split: if_splits)
        then show ?thesis by (intro disjI2 exI [of _ ?v] conjI) simp_all
      qed
      then have "\<exists>v R. ?p v R \<and> (if reg_state v = Rqt_reg_proc_mem then remove_virtual_area (base_virtaddr v) (socket_size v) R else R) = reserved C"
      proof
        assume "?p y (reserved D)"
        then show ?thesis using 2(10) z(3-5) yz by (intro exI [of _ y] exI [of _ "reserved D"]) (simp add: remove_virtual_area_def)
      next
        assume "\<exists>v. reg_state v = Rqt_reg_proc_att \<and> ?p v (remove_virtual_area (base_virtaddr y) (socket_size y) (reserved D))"
        then obtain v where v: "reg_state v = Rqt_reg_proc_att" "?p v (remove_virtual_area (base_virtaddr y) (socket_size y) (reserved D))" by blast
        have "remove_virtual_area (base_virtaddr y) (socket_size y) (reserved D) = reserved C"
          using z(3-5) yz by (simp add: remove_virtual_area_def)
        then show ?thesis using v by (intro exI [of _ v] exI [of _ "reserved C"]) simp
      qed
      then obtain v where v: "insts A = (insts C)(a \<mapsto> v)" "mgr A = mgr D" "stacks A = stacks D" "inst_pid v = proc_pid c"
        "stack_array v = (\<lambda>_. None)" "(if reg_state v = Rqt_reg_proc_mem then remove_virtual_area (base_virtaddr v) (socket_size v) (reserved A)
          else reserved A) = reserved C" by blast
      have "\<exists>D'. handle_instance_logout E' (proc_pid c) A = Some D' \<and> same_tables C D'"
        by (rule logout_restores [OF _ _ assms(4) 2(1,2) v(1) _ _ v(4,5,6)]) (use assms(1,5) A(2) v 2(4,6) in auto)
      then show ?thesis using A(1) by blast
    qed
    ultimately show ?thesis by blast
  qed
qed

lemma demo_ctl_inv: "ctl_inv (\<lambda>_ _ _ _. 0) demo_ctl"
  unfolding demo_ctl_def
proof (rule ctl_init_inv)
  show "gazelle_instance_mgr_create True \<lparr>num_clients = 2, ipv4_subnet_addr = 0, ipv4_net_mask = 0xff, ipv4_subnet_size = 256,
      bond_mac = (\<lambda>_ _. 0), conf_rx_offload = 0, conf_tx_offload = 0\<rparr> =
    Some \<lparr>cur_instance_num = 0, max_instance_num = 2, instance_cur_tick = (\<lambda>_. 0),
     instances = (\<lambda>_. None), net_mask = 0xff000000, subnet_size = 256\<rparr>"
    by (simp add: gazelle_instance_mgr_create_def) code_simp
  show "gazelle_stack_htable_create True 4 = Some (htable_empty 4)" by (simp add: gazelle_stack_htable_create_def)
qed simp

lemma demo_ctl1_inv: "ctl_inv (\<lambda>_ _ _ _. 0) demo_ctl1"
  using proc_mem_ctl_inv [OF demo_ctl_inv demo_ctl_env_ok(1) demo_mem] .

theorem register_logout_round_trip_witness:
  "\<exists>r A D. handle_reg_msg_proc_att (demo_ctl_env None None) 3 demo_proc demo_ctl1 = Some (r, A) \<and>
    handle_instance_logout (demo_ctl_env None None) 7 A = Some D \<and> same_tables demo_ctl D"
  using register_logout_round_trip [OF _ demo_ctl_env_ok(1) demo_mem [of None] demo_ctl_env_ok(1), of None None] demo_ctl_inv
  by (simp add: demo_ctl_env_ok(2))

lemma demo_rings_inv: "ctl_inv (\<lambda>_ _ _ _. 0) (demo_rings [11] [0 \<mapsto> 11] [11 \<mapsto> demo_ring_stack 0])"
proof -
  have "ctl_inv (hash (demo_ctl_env None (Some 11))) demo_ctl1" using demo_ctl1_inv by (simp add: demo_ctl_env_ok(2))
  moreover have "in_order (demo_ctl_env None (Some 11)) (Reg_ring 4 demo_thrd) demo_ctl1"
    by (simp add: Let_def demo_ctl1_def htable_empty_def gazelle_stack_get_by_tid_def)
  ultimately show ?thesis
    using ctl_step_inv [of "demo_ctl_env None (Some 11)" demo_ctl1 "Reg_ring 4 demo_thrd"] demo_ring1 demo_ctl_env_ok by simp
qed

theorem logout_removes_only_its_own_witness:
  "\<exists>D. handle_instance_logout (demo_ctl_env None None) 7 (demo_rings [11] [0 \<mapsto> 11] [11 \<mapsto> demo_ring_stack 0]) = Some D \<and>
    heap (stacks D) 11 = None \<and> gazelle_instance_get_by_pid D 7 = Some None"
proof -
  let ?C = "demo_rings [11] [0 \<mapsto> 11] [11 \<mapsto> demo_ring_stack 0]"
  let ?x = "(demo_inst 0 Rqt_reg_thrd_ring)\<lparr>stack_array := [0 \<mapsto> 11], stack_cnt := 1\<rparr>"
  have own: "11 \<in> owned ?x" by (auto simp: owned_def)
  have "ctl_inv (hash (demo_ctl_env None None)) ?C" using demo_rings_inv by (simp add: demo_ctl_env_ok(2))
  from logout_removes_only_its_own [OF this demo_ctl_env_ok(1), of 0 5 ?x 7]
  obtain D where "handle_instance_logout (demo_ctl_env None None) 7 ?C = Some D" "heap (stacks D) = heap (stacks ?C) |` (- owned ?x)"
    "gazelle_instance_get_by_pid D 7 = Some None"
    by (auto simp: demo_rings_def demo_ctl1_def demo_inst_def)
  then show ?thesis using own by (intro exI [of _ D]) simp
qed

end
