(* ===== verification/Ltran_Backup.thy ===== *)
theory Ltran_Backup
  imports Ltran_Tables Rte_Ring "HOL-Library.Sublist"
begin

text \<open>
  How ltran hands packets to a stack (\<open>src/ltran/ltran_forward.c\<close>): the batch array
  \<open>pkt_buf\<close>, the circular backup array \<open>backup_pkt_buf\<close> that is used while the stack's ring
  has no free buffer, and the copy of each packet into a buffer the stack has lent. Shown: per
  stack the packets come out in the order they went in, and what is lost is counted.
\<close>

section \<open>Packet buffers\<close>

text \<open>
  \<open>struct rte_mbuf\<close> as \<open>copy_mbuf\<close> (\<open>src/common/dpdk_common.h\<close>) copies it: the two flag words,
  the 16 bytes of receive descriptor, the data and the private area with lwIP's pbuf and the
  latency stamp.
\<close>

record mbuf =
  mb_flags :: u64
  mb_tx_offload :: u64
  mb_packet_type :: u32
  mb_pkt_len :: u32
  mb_data_len :: u16
  mb_vlan_tci :: u16
  mb_rss :: u32
  mb_data :: "nat \<Rightarrow> u8"
  mb_pbuf :: "u8 list"
  mb_stamp :: u64
  mb_check :: u64

type_synonym mbufs = "addr \<rightharpoonup> mbuf"

text \<open>
  What the code takes from elsewhere: DPDK's \<open>RTE_MBUF_DEFAULT_BUF_SIZE\<close>, its ring copy macros,
  the latency switch and the two clocks.
\<close>

record fwd_env =
  buf_size :: u16
  relems :: "addr ring_elems"
  latency_flag :: bool
  start_stamp :: u64
  now :: u64

definition copy_mbuf :: "fwd_env \<Rightarrow> mbuf \<Rightarrow> mbuf \<Rightarrow> mbuf" where
  "copy_mbuf E dst src =
     (if mb_data_len src > buf_size E then dst
      else src\<lparr>mb_data := (\<lambda>i. if i < unat (mb_data_len src) then mb_data src i else mb_data dst i)\<rparr>)"

fun time_stamp_into_mbuf :: "addr list \<Rightarrow> u64 \<Rightarrow> mbufs \<Rightarrow> mbufs option" where
  "time_stamp_into_mbuf [] time_stamp mem = Some mem"
| "time_stamp_into_mbuf (a # buf) time_stamp mem =
     (case mem a of None \<Rightarrow> None
      | Some m \<Rightarrow> time_stamp_into_mbuf buf time_stamp (mem(a \<mapsto> m\<lparr>mb_stamp := time_stamp, mb_check := NOT time_stamp\<rparr>)))"

section \<open>Statistics\<close>

record stack_stat =
  st_rx :: u64
  st_rx_drop :: u64
  st_rx_bytes :: u64
  st_tx :: u64
  st_tx_drop :: u64
  st_tx_bytes :: u64
  latency_total :: u64
  latency_pkts :: u64
  latency_max :: u64
  latency_min :: u64

definition calculate_ltran_latency :: "fwd_env \<Rightarrow> mbuf \<Rightarrow> stack_stat \<Rightarrow> mbuf \<times> stack_stat" where
  "calculate_ltran_latency E m stats =
     (if mb_stamp m \<noteq> NOT (mb_check m) then (m, stats)
      else if mb_stamp m < start_stamp E then (m\<lparr>mb_stamp := 0\<rparr>, stats)
      else (let latency = now E - mb_stamp m in
        (m, stats\<lparr>latency_total := latency_total stats + latency, latency_pkts := latency_pkts stats + 1,
           latency_max := (if latency_max stats > latency then latency_max stats else latency),
           latency_min := (if latency_min stats < latency then latency_min stats else latency)\<rparr>)))"

section \<open>Handing packets to a stack\<close>

text \<open>The stack with its receive ring, its statistics and the packet buffers of the process.\<close>

record rx_state =
  rx_stack :: gazelle_stack
  rx_rte :: "addr rte_ring"
  rx_stats :: stack_stat
  rx_mem :: mbufs

definition flush_rx_mbuf :: "fwd_env \<Rightarrow> addr \<Rightarrow> addr \<Rightarrow> mbufs \<times> stack_stat \<Rightarrow> (mbufs \<times> stack_stat) option" where
  "flush_rx_mbuf E dst src = (\<lambda>(mem, stats). do {
     s \<leftarrow> mem src;
     d \<leftarrow> mem dst;
     let mem = mem(dst \<mapsto> copy_mbuf E d s);
     let stats = stats\<lparr>st_rx_bytes := st_rx_bytes stats + ucast (mb_data_len s)\<rparr>;
     let stats = (if latency_flag E then snd (calculate_ltran_latency E s stats) else stats);
     Some (mem(src := None), stats)})"

text \<open>The copy loops: destination and source of each round.\<close>

fun flush_each :: "fwd_env \<Rightarrow> (addr \<times> addr option) list \<Rightarrow> mbufs \<times> stack_stat \<Rightarrow> (mbufs \<times> stack_stat) option" where
  "flush_each E [] ms = Some ms"
| "flush_each E ((dst, src) # xs) ms =
     (case src of None \<Rightarrow> None
      | Some a \<Rightarrow> (case flush_rx_mbuf E dst a ms of None \<Rightarrow> None | Some ms \<Rightarrow> flush_each E xs ms))"

definition backup_size :: u32 where "backup_size = 32768"
definition ring_max_size :: u32 where "ring_max_size = 512"
definition gazelle_packet_read_size :: u32 where "gazelle_packet_read_size = 32"

definition backup_at :: "gazelle_stack \<Rightarrow> nat \<Rightarrow> addr option" where
  "backup_at s j = backup_pkt_buf s (unat ((backup_start s + word_of_nat j) mod backup_size))"

definition backup_bufs_enque_rx_ring :: "fwd_env \<Rightarrow> rx_state \<Rightarrow> rx_state option" where
  "backup_bufs_enque_rx_ring E S = do {
     let s = rx_stack S;
     let flush_cnt = (if backup_pkt_cnt s < ring_max_size then backup_pkt_cnt s else ring_max_size);
     let (free_cnt, free_buf, r) = gazelle_ring_read (relems E) (rx_rte S) flush_cnt;
     (mem, stats) \<leftarrow> flush_each E (zip free_buf (map (backup_at s) [0..<unat free_cnt])) (rx_mem S, rx_stats S);
     Some (S\<lparr>rx_stack := s\<lparr>backup_pkt_cnt := backup_pkt_cnt s - free_cnt,
                           backup_start := (backup_start s + free_cnt) mod backup_size\<rparr>,
             rx_rte := gazelle_ring_read_over r,
             rx_stats := stats\<lparr>st_rx := st_rx stats + ucast free_cnt\<rparr>,
             rx_mem := mem\<rparr>)}"

text \<open>
  \<open>pktbufs_move_to_backup_bufs\<close> on the batch array from index \<open>off\<close> on: what does not fit is
  freed and its entry cleared.
\<close>

fun free_mbufs :: "addr option list \<Rightarrow> mbufs \<Rightarrow> mbufs option" where
  "free_mbufs [] mem = Some mem"
| "free_mbufs (x # xs) mem =
     (case x of None \<Rightarrow> free_mbufs xs mem
      | Some a \<Rightarrow> (case mem a of None \<Rightarrow> None | Some _ \<Rightarrow> free_mbufs xs (mem(a := None))))"

fun put_backup :: "u32 \<Rightarrow> nat \<Rightarrow> addr option list \<Rightarrow> (nat \<Rightarrow> addr option) \<Rightarrow> (nat \<Rightarrow> addr option)" where
  "put_backup tail j [] b = b"
| "put_backup tail j (x # xs) b = put_backup tail (Suc j) xs (b(unat ((tail + word_of_nat j) mod backup_size) := x))"

definition pktbufs_move_to_backup_bufs :: "nat \<Rightarrow> u32 \<Rightarrow> rx_state \<Rightarrow> rx_state option" where
  "pktbufs_move_to_backup_bufs off mbuf_cnt S = do {
     let s = rx_stack S;
     let backup_tail = (backup_start s + backup_pkt_cnt s) mod backup_size;
     let over = backup_pkt_cnt s + mbuf_cnt > backup_size;
     let pkt_cnt = (if over then backup_size - backup_pkt_cnt s else mbuf_cnt);
     let mbuf = (\<lambda>j. pkt_buf s (off + j));
     mem \<leftarrow> (if over then free_mbufs (map mbuf [unat pkt_cnt..<unat mbuf_cnt]) (rx_mem S) else Some (rx_mem S));
     Some (S\<lparr>rx_stack := s\<lparr>
               pkt_buf := (\<lambda>i. if over \<and> off + unat pkt_cnt \<le> i \<and> i < off + unat mbuf_cnt then None else pkt_buf s i),
               backup_pkt_cnt := backup_pkt_cnt s + pkt_cnt,
               backup_pkt_buf := put_backup backup_tail 0 (map mbuf [0..<unat pkt_cnt]) (backup_pkt_buf s)\<rparr>,
             rx_stats := (if over then (rx_stats S)\<lparr>st_rx_drop := st_rx_drop (rx_stats S) + ucast (mbuf_cnt - pkt_cnt)\<rparr>
                          else rx_stats S),
             rx_mem := mem\<rparr>)}"

text \<open>The prefetches of the code leave no trace here; both of its loops flush entry \<open>j\<close> in round \<open>j\<close>.\<close>

definition pkt_bufs_enque_rx_ring :: "fwd_env \<Rightarrow> rx_state \<Rightarrow> (u32 \<times> rx_state) option" where
  "pkt_bufs_enque_rx_ring E S = do {
     let s = rx_stack S;
     let (free_cnt, free_buf, r) = gazelle_ring_read (relems E) (rx_rte S) (pkt_cnt s);
     let stats = (rx_stats S)\<lparr>st_rx := st_rx (rx_stats S) + ucast free_cnt\<rparr>;
     (mem, stats) \<leftarrow> flush_each E (zip free_buf (map (pkt_buf s) [0..<unat free_cnt])) (rx_mem S, stats);
     Some (free_cnt, S\<lparr>rx_rte := (if free_cnt \<noteq> 0 then gazelle_ring_read_over r else r),
                      rx_stats := stats, rx_mem := mem\<rparr>)}"

definition flush_rx_ring :: "fwd_env \<Rightarrow> rx_state \<Rightarrow> rx_state option" where
  "flush_rx_ring E S = do {
     S \<leftarrow> (if backup_pkt_cnt (rx_stack S) > 0 then backup_bufs_enque_rx_ring E S else Some S);
     (if backup_pkt_cnt (rx_stack S) > 0 then do {
        S \<leftarrow> pktbufs_move_to_backup_bufs 0 (pkt_cnt (rx_stack S)) S;
        Some (S\<lparr>rx_stack := (rx_stack S)\<lparr>pkt_cnt := 0\<rparr>\<rparr>)}
      else do {
        (flush_cnt, S) \<leftarrow> pkt_bufs_enque_rx_ring E S;
        S \<leftarrow> (if flush_cnt < pkt_cnt (rx_stack S)
              then pktbufs_move_to_backup_bufs (unat flush_cnt) (pkt_cnt (rx_stack S) - flush_cnt) S else Some S);
        Some (S\<lparr>rx_stack := (rx_stack S)\<lparr>pkt_cnt := 0\<rparr>\<rparr>)})}"

definition enqueue_rx_packet :: "fwd_env \<Rightarrow> addr \<Rightarrow> rx_state \<Rightarrow> rx_state option" where
  "enqueue_rx_packet E buf S = do {
     let s = rx_stack S;
     let s = s\<lparr>pkt_buf := (pkt_buf s)(unat (pkt_cnt s) := Some buf), pkt_cnt := pkt_cnt s + 1\<rparr>;
     (if pkt_cnt s \<ge> gazelle_packet_read_size then flush_rx_ring E (S\<lparr>rx_stack := s\<rparr>)
      else Some (S\<lparr>rx_stack := s\<rparr>))}"

section \<open>What is waiting\<close>

definition backs :: "gazelle_stack \<Rightarrow> addr option list" where
  "backs s = map (backup_at s) [0..<unat (backup_pkt_cnt s)]"

definition pends :: "gazelle_stack \<Rightarrow> addr option list" where
  "pends s = map (pkt_buf s) [0..<unat (pkt_cnt s)]"

definition waiting :: "gazelle_stack \<Rightarrow> addr list" where
  "waiting s = map the (backs s @ pends s)"

text \<open>A packet is the buffer without the bytes behind its data.\<close>

definition packet :: "mbuf \<Rightarrow> mbuf" where
  "packet m = m\<lparr>mb_data := (\<lambda>i. if i < unat (mb_data_len m) then mb_data m i else 0)\<rparr>"

definition packets :: "mbufs \<Rightarrow> addr list \<Rightarrow> mbuf list" where
  "packets mem as = map (\<lambda>a. packet (the (mem a))) as"

definition rx_inv :: "fwd_env \<Rightarrow> rx_state \<Rightarrow> bool" where
  "rx_inv E S \<longleftrightarrow>
     (let s = rx_stack S; R = relems E; r = rx_rte S in
      unat (pkt_cnt s) \<le> 32 \<and> unat (backup_pkt_cnt s) \<le> 32768 \<and> unat (backup_start s) < 32768 \<and>
      None \<notin> set (backs s @ pends s) \<and>
      ring_inv R r \<and> in_read R r = [] \<and> unat (capacity r) \<le> 512 \<and>
      distinct (waiting s @ filled R r @ lent R r) \<and>
      set (waiting s @ filled R r @ lent R r) \<subseteq> dom (rx_mem S) \<and>
      (\<forall>a \<in> set (waiting s). mb_data_len (the (rx_mem S a)) \<le> buf_size E))"

lemma rx_invD:
  assumes "rx_inv E S"
  shows "unat (pkt_cnt (rx_stack S)) \<le> 32" and "unat (backup_pkt_cnt (rx_stack S)) \<le> 32768"
    and "unat (backup_start (rx_stack S)) < 32768"
    and "None \<notin> set (backs (rx_stack S))" and "None \<notin> set (pends (rx_stack S))"
    and "ring_inv (relems E) (rx_rte S)" and "in_read (relems E) (rx_rte S) = []"
    and "unat (capacity (rx_rte S)) \<le> 512"
    and "distinct (waiting (rx_stack S) @ filled (relems E) (rx_rte S) @ lent (relems E) (rx_rte S))"
    and "set (waiting (rx_stack S) @ filled (relems E) (rx_rte S) @ lent (relems E) (rx_rte S)) \<subseteq> dom (rx_mem S)"
    and "a \<in> set (waiting (rx_stack S)) \<Longrightarrow> mb_data_len (the (rx_mem S a)) \<le> buf_size E"
  using assms unfolding rx_inv_def Let_def set_append by blast+

lemma packet_copy:
  "mb_data_len s \<le> buf_size E \<Longrightarrow> packet (copy_mbuf E d s) = packet s"
  by (auto simp: packet_def copy_mbuf_def fun_eq_iff)

section \<open>The copy loops\<close>

lemma flush_rx_mbuf_law:
  assumes "mem src = Some s" and "mem dst = Some d"
  shows "\<exists>u. flush_rx_mbuf E dst src (mem, stats) = Some (mem(dst \<mapsto> copy_mbuf E d s, src := None), u) \<and>
    st_rx u = st_rx stats \<and> st_rx_drop u = st_rx_drop stats"
  using assms by (auto simp: flush_rx_mbuf_def calculate_ltran_latency_def Let_def)

lemma flush_each_law:
  assumes "length ds = length qs" and "distinct (ds @ qs)" and "set (ds @ qs) \<subseteq> dom mem"
  shows "\<exists>mem' u. flush_each E (zip ds (map Some qs)) (mem, stats) = Some (mem', u) \<and>
    st_rx u = st_rx stats \<and> st_rx_drop u = st_rx_drop stats \<and>
    (\<forall>a. a \<notin> set ds \<union> set qs \<longrightarrow> mem' a = mem a) \<and> (\<forall>a \<in> set qs. mem' a = None) \<and>
    (\<forall>i < length ds. mem' (ds ! i) = Some (copy_mbuf E (the (mem (ds ! i))) (the (mem (qs ! i)))))"
  using assms
proof (induction ds qs arbitrary: mem stats rule: list_induct2)
  case (Cons d ds q qs)
  obtain s t where h: "mem q = Some s" "mem d = Some t" using Cons.prems(2) by auto
  obtain u where u: "flush_rx_mbuf E d q (mem, stats) = Some (mem(d \<mapsto> copy_mbuf E t s, q := None), u)"
    "st_rx u = st_rx stats" "st_rx_drop u = st_rx_drop stats"
    using flush_rx_mbuf_law [of mem q s d t E stats, OF h] by blast
  let ?m = "mem(d \<mapsto> copy_mbuf E t s, q := None)"
  have D: "distinct (ds @ qs)" "d \<notin> set (ds @ qs)" "q \<notin> set (ds @ qs)" "d \<noteq> q" using Cons.prems(1) by auto
  have "set (ds @ qs) \<subseteq> dom ?m" using Cons.prems(2) D by auto
  from Cons.IH [OF D(1) this, of u] obtain mem' v where
    v: "flush_each E (zip ds (map Some qs)) (?m, u) = Some (mem', v)" "st_rx v = st_rx u" "st_rx_drop v = st_rx_drop u"
    and o: "\<forall>a. a \<notin> set ds \<union> set qs \<longrightarrow> mem' a = ?m a" and g: "\<forall>a \<in> set qs. mem' a = None"
    and c: "\<forall>i < length ds. mem' (ds ! i) = Some (copy_mbuf E (the (?m (ds ! i))) (the (?m (qs ! i))))" by blast
  have "mem' ((d # ds) ! i) = Some (copy_mbuf E (the (mem ((d # ds) ! i))) (the (mem ((q # qs) ! i))))"
    if i: "i < length (d # ds)" for i
  proof (cases i)
    case 0
    then show ?thesis using o D h by simp
  next
    case (Suc k)
    then have "ds ! k \<in> set ds" "qs ! k \<in> set qs" "k < length ds" using i Cons.hyps by auto
    then show ?thesis using c D Suc by (auto simp: fun_upd_apply)
  qed
  moreover have "\<forall>a. a \<notin> set (d # ds) \<union> set (q # qs) \<longrightarrow> mem' a = mem a" using o by auto
  moreover have "\<forall>a \<in> set (q # qs). mem' a = None" using o g D by auto
  ultimately show ?case using u v by (intro exI [of _ mem'] exI [of _ v]) simp
qed simp

text \<open>Reading free buffers, filling them with the packets \<open>qs\<close> and giving them back.\<close>

definition moved :: "fwd_env \<Rightarrow> nat \<Rightarrow> addr list \<Rightarrow> addr rte_ring \<Rightarrow> mbufs \<Rightarrow> addr rte_ring \<Rightarrow> mbufs \<Rightarrow> bool" where
  "moved E n qs r mem r' mem' \<longleftrightarrow>
     (let R = relems E in
      ring_inv R r' \<and> in_read R r' = [] \<and> capacity r' = capacity r \<and>
      filled R r' = filled R r @ take n (lent R r) \<and> lent R r' = drop n (lent R r) \<and>
      (\<forall>a. a \<notin> set (take n (lent R r)) \<union> set (take n qs) \<longrightarrow> mem' a = mem a) \<and>
      (\<forall>a \<in> set (take n qs). mem' a = None) \<and>
      set (take n (lent R r)) \<subseteq> dom mem' \<and>
      packets mem' (take n (lent R r)) = packets mem (take n qs))"

lemma packets_cong: "(\<And>a. a \<in> set as \<Longrightarrow> m a = m' a) \<Longrightarrow> packets m as = packets m' as"
  by (simp add: packets_def)

lemma ring_flush_law:
  assumes inv: "ring_inv (relems E) r" and ir: "in_read (relems E) r = []"
    and m: "unat m = length qs"
    and d: "distinct (qs @ lent (relems E) r)" and sub: "set (qs @ lent (relems E) r) \<subseteq> dom mem"
    and len: "\<forall>a \<in> set qs. mb_data_len (the (mem a)) \<le> buf_size E"
    and rd: "gazelle_ring_read (relems E) r m = (free_cnt, free_buf, r')"
    and n: "n = min (length qs) (length (lent (relems E) r))"
  shows "unat free_cnt = n" and "free_buf = take n (lent (relems E) r)"
    and "\<exists>mem' u. flush_each E (zip free_buf (map Some (take n qs))) (mem, stats) = Some (mem', u) \<and>
      st_rx u = st_rx stats \<and> st_rx_drop u = st_rx_drop stats \<and>
      moved E n qs r mem (gazelle_ring_read_over r') mem'"
    and "n = 0 \<Longrightarrow> r' = r"
proof -
  let ?R = "relems E"
  note L = ring_law_read [OF inv rd]
  have t: "take (unat m) (lent ?R r) = take n (lent ?R r)" using m n by (simp add: min_def)
  show fb: "free_buf = take n (lent ?R r)" using L(1) t by simp
  show fc: "unat free_cnt = n" using L(2) fb n by simp
  have dr: "drop (unat m) (lent ?R r) = drop n (lent ?R r)" using m n by (simp add: min_def)
  note O = ring_law_read_over [OF L(3)]
  have q: "length (take n (lent ?R r)) = length (take n qs)" using n by simp
  have dd: "distinct (take n (lent ?R r) @ take n qs)"
    using d set_take_subset [of n "lent ?R r"] set_take_subset [of n qs] by auto
  have ss: "set (take n (lent ?R r) @ take n qs) \<subseteq> dom mem"
    using sub set_take_subset [of n "lent ?R r"] set_take_subset [of n qs] by auto
  obtain mem' u where u: "flush_each E (zip (take n (lent ?R r)) (map Some (take n qs))) (mem, stats) = Some (mem', u)"
    "st_rx u = st_rx stats" "st_rx_drop u = st_rx_drop stats"
    and o: "\<forall>a. a \<notin> set (take n (lent ?R r)) \<union> set (take n qs) \<longrightarrow> mem' a = mem a"
    and g: "\<forall>a \<in> set (take n qs). mem' a = None"
    and c: "\<forall>i < length (take n (lent ?R r)). mem' (take n (lent ?R r) ! i) =
        Some (copy_mbuf E (the (mem (take n (lent ?R r) ! i))) (the (mem (take n qs ! i))))"
    using flush_each_law [OF q dd ss, of E stats] by blast
  have "packets mem' (take n (lent ?R r)) = packets mem (take n qs)"
    unfolding packets_def
  proof (rule nth_equalityI)
    fix i assume "i < length (map (\<lambda>a. packet (the (mem' a))) (take n (lent ?R r)))"
    then have i: "i < n" "i < length qs" "i < length (lent ?R r)" using n by simp_all
    have "mb_data_len (the (mem (qs ! i))) \<le> buf_size E" using len i(2) by simp
    then have "packet (the (mem' (lent ?R r ! i))) = packet (the (mem (qs ! i)))"
      using c i by (simp add: packet_copy)
    then show "map (\<lambda>a. packet (the (mem' a))) (take n (lent ?R r)) ! i = map (\<lambda>a. packet (the (mem a))) (take n qs) ! i"
      using i by simp
  qed (use n in simp)
  moreover have "set (take n (lent ?R r)) \<subseteq> dom mem'"
  proof
    fix a assume "a \<in> set (take n (lent ?R r))"
    then obtain i where "i < length (take n (lent ?R r))" "take n (lent ?R r) ! i = a" by (metis in_set_conv_nth)
    then show "a \<in> dom mem'" using c by auto
  qed
  ultimately have "moved E n qs r mem (gazelle_ring_read_over r') mem'"
    unfolding moved_def Let_def using O L t dr o g ir fb by simp
  then show "\<exists>mem' u. flush_each E (zip free_buf (map Some (take n qs))) (mem, stats) = Some (mem', u) \<and>
      st_rx u = st_rx stats \<and> st_rx_drop u = st_rx_drop stats \<and>
      moved E n qs r mem (gazelle_ring_read_over r') mem'"
    using u fb by blast
  show "r' = r" if "n = 0"
  proof -
    have "free_cnt = 0" using fc that by (simp add: unat_eq_0)
    then show ?thesis using rd by (auto simp: gazelle_ring_read_def Let_def split: if_splits)
  qed
qed

section \<open>The backup array\<close>

lemma backup_slot: "unat ((i + word_of_nat j) mod backup_size) = slot 32768 i j"
proof -
  have "(unat i + j) mod 4294967296 mod 32768 = (unat i + j) mod (32768 :: nat)" by (rule mod_mod_cancel) simp
  then show ?thesis by (simp add: backup_size_def slot_def unat_mod unat_word_ariths unat_of_nat mod_simps)
qed

lemma backup_at_slot: "backup_at s j = backup_pkt_buf s (slot 32768 (backup_start s) j)"
  by (simp add: backup_at_def backup_slot)

lemma put_backup_store: "put_backup tail j xs b = plain_store 32768 tail j xs b"
  by (induction xs arbitrary: j b) (simp_all add: backup_slot)

lemma backs_drop:
  assumes "unat n \<le> unat (backup_pkt_cnt s)" and "s' = s\<lparr>backup_pkt_cnt := backup_pkt_cnt s - n,
      backup_start := (backup_start s + n) mod backup_size\<rparr>"
  shows "backs s' = drop (unat n) (backs s)"
proof -
  have c: "unat (backup_pkt_cnt s') = unat (backup_pkt_cnt s) - unat n" using assms by (simp add: unat_minus_le)
  have e: "backup_at s' k = backup_at s (unat n + k)" for k
  proof -
    have "unat ((backup_start s + n) mod backup_size) = slot 32768 (backup_start s) (unat n)"
      using backup_slot [of "backup_start s" "unat n"] by simp
    then have "slot 32768 (backup_start s') k = slot 32768 (backup_start s) (unat n + k)"
      using assms(2) by (simp add: slot_def mod_simps add.assoc)
    then show ?thesis using assms(2) by (simp add: backup_at_slot)
  qed
  show ?thesis unfolding backs_def by (rule nth_equalityI) (simp_all add: c e)
qed

lemma backs_put:
  assumes c: "unat (backup_pkt_cnt s) + length xs \<le> 32768" and n: "unat n = length xs"
    and s': "backup_start s' = backup_start s" "backup_pkt_cnt s' = backup_pkt_cnt s + n"
      "backup_pkt_buf s' = put_backup ((backup_start s + backup_pkt_cnt s) mod backup_size) 0 xs (backup_pkt_buf s)"
  shows "backs s' = backs s @ xs"
proof -
  let ?t = "(backup_start s + backup_pkt_cnt s) mod backup_size" and ?m = "unat (backup_pkt_cnt s)"
  have cnt: "unat (backup_pkt_cnt s') = ?m + length xs" using c n s'(2) by (simp add: unat_plus_small)
  have t: "slot 32768 ?t k = slot 32768 (backup_start s) (?m + k)" for k
    using backup_slot [of "backup_start s" ?m] by (simp add: slot_def mod_simps add.assoc)
  have new: "backup_at s' (?m + k) = xs ! k" if "k < length xs" for k
    using plain_store_same [of 0 xs 32768 k ?t "backup_pkt_buf s"] that c s' t [of k]
    by (simp add: backup_at_slot put_backup_store)
  have old: "backup_at s' k = backup_at s k" if "k < ?m" for k
  proof -
    have "slot 32768 (backup_start s) k \<noteq> slot 32768 ?t j" if "j < length xs" for j
    proof
      assume "slot 32768 (backup_start s) k = slot 32768 ?t j"
      then have "k = ?m + j" unfolding t by (rule slot_inj) (use \<open>k < ?m\<close> \<open>j < length xs\<close> c in linarith)+
      then show False using \<open>k < ?m\<close> by simp
    qed
    then show ?thesis using plain_store_other [of 0 xs "slot 32768 (backup_start s) k" 32768 ?t "backup_pkt_buf s"] s'
      by (simp add: backup_at_slot put_backup_store)
  qed
  show ?thesis
  proof (rule nth_equalityI)
    show "length (backs s') = length (backs s @ xs)" by (simp add: backs_def cnt)
    fix i assume i: "i < length (backs s')"
    then have "i < ?m + length xs" by (simp add: backs_def cnt)
    then show "backs s' ! i = (backs s @ xs) ! i"
      using old [of i] new [of "i - ?m"] i by (cases "i < ?m") (simp_all add: backs_def nth_append)
  qed
qed

section \<open>The steps of a flush\<close>

lemma map_Some_the: "None \<notin> set xs \<Longrightarrow> map Some (map the xs) = xs"
  by (induction xs) auto

lemma free_mbufs_law:
  "distinct as \<Longrightarrow> set as \<subseteq> dom mem \<Longrightarrow> free_mbufs (map Some as) mem = Some (mem |` (- set as))"
proof (induction as arbitrary: mem)
  case (Cons a as)
  have "set as \<subseteq> dom (mem(a := None))" using Cons.prems by auto
  moreover have "(mem(a := None)) |` (- set as) = mem |` (- set (a # as))" by (auto simp: restrict_map_def fun_eq_iff)
  ultimately show ?case using Cons by (auto split: option.splits)
qed (simp add: restrict_map_def)

lemma move_law:
  assumes xs: "map (\<lambda>j. pkt_buf (rx_stack S) (off + j)) [0..<unat cnt] = map Some as"
    and d: "distinct as" "set as \<subseteq> dom (rx_mem S)"
    and c: "unat (backup_pkt_cnt (rx_stack S)) \<le> 32768" "unat cnt \<le> 32"
    and k: "k = min (length as) (32768 - unat (backup_pkt_cnt (rx_stack S)))"
  shows "\<exists>S'. pktbufs_move_to_backup_bufs off cnt S = Some S' \<and> backs (rx_stack S') = backs (rx_stack S) @ map Some (take k as) \<and>
    unat (backup_pkt_cnt (rx_stack S')) = unat (backup_pkt_cnt (rx_stack S)) + k \<and>
    backup_start (rx_stack S') = backup_start (rx_stack S) \<and> rx_rte S' = rx_rte S \<and>
    rx_mem S' = rx_mem S |` (- set (drop k as)) \<and> st_rx (rx_stats S') = st_rx (rx_stats S) \<and>
    st_rx_drop (rx_stats S') = st_rx_drop (rx_stats S) + word_of_nat (length as - k)"
proof -
  let ?s = "rx_stack S" and ?b = "unat (backup_pkt_cnt (rx_stack S))"
  have len: "length as = unat cnt" using arg_cong [OF xs, of length] by simp
  have sum: "unat (backup_pkt_cnt ?s + cnt) = ?b + unat cnt" using c by (simp add: unat_plus_small)
  define over where "over \<longleftrightarrow> backup_pkt_cnt ?s + cnt > backup_size"
  define pc where "pc = (if over then backup_size - backup_pkt_cnt ?s else cnt)"
  have ov: "over \<longleftrightarrow> 32768 < ?b + unat cnt" using sum by (simp add: over_def backup_size_def word_less_nat_alt)
  have pc: "unat pc = k"
    using ov c k len by (auto simp: pc_def backup_size_def unat_minus_le)
  have pk: "k \<le> unat cnt" using k len by simp
  have bk: "?b + k \<le> 32768" and kl: "k \<le> length as" using k c(1) by linarith+
  have nth: "pkt_buf ?s (off + j) = Some (as ! j)" if "j < unat cnt" for j
    using arg_cong [OF xs, of "\<lambda>l. l ! j"] that len by simp
  have m1: "map (\<lambda>j. pkt_buf ?s (off + j)) [k..<unat cnt] = map Some (drop k as)"
    by (rule nth_equalityI) (use nth len in simp_all)
  have m0: "map (\<lambda>j. pkt_buf ?s (off + j)) [0..<k] = map Some (take k as)"
    by (rule nth_equalityI) (use nth len pk in simp_all)
  have dm: "free_mbufs (map Some (drop k as)) (rx_mem S) = Some (rx_mem S |` (- set (drop k as)))"
    using d set_drop_subset [of k as] by (intro free_mbufs_law) auto
  have all: "\<not> over \<Longrightarrow> drop k as = []" using pc pc_def len by simp
  let ?u = "?s\<lparr>pkt_buf := (\<lambda>i. if over \<and> off + unat pc \<le> i \<and> i < off + unat cnt then None else pkt_buf ?s i),
               backup_pkt_cnt := backup_pkt_cnt ?s + pc,
               backup_pkt_buf := put_backup ((backup_start ?s + backup_pkt_cnt ?s) mod backup_size) 0
                  (map Some (take k as)) (backup_pkt_buf ?s)\<rparr>"
  let ?st = "if over then (rx_stats S)\<lparr>st_rx_drop := st_rx_drop (rx_stats S) + ucast (cnt - pc)\<rparr> else rx_stats S"
  have run: "pktbufs_move_to_backup_bufs off cnt S =
     Some (S\<lparr>rx_stack := ?u, rx_stats := ?st, rx_mem := rx_mem S |` (- set (drop k as))\<rparr>)"
    unfolding pktbufs_move_to_backup_bufs_def Let_def over_def [symmetric] pc_def [symmetric] pc m0 m1 dm
    using all by (cases over) (simp_all add: pc restrict_map_def)
  have "backs ?u = backs ?s @ map Some (take k as)"
    by (rule backs_put [of _ _ pc]) (use pc bk kl in \<open>simp_all add: min_absorb1 min_absorb2\<close>)
  moreover have "unat (backup_pkt_cnt ?s + pc) = ?b + k" using pc bk by (simp add: unat_plus_small)
  moreover have "st_rx_drop ?st = st_rx_drop (rx_stats S) + word_of_nat (length as - k)"
  proof (cases over)
    case True
    have "unat (cnt - pc) = length as - k" using pc pk len by (simp add: unat_minus_le)
    moreover have "(ucast (cnt - pc) :: u64) = word_of_nat (unat (cnt - pc))" by simp
    ultimately have "(ucast (cnt - pc) :: u64) = word_of_nat (length as - k)" by (simp only:)
    then show ?thesis using True by simp
  next
    case False
    then show ?thesis using all by simp
  qed
  ultimately show ?thesis using run by (intro exI [of _ "S\<lparr>rx_stack := ?u, rx_stats := ?st, rx_mem := rx_mem S |` (- set (drop k as))\<rparr>"]) simp
qed

lemma rx_waiting:
  assumes "rx_inv E S"
  shows "backs (rx_stack S) = map Some (map the (backs (rx_stack S)))"
    and "pends (rx_stack S) = map Some (map the (pends (rx_stack S)))"
    and "length (lent (relems E) (rx_rte S)) \<le> 512"
  using map_Some_the [OF rx_invD(4) [OF assms]] map_Some_the [OF rx_invD(5) [OF assms]]
    ring_invD(2,4) [OF rx_invD(6) [OF assms]] rx_invD(8) [OF assms] by simp_all

text \<open>Draining the backup array: as many packets as the ring has buffers for.\<close>

lemma ucast_unat_nat: "(ucast (x :: u32) :: u64) = word_of_nat (unat x)"
  by simp

lemma backup_flush_law:
  assumes inv: "rx_inv E S"
    and n: "n = min (length (backs (rx_stack S))) (length (lent (relems E) (rx_rte S)))"
  shows "\<exists>T. backup_bufs_enque_rx_ring E S = Some T \<and>
    moved E n (map the (backs (rx_stack S))) (rx_rte S) (rx_mem S) (rx_rte T) (rx_mem T) \<and>
    backs (rx_stack T) = drop n (backs (rx_stack S)) \<and> pends (rx_stack T) = pends (rx_stack S) \<and>
    pkt_cnt (rx_stack T) = pkt_cnt (rx_stack S) \<and> unat (backup_pkt_cnt (rx_stack T)) = unat (backup_pkt_cnt (rx_stack S)) - n \<and>
    unat (backup_start (rx_stack T)) < 32768 \<and>
    st_rx (rx_stats T) = st_rx (rx_stats S) + word_of_nat n \<and> st_rx_drop (rx_stats T) = st_rx_drop (rx_stats S)"
proof -
  note D = rx_invD [OF inv]
  let ?s = "rx_stack S" and ?R = "relems E" and ?r = "rx_rte S"
  define m where "m = (if backup_pkt_cnt ?s < ring_max_size then backup_pkt_cnt ?s else ring_max_size)"
  let ?qs = "take (unat m) (map the (backs ?s))"
  have lb: "length (backs ?s) = unat (backup_pkt_cnt ?s)" by (simp add: backs_def)
  have um: "unat m = min (unat (backup_pkt_cnt ?s)) 512"
    by (simp add: m_def ring_max_size_def word_less_nat_alt min_def)
  have lq: "unat m = length ?qs" using um lb by simp
  have ln: "length (lent ?R ?r) \<le> 512" using rx_waiting(3) [OF inv] .
  have n': "n = min (length ?qs) (length (lent ?R ?r))" using n lq um lb ln by linarith
  have tk: "take n ?qs = take n (map the (backs ?s))" using n' lq by (simp add: min_def)
  obtain fc fb r' where rd: "gazelle_ring_read ?R ?r m = (fc, fb, r')" by (rule prod_cases3)
  have sub: "set ?qs \<subseteq> set (map the (backs ?s))" by (rule set_take_subset)
  have dq: "distinct (?qs @ lent ?R ?r)" using D(9) sub by (auto simp: waiting_def distinct_map)
  have sq: "set (?qs @ lent ?R ?r) \<subseteq> dom (rx_mem S)"
    using D(10) sub unfolding waiting_def set_append map_append by blast
  have le: "\<forall>a \<in> set ?qs. mb_data_len (the (rx_mem S a)) \<le> buf_size E" using D(11) sub by (auto simp: waiting_def)
  note F = ring_flush_law [OF D(6,7) lq dq sq le rd n']
  obtain mem' u where u: "flush_each E (zip fb (map Some (take n ?qs))) (rx_mem S, rx_stats S) = Some (mem', u)"
    "st_rx u = st_rx (rx_stats S)" "st_rx_drop u = st_rx_drop (rx_stats S)"
    "moved E n ?qs ?r (rx_mem S) (gazelle_ring_read_over r') mem'" using F(3) [of "rx_stats S"] by blast
  have nle: "n \<le> length (backs ?s)" using n by simp
  have "map (backup_at ?s) [0..<n] = take n (backs ?s)" using nle by (simp add: backs_def take_map)
  also have "\<dots> = take n (map Some (map the (backs ?s)))" using rx_waiting(1) [OF inv] by simp
  finally have src: "map (backup_at ?s) [0..<unat fc] = map Some (take n ?qs)" using F(1) tk by (simp add: take_map)
  let ?u = "?s\<lparr>backup_pkt_cnt := backup_pkt_cnt ?s - fc, backup_start := (backup_start ?s + fc) mod backup_size\<rparr>"
  let ?T = "S\<lparr>rx_stack := ?u, rx_rte := gazelle_ring_read_over r',
     rx_stats := u\<lparr>st_rx := st_rx u + ucast fc\<rparr>, rx_mem := mem'\<rparr>"
  have run: "backup_bufs_enque_rx_ring E S = Some ?T"
    unfolding backup_bufs_enque_rx_ring_def Let_def m_def [symmetric] rd prod.case src u(1) by simp
  have "backs ?u = drop (unat fc) (backs ?s)" using F(1) nle lb by (intro backs_drop) simp_all
  moreover have "unat (backup_pkt_cnt ?s - fc) = unat (backup_pkt_cnt ?s) - n"
    using F(1) nle lb by (simp add: unat_minus_le)
  moreover have "moved E n (map the (backs ?s)) ?r (rx_mem S) (gazelle_ring_read_over r') mem'"
    using u(4) tk unfolding moved_def Let_def by simp
  moreover have "unat (backup_start ?u) < 32768" by (simp add: backup_size_def unat_mod)
  ultimately show ?thesis using run u(2,3) F(1)
    by (intro exI [of _ ?T]) (simp add: pends_def ucast_unat_nat del: of_nat_unat)
qed

text \<open>The batch array.\<close>

lemma batch_flush_law:
  assumes inv: "rx_inv E S"
    and n: "n = min (length (pends (rx_stack S))) (length (lent (relems E) (rx_rte S)))"
  shows "\<exists>c T. pkt_bufs_enque_rx_ring E S = Some (c, T) \<and> unat c = n \<and> rx_stack T = rx_stack S \<and>
    moved E n (map the (pends (rx_stack S))) (rx_rte S) (rx_mem S) (rx_rte T) (rx_mem T) \<and>
    st_rx (rx_stats T) = st_rx (rx_stats S) + word_of_nat n \<and> st_rx_drop (rx_stats T) = st_rx_drop (rx_stats S)"
proof -
  note D = rx_invD [OF inv]
  let ?s = "rx_stack S" and ?R = "relems E" and ?r = "rx_rte S"
  let ?qs = "map the (pends ?s)"
  have lq: "unat (pkt_cnt ?s) = length ?qs" by (simp add: pends_def)
  have n': "n = min (length ?qs) (length (lent ?R ?r))" using n by simp
  obtain fc fb r' where rd: "gazelle_ring_read ?R ?r (pkt_cnt ?s) = (fc, fb, r')" by (rule prod_cases3)
  have dq: "distinct (?qs @ lent ?R ?r)" using D(9) by (auto simp: waiting_def)
  have sq: "set (?qs @ lent ?R ?r) \<subseteq> dom (rx_mem S)" using D(10) by (auto simp: waiting_def)
  have le: "\<forall>a \<in> set ?qs. mb_data_len (the (rx_mem S a)) \<le> buf_size E" using D(11) by (auto simp: waiting_def)
  let ?st = "(rx_stats S)\<lparr>st_rx := st_rx (rx_stats S) + ucast fc\<rparr>"
  note F = ring_flush_law [OF D(6,7) lq dq sq le rd n']
  obtain mem' u where u: "flush_each E (zip fb (map Some (take n ?qs))) (rx_mem S, ?st) = Some (mem', u)"
    "st_rx u = st_rx ?st" "st_rx_drop u = st_rx_drop ?st"
    "moved E n ?qs ?r (rx_mem S) (gazelle_ring_read_over r') mem'" using F(3) [of ?st] by blast
  have "map (pkt_buf ?s) [0..<n] = take n (pends ?s)" using n by (simp add: pends_def take_map)
  also have "\<dots> = take n (map Some ?qs)" using rx_waiting(2) [OF inv] by simp
  finally have src: "map (pkt_buf ?s) [0..<unat fc] = map Some (take n ?qs)" using F(1) by (simp add: take_map)
  let ?T = "S\<lparr>rx_rte := (if fc \<noteq> 0 then gazelle_ring_read_over r' else r'), rx_stats := u, rx_mem := mem'\<rparr>"
  have run: "pkt_bufs_enque_rx_ring E S = Some (fc, ?T)"
    unfolding pkt_bufs_enque_rx_ring_def Let_def rd by (simp add: src u(1))
  have "moved E n ?qs ?r (rx_mem S) (rx_rte ?T) mem'"
  proof (cases "fc = 0")
    case True
    then have z: "n = 0" using F(1) by simp
    then have "rx_rte ?T = ?r" using True F(4) by simp
    then show ?thesis using u(4) z D(6,7) unfolding moved_def Let_def by (simp add: packets_def)
  next
    case False
    then show ?thesis using u(4) by simp
  qed
  then show ?thesis using run u(2,3) F(1)
    by (intro exI [of _ fc] exI [of _ ?T]) (simp add: ucast_unat_nat del: of_nat_unat)
qed

section \<open>A whole flush\<close>

lemma packets_append: "packets m (xs @ ys) = packets m xs @ packets m ys"
  by (simp add: packets_def)

lemma movedD:
  assumes "moved E n qs r mem r' mem'"
  shows "ring_inv (relems E) r'" and "in_read (relems E) r' = []" and "capacity r' = capacity r"
    and "filled (relems E) r' = filled (relems E) r @ take n (lent (relems E) r)"
    and "lent (relems E) r' = drop n (lent (relems E) r)"
    and "a \<notin> set (take n (lent (relems E) r)) \<Longrightarrow> a \<notin> set (take n qs) \<Longrightarrow> mem' a = mem a"
    and "a \<in> set (take n qs) \<Longrightarrow> mem' a = None"
    and "set (take n (lent (relems E) r)) \<subseteq> dom mem'"
    and "packets mem' (take n (lent (relems E) r)) = packets mem (take n qs)"
  using assms unfolding moved_def Let_def by blast+

lemma cut_list: "\<exists>as bs. take n xs = as \<and> drop n xs = bs \<and> xs = as @ bs"
  by (intro exI [of _ "take n xs"] exI [of _ "drop n xs"]) simp

lemma moved_compose:
  assumes a: "moved E n1 qs1 r mem r1 mem1" and b: "moved E n2 qs2 r1 mem1 r2 mem2"
    and n: "n1 = length qs1" "n1 \<le> length (lent (relems E) r)"
    and d: "distinct (qs1 @ qs2 @ lent (relems E) r)"
  shows "moved E (n1 + n2) (qs1 @ qs2) r mem r2 mem2"
proof -
  let ?L = "lent (relems E) r"
  obtain L1 L2 where L: "take n1 ?L = L1" "drop n1 ?L = L2" "?L = L1 @ L2" using cut_list by blast
  obtain L3 L4 where L2: "take n2 L2 = L3" "drop n2 L2 = L4" "L2 = L3 @ L4" using cut_list by blast
  obtain q3 q4 where q2: "take n2 qs2 = q3" "qs2 = q3 @ q4" by (metis append_take_drop_id)
  have l2: "lent (relems E) r1 = L2" using movedD(5) [OF a] unfolding L(2) .
  note B = movedD [OF b, unfolded l2 L2(1,2) q2(1)]
  have q1: "take n1 qs1 = qs1" using n(1) by simp
  note A = movedD [OF a, unfolded L(1,2) q1]
  have d: "distinct (qs1 @ q3 @ q4 @ L1 @ L3 @ L4)" using d unfolding L(3) L2(3) q2(2) by simp
  have t: "take (n1 + n2) ?L = L1 @ L3" "drop (n1 + n2) ?L = L4"
    by (simp only: take_add L(1,2) L2(1)) (metis L(2) L2(2) drop_drop add.commute)
  have q: "take (n1 + n2) (qs1 @ qs2) = qs1 @ q3" using n q2(1) by simp
  have l1: "mem2 a = mem1 a" if "a \<in> set L1" for a 
  proof -
    have "a \<notin> set L3" "a \<notin> set q3" using that d by (auto simp: disjoint_iff)
    then show ?thesis by (rule B(6))
  qed
  have g1: "mem2 a = None" if "a \<in> set qs1" for a 
  proof -
    have "a \<notin> set L3" "a \<notin> set q3" using that d by (auto simp: disjoint_iff)
    then show ?thesis using B(6) [of a] A(7) [OF that] by simp
  qed
  have m3: "mem1 a = mem a" if "a \<in> set q3" for a 
  proof -
    have "a \<notin> set L1" "a \<notin> set qs1" using that d by (auto simp: disjoint_iff)
    then show ?thesis by (rule A(6))
  qed
  have "packets mem2 (L1 @ L3) = packets mem (qs1 @ q3)"
    unfolding packets_append using packets_cong [of L1 mem2 mem1] l1 A(9) B(9) packets_cong [of q3 mem1 mem] m3 by simp
  moreover have "set (L1 @ L3) \<subseteq> dom mem2" using A(8) B(8) l1 by auto
  moreover have "mem2 a = mem a" if "a \<notin> set (L1 @ L3) \<union> set (qs1 @ q3)" for a
    using that A(6) [of a] B(6) [of a] by auto
  moreover have "mem2 a = None" if "a \<in> set (qs1 @ q3)" for a using that g1 B(7) by auto
  ultimately show ?thesis unfolding moved_def Let_def t q
    using B(1-5) A(3,4) by auto
qed

lemma flush_close:
  assumes inv: "rx_inv E S" and m: "moved E n (waiting (rx_stack S)) (rx_rte S) (rx_mem S) (rx_rte T) mem'"
    and n: "n \<le> length (lent (relems E) (rx_rte S))"
    and w: "backs (rx_stack T) @ pends (rx_stack T) = map Some w" "drop n (waiting (rx_stack S)) = w @ ds"
    and mem: "rx_mem T = mem' |` (- set ds)"
    and c: "unat (pkt_cnt (rx_stack T)) \<le> 32" "unat (backup_pkt_cnt (rx_stack T)) \<le> 32768"
      "unat (backup_start (rx_stack T)) < 32768"
  shows "rx_inv E T" and "waiting (rx_stack T) = w"
    and "packets (rx_mem T) (filled (relems E) (rx_rte T)) =
      packets (rx_mem S) (filled (relems E) (rx_rte S)) @ packets (rx_mem S) (take n (waiting (rx_stack S)))"
    and "packets (rx_mem T) w = packets (rx_mem S) w"
    and "dom (rx_mem T) = dom (rx_mem S) - set (take n (waiting (rx_stack S))) - set ds"
proof -
  let ?W = "waiting (rx_stack S)" and ?F = "filled (relems E) (rx_rte S)" and ?L = "lent (relems E) (rx_rte S)"
  note D = rx_invD [OF inv]
  obtain L1 L2 where L: "take n ?L = L1" "drop n ?L = L2" "?L = L1 @ L2" using cut_list by blast
  obtain W1 where W: "take n ?W = W1" "?W = W1 @ w @ ds" using w(2) by (metis append_take_drop_id)
  note M = movedD [OF m, unfolded L(1,2) W(1)]
  show w': "waiting (rx_stack T) = w" unfolding waiting_def w(1) by (simp add: comp_def)
  have d: "distinct (W1 @ w @ ds @ ?F @ L1 @ L2)" using D(9) unfolding W(2) L(3) by simp
  have keep: "rx_mem T a = rx_mem S a" if "a \<in> set (?F @ w @ L2)" for a
  proof -
    have "a \<notin> set W1" "a \<notin> set L1" "a \<notin> set ds" using that d by (auto simp: disjoint_iff)
    then show ?thesis using M(6) [of a] mem by simp
  qed
  have keepL: "rx_mem T a = mem' a" if "a \<in> set L1" for a using that d mem by (auto simp: restrict_map_def disjoint_iff)
  have sub: "set (w @ ?F @ L1 @ L2) \<subseteq> dom (rx_mem S)" using D(10) unfolding W(2) L(3) by simp
  have "a \<in> dom (rx_mem T)" if "a \<in> set (w @ (?F @ L1) @ L2)" for a
    using that sub keep [of a] keepL [of a] M(8) by (cases "a \<in> set L1") auto
  then have dom: "set (w @ (?F @ L1) @ L2) \<subseteq> dom (rx_mem T)" by blast
  have len: "mb_data_len (the (rx_mem T a)) \<le> buf_size E" if "a \<in> set w" for a
    using D(11) [of a] keep [of a] that unfolding W(2) by simp
  have none: "None \<notin> set (backs (rx_stack T) @ pends (rx_stack T))" unfolding w(1) by auto
  show "rx_inv E T"
    unfolding rx_inv_def Let_def w' M(4,5)
    using c none M(1-3) D(8) d dom len by auto
  show "packets (rx_mem T) (filled (relems E) (rx_rte T)) = packets (rx_mem S) ?F @ packets (rx_mem S) (take n ?W)"
    unfolding M(4) packets_append W(1) using packets_cong [of ?F "rx_mem T" "rx_mem S"] keep
      packets_cong [of L1 "rx_mem T" mem'] keepL M(9) by simp
  show "packets (rx_mem T) w = packets (rx_mem S) w" using keep by (intro packets_cong) simp
  show "dom (rx_mem T) = dom (rx_mem S) - set (take n ?W) - set ds"
    unfolding W(1)
  proof (intro set_eqI)
    fix a
    consider "a \<in> set W1" | "a \<in> set L1" | "a \<notin> set W1" "a \<notin> set L1" by blast
    then show "a \<in> dom (rx_mem T) \<longleftrightarrow> a \<in> dom (rx_mem S) - set W1 - set ds"
    proof cases
      case 1
      then show ?thesis using M(7) [OF 1] mem by (auto simp: restrict_map_def split: if_splits)
    next
      case 2
      then have "a \<notin> set W1" "a \<notin> set ds" "a \<in> dom mem'" "a \<in> dom (rx_mem S)" using 2 d M(8) sub by (auto simp: disjoint_iff)
      then show ?thesis using mem by (auto simp: restrict_map_def)
    next
      case 3
      then show ?thesis using M(6) [OF 3(2,1)] mem by (auto simp: restrict_map_def dom_def)
    qed
  qed
qed

text \<open>What a flush does, in terms of the packets waiting: \<open>n\<close> go out, the rest is cut to the backup array.\<close>

definition flushed :: "fwd_env \<Rightarrow> rx_state \<Rightarrow> nat \<Rightarrow> rx_state \<Rightarrow> bool" where
  "flushed E S n T \<longleftrightarrow>
     (let W = waiting (rx_stack S); w = take 32768 (drop n W); ds = drop 32768 (drop n W) in
      rx_inv E T \<and> pkt_cnt (rx_stack T) = 0 \<and> waiting (rx_stack T) = w \<and>
      lent (relems E) (rx_rte T) = drop n (lent (relems E) (rx_rte S)) \<and>
      filled (relems E) (rx_rte T) = filled (relems E) (rx_rte S) @ take n (lent (relems E) (rx_rte S)) \<and>
      packets (rx_mem T) (filled (relems E) (rx_rte T)) =
        packets (rx_mem S) (filled (relems E) (rx_rte S)) @ packets (rx_mem S) (take n W) \<and>
      packets (rx_mem T) w = packets (rx_mem S) w \<and>
      dom (rx_mem T) = dom (rx_mem S) - set (take n W) - set ds \<and>
      st_rx (rx_stats T) = st_rx (rx_stats S) + word_of_nat n \<and>
      st_rx_drop (rx_stats T) = st_rx_drop (rx_stats S) + word_of_nat (length ds))"

lemma flushedI:
  assumes inv: "rx_inv E S" and m: "moved E n (waiting (rx_stack S)) (rx_rte S) (rx_mem S) (rx_rte T) mem'"
    and n: "n \<le> length (lent (relems E) (rx_rte S))"
    and w: "backs (rx_stack T) = map Some (take 32768 (drop n (waiting (rx_stack S))))" "pkt_cnt (rx_stack T) = 0"
    and mem: "rx_mem T = mem' |` (- set (drop 32768 (drop n (waiting (rx_stack S)))))"
    and c: "unat (backup_start (rx_stack T)) < 32768"
    and st: "st_rx (rx_stats T) = st_rx (rx_stats S) + word_of_nat n"
      "st_rx_drop (rx_stats T) = st_rx_drop (rx_stats S) + word_of_nat (length (drop 32768 (drop n (waiting (rx_stack S)))))"
  shows "flushed E S n T"
proof -
  have p: "pends (rx_stack T) = []" using w(2) by (simp add: pends_def)
  have b: "backs (rx_stack T) @ pends (rx_stack T) = map Some (take 32768 (drop n (waiting (rx_stack S))))"
    using w(1) p by simp
  have d: "drop n (waiting (rx_stack S)) = take 32768 (drop n (waiting (rx_stack S))) @ drop 32768 (drop n (waiting (rx_stack S)))"
    by (simp only: append_take_drop_id)
  have "unat (backup_pkt_cnt (rx_stack T)) = length (backs (rx_stack T))" by (simp add: backs_def)
  also have "\<dots> \<le> 32768" unfolding w(1) by simp
  finally have cnt: "unat (backup_pkt_cnt (rx_stack T)) \<le> 32768" .
  have pc: "unat (pkt_cnt (rx_stack T)) \<le> 32" using w(2) by simp
  note F = flush_close [OF inv m n b d mem pc cnt c]
  show ?thesis unfolding flushed_def Let_def using F st w(2) movedD(4,5) [OF m] by blast
qed

lemma backs_batch [simp]: "backs (s\<lparr>pkt_cnt := x\<rparr>) = backs s" "backs (s\<lparr>pkt_buf := f\<rparr>) = backs s"
  by (simp_all add: backs_def backup_at_def)

lemma flush_from_batch:
  assumes inv: "rx_inv E S" and b: "backs (rx_stack S) = []"
  shows "\<exists>c S1 T. pkt_bufs_enque_rx_ring E S = Some (c, S1) \<and>
     (if c < pkt_cnt (rx_stack S1) then pktbufs_move_to_backup_bufs (unat c) (pkt_cnt (rx_stack S1) - c) S1 else Some S1) = Some T \<and>
     flushed E S (min (length (waiting (rx_stack S))) (length (lent (relems E) (rx_rte S))))
       (T\<lparr>rx_stack := (rx_stack T)\<lparr>pkt_cnt := 0\<rparr>\<rparr>)"
proof -
  note D = rx_invD [OF inv]
  let ?P = "map the (pends (rx_stack S))" and ?L = "lent (relems E) (rx_rte S)"
  have W: "waiting (rx_stack S) = ?P" using b by (simp add: waiting_def)
  have lp: "length ?P = unat (pkt_cnt (rx_stack S))" by (simp add: pends_def)
  define n where "n = min (length ?P) (length ?L)"
  have n': "n = min (length (pends (rx_stack S))) (length ?L)" by (simp add: n_def)
  obtain c S1 where S1: "pkt_bufs_enque_rx_ring E S = Some (c, S1)" "unat c = n" "rx_stack S1 = rx_stack S"
    "moved E n ?P (rx_rte S) (rx_mem S) (rx_rte S1) (rx_mem S1)"
    "st_rx (rx_stats S1) = st_rx (rx_stats S) + word_of_nat n" "st_rx_drop (rx_stats S1) = st_rx_drop (rx_stats S)"
    using batch_flush_law [OF inv n'] by blast
  have nl: "n \<le> length ?L" and np: "n \<le> length ?P" by (simp_all add: n_def)
  have small: "length ?P \<le> 32" using lp D(1) by simp
  have lt: "c < pkt_cnt (rx_stack S1) \<longleftrightarrow> n < length ?P" using S1(2,3) lp by (simp add: word_less_nat_alt)
  have m: "moved E n (waiting (rx_stack S)) (rx_rte S) (rx_mem S) (rx_rte S1) (rx_mem S1)" using S1(4) W by simp
  have cut: "take 32768 (drop n ?P) = drop n ?P" "drop 32768 (drop n ?P) = []" using small by simp_all
  have min: "min (length (waiting (rx_stack S))) (length ?L) = n" by (simp add: W n_def)
  show ?thesis
  proof (cases "n < length ?P")
    case False
    then have z: "drop n ?P = []" by simp
    let ?T = "S1\<lparr>rx_stack := (rx_stack S1)\<lparr>pkt_cnt := 0\<rparr>\<rparr>"
    have bk: "backs (rx_stack ?T) = []" using b S1(3) by simp
    have "flushed E S n ?T"
    proof (rule flushedI [OF inv])
      show "moved E n (waiting (rx_stack S)) (rx_rte S) (rx_mem S) (rx_rte ?T) (rx_mem S1)" using m by simp
    qed (use nl bk z W cut S1 D(3) in \<open>simp_all add: restrict_map_def\<close>)
    then show ?thesis using S1(1) lt False min by (intro exI [of _ c] exI [of _ S1] exI [of _ S1]) simp
  next
    case True
    let ?cnt = "pkt_cnt (rx_stack S1) - c"
    have cnt: "unat ?cnt = length ?P - n" using S1(2,3) lp np by (simp add: unat_minus_le)
    have Pn: "pkt_buf (rx_stack S) i = Some (?P ! i)" if "i < length ?P" for i
    proof -
      have "pends (rx_stack S) ! i = map Some ?P ! i" using rx_waiting(2) [OF inv] by simp
      then show ?thesis using that by (simp add: pends_def)
    qed
    have xs: "map (\<lambda>j. pkt_buf (rx_stack S1) (unat c + j)) [0..<unat ?cnt] = map Some (drop n ?P)"
      by (rule nth_equalityI) (use cnt S1(2,3) Pn in \<open>simp_all\<close>)
    have dP: "distinct ?P" using D(9) W by simp
    have "set ?P \<inter> set ?L = {}" using D(9) W by auto
    have sub: "set (drop n ?P) \<subseteq> dom (rx_mem S1)"
    proof
      fix a assume a: "a \<in> set (drop n ?P)"
      then have "a \<in> set ?P" "a \<notin> set (take n ?P)" using dP set_take_disj_set_drop_if_distinct [of ?P n n] set_drop_subset [of n ?P] by auto
      moreover have "a \<notin> set (take n ?L)" using \<open>set ?P \<inter> set ?L = {}\<close> \<open>a \<in> set ?P\<close> set_take_subset [of n ?L] by auto
      ultimately have "rx_mem S1 a = rx_mem S a" using movedD(6) [OF S1(4)] by blast
      moreover have "a \<in> dom (rx_mem S)" using D(10) W \<open>a \<in> set ?P\<close> by auto
      ultimately show "a \<in> dom (rx_mem S1)" by (auto simp: dom_def)
    qed
    have bc: "unat (backup_pkt_cnt (rx_stack S1)) = 0" using b S1(3) by (simp add: backs_def)
    have c1: "unat (backup_pkt_cnt (rx_stack S1)) \<le> 32768" and c2: "unat ?cnt \<le> 32"
      using bc cnt small by simp_all
    have k: "length (drop n ?P) = min (length (drop n ?P)) (32768 - unat (backup_pkt_cnt (rx_stack S1)))"
      using small bc by simp
    obtain T where T: "pktbufs_move_to_backup_bufs (unat c) ?cnt S1 = Some T"
      "backs (rx_stack T) = backs (rx_stack S1) @ map Some (take (length (drop n ?P)) (drop n ?P))"
      "backup_start (rx_stack T) = backup_start (rx_stack S1)" "rx_rte T = rx_rte S1"
      "rx_mem T = rx_mem S1 |` (- set (drop (length (drop n ?P)) (drop n ?P)))"
      "st_rx (rx_stats T) = st_rx (rx_stats S1)"
      "st_rx_drop (rx_stats T) = st_rx_drop (rx_stats S1) + word_of_nat (length (drop n ?P) - length (drop n ?P))"
      using move_law [OF xs distinct_drop [OF dP] sub c1 c2 k] by blast
    let ?T = "T\<lparr>rx_stack := (rx_stack T)\<lparr>pkt_cnt := 0\<rparr>\<rparr>"
    have bk: "backs (rx_stack ?T) = map Some (drop n ?P)" using b S1(3) T(2) by simp
    have "flushed E S n ?T"
    proof (rule flushedI [OF inv])
      show "moved E n (waiting (rx_stack S)) (rx_rte S) (rx_mem S) (rx_rte ?T) (rx_mem S1)" using m T(4) by simp
    qed (use nl bk W cut S1 T D(3) in \<open>simp_all add: restrict_map_def\<close>)
    then show ?thesis using S1(1) T(1) lt True min by (intro exI [of _ c] exI [of _ S1] exI [of _ T]) simp
  qed
qed

lemma moved_prefix:
  "moved E n qs r mem r' mem' \<Longrightarrow> take n qs = take n qs' \<Longrightarrow> moved E n qs' r mem r' mem'"
  by (simp add: moved_def Let_def)

lemma packets_sub: "packets m xs = packets m' xs \<Longrightarrow> set ys \<subseteq> set xs \<Longrightarrow> packets m ys = packets m' ys"
  by (auto simp: packets_def)

lemma flush_rx_ring_law:
  assumes inv: "rx_inv E S"
  shows "\<exists>T. flush_rx_ring E S = Some T \<and>
    flushed E S (min (length (waiting (rx_stack S))) (length (lent (relems E) (rx_rte S)))) T"
proof (cases "backup_pkt_cnt (rx_stack S) = 0")
  case True
  then have "backs (rx_stack S) = []" by (simp add: backs_def)
  then show ?thesis using flush_from_batch [OF inv] True by (auto simp: flush_rx_ring_def)
next
  case False
  note D = rx_invD [OF inv]
  let ?W = "waiting (rx_stack S)" and ?L = "lent (relems E) (rx_rte S)"
  let ?B = "map the (backs (rx_stack S))" and ?P = "map the (pends (rx_stack S))"
  have W: "?W = ?B @ ?P" by (simp add: waiting_def)
  have pos: "0 < backup_pkt_cnt (rx_stack S)" using False by (simp add: word_neq_0_conv)
  have lB: "length ?B = unat (backup_pkt_cnt (rx_stack S))" by (simp add: backs_def)
  define n1 where "n1 = min (length (backs (rx_stack S))) (length ?L)"
  obtain T1 where T1: "backup_bufs_enque_rx_ring E S = Some T1"
    "moved E n1 ?B (rx_rte S) (rx_mem S) (rx_rte T1) (rx_mem T1)"
    "backs (rx_stack T1) = drop n1 (backs (rx_stack S))" "pends (rx_stack T1) = pends (rx_stack S)"
    "pkt_cnt (rx_stack T1) = pkt_cnt (rx_stack S)"
    "unat (backup_pkt_cnt (rx_stack T1)) = unat (backup_pkt_cnt (rx_stack S)) - n1"
    "unat (backup_start (rx_stack T1)) < 32768"
    "st_rx (rx_stats T1) = st_rx (rx_stats S) + word_of_nat n1" "st_rx_drop (rx_stats T1) = st_rx_drop (rx_stats S)"
    using backup_flush_law [OF inv n1_def] by blast
  have nB: "n1 \<le> length ?B" and nL: "n1 \<le> length ?L" by (simp_all add: n1_def)
  have m: "moved E n1 ?W (rx_rte S) (rx_mem S) (rx_rte T1) (rx_mem T1)"
    using T1(2) by (rule moved_prefix) (use W nB in simp)
  have dW: "drop n1 ?W = drop n1 ?B @ ?P" using W nB by simp
  have somes: "backs (rx_stack T1) @ pends (rx_stack T1) = map Some (drop n1 ?W)"
    using T1(3,4) rx_waiting(1,2) [OF inv] dW by (metis drop_map map_append)
  note C = flush_close [OF inv m nL somes, of "[]"]
  have inv1: "rx_inv E T1" and W1: "waiting (rx_stack T1) = drop n1 ?W"
    and p1: "packets (rx_mem T1) (filled (relems E) (rx_rte T1)) =
      packets (rx_mem S) (filled (relems E) (rx_rte S)) @ packets (rx_mem S) (take n1 ?W)"
    and p2: "packets (rx_mem T1) (drop n1 ?W) = packets (rx_mem S) (drop n1 ?W)"
    and dm: "dom (rx_mem T1) = dom (rx_mem S) - set (take n1 ?W)"
    using C T1(5-7) D(1,2) by (simp_all add: restrict_map_def)
  show ?thesis
  proof (cases "0 < backup_pkt_cnt (rx_stack T1)")
    case True
    then have "0 < unat (backup_pkt_cnt (rx_stack T1))" by (simp add: unat_gt_0 word_neq_0_conv)
    then have n: "n1 < length ?B" using T1(6) lB by linarith
    then have n': "min (length ?W) (length ?L) = n1" using W by (simp add: n1_def)
    have xs: "map (\<lambda>j. pkt_buf (rx_stack T1) (0 + j)) [0..<unat (pkt_cnt (rx_stack T1))] = map Some ?P"
      using T1(4) rx_waiting(2) [OF inv] by (simp add: pends_def)
    note D1 = rx_invD [OF inv1]
    have dP: "distinct ?P" and sP: "set ?P \<subseteq> dom (rx_mem T1)" using D1(9,10) W1 dW by auto
    define k where "k = min (length ?P) (32768 - unat (backup_pkt_cnt (rx_stack T1)))"
    obtain T where T: "pktbufs_move_to_backup_bufs 0 (pkt_cnt (rx_stack T1)) T1 = Some T"
      "backs (rx_stack T) = backs (rx_stack T1) @ map Some (take k ?P)"
      "backup_start (rx_stack T) = backup_start (rx_stack T1)" "rx_rte T = rx_rte T1"
      "rx_mem T = rx_mem T1 |` (- set (drop k ?P))" "st_rx (rx_stats T) = st_rx (rx_stats T1)"
      "st_rx_drop (rx_stats T) = st_rx_drop (rx_stats T1) + word_of_nat (length ?P - k)"
      using move_law [OF xs dP sP D1(2,1) k_def] by blast
    have l1: "length (drop n1 ?B) = unat (backup_pkt_cnt (rx_stack T1))" using T1(6) lB by simp
    have cut: "take 32768 (drop n1 ?W) = drop n1 ?B @ take k ?P" "drop 32768 (drop n1 ?W) = drop k ?P"
      using dW l1 D1(2) by (simp_all add: k_def min_def)
    have bk: "backs (rx_stack T) = map Some (take 32768 (drop n1 ?W))"
      unfolding cut T(2) T1(3) using rx_waiting(1) [OF inv] by (metis drop_map map_append)
    let ?T = "T\<lparr>rx_stack := (rx_stack T)\<lparr>pkt_cnt := 0\<rparr>\<rparr>"
    have "flushed E S n1 ?T"
    proof (rule flushedI [OF inv])
      show "moved E n1 ?W (rx_rte S) (rx_mem S) (rx_rte ?T) (rx_mem T1)" using m T(4) by simp
      show "rx_mem ?T = rx_mem T1 |` (- set (drop 32768 (drop n1 ?W)))" unfolding cut using T(5) by simp
      show "st_rx_drop (rx_stats ?T) = st_rx_drop (rx_stats S) + word_of_nat (length (drop 32768 (drop n1 ?W)))"
        unfolding cut using T(7) T1(9) by simp
    qed (use nL bk T T1(7,8) in simp_all)
    then show ?thesis using T1(1) T(1) pos True n' by (intro exI [of _ ?T]) (simp add: flush_rx_ring_def)
  next
    case zero: False
    then have z: "unat (backup_pkt_cnt (rx_stack T1)) = 0" by (simp add: word_gt_0)
    then have n: "n1 = length ?B" using T1(6) lB nB by linarith
    have b1: "backs (rx_stack T1) = []" using z by (simp add: backs_def)
    define n2 where "n2 = min (length (waiting (rx_stack T1))) (length (lent (relems E) (rx_rte T1)))"
    obtain c V T where T: "pkt_bufs_enque_rx_ring E T1 = Some (c, V)"
      "(if c < pkt_cnt (rx_stack V) then pktbufs_move_to_backup_bufs (unat c) (pkt_cnt (rx_stack V) - c) V else Some V) = Some T"
      "flushed E T1 n2 (T\<lparr>rx_stack := (rx_stack T)\<lparr>pkt_cnt := 0\<rparr>\<rparr>)"
      using flush_from_batch [OF inv1 b1] unfolding n2_def by blast
    have l1: "lent (relems E) (rx_rte T1) = drop n1 ?L" and f1: "filled (relems E) (rx_rte T1) =
      filled (relems E) (rx_rte S) @ take n1 ?L" using movedD(4,5) [OF m] by blast+
    have lw: "length ?W = length ?B + length ?P" using W by simp
    have n12: "n1 + n2 = min (length ?W) (length ?L)"
      using n nL lw unfolding n2_def W1 l1 length_drop by linarith
    let ?T = "T\<lparr>rx_stack := (rx_stack T)\<lparr>pkt_cnt := 0\<rparr>\<rparr>"
    have ts: "take n1 ?W @ take n2 (drop n1 ?W) = take (n1 + n2) ?W" "drop n2 (drop n1 ?W) = drop (n1 + n2) ?W"
      by (simp_all add: take_add add.commute)
    have sub: "packets (rx_mem T1) (take n2 (drop n1 ?W)) = packets (rx_mem S) (take n2 (drop n1 ?W))"
      "packets (rx_mem T1) (take 32768 (drop n2 (drop n1 ?W))) = packets (rx_mem S) (take 32768 (drop n2 (drop n1 ?W)))"
      by (rule packets_sub [OF p2], meson order_trans set_take_subset set_drop_subset)+
    have "flushed E S (n1 + n2) ?T"
      unfolding flushed_def Let_def ts [symmetric]
      using T(3) [unfolded flushed_def Let_def W1 l1 f1] p1 [unfolded f1 packets_append] sub dm T1(8,9)
      by (auto simp: packets_append take_add add.commute add.left_commute)
    then show ?thesis using T1(1) T(1,2) pos zero n12 by (intro exI [of _ ?T]) (simp add: flush_rx_ring_def)
  qed
qed

section \<open>A stack over time\<close>

definition out :: "fwd_env \<Rightarrow> rx_state \<Rightarrow> mbuf list" where
  "out E S = packets (rx_mem S) (filled (relems E) (rx_rte S))"

definition queued :: "rx_state \<Rightarrow> mbuf list" where
  "queued S = packets (rx_mem S) (waiting (rx_stack S))"

lemma pends_add:
  assumes "unat (pkt_cnt s) < 32"
  shows "pends (s\<lparr>pkt_buf := (pkt_buf s)(unat (pkt_cnt s) := Some a), pkt_cnt := pkt_cnt s + 1\<rparr>) = pends s @ [Some a]"
proof -
  have "unat (pkt_cnt s + 1) = Suc (unat (pkt_cnt s))" using assms by (simp add: unat_plus_small)
  then show ?thesis by (simp add: pends_def)
qed

text \<open>A buffer that nobody knows yet, in the batch array.\<close>

lemma batch_law:
  assumes inv: "rx_inv E S" and c: "unat (pkt_cnt (rx_stack S)) < 32" and a: "rx_mem S a = None"
    and len: "mb_data_len m \<le> buf_size E"
    and T: "T = S\<lparr>rx_mem := (rx_mem S)(a \<mapsto> m), rx_stack := (rx_stack S)\<lparr>
      pkt_buf := (pkt_buf (rx_stack S))(unat (pkt_cnt (rx_stack S)) := Some a), pkt_cnt := pkt_cnt (rx_stack S) + 1\<rparr>\<rparr>"
  shows "rx_inv E T" and "waiting (rx_stack T) = waiting (rx_stack S) @ [a]"
    and "out E T = out E S" and "queued T = queued S @ [packet m]"
proof -
  note D = rx_invD [OF inv]
  let ?W = "waiting (rx_stack S)" and ?F = "filled (relems E) (rx_rte S)" and ?L = "lent (relems E) (rx_rte S)"
  have p: "pends (rx_stack T) = pends (rx_stack S) @ [Some a]" using pends_add [OF c] T by simp
  have b: "backs (rx_stack T) = backs (rx_stack S)" using T by (simp add: backs_def backup_at_def)
  show w: "waiting (rx_stack T) = ?W @ [a]" by (simp add: waiting_def p b)
  have new: "a \<notin> set (?W @ ?F @ ?L)" using D(10) a by auto
  have same: "rx_mem T x = rx_mem S x" if "x \<in> set (?W @ ?F @ ?L)" for x using new that T by auto
  have cnt: "unat (pkt_cnt (rx_stack T)) = Suc (unat (pkt_cnt (rx_stack S)))" using c T by (simp add: unat_plus_small)
  have len': "mb_data_len (the (rx_mem T x)) \<le> buf_size E" if "x \<in> set (?W @ [a])" for x
    using that D(11) [of x] same [of x] len T by auto
  have "None \<notin> set (backs (rx_stack T) @ pends (rx_stack T))" using D(4,5) p b by simp
  moreover have "distinct ((?W @ [a]) @ ?F @ ?L)" using D(9) new by auto
  moreover have "set ((?W @ [a]) @ ?F @ ?L) \<subseteq> dom (rx_mem T)" using D(10) T by auto
  ultimately show "rx_inv E T"
    unfolding rx_inv_def Let_def w using D(2,3,6-8) cnt c len' T by simp
  show "out E T = out E S" unfolding out_def using T same by (auto simp: packets_def)
  have "packets (rx_mem T) ?W = packets (rx_mem S) ?W" using same by (intro packets_cong) simp
  then show "queued T = queued S @ [packet m]" unfolding queued_def w using T by (simp add: packets_append) (simp add: packets_def)
qed

lemma packets_cut [simp]:
  "take n (packets m xs) = packets m (take n xs)" "drop n (packets m xs) = packets m (drop n xs)"
  "length (packets m xs) = length xs"
  by (simp_all add: packets_def take_map drop_map)

lemma flushed_view:
  assumes "flushed E S n T"
  shows "rx_inv E T" and "unat (pkt_cnt (rx_stack T)) < 32" and "out E T = out E S @ take n (queued S)"
    and "queued T = take 32768 (drop n (queued S))"
    and "st_rx_drop (rx_stats T) = st_rx_drop (rx_stats S) + word_of_nat (length (drop 32768 (drop n (queued S))))"
proof -
  have f: "rx_inv E T" "pkt_cnt (rx_stack T) = 0"
    "packets (rx_mem T) (filled (relems E) (rx_rte T)) =
        packets (rx_mem S) (filled (relems E) (rx_rte S)) @ packets (rx_mem S) (take n (waiting (rx_stack S)))"
    "waiting (rx_stack T) = take 32768 (drop n (waiting (rx_stack S)))"
    "packets (rx_mem T) (take 32768 (drop n (waiting (rx_stack S)))) = packets (rx_mem S) (take 32768 (drop n (waiting (rx_stack S))))"
    "st_rx_drop (rx_stats T) = st_rx_drop (rx_stats S) + word_of_nat (length (drop 32768 (drop n (waiting (rx_stack S)))))"
    using assms unfolding flushed_def Let_def by blast+
  show "rx_inv E T" "unat (pkt_cnt (rx_stack T)) < 32" "out E T = out E S @ take n (queued S)"
    "queued T = take 32768 (drop n (queued S))"
    "st_rx_drop (rx_stats T) = st_rx_drop (rx_stats S) + word_of_nat (length (drop 32768 (drop n (queued S))))"
    using f by (simp_all add: out_def queued_def del: drop_drop)
qed

text \<open>Packets move from the queue to the ring or are dropped at the queue's end, and counted.\<close>

definition conserved :: "fwd_env \<Rightarrow> rx_state \<Rightarrow> mbuf list \<Rightarrow> rx_state \<Rightarrow> bool" where
  "conserved E S ps T \<longleftrightarrow> rx_inv E T \<and> unat (pkt_cnt (rx_stack T)) < 32 \<and>
     (\<exists>ds. out E T @ queued T @ ds = out E S @ queued S @ ps \<and>
        st_rx_drop (rx_stats T) = st_rx_drop (rx_stats S) + word_of_nat (length ds))"

lemma flushed_conserved: "flushed E S n T \<Longrightarrow> conserved E S [] T"
proof -
  assume f: "flushed E S n T"
  have "take n q @ take 32768 (drop n q) @ drop 32768 (drop n q) = q" for q :: "mbuf list"
    by (metis append_take_drop_id)
  then have "out E T @ queued T @ drop 32768 (drop n (queued S)) = out E S @ queued S @ []"
    unfolding flushed_view(3,4) [OF f] by (simp del: packets_cut drop_drop)
  then show ?thesis using flushed_view [OF f] unfolding conserved_def by blast
qed

lemma enqueue_conserved:
  assumes inv: "rx_inv E S" and c: "unat (pkt_cnt (rx_stack S)) < 32" and a: "rx_mem S a = None"
    and len: "mb_data_len m \<le> buf_size E"
  shows "\<exists>T. enqueue_rx_packet E a (S\<lparr>rx_mem := (rx_mem S)(a \<mapsto> m)\<rparr>) = Some T \<and> conserved E S [packet m] T"
proof -
  let ?S = "S\<lparr>rx_mem := (rx_mem S)(a \<mapsto> m), rx_stack := (rx_stack S)\<lparr>
      pkt_buf := (pkt_buf (rx_stack S))(unat (pkt_cnt (rx_stack S)) := Some a), pkt_cnt := pkt_cnt (rx_stack S) + 1\<rparr>\<rparr>"
  note B = batch_law [OF inv c a len refl]
  have run: "enqueue_rx_packet E a (S\<lparr>rx_mem := (rx_mem S)(a \<mapsto> m)\<rparr>) =
     (if pkt_cnt (rx_stack S) + 1 \<ge> gazelle_packet_read_size then flush_rx_ring E ?S else Some ?S)"
    by (simp add: enqueue_rx_packet_def Let_def)
  show ?thesis
  proof (cases "pkt_cnt (rx_stack S) + 1 \<ge> gazelle_packet_read_size")
    case True
    obtain n T where T: "flush_rx_ring E ?S = Some T" "flushed E ?S n T" using flush_rx_ring_law [OF B(1)] by blast
    have "conserved E S [packet m] T"
      using flushed_conserved [OF T(2)] B(3,4) by (simp add: conserved_def)
    then show ?thesis using run True T(1) by auto
  next
    case False
    then have "unat (pkt_cnt (rx_stack S) + 1) < 32" by (simp add: gazelle_packet_read_size_def word_le_nat_alt)
    then have "conserved E S [packet m] ?S"
      unfolding conserved_def using B by (intro conjI exI [of _ "[]"]) simp_all
    then show ?thesis using run False by simp
  qed
qed

text \<open>
  A packet put behind those that wait: below a whole batch it just waits; the thirty-second
  one makes the stack flush, and only what then exceeds the backup array's 32768 places is dropped.
\<close>

definition enqueued :: "fwd_env \<Rightarrow> rx_state \<Rightarrow> mbuf \<Rightarrow> rx_state \<Rightarrow> bool" where
  "enqueued E S p T \<longleftrightarrow> rx_inv E T \<and>
     (let Q = queued S @ [p]; n = min (length Q) (length (lent (relems E) (rx_rte S))) in
      if unat (pkt_cnt (rx_stack S)) < 31
      then pkt_cnt (rx_stack T) = pkt_cnt (rx_stack S) + 1 \<and> out E T = out E S \<and> queued T = Q \<and> rx_stats T = rx_stats S
      else pkt_cnt (rx_stack T) = 0 \<and> out E T = out E S @ take n Q \<and> queued T = take 32768 (drop n Q) \<and>
        st_rx (rx_stats T) = st_rx (rx_stats S) + word_of_nat n \<and>
        st_rx_drop (rx_stats T) = st_rx_drop (rx_stats S) + word_of_nat (length (drop 32768 (drop n Q))))"

lemma enqueue_law:
  assumes inv: "rx_inv E S" and c: "unat (pkt_cnt (rx_stack S)) < 32" and a: "rx_mem S a = None"
    and len: "mb_data_len m \<le> buf_size E"
  shows "\<exists>T. enqueue_rx_packet E a (S\<lparr>rx_mem := (rx_mem S)(a \<mapsto> m)\<rparr>) = Some T \<and> enqueued E S (packet m) T"
proof -
  let ?S = "S\<lparr>rx_mem := (rx_mem S)(a \<mapsto> m), rx_stack := (rx_stack S)\<lparr>
      pkt_buf := (pkt_buf (rx_stack S))(unat (pkt_cnt (rx_stack S)) := Some a), pkt_cnt := pkt_cnt (rx_stack S) + 1\<rparr>\<rparr>"
  note B = batch_law [OF inv c a len refl]
  have run: "enqueue_rx_packet E a (S\<lparr>rx_mem := (rx_mem S)(a \<mapsto> m)\<rparr>) =
     (if pkt_cnt (rx_stack S) + 1 \<ge> gazelle_packet_read_size then flush_rx_ring E ?S else Some ?S)"
    by (simp add: enqueue_rx_packet_def Let_def)
  have cnt: "unat (pkt_cnt (rx_stack S) + 1) = unat (pkt_cnt (rx_stack S)) + 1" using c by (simp add: unat_plus_small)
  show ?thesis
  proof (cases "unat (pkt_cnt (rx_stack S)) < 31")
    case False
    then have full: "pkt_cnt (rx_stack S) + 1 \<ge> gazelle_packet_read_size"
      using cnt by (simp add: gazelle_packet_read_size_def word_le_nat_alt)
    define n where "n = min (length (waiting (rx_stack ?S))) (length (lent (relems E) (rx_rte ?S)))"
    obtain T where T: "flush_rx_ring E ?S = Some T" "flushed E ?S n T" using flush_rx_ring_law [OF B(1)] unfolding n_def by blast
    have n: "n = min (length (queued S @ [packet m])) (length (lent (relems E) (rx_rte S)))"
      unfolding n_def B(2) by (simp add: queued_def)
    have "pkt_cnt (rx_stack T) = 0" "st_rx (rx_stats T) = st_rx (rx_stats S) + word_of_nat n"
      using T(2) unfolding flushed_def Let_def by simp_all
    then have "enqueued E S (packet m) T"
      using False flushed_view [OF T(2)] unfolding enqueued_def Let_def B(3,4) n [symmetric] by simp
    then show ?thesis using run full T(1) by auto
  next
    case True
    then have "\<not> pkt_cnt (rx_stack S) + 1 \<ge> gazelle_packet_read_size"
      using cnt by (simp add: gazelle_packet_read_size_def word_le_nat_alt)
    moreover have "enqueued E S (packet m) ?S" unfolding enqueued_def Let_def using B True by simp
    ultimately show ?thesis using run by simp
  qed
qed

section \<open>Runs\<close>

text \<open>
  What happens to one stack: packets arrive, ltran flushes, the stack lends a fresh buffer or
  takes filled ones. The run keeps the packets that arrived and those the stack has taken.
\<close>

inductive rx_run :: "fwd_env \<Rightarrow> rx_state \<Rightarrow> mbuf list \<Rightarrow> mbuf list \<Rightarrow> rx_state \<Rightarrow> bool" for E S0 where
  rx_start: "rx_run E S0 [] [] S0"
| rx_arrive: "rx_run E S0 ins outs S \<Longrightarrow> rx_mem S a = None \<Longrightarrow> mb_data_len m \<le> buf_size E \<Longrightarrow>
    enqueue_rx_packet E a (S\<lparr>rx_mem := (rx_mem S)(a \<mapsto> m)\<rparr>) = Some T \<Longrightarrow> rx_run E S0 (ins @ [packet m]) outs T"
| rx_flush: "rx_run E S0 ins outs S \<Longrightarrow> flush_rx_ring E S = Some T \<Longrightarrow> rx_run E S0 ins outs T"
| rx_lend: "rx_run E S0 ins outs S \<Longrightarrow> rx_mem S a = None \<Longrightarrow>
    gazelle_ring_sp_enqueue (relems E) (rx_rte S) [a] 1 = (k, r) \<Longrightarrow>
    rx_run E S0 ins outs (S\<lparr>rx_mem := (rx_mem S)(a \<mapsto> m), rx_rte := r\<rparr>)"
| rx_take: "rx_run E S0 ins outs S \<Longrightarrow> gazelle_ring_sc_dequeue (relems E) (rx_rte S) n = (k, as, r) \<Longrightarrow>
    rx_run E S0 ins (outs @ packets (rx_mem S) as) (S\<lparr>rx_rte := r\<rparr>)"

lemma lend_conserved:
  assumes inv: "rx_inv E S" and c: "unat (pkt_cnt (rx_stack S)) < 32" and a: "rx_mem S a = None"
    and r: "gazelle_ring_sp_enqueue (relems E) (rx_rte S) [a] 1 = (k, r)"
  shows "conserved E S [] (S\<lparr>rx_mem := (rx_mem S)(a \<mapsto> m), rx_rte := r\<rparr>)"
proof -
  note D = rx_invD [OF inv]
  let ?R = "relems E" and ?W = "waiting (rx_stack S)" and ?T = "S\<lparr>rx_mem := (rx_mem S)(a \<mapsto> m), rx_rte := r\<rparr>"
  have new: "a \<notin> set (?W @ filled ?R (rx_rte S) @ lent ?R (rx_rte S))" using D(10) a by auto
  have ring: "ring_inv ?R r \<and> filled ?R r = filled ?R (rx_rte S) \<and> in_read ?R r = [] \<and> capacity r = capacity (rx_rte S) \<and>
    (lent ?R r = lent ?R (rx_rte S) \<or> lent ?R r = lent ?R (rx_rte S) @ [a])"
  proof (cases "1 \<le> unat (capacity (rx_rte S)) - length (ring_contents ?R (rx_rte S))")
    case True
    then show ?thesis using enqueue_stores [OF D(6), of 1 "[a]" k r] r D(7) by simp
  next
    case False
    then have "gazelle_ring_sp_enqueue ?R (rx_rte S) [a] 1 = (0, rx_rte S)" by (intro enqueue_rejects [OF D(6)]) simp
    then show ?thesis using r D(6,7) by simp
  qed
  have same: "rx_mem ?T x = rx_mem S x" if "x \<in> set (?W @ filled ?R (rx_rte S) @ lent ?R (rx_rte S))" for x using new that by auto
  have len: "mb_data_len (the (rx_mem ?T x)) \<le> buf_size E" if "x \<in> set ?W" for x
    using that D(11) [of x] same [of x] by auto
  have "distinct (?W @ filled ?R r @ lent ?R r)" using ring D(9) new by auto
  moreover have "set (?W @ filled ?R r @ lent ?R r) \<subseteq> dom (rx_mem ?T)" using ring D(10) by auto
  moreover have "None \<notin> set (backs (rx_stack S) @ pends (rx_stack S))" using D(4,5) by simp
  ultimately have "rx_inv E ?T" unfolding rx_inv_def Let_def using D(1-3,8) ring len by simp
  moreover have "out E ?T = out E S" "queued ?T = queued S"
    unfolding out_def queued_def using ring same by (auto simp: packets_def)
  ultimately show ?thesis unfolding conserved_def using c by (intro conjI exI [of _ "[]"]) simp_all
qed

lemma take_conserved:
  assumes inv: "rx_inv E S" and r: "gazelle_ring_sc_dequeue (relems E) (rx_rte S) n = (k, as, r)"
  shows "rx_inv E (S\<lparr>rx_rte := r\<rparr>)" and "out E S = packets (rx_mem S) as @ out E (S\<lparr>rx_rte := r\<rparr>)"
    and "queued (S\<lparr>rx_rte := r\<rparr>) = queued S"
proof -
  note D = rx_invD [OF inv] and L = ring_law_dequeue [OF rx_invD(6) [OF inv] r]
  let ?F = "filled (relems E) (rx_rte S)"
  have s: "set (drop (unat n) ?F) \<subseteq> set ?F" by (rule set_drop_subset)
  have "None \<notin> set (backs (rx_stack S) @ pends (rx_stack S))" using D(4,5) by simp
  then show "rx_inv E (S\<lparr>rx_rte := r\<rparr>)"
    unfolding rx_inv_def Let_def using D s L by (auto simp: disjoint_iff)
  have "?F = as @ filled (relems E) r" using L(1,4) by simp
  then show "out E S = packets (rx_mem S) as @ out E (S\<lparr>rx_rte := r\<rparr>)" by (simp add: out_def packets_append)
  show "queued (S\<lparr>rx_rte := r\<rparr>) = queued S" by (simp add: queued_def)
qed

lemma conserved_run:
  assumes C: "conserved E S ps T"
    and R: "subseq (outs @ out E S @ queued S) (out E S0 @ queued S0 @ ins) \<and>
      st_rx_drop (rx_stats S) = st_rx_drop (rx_stats S0) +
        word_of_nat (length (out E S0 @ queued S0 @ ins) - length (outs @ out E S @ queued S))"
  shows "rx_inv E T \<and> unat (pkt_cnt (rx_stack T)) < 32 \<and>
    subseq (outs @ out E T @ queued T) (out E S0 @ queued S0 @ ins @ ps) \<and>
    st_rx_drop (rx_stats T) = st_rx_drop (rx_stats S0) +
      word_of_nat (length (out E S0 @ queued S0 @ ins @ ps) - length (outs @ out E T @ queued T))"
proof -
  obtain ds where d: "out E T @ queued T @ ds = out E S @ queued S @ ps"
    "st_rx_drop (rx_stats T) = st_rx_drop (rx_stats S) + word_of_nat (length ds)"
    using C by (auto simp: conserved_def)
  let ?a = "outs @ out E S @ queued S" and ?b = "out E S0 @ queued S0 @ ins" and ?c = "outs @ out E T @ queued T"
  have eq: "?c @ ds = ?a @ ps" using d(1) by simp
  have sub: "subseq (?a @ ps) (?b @ ps)" using R by (intro list_emb_append_mono [of _ ?a ?b ps ps]) (blast | rule subseq_order.order_refl)+
  have "subseq ?c (?c @ ds)" by (rule subseq_rev_drop_many) (rule subseq_order.order_refl)
  then have s: "subseq ?c (?b @ ps)" using sub unfolding eq by (rule subseq_order.order_trans)
  have la: "length ?a \<le> length ?b" using R by (intro list_emb_length) blast
  have "length (?b @ ps) - length ?c = (length ?b - length ?a) + length ds"
    using arg_cong [OF eq, of length] la by simp
  then have "st_rx_drop (rx_stats T) = st_rx_drop (rx_stats S0) + word_of_nat (length (?b @ ps) - length ?c)"
    using d(2) R by (simp add: add.assoc)
  then show ?thesis using C s by (simp add: conserved_def)
qed

lemma rx_run_law:
  assumes "rx_run E S0 ins outs S" and "rx_inv E S0" and "unat (pkt_cnt (rx_stack S0)) < 32"
  shows "rx_inv E S \<and> unat (pkt_cnt (rx_stack S)) < 32 \<and>
    subseq (outs @ out E S @ queued S) (out E S0 @ queued S0 @ ins) \<and>
    st_rx_drop (rx_stats S) = st_rx_drop (rx_stats S0) +
      word_of_nat (length (out E S0 @ queued S0 @ ins) - length (outs @ out E S @ queued S))"
  using assms
proof (induction rule: rx_run.induct)
  case rx_start
  then show ?case by simp
next
  case (rx_arrive ins outs S a m T)
  have IH: "rx_inv E S" "unat (pkt_cnt (rx_stack S)) < 32" using rx_arrive by blast+
  have "conserved E S [packet m] T" using enqueue_conserved [OF IH rx_arrive(2,3)] rx_arrive(4) by auto
  then show ?case using conserved_run rx_arrive by blast
next
  case (rx_flush ins outs S T)
  have "rx_inv E S" using rx_flush by blast
  then have "conserved E S [] T" using flush_rx_ring_law [of E S] flushed_conserved rx_flush(2) by force
  then show ?case using conserved_run [where ps = "[]" and ins = ins and outs = outs and ?S0.0 = S0] rx_flush by simp
next
  case (rx_lend ins outs S a k r m)
  have IH: "rx_inv E S" "unat (pkt_cnt (rx_stack S)) < 32" using rx_lend by blast+
  show ?case using conserved_run [OF lend_conserved [OF IH rx_lend(2,3), of m], where ins = ins and outs = outs and ?S0.0 = S0] rx_lend by simp
next
  case (rx_take ins outs S n k as r)
  have IH: "rx_inv E S" using rx_take by blast
  note C = take_conserved [OF IH rx_take(2)]
  show ?case using rx_take C by simp
qed

section \<open>Properties\<close>

text \<open>C28: a flush hands over as many waiting packets as the stack's ring has free buffers, backup
  first, each copied whole into its buffer and its own buffer freed; the rest waits in the backup
  array in the same order, and what exceeds the array's 32768 places is freed and counted.\<close>

theorem flush_rx_ring_delivers:
  assumes "rx_inv E S"
  shows "\<exists>T. flush_rx_ring E S = Some T \<and> rx_inv E T \<and>
    (let W = waiting (rx_stack S); L = lent (relems E) (rx_rte S); n = min (length W) (length L) in
     filled (relems E) (rx_rte T) = filled (relems E) (rx_rte S) @ take n L \<and>
     lent (relems E) (rx_rte T) = drop n L \<and>
     out E T = out E S @ take n (queued S) \<and>
     waiting (rx_stack T) = take 32768 (drop n W) \<and> queued T = take 32768 (drop n (queued S)) \<and>
     pkt_cnt (rx_stack T) = 0 \<and>
     dom (rx_mem T) = dom (rx_mem S) - set (take n W) - set (drop 32768 (drop n W)) \<and>
     st_rx (rx_stats T) = st_rx (rx_stats S) + word_of_nat n \<and>
     st_rx_drop (rx_stats T) = st_rx_drop (rx_stats S) + word_of_nat (length (drop 32768 (drop n W))))"
proof -
  let ?n = "min (length (waiting (rx_stack S))) (length (lent (relems E) (rx_rte S)))"
  obtain T where T: "flush_rx_ring E S = Some T" "flushed E S ?n T" using flush_rx_ring_law [OF assms] by blast
  show ?thesis
    using T(1) flushed_view(1,3,4) [OF T(2)] T(2) [unfolded flushed_def Let_def] unfolding Let_def by blast
qed

text \<open>C4: whatever the order of arrivals, flushes and the stack's own use of its ring, the packets
  the stack has taken, those in its ring and those waiting are, in this order, packets that
  arrived in this order; each arrival that is missing is counted in \<open>rx_drop\<close>.\<close>

theorem rx_stack_order:
  assumes "rx_run E S0 ins outs S" and "rx_inv E S0" and "unat (pkt_cnt (rx_stack S0)) < 32"
  shows "subseq (outs @ out E S @ queued S) (out E S0 @ queued S0 @ ins) \<and>
    st_rx_drop (rx_stats S) = st_rx_drop (rx_stats S0) +
      word_of_nat (length (out E S0 @ queued S0 @ ins) - length (outs @ out E S @ queued S))"
  using rx_run_law [OF assms] by blast

section \<open>A stack to evaluate on\<close>

definition demo_env :: fwd_env where
  "demo_env = \<lparr>buf_size = 2176, relems = plain_elems, latency_flag = False, start_stamp = 0, now = 0\<rparr>"

definition demo_mbuf :: mbuf where
  "demo_mbuf = \<lparr>mb_flags = 0, mb_tx_offload = 0, mb_packet_type = 0, mb_pkt_len = 3, mb_data_len = 3, mb_vlan_tci = 0,
     mb_rss = 0, mb_data = (\<lambda>i. if i < 3 then 7 else 0), mb_pbuf = [], mb_stamp = 0, mb_check = 0\<rparr>"

definition demo_rx :: rx_state where
  "demo_rx = \<lparr>rx_stack = new_stack 100, rx_rte = empty_ring 0 0,
     rx_stats = \<lparr>st_rx = 0, st_rx_drop = 0, st_rx_bytes = 0, st_tx = 0, st_tx_drop = 0, st_tx_bytes = 0,
       latency_total = 0, latency_pkts = 0, latency_max = 0, latency_min = 0\<rparr>, rx_mem = Map.empty\<rparr>"

lemma demo_rx_empty:
  "waiting (rx_stack demo_rx) = []" "filled plain_elems (rx_rte demo_rx) = []" "lent plain_elems (rx_rte demo_rx) = []"
  "in_read plain_elems (rx_rte demo_rx) = []"
  using empty_ring_ok(3) [of 0 "0 :: addr"]
  by (simp_all add: demo_rx_def new_stack_def waiting_def backs_def pends_def ring_contents_def)

lemma demo_rx_inv: "rx_inv demo_env demo_rx" "unat (pkt_cnt (rx_stack demo_rx)) < 32"
  using demo_rx_empty empty_ring_ok(1) [of 0 "0 :: addr"]
  by (simp_all add: rx_inv_def Let_def demo_env_def)
    (simp_all add: demo_rx_def new_stack_def waiting_def backs_def pends_def empty_ring_def)

text \<open>One buffer lent and one packet waiting.\<close>

lemma demo_waiting:
  "\<exists>S. rx_inv demo_env S \<and> length (waiting (rx_stack S)) = 1 \<and> length (lent plain_elems (rx_rte S)) = 1 \<and>
     out demo_env S = [] \<and> queued S = [packet demo_mbuf]"
proof -
  have R: "relems demo_env = plain_elems" by (simp add: demo_env_def)
  obtain k r where r: "gazelle_ring_sp_enqueue plain_elems (rx_rte demo_rx) [5 :: addr] 1 = (k, r)" by (rule prod.exhaust)
  let ?S = "demo_rx\<lparr>rx_mem := (rx_mem demo_rx)(5 \<mapsto> demo_mbuf), rx_rte := r\<rparr>"
  have e: "rx_mem demo_rx 5 = None" by (simp add: demo_rx_def)
  have C: "conserved demo_env demo_rx [] ?S"
    using lend_conserved [OF demo_rx_inv e, of k r demo_mbuf] r R by simp
  have i: "ring_inv plain_elems (rx_rte demo_rx)" using rx_invD(6) [OF demo_rx_inv(1)] R by simp
  have "unat (capacity (rx_rte demo_rx)) = 4" "ring_contents plain_elems (rx_rte demo_rx) = []"
    using empty_ring_ok(3) [of 0 "0 :: addr"] by (simp_all add: demo_rx_def) (simp add: empty_ring_def)
  then have l: "lent plain_elems r = [5]" using enqueue_stores(5) [OF i _ _ r] demo_rx_empty(3) by simp
  have I: "rx_inv demo_env ?S" "unat (pkt_cnt (rx_stack ?S)) < 32" using C by (simp_all add: conserved_def)
  have n: "rx_mem ?S 9 = None" "mb_data_len demo_mbuf \<le> buf_size demo_env"
    by (simp_all add: demo_rx_def demo_mbuf_def demo_env_def)
  obtain T where T: "T = ?S\<lparr>rx_mem := (rx_mem ?S)(9 \<mapsto> demo_mbuf), rx_stack := (rx_stack ?S)\<lparr>
      pkt_buf := (pkt_buf (rx_stack ?S))(unat (pkt_cnt (rx_stack ?S)) := Some 9), pkt_cnt := pkt_cnt (rx_stack ?S) + 1\<rparr>\<rparr>" by blast
  note B = batch_law [OF I n T]
  have "rx_rte T = r" using T by simp
  moreover have "out demo_env ?S = []" "queued ?S = []"
    using C demo_rx_empty R by (auto simp: conserved_def out_def queued_def packets_def)
  moreover have "waiting (rx_stack ?S) = []" using demo_rx_empty(1) by simp
  ultimately show ?thesis using B l by (intro exI [of _ T]) simp
qed

lemma flush_rx_ring_delivers_witness:
  "\<exists>S T. flush_rx_ring demo_env S = Some T \<and> queued S = [packet demo_mbuf] \<and> out demo_env T = [packet demo_mbuf] \<and> queued T = []"
proof -
  obtain S where S: "rx_inv demo_env S" "length (waiting (rx_stack S)) = 1" "length (lent plain_elems (rx_rte S)) = 1"
    "out demo_env S = []" "queued S = [packet demo_mbuf]" using demo_waiting by blast
  have "relems demo_env = plain_elems" by (simp add: demo_env_def)
  then show ?thesis using flush_rx_ring_delivers [OF S(1)] S(2-5) by (auto simp: Let_def)
qed

lemma rx_stack_order_witness:
  "\<exists>S. rx_run demo_env demo_rx [packet demo_mbuf] [] S \<and> subseq (out demo_env S @ queued S) [packet demo_mbuf]"
proof -
  have e: "rx_mem demo_rx 9 = None" "mb_data_len demo_mbuf \<le> buf_size demo_env"
    by (simp_all add: demo_rx_def demo_mbuf_def demo_env_def)
  obtain T where "enqueue_rx_packet demo_env 9 (demo_rx\<lparr>rx_mem := (rx_mem demo_rx)(9 \<mapsto> demo_mbuf)\<rparr>) = Some T"
    using enqueue_conserved [OF demo_rx_inv e] by blast
  from rx_arrive [OF rx_start e this] have r: "rx_run demo_env demo_rx [packet demo_mbuf] [] T" by simp
  have "relems demo_env = plain_elems" by (simp add: demo_env_def)
  then have "out demo_env demo_rx @ queued demo_rx = []"
    using demo_rx_empty by (simp add: out_def queued_def packets_def)
  with rx_stack_order [OF r demo_rx_inv] r show ?thesis by auto
qed

end
