(* ===== verification/Ltran_Flow.thy ===== *)
theory Ltran_Flow
  imports Ltran_Tcp
begin

text \<open>
  What the flow tables of ltran promise: one stack per TCP flow, the least loaded listener for
  a new one, aging and logout that remove what they should, and where the code breaks these
  promises. The demo tables are small concrete tables the witnesses evaluate on.
\<close>

section \<open>Helpers for the properties\<close>

lemma tcp_handle_all_bound:
  assumes "tcp_inv E ticks T" and "env_ok E" and "conn_find (jh E) ticks (ct T) q = Some (a, c)"
    and "conn_stack c = Some k" and "tcp_handle_all E ticks T qs = Some (rs, t)"
  shows "\<forall>i < length qs. qs ! i = q \<longrightarrow> rs ! i = Some k"
  using assms(1,3,5)
proof (induction qs arbitrary: T rs)
  case (Cons p qs)
  obtain r u where u: "tcp_handle E ticks T p = Some (r, u)" "tcp_inv E ticks u"
    and keep: "conn_find (jh E) ticks (ct u) q = Some (a, c)"
    using tcp_handle_step [OF Cons.prems(1) assms(2), of p] Cons.prems(2) by blast
  obtain rs' where rs: "tcp_handle_all E ticks u qs = Some (rs', t)" "rs = r # rs'"
    using Cons.prems(3) u(1) by (auto split: bind_splits)
  have "p = q \<Longrightarrow> r = Some k"
    using tcp_handle_bound [OF Cons.prems(1,2)] u(1) assms(4) by auto
  then show ?case using Cons.IH [OF u(2) keep rs(1)] rs(2) by (auto simp: nth_Cons split: nat.splits)
qed simp


section \<open>Tables to evaluate on\<close>

text \<open>A hash that maps everything to bucket 0, one tick counter at 3, one listener on port 80.\<close>

definition demo_raw :: tcp_conn where
  "demo_raw = \<lparr>conn_tid = 0, conn_sock = None, conn_stack = None,
     conn_key = \<lparr>protocol = 0, src_ip = 0, src_port = 0, dst_ip = 0, dst_port = 0\<rparr>,
     conn_cur_tick = InitTick, conn_reg_tick = 0, conn_timeout = 0\<rparr>"

definition demo_ltran :: ltran_env where
  "demo_ltran = \<lparr>jh = (\<lambda>_ _ _ _. 0), eos = no_cursor,
     new_conn = (\<lambda>t. if heap t 7 = None then Some (7, demo_raw) else None),
     new_sock = (\<lambda>t. if heap t 2 = None then Some 2 else None)\<rparr>"

definition demo_ticks :: "nat \<Rightarrow> i32" where "demo_ticks = (\<lambda>_. 3)"

definition demo_sock :: tcp_sock where
  "demo_sock = \<lparr>sock_ip = 10, sock_tid = 100, sock_port = 80, sock_cur_tick = MgrTick 0, sock_reg_tick = 3,
     sock_stack = Some 50, tcp_con_num = 0\<rparr>"

definition demo_tables :: tcp_tables where
  "demo_tables = \<lparr>ct = htable_empty 4, st = hadd 0 1 demo_sock (htable_empty 4), mlock = False\<rparr>"

definition demo_q :: quintuple where
  "demo_q = \<lparr>protocol = 0, src_ip = 20, src_port = 4000, dst_ip = 10, dst_port = 80\<rparr>"

lemma demo_env_ok: "env_ok demo_ltran"
  by (auto simp: env_ok_def demo_ltran_def split: if_splits)

lemma demo_buckets:
  "gazelle_conn_hbucket_get (jh demo_ltran) q = 0" "gazelle_hbucket_get_by_ipport (jh demo_ltran) ip port = 0"
  by (simp_all add: gazelle_conn_hbucket_get_def gazelle_hbucket_get_by_ipport_def tuple_hash_fn_def
      ip_port_hash_fn_def demo_ltran_def)

lemma conn_inv_empty: "conn_inv J ticks (htable_empty m)"
  using bucket_bounds(1) htable_inv_empty
  by (auto simp: conn_inv_def table_inv_def live_first_def) (simp add: htable_empty_def)

lemma conn_find_empty: "conn_find J ticks (htable_empty m) q = None"
  by (simp add: conn_find_def hfind_def htable_empty_def)

lemma demo_tables_inv: "tcp_inv demo_ltran demo_ticks demo_tables"
proof -
  have "htable_inv sock_htable_size (sock_bucket (jh demo_ltran)) (hadd 0 1 demo_sock (htable_empty 4))"
  proof (rule hadd_inv [OF htable_inv_empty])
    show "0 = sock_bucket (jh demo_ltran) demo_sock" by (simp add: sock_bucket_def demo_buckets)
  qed (simp_all add: sock_htable_size_def htable_empty_def)
  moreover have "sock_stack s \<noteq> None" if "heap (hadd 0 1 demo_sock (htable_empty 4)) a = Some s" for a s
    using that by (auto simp: hadd_def htable_empty_def demo_sock_def split: if_splits)
  ultimately show ?thesis
    unfolding tcp_inv_def demo_tables_def using conn_inv_empty
    by (simp add: htable_empty_def)
qed

lemma demo_min: "gazelle_sock_get_by_min_conn (jh demo_ltran) demo_ticks (st demo_tables) 10 80 = Some (Some 1)"
  by (simp add: gazelle_sock_get_by_min_conn_def demo_buckets demo_tables_def hadd_def htable_empty_def
      sock_on_def instance_is_on_def tick_at_def demo_sock_def demo_ticks_def gazelle_stack_max_tcp_con_num_def)

lemma demo_accept:
  "\<exists>t c. tcp_handle demo_ltran demo_ticks demo_tables demo_q = Some (Some 50, t) \<and> tcp_inv demo_ltran demo_ticks t \<and>
     conn_find (jh demo_ltran) demo_ticks (ct t) demo_q = Some (7, c) \<and> conn_sock c = Some 1 \<and> conn_stack c = Some 50 \<and>
     conn_timeout c = gazelle_conn_timeout \<and> mlock t = False \<and> heap (ct t) = [7 \<mapsto> c] \<and>
     st t = hset 1 (demo_sock\<lparr>tcp_con_num := 1\<rparr>) (st demo_tables)"
proof -
  have f: "conn_find (jh demo_ltran) demo_ticks (ct demo_tables) demo_q = None"
    by (simp add: demo_tables_def conn_find_empty)
  have m: "gazelle_sock_get_by_min_conn (jh demo_ltran) demo_ticks (st demo_tables) (dst_ip demo_q) (dst_port demo_q) = Some (Some 1)"
    using demo_min by (simp add: demo_q_def)
  have s: "heap (st demo_tables) 1 = Some demo_sock" "listener demo_ticks (dst_ip demo_q) (dst_port demo_q) demo_sock"
    by (simp_all add: demo_tables_def hadd_def listener_def demo_sock_def demo_q_def demo_ticks_def
        sock_on_def instance_is_on_def tick_at_def)
  have n: "cur_num (ct demo_tables) \<noteq> max_num (ct demo_tables)" "new_conn demo_ltran (ct demo_tables) = Some (7, demo_raw)"
    by (simp_all add: demo_tables_def demo_ltran_def htable_empty_def)
  obtain k c t where "sock_stack demo_sock = Some k" "conn_stack c = Some k" "conn_sock c = Some 1"
    "conn_timeout c = gazelle_conn_timeout" "hbind_ok (conn_on demo_ticks) conn_key (ct demo_tables) demo_q (7, c)"
    "t = demo_tables\<lparr>ct := conn_bind (jh demo_ltran) demo_ticks (ct demo_tables) demo_q (7, c),
       st := hset 1 (demo_sock\<lparr>tcp_con_num := tcp_con_num demo_sock + 1\<rparr>) (st demo_tables)\<rparr>"
    "tcp_handle demo_ltran demo_ticks demo_tables demo_q = Some (Some k, t)" "tcp_inv demo_ltran demo_ticks t"
    using tcp_handle_new [OF demo_tables_inv demo_env_ok f m s n] by blast
  then show ?thesis
    using conns.put_lookup [OF tcp_invD(1) [OF demo_tables_inv] f, of "(7, c)" demo_q]
      conn_bind_hbind [OF tcp_invD(1) [OF demo_tables_inv] f, of "(7, c)"]
    by (intro exI [of _ t] exI [of _ c]) (simp add: demo_sock_def demo_tables_def hbind_def hadd_def htable_empty_def)
qed

section \<open>Properties\<close>

text \<open>C2: flow affinity. Whatever packets arrive in between, all packets of one TCP flow are handed
  to the same stack once the first of them has been accepted, and no packet makes the
  forwarding code touch a freed object or a NULL stack.\<close>

theorem tcp_flow_affinity:
  assumes "tcp_inv E ticks T" and "env_ok E"
  shows "\<exists>rs t. tcp_handle_all E ticks T qs = Some (rs, t) \<and> length rs = length qs \<and> tcp_inv E ticks t \<and>
    (\<forall>i j k. i < j \<longrightarrow> j < length qs \<longrightarrow> qs ! i = qs ! j \<longrightarrow> rs ! i = Some k \<longrightarrow> rs ! j = Some k)"
proof -
  obtain rs t where t: "tcp_handle_all E ticks T qs = Some (rs, t)" "length rs = length qs" "tcp_inv E ticks t"
    using tcp_handle_all_step [OF assms, of qs] by blast
  have "\<forall>i j k. i < j \<longrightarrow> j < length qs \<longrightarrow> qs ! i = qs ! j \<longrightarrow> rs ! i = Some k \<longrightarrow> rs ! j = Some k"
    using assms(1) t(1)
  proof (induction qs arbitrary: T rs)
    case (Cons q qs)
    obtain r u where u: "tcp_handle E ticks T q = Some (r, u)" "tcp_inv E ticks u"
      and here: "\<And>k. r = Some k \<Longrightarrow> \<exists>a c. conn_find (jh E) ticks (ct u) q = Some (a, c) \<and> conn_stack c = Some k"
      using tcp_handle_step [OF Cons.prems(1) assms(2), of q] by blast
    obtain rs' where rs: "tcp_handle_all E ticks u qs = Some (rs', t)" "rs = r # rs'"
      using Cons.prems(2) u(1) by (auto split: bind_splits)
    have first: "rs' ! j = Some k" if "r = Some k" "j < length qs" "qs ! j = q" for j k
      using here [OF that(1)] tcp_handle_all_bound [OF u(2) assms(2) _ _ rs(1)] that(2,3) by blast
    show ?case
    proof (intro allI impI)
      fix i j k assume *: "i < j" "j < length (q # qs)" "(q # qs) ! i = (q # qs) ! j" "rs ! i = Some k"
      then obtain j' where j: "j = Suc j'" by (cases j) auto
      show "rs ! j = Some k"
      proof (cases i)
        case 0
        then show ?thesis using first [of k j'] * j rs(2) by simp
      next
        case (Suc i')
        then show ?thesis using Cons.IH [OF u(2) rs(1)] * j rs(2) by auto
      qed
    qed
  qed simp
  with t show ?thesis by blast
qed

lemma tcp_flow_affinity_witness:
  "\<exists>rs t. tcp_handle_all demo_ltran demo_ticks demo_tables [demo_q, demo_q] = Some (rs, t) \<and> rs ! 0 = Some 50 \<and> rs ! 1 = Some 50"
proof -
  obtain rs t where r: "tcp_handle_all demo_ltran demo_ticks demo_tables [demo_q, demo_q] = Some (rs, t)"
    and same: "\<forall>i j k. i < j \<longrightarrow> j < length [demo_q, demo_q] \<longrightarrow> [demo_q, demo_q] ! i = [demo_q, demo_q] ! j \<longrightarrow>
        rs ! i = Some k \<longrightarrow> rs ! j = Some k"
    using tcp_flow_affinity [OF demo_tables_inv demo_env_ok, of "[demo_q, demo_q]"] by blast
  have "rs ! 0 = Some 50" using r demo_accept by (auto split: bind_splits)
  with same have "rs ! 1 = Some 50" by auto
  with r \<open>rs ! 0 = Some 50\<close> show ?thesis by blast
qed

text \<open>C22: The first packet of a flow is refused exactly when the connection table is full, no memory is left
  for a connection, or every live listener on exactly the packet's destination address and
  port (there may be none) has reached the limit of connections; then the tables stay as they were. Otherwise it
  is handed to the stack of such a listener below the limit, one with the fewest connections of all of
  them; the flow is then bound with the accept timeout, the listener's count goes up by
  one, and no other flow changes.
\<close>

theorem tcp_new_flow_least_loaded:
  assumes "tcp_inv E ticks T" and "env_ok E" and "conn_find (jh E) ticks (ct T) q = None"
  shows "\<exists>r t. tcp_handle E ticks T q = Some (r, t) \<and>
    (r = None \<longleftrightarrow> cur_num (ct T) = max_num (ct T) \<or> new_conn E (ct T) = None \<or>
         (\<forall>b x. heap (st T) b = Some x \<longrightarrow> listener ticks (dst_ip q) (dst_port q) x \<longrightarrow>
            gazelle_stack_max_tcp_con_num \<le> tcp_con_num x)) \<and>
    (r = None \<longrightarrow> t = T) \<and>
    (\<forall>k. r = Some k \<longrightarrow> (\<exists>sa s a c. heap (st T) sa = Some s \<and> listener ticks (dst_ip q) (dst_port q) s \<and>
         sock_stack s = Some k \<and>
         (\<forall>b x. heap (st T) b = Some x \<longrightarrow> listener ticks (dst_ip q) (dst_port q) x \<longrightarrow> tcp_con_num s \<le> tcp_con_num x) \<and>
         conn_stack c = Some k \<and> conn_sock c = Some sa \<and> conn_timeout c = gazelle_conn_timeout \<and>
         (\<forall>j. conn_find (jh E) ticks (ct t) j = (if j = q then Some (a, c) else conn_find (jh E) ticks (ct T) j)) \<and>
         st t = hset sa (s\<lparr>tcp_con_num := tcp_con_num s + 1\<rparr>) (st T)))"
proof -
  note D = tcp_invD [OF assms(1)]
  obtain m where m: "gazelle_sock_get_by_min_conn (jh E) ticks (st T) (dst_ip q) (dst_port q) = Some m"
    and w: "case m of
       None \<Rightarrow> \<forall>a s. heap (st T) a = Some s \<longrightarrow> listener ticks (dst_ip q) (dst_port q) s \<longrightarrow> gazelle_stack_max_tcp_con_num \<le> tcp_con_num s
     | Some a \<Rightarrow> \<exists>s. heap (st T) a = Some s \<and> listener ticks (dst_ip q) (dst_port q) s \<and>
         tcp_con_num s < gazelle_stack_max_tcp_con_num \<and> (\<forall>b x. heap (st T) b = Some x \<longrightarrow> listener ticks (dst_ip q) (dst_port q) x \<longrightarrow> tcp_con_num s \<le> tcp_con_num x)"
    using min_conn_choice [OF D(2), of ticks "dst_ip q" "dst_port q"] by blast
  show ?thesis
  proof (cases "m = None \<or> cur_num (ct T) = max_num (ct T) \<or> new_conn E (ct T) = None")
    case True
    then have "tcp_handle E ticks T q = Some (None, T)"
      using m by (intro tcp_handle_refused [OF assms(1,3)]) auto
    moreover have "cur_num (ct T) = max_num (ct T) \<or> new_conn E (ct T) = None \<or>
         (\<forall>b x. heap (st T) b = Some x \<longrightarrow> listener ticks (dst_ip q) (dst_port q) x \<longrightarrow>
            gazelle_stack_max_tcp_con_num \<le> tcp_con_num x)" using True w by auto
    ultimately show ?thesis by blast
  next
    case False
    then obtain sa a raw where sa: "m = Some sa" and n: "new_conn E (ct T) = Some (a, raw)" by auto
    obtain s where s: "heap (st T) sa = Some s" "listener ticks (dst_ip q) (dst_port q) s" "tcp_con_num s < gazelle_stack_max_tcp_con_num"
      "\<forall>b x. heap (st T) b = Some x \<longrightarrow> listener ticks (dst_ip q) (dst_port q) x \<longrightarrow> tcp_con_num s \<le> tcp_con_num x"
      using w sa by auto
    have room: "cur_num (ct T) \<noteq> max_num (ct T)" using False by blast
    obtain k c t where c: "sock_stack s = Some k" "conn_stack c = Some k" "conn_sock c = Some sa"
      "conn_timeout c = gazelle_conn_timeout" "hbind_ok (conn_on ticks) conn_key (ct T) q (a, c)"
      "t = T\<lparr>ct := conn_bind (jh E) ticks (ct T) q (a, c), st := hset sa (s\<lparr>tcp_con_num := tcp_con_num s + 1\<rparr>) (st T)\<rparr>"
      "tcp_handle E ticks T q = Some (Some k, t)"
      using tcp_handle_new [OF assms m [unfolded sa] s(1,2) room n] by blast
    have "\<forall>j. conn_find (jh E) ticks (ct t) j = (if j = q then Some (a, c) else conn_find (jh E) ticks (ct T) j)"
      using conns.put_lookup [OF D(1) assms(3) c(5)] c(6) by simp
    then have "\<exists>sa s a c. heap (st T) sa = Some s \<and> listener ticks (dst_ip q) (dst_port q) s \<and>
         sock_stack s = Some k \<and>
         (\<forall>b x. heap (st T) b = Some x \<longrightarrow> listener ticks (dst_ip q) (dst_port q) x \<longrightarrow> tcp_con_num s \<le> tcp_con_num x) \<and>
         conn_stack c = Some k \<and> conn_sock c = Some sa \<and> conn_timeout c = gazelle_conn_timeout \<and>
         (\<forall>j. conn_find (jh E) ticks (ct t) j = (if j = q then Some (a, c) else conn_find (jh E) ticks (ct T) j)) \<and>
         st t = hset sa (s\<lparr>tcp_con_num := tcp_con_num s + 1\<rparr>) (st T)"
      using s(1,2,4) c by (intro exI [of _ sa] exI [of _ s] exI [of _ a] exI [of _ c]) simp
    moreover have "\<not> (\<forall>b x. heap (st T) b = Some x \<longrightarrow> listener ticks (dst_ip q) (dst_port q) x \<longrightarrow>
            gazelle_stack_max_tcp_con_num \<le> tcp_con_num x)" using s(1-3) leD by blast
    ultimately show ?thesis using c(7) room n by (intro exI [of _ "Some k"] exI [of _ t]) simp
  qed
qed

lemma tcp_new_flow_least_loaded_witness:
  "\<exists>t a c. tcp_handle demo_ltran demo_ticks demo_tables demo_q = Some (Some 50, t) \<and>
     conn_find (jh demo_ltran) demo_ticks (ct t) demo_q = Some (a, c) \<and> conn_timeout c = 5"
proof -
  have f: "conn_find (jh demo_ltran) demo_ticks (ct demo_tables) demo_q = None"
    by (simp add: demo_tables_def conn_find_empty)
  obtain u where u: "tcp_handle demo_ltran demo_ticks demo_tables demo_q = Some (Some 50, u)" using demo_accept by blast
  show ?thesis
    using tcp_new_flow_least_loaded [OF demo_tables_inv demo_env_ok f] u
    by (auto simp: gazelle_conn_timeout_def)
qed

section \<open>Aging over time\<close>

fun aging_passes :: "nat \<Rightarrow> tcp_tables \<Rightarrow> tcp_tables option" where
  "aging_passes 0 T = Some T"
| "aging_passes (Suc n) T = do { T \<leftarrow> gazelle_delete_aging_conn T; aging_passes n T }"

fun aged_times :: "nat \<Rightarrow> tcp_conn \<Rightarrow> tcp_conn option" where
  "aged_times 0 c = Some c"
| "aged_times (Suc n) c = Option.bind (aged c) (aged_times n)"

lemma aged_times_accepted: "sint (conn_timeout c) < 0 \<Longrightarrow> aged_times n c = Some c"
  by (induction n) (simp_all add: aged_def)

lemma aged_times_pending:
  "0 < sint (conn_timeout c) \<Longrightarrow> aged_times n c =
     (if n < nat (sint (conn_timeout c)) then Some (c\<lparr>conn_timeout := conn_timeout c - word_of_nat n\<rparr>) else None)"
proof (induction n arbitrary: c)
  case (Suc n)
  show ?case
  proof (cases "sint (conn_timeout c) \<le> 1")
    case False
    let ?c = "c\<lparr>conn_timeout := conn_timeout c - 1\<rparr>"
    have s: "sint (conn_timeout ?c) = sint (conn_timeout c) - 1" using timeout_dec Suc.prems by simp
    have "aged_times (Suc n) c = aged_times n ?c" using Suc.prems False by (simp add: aged_def)
    also have "\<dots> = (if n < nat (sint (conn_timeout ?c)) then Some (?c\<lparr>conn_timeout := conn_timeout ?c - word_of_nat n\<rparr>) else None)"
      using Suc.IH [of ?c] s False by simp
    finally show ?thesis using s False by (auto simp: algebra_simps)
  qed (use Suc.prems in \<open>simp add: aged_def\<close>)
qed simp

text \<open>The listeners' counts go down by the number of their connections removed.\<close>

definition expired :: "tcp_tables \<Rightarrow> addr \<Rightarrow> addr set" where
  "expired T sa = {a. \<exists>c. heap (ct T) a = Some c \<and> aged c = None \<and> conn_sock c = Some sa}"

lemma sum_list_indicator:
  "sum_list (map (\<lambda>x. if P x then 1 else (0 :: u32)) xs) = word_of_nat (length (filter P xs))"
  by (induction xs) simp_all

lemma uncounts_expired:
  assumes "conn_inv J ticks (ct T)"
  shows "uncounts (heap (ct T)) sa (placed [0..<conn_htable_size] (ct T)) = word_of_nat (card (expired T sa))"
proof -
  note H = htable_invD [OF table_invD(1) [OF assms [unfolded conn_inv_def]]]
  let ?xs = "placed [0..<conn_htable_size] (ct T)"
  let ?P = "\<lambda>a. aged (the (heap (ct T) a)) = None \<and> conn_sock (the (heap (ct T) a)) = Some sa"
  have s: "map snd ?xs = entries conn_htable_size (ct T)" by (simp add: snd_placed entries_def)
  have "uncounts (heap (ct T)) sa ?xs = sum_list (map (\<lambda>x. if ?P (snd x) then 1 else 0) ?xs)"
    unfolding uncounts_def by (rule arg_cong [of _ _ sum_list], rule map_cong) (simp_all add: uncount_def split_def)
  also have "\<dots> = word_of_nat (length (filter (\<lambda>x. ?P (snd x)) ?xs))" by (rule sum_list_indicator)
  also have "length (filter (\<lambda>x. ?P (snd x)) ?xs) = length (filter ?P (map snd ?xs))"
    by (simp only: filter_map length_map comp_def)
  also have "map snd ?xs = entries conn_htable_size (ct T)" by (rule s)
  also have "length (filter ?P (entries conn_htable_size (ct T))) = card {a \<in> set (entries conn_htable_size (ct T)). ?P a}"
    using distinct_card [OF distinct_filter [OF H(1)], of ?P] by simp
  also have "{a \<in> set (entries conn_htable_size (ct T)). ?P a} = {a \<in> dom (heap (ct T)). ?P a}"
    by (simp only: H(2))
  also have "\<dots> = expired T sa" by (auto simp: expired_def)
  finally show ?thesis .
qed

lemma aging_passes_law:
  assumes "aging_inv E ticks T" and "\<not> mlock T"
  shows "\<exists>U. aging_passes n T = Some U \<and> aging_inv E ticks U \<and> \<not> mlock U \<and>
    (\<forall>a. heap (ct U) a = Option.bind (heap (ct T) a) (aged_times n))"
  using assms
proof (induction n arbitrary: T)
  case 0
  have "Option.bind x (aged_times 0) = x" for x by (cases x) simp_all
  then show ?case using 0 by simp
next
  case (Suc n)
  obtain V where V: "gazelle_delete_aging_conn T = Some V" "aging_inv E ticks V" "\<not> mlock V"
    "\<forall>a. heap (ct V) a = Option.bind (heap (ct T) a) aged" using aging_law [OF Suc.prems] by blast
  obtain U where "aging_passes n V = Some U" "aging_inv E ticks U" "\<not> mlock U"
    "\<forall>a. heap (ct U) a = Option.bind (heap (ct V) a) (aged_times n)" using Suc.IH [OF V(2,3)] by blast
  moreover have "Option.bind (Option.bind x aged) (aged_times n) = Option.bind x (aged_times (Suc n))" for x
    by (cases x) simp_all
  ultimately show ?case using V by auto
qed

text \<open>The references stay good when a packet opens a connection.\<close>

lemma tcp_handle_refs:
  assumes inv: "tcp_inv E ticks T" and env: "env_ok E" and R: "refs_ok T" and run: "tcp_handle E ticks T q = Some (r, U)"
  shows "aging_inv E ticks U"
proof -
  note D = tcp_invD [OF inv]
  have old: "aging_inv E ticks T" using D(1,2) R by (simp add: aging_inv_def)
  show ?thesis
  proof (cases "conn_find (jh E) ticks (ct T) q")
    case (Some v)
    then show ?thesis using tcp_handle_bound [OF inv, of q "fst v" "snd v"] run old by auto
  next
    case None
    obtain m where m: "gazelle_sock_get_by_min_conn (jh E) ticks (st T) (dst_ip q) (dst_port q) = Some m"
      and w: "case m of
       None \<Rightarrow> \<forall>a s. heap (st T) a = Some s \<longrightarrow> listener ticks (dst_ip q) (dst_port q) s \<longrightarrow> gazelle_stack_max_tcp_con_num \<le> tcp_con_num s
     | Some a \<Rightarrow> \<exists>s. heap (st T) a = Some s \<and> listener ticks (dst_ip q) (dst_port q) s \<and>
         tcp_con_num s < gazelle_stack_max_tcp_con_num \<and> (\<forall>b x. heap (st T) b = Some x \<longrightarrow> listener ticks (dst_ip q) (dst_port q) x \<longrightarrow> tcp_con_num s \<le> tcp_con_num x)"
      using min_conn_choice [OF D(2), of ticks "dst_ip q" "dst_port q"] by blast
    show ?thesis
    proof (cases "m = None \<or> cur_num (ct T) = max_num (ct T) \<or> new_conn E (ct T) = None")
      case True
      then show ?thesis using tcp_handle_refused [OF inv None] m run old by auto
    next
      case False
      then obtain sa a raw where sa: "m = Some sa" and n: "new_conn E (ct T) = Some (a, raw)" by auto
      obtain s where s: "heap (st T) sa = Some s" "listener ticks (dst_ip q) (dst_port q) s" using w sa by auto
      have room: "cur_num (ct T) \<noteq> max_num (ct T)" using False by blast
      obtain k c t where c: "conn_sock c = Some sa" "hbind_ok (conn_on ticks) conn_key (ct T) q (a, c)"
        "t = T\<lparr>ct := conn_bind (jh E) ticks (ct T) q (a, c), st := hset sa (s\<lparr>tcp_con_num := tcp_con_num s + 1\<rparr>) (st T)\<rparr>"
        "tcp_handle E ticks T q = Some (Some k, t)" "tcp_inv E ticks t"
        using tcp_handle_new [OF inv env None m [unfolded sa] s room n] by blast
      have t: "U = t" using c(4) run by simp
      have "refs_ok t" using R c(1,3) conn_bind_hbind [OF D(1) None c(2)]
        by (auto simp: refs_ok_def hset_def hbind_def hadd_def)
      then show ?thesis using t tcp_invD(1,2) [OF c(5)] by (simp add: aging_inv_def)
    qed
  qed
qed

text \<open>C19: Aging, in tables whose connections refer only to listeners that exist (the invariant
  \<open>aging_inv\<close>, which each pass and each packet keeps; a listener that is closed before its connections breaks it, and
  then a pass does touch the freed object, see C33), and while no registration message holds
  the lock. No pass touches a freed object; a connection that a packet opened and no stack
  has confirmed survives as many passes less one as its timeout (not 0) says and is gone after that many; one
  that was confirmed (timeout -1) is never removed.\<close>

theorem conn_aging_lifetime:
  assumes "aging_inv E ticks T" and "\<not> mlock T" and "heap (ct T) a = Some c" and "conn_timeout c \<noteq> 0"
  shows "\<exists>U. aging_passes n T = Some U \<and> aging_inv E ticks U \<and>
    heap (ct U) a = (if sint (conn_timeout c) < 0 then Some c
      else if n < nat (sint (conn_timeout c)) then Some (c\<lparr>conn_timeout := conn_timeout c - word_of_nat n\<rparr>)
      else None)"
proof -
  obtain U where U: "aging_passes n T = Some U" "aging_inv E ticks U"
    "\<forall>a. heap (ct U) a = Option.bind (heap (ct T) a) (aged_times n)" using aging_passes_law [OF assms(1,2)] by blast
  have "sint (conn_timeout c) \<noteq> 0" using assms(4) by (metis signed_0 signed_word_eqI)
  then show ?thesis using U assms(3) aged_times_accepted [of c n] aged_times_pending [of c n] by auto
qed

text \<open>
  one aging pass keeps the invariant of both tables and the references between them,
  removes exactly the connections whose timeout runs out, and takes from each listener's count the
  number of its connections that went.\<close>

theorem aging_counts:
  assumes "aging_inv E ticks T" and "\<not> mlock T"
  shows "\<exists>U. gazelle_delete_aging_conn T = Some U \<and> aging_inv E ticks U \<and> \<not> mlock U \<and>
    (\<forall>a. heap (ct U) a = Option.bind (heap (ct T) a) aged) \<and>
    (\<forall>sa. heap (st U) sa =
       map_option (\<lambda>s. s\<lparr>tcp_con_num := tcp_con_num s - word_of_nat (card (expired T sa))\<rparr>) (heap (st T) sa))"
proof -
  have C: "conn_inv (jh E) ticks (ct T)" using assms(1) by (simp add: aging_inv_def)
  show ?thesis using aging_law [OF assms] unfolding uncounts_expired [OF C] .
qed

lemma demo_accepted_aging:
  "\<exists>t c. aging_inv demo_ltran demo_ticks t \<and> \<not> mlock t \<and> heap (ct t) 7 = Some c \<and> conn_timeout c = 5 \<and>
     expired t 1 = {} \<and> heap (st t) 1 = Some (demo_sock\<lparr>tcp_con_num := 1\<rparr>)"
proof -
  obtain t c where t: "tcp_inv demo_ltran demo_ticks t" "heap (ct t) = [7 \<mapsto> c]" "conn_sock c = Some 1"
    "conn_timeout c = gazelle_conn_timeout" "mlock t = False" "st t = hset 1 (demo_sock\<lparr>tcp_con_num := 1\<rparr>) (st demo_tables)"
    using demo_accept by blast
  note D = tcp_invD [OF t(1)]
  have "aged c \<noteq> None" using t(4) by (simp add: aged_def gazelle_conn_timeout_def)
  then have "expired t 1 = {}" using t(2) by (auto simp: expired_def split: if_splits)
  moreover have "aging_inv demo_ltran demo_ticks t"
    using D(1,2) t(2,3,6) by (auto simp: aging_inv_def refs_ok_def hset_def split: if_splits)
  ultimately show ?thesis using t by (intro exI [of _ t] exI [of _ c]) (simp add: hset_def gazelle_conn_timeout_def)
qed

lemma conn_aging_lifetime_witness:
  "\<exists>t c U V. heap (ct t) 7 = Some c \<and> aging_passes 4 t = Some U \<and> heap (ct U) 7 = Some (c\<lparr>conn_timeout := 1\<rparr>) \<and>
     aging_passes 5 t = Some V \<and> heap (ct V) 7 = None"
proof -
  obtain t c where t: "aging_inv demo_ltran demo_ticks t" "\<not> mlock t" "heap (ct t) 7 = Some c" "conn_timeout c = 5"
    using demo_accepted_aging by blast
  have "conn_timeout c \<noteq> 0" using t(4) by simp
  note L = conn_aging_lifetime [OF t(1-3) this]
  show ?thesis using L [of 4] L [of 5] t(3,4) by fastforce
qed

lemma aging_counts_witness:
  "\<exists>t U. gazelle_delete_aging_conn t = Some U \<and> heap (ct t) 7 \<noteq> None \<and> heap (ct U) 7 \<noteq> None \<and>
     heap (st U) 1 = Some (demo_sock\<lparr>tcp_con_num := 1\<rparr>)"
proof -
  obtain t c where t: "aging_inv demo_ltran demo_ticks t" "\<not> mlock t" "heap (ct t) 7 = Some c" "conn_timeout c = 5"
    "expired t 1 = {}" "heap (st t) 1 = Some (demo_sock\<lparr>tcp_con_num := 1\<rparr>)"
    using demo_accepted_aging by blast
  obtain U where U: "gazelle_delete_aging_conn t = Some U" "\<forall>a. heap (ct U) a = Option.bind (heap (ct t) a) aged"
    "\<forall>sa. heap (st U) sa =
       map_option (\<lambda>s. s\<lparr>tcp_con_num := tcp_con_num s - word_of_nat (card (expired t sa))\<rparr>) (heap (st t) sa)"
    using aging_counts [OF t(1,2)] by blast
  show ?thesis using U t by (intro exI [of _ t] exI [of _ U]) (simp add: aged_def)
qed

section \<open>A closed listener is still referred to\<close>

text \<open>An aging pass that meets an expiring connection of a freed socket does not end well.\<close>

lemma aging_step_frame:
  assumes "aging_step b a T = Some U"
  shows "d \<noteq> b \<Longrightarrow> chain (ct U) d = chain (ct T) d" and "x \<noteq> a \<Longrightarrow> heap (ct U) x = heap (ct T) x"
    and "heap (st T) y = None \<Longrightarrow> heap (st U) y = None"
  using assms by (auto simp: aging_step_def hset_def hdel_def Let_def split: bind_splits if_splits option.splits)

lemma aging_chain_frame:
  assumes "aging_chain b as T = Some U"
  shows "d \<noteq> b \<Longrightarrow> chain (ct U) d = chain (ct T) d" and "x \<notin> set as \<Longrightarrow> heap (ct U) x = heap (ct T) x"
    and "heap (st T) y = None \<Longrightarrow> heap (st U) y = None"
  using assms
  by (induction as arbitrary: T) (auto dest: aging_step_frame(3) simp: aging_step_frame(1,2) split: option.splits)

definition dangling :: "tcp_tables \<Rightarrow> addr \<Rightarrow> bool" where
  "dangling T a \<longleftrightarrow> (\<exists>c sa. heap (ct T) a = Some c \<and> aged c = None \<and> conn_sock c = Some sa \<and> heap (st T) sa = None)"

lemma aging_step_dangling:
  assumes "dangling T a"
  shows "aging_step b a T = None"
proof -
  obtain c sa where c: "heap (ct T) a = Some c" "aged c = None" "conn_sock c = Some sa" "heap (st T) sa = None"
    using assms by (auto simp: dangling_def)
  then have "0 \<le> sint (conn_timeout c)" "\<not> 0 < sint (conn_timeout c - 1)"
    using timeout_dec [of "conn_timeout c"] by (auto simp: aged_def split: if_splits)
  with c show ?thesis by (simp add: aging_step_def Let_def)
qed

lemma aging_chain_dangling:
  "dangling T a \<Longrightarrow> a \<in> set as \<Longrightarrow> aging_chain b as T = None"
proof (induction as arbitrary: T)
  case (Cons x as)
  show ?case
  proof (cases "x = a")
    case True
    then show ?thesis using aging_step_dangling Cons.prems by simp
  next
    case False
    have "dangling U a" if "aging_step b x T = Some U" for U
      using aging_step_frame [OF that] False Cons.prems(1) by (auto simp: dangling_def)
    then show ?thesis using Cons False by (auto split: option.splits)
  qed
qed simp

lemma aging_pass_dangling:
  assumes "dangling T a" and "a \<in> set (chain (ct T) b)" and "b \<in> set bs" and "distinct bs"
    and "\<forall>d \<in> set bs. d \<noteq> b \<longrightarrow> a \<notin> set (chain (ct T) d)"
  shows "each_bucket (\<lambda>b T. aging_chain b (chain (ct T) b) T) bs T = None"
  using assms
proof (induction bs arbitrary: T)
  case (Cons d bs)
  show ?case
  proof (cases "d = b")
    case True
    then show ?thesis using aging_chain_dangling Cons.prems(1,2) by simp
  next
    case False
    have "each_bucket (\<lambda>b T. aging_chain b (chain (ct T) b) T) bs U = None"
      if u: "aging_chain d (chain (ct T) d) T = Some U" for U
    proof (rule Cons.IH)
      note F = aging_chain_frame [OF u]
      show "dangling U a" using F False Cons.prems(1,5) by (auto simp: dangling_def)
      show "a \<in> set (chain (ct U) b)" using F(1) False Cons.prems(2) by simp
      show "\<forall>e \<in> set bs. e \<noteq> b \<longrightarrow> a \<notin> set (chain (ct U) e)"
      proof (intro ballI impI)
        fix e assume "e \<in> set bs" "e \<noteq> b"
        moreover have "e \<noteq> d" using \<open>e \<in> set bs\<close> Cons.prems(4) by auto
        ultimately show "a \<notin> set (chain (ct U) e)" using F(1) [of e] Cons.prems(5) by auto
      qed
    qed (use Cons.prems False in auto)
    then show ?thesis by (simp split: option.splits)
  qed
qed simp

lemma hscan_only:
  assumes inv: "htable_inv N bucket t" and e: "heap t a = Some e" "P e"
    and only: "\<And>b x. heap t b = Some x \<Longrightarrow> P x \<Longrightarrow> b = a"
  shows "hscan P (heap t) (chain t (bucket e)) = Some (Some a)"
proof -
  note b = heap_in_chain [OF inv e(1)]
  obtain r where r: "hscan P (heap t) (chain t (bucket e)) = Some r" using hscan_total [OF inv b(1)] by blast
  show ?thesis
  proof (cases r)
    case None
    then show ?thesis using hscan_NoneD [of P "heap t" _ a e] r b(2) e by blast
  next
    case (Some x)
    then show ?thesis using hscan_SomeD [of P "heap t" _ x] r only by blast
  qed
qed

text \<open>C33: closing a listener (\<open>REG_RING_TCP_LISTEN_CLOSE\<close>) frees its socket and leaves the pointers
  that connections keep to it: the aging pass in which such a connection expires, and the
  close message of the connection itself, use the freed socket.\<close>

theorem listen_close_leaves_dangling_socket:
  assumes inv: "aging_inv E ticks T" and l: "\<not> mlock T" and env: "env_ok E"
    and s: "heap (st T) sa = Some s" and only: "\<forall>b x. heap (st T) b = Some x \<longrightarrow> sock_tid x = sock_tid s \<longrightarrow> b = sa"
    and c: "heap (ct T) a = Some c" "conn_sock c = Some sa" "aged c = None"
    and m: "msg_type msg = Reg_ring_tcp_listen_close" "msg_tid msg = sock_tid s"
      "src_ip (qtuple msg) = sock_ip s" "src_port (qtuple msg) = sock_port s"
  shows "\<exists>U. tcp_hash_table_modify E ticks ka k T msg = Some U \<and> ct U = ct T \<and> heap (st U) sa = None \<and>
    gazelle_delete_aging_conn U = None \<and>
    (conn_on ticks c \<longrightarrow> tcp_hash_table_del_conn E ticks U (conn_key c) = None)"
proof -
  have C: "conn_inv (jh E) ticks (ct T)" and S: "htable_inv sock_htable_size (sock_bucket (jh E)) (st T)"
    using inv by (auto simp: aging_inv_def)
  note H = table_invD(1) [OF C [unfolded conn_inv_def]]
  let ?b = "sock_bucket (jh E) s"
  have "hscan (\<lambda>x. sock_tid x = sock_tid s) (heap (st T)) (chain (st T) ?b) = Some (Some sa)"
    by (rule hscan_only [OF S s]) (use only in auto)
  then have run: "tcp_hash_table_modify E ticks ka k T msg = Some (T\<lparr>st := hdel ?b sa (st T)\<rparr>)" (is "_ = Some ?U")
    using m by (simp add: tcp_hash_table_modify_def msg_to_quintuple_def gazelle_sock_del_by_ipporttid_def
        sock_bucket_def Let_def)
  have gone: "heap (st ?U) sa = None" by (simp add: hdel_def)
  have d: "dangling ?U a" using c gone by (auto simp: dangling_def)
  note cb = heap_in_chain [OF H c(1)]
  have "a \<notin> set (chain (ct T) e)" if "e < conn_htable_size" "e \<noteq> gazelle_conn_hbucket_get (jh E) (conn_key c)" for e
    using htable_invD(3) [OF H that(1), of a] that(2) c(1) by auto
  then have "gazelle_delete_aging_conn ?U = None"
    using aging_pass_dangling [OF d, of "gazelle_conn_hbucket_get (jh E) (conn_key c)" "[0..<conn_htable_size]"] cb l
    by (simp add: gazelle_delete_aging_conn_def)
  moreover have "tcp_hash_table_del_conn E ticks ?U (conn_key c) = None" if "conn_on ticks c"
  proof -
    have "conn_find (jh E) ticks (ct T) (conn_key c) = Some (a, c)" using conn_find_iff [OF C] that c(1) by simp
    then show ?thesis using c gone by (simp add: tcp_hash_table_del_conn_def conn_get_find [OF C])
  qed
  ultimately show ?thesis using run gone by auto
qed

text \<open>Two packets later: one connection that is about to expire.\<close>

definition demo_stack :: gazelle_stack where
  "demo_stack = (new_stack 100)\<lparr>stack_cur_tick := MgrTick 0, stack_reg_tick := 3\<rparr>"

definition demo_msg :: "reg_ring_type \<Rightarrow> u16 \<Rightarrow> reg_ring_msg" where
  "demo_msg ty port = \<lparr>msg_type = ty, msg_tid = 100,
     qtuple = \<lparr>protocol = 0, src_ip = 10, src_port = port, dst_ip = 0, dst_port = 0\<rparr>\<rparr>"

lemma demo_one_sock: "heap (st demo_tables) b = Some x \<Longrightarrow> b = 1 \<and> x = demo_sock"
  by (auto simp: demo_tables_def hadd_def htable_empty_def split: if_splits)

lemma demo_expiring:
  "\<exists>T c. aging_inv demo_ltran demo_ticks T \<and> \<not> mlock T \<and> heap (ct T) 7 = Some c \<and> conn_sock c = Some 1 \<and>
     aged c = None \<and> st T = hset 1 (demo_sock\<lparr>tcp_con_num := 1\<rparr>) (st demo_tables)"
proof -
  obtain t c where t: "tcp_inv demo_ltran demo_ticks t" "heap (ct t) = [7 \<mapsto> c]" "conn_sock c = Some 1"
    "mlock t = False" "st t = hset 1 (demo_sock\<lparr>tcp_con_num := 1\<rparr>) (st demo_tables)"
    using demo_accept by blast
  let ?c = "c\<lparr>conn_timeout := 1\<rparr>"
  let ?T = "t\<lparr>ct := hset 7 ?c (ct t)\<rparr>"
  note D = tcp_invD [OF t(1)]
  have "conn_inv (jh demo_ltran) demo_ticks (ct ?T)"
    using conn_hset_inv [OF D(1), of 7 c ?c] t(2) by (simp add: conn_on_def)
  moreover have "refs_ok ?T" using t(2,3,5) by (auto simp: refs_ok_def hset_def split: if_splits)
  ultimately have "aging_inv demo_ltran demo_ticks ?T" using D(2) by (simp add: aging_inv_def)
  then show ?thesis using t(3-5)
    by (intro exI [of _ ?T] exI [of _ ?c]) (simp add: hset_def aged_def)
qed

lemma listen_close_leaves_dangling_socket_witness:
  "\<exists>T U. aging_inv demo_ltran demo_ticks T \<and>
     tcp_hash_table_modify demo_ltran demo_ticks 50 demo_stack T (demo_msg Reg_ring_tcp_listen_close 80) = Some U \<and>
     gazelle_delete_aging_conn U = None"
proof -
  obtain T c where T: "aging_inv demo_ltran demo_ticks T" "\<not> mlock T" "heap (ct T) 7 = Some c" "conn_sock c = Some 1"
    "aged c = None" "st T = hset 1 (demo_sock\<lparr>tcp_con_num := 1\<rparr>) (st demo_tables)" using demo_expiring by blast
  have s: "heap (st T) 1 = Some (demo_sock\<lparr>tcp_con_num := 1\<rparr>)" using T(6) by (simp add: hset_def)
  have o: "\<forall>b x. heap (st T) b = Some x \<longrightarrow> sock_tid x = sock_tid (demo_sock\<lparr>tcp_con_num := 1\<rparr>) \<longrightarrow> b = 1"
    using T(6) demo_one_sock by (auto simp: hset_def split: if_splits)
  have "\<exists>U. tcp_hash_table_modify demo_ltran demo_ticks 50 demo_stack T (demo_msg Reg_ring_tcp_listen_close 80) = Some U \<and>
    ct U = ct T \<and> heap (st U) 1 = None \<and> gazelle_delete_aging_conn U = None \<and>
    (conn_on demo_ticks c \<longrightarrow> tcp_hash_table_del_conn demo_ltran demo_ticks U (conn_key c) = None)"
    by (rule listen_close_leaves_dangling_socket [OF T(1,2) demo_env_ok s o T(3-5)]) (simp_all add: demo_msg_def demo_sock_def)
  with T(1) show ?thesis by blast
qed

section \<open>Two listeners of one thread in one bucket\<close>

lemma min_conn_none:
  assumes "htable_inv sock_htable_size (sock_bucket J) t"
    and none: "\<And>b x. heap t b = Some x \<Longrightarrow> \<not> listener ticks ip port x"
  shows "gazelle_sock_get_by_min_conn J ticks t ip port = Some None"
proof -
  obtain r where r: "gazelle_sock_get_by_min_conn J ticks t ip port = Some r"
    and w: "case r of None \<Rightarrow> \<forall>a s. heap t a = Some s \<longrightarrow> listener ticks ip port s \<longrightarrow> gazelle_stack_max_tcp_con_num \<le> tcp_con_num s
     | Some a \<Rightarrow> \<exists>s. heap t a = Some s \<and> listener ticks ip port s \<and> tcp_con_num s < gazelle_stack_max_tcp_con_num \<and>
         (\<forall>b x. heap t b = Some x \<longrightarrow> listener ticks ip port x \<longrightarrow> tcp_con_num s \<le> tcp_con_num x)"
    using min_conn_choice [OF assms(1), of ticks ip port] by blast
  have "r = None"
  proof (cases r)
    case (Some a)
    then show ?thesis using w none by auto
  qed
  with r show ?thesis by simp
qed

text \<open>
  a thread that already has a live listener in the hash bucket of a new address and port
  gets that listener back: the new one is never entered, so packets for it find no listener,
  while the existing one is given the stack of the message.\<close>

theorem listen_same_bucket_is_lost:
  assumes S: "htable_inv sock_htable_size (sock_bucket (jh E)) (st T)"
    and s: "heap (st T) sa = Some s" "sock_on ticks s" "sock_tid s = msg_tid msg"
    and only: "\<forall>b x. heap (st T) b = Some x \<longrightarrow> sock_tid x = msg_tid msg \<longrightarrow> b = sa"
    and bucket: "sock_bucket (jh E) s = gazelle_hbucket_get_by_ipport (jh E) (src_ip (qtuple msg)) (src_port (qtuple msg))"
    and m: "msg_type msg = Reg_ring_tcp_listen"
    and free: "\<forall>b x. heap (st T) b = Some x \<longrightarrow> sock_ip x \<noteq> src_ip (qtuple msg) \<or> sock_port x \<noteq> src_port (qtuple msg)"
  shows "\<exists>U x. tcp_hash_table_modify E ticks ka k T msg = Some U \<and>
    st U = hset sa x (st T) \<and> sock_stack x = Some ka \<and> sock_port x = sock_port s \<and> sock_ip x = sock_ip s \<and>
    gazelle_sock_get_by_min_conn (jh E) ticks (st U) (src_ip (qtuple msg)) (src_port (qtuple msg)) = Some None"
proof -
  let ?b = "sock_bucket (jh E) s"
  have h: "hscan (\<lambda>x. sock_tid x = msg_tid msg \<and> sock_on ticks x) (heap (st T)) (chain (st T) ?b) = Some (Some sa)"
    by (rule hscan_only [OF S s(1)]) (use s only in auto)
  let ?x = "s\<lparr>sock_reg_tick := stack_reg_tick k, sock_cur_tick := stack_cur_tick k, sock_stack := Some ka\<rparr>"
  have run: "tcp_hash_table_modify E ticks ka k T msg = Some (T\<lparr>st := hset sa ?x (st T)\<rparr>)" (is "_ = Some ?U")
    using h m s(1) bucket by (simp add: tcp_hash_table_modify_def msg_to_quintuple_def gazelle_sock_add_by_ipporttid_def Let_def)
  have S': "htable_inv sock_htable_size (sock_bucket (jh E)) (st ?U)"
    using hset_inv [OF S s(1), of ?x] by (simp add: sock_bucket_def)
  have none: "\<not> listener ticks (src_ip (qtuple msg)) (src_port (qtuple msg)) x" if "heap (st ?U) b = Some x" for b x
    using that free s(1) by (auto simp: hset_def listener_def split: if_splits)
  have "gazelle_sock_get_by_min_conn (jh E) ticks (st ?U) (src_ip (qtuple msg)) (src_port (qtuple msg)) = Some None"
    by (rule min_conn_none [OF S']) (rule none)
  then show ?thesis using run by (intro exI [of _ ?U] exI [of _ ?x]) simp
qed

lemma listen_same_bucket_is_lost_witness:
  "\<exists>U. tcp_hash_table_modify demo_ltran demo_ticks 50 demo_stack demo_tables (demo_msg Reg_ring_tcp_listen 81) = Some U \<and>
     gazelle_sock_get_by_min_conn (jh demo_ltran) demo_ticks (st U) 10 81 = Some None"
proof -
  note D = tcp_invD(2) [OF demo_tables_inv]
  have s: "heap (st demo_tables) 1 = Some demo_sock" by (simp add: demo_tables_def hadd_def)
  have "\<exists>U x. tcp_hash_table_modify demo_ltran demo_ticks 50 demo_stack demo_tables (demo_msg Reg_ring_tcp_listen 81) = Some U \<and>
    st U = hset 1 x (st demo_tables) \<and> sock_stack x = Some 50 \<and> sock_port x = sock_port demo_sock \<and>
    sock_ip x = sock_ip demo_sock \<and>
    gazelle_sock_get_by_min_conn (jh demo_ltran) demo_ticks (st U) (src_ip (qtuple (demo_msg Reg_ring_tcp_listen 81)))
      (src_port (qtuple (demo_msg Reg_ring_tcp_listen 81))) = Some None"
    by (rule listen_same_bucket_is_lost [OF D s])
      (auto dest!: demo_one_sock simp: demo_msg_def demo_sock_def sock_on_def instance_is_on_def tick_at_def demo_ticks_def
        sock_bucket_def demo_buckets)
  then show ?thesis by (auto simp: demo_msg_def)
qed

section \<open>Connections opened by a client\<close>



end
