(* ===== verification/Ltran_Forward.thy ===== *)
theory Ltran_Forward
  imports Ltran_Instance Ltran_Backup Ltran_Flow
begin

text \<open>
  The two forwarding threads of ltran (\<open>src/ltran/ltran_forward.c\<close>) with the KNI side of
  \<open>src/common/dpdk_common.c\<close>: what happens to a packet from the NIC, what is flushed to the
  stacks after a burst, and how the packets of the stacks are sent. The tables, the batch and
  backup arrays and the instances are those of the theories imported.

  Parameters: what the NIC and the KNI deliver and accept, the mbuf allocator, the checksum
  function, the fields \<open>nb_segs\<close> and \<open>l2_len\<close> of an mbuf, the configuration and the clock.
\<close>

section \<open>State\<close>

record port_stat =
  ps_rx :: u64
  ps_rx_bytes :: u64
  tcp_pkt :: u64
  icmp_pkt :: u64
  arp_pkt :: u64
  kni_pkt :: u64
  ps_tx :: u64
  ps_tx_bytes :: u64
  rx_iter_arr :: "nat \<Rightarrow> u64"

text \<open>
  Rings are found by address; the statistics of a stack are kept beside it. \<open>kni_out\<close> and
  \<open>nic_out\<close> are the packets the kernel and the NIC accepted.
\<close>

record fwd =
  ctl :: ltran_ctl
  tabs :: tcp_tables
  rings :: "addr \<rightharpoonup> addr rte_ring"
  reg_rings :: "addr \<rightharpoonup> reg_ring_msg rte_ring"
  sk_stats :: "addr \<Rightarrow> stack_stat"
  fmem :: mbufs
  kni_stack :: gazelle_stack
  kni_started :: bool
  kni_out :: "mbuf list"
  nic_out :: "(u16 \<times> mbuf) list"
  port :: port_stat

record fw_params =
  fw :: fwd_env
  tenv :: ltran_env
  mrel :: "reg_ring_msg ring_elems"
  alloc_mbuf :: "mbufs \<Rightarrow> (addr \<times> mbuf) option"
  kni_on :: bool
  kni_accept :: "u32 \<Rightarrow> u32"
  nb_segs :: "mbuf \<Rightarrow> u16"
  l2_len :: "mbuf \<Rightarrow> nat"
  ipv4_cksum :: "(nat \<Rightarrow> u8) \<Rightarrow> u16"

definition ticks_of :: "fwd \<Rightarrow> nat \<Rightarrow> i32" where
  "ticks_of W = instance_cur_tick (mgr (ctl W))"

definition port_upd :: "(port_stat \<Rightarrow> port_stat) \<Rightarrow> fwd \<Rightarrow> fwd" where
  "port_upd f W = W\<lparr>port := f (port W)\<rparr>"

text \<open>An operation of \<open>Ltran_Backup\<close> on the stack at an address.\<close>

definition on_stack :: "(rx_state \<Rightarrow> rx_state option) \<Rightarrow> addr \<Rightarrow> fwd \<Rightarrow> fwd option" where
  "on_stack f sa W = do {
     s \<leftarrow> heap (stacks (ctl W)) sa;
     ra \<leftarrow> rx_ring s;
     r \<leftarrow> rings W ra;
     S \<leftarrow> f \<lparr>rx_stack = s, rx_rte = r, rx_stats = sk_stats W sa, rx_mem = fmem W\<rparr>;
     Some (W\<lparr>ctl := (ctl W)\<lparr>stacks := hset sa (rx_stack S) (stacks (ctl W))\<rparr>, rings := (rings W)(ra \<mapsto> rx_rte S),
             sk_stats := (sk_stats W)(sa := rx_stats S), fmem := rx_mem S\<rparr>)}"

section \<open>The kernel side\<close>

text \<open>The value of \<open>kni_config_network_interface\<close> is whether the port id was valid; the device is started once.\<close>

record kni_dev =
  dev_started :: bool
  bond_dev_started :: bool
  dev_starts :: nat

definition kni_config_network_interface :: "u16 \<Rightarrow> u16 \<Rightarrow> bool \<Rightarrow> kni_dev \<Rightarrow> bool \<times> kni_dev" where
  "kni_config_network_interface dev_count port_id if_up K =
     (if port_id \<ge> dev_count \<or> port_id \<ge> 16 then (False, K)
      else if if_up then
        (if \<not> dev_started K then
           (True, let K = K\<lparr>dev_started := True\<rparr>
                  in if \<not> bond_dev_started K then K\<lparr>dev_starts := dev_starts K + 1, bond_dev_started := True\<rparr> else K)
         else (True, K))
      else (True, K\<lparr>dev_started := False\<rparr>))"

text \<open>The header checksum of a packet in several segments, at byte 10 of the IPv4 header.\<close>

definition fix_cksum :: "fw_params \<Rightarrow> mbuf \<Rightarrow> mbuf" where
  "fix_cksum E m =
     (if nb_segs E m > 1 then
        let l = l2_len E m;
            d = (mb_data m)(l + 10 := 0, l + 11 := 0);
            c = ipv4_cksum E (\<lambda>i. d (l + i))
        in m\<lparr>mb_data := d(l + 10 := ucast c, l + 11 := ucast (drop_bit 8 c))\<rparr>
      else m)"

fun fix_cksums :: "fw_params \<Rightarrow> addr option list \<Rightarrow> mbufs \<Rightarrow> mbufs option" where
  "fix_cksums E [] mem = Some mem"
| "fix_cksums E (x # xs) mem =
     (case x of None \<Rightarrow> None
      | Some a \<Rightarrow> (case mem a of None \<Rightarrow> None | Some m \<Rightarrow> fix_cksums E xs (mem(a \<mapsto> fix_cksum E m))))"

text \<open>Buffers that change hands leave the model's heap.\<close>

fun take_mbufs :: "addr option list \<Rightarrow> mbufs \<Rightarrow> (mbuf list \<times> mbufs) option" where
  "take_mbufs [] mem = Some ([], mem)"
| "take_mbufs (x # xs) mem =
     (case x of None \<Rightarrow> None
      | Some a \<Rightarrow> (case mem a of None \<Rightarrow> None
          | Some m \<Rightarrow> map_option (\<lambda>(ms, mem). (m # ms, mem)) (take_mbufs xs (mem(a := None)))))"

text \<open>The second value is the number of leading packets the kernel took; the others are freed and set to NULL.\<close>

definition kni_process_tx :: "fw_params \<Rightarrow> addr option list \<Rightarrow> fwd \<Rightarrow> (u32 \<times> fwd) option" where
  "kni_process_tx E pkts W =
     (if \<not> kni_started W then do { mem \<leftarrow> free_mbufs pkts (fmem W); Some (word_of_nat (length pkts), W\<lparr>fmem := mem\<rparr>) }
      else do {
        mem \<leftarrow> fix_cksums E pkts (fmem W);
        let i = kni_accept E (word_of_nat (length pkts));
        (sent, mem) \<leftarrow> take_mbufs (take (unat i) pkts) mem;
        mem \<leftarrow> free_mbufs (drop (unat i) pkts) mem;
        Some (i, W\<lparr>fmem := mem, kni_out := kni_out W @ sent\<rparr>) })"

text \<open>\<open>flush_rx_ring\<close> and \<open>enqueue_rx_packet\<close> on the KNI stack.\<close>

definition flush_kni :: "fw_params \<Rightarrow> fwd \<Rightarrow> fwd option" where
  "flush_kni E W = do {
     let s = kni_stack W;
     (i, W) \<leftarrow> kni_process_tx E (pends s) W;
     let W = port_upd (\<lambda>p. p\<lparr>kni_pkt := kni_pkt p + ucast (pkt_cnt s)\<rparr>) W;
     Some (W\<lparr>kni_stack := s\<lparr>pkt_buf := (\<lambda>j. if unat i \<le> j \<and> j < unat (pkt_cnt s) then None else pkt_buf s j), pkt_cnt := 0\<rparr>\<rparr>)}"

definition enqueue_kni :: "fw_params \<Rightarrow> addr \<Rightarrow> fwd \<Rightarrow> fwd option" where
  "enqueue_kni E a W =
     (let s = kni_stack W;
          s = s\<lparr>pkt_buf := (pkt_buf s)(unat (pkt_cnt s) := Some a), pkt_cnt := pkt_cnt s + 1\<rparr>;
          W = W\<lparr>kni_stack := s\<rparr>
      in if pkt_cnt s \<ge> gazelle_packet_read_size then flush_kni E W else Some W)"

section \<open>Packets from the NIC\<close>

text \<open>Fields as the code loads them, from network byte order into little-endian words.\<close>

definition load16 :: "mbuf \<Rightarrow> nat \<Rightarrow> u16" where
  "load16 m i = ucast (mb_data m i) OR push_bit 8 (ucast (mb_data m (i + 1)))"

definition load32 :: "mbuf \<Rightarrow> nat \<Rightarrow> u32" where
  "load32 m i = ucast (mb_data m i) OR push_bit 8 (ucast (mb_data m (i + 1))) OR
     push_bit 16 (ucast (mb_data m (i + 2))) OR push_bit 24 (ucast (mb_data m (i + 3)))"

text \<open>Offsets: an Ethernet header of 14 bytes, an IPv4 header of 20, ARP's target address 24 bytes into its header.\<close>

definition pkt_quintuple :: "mbuf \<Rightarrow> quintuple" where
  "pkt_quintuple m = \<lparr>protocol = 0, src_ip = load32 m 26, src_port = load16 m 34, dst_ip = load32 m 30, dst_port = load16 m 36\<rparr>"

fun first_on :: "(nat \<Rightarrow> i32) \<Rightarrow> (addr \<rightharpoonup> gazelle_stack) \<Rightarrow> addr option list \<Rightarrow> addr option option" where
  "first_on ticks h [] = Some None"
| "first_on ticks h (x # xs) =
     (case x of None \<Rightarrow> first_on ticks h xs
      | Some sa \<Rightarrow> (case h sa of None \<Rightarrow> None
          | Some s \<Rightarrow> if stack_on ticks s then Some (Some sa) else first_on ticks h xs))"

definition get_icmp_handle_stack :: "mbuf \<Rightarrow> fwd \<Rightarrow> addr option option" where
  "get_icmp_handle_stack m W = do {
     found \<leftarrow> gazelle_instance_get_by_ip (ctl W) (load32 m 30);
     (case found of
        None \<Rightarrow> Some None
      | Some a \<Rightarrow> do {
          x \<leftarrow> insts (ctl W) a;
          first_on (ticks_of W) (heap (stacks (ctl W))) (map (stack_array x) [0..<gazelle_max_stack_array_size])})}"

definition icmp_handle :: "fw_params \<Rightarrow> addr \<Rightarrow> mbuf \<Rightarrow> fwd \<Rightarrow> (bool \<times> fwd) option" where
  "icmp_handle E a m W = do {
     icmp_stack \<leftarrow> get_icmp_handle_stack m W;
     (case icmp_stack of
        None \<Rightarrow> Some (False, W)
      | Some sa \<Rightarrow> do { W \<leftarrow> on_stack (enqueue_rx_packet (fw E) a) sa W; Some (True, W) })}"

definition ipv4_handle :: "fw_params \<Rightarrow> addr \<Rightarrow> mbuf \<Rightarrow> fwd \<Rightarrow> (bool \<times> fwd) option" where
  "ipv4_handle E a m W =
     (if mb_data m 23 = 6 then do {
        let W = port_upd (\<lambda>p. p\<lparr>tcp_pkt := tcp_pkt p + 1\<rparr>) W;
        (k, T) \<leftarrow> tcp_handle (tenv E) (ticks_of W) (tabs W) (pkt_quintuple m);
        let W = W\<lparr>tabs := T\<rparr>;
        (case k of
           None \<Rightarrow> Some (False, W)
         | Some sa \<Rightarrow> do { W \<leftarrow> on_stack (enqueue_rx_packet (fw E) a) sa W; Some (True, W) }) }
      else if mb_data m 23 = 1 then icmp_handle E a m (port_upd (\<lambda>p. p\<lparr>icmp_pkt := icmp_pkt p + 1\<rparr>) W)
      else Some (False, W))"

text \<open>The flag is \<open>True\<close> when an allocation failed: then the function returns at once.\<close>

fun arp_stacks :: "fw_params \<Rightarrow> addr \<Rightarrow> addr option list \<Rightarrow> fwd \<Rightarrow> (bool \<times> fwd) option" where
  "arp_stacks E a [] W = Some (False, W)"
| "arp_stacks E a (x # xs) W =
     (case x of None \<Rightarrow> arp_stacks E a xs W
      | Some sa \<Rightarrow> (case heap (stacks (ctl W)) sa of None \<Rightarrow> None
          | Some s \<Rightarrow>
              if \<not> stack_on (ticks_of W) s then arp_stacks E a xs W
              else (case alloc_mbuf E (fmem W) of
                  None \<Rightarrow> Some (True, W)
                | Some (b, d) \<Rightarrow> (case fmem W a of None \<Rightarrow> None
                    | Some m \<Rightarrow>
                       (case on_stack (enqueue_rx_packet (fw E) b) sa (W\<lparr>fmem := (fmem W)(b \<mapsto> copy_mbuf (fw E) d m)\<rparr>) of
                          None \<Rightarrow> None
                        | Some W \<Rightarrow> arp_stacks E a xs W)))))"

fun arp_insts :: "fw_params \<Rightarrow> addr \<Rightarrow> u32 \<Rightarrow> nat list \<Rightarrow> fwd \<Rightarrow> fwd option" where
  "arp_insts E a tip [] W = Some W"
| "arp_insts E a tip (i # is) W =
     (case instances (mgr (ctl W)) i of None \<Rightarrow> arp_insts E a tip is W
      | Some ia \<Rightarrow> (case insts (ctl W) ia of None \<Rightarrow> None
          | Some x \<Rightarrow>
              if inst_ip x \<noteq> tip then arp_insts E a tip is W
              else (case arp_stacks E a (map (stack_array x) [0..<unat (stack_cnt x)]) W of
                  None \<Rightarrow> None
                | Some (failed, W) \<Rightarrow> if failed then Some W else arp_insts E a tip is W)))"

definition arp_handle :: "fw_params \<Rightarrow> addr \<Rightarrow> mbuf \<Rightarrow> fwd \<Rightarrow> fwd option" where
  "arp_handle E a m W =
     arp_insts E a (load32 m 38) [0..<gazelle_max_instance_num] (port_upd (\<lambda>p. p\<lparr>arp_pkt := arp_pkt p + 1\<rparr>) W)"

definition upstream_forward_one :: "fw_params \<Rightarrow> addr \<Rightarrow> fwd \<Rightarrow> fwd option" where
  "upstream_forward_one E a W = do {
     m \<leftarrow> fmem W a;
     let W = port_upd (\<lambda>p. p\<lparr>ps_rx_bytes := ps_rx_bytes p + ucast (mb_data_len m)\<rparr>) W;
     let ip_version = drop_bit 4 (mb_data m 14 AND 0xf0);
     (done, W) \<leftarrow> (if ip_version = 4 then ipv4_handle E a m W
                    else if load16 m 12 = 0x0608 then do { W \<leftarrow> arp_handle E a m W; Some (False, W) }
                    else Some (False, W));
     (if done then Some W
      else if kni_on E then enqueue_kni E a W
      else Some W)}"

section \<open>A round of the receiving thread\<close>

definition handle_and_flush :: "fw_params \<Rightarrow> addr \<Rightarrow> fwd \<Rightarrow> fwd option" where
  "handle_and_flush E sa W = do {
     s \<leftarrow> heap (stacks (ctl W)) sa;
     ra \<leftarrow> reg_ring s;
     r \<leftarrow> reg_rings W ra;
     (r, T) \<leftarrow> tcp_hash_table_handle (tenv E) (mrel E) (ticks_of W) sa s r (tabs W);
     on_stack (flush_rx_ring (fw E)) sa (W\<lparr>reg_rings := (reg_rings W)(ra \<mapsto> r), tabs := T\<rparr>)}"

text \<open>
  The loops over all stacks that are switched on: the slots below \<open>max_instance_num\<close>, and in each
  instance the array entries below its count.
\<close>

fun each_stack :: "(addr \<Rightarrow> fwd \<Rightarrow> fwd option) \<Rightarrow> addr option list \<Rightarrow> fwd \<Rightarrow> fwd option" where
  "each_stack f [] W = Some W"
| "each_stack f (x # xs) W =
     (case x of None \<Rightarrow> each_stack f xs W
      | Some sa \<Rightarrow> (case heap (stacks (ctl W)) sa of None \<Rightarrow> None
          | Some s \<Rightarrow> if stack_on (ticks_of W) s then (case f sa W of None \<Rightarrow> None | Some W \<Rightarrow> each_stack f xs W)
                      else each_stack f xs W))"

fun each_instance :: "(addr \<Rightarrow> fwd \<Rightarrow> fwd option) \<Rightarrow> nat list \<Rightarrow> fwd \<Rightarrow> fwd option" where
  "each_instance f [] W = Some W"
| "each_instance f (i # is) W =
     (case instances (mgr (ctl W)) i of None \<Rightarrow> each_instance f is W
      | Some ia \<Rightarrow> (case insts (ctl W) ia of None \<Rightarrow> None
          | Some x \<Rightarrow> (case each_stack f (map (stack_array x) [0..<unat (stack_cnt x)]) W of
              None \<Rightarrow> None | Some W \<Rightarrow> each_instance f is W)))"

definition flush_all_stack :: "fw_params \<Rightarrow> fwd \<Rightarrow> fwd option" where
  "flush_all_stack E W = each_instance (handle_and_flush E) [0..<unat (max_instance_num (mgr (ctl W)))] W"

definition fwd_prefetch_offset :: nat where "fwd_prefetch_offset = 2"
definition upstream_loop_times :: nat where "upstream_loop_times = 64"
definition up_adjust_thresh :: nat where "up_adjust_thresh = 31"

text \<open>A loop from index \<open>i\<close> while it is below \<open>n\<close>.\<close>

fun forward_each :: "fw_params \<Rightarrow> addr list \<Rightarrow> fwd \<Rightarrow> fwd option" where
  "forward_each E [] W = Some W"
| "forward_each E (a # as) W = (case upstream_forward_one E a W of None \<Rightarrow> None | Some W \<Rightarrow> forward_each E as W)"

definition forward_loop :: "fw_params \<Rightarrow> addr list \<Rightarrow> nat \<Rightarrow> nat \<Rightarrow> fwd \<Rightarrow> fwd option" where
  "forward_loop E buf i n W = forward_each E (map (nth buf) [i..<n]) W"

text \<open>
  What the NIC delivers in its \<open>k\<close>-th call, given the buffers in use, is \<open>rx k\<close>; \<open>clock k\<close> is the
  time before it. The value is the state before the flush. The prefetches leave no trace.
\<close>

fun upstream_bursts :: "fw_params \<Rightarrow> (nat \<Rightarrow> mbufs \<Rightarrow> (addr \<times> mbuf) list) \<Rightarrow> (nat \<Rightarrow> u64) \<Rightarrow> nat \<Rightarrow> nat \<Rightarrow> fwd \<Rightarrow> fwd option" where
  "upstream_bursts E rx clock k 0 W = Some W"
| "upstream_bursts E rx clock k (Suc n) W = do {
     let got = rx k (fmem W);
     let buf = map fst got;
     let rx_count = length buf;
     let mem = fmem W ++ map_of got;
     mem \<leftarrow> (if latency_flag (fw E) then time_stamp_into_mbuf buf (clock k) mem else Some mem);
     let W = port_upd (\<lambda>p. p\<lparr>rx_iter_arr := (rx_iter_arr p)(rx_count := rx_iter_arr p rx_count + 1),
                            ps_rx := ps_rx p + word_of_nat rx_count\<rparr>) (W\<lparr>fmem := mem\<rparr>);
     (if rx_count < fwd_prefetch_offset * 2 then forward_loop E buf 0 rx_count W
      else do {
        W \<leftarrow> forward_loop E buf 0 (rx_count - fwd_prefetch_offset * 2) W;
        W \<leftarrow> forward_loop E buf (rx_count - fwd_prefetch_offset * 2) (rx_count - fwd_prefetch_offset) W;
        W \<leftarrow> forward_loop E buf (rx_count - fwd_prefetch_offset) rx_count W;
        (if rx_count < up_adjust_thresh then Some W else upstream_bursts E rx clock (Suc k) n W)})}"

definition upstream_forward_loop ::
  "fw_params \<Rightarrow> (nat \<Rightarrow> mbufs \<Rightarrow> (addr \<times> mbuf) list) \<Rightarrow> (nat \<Rightarrow> u64) \<Rightarrow> fwd \<Rightarrow> fwd option" where
  "upstream_forward_loop E rx clock W =
     do { W \<leftarrow> upstream_bursts E rx clock 0 upstream_loop_times W; flush_all_stack E W }"

text \<open>
  One round of \<open>upstream_forward\<close>: all queues, the KNI stack, and the timers that have run out.
  The times of the last aging and the last scan are the thread's own. \<open>rte_kni_handle_request\<close> is
  \<open>kni_config_network_interface\<close> when the kernel asks for it.
\<close>

definition gazelle_conn_interval :: u64 where "gazelle_conn_interval = 1000000"

fun upstream_queues :: "fw_params \<Rightarrow> (nat \<Rightarrow> nat \<Rightarrow> mbufs \<Rightarrow> (addr \<times> mbuf) list) \<Rightarrow> (nat \<Rightarrow> nat \<Rightarrow> u64) \<Rightarrow> nat list \<Rightarrow> fwd \<Rightarrow> fwd option" where
  "upstream_queues E rx clock [] W = Some W"
| "upstream_queues E rx clock (q # qs) W =
     (case upstream_forward_loop E (rx q) (clock q) W of None \<Rightarrow> None | Some W \<Rightarrow> upstream_queues E rx clock qs W)"

definition upstream_round :: "fw_params \<Rightarrow> nat \<Rightarrow> u64 \<Rightarrow> (nat \<Rightarrow> nat \<Rightarrow> mbufs \<Rightarrow> (addr \<times> mbuf) list) \<Rightarrow> (nat \<Rightarrow> nat \<Rightarrow> u64) \<Rightarrow>
  (fwd \<Rightarrow> fwd) \<Rightarrow> u64 \<Rightarrow> u64 \<times> u64 \<times> fwd \<Rightarrow> (u64 \<times> u64 \<times> fwd) option" where
  "upstream_round E queue_num scan_interval rx clock kni_request now_time = (\<lambda>(aging_last, last_time, W). do {
     W \<leftarrow> upstream_queues E rx clock [0..<queue_num] W;
     W \<leftarrow> (if kni_on E then map_option kni_request (flush_kni E W) else Some W);
     (aging_last, W) \<leftarrow> (if now_time - aging_last > gazelle_conn_interval
        then do { T \<leftarrow> gazelle_delete_aging_conn (tabs W); Some (now_time, W\<lparr>tabs := T\<rparr>) } else Some (aging_last, W));
     (if now_time - last_time > scan_interval
      then do {
        T \<leftarrow> gazelle_detect_conn_logout (ticks_of W) (tabs W);
        T \<leftarrow> gazelle_detect_sock_logout (ticks_of W) T;
        Some (aging_last, now_time, W\<lparr>tabs := T\<rparr>) }
      else Some (aging_last, last_time, W))})"

section \<open>Packets to the NIC\<close>

text \<open>
  The sending loop. \<open>acc k n\<close> is what the NIC takes of \<open>n\<close> packets in the \<open>k\<close>-th call and
  \<open>notsup k\<close> whether \<open>rte_errno\<close> is \<open>ENOTSUP\<close> after it. The value is the number of packets the NIC took
  and the number freed; \<open>None\<close> is a loop that never ends.
\<close>

partial_function (option) tx_loop :: "(nat \<Rightarrow> nat \<Rightarrow> nat) \<Rightarrow> (nat \<Rightarrow> bool) \<Rightarrow> nat \<Rightarrow> nat \<Rightarrow> nat \<Rightarrow> (nat \<times> nat) option" where
  "tx_loop acc notsup used_cnt k tx_pkts =
     (if tx_pkts < used_cnt then
        (let tx_pkts = tx_pkts + acc k (used_cnt - tx_pkts)
         in if notsup k then Some (tx_pkts, used_cnt - tx_pkts)
            else tx_loop acc notsup used_cnt (Suc k) tx_pkts)
      else Some (tx_pkts, 0))"

definition sum_len :: "mbuf list \<Rightarrow> u64" where
  "sum_len ms = sum_list (map (\<lambda>m. ucast (mb_data_len m)) ms)"

fun load_mbufs :: "mbufs \<Rightarrow> addr list \<Rightarrow> mbuf list option" where
  "load_mbufs mem [] = Some []"
| "load_mbufs mem (a # as) = (case mem a of None \<Rightarrow> None | Some m \<Rightarrow> map_option ((#) m) (load_mbufs mem as))"

text \<open>
  The value is \<open>Inl\<close> when the process exits for want of buffers. \<open>bulk n\<close> are the buffers of
  \<open>rte_pktmbuf_alloc_bulk\<close>, as \<open>mbuf\<close>s with whatever they held.
\<close>

definition downstream_forward_one :: "fw_params \<Rightarrow> (nat \<Rightarrow> mbuf list option) \<Rightarrow> (nat \<Rightarrow> nat \<Rightarrow> nat) \<Rightarrow> (nat \<Rightarrow> bool) \<Rightarrow> u16 \<Rightarrow>
  addr \<Rightarrow> fwd \<Rightarrow> (fwd + fwd) option" where
  "downstream_forward_one E bulk acc notsup port_id sa W = do {
     s \<leftarrow> heap (stacks (ctl W)) sa;
     ra \<leftarrow> tx_ring s;
     r \<leftarrow> rings W ra;
     let (used_cnt, used_pkts, r) = gazelle_ring_read (relems (fw E)) r gazelle_packet_read_size;
     (if used_cnt = 0 then Some (Inr (W\<lparr>rings := (rings W)(ra \<mapsto> r)\<rparr>))
      else do {
        let st = sk_stats W sa;
        let st = st\<lparr>st_tx := st_tx st + ucast used_cnt\<rparr>;
        (case bulk (unat used_cnt) of
           None \<Rightarrow> Some (Inl (W\<lparr>rings := (rings W)(ra \<mapsto> gazelle_ring_read_over r),
             sk_stats := (sk_stats W)(sa := st\<lparr>st_tx_drop := st_tx_drop st + ucast used_cnt\<rparr>)\<rparr>))
         | Some dst_bufs \<Rightarrow> do {
             src \<leftarrow> load_mbufs (fmem W) used_pkts;
             let dst_bufs = map2 (copy_mbuf (fw E)) dst_bufs src;
             let tx_bytes = sum_len src;
             let st = st\<lparr>st_tx_bytes := st_tx_bytes st + tx_bytes\<rparr>;
             let r = gazelle_ring_read_over r;
             (tx, dropped) \<leftarrow> tx_loop acc notsup (unat used_cnt) 0 0;
             let st = st\<lparr>st_tx_drop := st_tx_drop st + word_of_nat dropped\<rparr>;
             let W = W\<lparr>rings := (rings W)(ra \<mapsto> r), sk_stats := (sk_stats W)(sa := st),
                       nic_out := nic_out W @ map (Pair port_id) (take tx dst_bufs)\<rparr>;
             Some (Inr (port_upd (\<lambda>p. p\<lparr>ps_tx_bytes := ps_tx_bytes p + tx_bytes, ps_tx := ps_tx p + word_of_nat (tx + dropped)\<rparr>) W))})})}"

text \<open>\<open>kni_process_rx\<close>: what the kernel sends goes out on queue 0 of the port it is given; the rest is freed.\<close>

definition kni_process_rx :: "u16 \<Rightarrow> mbuf list \<Rightarrow> (nat \<Rightarrow> nat) \<Rightarrow> fwd \<Rightarrow> fwd" where
  "kni_process_rx port_id pkts acc W =
     (if length pkts > 0 then W\<lparr>nic_out := nic_out W @ map (Pair port_id) (take (acc (length pkts)) pkts)\<rparr> else W)"

text \<open>
  One round of \<open>downstream_forward\<close>. The stacks are visited as in \<open>flush_all_stack\<close>; the round ends
  when the process exits.
\<close>

fun down_stacks :: "(addr \<Rightarrow> fwd \<Rightarrow> (fwd + fwd) option) \<Rightarrow> addr option list \<Rightarrow> fwd \<Rightarrow> (fwd + fwd) option" where
  "down_stacks f [] W = Some (Inr W)"
| "down_stacks f (x # xs) W =
     (case x of None \<Rightarrow> down_stacks f xs W
      | Some sa \<Rightarrow> (case heap (stacks (ctl W)) sa of None \<Rightarrow> None
          | Some s \<Rightarrow> if stack_on (ticks_of W) s
              then (case f sa W of Some (Inr W) \<Rightarrow> down_stacks f xs W | r \<Rightarrow> r) else down_stacks f xs W))"

fun down_instances :: "(addr \<Rightarrow> fwd \<Rightarrow> (fwd + fwd) option) \<Rightarrow> nat list \<Rightarrow> fwd \<Rightarrow> (fwd + fwd) option" where
  "down_instances f [] W = Some (Inr W)"
| "down_instances f (i # is) W =
     (case instances (mgr (ctl W)) i of None \<Rightarrow> down_instances f is W
      | Some ia \<Rightarrow> (case insts (ctl W) ia of None \<Rightarrow> None
          | Some x \<Rightarrow> (case down_stacks f (map (stack_array x) [0..<unat (stack_cnt x)]) W of
              Some (Inr W) \<Rightarrow> down_instances f is W | r \<Rightarrow> r)))"

definition downstream_forward_loop :: "(addr \<Rightarrow> fwd \<Rightarrow> (fwd + fwd) option) \<Rightarrow> fwd \<Rightarrow> (fwd + fwd) option" where
  "downstream_forward_loop f W = down_instances f [0..<unat (max_instance_num (mgr (ctl W)))] W"

definition downstream_round :: "fw_params \<Rightarrow> nat \<Rightarrow> (nat \<Rightarrow> addr \<Rightarrow> fwd \<Rightarrow> (fwd + fwd) option) \<Rightarrow> u16 \<Rightarrow> mbuf list \<Rightarrow> (nat \<Rightarrow> nat) \<Rightarrow>
  fwd \<Rightarrow> (fwd + fwd) option" where
  "downstream_round E queue_num f port_index kni_pkts acc W =
     (let W = (if kni_on E \<and> kni_started W then kni_process_rx port_index kni_pkts acc W else W)
      in fold (\<lambda>queue_id r. case r of Some (Inr W) \<Rightarrow> downstream_forward_loop (f queue_id) W | r \<Rightarrow> r) [0..<queue_num] (Some (Inr W)))"

section \<open>One packet\<close>

text \<open>The stack as the operations of \<open>Ltran_Backup\<close> see it, with the packet's own buffer apart.\<close>

definition stack_view :: "fwd \<Rightarrow> addr \<Rightarrow> addr \<Rightarrow> rx_state option" where
  "stack_view W a sa = do {
     s \<leftarrow> heap (stacks (ctl W)) sa;
     ra \<leftarrow> rx_ring s;
     r \<leftarrow> rings W ra;
     Some \<lparr>rx_stack = s, rx_rte = r, rx_stats = sk_stats W sa, rx_mem = (fmem W)(a := None)\<rparr>}"

definition ip_version :: "mbuf \<Rightarrow> u8" where "ip_version m = drop_bit 4 (mb_data m 14 AND 0xf0)"

lemma on_stack_enqueue:
  assumes v: "stack_view W a sa = Some S" and m: "fmem W a = Some m"
    and inv: "rx_inv E S" "unat (pkt_cnt (rx_stack S)) < 32" and len: "mb_data_len m \<le> buf_size E"
  shows "\<exists>W' T. on_stack (enqueue_rx_packet E a) sa W = Some W' \<and> enqueued E S (packet m) T \<and>
    heap (stacks (ctl W')) = (heap (stacks (ctl W)))(sa \<mapsto> rx_stack T) \<and>
    (\<exists>ra. rx_ring (rx_stack S) = Some ra \<and> rings W' = (rings W)(ra \<mapsto> rx_rte T)) \<and>
    sk_stats W' = (sk_stats W)(sa := rx_stats T) \<and> fmem W' = rx_mem T \<and> tabs W' = tabs W \<and> port W' = port W"
proof -
  obtain s ra r where s: "heap (stacks (ctl W)) sa = Some s" "rx_ring s = Some ra" "rings W ra = Some r"
    "S = \<lparr>rx_stack = s, rx_rte = r, rx_stats = sk_stats W sa, rx_mem = (fmem W)(a := None)\<rparr>"
    using v by (auto simp: stack_view_def split: bind_splits)
  have "S\<lparr>rx_mem := (rx_mem S)(a \<mapsto> m)\<rparr> = \<lparr>rx_stack = s, rx_rte = r, rx_stats = sk_stats W sa, rx_mem = fmem W\<rparr>"
    using s(4) m by auto
  moreover have "rx_mem S a = None" using s(4) by simp
  ultimately obtain T where T: "enqueue_rx_packet E a \<lparr>rx_stack = s, rx_rte = r, rx_stats = sk_stats W sa, rx_mem = fmem W\<rparr> = Some T"
    "enqueued E S (packet m) T" using enqueue_law [OF inv, of a m] len by auto
  let ?V = "W\<lparr>ctl := (ctl W)\<lparr>stacks := hset sa (rx_stack T) (stacks (ctl W))\<rparr>,
      rings := (rings W)(ra \<mapsto> rx_rte T), sk_stats := (sk_stats W)(sa := rx_stats T), fmem := rx_mem T\<rparr>"
  have "on_stack (enqueue_rx_packet E a) sa W = Some ?V" using s T(1) by (simp add: on_stack_def)
  then show ?thesis using T(2) s by (intro exI [of _ ?V] exI [of _ T]) (simp add: hset_def)
qed

text \<open>C16: With the tables and the stack's queues in order, a TCP packet of a known flow that fits ltran's buffers goes to the flow's stack and nowhere else. While fewer than 31 packets
  are collected there it just waits behind those before it, and nothing is sent or dropped; the
  thirty-second makes the stack flush: as many packets as the stack lent buffers for, the oldest
  first, are handed over and counted, the others wait in their order, and only those beyond the
  32768 places of the backup array are dropped, the last ones, each of them counted. No other
  stack, ring or table changes, and the packet is counted once in the port's statistics.
\<close>

theorem known_flow_reaches_its_stack:
  assumes "fmem W a = Some m" and "ip_version m = 4" and "mb_data m 23 = 6"
    and "tcp_inv (tenv E) (ticks_of W) (tabs W)"
    and "conn_find (jh (tenv E)) (ticks_of W) (ct (tabs W)) (pkt_quintuple m) = Some (ca, c)" and "conn_stack c = Some sa"
    and "stack_view W a sa = Some S" and "rx_inv (fw E) S" and "unat (pkt_cnt (rx_stack S)) < 32"
    and "mb_data_len m \<le> buf_size (fw E)"
  shows "\<exists>W' T. upstream_forward_one E a W = Some W' \<and> enqueued (fw E) S (packet m) T \<and>
    heap (stacks (ctl W')) = (heap (stacks (ctl W)))(sa \<mapsto> rx_stack T) \<and>
    (\<exists>ra. rx_ring (rx_stack S) = Some ra \<and> rings W' = (rings W)(ra \<mapsto> rx_rte T)) \<and>
    sk_stats W' = (sk_stats W)(sa := rx_stats T) \<and> fmem W' = rx_mem T \<and> tabs W' = tabs W \<and>
    port W' = (port W)\<lparr>ps_rx_bytes := ps_rx_bytes (port W) + ucast (mb_data_len m), tcp_pkt := tcp_pkt (port W) + 1\<rparr>"
proof -
  let ?p = "(port W)\<lparr>ps_rx_bytes := ps_rx_bytes (port W) + ucast (mb_data_len m), tcp_pkt := tcp_pkt (port W) + 1\<rparr>"
  let ?W = "W\<lparr>port := ?p\<rparr>"
  have t: "tcp_handle (tenv E) (ticks_of W) (tabs W) (pkt_quintuple m) = Some (Some sa, tabs W)"
    using tcp_handle_bound [OF assms(4,5)] assms(6) by auto
  have "stack_view ?W a sa = Some S" "fmem ?W a = Some m" using assms(1,7) by (simp_all add: stack_view_def)
  from on_stack_enqueue [OF this assms(8-10)]
  obtain W' T where W': "on_stack (enqueue_rx_packet (fw E) a) sa ?W = Some W'" "enqueued (fw E) S (packet m) T"
    "heap (stacks (ctl W')) = (heap (stacks (ctl W)))(sa \<mapsto> rx_stack T)"
    "\<exists>ra. rx_ring (rx_stack S) = Some ra \<and> rings W' = (rings W)(ra \<mapsto> rx_rte T)"
    "sk_stats W' = (sk_stats W)(sa := rx_stats T)" "fmem W' = rx_mem T" "tabs W' = tabs W" "port W' = ?p" by auto
  have "ipv4_handle E a m (W\<lparr>port := (port W)\<lparr>ps_rx_bytes := ps_rx_bytes (port W) + ucast (mb_data_len m)\<rparr>\<rparr>) = Some (True, W')"
    using t W'(1) assms(3) by (simp add: ipv4_handle_def port_upd_def ticks_of_def)
  then have "upstream_forward_one E a W = Some W'"
    using assms(1,2) by (simp add: upstream_forward_one_def ip_version_def port_upd_def Let_def)
  then show ?thesis using W'(2-) by blast
qed

text \<open>A packet no part of ltran takes: neither IPv4 nor ARP, or IPv4 of another protocol than TCP and ICMP.\<close>

definition unclaimed :: "mbuf \<Rightarrow> bool" where
  "unclaimed m \<longleftrightarrow> (if ip_version m = 4 then mb_data m 23 \<noteq> 6 \<and> mb_data m 23 \<noteq> 1 else load16 m 12 \<noteq> 0x0608)"

text \<open>C34: With the KNI switched off the packets nobody takes are never freed: however many arrive, all
  their buffers stay allocated, and no queue, ring or table of the state refers to them.
\<close>

theorem unclaimed_packets_are_leaked:
  assumes "\<not> kni_on E" and "\<forall>a \<in> set as. \<exists>m. fmem W a = Some m \<and> unclaimed m"
  shows "\<exists>p. forward_each E as W = Some (W\<lparr>port := p\<rparr>)"
  using assms(2)
proof (induction "as" arbitrary: W)
  case Nil
  show ?case by (intro exI [of _ "port W"]) simp
next
  case (Cons a "as")
  then obtain m where m: "fmem W a = Some m" "unclaimed m" by auto
  have "\<exists>p. upstream_forward_one E a W = Some (W\<lparr>port := p\<rparr>)"
    using m assms(1) by (auto simp: upstream_forward_one_def unclaimed_def ip_version_def ipv4_handle_def port_upd_def Let_def split: if_splits)
  then obtain p where p: "upstream_forward_one E a W = Some (W\<lparr>port := p\<rparr>)" by blast
  obtain p' where "forward_each E as (W\<lparr>port := p\<rparr>) = Some (W\<lparr>port := p, port := p'\<rparr>)"
    using Cons.IH [of "W\<lparr>port := p\<rparr>"] Cons.prems by auto
  then show ?case using p by auto
qed

section \<open>A round\<close>

lemma forward_each_append:
  "forward_each E (as @ bs) W = Option.bind (forward_each E as W) (forward_each E bs)"
  by (induction "as" arbitrary: W) (auto split: option.splits)

lemma forward_loop_all: "n = length buf \<Longrightarrow> forward_loop E buf 0 n W = forward_each E buf W"
  by (simp add: forward_loop_def map_nth)

lemma forward_loop_join:
  assumes "i \<le> j" and "j \<le> n"
  shows "Option.bind (forward_loop E buf i j W) (forward_loop E buf j n) = forward_loop E buf i n W"
proof -
  have "[i..<n] = [i..<j] @ [j..<n]" using assms by (metis le_Suc_ex upt_add_eq_append)
  then have "forward_loop E buf i n W = Option.bind (forward_loop E buf i j W) (\<lambda>W. forward_loop E buf j n W)"
    by (simp add: forward_loop_def forward_each_append)
  then show ?thesis by simp
qed

text \<open>The loop as one would write it without prefetching.\<close>

fun plain_bursts :: "fw_params \<Rightarrow> (nat \<Rightarrow> mbufs \<Rightarrow> (addr \<times> mbuf) list) \<Rightarrow> (nat \<Rightarrow> u64) \<Rightarrow> nat \<Rightarrow> nat \<Rightarrow> fwd \<Rightarrow> fwd option" where
  "plain_bursts E rx clock k 0 W = Some W"
| "plain_bursts E rx clock k (Suc n) W = do {
     let buf = map fst (rx k (fmem W));
     let mem = fmem W ++ map_of (rx k (fmem W));
     mem \<leftarrow> (if latency_flag (fw E) then time_stamp_into_mbuf buf (clock k) mem else Some mem);
     W \<leftarrow> forward_each E buf (port_upd (\<lambda>p. p\<lparr>
         rx_iter_arr := (rx_iter_arr p)(length buf := rx_iter_arr p (length buf) + 1),
         ps_rx := ps_rx p + word_of_nat (length buf)\<rparr>) (W\<lparr>fmem := mem\<rparr>));
     (if length buf < up_adjust_thresh then Some W else plain_bursts E rx clock (Suc k) n W)}"

text \<open>C27: The receive loop with its three prefetching passes and its early exits is the plain loop: each burst
  is forwarded once, in the order of arrival, packet by packet; it goes on while bursts are almost
  full, at most 64 times; then all stacks are flushed.
\<close>

theorem upstream_loop_is_plain_loop:
  "upstream_forward_loop E rx clock W = do { W \<leftarrow> plain_bursts E rx clock 0 64 W; flush_all_stack E W }"
proof -
  have step: "(if length buf < fwd_prefetch_offset * 2 then forward_loop E buf 0 (length buf) W
      else do {
        W \<leftarrow> forward_loop E buf 0 (length buf - fwd_prefetch_offset * 2) W;
        W \<leftarrow> forward_loop E buf (length buf - fwd_prefetch_offset * 2) (length buf - fwd_prefetch_offset) W;
        W \<leftarrow> forward_loop E buf (length buf - fwd_prefetch_offset) (length buf) W;
        (if length buf < up_adjust_thresh then Some W else next W)}) =
    Option.bind (forward_each E buf W) (\<lambda>W. if length buf < up_adjust_thresh then Some W else next W)" for buf W "next"
  proof (cases "length buf < fwd_prefetch_offset * 2")
    case True
    then have "length buf < up_adjust_thresh" by (simp add: fwd_prefetch_offset_def up_adjust_thresh_def)
    then show ?thesis using True by (simp add: forward_loop_all)
  next
    case False
    let ?n = "length buf"
    have "forward_each E buf W = Option.bind (forward_loop E buf 0 (?n - 4) W)
        (\<lambda>W. Option.bind (forward_loop E buf (?n - 4) (?n - 2) W) (forward_loop E buf (?n - 2) ?n))"
      using False forward_loop_join [of "?n - 4" "?n - 2" ?n E buf] forward_loop_join [of 0 "?n - 4" ?n E buf W]
      by (simp add: fwd_prefetch_offset_def forward_loop_all)
    then show ?thesis using False by (simp add: fwd_prefetch_offset_def Option.bind_assoc)
  qed
  have "upstream_bursts E rx clock k n W = plain_bursts E rx clock k n W" for k n W
    by (induction n arbitrary: k W) (simp_all add: Let_def step cong: if_cong)
  then show ?thesis by (simp add: upstream_forward_loop_def upstream_loop_times_def)
qed

section \<open>Sending\<close>

text \<open>A NIC that takes at least one packet of those offered in each call, and never fails.\<close>

definition tx_progress :: "(nat \<Rightarrow> nat \<Rightarrow> nat) \<Rightarrow> bool" where
  "tx_progress acc \<longleftrightarrow> (\<forall>k n. 0 < n \<longrightarrow> 1 \<le> acc k n \<and> acc k n \<le> n)"

lemma tx_loop_all:
  assumes "tx_progress acc" and "tx \<le> used"
  shows "\<exists>n d. tx_loop acc notsup used k tx = Some (n, d) \<and> n + d = used \<and> ((\<forall>k. \<not> notsup k) \<longrightarrow> d = 0)"
  using assms(2)
proof (induction "used - tx" arbitrary: k tx rule: less_induct)
  case less
  show ?case
  proof (cases "tx < used")
    case True
    have "1 \<le> acc k (used - tx)" "acc k (used - tx) \<le> used - tx" using assms(1) True by (simp_all add: tx_progress_def)
    then have l: "used - (tx + acc k (used - tx)) < used - tx" "tx + acc k (used - tx) \<le> used" using True by linarith+
    show ?thesis
    proof (cases "notsup k")
      case True
      then show ?thesis using \<open>tx < used\<close> l(2) by (subst tx_loop.simps) (auto simp: Let_def)
    next
      case False
      then show ?thesis using less.hyps [OF l, of "Suc k"] True by (subst tx_loop.simps) (simp add: Let_def)
    qed
  next
    case False
    then show ?thesis using less.prems by (subst tx_loop.simps) simp
  qed
qed

lemma load_mbufs_all: "set as \<subseteq> dom mem \<Longrightarrow> load_mbufs mem as = Some (map (\<lambda>a. the (mem a)) as)"
  by (induction "as") auto

text \<open>C8: The packets a stack has put into its sending ring go to the NIC: up to 32 at a time, in the order of the ring,
  each a faithful copy in a buffer of ltran; the stack's buffers are given back to it in the same order. Where
  \<open>rte_errno\<close> is never \<open>ENOTSUP\<close> after a burst, all of them are sent however the NIC splits the burst and
  nothing is counted as dropped; in any case those not sent are the last of the batch, and they are
  counted. When the pool has no buffers for the whole batch the process exits and
  nothing is sent. This takes a NIC that accepts between one and all of the packets it is offered in each
  call, packets of the stack no longer than the buffers of ltran (\<open>data_len\<close> at most \<open>buf_size\<close>),
  a bulk allocation that returns as many buffers as it is asked for, if any, and a ring with at least one packet.
\<close>

theorem downstream_sends_in_order:
  assumes "heap (stacks (ctl W)) sa = Some s" and "tx_ring s = Some ra" and "rings W ra = Some r"
    and "ring_inv (relems (fw E)) r" and "in_read (relems (fw E)) r = []" and "lent (relems (fw E)) r \<noteq> []"
    and "set (lent (relems (fw E)) r) \<subseteq> dom (fmem W)"
    and "\<forall>a \<in> set (lent (relems (fw E)) r). mb_data_len (the (fmem W a)) \<le> buf_size (fw E)"
    and "\<forall>n ds. bulk n = Some ds \<longrightarrow> length ds = n" and "tx_progress acc"
  shows "let L = take 32 (lent (relems (fw E)) r); n = length L in
    (case bulk n of
       None \<Rightarrow> \<exists>W'. downstream_forward_one E bulk acc notsup p sa W = Some (Inl W') \<and> nic_out W' = nic_out W \<and>
         st_tx_drop (sk_stats W' sa) = st_tx_drop (sk_stats W sa) + word_of_nat n
     | Some _ \<Rightarrow> \<exists>W' r' sent d. downstream_forward_one E bulk acc notsup p sa W = Some (Inr W') \<and>
         sent + d = n \<and> ((\<forall>k. \<not> notsup k) \<longrightarrow> d = 0) \<and>
         map (map_prod id packet) (nic_out W') =
           map (map_prod id packet) (nic_out W) @ map (Pair p) (packets (fmem W) (take sent L)) \<and>
         rings W' = (rings W)(ra \<mapsto> r') \<and> ring_inv (relems (fw E)) r' \<and> in_read (relems (fw E)) r' = [] \<and>
         filled (relems (fw E)) r' = filled (relems (fw E)) r @ L \<and> lent (relems (fw E)) r' = drop 32 (lent (relems (fw E)) r) \<and>
         st_tx (sk_stats W' sa) = st_tx (sk_stats W sa) + word_of_nat n \<and>
         st_tx_drop (sk_stats W' sa) = st_tx_drop (sk_stats W sa) + word_of_nat d \<and>
         ps_tx (port W') = ps_tx (port W) + word_of_nat n \<and> fmem W' = fmem W)"
proof -
  let ?R = "relems (fw E)"
  let ?L = "take 32 (lent ?R r)"
  obtain k xs r1 where rd: "gazelle_ring_read ?R r gazelle_packet_read_size = (k, xs, r1)" by (rule prod_cases3)
  note L = ring_law_read [OF assms(4) rd]
  have xs: "xs = ?L" using L(1) by (simp add: gazelle_packet_read_size_def)
  have k: "unat k = length ?L" using L(2) xs by simp
  have k0: "k \<noteq> 0" using k assms(6) by (metis length_greater_0_conv less_numeral_extra(3) take_eq_Nil unat_0 zero_neq_numeral)
  note O = ring_law_read_over [OF L(3)]
  have uk: "(ucast k :: u64) = word_of_nat (length ?L)" using ucast_unat_nat [of k] k by simp
  show ?thesis
  proof (cases "bulk (unat k)")
    case None
    then have "downstream_forward_one E bulk acc notsup p sa W = Some (Inl (W\<lparr>rings := (rings W)(ra \<mapsto> gazelle_ring_read_over r1),
        sk_stats := (sk_stats W)(sa := (sk_stats W sa)\<lparr>st_tx := st_tx (sk_stats W sa) + ucast k,
          st_tx_drop := st_tx_drop (sk_stats W sa) + ucast k\<rparr>)\<rparr>))"
      using assms(1-3) k0 by (simp add: downstream_forward_one_def rd Let_def)
    then show ?thesis using None uk k by (simp add: Let_def)
  next
    case (Some ds)
    then have ds: "bulk (unat k) = Some ds" "length ds = unat k" using assms(9) by simp_all
    have sub: "set ?L \<subseteq> set (lent ?R r)" by (rule set_take_subset)
    let ?src = "map (\<lambda>a. the (fmem W a)) ?L"
    have ld: "load_mbufs (fmem W) xs = Some ?src" unfolding xs using sub assms(7) by (intro load_mbufs_all) blast
    obtain sent d where tx: "tx_loop acc notsup (unat k) 0 0 = Some (sent, d)" "sent + d = unat k" "(\<forall>k. \<not> notsup k) \<longrightarrow> d = 0"
      using tx_loop_all [OF assms(10), of 0 "unat k" notsup 0] by auto
    let ?out = "map2 (copy_mbuf (fw E)) ds ?src"
    have lo: "length ?out = unat k" using ds(2) k by simp
    have "map packet ?out = map packet ?src"
    proof (rule nth_equalityI)
      fix i assume i: "i < length (map packet ?out)"
      then have il: "i < length ?L" using lo k by simp
      then have "?L ! i \<in> set (lent ?R r)" using sub nth_mem by blast
      then have "mb_data_len (?src ! i) \<le> buf_size (fw E)" using assms(8) il by simp
      then show "map packet ?out ! i = map packet ?src ! i" using i il ds(2) k by (simp add: packet_copy)
    qed (use lo k in simp)
    then have pk: "map packet ?out = packets (fmem W) ?L" by (simp add: packets_def)
    let ?st = "(sk_stats W sa)\<lparr>st_tx := st_tx (sk_stats W sa) + ucast k, st_tx_bytes := st_tx_bytes (sk_stats W sa) + sum_len ?src,
      st_tx_drop := st_tx_drop (sk_stats W sa) + word_of_nat d\<rparr>"
    let ?W = "port_upd (\<lambda>q. q\<lparr>ps_tx_bytes := ps_tx_bytes q + sum_len ?src, ps_tx := ps_tx q + word_of_nat (sent + d)\<rparr>)
      (W\<lparr>rings := (rings W)(ra \<mapsto> gazelle_ring_read_over r1), sk_stats := (sk_stats W)(sa := ?st),
         nic_out := nic_out W @ map (Pair p) (take sent ?out)\<rparr>)"
    have run: "downstream_forward_one E bulk acc notsup p sa W = Some (Inr ?W)"
      using assms(1-3) k0 ds(1) ld tx(1) by (simp add: downstream_forward_one_def rd Let_def)
    have "map packet (take sent ?out) = packets (fmem W) (take sent ?L)"
      using pk by (simp add: packets_def take_map [symmetric])
    then have "map (Pair p) (map packet (take sent ?out)) = map (Pair p) (packets (fmem W) (take sent ?L))" by (rule arg_cong)
    then have "map (map_prod id packet) (nic_out ?W) =
        map (map_prod id packet) (nic_out W) @ map (Pair p) (packets (fmem W) (take sent ?L))"
      by (simp add: port_upd_def comp_def)
    then have nic: "map (map_prod id packet) (nic_out ?W) =
        map (map_prod id packet) (nic_out W) @ map (Pair p) (packets (fmem W) (take sent ?L))" .
    have ring: "filled ?R (gazelle_ring_read_over r1) = filled ?R r @ ?L" "lent ?R (gazelle_ring_read_over r1) = drop 32 (lent ?R r)"
      using O L xs assms(5) by (simp_all add: gazelle_packet_read_size_def)
    have frame: "rings ?W = (rings W)(ra \<mapsto> gazelle_ring_read_over r1)" "fmem ?W = fmem W"
      "st_tx (sk_stats ?W sa) = st_tx (sk_stats W sa) + word_of_nat (length ?L)"
      "st_tx_drop (sk_stats ?W sa) = st_tx_drop (sk_stats W sa) + word_of_nat d"
      "ps_tx (port ?W) = ps_tx (port W) + word_of_nat (length ?L)"
      using uk tx(2) k by (simp_all add: port_upd_def del: length_take)
    have "bulk (length ?L) = Some ds" "sent + d = length ?L" using ds(1) tx(2) k by simp_all
    then show ?thesis unfolding Let_def using run tx(3) nic ring frame O(1,3) by (simp only: option.case) blast
  qed
qed

section \<open>A state to evaluate on\<close>

definition demo_fw :: fw_params where
  "demo_fw = \<lparr>fw = demo_env, tenv = demo_ltran, mrel = plain_elems, alloc_mbuf = (\<lambda>_. None), kni_on = False,
     kni_accept = (\<lambda>n. n), nb_segs = (\<lambda>_. 1), l2_len = (\<lambda>_. 14), ipv4_cksum = (\<lambda>_. 0)\<rparr>"

text \<open>An IPv4 header with protocol TCP, from 20:4000 to 10:80.\<close>

definition demo_tcp_packet :: mbuf where
  "demo_tcp_packet = demo_mbuf\<lparr>mb_data_len := 60, mb_data := (\<lambda>_. 0)(14 := 0x45, 23 := 6, 26 := 20, 30 := 10,
     34 := 0xA0, 35 := 0x0F, 36 := 80)\<rparr>"

definition demo_fwd :: "addr rte_ring \<Rightarrow> tcp_tables \<Rightarrow> mbufs \<Rightarrow> fwd" where
  "demo_fwd r t mem = \<lparr>ctl = \<lparr>mgr = \<lparr>cur_instance_num = 0, max_instance_num = 0, instance_cur_tick = demo_ticks,
       instances = (\<lambda>_. None), net_mask = 0, subnet_size = 0\<rparr>, insts = Map.empty,
       stacks = (htable_empty 4)\<lparr>heap := [50 \<mapsto> (new_stack 100)\<lparr>rx_ring := Some 60, tx_ring := Some 60\<rparr>]\<rparr>,
       next_addr = 0, reserved = [], responses = []\<rparr>,
     tabs = t, rings = [60 \<mapsto> r], reg_rings = Map.empty, sk_stats = (\<lambda>_. rx_stats demo_rx), fmem = mem,
     kni_stack = new_stack 0, kni_started = False, kni_out = [], nic_out = [],
     port = \<lparr>ps_rx = 0, ps_rx_bytes = 0, tcp_pkt = 0, icmp_pkt = 0, arp_pkt = 0, kni_pkt = 0, ps_tx = 0, ps_tx_bytes = 0,
       rx_iter_arr = (\<lambda>_. 0)\<rparr>\<rparr>"

lemma demo_fwd_ticks: "ticks_of (demo_fwd r t mem) = demo_ticks" "tabs (demo_fwd r t mem) = t" "fmem (demo_fwd r t mem) = mem"
  by (simp_all add: ticks_of_def demo_fwd_def)

lemma demo_packet_q: "pkt_quintuple demo_tcp_packet = demo_q" "ip_version demo_tcp_packet = 4" "mb_data demo_tcp_packet 23 = 6"
proof -
  have "load32 demo_tcp_packet 26 = 20" "load32 demo_tcp_packet 30 = 10" "load16 demo_tcp_packet 36 = 80"
    by (simp_all add: load32_def load16_def demo_tcp_packet_def)
  moreover have "load16 demo_tcp_packet 34 = 4000" by (simp add: load16_def demo_tcp_packet_def)
  ultimately show "pkt_quintuple demo_tcp_packet = demo_q" by (simp add: pkt_quintuple_def demo_q_def)
  show "ip_version demo_tcp_packet = 4" by (simp add: ip_version_def demo_tcp_packet_def)
qed (simp add: demo_tcp_packet_def)

lemma known_flow_reaches_its_stack_witness:
  "\<exists>t W. upstream_forward_one demo_fw 9 (demo_fwd (empty_ring 0 0) t [9 \<mapsto> demo_tcp_packet]) = Some W \<and> tabs W = t"
proof -
  obtain t c where t: "tcp_inv demo_ltran demo_ticks t" "conn_find (jh demo_ltran) demo_ticks (ct t) demo_q = Some (7, c)"
    "conn_stack c = Some 50" using demo_accept by blast
  let ?W = "demo_fwd (empty_ring 0 0) t [9 \<mapsto> demo_tcp_packet]"
  let ?S = "demo_rx\<lparr>rx_stack := (new_stack 100)\<lparr>rx_ring := Some 60, tx_ring := Some 60\<rparr>\<rparr>"
  have v: "stack_view ?W 9 50 = Some ?S" by (simp add: stack_view_def demo_fwd_def demo_rx_def)
  have same: "waiting (rx_stack ?S) = waiting (rx_stack demo_rx)" "backs (rx_stack ?S) = backs (rx_stack demo_rx)"
    "pends (rx_stack ?S) = pends (rx_stack demo_rx)"
    by (simp_all add: demo_rx_def waiting_def backs_def pends_def new_stack_def)
  have inv: "rx_inv demo_env ?S" "unat (pkt_cnt (rx_stack ?S)) < 32"
    using demo_rx_inv(1) unfolding rx_inv_def Let_def same by (simp_all add: demo_rx_def new_stack_def)
  have len: "mb_data_len demo_tcp_packet \<le> buf_size (fw demo_fw)" by (simp add: demo_tcp_packet_def demo_fw_def demo_env_def)
  have E: "fw demo_fw = demo_env" "tenv demo_fw = demo_ltran" by (simp_all add: demo_fw_def)
  have m: "fmem ?W 9 = Some demo_tcp_packet" by (simp add: demo_fwd_ticks)
  have "tcp_inv (tenv demo_fw) (ticks_of ?W) (tabs ?W)"
    "conn_find (jh (tenv demo_fw)) (ticks_of ?W) (ct (tabs ?W)) (pkt_quintuple demo_tcp_packet) = Some (7, c)"
    using t by (simp_all add: demo_fwd_ticks E demo_packet_q)
  from known_flow_reaches_its_stack [OF m demo_packet_q(2,3) this t(3) v _ inv(2) len] inv(1) E
  show ?thesis by (auto simp: demo_fwd_ticks)
qed

lemma unclaimed_packets_are_leaked_witness:
  "\<exists>p. forward_each demo_fw [9, 8] (demo_fwd (empty_ring 0 0) demo_tables [9 \<mapsto> demo_mbuf, 8 \<mapsto> demo_mbuf]) =
    Some (demo_fwd (empty_ring 0 0) demo_tables [9 \<mapsto> demo_mbuf, 8 \<mapsto> demo_mbuf]\<lparr>port := p\<rparr>)"
  by (rule unclaimed_packets_are_leaked)
    (simp_all add: demo_fw_def demo_fwd_def unclaimed_def ip_version_def demo_mbuf_def load16_def)

lemma downstream_sends_in_order_witness:
  "\<exists>r W. lent plain_elems r = [5] \<and>
    downstream_forward_one demo_fw (\<lambda>n. Some (replicate n demo_mbuf)) (\<lambda>k n. 1) (\<lambda>_. False) 3 50 (demo_fwd r demo_tables [5 \<mapsto> demo_tcp_packet]) =
      Some (Inr W) \<and> map (map_prod id packet) (nic_out W) = [(3, packet demo_tcp_packet)]"
proof -
  obtain k r where r: "gazelle_ring_sp_enqueue plain_elems (empty_ring 0 0) [5 :: addr] 1 = (k, r)" by (rule prod.exhaust)
  have i: "ring_inv plain_elems (empty_ring 0 (0 :: addr))" "unat (capacity (empty_ring 0 (0 :: addr))) = 4"
    "ring_contents plain_elems (empty_ring 0 (0 :: addr)) = []"
    using empty_ring_ok [of 0 "0 :: addr"] by (simp_all add: empty_ring_def)
  then have l: "lent plain_elems r = [5]" "ring_inv plain_elems r" "in_read plain_elems r = []"
    using enqueue_stores [OF i(1) _ _ r] demo_rx_empty by (simp_all add: demo_rx_def)
  let ?W = "demo_fwd r demo_tables [5 \<mapsto> demo_tcp_packet]"
  have R: "relems (fw demo_fw) = plain_elems" by (simp add: demo_fw_def demo_env_def)
  have acc: "tx_progress (\<lambda>k n. 1)" by (simp add: tx_progress_def)
  have h: "heap (stacks (ctl ?W)) 50 = Some ((new_stack 100)\<lparr>rx_ring := Some 60, tx_ring := Some 60\<rparr>)" "rings ?W 60 = Some r"
    by (simp_all add: demo_fwd_def)
  from downstream_sends_in_order [OF h(1) _ h(2), where E = demo_fw and bulk = "\<lambda>n. Some (replicate n demo_mbuf)" and p = 3 and notsup = "\<lambda>_. False", OF _ _ _ _ _ _ _ acc]
  show ?thesis using l R
    by (simp add: Let_def demo_fwd_ticks packets_def demo_fw_def demo_env_def demo_tcp_packet_def)
      (fastforce simp: demo_fwd_def)
qed

end
