(* ===== verification/Parse_Config.thy ===== *)
theory Parse_Config
  imports Gazelle_Prelude
begin

text \<open>
  The parsing helpers that ltran and lstack share (\<open>src/common/gazelle_parse_config.c\<close>), with the
  functions of the C library they use: \<open>isblank\<close>, \<open>strtol\<close>, \<open>strtoul\<close> and \<open>strtok\<close>. A C string is
  the list of its characters without the terminating zero; a pointer into a string is the suffix it points to.
\<close>

section \<open>Characters and numbers\<close>

definition c_isblank :: "char \<Rightarrow> bool" where
  "c_isblank c \<longleftrightarrow> c = CHR '' '' \<or> c = CHR 0x09"

definition c_isspace :: "char \<Rightarrow> bool" where
  "c_isspace c \<longleftrightarrow> c = CHR '' '' \<or> c \<in> {CHR 0x09, CHR 0x0A, CHR 0x0B, CHR 0x0C, CHR 0x0D}"

definition char_code :: "char \<Rightarrow> int" where
  "char_code c = of_char c"

definition digit_val :: "char \<Rightarrow> int option" where
  "digit_val c =
     (let n = char_code c in
      if 48 \<le> n \<and> n \<le> 57 then Some (n - 48)
      else if 97 \<le> n \<and> n \<le> 122 then Some (n - 87)
      else if 65 \<le> n \<and> n \<le> 90 then Some (n - 55)
      else None)"

definition is_digit :: "int \<Rightarrow> char \<Rightarrow> bool" where
  "is_digit base c \<longleftrightarrow> (case digit_val c of Some d \<Rightarrow> d < base | None \<Rightarrow> False)"

fun read_digits :: "int \<Rightarrow> int \<Rightarrow> string \<Rightarrow> int \<times> string" where
  "read_digits base acc [] = (acc, [])"
| "read_digits base acc (c # cs) =
     (if is_digit base c then read_digits base (acc * base + the (digit_val c)) cs else (acc, c # cs))"

definition hex_prefix :: "string \<Rightarrow> bool" where
  "hex_prefix s \<longleftrightarrow> take 2 s = ''0x'' \<or> take 2 s = ''0X''"

text \<open>
  The digits behind white space, a sign and, in base 16, a prefix that a digit follows: sign,
  magnitude and what is left, or \<open>None\<close> when there is no digit.
\<close>

definition scan_number :: "int \<Rightarrow> string \<Rightarrow> (bool \<times> int \<times> string) option" where
  "scan_number base s =
     (let t = dropWhile c_isspace s;
          (neg, t) = (case t of [] \<Rightarrow> (False, t) | c # r \<Rightarrow> if c = CHR ''-'' then (True, r) else if c = CHR ''+'' then (False, r) else (False, t));
          t = (if base = 16 \<and> hex_prefix t \<and> list_ex (is_digit 16) (take 1 (drop 2 t)) then drop 2 t else t)
      in if list_ex (is_digit base) (take 1 t) then Some (neg, read_digits base 0 t) else None)"

text \<open>\<open>strtol\<close>: the value, the end pointer and whether \<open>errno\<close> was set. A \<open>long\<close> has 64 bits.\<close>

definition strtol :: "int \<Rightarrow> string \<Rightarrow> int \<times> string \<times> bool" where
  "strtol base s =
     (case scan_number base s of
        None \<Rightarrow> (0, s, False)
      | Some (neg, n, r) \<Rightarrow>
          let v = (if neg then - n else n) in
          if v < - (2 ^ 63) then (- (2 ^ 63), r, True) else if v \<ge> 2 ^ 63 then (2 ^ 63 - 1, r, True) else (v, r, False))"

definition strtoul :: "int \<Rightarrow> string \<Rightarrow> u64 \<times> string" where
  "strtoul base s =
     (case scan_number base s of
        None \<Rightarrow> (0, s)
      | Some (neg, n, r) \<Rightarrow> (if n \<ge> 2 ^ 64 then - 1 else if neg then - word_of_int n else word_of_int n, r))"

text \<open>All tokens \<open>strtok\<close> gives for one delimiter, which never include an empty one.\<close>

function tokens :: "char \<Rightarrow> string \<Rightarrow> string list" where
  "tokens d s =
     (let t = dropWhile (\<lambda>c. c = d) s in
      if t = [] then [] else takeWhile (\<lambda>c. c \<noteq> d) t # tokens d (dropWhile (\<lambda>c. c \<noteq> d) t))"
  by pat_completeness auto

lemma tokens_shrinks:
  "dropWhile (\<lambda>c. c = d) s \<noteq> [] \<Longrightarrow> length (dropWhile (\<lambda>c. c \<noteq> d) (dropWhile (\<lambda>c. c = d) s)) < length s"
proof -
  assume t: "dropWhile (\<lambda>c. c = d) s \<noteq> []"
  then obtain c r where c: "dropWhile (\<lambda>c. c = d) s = c # r" by (cases "dropWhile (\<lambda>c. c = d) s") auto
  then have "c \<noteq> d" using hd_dropWhile [of "\<lambda>c. c = d" s] t by simp
  then have "length (dropWhile (\<lambda>c. c \<noteq> d) (c # r)) \<le> length r" by (simp add: length_dropWhile_le)
  moreover have "length (c # r) \<le> length s" unfolding c [symmetric] by (rule length_dropWhile_le)
  ultimately show ?thesis unfolding c by simp
qed

termination tokens
  by (relation "measure (length \<circ> snd)") (auto simp: tokens_shrinks)

declare tokens.simps [simp del]

section \<open>Lists of numbers and ranges\<close>

text \<open>
  \<open>separate_str_to_array\<close>. The outer option is undefined behaviour: a write behind the array.
  \<open>i32_of\<close> is the conversion of a \<open>long\<close> to \<open>int32_t\<close>.
\<close>

definition i32_of :: "int \<Rightarrow> int" where
  "i32_of v = sint (word_of_int v :: i32)"

fun put_range :: "nat \<Rightarrow> int \<Rightarrow> u32 list \<Rightarrow> nat \<Rightarrow> (u32 list \<times> nat) option" where
  "put_range 0 i arr count = Some (arr, count)"
| "put_range (Suc n) i arr count =
     (if count < length arr then put_range n (i + 1) (arr[count := word_of_int i]) (count + 1) else None)"

text \<open>
  One round of the loop on \<open>args\<close>: \<open>Inl\<close> is the error return, \<open>Inr\<close> the end pointer with the new
  state. \<open>lo\<close> is the variable \<open>min\<close>, whose value \<open>array_size\<close> means that no range is open.
\<close>

definition separate_step :: "int \<Rightarrow> int \<Rightarrow> string \<Rightarrow> int \<times> u32 list \<times> nat \<Rightarrow> (unit + string \<times> int \<times> u32 list \<times> nat) option" where
  "separate_step array_size max_value args = (\<lambda>(lo, arr, count).
     let args = dropWhile c_isblank args in
     if args = [] then Some (Inl ())
     else let (v, end, err) = (if hex_prefix args then strtol 16 args else strtol 10 args); idx = i32_of v in
       if err then Some (Inl ())
       else if idx < 0 \<or> idx \<ge> max_value then Some (Inl ())
       else let end = dropWhile c_isblank end in
         if take 1 end = ''-'' then Some (Inr (end, idx, arr, count))
         else if take 1 end = '','' \<or> end = [] \<or> take 1 end = [CHR 0x0A] then
           (case put_range (nat (idx + 1 - (if lo = array_size then idx else lo))) (if lo = array_size then idx else lo) arr count of
              None \<Rightarrow> None | Some (arr, count) \<Rightarrow> Some (Inr (end, array_size, arr, count)))
         else Some (Inl ()))"

text \<open>Each round consumes at least the character the end pointer stands on.\<close>

lemma read_digits_shrinks: "length (snd (read_digits b acc s)) \<le> length s"
  by (induction s arbitrary: acc) (auto intro: le_SucI)

lemma scan_number_shrinks: "scan_number b s = Some (neg, n, r) \<Longrightarrow> length r \<le> length s"
proof -
  assume a: "scan_number b s = Some (neg, n, r)"
  let ?t = "dropWhile c_isspace s"
  define t where "t = snd (case ?t of [] \<Rightarrow> (False, ?t) | c # r \<Rightarrow> if c = CHR ''-'' then (True, r) else if c = CHR ''+'' then (False, r) else (False, ?t))"
  have t: "length t \<le> length s" unfolding t_def using length_dropWhile_le [of c_isspace s]
    by (auto split: list.splits)
  have "\<exists>k. r = snd (read_digits b 0 (drop k t))"
    using a by (auto simp: scan_number_def Let_def t_def split: prod.splits if_splits intro: exI [of _ 2] exI [of _ 0])
  then obtain k where "r = snd (read_digits b 0 (drop k t))" by blast
  then show "length r \<le> length s" using read_digits_shrinks [of b 0 "drop k t"] t by simp
qed

lemma strtol_shrinks: "strtol b s = (v, r, e) \<Longrightarrow> length r \<le> length s"
  by (auto simp: strtol_def Let_def dest!: scan_number_shrinks split: option.splits if_splits)

lemma separate_step_shrinks:
  assumes "separate_step n m args s = Some (Inr (end, s'))"
  shows "length end \<le> length args"
proof -
  let ?a = "dropWhile c_isblank args"
  obtain v e err where v: "(if hex_prefix ?a then strtol 16 ?a else strtol 10 ?a) = (v, e, err)" by (rule prod_cases3)
  have "length e \<le> length ?a" using v by (auto dest: strtol_shrinks split: if_splits)
  moreover have "end = dropWhile c_isblank e"
    using assms v by (cases s) (auto simp: separate_step_def Let_def split: if_splits option.splits)
  ultimately show ?thesis using length_dropWhile_le [of c_isblank e] length_dropWhile_le [of c_isblank args] by simp
qed

function separate_loop :: "int \<Rightarrow> int \<Rightarrow> string \<Rightarrow> int \<times> u32 list \<times> nat \<Rightarrow> (int \<times> u32 list) option" where
  "separate_loop array_size max_value args s =
     (case separate_step array_size max_value args s of
        None \<Rightarrow> None
      | Some (Inl _) \<Rightarrow> Some (- 1, fst (snd s))
      | Some (Inr (end, lo, arr, count)) \<Rightarrow>
          if end \<noteq> [] \<and> take 1 end \<noteq> [CHR 0x0A] then separate_loop array_size max_value (drop 1 end) (lo, arr, count)
          else Some (if count = 0 then - 1 else int count, arr))"
  by pat_completeness auto

termination separate_loop
proof (relation "measure (\<lambda>(n, m, args, s). length args)")
  fix n m args s x y p q e lo arr count
  assume "separate_step n m args s = Some x" "x = Inr p" "(e, q) = p" "e \<noteq> [] \<and> take 1 e \<noteq> [CHR 0x0A]"
  then show "((n, m, drop 1 e, lo, arr, count), n, m, args, s) \<in> measure (\<lambda>(n, m, args, s). length args)"
    using separate_step_shrinks [of n m args s e q] by (cases e; cases q) auto
qed auto

declare separate_loop.simps [simp del]

definition separate_str_to_array :: "string \<Rightarrow> nat \<Rightarrow> int \<Rightarrow> (int \<times> u32 list) option" where
  "separate_str_to_array args array_size max_value =
     separate_loop (int array_size) max_value (dropWhile c_isblank args) (int array_size, replicate array_size 0, 0)"

text \<open>\<open>filename_check\<close>: 1 for an error.\<close>

definition sensitive_chars :: string where
  "sensitive_chars = ''|;&$><`'' @ [CHR 0x5C] @ ''!'' @ [CHR 0x0A]"

definition filename_check :: "string option \<Rightarrow> int" where
  "filename_check args =
     (case args of None \<Rightarrow> 1
      | Some s \<Rightarrow> if length s \<le> 0 \<or> length s > 128 - 1 then 1 else if list_ex (\<lambda>c. c \<in> set sensitive_chars) s then 1 else 0)"

text \<open>\<open>check_and_set_run_dir\<close>, given whether the directory exists and what \<open>mkdir\<close> returns.\<close>

definition check_and_set_run_dir :: "bool \<Rightarrow> int \<Rightarrow> int" where
  "check_and_set_run_dir exists mkdir_ret = (if \<not> exists then if mkdir_ret \<noteq> 0 then - 1 else 0 else 0)"

section \<open>What is parsed\<close>

lemma put_range_bounds:
  assumes "put_range k i arr count = Some (arr', count')" and "count \<le> length arr" and "0 \<le> i" and "i + int k \<le> m" and "m \<le> 2 ^ 31"
    and "\<forall>j < count. uint (arr ! j) < m"
  shows "length arr' = length arr \<and> count' = count + k \<and> count' \<le> length arr \<and> (\<forall>j < count'. uint (arr' ! j) < m)"
  using assms
proof (induction k arbitrary: i arr count)
  case (Suc k)
  then have c: "count < length arr" "put_range k (i + 1) (arr[count := word_of_int i]) (count + 1) = Some (arr', count')"
    by (auto split: if_splits)
  have "uint (word_of_int i :: u32) = i" using Suc.prems by (simp add: uint_word_of_int take_bit_int_eq_self)
  then have "\<forall>j < count + 1. uint (arr[count := word_of_int i] ! j) < m"
    using Suc.prems(4,6) c(1) by (auto simp: nth_list_update less_Suc_eq)
  then show ?case using Suc.IH [OF c(2)] Suc.prems c(1) by simp
qed simp

definition loop_ok :: "nat \<Rightarrow> int \<Rightarrow> int \<times> u32 list \<times> nat \<Rightarrow> bool" where
  "loop_ok sz m = (\<lambda>(lo, arr, count). length arr = sz \<and> count \<le> sz \<and> 0 \<le> lo \<and> (\<forall>j < count. uint (arr ! j) < m))"

lemma separate_step_ok:
  assumes "separate_step (int sz) m args (lo, arr, count) = Some (Inr (end, s))" and "loop_ok sz m (lo, arr, count)" and "m \<le> 2 ^ 31"
  shows "loop_ok sz m s"
proof -
  let ?a = "dropWhile c_isblank args"
  obtain v e err where v: "(if hex_prefix ?a then strtol 16 ?a else strtol 10 ?a) = (v, e, err)" by (rule prod_cases3)
  let ?i = "i32_of v" and ?lo = "if lo = int sz then i32_of v else lo"
  have i: "0 \<le> ?i" "?i < m" using assms(1) v by (auto simp: separate_step_def Let_def split: if_splits)
  consider (range_open) "s = (?i, arr, count)"
    | (stored) arr' count' where "put_range (nat (?i + 1 - ?lo)) ?lo arr count = Some (arr', count')" "s = (int sz, arr', count')"
    using assms(1) v by (auto simp: separate_step_def Let_def split: if_splits option.splits)
  then show ?thesis
  proof cases
    case range_open
    then show ?thesis using assms(2) i by (simp add: loop_ok_def)
  next
    case stored
    have lo: "0 \<le> ?lo" using assms(2) i by (simp add: loop_ok_def)
    show ?thesis
    proof (cases "?lo \<le> ?i")
      case True
      then have "?lo + int (nat (?i + 1 - ?lo)) \<le> m" using i by simp
      from put_range_bounds [OF stored(1) _ lo this assms(3)] show ?thesis
        using assms(2) stored(2) by (simp add: loop_ok_def)
    next
      case False
      then have "arr' = arr \<and> count' = count" using stored(1) by simp
      then show ?thesis using assms(2) stored(2) by (simp add: loop_ok_def)
    qed
  qed
qed

lemma separate_loop_ok:
  assumes "separate_loop n m args s = Some (c, arr)" and "n = int sz" and "loop_ok sz m s" and "m \<le> 2 ^ 31"
  shows "length arr = sz \<and> (c = - 1 \<or> 1 \<le> c \<and> c \<le> int sz \<and> (\<forall>j < nat c. uint (arr ! j) < m))"
  using assms
proof (induction n m args s rule: separate_loop.induct)
  case (1 n m args s)
  obtain lo0 arr0 count0 where s: "s = (lo0, arr0, count0)" by (rule prod_cases3)
  show ?case
  proof (cases "separate_step n m args s")
    case None
    then show ?thesis using 1(2) by (subst (asm) separate_loop.simps) simp
  next
    case (Some r)
    show ?thesis
    proof (cases r)
      case (Inl u)
      then have "c = - 1" "arr = arr0" using 1(2) Some s by (simp_all add: separate_loop.simps [of n m args])
      then show ?thesis using 1(4) s by (simp add: loop_ok_def)
    next
      case (Inr v)
      obtain e lo a k where v: "v = (e, lo, a, k)" by (metis prod_cases4)
      have ok: "loop_ok sz m (lo, a, k)"
        using separate_step_ok [of sz m args lo0 arr0 count0 e] Some Inr v 1(3,4,5) s by simp
      show ?thesis
      proof (cases "e \<noteq> [] \<and> take 1 e \<noteq> [CHR 0x0A]")
        case True
        have "separate_loop n m (drop 1 e) (lo, a, k) = Some (c, arr)"
          using 1(2) Some Inr v True by (simp add: separate_loop.simps [of n m args])
        from 1(1) [OF Some Inr v [symmetric] refl refl True this 1(3) ok 1(5)] show ?thesis .
      next
        case False
        then have "c = (if k = 0 then - 1 else int k)" "arr = a"
          using 1(2) Some Inr v by (auto simp: separate_loop.simps [of n m args] split: if_splits)
        then show ?thesis using ok by (auto simp: loop_ok_def)
      qed
    qed
  qed
qed

text \<open>C31: Whatever the string, when the parser of number lists stays inside the array, it returns -1 or the
  number of entries it wrote, at least one and at most the size of the array, and each of them is below the limit.
\<close>

theorem separate_str_to_array_bounds:
  assumes "separate_str_to_array args sz m = Some (c, arr)" and "m \<le> 2 ^ 31"
  shows "length arr = sz \<and> (c = - 1 \<or> 1 \<le> c \<and> c \<le> int sz \<and> (\<forall>j < nat c. uint (arr ! j) < m))"
  by (rule separate_loop_ok [OF assms(1) [unfolded separate_str_to_array_def] refl _ assms(2)]) (simp add: loop_ok_def)

section \<open>Printing and parsing back\<close>

definition digit_char :: "nat \<Rightarrow> char" where "digit_char d = char_of (48 + int d)"

fun show_dec :: "nat \<Rightarrow> string" where
  "show_dec n = (if n < 10 then [digit_char n] else show_dec (n div 10) @ [digit_char (n mod 10)])"

declare show_dec.simps [simp del]

fun show_list :: "nat list \<Rightarrow> string" where
  "show_list [] = []"
| "show_list [n] = show_dec n"
| "show_list (n # ns) = show_dec n @ '','' @ show_list ns"

lemma digit_char_code: "d < 10 \<Longrightarrow> char_code (digit_char d) = 48 + int d"
  by (simp add: char_code_def digit_char_def of_char_of)

lemma digit_char_val: "d < 10 \<Longrightarrow> digit_val (digit_char d) = Some (int d)"
  by (simp add: digit_val_def digit_char_code Let_def)

lemma digit_char_props:
  assumes "d < 10"
  shows "is_digit 10 (digit_char d)" "\<not> c_isspace (digit_char d)" "\<not> c_isblank (digit_char d)"
    "digit_char d \<noteq> CHR ''-''" "digit_char d \<noteq> CHR ''+''" "digit_char d \<noteq> CHR ''x''" "digit_char d \<noteq> CHR ''X''"
proof -
  show "is_digit 10 (digit_char d)" using assms by (simp add: is_digit_def digit_char_val)
  have c: "char_code (digit_char d) \<ge> 48" "char_code (digit_char d) \<le> 57" using assms by (simp_all add: digit_char_code)
  have k: "char_code CHR '' '' = 32" "char_code CHR 0x09 = 9" "char_code CHR 0x0A = 10" "char_code CHR 0x0B = 11" "char_code CHR 0x0C = 12"
    "char_code CHR 0x0D = 13" "char_code CHR ''-'' = 45" "char_code CHR ''+'' = 43" "char_code CHR ''x'' = 120" "char_code CHR ''X'' = 88"
    by (simp_all add: char_code_def)
  show "\<not> c_isspace (digit_char d)" "\<not> c_isblank (digit_char d)"
    "digit_char d \<noteq> CHR ''-''" "digit_char d \<noteq> CHR ''+''" "digit_char d \<noteq> CHR ''x''" "digit_char d \<noteq> CHR ''X''"
    using c k unfolding c_isspace_def c_isblank_def by auto
qed

lemma read_digits_append:
  "list_all (is_digit b) xs \<Longrightarrow> read_digits b acc (xs @ ys) = read_digits b (fold (\<lambda>c a. a * b + the (digit_val c)) xs acc) ys"
  by (induction xs arbitrary: acc) auto

lemma show_dec_digits: "list_all (\<lambda>c. \<exists>d < 10. c = digit_char d) (show_dec n) \<and> show_dec n \<noteq> []"
proof (induction n rule: show_dec.induct)
  case (1 n)
  then show ?case by (cases "n < 10") (auto simp: show_dec.simps [of n] intro: exI [of _ "n mod 10"])
qed

lemma show_dec_value: "fold (\<lambda>c a. a * 10 + the (digit_val c)) (show_dec n) 0 = int n"
proof (induction n rule: show_dec.induct)
  case (1 n)
  then show ?case
    by (cases "n < 10") (simp_all add: show_dec.simps [of n] digit_char_val of_nat_mod of_nat_div)
qed

definition stops :: "string \<Rightarrow> bool" where
  "stops r \<longleftrightarrow> r = [] \<or> (\<exists>t. r = CHR '','' # t)"

lemma strtol_show:
  assumes "stops r" and "int n < 2 ^ 63"
  shows "strtol 10 (show_dec n @ r) = (int n, r, False)" and "\<not> hex_prefix (show_dec n @ r)"
    and "dropWhile c_isblank (show_dec n @ r) = show_dec n @ r" and "show_dec n @ r \<noteq> []"
proof -
  obtain d ds where d: "show_dec n = digit_char d # ds" "d < 10" "list_all (\<lambda>c. \<exists>d < 10. c = digit_char d) ds"
    using show_dec_digits [of n] by (cases "show_dec n") auto
  note P = digit_char_props [OF d(2)]
  have comma: "\<not> is_digit 10 CHR '',''" by (simp add: is_digit_def digit_val_def char_code_def)
  have "list_all (is_digit 10) (show_dec n)" using d digit_char_props(1) by (auto simp: list_all_iff)
  then have "read_digits 10 0 (show_dec n @ r) = read_digits 10 (int n) r" using read_digits_append show_dec_value by simp
  also have "\<dots> = (int n, r)" using assms(1) comma by (auto simp: stops_def)
  finally have "scan_number 10 (show_dec n @ r) = Some (False, int n, r)"
    using P d(1) by (simp add: scan_number_def Let_def)
  then show "strtol 10 (show_dec n @ r) = (int n, r, False)" using assms(2) by (simp add: strtol_def Let_def)
  have "c \<noteq> CHR ''x'' \<and> c \<noteq> CHR ''X''" if "ds = c # cs" for c cs
    using d(3) that digit_char_props(6,7) by auto
  then show "\<not> hex_prefix (show_dec n @ r)"
    using assms(1) d(1) by (cases ds) (auto simp: hex_prefix_def stops_def numeral_2_eq_2)
  show "dropWhile c_isblank (show_dec n @ r) = show_dec n @ r" "show_dec n @ r \<noteq> []" using d(1) P by simp_all
qed

lemma i32_of_small: "0 \<le> v \<Longrightarrow> v < 2 ^ 31 \<Longrightarrow> i32_of v = v"
  by (simp add: i32_of_def signed_of_int signed_take_bit_int_eq_self)

lemma separate_step_show:
  assumes "stops r" and "int n < m" and "m \<le> 2 ^ 31" and "count < length arr"
  shows "separate_step (int sz) m (show_dec n @ r) (int sz, arr, count) =
    Some (Inr (r, int sz, arr[count := word_of_nat n], Suc count))"
proof -
  have n: "int n < 2 ^ 63" "i32_of (int n) = int n" using assms(2,3) by (simp_all add: i32_of_small)
  have r: "dropWhile c_isblank r = r" "take 1 r \<noteq> ''-''" "take 1 r = '','' \<or> r = [] \<or> take 1 r = [CHR 0x0A]"
    using assms(1) by (auto simp: stops_def c_isblank_def)
  have p: "put_range (nat (int n + 1 - int n)) (int n) arr count = Some (arr[count := word_of_nat n], Suc count)"
    using assms(4) by (simp add: nat_add_distrib eval_nat_numeral)
  show ?thesis
    using strtol_show [OF assms(1) n(1)] n(2) assms(2) r p by (simp add: separate_step_def Let_def)
qed

lemma separate_loop_show:
  assumes "ns \<noteq> []" and "\<forall>n \<in> set ns. int n < m" and "m \<le> 2 ^ 31" and "count + length ns \<le> length arr"
  shows "separate_loop (int sz) m (show_list ns) (int sz, arr, count) =
    Some (int (count + length ns), take count arr @ map word_of_nat ns @ drop (count + length ns) arr)"
  using assms
proof (induction ns arbitrary: arr count rule: show_list.induct)
  case (2 n)
  have c: "count < length arr" "int n < m" using 2 by simp_all
  have "separate_step (int sz) m (show_dec n) (int sz, arr, count) = Some (Inr ([], int sz, arr[count := word_of_nat n], Suc count))"
    using separate_step_show [of "[]" n m count arr sz] c 2(3) by (simp add: stops_def)
  then show ?case using c(1) by (subst separate_loop.simps) (simp add: upd_conv_take_nth_drop)
next
  case (3 n n' ns)
  have c: "count < length arr" "int n < m" using 3 by simp_all
  have "separate_step (int sz) m (show_dec n @ CHR '','' # show_list (n' # ns)) (int sz, arr, count) =
      Some (Inr (CHR '','' # show_list (n' # ns), int sz, arr[count := word_of_nat n], Suc count))"
    by (rule separate_step_show) (use c 3(4) in \<open>simp_all add: stops_def\<close>)
  then have "separate_loop (int sz) m (show_list (n # n' # ns)) (int sz, arr, count) =
      separate_loop (int sz) m (show_list (n' # ns)) (int sz, arr[count := word_of_nat n], Suc count)"
    by (subst separate_loop.simps) simp
  also have "\<dots> = Some (int (Suc count + length (n' # ns)), take (Suc count) (arr[count := word_of_nat n]) @
      map word_of_nat (n' # ns) @ drop (Suc count + length (n' # ns)) (arr[count := word_of_nat n]))"
    by (rule 3(1)) (use 3 in simp_all)
  finally show ?case using c(1) by (simp add: take_Suc_conv_app_nth)
qed simp

text \<open>C32: A list of numbers, printed in decimal with commas between them, is parsed back to itself: the
  parser returns their number and has written them to the front of the array, zeros behind, as long as
  they fit into it and are below the limit.
\<close>

theorem separate_str_to_array_round_trip:
  assumes "ns \<noteq> []" and "length ns \<le> sz" and "\<forall>n \<in> set ns. int n < m" and "m \<le> 2 ^ 31"
  shows "separate_str_to_array (show_list ns) sz m = Some (int (length ns), map word_of_nat ns @ replicate (sz - length ns) 0)"
proof -
  obtain n r where "show_list ns = show_dec n @ r" "stops r" "n \<in> set ns"
    using assms(1) by (cases ns rule: show_list.cases) (auto simp: stops_def)
  then have "dropWhile c_isblank (show_list ns) = show_list ns"
    using strtol_show(3) [of r n] assms(3,4) by fastforce
  then show ?thesis
    using separate_loop_show [OF assms(1,3,4), of 0 "replicate sz 0" sz] assms(2) by (simp add: separate_str_to_array_def)
qed

lemma bond_ports_parsed: "separate_str_to_array ''0x1, 0x2'' 2 65535 = Some (2, [1, 2])"
  by code_simp

lemma separate_str_to_array_bounds_witness:
  "separate_str_to_array ''0x1, 0x2'' 2 65535 = Some (2, [1, 2]) \<and> length [1, 2 :: u32] = 2 \<and> uint ([1, 2 :: u32] ! 1) < 65535"
  using separate_str_to_array_bounds [OF bond_ports_parsed] bond_ports_parsed by (auto dest: spec [of _ 1])

lemma separate_str_to_array_round_trip_witness:
  "show_list [7, 12] = ''7,12'' \<and> separate_str_to_array ''7,12'' 4 100 = Some (2, [7, 12, 0, 0])"
proof -
  have "show_list [7, 12] = ''7,12''" by code_simp
  then show ?thesis using separate_str_to_array_round_trip [of "[7, 12]" 4 100] by (simp add: numeral_2_eq_2)
qed

end
