(* ===== verification/Ltran_Param.thy ===== *)
theory Ltran_Param
  imports Ltran_Instance Parse_Config
begin

text \<open>
  ltran's configuration (\<open>src/ltran/ltran_param.c\<close>, \<open>src/ltran/ltran_config.c\<close>): the sixteen
  parsers, their order and the first error that ends them.

  Parameters: what libconfig finds under a key, the memory allocator, \<open>inet_aton\<close>, securec's copying
  functions and \<open>getopt_long\<close>.
\<close>

section \<open>The configuration and the errors\<close>

datatype gerrno =
  Gazelle_success | Gazelle_enomem | Gazelle_eparam | Gazelle_erange | Gazelle_einetaton | Gazelle_emac
| Gazelle_econsist | Gazelle_epath | Gazelle_enetaddr | Gazelle_ehostaddr

record ltran_config =
  dpdk_argv :: "string list option"
  dpdk_argc :: nat
  kni_switch :: i32
  cfg_clients :: u8
  cfg_subnet_addr :: u32
  cfg_net_mask :: u32
  cfg_subnet_size :: i32
  cfg_subnet_length :: i32
  miimon :: i32
  bond_mode :: i32
  mtu :: i32
  portmask :: "u32 list"
  port_num :: u32
  mac_num :: u32
  rx_queue_num :: u32
  tx_queue_num :: u32
  bond_macs :: "nat \<Rightarrow> nat \<Rightarrow> u8"
  tcp_conn_scan_interval :: u64
  unix_socket_filename :: string
  dfx_socket_filename :: string
  rx_mbuf_pool_size :: u32
  tx_mbuf_pool_size :: u32

definition zero_config :: ltran_config where
  "zero_config = \<lparr>dpdk_argv = None, dpdk_argc = 0, kni_switch = 0, cfg_clients = 0, cfg_subnet_addr = 0, cfg_net_mask = 0,
     cfg_subnet_size = 0, cfg_subnet_length = 0, miimon = 0, bond_mode = 0, mtu = 0, portmask = [0, 0], port_num = 0, mac_num = 0,
     rx_queue_num = 0, tx_queue_num = 0, bond_macs = (\<lambda>_ _. 0), tcp_conn_scan_interval = 0, unix_socket_filename = [],
     dfx_socket_filename = [], rx_mbuf_pool_size = 0, tx_mbuf_pool_size = 0\<rparr>"

text \<open>
  What the parsers take from elsewhere. \<open>strncat\<close> is securec's concatenation with its size limit,
  \<open>None\<close> for any return but \<open>EOK\<close>.
\<close>

record cfg_env =
  lookup_string :: "string \<Rightarrow> string option"
  lookup_int :: "string \<Rightarrow> i32 option"
  calloc_ok :: bool
  strdup_ok :: "string \<Rightarrow> bool"
  aton :: "string \<Rightarrow> u32 option"
  strncat :: "nat \<Rightarrow> string \<Rightarrow> string \<Rightarrow> string option"

text \<open>
  A parser's result: \<open>GAZELLE_OK\<close> or not, the thread's error number, and the configuration. The
  outer option of a parser is undefined behaviour.
\<close>

type_synonym parse_result = "bool \<times> gerrno \<times> ltran_config"

definition parse_ok :: "ltran_config \<Rightarrow> parse_result" where "parse_ok c = (True, Gazelle_success, c)"
definition parse_err :: "gerrno \<Rightarrow> ltran_config \<Rightarrow> parse_result" where "parse_err e c = (False, e, c)"

section \<open>The parsers\<close>

definition gazelle_max_dpdk_args_num :: nat where "gazelle_max_dpdk_args_num = 32"

text \<open>\<open>parse_str2mac\<close>: the tokens in order, with the bytes stored so far.\<close>

fun str2mac_tokens :: "string list \<Rightarrow> nat \<Rightarrow> (nat \<Rightarrow> u8) \<Rightarrow> gerrno option \<times> nat \<times> (nat \<Rightarrow> u8)" where
  "str2mac_tokens [] i mac = (None, i, mac)"
| "str2mac_tokens (t # ts) i mac =
     (let (one_byte, end) = strtoul 16 t in
      if end \<noteq> [] then (Some Gazelle_emac, i, mac)
      else if one_byte > 255 then (Some Gazelle_erange, i, mac)
      else if i \<ge> 6 then (Some Gazelle_eparam, i, mac)
      else str2mac_tokens ts (i + 1) (mac(i := ucast one_byte)))"

definition parse_str2mac :: "string \<Rightarrow> (nat \<Rightarrow> u8) \<Rightarrow> gerrno option \<times> (nat \<Rightarrow> u8)" where
  "parse_str2mac mac_str ether_addr =
     (let (e, i, mac) = str2mac_tokens (tokens (CHR '':'') mac_str) 0 ether_addr in
      case e of Some e \<Rightarrow> (Some e, mac) | None \<Rightarrow> (if i \<noteq> 6 then (Some Gazelle_emac, mac) else (None, mac)))"

definition param_resource_destroy :: "ltran_config \<Rightarrow> ltran_config" where
  "param_resource_destroy c = c\<lparr>dpdk_argv := None\<rparr>"

fun kit_args :: "cfg_env \<Rightarrow> string list \<Rightarrow> string list \<Rightarrow> gerrno \<times> string list" where
  "kit_args E [] argv = (Gazelle_success, argv)"
| "kit_args E (t # ts) argv =
     (if length argv = gazelle_max_dpdk_args_num then (Gazelle_erange, argv)
      else if \<not> strdup_ok E t then (Gazelle_enomem, argv)
      else kit_args E ts (argv @ [t]))"

definition parse_forward_kit_args_single :: "cfg_env \<Rightarrow> string \<Rightarrow> ltran_config \<Rightarrow> parse_result" where
  "parse_forward_kit_args_single E dpdk_str c =
     (let c = c\<lparr>dpdk_argc := 0\<rparr> in
      if \<not> calloc_ok E then parse_err Gazelle_enomem (c\<lparr>dpdk_argv := None\<rparr>)
      else if \<not> strdup_ok E ''ltran'' then parse_err Gazelle_enomem (c\<lparr>dpdk_argv := Some []\<rparr>)
      else let (e, argv) = kit_args E (tokens (CHR '' '') dpdk_str) [''ltran''];
               c = c\<lparr>dpdk_argv := Some argv, dpdk_argc := length argv\<rparr>
           in if e \<noteq> Gazelle_success then parse_err e c else parse_ok c)"

definition parse_forward_kit_args :: "cfg_env \<Rightarrow> string \<Rightarrow> ltran_config \<Rightarrow> parse_result" where
  "parse_forward_kit_args E key c =
     (case lookup_string E key of
        None \<Rightarrow> parse_err Gazelle_eparam c
      | Some s \<Rightarrow> if \<not> strdup_ok E s then parse_err Gazelle_enomem c else parse_forward_kit_args_single E s c)"

definition parse_dispatch_subnet :: "cfg_env \<Rightarrow> string \<Rightarrow> ltran_config \<Rightarrow> parse_result" where
  "parse_dispatch_subnet E key c =
     (case lookup_string E key of
        None \<Rightarrow> parse_err Gazelle_eparam c
      | Some s \<Rightarrow> (case aton E s of
          None \<Rightarrow> parse_err Gazelle_einetaton c
        | Some a \<Rightarrow> parse_ok (c\<lparr>cfg_subnet_addr := ntohl a\<rparr>)))"

definition parse_dispatch_subnet_length :: "cfg_env \<Rightarrow> string \<Rightarrow> ltran_config \<Rightarrow> parse_result" where
  "parse_dispatch_subnet_length E key c =
     (case lookup_int E key of
        None \<Rightarrow> parse_err Gazelle_eparam c
      | Some len \<Rightarrow>
          if sint len < 1 \<or> sint len > 16 then parse_err Gazelle_erange c
          else let sz = push_bit (unat len) 1;
                   c = c\<lparr>cfg_subnet_size := sz, cfg_subnet_length := len, cfg_net_mask := sz - 1\<rparr>
            in if cfg_subnet_addr c AND NOT (cfg_net_mask c) = 0 then parse_err Gazelle_enetaddr c
               else if cfg_subnet_addr c AND cfg_net_mask c \<noteq> 0 then parse_err Gazelle_ehostaddr c
               else parse_ok c)"

definition parse_dispatch_max_client :: "cfg_env \<Rightarrow> string \<Rightarrow> ltran_config \<Rightarrow> parse_result" where
  "parse_dispatch_max_client E key c =
     (case lookup_int E key of
        None \<Rightarrow> parse_err Gazelle_eparam c
      | Some n \<Rightarrow> if sint n < 1 \<or> sint n > 32 then parse_err Gazelle_erange c else parse_ok (c\<lparr>cfg_clients := ucast n\<rparr>))"

definition parse_bond_mode :: "cfg_env \<Rightarrow> string \<Rightarrow> ltran_config \<Rightarrow> parse_result" where
  "parse_bond_mode E key c =
     (case lookup_int E key of
        None \<Rightarrow> parse_err Gazelle_eparam c
      | Some n \<Rightarrow> if sint n < 1 \<or> sint n > 1 then parse_err Gazelle_erange c else parse_ok (c\<lparr>bond_mode := n\<rparr>))"

definition parse_bond_miimon :: "cfg_env \<Rightarrow> string \<Rightarrow> ltran_config \<Rightarrow> parse_result" where
  "parse_bond_miimon E key c =
     (case lookup_int E key of
        None \<Rightarrow> parse_err Gazelle_eparam c
      | Some n \<Rightarrow> if sint n \<le> 0 then parse_err Gazelle_erange c else parse_ok (c\<lparr>miimon := n\<rparr>))"

definition parse_bond_mtu :: "cfg_env \<Rightarrow> string \<Rightarrow> ltran_config \<Rightarrow> parse_result" where
  "parse_bond_mtu E key c =
     (case lookup_int E key of
        None \<Rightarrow> parse_err Gazelle_eparam c
      | Some n \<Rightarrow> if sint n < 68 \<or> sint n > 1500 then parse_err Gazelle_erange c else parse_ok (c\<lparr>mtu := n\<rparr>))"

definition is_bond_port_prefix_valid :: "string \<Rightarrow> bool" where
  "is_bond_port_prefix_valid port_str =
     (if length port_str < 2 then False else list_all (\<lambda>i. port_str ! i = ''0x'' ! i) [0..<2])"

definition gazelle_max_bond_num :: nat where "gazelle_max_bond_num = 2"

text \<open>The count of the number parser is an \<open>int32_t\<close> kept in an unsigned field: -1 becomes the largest value.\<close>

definition parse_bond_ports :: "cfg_env \<Rightarrow> string \<Rightarrow> ltran_config \<Rightarrow> parse_result option" where
  "parse_bond_ports E key c =
     (case lookup_string E key of
        None \<Rightarrow> Some (parse_err Gazelle_eparam c)
      | Some s \<Rightarrow>
          if \<not> strdup_ok E s then Some (parse_err Gazelle_enomem c)
          else if \<not> is_bond_port_prefix_valid s then Some (parse_err Gazelle_eparam c)
          else (case separate_str_to_array s gazelle_max_bond_num 65535 of
              None \<Rightarrow> None
            | Some (count, arr) \<Rightarrow>
                let c = c\<lparr>portmask := arr, port_num := word_of_int count\<rparr> in
                if port_num c > word_of_nat gazelle_max_bond_num then Some (parse_err Gazelle_erange c)
                else if list_ex (\<lambda>p. p < 1 \<or> p > 255) (take (unat (port_num c)) arr) then Some (parse_err Gazelle_erange c)
                else Some (parse_ok c)))"

definition parse_bond_tx_queue_num :: "cfg_env \<Rightarrow> string \<Rightarrow> ltran_config \<Rightarrow> parse_result" where
  "parse_bond_tx_queue_num E key c =
     (let n = (1 :: i32) in if sint n < 1 \<or> sint n > 64 then parse_err Gazelle_erange c else parse_ok (c\<lparr>tx_queue_num := n\<rparr>))"

definition parse_bond_rx_queue_num :: "cfg_env \<Rightarrow> string \<Rightarrow> ltran_config \<Rightarrow> parse_result" where
  "parse_bond_rx_queue_num E key c =
     (let n = (1 :: i32) in if sint n < 1 \<or> sint n > 64 then parse_err Gazelle_erange c else parse_ok (c\<lparr>rx_queue_num := n\<rparr>))"

definition check_bond_dup_mac :: "ltran_config \<Rightarrow> parse_result" where
  "check_bond_dup_mac c =
     (if list_ex (\<lambda>i. list_ex (\<lambda>j. is_same_mac_addr (bond_macs c i) (bond_macs c j)) [i + 1..<unat (mac_num c)]) [0..<unat (mac_num c)]
      then parse_err Gazelle_emac c else parse_ok c)"

text \<open>
  \<open>parse_bond_macs_separate\<close>: the cached copies and the error number. The caller goes on with
  the copies made; the error shows at its end. \<open>macs_cache_free\<close> releases the cache, which is local here.
\<close>

fun separate_macs :: "cfg_env \<Rightarrow> string list \<Rightarrow> string list \<Rightarrow> string list \<times> gerrno" where
  "separate_macs E [] cache = (cache, Gazelle_success)"
| "separate_macs E (t # ts) cache =
     (if length cache = gazelle_max_bond_num then (cache, Gazelle_erange)
      else if \<not> strdup_ok E t then (cache, Gazelle_enomem)
      else separate_macs E ts (cache @ [t]))"

definition parse_bond_macs_separate :: "cfg_env \<Rightarrow> string \<Rightarrow> string list \<times> gerrno" where
  "parse_bond_macs_separate E s =
     (if \<not> strdup_ok E s then ([], Gazelle_enomem) else separate_macs E (tokens (CHR '','') s) [])"

fun store_macs :: "string list \<Rightarrow> gerrno \<times> ltran_config \<Rightarrow> gerrno \<times> ltran_config" where
  "store_macs [] s = s"
| "store_macs (t # ts) (e, c) =
     (let (r, mac) = parse_str2mac t (bond_macs c (unat (mac_num c)));
          c = c\<lparr>bond_macs := (bond_macs c)(unat (mac_num c) := mac)\<rparr>
      in case r of Some e \<Rightarrow> (e, c) | None \<Rightarrow> store_macs ts (e, c\<lparr>mac_num := mac_num c + 1\<rparr>))"

definition parse_bond_macs :: "cfg_env \<Rightarrow> string \<Rightarrow> ltran_config \<Rightarrow> parse_result" where
  "parse_bond_macs E key c =
     (case lookup_string E key of
        None \<Rightarrow> parse_err Gazelle_eparam c
      | Some s \<Rightarrow>
          let (cache, e) = parse_bond_macs_separate E s;
              (e, c) = store_macs cache (e, c);
              e = (if port_num c \<noteq> mac_num c then Gazelle_econsist else e)
          in if e \<noteq> Gazelle_success then parse_err e c else check_bond_dup_mac c)"

definition parse_kni_switch :: "cfg_env \<Rightarrow> string \<Rightarrow> ltran_config \<Rightarrow> parse_result" where
  "parse_kni_switch E key c =
     (case lookup_int E key of
        None \<Rightarrow> parse_ok (c\<lparr>kni_switch := 0\<rparr>)
      | Some n \<Rightarrow> if n \<noteq> 1 \<and> n \<noteq> 0 then parse_err Gazelle_erange c else parse_ok (c\<lparr>kni_switch := n\<rparr>))"

definition parse_tcp_conn_scan_interval :: "cfg_env \<Rightarrow> string \<Rightarrow> ltran_config \<Rightarrow> parse_result" where
  "parse_tcp_conn_scan_interval E key c =
     (case lookup_int E key of
        None \<Rightarrow> parse_ok (c\<lparr>tcp_conn_scan_interval := 600 * 1000000\<rparr>)
      | Some n \<Rightarrow> if sint n < 0 \<or> sint n > 86400 then parse_err Gazelle_erange c
          else parse_ok (c\<lparr>tcp_conn_scan_interval := scast n * 1000000\<rparr>))"

definition gazelle_run_dir :: string where "gazelle_run_dir = ''/var/run/gazelle/''"
definition gazelle_reg_sock_filename :: string where "gazelle_reg_sock_filename = ''gazelle_client.sock''"
definition gazelle_dfx_sock_filename :: string where "gazelle_dfx_sock_filename = ''gazelle_cmd.sock''"

text \<open>
  The two names are built side by side; the prefix of the configuration goes between directory and
  file. A failing call of securec ends the parser; what it leaves in its target is not modelled.
\<close>

definition parse_unix_prefix :: "cfg_env \<Rightarrow> string \<Rightarrow> ltran_config \<Rightarrow> parse_result" where
  "parse_unix_prefix E key c =
     (let err = parse_err Gazelle_einetaton;
          unix_cat = (\<lambda>x c k. case strncat E 255 (unix_socket_filename c) x of
             None \<Rightarrow> err c | Some u \<Rightarrow> k (c\<lparr>unix_socket_filename := u\<rparr>));
          dfx_cat = (\<lambda>x c k. case strncat E 255 (dfx_socket_filename c) x of
             None \<Rightarrow> err c | Some d \<Rightarrow> k (c\<lparr>dfx_socket_filename := d\<rparr>));
          files = (\<lambda>c. unix_cat gazelle_reg_sock_filename c (\<lambda>c. dfx_cat gazelle_dfx_sock_filename c parse_ok));
          c = c\<lparr>unix_socket_filename := [], dfx_socket_filename := []\<rparr>
      in unix_cat gazelle_run_dir c (\<lambda>c. dfx_cat gazelle_run_dir c (\<lambda>c.
           case lookup_string E key of
             None \<Rightarrow> files c
           | Some p \<Rightarrow> if filename_check (Some p) \<noteq> 0 then err c else unix_cat p c (\<lambda>c. dfx_cat p c files))))"

definition parse_rx_mbuf_pool_size :: "cfg_env \<Rightarrow> string \<Rightarrow> ltran_config \<Rightarrow> parse_result" where
  "parse_rx_mbuf_pool_size E key c =
     (case lookup_int E key of None \<Rightarrow> parse_ok (c\<lparr>rx_mbuf_pool_size := 300 * 1024\<rparr>)
      | Some n \<Rightarrow> parse_ok (c\<lparr>rx_mbuf_pool_size := n\<rparr>))"

definition parse_tx_mbuf_pool_size :: "cfg_env \<Rightarrow> string \<Rightarrow> ltran_config \<Rightarrow> parse_result" where
  "parse_tx_mbuf_pool_size E key c =
     (case lookup_int E key of None \<Rightarrow> parse_ok (c\<lparr>tx_mbuf_pool_size := 30 * 1024\<rparr>)
      | Some n \<Rightarrow> parse_ok (c\<lparr>tx_mbuf_pool_size := n\<rparr>))"

section \<open>The whole file\<close>

text \<open>The parsers that cannot run out of bounds have the same type as the one that can.\<close>

definition total :: "(cfg_env \<Rightarrow> string \<Rightarrow> ltran_config \<Rightarrow> parse_result) \<Rightarrow> cfg_env \<Rightarrow> string \<Rightarrow> ltran_config \<Rightarrow> parse_result option" where
  "total f E key c = Some (f E key c)"

definition g_param_parse_tbl :: "(string \<times> (cfg_env \<Rightarrow> string \<Rightarrow> ltran_config \<Rightarrow> parse_result option)) list" where
  "g_param_parse_tbl =
    [(''forward_kit_args'', total parse_forward_kit_args),
     (''dispatch_max_clients'', total parse_dispatch_max_client),
     (''dispatch_subnet'', total parse_dispatch_subnet),
     (''dispatch_subnet_length'', total parse_dispatch_subnet_length),
     (''bond_miimon'', total parse_bond_miimon),
     (''bond_mode'', total parse_bond_mode),
     (''bond_ports'', parse_bond_ports),
     (''bond_mtu'', total parse_bond_mtu),
     (''bond_macs'', total parse_bond_macs),
     (''bond_rx_queue_num'', total parse_bond_rx_queue_num),
     (''bond_tx_queue_num'', total parse_bond_tx_queue_num),
     (''tcp_conn_scan_interval'', total parse_tcp_conn_scan_interval),
     (''kni_switch'', total parse_kni_switch),
     (''unix_prefix'', total parse_unix_prefix),
     (''rx_mbuf_pool_size'', total parse_rx_mbuf_pool_size),
     (''tx_mbuf_pool_size'', total parse_tx_mbuf_pool_size)]"

fun run_parsers :: "cfg_env \<Rightarrow> (string \<times> (cfg_env \<Rightarrow> string \<Rightarrow> ltran_config \<Rightarrow> parse_result option)) list \<Rightarrow> ltran_config \<Rightarrow>
  parse_result option" where
  "run_parsers E [] c = Some (parse_ok c)"
| "run_parsers E ((key, f) # ps) c =
     (case f E key c of None \<Rightarrow> None | Some (ok, e, c) \<Rightarrow> if ok then run_parsers E ps c else Some (False, e, c))"

definition parse_config_file_args :: "cfg_env \<Rightarrow> bool \<Rightarrow> ltran_config \<Rightarrow> parse_result option" where
  "parse_config_file_args E read_ok c =
     (if \<not> read_ok then Some (parse_err Gazelle_epath zero_config) else run_parsers E g_param_parse_tbl zero_config)"

section \<open>The command line\<close>

datatype cmd_result = Cmd_ok | Cmd_quit | Cmd_err

text \<open>
  \<open>opts\<close> is what successive calls of \<open>getopt_long\<close> give, with their argument; \<open>copy\<close> is
  \<open>strncpy_s\<close> into the path. The loop returns in its first round.
\<close>

definition parse_cmd_args :: "int \<Rightarrow> (char \<times> string option) list \<Rightarrow> (string \<Rightarrow> string option) \<Rightarrow> string \<Rightarrow> cmd_result \<times> string" where
  "parse_cmd_args argc opts copy config_file =
     (if argc = 1 then (Cmd_ok, config_file)
      else (case opts of
          [] \<Rightarrow> (Cmd_err, config_file)
        | (opt, arg) # _ \<Rightarrow>
            if opt = CHR ''h'' then (Cmd_quit, config_file)
            else if opt = CHR ''v'' then (Cmd_quit, config_file)
            else if opt = CHR ''c'' then
              (case arg of None \<Rightarrow> (Cmd_quit, config_file)
               | Some a \<Rightarrow> if a = [] then (Cmd_quit, config_file)
                   else (Cmd_ok, case copy a of None \<Rightarrow> config_file | Some p \<Rightarrow> p))
            else (Cmd_quit, config_file)))"

definition ltran_config_init :: "(string \<Rightarrow> (cfg_env \<times> bool)) \<Rightarrow> int \<Rightarrow> (char \<times> string option) list \<Rightarrow> (string \<Rightarrow> string option) \<Rightarrow>
  ltran_config \<Rightarrow> (cmd_result \<times> ltran_config) option" where
  "ltran_config_init file argc opts copy c =
     (let (ret, path) = parse_cmd_args argc opts copy ''/etc/gazelle/ltran.conf'' in
      if ret = Cmd_err then Some (Cmd_err, c)
      else if ret = Cmd_quit then Some (Cmd_quit, c)
      else let (E, read_ok) = file path in
        (case parse_config_file_args E read_ok c of
           None \<Rightarrow> None | Some (ok, e, c) \<Rightarrow> Some (if ok then Cmd_ok else Cmd_err, c)))"

section \<open>What each parser accepts\<close>

lemma parse_results [simp]:
  "parse_ok c = (True, e, d) \<longleftrightarrow> e = Gazelle_success \<and> d = c" "parse_err e' c \<noteq> (True, e, d)"
  by (auto simp: parse_ok_def parse_err_def)

lemma kit_args_length: "kit_args E ts argv = (e, r) \<Longrightarrow> length argv \<le> 32 \<Longrightarrow> length argv \<le> length r \<and> length r \<le> 32"
  by (induction ts arbitrary: argv) (fastforce simp: gazelle_max_dpdk_args_num_def split: if_splits)+

lemma accept_kit:
  "parse_forward_kit_args E key c = (True, e, d) \<Longrightarrow>
     \<exists>argv. d = c\<lparr>dpdk_argv := Some argv, dpdk_argc := length argv\<rparr> \<and> 1 \<le> length argv \<and> length argv \<le> 32"
  by (auto simp: parse_forward_kit_args_def parse_forward_kit_args_single_def Let_def
      dest!: kit_args_length split: option.splits if_splits prod.splits)

lemma accept_subnet: "parse_dispatch_subnet E key c = (True, e, d) \<Longrightarrow> \<exists>a. d = c\<lparr>cfg_subnet_addr := a\<rparr>"
  by (auto simp: parse_dispatch_subnet_def split: option.splits)

lemma unat_of_sint: "0 \<le> sint (n :: i32) \<Longrightarrow> int (unat n) = sint n"
proof -
  assume a: "0 \<le> sint n"
  have m: "sint n = (uint n + 2147483648) mod 4294967296 - 2147483648"
    by (simp add: sint_uint signed_take_bit_eq_take_bit_shift take_bit_eq_mod)
  moreover have r: "0 \<le> uint n" "uint n < 4294967296" using uint_lt2p [of n] by auto
  ultimately show ?thesis using a
  proof (cases "uint n < 2147483648")
    case True
    then have "(uint n + 2147483648) mod 4294967296 = uint n + 2147483648" using r by (intro mod_pos_pos_trivial) simp_all
    then show ?thesis using m by simp
  next
    case False
    then have "(uint n + 2147483648) mod 4294967296 = (uint n - 2147483648 + 4294967296) mod 4294967296" by (simp add: algebra_simps)
    also have "\<dots> = (uint n - 2147483648) mod 4294967296" by (rule mod_add_self2)
    also have "\<dots> = uint n - 2147483648" using False r by (intro mod_pos_pos_trivial) simp_all
    finally show ?thesis using m a r by linarith
  qed
qed

lemma accept_subnet_length:
  assumes "parse_dispatch_subnet_length E key c = (True, e, d)"
  shows "\<exists>n. 1 \<le> n \<and> n \<le> 16 \<and> d = c\<lparr>cfg_subnet_size := 2 ^ n, cfg_subnet_length := word_of_nat n, cfg_net_mask := 2 ^ n - 1\<rparr> \<and>
    cfg_subnet_addr c AND (2 ^ n - 1) = 0 \<and> cfg_subnet_addr c AND NOT (2 ^ n - 1) \<noteq> 0"
proof -
  obtain len where len: "lookup_int E key = Some len" "1 \<le> sint len" "sint len \<le> 16"
    using assms by (auto simp: parse_dispatch_subnet_length_def not_less split: option.splits if_splits)
  have "int (unat len) = sint len"
    using unat_of_sint [of len] len(2) by linarith
  then have n: "1 \<le> unat len" "unat len \<le> 16" using len by linarith+
  have "push_bit (unat len) (1 :: u32) = 2 ^ unat len" by (simp add: push_bit_eq_mult)
  then show ?thesis using assms len n
    by (intro exI [of _ "unat len"]) (auto simp: parse_dispatch_subnet_length_def Let_def split: if_splits)
qed

lemma small_ucast: "1 \<le> sint (n :: i32) \<Longrightarrow> sint n \<le> 32 \<Longrightarrow> 1 \<le> unat (ucast n :: u8) \<and> unat (ucast n :: u8) \<le> 32"
proof -
  assume a: "1 \<le> sint n" "sint n \<le> 32"
  have "int (unat n) = sint n" using a(1) unat_of_sint [of n] by linarith
  then have "1 \<le> unat n" "unat n \<le> 32" using a by linarith+
  moreover have "unat (ucast n :: u8) = unat n" using calculation by (simp add: unsigned_ucast_eq take_bit_nat_eq_self)
  ultimately show ?thesis by simp
qed

lemma accept_clients:
  "parse_dispatch_max_client E key c = (True, e, d) \<Longrightarrow> \<exists>n. d = c\<lparr>cfg_clients := n\<rparr> \<and> 1 \<le> unat n \<and> unat n \<le> 32"
  using small_ucast by (auto simp: parse_dispatch_max_client_def not_less split: option.splits if_splits)

lemma accept_mode: "parse_bond_mode E key c = (True, e, d) \<Longrightarrow> \<exists>n. d = c\<lparr>bond_mode := n\<rparr> \<and> sint n = 1"
  by (auto simp: parse_bond_mode_def split: option.splits if_splits)

lemma accept_miimon: "parse_bond_miimon E key c = (True, e, d) \<Longrightarrow> \<exists>n. d = c\<lparr>miimon := n\<rparr> \<and> 0 < sint n"
  by (auto simp: parse_bond_miimon_def split: option.splits if_splits)

lemma accept_mtu: "parse_bond_mtu E key c = (True, e, d) \<Longrightarrow> \<exists>n. d = c\<lparr>mtu := n\<rparr> \<and> 68 \<le> sint n \<and> sint n \<le> 1500"
  by (auto simp: parse_bond_mtu_def split: option.splits if_splits)

lemma ports_all_ones: "\<not> (word_of_int (- 1) :: u32) \<le> 2"
  by code_simp

lemma accept_ports:
  assumes "parse_bond_ports E key c = Some (True, e, d)"
  shows "\<exists>arr n. d = c\<lparr>portmask := arr, port_num := n\<rparr> \<and> length arr = 2 \<and> 1 \<le> unat n \<and> unat n \<le> 2 \<and>
    (\<forall>i < unat n. 1 \<le> arr ! i \<and> arr ! i \<le> 255)"
proof -
  obtain s count arr where s: "separate_str_to_array s gazelle_max_bond_num 65535 = Some (count, arr)"
    "d = c\<lparr>portmask := arr, port_num := word_of_int count\<rparr>" "(word_of_int count :: u32) \<le> 2"
    "\<not> list_ex (\<lambda>p. p < 1 \<or> p > 255) (take (unat (word_of_int count :: u32)) arr)"
    using assms by (auto simp: parse_bond_ports_def Let_def gazelle_max_bond_num_def not_less split: option.splits if_splits prod.splits)
  have b: "length arr = 2" "count = - 1 \<or> 1 \<le> count \<and> count \<le> 2"
    using separate_loop_ok [OF s(1) [unfolded separate_str_to_array_def] refl]
    by (auto simp: loop_ok_def gazelle_max_bond_num_def)
  have "count \<noteq> - 1" using s(3) by (metis ports_all_ones)
  then have n: "unat (word_of_int count :: u32) = nat count" "1 \<le> nat count" "nat count \<le> 2"
    using b(2) by (auto simp: unsigned_of_int take_bit_int_eq_self)
  have "1 \<le> arr ! i \<and> arr ! i \<le> 255" if "i < nat count" for i
  proof -
    have "take (nat count) arr ! i = arr ! i" "i < length (take (nat count) arr)" using that n(3) b(1) by simp_all
    then have "arr ! i \<in> set (take (nat count) arr)" using nth_mem by metis
    then have "1 \<le> arr ! i" "arr ! i \<le> 255" using s(4) n(1) unfolding list_ex_iff not_less [symmetric] by metis+
    then show ?thesis ..
  qed
  then show ?thesis using s(2) b(1) n by (intro exI [of _ arr] exI [of _ "word_of_int count"]) simp
qed

lemma store_macs_frame:
  "store_macs ts (e, c) = (e', d) \<Longrightarrow> d = c\<lparr>bond_macs := bond_macs d, mac_num := mac_num d\<rparr>"
  by (induction ts arbitrary: e c) (fastforce simp: Let_def split: prod.splits option.splits)+

lemma accept_macs:
  assumes "parse_bond_macs E key c = (True, e, d)"
  shows "\<exists>ms. d = c\<lparr>bond_macs := ms, mac_num := port_num c\<rparr> \<and>
    (\<forall>i j. i < j \<longrightarrow> j < unat (port_num c) \<longrightarrow> \<not> is_same_mac_addr (ms i) (ms j))"
proof -
  obtain s where s: "lookup_string E key = Some s" using assms by (auto simp: parse_bond_macs_def split: option.splits)
  obtain cache e0 e1 c1 where m: "parse_bond_macs_separate E s = (cache, e0)" "store_macs cache (e0, c) = (e1, c1)"
    by (metis surj_pair)
  have r: "(if (if port_num c1 \<noteq> mac_num c1 then Gazelle_econsist else e1) \<noteq> Gazelle_success
      then parse_err (if port_num c1 \<noteq> mac_num c1 then Gazelle_econsist else e1) c1 else check_bond_dup_mac c1) = (True, e, d)"
    using assms by (simp only: parse_bond_macs_def Let_def s m option.case prod.case)
  have r: "store_macs cache (e0, c) = (e1, c1)" "port_num c1 = mac_num c1" "check_bond_dup_mac c1 = (True, e, d)"
    using r m by (simp_all split: if_splits)
  have f: "c1 = c\<lparr>bond_macs := bond_macs c1, mac_num := mac_num c1\<rparr>" using store_macs_frame [OF r(1)] .
  have p: "port_num c1 = port_num c" by (subst f) simp
  have d: "d = c1" and uniq: "\<not> list_ex (\<lambda>i. list_ex (\<lambda>j. is_same_mac_addr (bond_macs c1 i) (bond_macs c1 j)) [i + 1..<unat (mac_num c1)])
      [0..<unat (mac_num c1)]"
    using r(3) by (auto simp: check_bond_dup_mac_def split: if_splits)
  have "\<not> is_same_mac_addr (bond_macs c1 i) (bond_macs c1 j)" if "i < j" "j < unat (port_num c)" for i j
    using uniq that r(2) p by (auto simp: list_ex_iff)
  moreover have "d = c\<lparr>bond_macs := bond_macs c1, mac_num := port_num c\<rparr>"
    unfolding d p [symmetric] r(2) by (rule f)
  ultimately show ?thesis by blast
qed

lemma accept_kni: "parse_kni_switch E key c = (True, e, d) \<Longrightarrow> \<exists>n. d = c\<lparr>kni_switch := n\<rparr> \<and> (n = 0 \<or> n = 1)"
  by (auto simp: parse_kni_switch_def split: option.splits if_splits)

lemma interval_fits:
  assumes "0 \<le> sint (n :: i32)" "sint n \<le> 86400"
  shows "unat (scast n * 1000000 :: u64) \<le> 86400 * 1000000"
proof -
  have "uint (word_of_int (sint n) :: u64) = sint n" unfolding uint_word_of_int take_bit_eq_mod [symmetric]
    by (rule take_bit_int_eq_self) (use assms in simp_all)
  then have "uint (scast n :: u64) = sint n" by simp
  then have "unat (scast n :: u64) \<le> 86400" using assms by (simp add: unat_eq_nat_uint)
  then have "unat (scast n :: u64) * 1000000 < 2 ^ 64" by simp
  then have "unat (scast n * 1000000 :: u64) = unat (scast n :: u64) * 1000000" by (simp add: unat_word_ariths(2))
  then show ?thesis using \<open>unat (scast n :: u64) \<le> 86400\<close> by simp
qed

lemma accept_interval:
  "parse_tcp_conn_scan_interval E key c = (True, e, d) \<Longrightarrow> \<exists>n. d = c\<lparr>tcp_conn_scan_interval := n\<rparr> \<and> unat n \<le> 86400 * 1000000"
proof (cases "lookup_int E key")
  case None
  assume "parse_tcp_conn_scan_interval E key c = (True, e, d)"
  then show ?thesis using None by (intro exI [of _ "600 * 1000000"]) (simp add: parse_tcp_conn_scan_interval_def)
next
  case (Some n)
  assume "parse_tcp_conn_scan_interval E key c = (True, e, d)"
  then have "d = c\<lparr>tcp_conn_scan_interval := scast n * 1000000\<rparr>" "0 \<le> sint n" "sint n \<le> 86400"
    using Some by (auto simp: parse_tcp_conn_scan_interval_def not_less split: if_splits)
  then show ?thesis using interval_fits by blast
qed

definition concatenates :: "cfg_env \<Rightarrow> bool" where
  "concatenates E \<longleftrightarrow> (\<forall>n x y z. strncat E n x y = Some z \<longrightarrow> z = x @ y)"

lemma cat_then:
  assumes "concatenates E" and "(case strncat E n x y of None \<Rightarrow> parse_err e' c | Some u \<Rightarrow> k u) = (True, e, d)"
  shows "k (x @ y) = (True, e, d)"
  using assms by (cases "strncat E n x y") (auto simp: concatenates_def)

lemma accept_prefix:
  assumes "parse_unix_prefix E key c = (True, e, d)" and cat: "concatenates E"
  shows "\<exists>p. d = c\<lparr>unix_socket_filename := gazelle_run_dir @ p @ gazelle_reg_sock_filename,
      dfx_socket_filename := gazelle_run_dir @ p @ gazelle_dfx_sock_filename\<rparr> \<and> (p = [] \<or> filename_check (Some p) = 0)"
proof (cases "lookup_string E key")
  case None
  note r = assms(1) [unfolded parse_unix_prefix_def Let_def None option.case]
  note r = cat_then [OF cat cat_then [OF cat cat_then [OF cat cat_then [OF cat r]]]]
  then show ?thesis by (intro exI [of _ "[]"]) simp
next
  case (Some p)
  note r = assms(1) [unfolded parse_unix_prefix_def Let_def Some option.case]
  note r = cat_then [OF cat cat_then [OF cat r]]
  have ok: "filename_check (Some p) = 0" using r by (simp split: if_splits)
  have pick: "(if filename_check (Some p) \<noteq> 0 then x else y) = y" for x y :: parse_result using ok by simp
  note r = cat_then [OF cat cat_then [OF cat cat_then [OF cat cat_then [OF cat r [unfolded pick]]]]]
  then show ?thesis using ok by (intro exI [of _ p]) simp
qed

lemma accept_pools:
  "parse_rx_mbuf_pool_size E key c = (True, e, d) \<Longrightarrow> \<exists>n. d = c\<lparr>rx_mbuf_pool_size := n\<rparr>"
  "parse_tx_mbuf_pool_size E key c = (True, e, d) \<Longrightarrow> \<exists>n. d = c\<lparr>tx_mbuf_pool_size := n\<rparr>"
  by (auto simp: parse_rx_mbuf_pool_size_def parse_tx_mbuf_pool_size_def split: option.splits)

section \<open>The accepted configuration\<close>

lemma run_step:
  "run_parsers E ((k, f) # ps) c = Some (True, e, d) \<Longrightarrow>
     \<exists>e' c'. f E k c = Some (True, e', c') \<and> run_parsers E ps c' = Some (True, e, d)"
  by (auto split: option.splits if_splits)

lemma run_total:
  "run_parsers E ((k, total f) # ps) c = Some (True, e, d) \<Longrightarrow>
     \<exists>e' c'. f E k c = (True, e', c') \<and> run_parsers E ps c' = Some (True, e, d)"
  by (drule run_step) (auto simp: total_def)

text \<open>What the rest of ltran relies on. The names are those of the two Unix sockets.\<close>

definition config_ok :: "ltran_config \<Rightarrow> bool" where
  "config_ok d \<longleftrightarrow>
     (\<exists>argv. dpdk_argv d = Some argv \<and> dpdk_argc d = length argv \<and> 1 \<le> length argv \<and> length argv \<le> 32) \<and>
     1 \<le> unat (cfg_clients d) \<and> unat (cfg_clients d) \<le> 32 \<and>
     (\<exists>n. 1 \<le> n \<and> n \<le> 16 \<and> cfg_subnet_size d = 2 ^ n \<and> cfg_subnet_length d = word_of_nat n \<and> cfg_net_mask d = 2 ^ n - 1) \<and>
     cfg_subnet_addr d AND cfg_net_mask d = 0 \<and> cfg_subnet_addr d AND NOT (cfg_net_mask d) \<noteq> 0 \<and>
     sint (bond_mode d) = 1 \<and> 0 < sint (miimon d) \<and> 68 \<le> sint (mtu d) \<and> sint (mtu d) \<le> 1500 \<and>
     length (portmask d) = 2 \<and> 1 \<le> unat (port_num d) \<and> unat (port_num d) \<le> 2 \<and> mac_num d = port_num d \<and>
     (\<forall>i < unat (port_num d). 1 \<le> portmask d ! i \<and> portmask d ! i \<le> 255) \<and>
     (\<forall>i j. i < j \<longrightarrow> j < unat (mac_num d) \<longrightarrow> \<not> is_same_mac_addr (bond_macs d i) (bond_macs d j)) \<and>
     rx_queue_num d = 1 \<and> tx_queue_num d = 1 \<and> (kni_switch d = 0 \<or> kni_switch d = 1) \<and>
     unat (tcp_conn_scan_interval d) \<le> 86400 * 1000000 \<and>
     (\<exists>p. unix_socket_filename d = gazelle_run_dir @ p @ gazelle_reg_sock_filename \<and>
          dfx_socket_filename d = gazelle_run_dir @ p @ gazelle_dfx_sock_filename \<and> (p = [] \<or> filename_check (Some p) = 0))"

lemma accept_queues:
  "parse_bond_rx_queue_num E key c = (True, e, d) \<Longrightarrow> d = c\<lparr>rx_queue_num := 1\<rparr>"
  "parse_bond_tx_queue_num E key c = (True, e, d) \<Longrightarrow> d = c\<lparr>tx_queue_num := 1\<rparr>"
  by (auto simp: parse_bond_rx_queue_num_def parse_bond_tx_queue_num_def Let_def split: if_splits)

lemma parsers_config_ok:
  assumes cat: "concatenates E" and run: "run_parsers E g_param_parse_tbl zero_config = Some (True, e, d)"
  shows "config_ok d"
proof -
  obtain e1 c1 e2 c2 e3 c3 e4 c4 e5 c5 e6 c6 e7 c7 e8 c8 e9 c9 e10 c10 e11 c11 e12 c12 e13 c13 e14 c14 e15 c15 e16 c16 where p:
      "total parse_forward_kit_args E ''forward_kit_args'' zero_config = Some (True, e1, c1)"
      "total parse_dispatch_max_client E ''dispatch_max_clients'' c1 = Some (True, e2, c2)"
      "total parse_dispatch_subnet E ''dispatch_subnet'' c2 = Some (True, e3, c3)"
      "total parse_dispatch_subnet_length E ''dispatch_subnet_length'' c3 = Some (True, e4, c4)"
      "total parse_bond_miimon E ''bond_miimon'' c4 = Some (True, e5, c5)"
      "total parse_bond_mode E ''bond_mode'' c5 = Some (True, e6, c6)"
      "parse_bond_ports E ''bond_ports'' c6 = Some (True, e7, c7)"
      "total parse_bond_mtu E ''bond_mtu'' c7 = Some (True, e8, c8)"
      "total parse_bond_macs E ''bond_macs'' c8 = Some (True, e9, c9)"
      "total parse_bond_rx_queue_num E ''bond_rx_queue_num'' c9 = Some (True, e10, c10)"
      "total parse_bond_tx_queue_num E ''bond_tx_queue_num'' c10 = Some (True, e11, c11)"
      "total parse_tcp_conn_scan_interval E ''tcp_conn_scan_interval'' c11 = Some (True, e12, c12)"
      "total parse_kni_switch E ''kni_switch'' c12 = Some (True, e13, c13)"
      "total parse_unix_prefix E ''unix_prefix'' c13 = Some (True, e14, c14)"
      "total parse_rx_mbuf_pool_size E ''rx_mbuf_pool_size'' c14 = Some (True, e15, c15)"
      "total parse_tx_mbuf_pool_size E ''tx_mbuf_pool_size'' c15 = Some (True, e16, c16)"
      "run_parsers E [] c16 = Some (True, e, d)"
    using run unfolding g_param_parse_tbl_def
    by - ((drule run_step, elim exE conjE)+, (rule that; assumption))
  note p = p [simplified total_def option.inject]
  note facts = accept_kit [OF p(1)]
    accept_clients [OF p(2)]
    accept_subnet [OF p(3)]
    accept_subnet_length [OF p(4)]
    accept_miimon [OF p(5)]
    accept_mode [OF p(6)]
    accept_ports [OF p(7)]
    accept_mtu [OF p(8)]
    accept_macs [OF p(9)]
    accept_queues(1) [OF p(10)]
    accept_queues(2) [OF p(11)]
    accept_interval [OF p(12)]
    accept_kni [OF p(13)]
    accept_prefix [OF p(14) cat]
    accept_pools(1) [OF p(15)]
    accept_pools(2) [OF p(16)]
  have "d = c16" using p(17) by simp
  show ?thesis using facts \<open>d = c16\<close> unfolding config_ok_def by (elim exE conjE) (simp, blast?)
qed

section \<open>Properties\<close>

text \<open>C17: A configuration file that ltran accepts gives a configuration the rest of the program may
  rely on: at most 32 client slots (what the instance table needs), a subnet whose mask is
  2^length - 1 and whose address has a network part and no host part, bonding mode 1 with one or
  two ports in 1..255 and as many pairwise different MACs, an MTU of 68..1500, one queue each way,
  the two socket names under the run directory with a checked prefix between directory and file.
\<close>

theorem accepted_config_ok:
  assumes "parse_config_file_args E read_ok c = Some (True, e, d)" and "concatenates E"
  shows "config_ok d"
  using assms parsers_config_ok by (auto simp: parse_config_file_args_def parse_err_def split: if_splits)

definition demo_strings :: "string \<Rightarrow> string option" where
  "demo_strings = map_of [(''forward_kit_args'', ''-l 0''), (''dispatch_subnet'', ''192.168.1.0''), (''bond_ports'', ''0x1''),
     (''bond_macs'', ''aa:bb:cc:dd:ee:0f''), (''unix_prefix'', ''p1'')]"

definition demo_ints :: "string \<Rightarrow> i32 option" where
  "demo_ints = map_of [(''dispatch_max_clients'', 30), (''dispatch_subnet_length'', 8), (''bond_miimon'', 100), (''bond_mode'', 1),
     (''bond_mtu'', 1500)]"

definition demo_cfg_env :: cfg_env where
  "demo_cfg_env = \<lparr>lookup_string = demo_strings, lookup_int = demo_ints, calloc_ok = True, strdup_ok = (\<lambda>_. True),
     aton = (\<lambda>_. Some 0x0001A8C0), strncat = (\<lambda>n x y. if length x + length y < n then Some (x @ y) else None)\<rparr>"

fun accepted :: "parse_result option \<Rightarrow> ltran_config option" where
  "accepted (Some (True, e, d)) = Some d"
| "accepted _ = None"

lemma demo_accepted: "map_option unix_socket_filename (accepted (parse_config_file_args demo_cfg_env True zero_config)) =
    Some ''/var/run/gazelle/p1gazelle_client.sock''"
  by code_simp

lemma acceptedD: "accepted r = Some d \<Longrightarrow> \<exists>e. r = Some (True, e, d)"
  by (cases r rule: accepted.cases) auto

lemma demo_concatenates: "concatenates demo_cfg_env"
  by (simp add: concatenates_def demo_cfg_env_def)

lemma accepted_config_ok_witness:
  "\<exists>e d. parse_config_file_args demo_cfg_env True zero_config = Some (True, e, d) \<and> config_ok d \<and>
     unix_socket_filename d = ''/var/run/gazelle/p1gazelle_client.sock''"
proof -
  obtain d where d: "accepted (parse_config_file_args demo_cfg_env True zero_config) = Some d"
      "unix_socket_filename d = ''/var/run/gazelle/p1gazelle_client.sock''"
    using demo_accepted by auto
  obtain e where e: "parse_config_file_args demo_cfg_env True zero_config = Some (True, e, d)"
    using acceptedD [OF d(1)] by blast
  then show ?thesis using accepted_config_ok [OF e demo_concatenates] d(2) by blast
qed

text \<open>C35: The number parser behind \<open>bond_ports\<close> expands a range without looking at the room left: the
  value 0x1-0x3 makes it write the third number behind the two-element port mask.
\<close>

theorem bond_ports_range_overflows:
  assumes "lookup_string E key = Some ''0x1-0x3''" and "strdup_ok E ''0x1-0x3''"
  shows "parse_bond_ports E key c = None"
proof -
  have "is_bond_port_prefix_valid ''0x1-0x3''" "separate_str_to_array ''0x1-0x3'' gazelle_max_bond_num 65535 = None"
    by code_simp+
  then show ?thesis using assms by (simp add: parse_bond_ports_def)
qed

lemma bond_ports_range_overflows_witness:
  "parse_config_file_args (demo_cfg_env\<lparr>lookup_string := demo_strings(''bond_ports'' \<mapsto> ''0x1-0x3'')\<rparr>) True zero_config = None \<and>
   parse_bond_ports (demo_cfg_env\<lparr>lookup_string := demo_strings(''bond_ports'' \<mapsto> ''0x1-0x3'')\<rparr>) ''bond_ports'' zero_config = None"
proof
  show "parse_config_file_args (demo_cfg_env\<lparr>lookup_string := demo_strings(''bond_ports'' \<mapsto> ''0x1-0x3'')\<rparr>) True zero_config = None"
    by code_simp
  show "parse_bond_ports (demo_cfg_env\<lparr>lookup_string := demo_strings(''bond_ports'' \<mapsto> ''0x1-0x3'')\<rparr>) ''bond_ports'' zero_config = None"
    by (rule bond_ports_range_overflows) (simp_all add: demo_cfg_env_def)
qed

end
