(* ===== verification/Lstack_Epoll.thy ===== *)
theory Lstack_Epoll
  imports Rte_Ring
begin

text \<open>
  lstack's epoll and poll (\<open>src/lstack/api/lstack_epoll.c\<close>) with the stack thread's side of it
  (\<open>wakeup_kernel_event\<close> and \<open>stack_clean_epoll\<close> of \<open>src/lstack/core/lstack_protocol_stack.c\<close>) and what
  reads and writes take from the event lists (\<open>src/lstack/core/lstack_lwip.c\<close>). Every function
  is one step here; \<open>Epoll_Threads\<close> interleaves them.

  Parameters: where \<open>list_add_node\<close> of lwip puts a node, the kernel's epoll and \<open>calloc\<close>. A
  \<open>list_node\<close> that is linked nowhere is the code's null node; \<open>list_del_node_null\<close> unlinks a node.
\<close>

section \<open>State\<close>

datatype wakeup_type = Wakeup_epoll | Wakeup_poll | Wakeup_close

definition epollin :: u32 where "epollin = 0x1"
definition epollout :: u32 where "epollout = 0x4"
definition epollerr :: u32 where "epollerr = 0x8"
definition epollhup :: u32 where "epollhup = 0x10"
definition epolloneshot :: u32 where "epolloneshot = 0x40000000"
definition epollet :: u32 where "epollet = 0x80000000"

lemmas epoll_flags = epollin_def epollout_def epollerr_def epollhup_def epolloneshot_def epollet_def

text \<open>
  What the code reads of a connection: whether it listens, its type, and whether there is an
  accept mailbox with something in it.
\<close>

record netconn =
  conn_listens :: bool
  conn_has_host :: bool
  conn_is_libos :: bool
  accept_waits :: bool

text \<open>
  The fields of \<open>struct lwip_sock\<close> that this file uses. \<open>same_node_ready\<close> is \<open>same_node_rx_ring != NULL
  && same_node_ring_count(sock)\<close>; \<open>linked\<close> names the wakeup whose event list the socket's node is in.
\<close>

record ep_sock =
  conn :: "netconn option"
  epoll_events :: u32
  events :: u32
  ep_data :: u64
  errevent :: i32
  wakeup :: "addr option"
  sock_stack_idx :: nat
  listen_next :: "addr option"
  recv_ring :: "addr rte_ring"
  send_ring :: "addr rte_ring"
  recv_lastdata :: "addr option"
  same_node_ready :: bool
  linked :: "addr option"

text \<open>\<open>wait\<close> is the mutex, true while it is locked. The descriptors of \<open>last_fds\<close> come with their events.\<close>

record wakeup_poll =
  wtype :: wakeup_type
  wait_locked :: bool
  in_wait :: bool
  have_kernel_event :: bool
  app_events :: u64
  bind_stack :: "nat option"
  last_fds :: "(i32 \<times> u16) list"
  last_nfds :: nat
  last_max_nfds :: nat
  epollfd :: i32
  stack_fd_cnt :: "nat \<Rightarrow> i32"
  max_stack :: "nat option"
  event_list :: "addr list"

text \<open>
  All sockets and wakeups, the wakeup list of each stack, the kernel events a stack has been
  handed, the group's list of wakeups, the calls of the kernel's \<open>epoll_ctl\<close>, and the counter that
  spreads first bindings. A wakeup that is not in \<open>polls\<close> has been freed.
\<close>

record kctl =
  ctl_epfd :: i32
  ctl_op :: i32
  ctl_fd :: i32
  ctl_event :: "(u32 \<times> u64) option"

record ep_state =
  socks :: "addr \<rightharpoonup> ep_sock"
  polls :: "addr \<rightharpoonup> wakeup_poll"
  wakeup_lists :: "nat \<Rightarrow> addr list"
  kernel_events :: "nat \<Rightarrow> addr list"
  wakeup_events :: "nat \<Rightarrow> u64"
  poll_list :: "addr list"
  kernel_ctl :: "kctl list"
  closed_fds :: "i32 list"
  bind_tick :: u16

text \<open>
  \<open>sock_at\<close> is lwip's \<open>get_socket_by_fd\<close>, \<open>sock_live\<close> its \<open>get_socket\<close>, \<open>stack_epollfd\<close> the kernel epoll
  descriptor of each stack, \<open>kctl_ok\<close> the result of the kernel's \<open>epoll_ctl\<close>.
\<close>

record ep_env =
  list_put :: "addr \<Rightarrow> addr list \<Rightarrow> addr list"
  sock_at :: "i32 \<Rightarrow> addr option"
  sock_live :: "i32 \<Rightarrow> addr option"
  stack_num :: nat
  queue_id :: "nat \<Rightarrow> nat"
  stack_epollfd :: "nat \<Rightarrow> i32"
  kctl_ret :: "kctl \<Rightarrow> i32"
  bind_numa :: bool

definition puts_node :: "ep_env \<Rightarrow> bool" where
  "puts_node E \<longleftrightarrow> (\<forall>a l. \<exists>us vs. l = us @ vs \<and> list_put E a l = us @ a # vs)"

definition sock_upd :: "addr \<Rightarrow> (ep_sock \<Rightarrow> ep_sock) \<Rightarrow> ep_state \<Rightarrow> ep_state" where
  "sock_upd a f S = S\<lparr>socks := (socks S)(a := map_option f (socks S a))\<rparr>"

definition poll_upd :: "addr \<Rightarrow> (wakeup_poll \<Rightarrow> wakeup_poll) \<Rightarrow> ep_state \<Rightarrow> ep_state" where
  "poll_upd w f S = S\<lparr>polls := (polls S)(w := map_option f (polls S w))\<rparr>"

text \<open>The list operations on the event list of a wakeup.\<close>

definition link_event :: "ep_env \<Rightarrow> addr \<Rightarrow> addr \<Rightarrow> ep_state \<Rightarrow> ep_state" where
  "link_event E w a S =
     sock_upd a (\<lambda>s. s\<lparr>linked := Some w\<rparr>) (poll_upd w (\<lambda>p. p\<lparr>event_list := list_put E a (event_list p)\<rparr>) S)"

definition unlink_event :: "addr \<Rightarrow> ep_state \<Rightarrow> ep_state" where
  "unlink_event a S =
     (case Option.bind (socks S a) linked of
        None \<Rightarrow> S
      | Some w \<Rightarrow> sock_upd a (\<lambda>s. s\<lparr>linked := None\<rparr>) (poll_upd w (\<lambda>p. p\<lparr>event_list := remove1 a (event_list p)\<rparr>) S))"

section \<open>What a socket is ready for\<close>

definition netconn_is_datain :: "ep_sock \<Rightarrow> bool" where
  "netconn_is_datain s \<longleftrightarrow> gazelle_ring_readable_count (recv_ring s) \<noteq> 0 \<or> recv_lastdata s \<noteq> None \<or> same_node_ready s"

definition netconn_is_outidle :: "ep_sock \<Rightarrow> bool" where
  "netconn_is_outidle s \<longleftrightarrow> gazelle_ring_readable_count (send_ring s) \<noteq> 0"

text \<open>The accept mailbox is behind \<open>sock->conn\<close>, which is not checked.\<close>

definition datain_or_acceptin :: "ep_sock \<Rightarrow> bool option" where
  "datain_or_acceptin s = (if netconn_is_datain s then Some True else map_option accept_waits (conn s))"

definition update_events :: "ep_sock \<Rightarrow> u32 option" where
  "update_events s = do {
     in_ev \<leftarrow> (if epoll_events s AND epollin \<noteq> 0 then datain_or_acceptin s else Some False);
     let out_ev = (epoll_events s AND epollout \<noteq> 0 \<and> netconn_is_outidle s \<and>
                   (case conn s of None \<Rightarrow> False | Some c \<Rightarrow> conn_is_libos c));
     Some ((if in_ev then epollin else 0) OR (if out_ev then epollout else 0) OR
           (if 0 < sint (errevent s) then epollerr OR epollin else 0))}"

section \<open>Events of the stack thread\<close>

definition add_sock_event :: "ep_env \<Rightarrow> addr \<Rightarrow> u32 \<Rightarrow> ep_state \<Rightarrow> ep_state option" where
  "add_sock_event E a event S = do {
     s \<leftarrow> socks S a;
     (case wakeup s of
        None \<Rightarrow> Some S
      | Some w \<Rightarrow> do {
          p \<leftarrow> polls S w;
          (if wtype p = Wakeup_close \<or> event AND epoll_events s = 0 then Some S
           else do {
             outdated \<leftarrow> (if wtype p \<noteq> Wakeup_epoll then Some False
                         else if event = epollin then do { c \<leftarrow> conn s; Some (\<not> conn_listens c \<and> \<not> netconn_is_datain s) }
                         else Some (event = epollout \<and> \<not> netconn_is_outidle s));
             (if outdated then Some S
              else
                let S = (if wtype p = Wakeup_epoll then
                           (let S = sock_upd a (\<lambda>s. s\<lparr>events := events s OR
                                      (if event = epollerr then epollin OR epollerr else event AND epoll_events s)\<rparr>) S
                            in if linked s = None then link_event E w a S else S)
                         else S);
                    i = sock_stack_idx s
                in Some (if w \<in> set (wakeup_lists S i) then S
                         else S\<lparr>wakeup_lists := (wakeup_lists S)(i := list_put E w (wakeup_lists S i))\<rparr>))})})}"

text \<open>
  \<open>wakeup_stack_epoll\<close>, node by node: the mutex of a waiting thread is unlocked. The repair of a
  list that ends in NULL does nothing on a list that is whole.
\<close>

definition wakeup_one :: "nat \<Rightarrow> addr \<Rightarrow> ep_state \<Rightarrow> ep_state option" where
  "wakeup_one i w S = do {
     p \<leftarrow> polls S w;
     let S = (if in_wait p then
                (poll_upd w (\<lambda>p. p\<lparr>in_wait := False, wait_locked := False\<rparr>) S)
                  \<lparr>wakeup_events := (wakeup_events S)(i := wakeup_events S i + 1)\<rparr>
              else S);
     Some (S\<lparr>wakeup_lists := (wakeup_lists S)(i := remove1 w (wakeup_lists S i))\<rparr>)}"

fun wakeup_each :: "nat \<Rightarrow> addr list \<Rightarrow> ep_state \<Rightarrow> ep_state option" where
  "wakeup_each i [] S = Some S"
| "wakeup_each i (w # ws) S = (case wakeup_one i w S of None \<Rightarrow> None | Some S \<Rightarrow> wakeup_each i ws S)"

definition wakeup_stack_epoll :: "nat \<Rightarrow> ep_state \<Rightarrow> ep_state option" where
  "wakeup_stack_epoll i S = wakeup_each i (wakeup_lists S i) S"

fun kernel_event_each :: "ep_env \<Rightarrow> nat \<Rightarrow> addr list \<Rightarrow> ep_state \<Rightarrow> ep_state option" where
  "kernel_event_each E i [] S = Some S"
| "kernel_event_each E i (w # ws) S =
     (case polls S w of
        None \<Rightarrow> None
      | Some p \<Rightarrow>
          if wtype p = Wakeup_close then kernel_event_each E i ws S
          else let S = poll_upd w (\<lambda>p. p\<lparr>have_kernel_event := True\<rparr>) S;
                   S = (if w \<in> set (wakeup_lists S i) then S
                        else S\<lparr>wakeup_lists := (wakeup_lists S)(i := list_put E w (wakeup_lists S i))\<rparr>)
            in kernel_event_each E i ws S)"

definition wakeup_kernel_event :: "ep_env \<Rightarrow> nat \<Rightarrow> ep_state \<Rightarrow> ep_state option" where
  "wakeup_kernel_event E i S =
     (if kernel_events S i = [] then Some S
      else map_option (\<lambda>S. S\<lparr>kernel_events := (kernel_events S)(i := [])\<rparr>) (kernel_event_each E i (kernel_events S i) S))"

definition stack_clean_epoll :: "addr \<Rightarrow> nat \<Rightarrow> ep_state \<Rightarrow> ep_state" where
  "stack_clean_epoll w i S = S\<lparr>wakeup_lists := (wakeup_lists S)(i := remove1 w (wakeup_lists S i))\<rparr>"

definition stack_broadcast_clean_epoll :: "ep_env \<Rightarrow> addr \<Rightarrow> ep_state \<Rightarrow> ep_state" where
  "stack_broadcast_clean_epoll E w S = fold (stack_clean_epoll w) [0..<stack_num E] S"

text \<open>Each kernel event thread waits until the stack has taken what it was handed.\<close>

definition gazelle_kernelevent_round :: "nat \<Rightarrow> addr list \<Rightarrow> ep_state \<Rightarrow> ep_state" where
  "gazelle_kernelevent_round i ws S = (if kernel_events S i = [] then S\<lparr>kernel_events := (kernel_events S)(i := ws)\<rparr> else S)"

section \<open>Reads and writes take events away\<close>

definition del_data_in_event :: "addr \<Rightarrow> ep_state \<Rightarrow> ep_state option" where
  "del_data_in_event a S = do {
     s \<leftarrow> socks S a;
     w \<leftarrow> wakeup s;
     p \<leftarrow> polls S w;
     (if netconn_is_datain s then Some S
      else let S = sock_upd a (\<lambda>s. s\<lparr>events := events s AND NOT epollin\<rparr>) S in
        Some (if events s AND NOT epollin = 0 then unlink_event a S else S))}"

definition del_data_out_event :: "addr \<Rightarrow> ep_state \<Rightarrow> ep_state option" where
  "del_data_out_event a S = do {
     s \<leftarrow> socks S a;
     w \<leftarrow> wakeup s;
     p \<leftarrow> polls S w;
     (if netconn_is_outidle s then Some S
      else let S = sock_upd a (\<lambda>s. s\<lparr>events := events s AND NOT epollout\<rparr>) S in
        Some (if events s AND NOT epollout = 0 then unlink_event a S else S))}"

text \<open>\<open>stack_broadcast_accept4\<close>: after the accept the listener whose mailbox is empty is no longer readable.\<close>

definition del_accept_in_event :: "addr \<Rightarrow> ep_state \<Rightarrow> ep_state option" where
  "del_accept_in_event a S = do {
     s \<leftarrow> socks S a;
     w \<leftarrow> wakeup s;
     p \<leftarrow> polls S w;
     c \<leftarrow> conn s;
     (if accept_waits c then Some S
      else let S = sock_upd a (\<lambda>s. s\<lparr>events := events s AND NOT epollin\<rparr>) S in
        Some (if events s AND NOT epollin = 0 then unlink_event a S else S))}"

definition raise_pending_events :: "ep_env \<Rightarrow> addr \<Rightarrow> addr \<Rightarrow> ep_state \<Rightarrow> ep_state option" where
  "raise_pending_events E w a S = do {
     s \<leftarrow> socks S a;
     p \<leftarrow> polls S w;
     in_ev \<leftarrow> datain_or_acceptin s;
     let out_ev = (netconn_is_outidle s \<and> (case conn s of None \<Rightarrow> False | Some c \<Rightarrow> conn_is_libos c));
     let event = (if in_ev then epollin else 0) OR (if 0 < sint (errevent s) then epollerr OR epollin else 0) OR
                 (if out_ev then epollout else 0);
     Some (if event = 0 then S
           else let S = sock_upd a (\<lambda>s. s\<lparr>events := event\<rparr>) S in
             if wtype p = Wakeup_epoll \<and> event AND epoll_events s \<noteq> 0 \<and> linked s = None then link_event E w a S else S)}"

text \<open>
  What a socket's life does to the lists: the fields that \<open>reset_sock_data\<close> clears, \<open>gazelle_clean_sock\<close>
  (of a socket that has a stack) and \<open>gazelle_init_sock\<close>, whose rings (\<open>rings_made\<close>) are in \<open>Lstack_Life\<close>. The socket of a failed
  initialisation keeps its node as it is. A node that is still linked when it is overwritten is \<open>None\<close>.
\<close>

definition reset_sock_events :: "ep_sock \<Rightarrow> ep_sock" where
  "reset_sock_events s = s\<lparr>wakeup := None, listen_next := None, epoll_events := 0, events := 0, recv_lastdata := None\<rparr>"

definition clean_sock_events :: "bool \<Rightarrow> addr \<Rightarrow> ep_state \<Rightarrow> ep_state option" where
  "clean_sock_events has_stack a S =
     (if \<not> has_stack then Some S else do {
     s \<leftarrow> socks S a;
     S \<leftarrow> (case wakeup s of
            None \<Rightarrow> Some S
          | Some w \<Rightarrow> do { p \<leftarrow> polls S w; Some (if wtype p = Wakeup_epoll then unlink_event a S else S) });
     Some (sock_upd a reset_sock_events S)})"

definition init_sock_events :: "nat \<Rightarrow> bool \<Rightarrow> addr \<Rightarrow> ep_state \<Rightarrow> ep_state option" where
  "init_sock_events i rings_made a S = do {
     s \<leftarrow> socks S a;
     let S = sock_upd a reset_sock_events S;
     (if \<not> rings_made then Some S
      else if linked s \<noteq> None then None
      else Some (sock_upd a (\<lambda>s. s\<lparr>sock_stack_idx := i, linked := None\<rparr>) S))}"

section \<open>Creating and closing\<close>

definition epoll_ctl_add :: i32 where "epoll_ctl_add = 1"
definition epoll_ctl_del :: i32 where "epoll_ctl_del = 2"
definition epoll_ctl_mod :: i32 where "epoll_ctl_mod = 3"

text \<open>\<open>posix_api->epoll_ctl_fn\<close>: the call is recorded.\<close>

definition epoll_ctl_fn :: "ep_env \<Rightarrow> i32 \<Rightarrow> i32 \<Rightarrow> i32 \<Rightarrow> (u32 \<times> u64) option \<Rightarrow> ep_state \<Rightarrow> i32 \<times> ep_state" where
  "epoll_ctl_fn E epfd op fd ev S =
     (let c = \<lparr>ctl_epfd = epfd, ctl_op = op, ctl_fd = fd, ctl_event = ev\<rparr>
      in (kctl_ret E c, S\<lparr>kernel_ctl := kernel_ctl S @ [c]\<rparr>))"

text \<open>The stack with the most descriptors, the last one when all have as many, and the first time the next in turn.\<close>

definition find_max_cnt_stack :: "(nat \<Rightarrow> i32) \<Rightarrow> nat \<Rightarrow> nat option \<Rightarrow> u16 \<Rightarrow> nat \<times> u16" where
  "find_max_cnt_stack stack_count n last_stack tick =
     (let max_index = fold (\<lambda>i m. if sint (stack_count i) > sint (stack_count m) then i else m) [1..<n] 0;
          all_same_cnt = list_all (\<lambda>i. stack_count i = stack_count 0) [1..<n]
      in if all_same_cnt \<and> last_stack \<noteq> None then (the last_stack, tick)
         else if all_same_cnt \<and> n \<noteq> 0 then (unat tick mod n, tick + 1)
         else (max_index, tick))"

definition update_epoll_max_stack :: "ep_env \<Rightarrow> addr \<Rightarrow> ep_state \<Rightarrow> ep_state option" where
  "update_epoll_max_stack E w S = do {
     p \<leftarrow> polls S w;
     let (bind_id, tick) = find_max_cnt_stack (stack_fd_cnt p) (stack_num E) (max_stack p) (bind_tick S);
     Some (poll_upd w (\<lambda>p. p\<lparr>max_stack := Some bind_id\<rparr>) (S\<lparr>bind_tick := tick\<rparr>))}"

text \<open>The events of the kernel's side are edge triggered, with the wakeup as their data.\<close>

definition change_epollfd_kernel_thread :: "ep_env \<Rightarrow> addr \<Rightarrow> nat option \<Rightarrow> nat \<Rightarrow> ep_state \<Rightarrow> ep_state option" where
  "change_epollfd_kernel_thread E w old_stack new_stack S = do {
     p \<leftarrow> polls S w;
     let S = (case old_stack of
                None \<Rightarrow> S | Some k \<Rightarrow> snd (epoll_ctl_fn E (stack_epollfd E k) epoll_ctl_del (epollfd p) None S));
     Some (snd (epoll_ctl_fn E (stack_epollfd E new_stack) epoll_ctl_add (epollfd p)
             (Some (epollin OR epollout OR epollerr OR epollhup OR epollet, word_of_nat w)) S))}"

definition fresh_wakeup :: "wakeup_type \<Rightarrow> wakeup_poll" where
  "fresh_wakeup t = \<lparr>wtype = t, wait_locked = True, in_wait = False, have_kernel_event = False, app_events = 0,
     bind_stack = None, last_fds = [], last_nfds = 0, last_max_nfds = 0, epollfd = 0, stack_fd_cnt = (\<lambda>_. 0),
     max_stack = None, event_list = []\<rparr>"

text \<open>
  \<open>w\<close> is what \<open>calloc\<close> returned. Binding the thread to the NUMA node of the stack leaves the state
  alone. A result of -1 comes with \<open>EINVAL\<close>, except the descriptor the kernel did not give.
\<close>

definition lstack_do_epoll_create :: "ep_env \<Rightarrow> addr option \<Rightarrow> bool \<Rightarrow> i32 \<Rightarrow> ep_state \<Rightarrow> (i32 \<times> ep_state) option" where
  "lstack_do_epoll_create E w mutex_ok fd S =
     (if sint fd < 0 then Some (fd, S)
      else (case sock_at E fd of
          None \<Rightarrow> Some (- 1, S\<lparr>closed_fds := closed_fds S @ [fd]\<rparr>)
        | Some a \<Rightarrow> (case w of
            None \<Rightarrow> Some (- 1, S\<lparr>closed_fds := closed_fds S @ [fd]\<rparr>)
          | Some w \<Rightarrow>
              if \<not> mutex_ok then Some (- 1, S\<lparr>closed_fds := closed_fds S @ [fd]\<rparr>)
              else do {
                let S = S\<lparr>polls := (polls S)(w \<mapsto> (fresh_wakeup Wakeup_epoll)\<lparr>epollfd := fd\<rparr>),
                          poll_list := list_put E w (poll_list S)\<rparr>;
                s \<leftarrow> socks S a;
                let S = sock_upd a (\<lambda>s. s\<lparr>wakeup := Some w\<rparr>) S;
                S \<leftarrow> update_epoll_max_stack E w S;
                p \<leftarrow> polls S w;
                k \<leftarrow> max_stack p;
                S \<leftarrow> change_epollfd_kernel_thread E w (bind_stack p) k S;
                Some (fd, poll_upd w (\<lambda>p. p\<lparr>bind_stack := Some k\<rparr>) S)})))"

definition lstack_epoll_close :: "ep_env \<Rightarrow> i32 \<Rightarrow> ep_state \<Rightarrow> (i32 \<times> ep_state) option" where
  "lstack_epoll_close E fd S =
     (case sock_at E fd of
        None \<Rightarrow> Some (- 1, S)
      | Some a \<Rightarrow> do {
          s \<leftarrow> socks S a;
          (case wakeup s of
             None \<Rightarrow> Some (0, S)
           | Some w \<Rightarrow> do {
               p \<leftarrow> polls S w;
               let S = poll_upd w (\<lambda>p. p\<lparr>wtype := Wakeup_close\<rparr>) S;
               let S = stack_broadcast_clean_epoll E w S;
               let S = fold unlink_event (event_list p) S;
               let S = S\<lparr>poll_list := remove1 w (poll_list S), polls := (polls S)(w := None)\<rparr>;
               Some (0, (sock_upd a (\<lambda>s. s\<lparr>wakeup := None\<rparr>) S)\<lparr>closed_fds := closed_fds S @ [fd]\<rparr>)})})"

section \<open>epoll_ctl\<close>

text \<open>
  The sockets of a listener, one per stack, hang on \<open>listen_next\<close>; the loop that visits them is
  not bounded. \<open>None\<close> in the value is the early return for an unknown operation.
\<close>

definition ctl_one :: "ep_env \<Rightarrow> addr \<Rightarrow> i32 \<Rightarrow> (u32 \<times> u64) option \<Rightarrow> addr \<Rightarrow> ep_state \<Rightarrow> ep_state option option" where
  "ctl_one E w op event a S = do {
     s \<leftarrow> socks S a;
     p \<leftarrow> polls S w;
     let i = sock_stack_idx s;
     if op = epoll_ctl_add \<or> op = epoll_ctl_mod then do {
       let S = (if op = epoll_ctl_add
                then poll_upd w (\<lambda>p. p\<lparr>stack_fd_cnt := (stack_fd_cnt p)(i := stack_fd_cnt p i + 1)\<rparr>)
                       (sock_upd a (\<lambda>s. s\<lparr>wakeup := Some w\<rparr>) S)
                else S);
       (ev, data) \<leftarrow> event;
       S \<leftarrow> raise_pending_events E w a (sock_upd a (\<lambda>s. s\<lparr>epoll_events := ev OR epollerr OR epollhup, ep_data := data\<rparr>) S);
       Some (Some S)}
     else if op = epoll_ctl_del then
       Some (Some (unlink_event a (poll_upd w (\<lambda>p. p\<lparr>stack_fd_cnt := (stack_fd_cnt p)(i := stack_fd_cnt p i - 1)\<rparr>)
         (sock_upd a (\<lambda>s. s\<lparr>epoll_events := 0\<rparr>) S))))
     else Some None}"

partial_function (option) ctl_each :: "ep_env \<Rightarrow> addr \<Rightarrow> i32 \<Rightarrow> (u32 \<times> u64) option \<Rightarrow> addr \<Rightarrow> ep_state \<Rightarrow> ep_state option option" where
  "ctl_each E w op event a S =
     (case ctl_one E w op event a S of
        None \<Rightarrow> None
      | Some None \<Rightarrow> Some None
      | Some (Some S) \<Rightarrow> (case Option.bind (socks S a) listen_next of
          None \<Rightarrow> Some (Some S) | Some b \<Rightarrow> ctl_each E w op event b S))"

definition lstack_epoll_ctl :: "ep_env \<Rightarrow> i32 \<Rightarrow> i32 \<Rightarrow> i32 \<Rightarrow> (u32 \<times> u64) option \<Rightarrow> ep_state \<Rightarrow> (i32 \<times> ep_state) option" where
  "lstack_epoll_ctl E epfd op fd event S =
     (if sint epfd < 0 \<or> sint fd < 0 \<or> epfd = fd \<or> (event = None \<and> op \<noteq> epoll_ctl_del) then Some (- 1, S)
      else (case Option.bind (sock_at E epfd) (\<lambda>a. Option.bind (socks S a) wakeup) of
          None \<Rightarrow> Some (epoll_ctl_fn E epfd op fd event S)
        | Some w \<Rightarrow> (case sock_live E fd of
            None \<Rightarrow> Some (epoll_ctl_fn E epfd op fd event S)
          | Some a \<Rightarrow> do {
              s \<leftarrow> socks S a;
              c \<leftarrow> conn s;
              let S = (if conn_has_host c then snd (epoll_ctl_fn E epfd op fd event S) else S);
              r \<leftarrow> ctl_each E w op event a S;
              (case r of
                 None \<Rightarrow> Some (- 1, S)
               | Some S \<Rightarrow> do { S \<leftarrow> update_epoll_max_stack E w S; Some (0, S) })})))"

section \<open>epoll_wait\<close>

text \<open>The walk over the event list that fills \<open>events\<close>; \<open>n\<close> entries are filled so far.\<close>

fun event_walk :: "u32 \<Rightarrow> addr list \<Rightarrow> nat \<Rightarrow> ep_state \<Rightarrow> ((u32 \<times> u64) list \<times> ep_state) option" where
  "event_walk maxevents [] n S = Some ([], S)"
| "event_walk maxevents (a # as) n S =
     (case socks S a of
        None \<Rightarrow> None
      | Some s \<Rightarrow>
          if epoll_events s AND events s = 0 then event_walk maxevents as n (unlink_event a S)
          else
            let S = (if epoll_events s AND epollet \<noteq> 0 then unlink_event a S else S);
                oneshot = (epoll_events s AND epolloneshot \<noteq> 0);
                S = (if oneshot then sock_upd a (\<lambda>s. s\<lparr>epoll_events := 0\<rparr>) (unlink_event a S) else S);
                ev = (events s AND (if oneshot then 0 else epoll_events s), ep_data s)
            in if word_of_nat (n + 1) \<ge> maxevents then Some ([ev], S)
               else map_option (\<lambda>(evs, S). (ev # evs, S)) (event_walk maxevents as (n + 1) S))"

definition epoll_lwip_event :: "addr \<Rightarrow> u32 \<Rightarrow> ep_state \<Rightarrow> ((u32 \<times> u64) list \<times> ep_state) option" where
  "epoll_lwip_event w maxevents S = do {
     p \<leftarrow> polls S w;
     (evs, S) \<leftarrow> event_walk maxevents (event_list p) 0 S;
     Some (evs, poll_upd w (\<lambda>p. p\<lparr>app_events := app_events p + word_of_nat (length evs)\<rparr>) S)}"

text \<open>
  \<open>ms_to_timespec\<close>: seconds and nanoseconds of the clock, moved on by \<open>timeout\<close> milliseconds.
\<close>

definition ms_to_timespec :: "int \<times> int \<Rightarrow> int \<Rightarrow> int \<times> int" where
  "ms_to_timespec now timeout =
     (let (sec, nsec) = now;
          sec = sec + timeout div 1000;
          nsec = nsec + (timeout mod 1000) * 1000000;
          sec = sec + nsec div 1000000000
      in (sec, nsec mod 1000000000))"

definition epoll_bind_statck :: "ep_env \<Rightarrow> addr \<Rightarrow> ep_state \<Rightarrow> ep_state option" where
  "epoll_bind_statck E w S = do {
     p \<leftarrow> polls S w;
     (case max_stack p of
        None \<Rightarrow> Some S
      | Some k \<Rightarrow>
          if bind_stack p = Some k then Some S
          else map_option (poll_upd w (\<lambda>p. p\<lparr>bind_stack := Some k\<rparr>)) (change_epollfd_kernel_thread E w (bind_stack p) k S))}"

text \<open>
  One round of the loop of \<open>lstack_epoll_wait\<close>, up to the decision to sleep: the result of the
  lwip side, of the kernel side, and the state. \<open>kwait\<close> is the kernel's \<open>epoll_wait\<close> with its room
  and no timeout: a count, -1 for an error, and what it stored. \<open>kernel_num\<close> keeps its value in a
  round that does not ask the kernel.
\<close>

definition epoll_round :: "(int \<Rightarrow> int \<times> (u32 \<times> u64) list) \<Rightarrow> addr \<Rightarrow> i32 \<Rightarrow> int \<Rightarrow> ep_state \<Rightarrow>
  ((u32 \<times> u64) list \<times> int \<times> (u32 \<times> u64) list \<times> ep_state) option" where
  "epoll_round kwait w maxevents kernel_num S = do {
     let S = poll_upd w (\<lambda>p. p\<lparr>in_wait := True\<rparr>) S;
     (evs, S) \<leftarrow> epoll_lwip_event w maxevents S;
     let S = poll_upd w (\<lambda>p. p\<lparr>app_events := app_events p + word_of_nat (length evs)\<rparr>) S;
     p \<leftarrow> polls S w;
     (if have_kernel_event p then do {
        let (n, kevs) = kwait (sint maxevents - int (length evs));
        let S = (if n = 0 then poll_upd w (\<lambda>p. p\<lparr>have_kernel_event := False\<rparr>) S else S);
        Some (evs, n, kevs, S)}
      else Some (evs, kernel_num, [], S))}"

text \<open>
  The loop. \<open>blocked k\<close> is what happens until the \<open>k\<close>-th lock of the mutex returns: its result, true
  for 0, and the state the other threads have left.
\<close>

partial_function (option) epoll_wait_loop ::
  "(nat \<Rightarrow> int \<Rightarrow> int \<times> (u32 \<times> u64) list) \<Rightarrow> (nat \<Rightarrow> ep_state \<Rightarrow> bool \<times> ep_state) \<Rightarrow> addr \<Rightarrow> i32 \<Rightarrow> i32 \<Rightarrow> nat \<Rightarrow> int \<Rightarrow> ep_state \<Rightarrow>
   (int \<times> (u32 \<times> u64) list \<times> ep_state) option" where
  "epoll_wait_loop kwait blocked w maxevents timeout k kernel_num S =
     (case epoll_round (kwait k) w maxevents kernel_num S of
        None \<Rightarrow> None
      | Some (evs, kernel_num, kevs, S) \<Rightarrow>
          if int (length evs) + kernel_num > 0 \<or> timeout = 0 then Some (int (length evs) + kernel_num, evs @ kevs, S)
          else (case blocked k S of
              (locked, S) \<Rightarrow>
                if locked then epoll_wait_loop kwait blocked w maxevents timeout (Suc k) kernel_num S
                else Some (int (length evs) + kernel_num, evs @ kevs, S)))"

text \<open>\<open>kfn\<close> is the kernel's \<open>epoll_wait\<close> for descriptors that are not lstack's.\<close>

definition lstack_epoll_wait ::
  "ep_env \<Rightarrow> (i32 \<Rightarrow> int \<times> (u32 \<times> u64) list) \<Rightarrow> (nat \<Rightarrow> int \<Rightarrow> int \<times> (u32 \<times> u64) list) \<Rightarrow> (nat \<Rightarrow> ep_state \<Rightarrow> bool \<times> ep_state) \<Rightarrow>
   i32 \<Rightarrow> i32 \<Rightarrow> i32 \<Rightarrow> ep_state \<Rightarrow> (int \<times> (u32 \<times> u64) list \<times> ep_state) option" where
  "lstack_epoll_wait E kfn kwait blocked epfd maxevents timeout S =
     (case Option.bind (sock_at E epfd) (\<lambda>a. Option.bind (socks S a) wakeup) of
        None \<Rightarrow> (case kfn epfd of (n, evs) \<Rightarrow> Some (n, evs, S))
      | Some w \<Rightarrow> do {
          S \<leftarrow> (if bind_numa E then epoll_bind_statck E w S else Some S);
          (n, evs, S) \<leftarrow> epoll_wait_loop kwait blocked w maxevents timeout 0 0 S;
          Some (n, evs, poll_upd w (\<lambda>p. p\<lparr>in_wait := False\<rparr>) S)})"

section \<open>poll\<close>

record pollfd =
  pfd :: i32
  pevents :: u16
  prevents :: u16

text \<open>The loops over \<open>listen_next\<close> end at a socket without connection.\<close>

partial_function (option) poll_chain :: "ep_state \<Rightarrow> addr option \<Rightarrow> u32 option" where
  "poll_chain S a =
     (case a of
        None \<Rightarrow> Some 0
      | Some b \<Rightarrow> (case socks S b of
          None \<Rightarrow> None
        | Some s \<Rightarrow> if conn s = None then Some 0
            else (case update_events s of
                None \<Rightarrow> None
              | Some ev \<Rightarrow> if ev \<noteq> 0 then Some ev else poll_chain S (listen_next s))))"

fun poll_lwip_event :: "ep_env \<Rightarrow> ep_state \<Rightarrow> pollfd list \<Rightarrow> (nat \<times> pollfd list) option" where
  "poll_lwip_event E S [] = Some (0, [])"
| "poll_lwip_event E S (f # fs) =
     (case poll_chain S (sock_at E (pfd f)) of
        None \<Rightarrow> None
      | Some ev \<Rightarrow> (case poll_lwip_event E S fs of
          None \<Rightarrow> None
        | Some (n, fs) \<Rightarrow> Some (if ev \<noteq> 0 then (Suc n, f\<lparr>prevents := ucast ev\<rparr> # fs) else (n, f # fs))))"

definition poll_kernel_events :: nat where "poll_kernel_events = 32"

text \<open>
  \<open>init_poll_wakeup_data\<close> on the wakeup \<open>w\<close>, of which \<open>calloc\<close> has given the memory: the results of
  the mutex, of the kernel's \<open>epoll_create\<close> and of two more \<open>calloc\<close>s.
\<close>

definition init_poll_wakeup_data :: "ep_env \<Rightarrow> addr \<Rightarrow> bool \<Rightarrow> i32 \<Rightarrow> bool \<Rightarrow> bool \<Rightarrow> ep_state \<Rightarrow> (i32 \<times> ep_state) option" where
  "init_poll_wakeup_data E w mutex_ok epfd fds_ok events_ok S =
     (if \<not> mutex_ok then Some (- 1, S)
      else let S = poll_upd w (\<lambda>p. p\<lparr>wait_locked := True, in_wait := False, epollfd := epfd\<rparr>) S in
      if sint epfd < 0 then Some (- 1, S)
      else let S = poll_upd w (\<lambda>p. p\<lparr>wtype := Wakeup_poll\<rparr>) S in
      if \<not> fds_ok then Some (- 1, S)
      else let S = poll_upd w (\<lambda>p. p\<lparr>last_fds := replicate poll_kernel_events (0, 0), last_max_nfds := poll_kernel_events\<rparr>) S in
      if \<not> events_ok then Some (- 1, S)
      else do {
        let S = S\<lparr>poll_list := list_put E w (poll_list S)\<rparr>;
        p \<leftarrow> polls S w;
        let (bind_id, tick) = find_max_cnt_stack (\<lambda>_. 0) (stack_num E) (bind_stack p) (bind_tick S);
        S \<leftarrow> change_epollfd_kernel_thread E w (bind_stack p) bind_id (S\<lparr>bind_tick := tick\<rparr>);
        Some (0, poll_upd w (\<lambda>p. p\<lparr>bind_stack := Some bind_id\<rparr>) S)})"

text \<open>An array whose \<open>calloc\<close> failed is NULL; every access to it is out of bounds.\<close>

definition resize_kernel_poll :: "addr \<Rightarrow> bool \<Rightarrow> nat \<Rightarrow> ep_state \<Rightarrow> ep_state" where
  "resize_kernel_poll w fds_ok nfds S =
     poll_upd w (\<lambda>p. p\<lparr>last_fds := (if fds_ok then replicate nfds (0, 0) else []), last_max_nfds := nfds\<rparr>) S"

definition poll_bind_statck :: "ep_env \<Rightarrow> addr \<Rightarrow> (nat \<Rightarrow> i32) \<Rightarrow> ep_state \<Rightarrow> ep_state option" where
  "poll_bind_statck E w stack_count S = do {
     p \<leftarrow> polls S w;
     let (bind_id, tick) = find_max_cnt_stack stack_count (stack_num E) (bind_stack p) (bind_tick S);
     let S = S\<lparr>bind_tick := tick\<rparr>;
     (if map_option (queue_id E) (bind_stack p) = Some bind_id then Some S
      else do {
        S \<leftarrow> change_epollfd_kernel_thread E w (bind_stack p) bind_id S;
        Some (poll_upd w (\<lambda>p. p\<lparr>bind_stack := Some bind_id\<rparr>) S)})}"

definition update_kernel_poll :: "ep_env \<Rightarrow> addr \<Rightarrow> nat \<Rightarrow> pollfd option \<Rightarrow> ep_state \<Rightarrow> ep_state option" where
  "update_kernel_poll E w index new_fd S = do {
     p \<leftarrow> polls S w;
     (if index < length (last_fds p) then
        let S = snd (epoll_ctl_fn E (epollfd p) epoll_ctl_del (fst (last_fds p ! index)) None S)
        in Some (case new_fd of
             None \<Rightarrow> S
           | Some f \<Rightarrow> snd (epoll_ctl_fn E (epollfd p) epoll_ctl_add (pfd f) (Some (scast (pevents f), word_of_nat index)) S))
      else None)}"

partial_function (option) poll_claim :: "addr \<Rightarrow> u32 \<Rightarrow> addr option \<Rightarrow> (nat \<Rightarrow> i32) \<Rightarrow> ep_state \<Rightarrow> ((nat \<Rightarrow> i32) \<times> ep_state) option" where
  "poll_claim w ev a stack_count S =
     (case a of
        None \<Rightarrow> Some (stack_count, S)
      | Some b \<Rightarrow> (case socks S b of
          None \<Rightarrow> None
        | Some s \<Rightarrow> if conn s = None then Some (stack_count, S)
            else poll_claim w ev (listen_next s) (stack_count(sock_stack_idx s := stack_count (sock_stack_idx s) + 1))
                   (sock_upd b (\<lambda>s. s\<lparr>epoll_events := ev, wakeup := Some w\<rparr>) S)))"

text \<open>
  \<open>poll_init\<close>: the descriptors of this call against those of the last. The accumulator is
  \<open>poll_change\<close>, \<open>stack_count\<close> and the state.
\<close>

fun poll_init_each :: "ep_env \<Rightarrow> addr \<Rightarrow> nat \<Rightarrow> pollfd list \<Rightarrow> bool \<times> (nat \<Rightarrow> i32) \<times> ep_state \<Rightarrow>
  (pollfd list \<times> bool \<times> (nat \<Rightarrow> i32) \<times> ep_state) option" where
  "poll_init_each E w i [] (change, cnt, S) = Some ([], change, cnt, S)"
| "poll_init_each E w i (f # fs) (change, cnt, S) = do {
     let f = f\<lparr>prevents := 0\<rparr>;
     p \<leftarrow> polls S w;
     s \<leftarrow> (case sock_at E (pfd f) of None \<Rightarrow> Some None | Some a \<Rightarrow> map_option Some (socks S a));
     (if i \<ge> length (last_fds p) then None
      else if last_fds p ! i = (pfd f, pevents f) \<and> (case s of None \<Rightarrow> True | Some s \<Rightarrow> wakeup s \<noteq> None)
      then map_option (\<lambda>(fs, r). (f # fs, r)) (poll_init_each E w (Suc i) fs (change, cnt, S))
      else do {
        let S = poll_upd w (\<lambda>p. p\<lparr>last_fds := (last_fds p)[i := (pfd f, pevents f)]\<rparr>) S;
        S \<leftarrow> (if (case Option.bind s conn of None \<Rightarrow> True | Some c \<Rightarrow> conn_has_host c)
              then update_kernel_poll E w i (Some f) S else Some S);
        (cnt, S) \<leftarrow> poll_claim w (scast (pevents f) OR epollerr) (sock_at E (pfd f)) cnt S;
        map_option (\<lambda>(fs, r). (f # fs, r)) (poll_init_each E w (Suc i) fs (True, cnt, S))})}"

definition poll_init :: "ep_env \<Rightarrow> addr \<Rightarrow> bool \<Rightarrow> pollfd list \<Rightarrow> ep_state \<Rightarrow> (pollfd list \<times> ep_state) option" where
  "poll_init E w fds_ok fds S = do {
     p \<leftarrow> polls S w;
     let nfds = length fds;
     let grow = (nfds > last_max_nfds p);
     let S = (if grow then resize_kernel_poll w fds_ok nfds S else S);
     (fds, change, cnt, S) \<leftarrow> poll_init_each E w 0 fds (grow \<or> nfds < last_nfds p, (\<lambda>_. 0), S);
     (if \<not> change then Some (fds, S)
      else do {
        let S = poll_upd w (\<lambda>p. p\<lparr>last_nfds := nfds\<rparr>) S;
        S \<leftarrow> (if bind_numa E then poll_bind_statck E w cnt S else Some S);
        Some (fds, S)})}"

text \<open>What the kernel reports names an index into the array of the caller.\<close>

fun store_revents :: "(u32 \<times> nat) list \<Rightarrow> pollfd list \<Rightarrow> pollfd list option" where
  "store_revents [] fds = Some fds"
| "store_revents ((ev, index) # es) fds =
     (if index < length fds then store_revents es (fds[index := (fds ! index)\<lparr>prevents := ucast ev\<rparr>]) else None)"

definition poll_round :: "ep_env \<Rightarrow> (nat \<Rightarrow> int \<times> (u32 \<times> nat) list) \<Rightarrow> addr \<Rightarrow> int \<Rightarrow> pollfd list \<Rightarrow> ep_state \<Rightarrow>
  (nat \<times> int \<times> pollfd list \<times> ep_state) option" where
  "poll_round E kwait w kernel_num fds S = do {
     let S = poll_upd w (\<lambda>p. p\<lparr>in_wait := True\<rparr>) S;
     (lwip_num, fds) \<leftarrow> poll_lwip_event E S fds;
     p \<leftarrow> polls S w;
     (if have_kernel_event p then do {
        let (n, kevs) = kwait (length fds);
        fds \<leftarrow> store_revents (take (nat n) kevs) fds;
        let S = (if n = 0 then poll_upd w (\<lambda>p. p\<lparr>have_kernel_event := False\<rparr>) S else S);
        Some (lwip_num, n, fds, S)}
      else Some (lwip_num, kernel_num, fds, S))}"

partial_function (option) poll_loop ::
  "ep_env \<Rightarrow> (nat \<Rightarrow> nat \<Rightarrow> int \<times> (u32 \<times> nat) list) \<Rightarrow> (nat \<Rightarrow> ep_state \<Rightarrow> bool \<times> ep_state) \<Rightarrow> addr \<Rightarrow> i32 \<Rightarrow> nat \<Rightarrow> int \<Rightarrow>
   pollfd list \<Rightarrow> ep_state \<Rightarrow> (int \<times> pollfd list \<times> ep_state) option" where
  "poll_loop E kwait blocked w timeout k kernel_num fds S =
     (case poll_round E (kwait k) w kernel_num fds S of
        None \<Rightarrow> None
      | Some (lwip_num, kernel_num, fds, S) \<Rightarrow>
          if int lwip_num + kernel_num > 0 \<or> timeout = 0 then Some (int lwip_num + kernel_num, fds, S)
          else (case blocked k S of
              (locked, S) \<Rightarrow>
                if locked then poll_loop E kwait blocked w timeout (Suc k) kernel_num fds S
                else Some (int lwip_num + kernel_num, fds, S)))"

text \<open>The results of the calls that set up a thread's first poll.\<close>

record poll_alloc =
  al_wakeup :: "addr option"
  al_mutex :: bool
  al_epollfd :: i32
  al_fds :: bool
  al_events :: bool
  al_resize :: bool

text \<open>\<open>tw\<close> is the thread's static pointer to its wakeup; a failing initialisation frees what it points to.\<close>

definition lstack_poll ::
  "ep_env \<Rightarrow> poll_alloc \<Rightarrow> (nat \<Rightarrow> nat \<Rightarrow> int \<times> (u32 \<times> nat) list) \<Rightarrow> (nat \<Rightarrow> ep_state \<Rightarrow> bool \<times> ep_state) \<Rightarrow> addr option \<Rightarrow>
   pollfd list \<Rightarrow> i32 \<Rightarrow> ep_state \<Rightarrow> (int \<times> pollfd list \<times> addr option \<times> ep_state) option" where
  "lstack_poll E al kwait blocked tw fds timeout S =
     (let poll_on = (\<lambda>w S. do {
            (fds, S) \<leftarrow> poll_init E w (al_resize al) fds S;
            (n, fds, S) \<leftarrow> poll_loop E kwait blocked w timeout 0 0 fds S;
            Some (n, fds, Some w, poll_upd w (\<lambda>p. p\<lparr>in_wait := False\<rparr>) S)})
      in case tw of
           Some w \<Rightarrow> poll_on w S
         | None \<Rightarrow> (case al_wakeup al of
             None \<Rightarrow> Some (- 1, fds, None, S)
           | Some w \<Rightarrow> do {
               let S = S\<lparr>polls := (polls S)(w \<mapsto> (fresh_wakeup Wakeup_epoll)\<lparr>wait_locked := False\<rparr>)\<rparr>;
               (ret, S) \<leftarrow> init_poll_wakeup_data E w (al_mutex al) (al_epollfd al) (al_fds al) (al_events al) S;
               (if sint ret < 0 then Some (- 1, fds, Some w, S\<lparr>polls := (polls S)(w := None)\<rparr>)
                else poll_on w S)}))"

section \<open>Well-formed lists\<close>

text \<open>
  The event lists and the sockets' nodes say the same, and only wakeups that have not been freed
  wait in a stack's wakeup list, each once.
\<close>

definition ep_inv :: "ep_env \<Rightarrow> ep_state \<Rightarrow> bool" where
  "ep_inv E S \<longleftrightarrow>
     (\<forall>w p. polls S w = Some p \<longrightarrow> distinct (event_list p) \<and>
        (\<forall>a \<in> set (event_list p). \<exists>s. socks S a = Some s \<and> linked s = Some w)) \<and>
     (\<forall>a s w. socks S a = Some s \<longrightarrow> linked s = Some w \<longrightarrow> (\<exists>p. polls S w = Some p \<and> a \<in> set (event_list p))) \<and>
     (\<forall>i. distinct (wakeup_lists S i) \<and> set (wakeup_lists S i) \<subseteq> dom (polls S)) \<and>
     (\<forall>a s. socks S a = Some s \<longrightarrow> sock_stack_idx s < stack_num E) \<and> (\<forall>i \<ge> stack_num E. wakeup_lists S i = [])"

named_theorems ep_law \<comment> \<open>the list invariant through the updates of the model\<close>

lemma list_put_set [simp]: "puts_node E \<Longrightarrow> set (list_put E a l) = insert a (set l)"
  and list_put_distinct [simp]: "puts_node E \<Longrightarrow> distinct (list_put E a l) \<longleftrightarrow> a \<notin> set l \<and> distinct l"
proof -
  assume p: "puts_node E"
  obtain us vs where "l = us @ vs" "list_put E a l = us @ a # vs" using p unfolding puts_node_def by blast
  then show "set (list_put E a l) = insert a (set l)" "distinct (list_put E a l) \<longleftrightarrow> a \<notin> set l \<and> distinct l" by auto
qed

lemma upd_simps [simp]:
  "polls (sock_upd a f S) = polls S" "wakeup_lists (sock_upd a f S) = wakeup_lists S"
  "socks (poll_upd w g S) = socks S" "wakeup_lists (poll_upd w g S) = wakeup_lists S"
  "socks (sock_upd a f S) b = (if b = a then map_option f (socks S b) else socks S b)"
  "polls (poll_upd w g S) v = (if v = w then map_option g (polls S v) else polls S v)"
  by (simp_all add: sock_upd_def poll_upd_def)

lemma map_option_eqD: "map_option f x = map_option f y \<Longrightarrow> x = Some a \<Longrightarrow> \<exists>b. y = Some b \<and> f b = f a"
  by (cases y) auto

lemma ep_inv_cong:
  assumes "ep_inv E S" and "\<And>a. map_option (\<lambda>s. (linked s, sock_stack_idx s)) (socks T a) = map_option (\<lambda>s. (linked s, sock_stack_idx s)) (socks S a)"
    and "\<And>w. map_option event_list (polls T w) = map_option event_list (polls S w)" and "wakeup_lists T = wakeup_lists S"
  shows "ep_inv E T"
proof -
  have s: "\<exists>s'. socks S a = Some s' \<and> linked s' = linked s \<and> sock_stack_idx s' = sock_stack_idx s" if "socks T a = Some s" for a s
    using map_option_eqD [OF assms(2) that] by auto
  have s': "\<exists>s'. socks T a = Some s' \<and> linked s' = linked s \<and> sock_stack_idx s' = sock_stack_idx s" if "socks S a = Some s" for a s
    using map_option_eqD [OF assms(2) [symmetric] that] by auto
  have p: "\<exists>p'. polls S w = Some p' \<and> event_list p' = event_list p" if "polls T w = Some p" for w p
    using map_option_eqD [OF assms(3) that] .
  have p': "\<exists>p'. polls T w = Some p' \<and> event_list p' = event_list p" if "polls S w = Some p" for w p
    using map_option_eqD [OF assms(3) [symmetric] that] .
  have d: "dom (polls T) = dom (polls S)" using p p' by fastforce
  show ?thesis unfolding ep_inv_def
  proof (intro conjI allI impI)
    fix w q assume "polls T w = Some q"
    then obtain p where pq: "polls S w = Some p" "event_list p = event_list q" using p by blast
    show "distinct (event_list q)" using assms(1) pq unfolding ep_inv_def by metis
    show "\<forall>a \<in> set (event_list q). \<exists>s. socks T a = Some s \<and> linked s = Some w"
    proof
      fix a assume "a \<in> set (event_list q)"
      then obtain t where t: "socks S a = Some t" "linked t = Some w" using assms(1) pq unfolding ep_inv_def by metis
      then show "\<exists>s. socks T a = Some s \<and> linked s = Some w" using s' [OF t(1)] by auto
    qed
  next
    fix a t w assume t: "socks T a = Some t" "linked t = Some w"
    obtain u where "socks S a = Some u" "linked u = Some w" using s [OF t(1)] t(2) by auto
    then obtain p where pq: "polls S w = Some p" "a \<in> set (event_list p)" using assms(1) unfolding ep_inv_def by blast
    then show "\<exists>q. polls T w = Some q \<and> a \<in> set (event_list q)" using p' [OF pq(1)] by auto
  next
    fix i show "distinct (wakeup_lists T i)" "set (wakeup_lists T i) \<subseteq> dom (polls T)"
      using assms(1,4) d unfolding ep_inv_def by simp_all
  next
    fix a t assume t: "socks T a = Some t"
    then show "sock_stack_idx t < stack_num E" using s [OF t] assms(1) unfolding ep_inv_def by force
  next
    fix i assume "stack_num E \<le> i" then show "wakeup_lists T i = []" using assms(1,4) unfolding ep_inv_def by simp
  qed
qed

lemma ep_inv_sock_upd [ep_law]: "ep_inv E S \<Longrightarrow> (\<And>s. linked (f s) = linked s) \<Longrightarrow> (\<And>s. sock_stack_idx (f s) = sock_stack_idx s) \<Longrightarrow> ep_inv E (sock_upd a f S)"
  by (erule ep_inv_cong) (auto simp: option.map_comp comp_def)

lemma ep_inv_poll_upd [ep_law]: "ep_inv E S \<Longrightarrow> (\<And>p. event_list (g p) = event_list p) \<Longrightarrow> ep_inv E (poll_upd w g S)"
  by (erule ep_inv_cong) (auto simp: option.map_comp comp_def)

lemma ep_inv_other [ep_law]:
  assumes "ep_inv E S"
  shows "ep_inv E (S\<lparr>wakeup_events := x1\<rparr>)" "ep_inv E (S\<lparr>kernel_events := x2\<rparr>)" "ep_inv E (S\<lparr>poll_list := x3\<rparr>)"
    "ep_inv E (S\<lparr>kernel_ctl := x4\<rparr>)" "ep_inv E (S\<lparr>closed_fds := x5\<rparr>)" "ep_inv E (S\<lparr>bind_tick := x6\<rparr>)"
  using assms by (auto intro: ep_inv_cong)

lemma ep_inv_wakeup_put [ep_law]:
  "ep_inv E S \<Longrightarrow> puts_node E \<Longrightarrow> w \<notin> set (wakeup_lists S i) \<Longrightarrow> polls S w = Some p \<Longrightarrow> i < stack_num E \<Longrightarrow>
     ep_inv E (S\<lparr>wakeup_lists := (wakeup_lists S)(i := list_put E w (wakeup_lists S i))\<rparr>)"
  by (auto simp: ep_inv_def)

lemma ep_inv_wakeup_remove [ep_law]: "ep_inv E S \<Longrightarrow> ep_inv E (S\<lparr>wakeup_lists := (wakeup_lists S)(i := remove1 w (wakeup_lists S i))\<rparr>)"
  using set_remove1_subset by (fastforce simp: ep_inv_def)

lemma ep_invD:
  assumes "ep_inv E S"
  shows "polls S w = Some p \<Longrightarrow> distinct (event_list p)"
    and "polls S w = Some p \<Longrightarrow> a \<in> set (event_list p) \<Longrightarrow> \<exists>s. socks S a = Some s \<and> linked s = Some w"
    and "socks S a = Some s \<Longrightarrow> linked s = Some w \<Longrightarrow> \<exists>p. polls S w = Some p \<and> a \<in> set (event_list p)"
    and "distinct (wakeup_lists S i)" and "v \<in> set (wakeup_lists S i) \<Longrightarrow> \<exists>p. polls S v = Some p"
    and "socks S a = Some s \<Longrightarrow> sock_stack_idx s < stack_num E" and "stack_num E \<le> i \<Longrightarrow> wakeup_lists S i = []"
  using assms unfolding ep_inv_def by blast+

lemma ep_inv_link [ep_law]:
  assumes "ep_inv E S" "puts_node E" "socks S a = Some s" "linked s = None" "polls S w = Some p"
  shows "ep_inv E (link_event E w a S)"
proof -
  have no: "a \<notin> set (event_list q)" if "polls S v = Some q" for v q
    using ep_invD(2) [OF assms(1) that] assms(3,4) by fastforce
  have d: "dom (polls (link_event E w a S)) = dom (polls S)" by (auto simp: link_event_def split: if_splits)
  show ?thesis unfolding ep_inv_def
  proof (intro conjI allI impI)
    fix v q assume q: "polls (link_event E w a S) v = Some q"
    show "distinct (event_list q)"
      using q assms(2,5) no ep_invD(1) [OF assms(1)] by (auto simp: link_event_def split: if_splits)
    show "\<forall>b \<in> set (event_list q). \<exists>s. socks (link_event E w a S) b = Some s \<and> linked s = Some v"
      using q assms(2,3,5) no ep_invD(2) [OF assms(1)] by (fastforce simp: link_event_def split: if_splits)
  next
    fix b t v assume "socks (link_event E w a S) b = Some t" "linked t = Some v"
    then show "\<exists>q. polls (link_event E w a S) v = Some q \<and> b \<in> set (event_list q)"
      using assms(2,3,5) ep_invD(3) [OF assms(1), of b] by (fastforce simp: link_event_def split: if_splits)
  next
    fix i show "distinct (wakeup_lists (link_event E w a S) i)" "set (wakeup_lists (link_event E w a S) i) \<subseteq> dom (polls (link_event E w a S))"
      unfolding d using ep_invD(4,5) [OF assms(1)] by (auto simp: link_event_def)
  next
    fix b t assume "socks (link_event E w a S) b = Some t"
    then show "sock_stack_idx t < stack_num E" using ep_invD(6) [OF assms(1)] by (auto simp: link_event_def split: if_splits)
  next
    fix i assume "stack_num E \<le> i" then show "wakeup_lists (link_event E w a S) i = []" using ep_invD(7) [OF assms(1)] by (simp add: link_event_def)
  qed
qed

lemma ep_inv_unlink [ep_law]:
  assumes "ep_inv E S"
  shows "ep_inv E (unlink_event a S)"
proof (cases "Option.bind (socks S a) linked")
  case None
  then show ?thesis using assms by (simp add: unlink_event_def)
next
  case (Some w)
  then obtain s where s: "socks S a = Some s" "linked s = Some w" by (cases "socks S a") auto
  obtain p where p: "polls S w = Some p" "a \<in> set (event_list p)" using ep_invD(3) [OF assms s] by blast
  let ?T = "sock_upd a (\<lambda>s. s\<lparr>linked := None\<rparr>) (poll_upd w (\<lambda>p. p\<lparr>event_list := remove1 a (event_list p)\<rparr>) S)"
  have T: "unlink_event a S = ?T" using Some by (simp add: unlink_event_def)
  have d: "dom (polls ?T) = dom (polls S)" by (auto split: if_splits)
  have no: "a \<notin> set (event_list q)" if "polls S v = Some q" "v \<noteq> w" for v q
    using ep_invD(2) [OF assms that(1)] s that(2) by fastforce
  show ?thesis unfolding T ep_inv_def
  proof (intro conjI allI impI)
    fix v q assume q: "polls ?T v = Some q"
    show "distinct (event_list q)" using q p ep_invD(1) [OF assms] by (auto split: if_splits)
    show "\<forall>b \<in> set (event_list q). \<exists>s. socks ?T b = Some s \<and> linked s = Some v"
      using q p no ep_invD(1,2) [OF assms] by (fastforce split: if_splits)
  next
    fix b t v assume "socks ?T b = Some t" "linked t = Some v"
    then show "\<exists>q. polls ?T v = Some q \<and> b \<in> set (event_list q)"
      using ep_invD(3) [OF assms, of b] by (fastforce split: if_splits)
  next
    fix i show "distinct (wakeup_lists ?T i)" "set (wakeup_lists ?T i) \<subseteq> dom (polls ?T)"
      unfolding d using ep_invD(4,5) [OF assms] by auto
  next
    fix b t assume "socks ?T b = Some t"
    then show "sock_stack_idx t < stack_num E" using ep_invD(6) [OF assms] by (auto split: if_splits)
  next
    fix i assume "stack_num E \<le> i" then show "wakeup_lists ?T i = []" using ep_invD(7) [OF assms] by simp
  qed
qed

section \<open>The operations keep the lists well-formed\<close>

lemma wakeup_put_inv:
  assumes "puts_node E" "ep_inv E S" "polls S w = Some p" "i < stack_num E"
  shows "ep_inv E (if w \<in> set (wakeup_lists S i) then S
     else S\<lparr>wakeup_lists := (wakeup_lists S)(i := list_put E w (wakeup_lists S i))\<rparr>)"
  using ep_inv_wakeup_put [OF assms(2,1) _ assms(3,4)] assms(2) by simp

lemma unlink_polls: "polls (unlink_event a S) w = None \<longleftrightarrow> polls S w = None"
  by (simp add: unlink_event_def split: option.splits)

lemma link_polls: "polls (link_event E v a S) w = None \<longleftrightarrow> polls S w = None"
  by (simp add: link_event_def)

lemma guarded_result:
  "(if c then Some S else Option.bind out (\<lambda>b. if b then Some S else Some F)) = Some T \<Longrightarrow> T = S \<or> T = F"
  by (auto split: if_splits bind_splits)

lemma add_sock_event_inv:
  assumes "puts_node E" "ep_inv E S" "add_sock_event E a event S = Some T"
  shows "ep_inv E T"
proof -
  obtain s where s: "socks S a = Some s" using assms(3) by (cases "socks S a") (auto simp: add_sock_event_def)
  show ?thesis
  proof (cases "wakeup s")
    case None
    then show ?thesis using assms s by (simp add: add_sock_event_def)
  next
    case (Some w)
    obtain p where p: "polls S w = Some p" using assms(3) s Some by (cases "polls S w") (auto simp: add_sock_event_def)
    let ?up = "sock_upd a (\<lambda>s. s\<lparr>events := events s OR (if event = epollerr then epollin OR epollerr else event AND epoll_events s)\<rparr>) S"
    let ?S = "if wtype p = Wakeup_epoll then if linked s = None then link_event E w a ?up else ?up else S"
    have up: "ep_inv E ?up" using assms(2) by (intro ep_law) simp_all
    have linked: "linked s = None \<Longrightarrow> ep_inv E (link_event E w a ?up)"
      using ep_inv_link [OF up assms(1), of a _ w p] s p by simp
    have S: "ep_inv E ?S" using up linked assms(2) by simp
    have "polls (link_event E w a ?up) w \<noteq> None" using p by (simp add: link_polls)
    then have "polls ?S w \<noteq> None" using p by simp
    then obtain q where q: "polls ?S w = Some q" by blast
    let ?out = "if wtype p \<noteq> Wakeup_epoll then Some False
                else if event = epollin then do { c \<leftarrow> conn s; Some (\<not> conn_listens c \<and> \<not> netconn_is_datain s) }
                else Some (event = epollout \<and> \<not> netconn_is_outidle s)"
    let ?F = "if w \<in> set (wakeup_lists ?S (sock_stack_idx s)) then ?S
        else ?S\<lparr>wakeup_lists := (wakeup_lists ?S)(sock_stack_idx s := list_put E w (wakeup_lists ?S (sock_stack_idx s)))\<rparr>"
    have "add_sock_event E a event S = (if wtype p = Wakeup_close \<or> event AND epoll_events s = 0 then Some S
        else Option.bind ?out (\<lambda>b. if b then Some S else Some ?F))"
      by (simp only: add_sock_event_def s p Some Let_def bind.bind_lunit option.case)
    from guarded_result [OF trans [OF this [symmetric] assms(3)]] show ?thesis
    proof
      assume "T = S" then show ?thesis using assms(2) by simp
    next
      assume "T = ?F"
      then show ?thesis by (simp only:) (rule wakeup_put_inv [OF assms(1) S q ep_invD(6) [OF assms(2) s]])
    qed
  qed
qed

lemma wakeup_one_inv:
  assumes "ep_inv E S" "wakeup_one i w S = Some T"
  shows "ep_inv E T"
proof -
  obtain p where p: "polls S w = Some p" using assms(2) by (cases "polls S w") (auto simp: wakeup_one_def)
  let ?S = "if in_wait p then (poll_upd w (\<lambda>p. p\<lparr>in_wait := False, wait_locked := False\<rparr>) S)
      \<lparr>wakeup_events := (wakeup_events S)(i := wakeup_events S i + 1)\<rparr> else S"
  have "ep_inv E ?S" using assms(1) by (auto intro!: ep_law)
  from ep_inv_wakeup_remove [OF this, of i w] show ?thesis
    using assms(2) p by (simp add: wakeup_one_def Let_def split: if_splits)
qed

lemma wakeup_each_inv: "ep_inv E S \<Longrightarrow> wakeup_each i ws S = Some T \<Longrightarrow> ep_inv E T"
  by (induction ws arbitrary: S) (auto split: option.splits dest: wakeup_one_inv)

lemma wakeup_stack_epoll_inv: "ep_inv E S \<Longrightarrow> wakeup_stack_epoll i S = Some T \<Longrightarrow> ep_inv E T"
  unfolding wakeup_stack_epoll_def by (rule wakeup_each_inv)

lemma kernel_event_each_inv:
  "puts_node E \<Longrightarrow> ep_inv E S \<Longrightarrow> i < stack_num E \<Longrightarrow> kernel_event_each E i ws S = Some T \<Longrightarrow> ep_inv E T"
proof (induction ws arbitrary: S)
  case (Cons w ws)
  then obtain p where p: "polls S w = Some p" by (cases "polls S w") auto
  let ?S = "poll_upd w (\<lambda>p. p\<lparr>have_kernel_event := True\<rparr>) S"
  have "ep_inv E ?S" using Cons.prems by (intro ep_law) simp_all
  then have T: "ep_inv E (if w \<in> set (wakeup_lists ?S i) then ?S
     else ?S\<lparr>wakeup_lists := (wakeup_lists ?S)(i := list_put E w (wakeup_lists ?S i))\<rparr>)" (is "ep_inv E ?T")
    using wakeup_put_inv [OF Cons.prems(1) _ _ Cons.prems(3), of ?S w "p\<lparr>have_kernel_event := True\<rparr>"] p by simp
  have "kernel_event_each E i (w # ws) S = kernel_event_each E i ws (if wtype p = Wakeup_close then S else ?T)"
    using p by (simp add: Let_def)
  then show ?case using Cons.IH [OF Cons.prems(1) T Cons.prems(3)] Cons.IH [OF Cons.prems(1-3)] Cons.prems(4)
    by (cases "wtype p = Wakeup_close") simp_all
qed simp

lemma wakeup_kernel_event_inv:
  "puts_node E \<Longrightarrow> ep_inv E S \<Longrightarrow> i < stack_num E \<Longrightarrow> wakeup_kernel_event E i S = Some T \<Longrightarrow> ep_inv E T"
  by (auto simp: wakeup_kernel_event_def split: if_splits intro!: ep_law dest: kernel_event_each_inv)

lemma stack_clean_epoll_inv [ep_law]: "ep_inv E S \<Longrightarrow> ep_inv E (stack_clean_epoll w i S)"
  unfolding stack_clean_epoll_def by (rule ep_law)

lemma broadcast_clean_inv [ep_law]: "ep_inv E S \<Longrightarrow> ep_inv E (stack_broadcast_clean_epoll F w S)"
proof -
  have "ep_inv E S \<Longrightarrow> ep_inv E (fold (stack_clean_epoll w) is S)" for "is"
    by (induction "is" arbitrary: S) (auto intro: ep_law)
  then show "ep_inv E S \<Longrightarrow> ?thesis" by (simp add: stack_broadcast_clean_epoll_def)
qed

lemma del_data_inv:
  "ep_inv E S \<Longrightarrow> del_data_in_event a S = Some T \<Longrightarrow> ep_inv E T"
  "ep_inv E S \<Longrightarrow> del_data_out_event a S = Some T \<Longrightarrow> ep_inv E T"
  by (auto simp: del_data_in_event_def del_data_out_event_def Let_def split: option.splits bind_splits if_splits intro!: ep_law)

lemma del_accept_inv: "ep_inv E S \<Longrightarrow> del_accept_in_event a S = Some T \<Longrightarrow> ep_inv E T"
  by (auto simp: del_accept_in_event_def Let_def split: option.splits bind_splits if_splits intro!: ep_law)

lemma clean_sock_inv: "ep_inv E S \<Longrightarrow> clean_sock_events has_stack a S = Some T \<Longrightarrow> ep_inv E T"
  by (auto simp: clean_sock_events_def reset_sock_events_def split: option.splits bind_splits if_splits intro!: ep_law)

lemma ep_inv_init:
  assumes inv: "ep_inv E S" and i: "i < stack_num E" and none: "\<And>t. socks S a = Some t \<Longrightarrow> linked t = None"
  shows "ep_inv E (sock_upd a (\<lambda>s. s\<lparr>sock_stack_idx := i, linked := None\<rparr>) S)" (is "ep_inv E ?T")
proof -
  have old: "\<exists>s. socks S b = Some s \<and> linked s = linked t \<and> (b = a \<or> t = s)" if "socks ?T b = Some t" for b t
    using that none by (auto split: if_splits)
  have new: "\<exists>t. socks ?T b = Some t \<and> linked t = linked s" if "socks S b = Some s" for b s
    using that none by auto
  have "distinct (event_list p)" if "polls ?T w = Some p" for w p using inv that by (simp add: ep_inv_def)
  moreover have "\<exists>t. socks ?T b = Some t \<and> linked t = Some w" if p: "polls ?T w = Some p" and b: "b \<in> set (event_list p)" for w p b
  proof -
    have "polls S w = Some p" using p by simp
    then obtain s where "socks S b = Some s" "linked s = Some w" using ep_invD(2) [OF inv] b by blast
    then show ?thesis using new by metis
  qed
  moreover have "\<exists>p. polls ?T w = Some p \<and> b \<in> set (event_list p)" if t: "socks ?T b = Some t" and l: "linked t = Some w" for b t w
  proof -
    obtain s where "socks S b = Some s" "linked s = Some w" using old [OF t] l by auto
    then show ?thesis using inv by (simp add: ep_inv_def)
  qed
  moreover have "sock_stack_idx t < stack_num E" if t: "socks ?T b = Some t" for b t
    using t inv i by (auto simp: ep_inv_def split: if_splits)
  ultimately show ?thesis using inv unfolding ep_inv_def upd_simps(1,2) by blast
qed

lemma init_sock_inv:
  assumes "ep_inv E S" and "init_sock_events i made a S = Some T" and "i < stack_num E"
  shows "ep_inv E T"
proof -
  obtain s where s: "socks S a = Some s" using assms(2) by (auto simp: init_sock_events_def split: bind_splits)
  let ?R = "sock_upd a reset_sock_events S"
  have R: "ep_inv E ?R" using assms(1) by (intro ep_law) (simp_all add: reset_sock_events_def)
  show ?thesis
  proof (cases made)
    case True
    then have T: "T = sock_upd a (\<lambda>s. s\<lparr>sock_stack_idx := i, linked := None\<rparr>) ?R" "linked s = None"
      using assms(2) s by (auto simp: init_sock_events_def Let_def split: if_splits)
    have "linked t = None" if "socks ?R a = Some t" for t using that s T(2) by (auto simp: reset_sock_events_def)
    then show ?thesis using ep_inv_init [OF R assms(3)] unfolding T(1) by blast
  qed (use assms(2) s R in \<open>simp add: init_sock_events_def Let_def\<close>)
qed

text \<open>A socket whose epoll lives is in no list when it has been cleaned, so that its next initialisation is safe.\<close>

lemma clean_sock_unlinks:
  assumes "clean_sock_events True a S = Some T" and "socks S a = Some s" and "wakeup s = Some w" and "polls S w = Some p" and "wtype p = Wakeup_epoll"
  shows "\<exists>t. socks T a = Some t \<and> linked t = None \<and> wakeup t = None"
  using assms by (auto simp: clean_sock_events_def unlink_event_def reset_sock_events_def split: option.splits)

lemma raise_pending_inv:
  assumes "puts_node E" "ep_inv E S" "raise_pending_events E w a S = Some T"
  shows "ep_inv E T"
proof -
  obtain s p where s: "socks S a = Some s" "polls S w = Some p"
    using assms(3) by (auto simp: raise_pending_events_def split: bind_splits)
  let ?up = "\<lambda>e. sock_upd a (\<lambda>s. s\<lparr>events := e\<rparr>) S"
  have up: "ep_inv E (?up e)" for e using assms(2) by (intro ep_law) simp_all
  have "linked s = None \<Longrightarrow> ep_inv E (link_event E w a (?up e))" for e
    using ep_inv_link [OF up assms(1), where a = a and w = w and p = p] s by simp
  then show ?thesis using assms s up by (auto simp: raise_pending_events_def Let_def split: bind_splits if_splits)
qed

lemma unlink_all_inv [ep_law]: "ep_inv E S \<Longrightarrow> ep_inv E (fold unlink_event as S)"
  by (induction as arbitrary: S) (auto intro: ep_law)

lemma event_walk_inv: "ep_inv E S \<Longrightarrow> event_walk m as n S = Some (evs, T) \<Longrightarrow> ep_inv E T"
proof (induction m as n S arbitrary: evs rule: event_walk.induct)
  case (2 m a as n S)
  obtain s where s: "socks S a = Some s" using "2.prems" by (cases "socks S a") auto
  show ?case
  proof (cases "epoll_events s AND events s = 0")
    case True
    then show ?thesis using "2.IH"(1) [OF s True] "2.prems" s ep_inv_unlink by simp
  next
    case False
    let ?S1 = "if epoll_events s AND epollet \<noteq> 0 then unlink_event a S else S"
    let ?o = "epoll_events s AND epolloneshot \<noteq> 0"
    let ?S2 = "if ?o then sock_upd a (\<lambda>s. s\<lparr>epoll_events := 0\<rparr>) (unlink_event a ?S1) else ?S1"
    have S2: "ep_inv E ?S2" using "2.prems"(1) by (auto intro!: ep_law)
    show ?thesis
      using "2.IH"(2) [OF s False refl refl refl refl _ S2] "2.prems"(2) s False S2
      by (auto simp: Let_def split: if_splits)
  qed
qed simp

lemma update_max_stack_inv: "ep_inv E S \<Longrightarrow> update_epoll_max_stack F w S = Some T \<Longrightarrow> ep_inv E T"
  by (auto simp: update_epoll_max_stack_def split: bind_splits prod.splits intro!: ep_law)

lemma epoll_ctl_fn_inv: "ep_inv E S \<Longrightarrow> ep_inv E (snd (epoll_ctl_fn F epfd op fd ev S))"
  by (simp add: epoll_ctl_fn_def Let_def ep_law)

lemma change_epollfd_inv: "ep_inv E S \<Longrightarrow> change_epollfd_kernel_thread F w k l S = Some T \<Longrightarrow> ep_inv E T"
  by (auto simp: change_epollfd_kernel_thread_def Let_def split: bind_splits option.splits intro!: epoll_ctl_fn_inv)

lemma ep_inv_new_poll:
  assumes "ep_inv E S" "polls S w = None" "event_list p = []"
  shows "ep_inv E (S\<lparr>polls := (polls S)(w \<mapsto> p)\<rparr>)"
proof -
  have no: "linked s \<noteq> Some w" if "socks S a = Some s" for a s using ep_invD(3) [OF assms(1) that] assms(2) by fastforce
  show ?thesis using assms no unfolding ep_inv_def by (auto simp: subset_iff)
qed

lemma epoll_create_inv:
  assumes "ep_inv E S" "polls S w = None" "lstack_do_epoll_create F (Some w) ok fd S = Some (r, T)"
  shows "ep_inv E T"
proof -
  have new: "ep_inv E (S\<lparr>polls := (polls S)(w \<mapsto> (fresh_wakeup Wakeup_epoll)\<lparr>epollfd := fd\<rparr>), poll_list := x\<rparr>)" for x
    using ep_inv_new_poll [OF assms(1,2)] by (intro ep_law) (simp add: fresh_wakeup_def)
  have closed: "ep_inv E (S\<lparr>closed_fds := x\<rparr>)" for x using assms(1) by (rule ep_law)
  have claim: "ep_inv E (sock_upd a (\<lambda>s. s\<lparr>wakeup := Some w\<rparr>) U)" if "ep_inv E U" for a U using that by (intro ep_law) simp_all
  have bind: "ep_inv E (poll_upd w (\<lambda>p. p\<lparr>bind_stack := k\<rparr>) U)" if "ep_inv E U" for k U using that by (intro ep_law) simp_all
  show ?thesis
    using assms(1,3) new closed
    by (auto simp: lstack_do_epoll_create_def Let_def split: if_splits option.splits bind_splits
        intro!: bind dest!: change_epollfd_inv [rotated] update_max_stack_inv [OF claim, rotated])
qed

lemma unlink_event_list:
  assumes "ep_inv E S" "polls S w = Some p" "a \<in> set (event_list p)"
  shows "map_option event_list (polls (unlink_event a S) w) = Some (remove1 a (event_list p))"
  using ep_invD(2) [OF assms] assms(2) by (auto simp: unlink_event_def)

lemma unlink_all_empties:
  "ep_inv E S \<Longrightarrow> polls S w = Some p \<Longrightarrow> as = event_list p \<Longrightarrow>
     map_option event_list (polls (fold unlink_event as S) w) = Some []"
proof (induction as arbitrary: S p)
  case (Cons a as)
  have "map_option event_list (polls (unlink_event a S) w) = Some as"
    using unlink_event_list [OF Cons.prems(1,2), of a] by (simp add: Cons.prems(3) [symmetric])
  then obtain q where q: "polls (unlink_event a S) w = Some q" "event_list q = as" by auto
  show ?case using Cons.IH [OF ep_inv_unlink [OF Cons.prems(1)] q(1) q(2) [symmetric]] by simp
qed simp

lemma broadcast_clean_cleans:
  assumes "ep_inv E S"
  shows "w \<notin> set (wakeup_lists (stack_broadcast_clean_epoll E w S) i)"
proof -
  have keep: "w \<notin> set (wakeup_lists T i) \<Longrightarrow> w \<notin> set (wakeup_lists (fold (stack_clean_epoll w) is T) i)" for "is" T
  proof (induction "is" arbitrary: T)
    case (Cons j "is")
    have "w \<notin> set (wakeup_lists (stack_clean_epoll w j T) i)"
      using Cons.prems by (auto simp: stack_clean_epoll_def dest: notin_set_remove1)
    then show ?case using Cons.IH by simp
  qed simp
  have "i \<in> set is \<Longrightarrow> ep_inv E T \<Longrightarrow> w \<notin> set (wakeup_lists (fold (stack_clean_epoll w) is T) i)" for "is" T
  proof (induction "is" arbitrary: T)
    case (Cons j "is")
    show ?case
    proof (cases "i = j")
      case True
      have "w \<notin> set (wakeup_lists (stack_clean_epoll w j T) i)" using ep_invD(4) [OF Cons.prems(2), of i] True by (simp add: stack_clean_epoll_def)
      then show ?thesis using keep by simp
    qed (use Cons stack_clean_epoll_inv in auto)
  qed simp
  then show ?thesis using assms keep ep_invD(7) [OF assms, of i]
    by (cases "i < stack_num E") (simp_all add: stack_broadcast_clean_epoll_def)
qed

lemma clean_frame:
  "polls (stack_broadcast_clean_epoll F w S) = polls S" "socks (stack_broadcast_clean_epoll F w S) = socks S"
proof -
  have "polls (fold (stack_clean_epoll w) is S) = polls S \<and> socks (fold (stack_clean_epoll w) is S) = socks S" for "is"
    by (induction "is" arbitrary: S) (simp_all add: stack_clean_epoll_def)
  then show "polls (stack_broadcast_clean_epoll F w S) = polls S" "socks (stack_broadcast_clean_epoll F w S) = socks S"
    by (simp_all add: stack_broadcast_clean_epoll_def)
qed

lemma unlink_wakeup_lists: "wakeup_lists (fold unlink_event as S) = wakeup_lists S"
  by (induction as arbitrary: S) (simp_all add: unlink_event_def split: option.splits)

lemma ep_inv_free:
  assumes "ep_inv E S" "map_option event_list (polls S w) = Some []" "\<And>i. w \<notin> set (wakeup_lists S i)"
  shows "ep_inv E (S\<lparr>polls := (polls S)(w := None)\<rparr>)"
proof -
  have no: "linked s \<noteq> Some w" if "socks S a = Some s" for a s using ep_invD(3) [OF assms(1) that] assms(2) by fastforce
  show ?thesis using assms no unfolding ep_inv_def by (auto simp: subset_iff)
qed

lemma epoll_close_inv:
  assumes "ep_inv E S" "lstack_epoll_close E fd S = Some (r, T)"
  shows "ep_inv E T"
proof (cases "Option.bind (sock_at E fd) (\<lambda>a. Option.bind (socks S a) wakeup)")
  case None
  then show ?thesis using assms by (auto simp: lstack_epoll_close_def split: option.splits bind_splits)
next
  case (Some w)
  then obtain a s where a: "sock_at E fd = Some a" "socks S a = Some s" "wakeup s = Some w"
    by (auto split: bind_splits)
  obtain p where p: "polls S w = Some p" using assms(2) a by (cases "polls S w") (auto simp: lstack_epoll_close_def)
  let ?A = "poll_upd w (\<lambda>p. p\<lparr>wtype := Wakeup_close\<rparr>) S"
  let ?B = "stack_broadcast_clean_epoll E w ?A"
  let ?C = "fold unlink_event (event_list p) ?B"
  let ?D = "(?C\<lparr>poll_list := remove1 w (poll_list ?C)\<rparr>)"
  have A: "ep_inv E ?A" using assms(1) by (intro ep_law) simp_all
  have B: "ep_inv E ?B" using A by (rule ep_law)
  have "polls ?B w = Some (p\<lparr>wtype := Wakeup_close\<rparr>)" using p by (simp add: clean_frame)
  from unlink_all_empties [OF B this] have C: "map_option event_list (polls ?C w) = Some []" by simp
  have "w \<notin> set (wakeup_lists ?C i)" for i unfolding unlink_wakeup_lists by (rule broadcast_clean_cleans [OF A])
  then have D: "ep_inv E (?D\<lparr>polls := (polls ?D)(w := None)\<rparr>)"
    using C ep_inv_free [OF ep_inv_other(3) [OF unlink_all_inv [OF B]], where w = w] by simp
  have "T = (sock_upd a (\<lambda>s. s\<lparr>wakeup := None\<rparr>) (?D\<lparr>polls := (polls ?D)(w := None)\<rparr>))\<lparr>closed_fds :=
       closed_fds (sock_upd a (\<lambda>s. s\<lparr>wakeup := None\<rparr>) (?D\<lparr>polls := (polls ?D)(w := None)\<rparr>)) @ [fd]\<rparr>"
    using assms(2) a p by (simp add: lstack_epoll_close_def Let_def sock_upd_def)
  then show ?thesis by (simp only:) (intro ep_law D; simp)
qed

lemma ctl_one_inv:
  assumes "puts_node E" "ep_inv E S" "ctl_one E w op event a S = Some (Some T)"
  shows "ep_inv E T"
proof -
  have set: "ep_inv E (sock_upd a (\<lambda>s. s\<lparr>epoll_events := x, ep_data := y\<rparr>) U)" if "ep_inv E U" for U x y
    using that by (intro ep_law) simp_all
  have add: "ep_inv E (poll_upd w (\<lambda>p. p\<lparr>stack_fd_cnt := (stack_fd_cnt p)(i := stack_fd_cnt p i + 1)\<rparr>)
      (sock_upd a (\<lambda>s. s\<lparr>wakeup := Some w\<rparr>) S))" for i
    using assms(2) by (intro ep_law) simp_all
  have del: "ep_inv E (unlink_event a (poll_upd w (\<lambda>p. p\<lparr>stack_fd_cnt := (stack_fd_cnt p)(i := stack_fd_cnt p i - 1)\<rparr>)
      (sock_upd a (\<lambda>s. s\<lparr>epoll_events := 0\<rparr>) S)))" for i
    using assms(2) by (intro ep_law) simp_all
  show ?thesis
    using assms(3) raise_pending_inv [OF assms(1) set [OF add]] raise_pending_inv [OF assms(1) set [OF assms(2)]] del
    by (auto simp: ctl_one_def Let_def split: bind_splits if_splits prod.splits)
qed

lemma ctl_each_inv:
  assumes run: "ctl_each E w op event a S = Some r"
  shows "puts_node E \<longrightarrow> ep_inv E S \<longrightarrow> (\<forall>T. r = Some T \<longrightarrow> ep_inv E T)"
proof (rule ctl_each.raw_induct [OF _ run, where P = "\<lambda>E w op event a S r. puts_node E \<longrightarrow> ep_inv E S \<longrightarrow> (\<forall>T. r = Some T \<longrightarrow> ep_inv E T)"],
    intro impI allI)
  fix rec E w op event a S r T
  assume IH: "\<And>E w op event a S r. rec E w op event a S = Some r \<Longrightarrow> puts_node E \<longrightarrow> ep_inv E S \<longrightarrow> (\<forall>T. r = Some T \<longrightarrow> ep_inv E T)"
    and b: "(case ctl_one E w op event a S of None \<Rightarrow> None | Some None \<Rightarrow> Some None
      | Some (Some S) \<Rightarrow> (case Option.bind (socks S a) listen_next of None \<Rightarrow> Some (Some S) | Some b \<Rightarrow> rec E w op event b S)) = Some r"
    and h: "puts_node E" "ep_inv E S" "r = Some T"
  obtain U where U: "ctl_one E w op event a S = Some (Some U)" using b h(3) by (auto split: option.splits)
  then have "ep_inv E U" using ctl_one_inv h(1,2) by blast
  then show "ep_inv E T" using IH b h U by (auto split: option.splits)
qed

lemma epoll_ctl_inv:
  assumes "puts_node E" "ep_inv E S" "lstack_epoll_ctl E epfd op fd event S = Some (r, T)"
  shows "ep_inv E T"
  using assms epoll_ctl_fn_inv [OF assms(2), of E epfd op fd event]
  by (auto simp: lstack_epoll_ctl_def Let_def split: if_splits option.splits bind_splits
      dest!: ctl_each_inv update_max_stack_inv [rotated])

lemma epoll_lwip_event_inv: "ep_inv E S \<Longrightarrow> epoll_lwip_event w m S = Some (evs, T) \<Longrightarrow> ep_inv E T"
  by (auto simp: epoll_lwip_event_def split: bind_splits prod.splits intro!: ep_law dest: event_walk_inv)

lemma epoll_round_inv: "ep_inv E S \<Longrightarrow> epoll_round kw w m kn S = Some (evs, n, kevs, T) \<Longrightarrow> ep_inv E T"
proof -
  assume S: "ep_inv E S" and r: "epoll_round kw w m kn S = Some (evs, n, kevs, T)"
  let ?A = "poll_upd w (\<lambda>p. p\<lparr>in_wait := True\<rparr>) S"
  have A: "ep_inv E ?A" using S by (intro ep_law) simp_all
  obtain es B where B: "epoll_lwip_event w m ?A = Some (es, B)" using r by (auto simp: epoll_round_def split: bind_splits)
  have B': "ep_inv E (poll_upd w (\<lambda>p. p\<lparr>app_events := app_events p + word_of_nat (length es)\<rparr>) B)"
    using epoll_lwip_event_inv [OF A B] by (intro ep_law) simp_all
  show ?thesis using r B B' by (auto simp: epoll_round_def Let_def split: bind_splits prod.splits if_splits intro!: ep_law)
qed

lemma poll_claim_inv:
  assumes run: "poll_claim w ev a cnt S = Some r"
  shows "ep_inv E S \<longrightarrow> ep_inv E (snd r)"
proof (rule poll_claim.raw_induct [OF _ run, where P = "\<lambda>w ev a cnt S r. ep_inv E S \<longrightarrow> ep_inv E (snd r)"], intro impI)
  fix rec w ev a cnt S r
  assume IH: "\<And>w ev a cnt S r. rec w ev a cnt S = Some r \<Longrightarrow> ep_inv E S \<longrightarrow> ep_inv E (snd r)"
    and b: "(case a of None \<Rightarrow> Some (cnt, S)
      | Some b \<Rightarrow> (case socks S b of None \<Rightarrow> None
        | Some s \<Rightarrow> if conn s = None then Some (cnt, S)
            else rec w ev (listen_next s) (cnt(sock_stack_idx s := cnt (sock_stack_idx s) + 1))
                   (sock_upd b (\<lambda>s. s\<lparr>epoll_events := ev, wakeup := Some w\<rparr>) S))) = Some r"
    and h: "ep_inv E S"
  have "ep_inv E (sock_upd b (\<lambda>s. s\<lparr>epoll_events := ev, wakeup := Some w\<rparr>) S)" for b
    using h by (intro ep_law) simp_all
  then show "ep_inv E (snd r)" using IH b h by (auto split: option.splits if_splits)
qed

lemma update_kernel_poll_inv: "ep_inv E S \<Longrightarrow> update_kernel_poll F w i f S = Some T \<Longrightarrow> ep_inv E T"
  by (auto simp: update_kernel_poll_def Let_def split: bind_splits if_splits option.splits intro!: epoll_ctl_fn_inv)

lemma poll_init_each_inv:
  "poll_init_each E w i fs (ch, cnt, S) = Some (fs', ch', cnt', T) \<Longrightarrow> ep_inv E S \<Longrightarrow> ep_inv E T"
proof (induction fs arbitrary: i ch cnt S fs')
  case (Cons f fs)
  have set: "ep_inv E (poll_upd w (\<lambda>p. p\<lparr>last_fds := (last_fds p)[i := x]\<rparr>) S)" for x
    using Cons.prems(2) by (intro ep_law) simp_all
  show ?case using Cons set
    by (auto simp: Let_def split: bind_splits if_splits prod.splits
        dest!: poll_claim_inv [where E = E] update_kernel_poll_inv [OF set])
qed simp

lemma poll_bind_inv: "ep_inv E S \<Longrightarrow> poll_bind_statck F w cnt S = Some T \<Longrightarrow> ep_inv E T"
  by (auto simp: poll_bind_statck_def Let_def split: bind_splits if_splits prod.splits intro!: ep_law
      dest!: change_epollfd_inv [rotated])

lemma poll_init_inv:
  assumes "ep_inv E S" "poll_init E w ok fs S = Some (fs', T)"
  shows "ep_inv E T"
proof -
  have r: "ep_inv E (resize_kernel_poll w ok n S)" for n
    unfolding resize_kernel_poll_def using assms(1) by (intro ep_law) simp_all
  have l: "ep_inv E (poll_upd w (\<lambda>p. p\<lparr>last_nfds := n\<rparr>) U)" if "ep_inv E U" for n U
    using that by (intro ep_law) simp_all
  show ?thesis using assms r l
    by (auto simp: poll_init_def Let_def split: bind_splits if_splits prod.splits
        dest!: poll_init_each_inv poll_bind_inv [OF l, rotated])
qed

lemma poll_round_inv: "ep_inv E S \<Longrightarrow> poll_round F kw w kn fs S = Some (n, kn', fs', T) \<Longrightarrow> ep_inv E T"
  by (auto simp: poll_round_def Let_def split: bind_splits if_splits prod.splits intro!: ep_law)

lemma init_poll_inv:
  assumes "ep_inv E S" "init_poll_wakeup_data F w mutex_ok epfd fds_ok ev_ok S = Some (r, T)"
  shows "ep_inv E T"
proof -
  have p: "ep_inv E (poll_upd w g U)" if "ep_inv E U" "\<And>p. event_list (g p) = event_list p" for g U using that by (rule ep_law)
  show ?thesis using assms
    by (auto simp: init_poll_wakeup_data_def Let_def split: if_splits bind_splits prod.splits
        intro!: ep_law dest!: change_epollfd_inv [rotated])
qed

section \<open>What epoll_wait reports\<close>

definition sock_ready :: "ep_state \<Rightarrow> addr \<Rightarrow> bool" where
  "sock_ready S a = (case socks S a of None \<Rightarrow> False | Some s \<Rightarrow> epoll_events s AND events s \<noteq> 0)"

definition has_flag :: "ep_state \<Rightarrow> u32 \<Rightarrow> addr \<Rightarrow> bool" where
  "has_flag S f a = (case socks S a of None \<Rightarrow> False | Some s \<Rightarrow> epoll_events s AND f \<noteq> 0)"

definition report :: "ep_state \<Rightarrow> addr \<Rightarrow> u32 \<times> u64" where
  "report S a = (case socks S a of None \<Rightarrow> (0, 0) | Some s \<Rightarrow> (events s AND epoll_events s, ep_data s))"

lemma unlink_sock:
  "map_option (\<lambda>s. s\<lparr>linked := None\<rparr>) (socks (unlink_event b S) a) = map_option (\<lambda>s. s\<lparr>linked := None\<rparr>) (socks S a)"
  by (cases "socks S a"; cases "a = b") (auto simp: unlink_event_def split: option.splits)

lemma same_but_linked:
  assumes "map_option (\<lambda>s. s\<lparr>linked := None\<rparr>) x = map_option (\<lambda>s. s\<lparr>linked := None\<rparr>) y" and "\<And>s. f (s\<lparr>linked := None\<rparr>) = f s"
  shows "(case x of None \<Rightarrow> d | Some s \<Rightarrow> f s) = (case y of None \<Rightarrow> d | Some s \<Rightarrow> f s)"
  using assms by (cases x; cases y) (simp_all, metis)

lemma unlink_ready [simp]:
  "sock_ready (unlink_event b S) = sock_ready S" "has_flag (unlink_event b S) f = has_flag S f" "report (unlink_event b S) = report S"
  unfolding sock_ready_def has_flag_def report_def
  by (rule ext, rule same_but_linked [OF unlink_sock], simp)+

lemma fits_word: "n < unat (m :: u32) \<Longrightarrow> word_of_nat (n + 1) \<ge> m \<longleftrightarrow> unat m = n + 1"
proof -
  assume n: "n < unat m"
  then have "unat (word_of_nat (n + 1) :: u32) = n + 1" using unat_lt32 [of m] by (simp add: unsigned_of_nat take_bit_nat_eq_self del: of_nat_add of_nat_Suc)
  then show ?thesis using n by (simp only: word_le_nat_alt) linarith
qed

lemma event_walk_skip: "socks S a = Some s \<Longrightarrow> \<not> sock_ready S a \<Longrightarrow> event_walk m (a # as) n S = event_walk m as n (unlink_event a S)"
  by (simp add: sock_ready_def)

lemma event_walk_take:
  "socks S a = Some s \<Longrightarrow> sock_ready S a \<Longrightarrow> \<not> has_flag S epolloneshot a \<Longrightarrow>
   event_walk m (a # as) n S =
     (let S' = (if has_flag S epollet a then unlink_event a S else S) in
      if word_of_nat (n + 1) \<ge> m then Some ([report S a], S')
      else map_option (\<lambda>(evs, T). (report S a # evs, T)) (event_walk m as (n + 1) S'))"
  by (simp add: sock_ready_def has_flag_def report_def Let_def)

lemma event_walk_reports:
  assumes "n < unat m" and "\<forall>a \<in> set as. socks S a \<noteq> None \<and> \<not> has_flag S epolloneshot a" and "distinct as"
  shows "\<exists>ds. event_walk m as n S = Some (map (report S) (take (unat m - n) (filter (sock_ready S) as)), fold unlink_event ds S) \<and>
    set ds \<subseteq> set as \<and> (\<forall>a \<in> set as. sock_ready S a \<longrightarrow>
      (a \<in> set ds \<longleftrightarrow> a \<in> set (take (unat m - n) (filter (sock_ready S) as)) \<and> has_flag S epollet a))"
  using assms
proof (induction as arbitrary: n S)
  case Nil
  then show ?case by (intro exI [of _ "[]"]) simp
next
  case (Cons a as)
  obtain s where s: "socks S a = Some s" using Cons.prems(2) by auto
  have a: "a \<notin> set as" "distinct as" using Cons.prems(3) by simp_all
  have one: "\<not> has_flag S epolloneshot a" using Cons.prems(2) by simp
  have rest: "\<forall>b \<in> set as. socks (unlink_event a S) b \<noteq> None \<and> \<not> has_flag (unlink_event a S) epolloneshot b"
    using Cons.prems(2) unlink_sock [of a S] by (metis list.set_intros(2) option.map_disc_iff unlink_ready(2))
  show ?case
  proof (cases "sock_ready S a")
    case False
    obtain ds where ds: "event_walk m as n (unlink_event a S) =
        Some (map (report S) (take (unat m - n) (filter (sock_ready S) as)), fold unlink_event ds (unlink_event a S))"
      "set ds \<subseteq> set as" "\<forall>b \<in> set as. sock_ready S b \<longrightarrow>
        (b \<in> set ds \<longleftrightarrow> b \<in> set (take (unat m - n) (filter (sock_ready S) as)) \<and> has_flag S epollet b)"
      using Cons.IH [OF Cons.prems(1) rest a(2)] by auto
    then show ?thesis using False a
      by (intro exI [of _ "a # ds"]) (auto simp: event_walk_skip [OF s False] simp del: event_walk.simps)
  next
    case True
    let ?S = "if has_flag S epollet a then unlink_event a S else S"
    let ?d = "if has_flag S epollet a then [a] else []"
    have S: "sock_ready ?S = sock_ready S" "has_flag ?S = has_flag S" "report ?S = report S" by (auto simp: fun_eq_iff)
    have fold: "fold unlink_event (?d @ ds) S = fold unlink_event ds ?S" for ds by simp
    show ?thesis
    proof (cases "unat m = n + 1")
      case last: True
      then show ?thesis using True fits_word [OF Cons.prems(1)] a fold [of "[]"]
        by (intro exI [of _ ?d]) (auto simp: event_walk_take [OF s True one] Let_def simp del: event_walk.simps)
    next
      case False
      have n: "n + 1 < unat m" using Cons.prems(1) False by simp
      have "\<forall>b \<in> set as. socks ?S b \<noteq> None \<and> \<not> has_flag ?S epolloneshot b" using rest Cons.prems(2) by simp
      from Cons.IH [OF n this a(2), unfolded S] obtain ds where ds: "event_walk m as (n + 1) ?S =
          Some (map (report S) (take (unat m - (n + 1)) (filter (sock_ready S) as)), fold unlink_event ds ?S)"
        "set ds \<subseteq> set as" "\<forall>b \<in> set as. sock_ready S b \<longrightarrow>
          (b \<in> set ds \<longleftrightarrow> b \<in> set (take (unat m - (n + 1)) (filter (sock_ready S) as)) \<and> has_flag S epollet b)" by blast
      have m: "unat m - n = Suc (unat m - (n + 1))" using n by simp
      have walk: "event_walk m (a # as) n S = Some (map (report S) (take (unat m - n) (filter (sock_ready S) (a # as))), fold unlink_event (?d @ ds) S)"
        unfolding event_walk_take [OF s True one] Let_def fold m using ds(1) False fits_word [OF Cons.prems(1)] True by simp
      show ?thesis using walk ds(2,3) a True unfolding m
        by (intro exI [of _ "?d @ ds"]) (auto simp del: event_walk.simps)
    qed
  qed
qed

lemma unlink_event_set:
  assumes "ep_inv E S" "polls S w = Some p"
  shows "\<exists>q. polls (unlink_event a S) w = Some q \<and> set (event_list q) = set (event_list p) - {a}"
proof (cases "a \<in> set (event_list p)")
  case True
  obtain q where q: "polls (unlink_event a S) w = Some q" "event_list q = remove1 a (event_list p)"
    using unlink_event_list [OF assms True] by auto
  then show ?thesis using ep_invD(1) [OF assms] by simp
next
  case False
  have "Option.bind (socks S a) linked \<noteq> Some w"
    using ep_invD(3) [OF assms(1), of a _ w] assms(2) False by (auto split: bind_splits)
  then show ?thesis using assms(2) False by (auto simp: unlink_event_def split: option.splits)
qed

lemma unlink_all_event_set:
  "ep_inv E S \<Longrightarrow> polls S w = Some p \<Longrightarrow>
     \<exists>q. polls (fold unlink_event ds S) w = Some q \<and> set (event_list q) = set (event_list p) - set ds"
proof (induction ds arbitrary: S p)
  case (Cons d ds)
  obtain q where q: "polls (unlink_event d S) w = Some q" "set (event_list q) = set (event_list p) - {d}"
    using unlink_event_set [OF Cons.prems] by blast
  have "ep_inv E (unlink_event d S)" using Cons.prems(1) by (rule ep_law)
  from Cons.IH [OF this q(1)] q(2) show ?case by auto
qed simp

lemma unlink_poll:
  "map_option (\<lambda>p. p\<lparr>event_list := []\<rparr>) (polls (unlink_event b S) w) = map_option (\<lambda>p. p\<lparr>event_list := []\<rparr>) (polls S w)"
  by (cases "polls S w") (auto simp: unlink_event_def split: option.splits)

section \<open>Properties\<close>

text \<open>C29: What epoll_wait takes from the lwip side of a list none of whose sockets asked for
  EPOLLONESHOT (of those that did the code reports no event, see \<open>oneshot_reports_no_event\<close>).
  With room for at least one event, it reports the ready sockets of the event list in
  its order, at most as many as there is room for, each with those of its events that were asked
  for; afterwards a ready socket is still in the list, unless it was reported and is edge
  triggered, and no other socket has come into it.
\<close>

theorem epoll_lwip_event_reports:
  assumes inv: "ep_inv E S" and p: "polls S w = Some p" and room: "0 < unat maxevents"
    and "\<forall>a \<in> set (event_list p). \<not> has_flag S epolloneshot a"
  shows "\<exists>T q. epoll_lwip_event w maxevents S = Some (map (report S) (take (unat maxevents) (filter (sock_ready S) (event_list p))), T) \<and>
    polls T w = Some q \<and> set (event_list q) \<subseteq> set (event_list p) \<and>
    (\<forall>a \<in> set (event_list p). sock_ready S a \<longrightarrow>
      (a \<in> set (event_list q) \<longleftrightarrow>
        \<not> (a \<in> set (take (unat maxevents) (filter (sock_ready S) (event_list p))) \<and> has_flag S epollet a)))"
proof -
  have "\<forall>a \<in> set (event_list p). socks S a \<noteq> None \<and> \<not> has_flag S epolloneshot a"
    using assms(4) ep_invD(2) [OF inv p] by fastforce
  from event_walk_reports [OF room this ep_invD(1) [OF inv p]] obtain ds where ds:
    "event_walk maxevents (event_list p) 0 S =
       Some (map (report S) (take (unat maxevents) (filter (sock_ready S) (event_list p))), fold unlink_event ds S)"
    "set ds \<subseteq> set (event_list p)"
    "\<forall>a \<in> set (event_list p). sock_ready S a \<longrightarrow>
       (a \<in> set ds \<longleftrightarrow> a \<in> set (take (unat maxevents) (filter (sock_ready S) (event_list p))) \<and> has_flag S epollet a)" by auto
  obtain q where q: "polls (fold unlink_event ds S) w = Some q" "set (event_list q) = set (event_list p) - set ds"
    using unlink_all_event_set [OF inv p] by blast
  show ?thesis using p ds q by (auto simp: epoll_lwip_event_def)
qed

text \<open>
  With EPOLLONESHOT the application is told nothing: the walk disarms the socket before it
  computes the events to report, so that a ready socket is reported with no event.
\<close>

theorem oneshot_reports_no_event:
  assumes "polls S w = Some p" and "event_list p = a # as" and "socks S a = Some s"
    and "events s AND epoll_events s \<noteq> 0" and "epoll_events s AND epolloneshot \<noteq> 0"
  shows "\<exists>T t. epoll_lwip_event w 1 S = Some ([(0, ep_data s)], T) \<and> socks T a = Some t \<and> epoll_events t = 0"
proof -
  have "epoll_events s AND events s \<noteq> 0" using assms(4) by (simp add: and.commute)
  then have walk: "\<exists>T t. event_walk 1 (a # as) 0 S = Some ([(0, ep_data s)], T) \<and> socks T a = Some t \<and> epoll_events t = 0"
    using assms(3,5) unlink_sock [of a "if epoll_events s AND epollet \<noteq> 0 then unlink_event a S else S" a] unlink_sock [of a S a]
    by (auto simp: Let_def)
  then show ?thesis using assms(1,2) by (auto simp: epoll_lwip_event_def simp del: event_walk.simps)
qed

text \<open>
  When the lwip side has filled the array and a kernel event is pending, the kernel is asked with no
  room left, which it answers with an error; its -1 is added to the number of events. With room
  for one event epoll_wait then returns 0 although it stored an event, and an edge triggered
  socket is not reported again.
\<close>

theorem full_array_loses_an_event:
  assumes "ep_inv E S" "polls S w = Some p" "event_list p = a # as" "socks S a = Some s"
    and "events s AND epoll_events s \<noteq> 0" "epoll_events s AND epollet \<noteq> 0" "epoll_events s AND epolloneshot = 0"
    and "have_kernel_event p" and "\<And>k room. room \<le> 0 \<Longrightarrow> kwait k room = (- 1, [])"
  shows "\<exists>T q. epoll_wait_loop kwait blocked w 1 0 0 0 S = Some (0, [(events s AND epoll_events s, ep_data s)], T) \<and>
    polls T w = Some q \<and> a \<notin> set (event_list q)"
proof -
  let ?S = "poll_upd w (\<lambda>p. p\<lparr>in_wait := True\<rparr>) S"
  have "epoll_events s AND events s \<noteq> 0" using assms(5) by (simp add: and.commute)
  then have walk: "event_walk 1 (a # as) 0 ?S = Some ([(events s AND epoll_events s, ep_data s)], unlink_event a ?S)"
    using assms(4,6,7) by simp
  have S: "ep_inv E ?S" "polls ?S w = Some (p\<lparr>in_wait := True\<rparr>)" using assms(1,2) by (auto intro: ep_law)
  obtain q where q: "polls (unlink_event a ?S) w = Some q" "set (event_list q) = set (event_list p) - {a}"
    using unlink_event_set [OF S, of a] by auto
  obtain b where b: "polls ?S w = Some b" "b\<lparr>event_list := []\<rparr> = q\<lparr>event_list := []\<rparr>"
    using map_option_eqD [OF unlink_poll q(1)] by blast
  have hk: "have_kernel_event q" 
    using arg_cong [OF b(2), of have_kernel_event] trans [OF b(1) [symmetric] S(2)] assms(8) by simp
  let ?T = "poll_upd w (\<lambda>p. p\<lparr>app_events := app_events p + 1\<rparr>) (poll_upd w (\<lambda>p. p\<lparr>app_events := app_events p + 1\<rparr>) (unlink_event a ?S))"
  have "epoll_lwip_event w 1 ?S = Some ([(events s AND epoll_events s, ep_data s)], poll_upd w (\<lambda>p. p\<lparr>app_events := app_events p + 1\<rparr>) (unlink_event a ?S))"
    using assms(2) walk assms(3) by (simp add: epoll_lwip_event_def del: event_walk.simps)
  then have r: "epoll_round (kwait 0) w 1 0 S = Some ([(events s AND epoll_events s, ep_data s)], - 1, [], ?T)"
    using q(1) hk assms(9) [of 0 0] by (simp add: epoll_round_def Let_def)
  have "epoll_wait_loop kwait blocked w 1 0 0 0 S = Some (0, [(events s AND epoll_events s, ep_data s)], ?T)"
    by (subst epoll_wait_loop.simps) (simp add: r)
  moreover have "polls ?T w = Some (q\<lparr>app_events := app_events q + 1 + 1\<rparr>)" using q(1) by simp
  ultimately show ?thesis using q(2) by auto
qed


text \<open>
  Closing an epoll descriptor frees its wakeup and clears the pointer in the epoll's own socket
  only: every other socket that was registered keeps pointing to it, and the next event the stack
  thread raises for such a socket reads the freed wakeup.
\<close>

theorem epoll_close_leaves_dangling_wakeup:
  assumes "lstack_epoll_close E fd S = Some (0, T)" and "sock_at E fd = Some e" "socks S e = Some es" "wakeup es = Some w"
    and "socks S a = Some s" "wakeup s = Some w" "a \<noteq> e"
  shows "add_sock_event E a event T = None"
proof -
  have keep: "map_option wakeup (socks (fold unlink_event ds U) a) = map_option wakeup (socks U a)" for ds U
    by (induction ds arbitrary: U) (auto simp: unlink_event_def option.map_comp comp_def split: option.splits)
  obtain p where p: "polls S w = Some p" using assms(1-4) by (cases "polls S w") (auto simp: lstack_epoll_close_def)
  let ?C = "fold unlink_event (event_list p) (stack_broadcast_clean_epoll E w (poll_upd w (\<lambda>p. p\<lparr>wtype := Wakeup_close\<rparr>) S))"
  have "polls T w = None" "socks T a = socks ?C a"
    using assms p by (auto simp: lstack_epoll_close_def Let_def)
  moreover have "map_option wakeup (socks ?C a) = Some (Some w)"
    unfolding keep using assms(5,6) by (simp add: clean_frame)
  ultimately show ?thesis by (auto simp: add_sock_event_def)
qed

text \<open>
  A thread's first poll that fails to initialise its wakeup frees it and keeps the pointer: the
  next poll of the thread uses the freed wakeup.
\<close>

theorem failed_poll_init_leaves_dangling_wakeup:
  assumes "al_wakeup al = Some w" and "\<not> al_mutex al \<or> sint (al_epollfd al) < 0 \<or> \<not> al_fds al \<or> \<not> al_events al"
  shows "\<exists>T. lstack_poll E al kwait blocked None fds timeout S = Some (- 1, fds, Some w, T) \<and>
    lstack_poll E al' kwait' blocked' (Some w) fds' timeout' T = None"
proof -
  have "polls T w = None \<Longrightarrow> lstack_poll E al' kwait' blocked' (Some w) fds' timeout' T = None" for T
    by (simp add: lstack_poll_def poll_init_def)
  then show ?thesis using assms by (auto simp: lstack_poll_def init_poll_wakeup_data_def Let_def)
qed

lemma poll_init_unchanged:
  "\<forall>j < length fds. last_fds p ! (i + j) = (pfd (fds ! j), pevents (fds ! j)) \<Longrightarrow> \<forall>f \<in> set fds. sock_at E (pfd f) = None \<Longrightarrow>
   polls S w = Some p \<Longrightarrow> i + length fds \<le> length (last_fds p) \<Longrightarrow>
   poll_init_each E w i fds (ch, cnt, S) = Some (map (\<lambda>f. f\<lparr>prevents := 0\<rparr>) fds, ch, cnt, S)"
proof (induction fds arbitrary: i)
  case (Cons f fs)
  have "\<forall>j < length fs. last_fds p ! (Suc i + j) = (pfd (fs ! j), pevents (fs ! j))" using Cons.prems(1) by force
  then have "poll_init_each E w (Suc i) fs (ch, cnt, S) = Some (map (\<lambda>f. f\<lparr>prevents := 0\<rparr>) fs, ch, cnt, S)"
    using Cons.IH Cons.prems(2-4) by simp
  moreover have "last_fds p ! i = (pfd f, pevents f)" using Cons.prems(1) by force
  ultimately show ?case using Cons.prems by (simp add: Let_def)
qed simp

lemma poll_lwip_none: "\<forall>f \<in> set fds. sock_at E (pfd f) = None \<Longrightarrow> poll_lwip_event E S fds = Some (0, fds)"
  by (induction fds) (simp_all add: poll_chain.simps)

text \<open>
  A poll on fewer descriptors than the last one takes none of the others out of the kernel's
  set: when such a descriptor becomes ready, its event is stored behind the end of the caller's
  array.
\<close>

theorem poll_reports_past_the_array:
  assumes p: "polls S w = Some p" and "have_kernel_event p" and fewer: "length fds < last_nfds p" "last_nfds p \<le> last_max_nfds p"
    and "length (last_fds p) = last_max_nfds p"
    and same: "\<forall>j < length fds. last_fds p ! j = (pfd (fds ! j), pevents (fds ! j))" "\<forall>f \<in> set fds. sock_at E (pfd f) = None"
    and "\<not> bind_numa E" and k: "kwait 0 (length fds) = (1, [(ev, index)])" "length fds \<le> index" "index < last_nfds p"
  shows "(\<exists>fds' T. poll_init E w (al_resize al) fds S = Some (fds', T) \<and> kernel_ctl T = kernel_ctl S) \<and>
    lstack_poll E al kwait blocked (Some w) fds timeout S = None"
proof -
  let ?fds = "map (\<lambda>f. f\<lparr>prevents := 0\<rparr>) fds"
  let ?T = "poll_upd w (\<lambda>p. p\<lparr>last_nfds := length fds\<rparr>) S"
  have init: "poll_init E w (al_resize al) fds S = Some (?fds, ?T)"
    using poll_init_unchanged [of fds p 0 E S w] assms by (simp add: poll_init_def Let_def)
  have "\<forall>f \<in> set ?fds. sock_at E (pfd f) = None" using same(2) by simp
  from poll_lwip_none [OF this] have "poll_round E (kwait 0) w 0 ?fds ?T = None"
    using p assms(2) k by (simp add: poll_round_def Let_def)
  then have "poll_loop E kwait blocked w timeout 0 0 ?fds ?T = None" by (subst poll_loop.simps) simp
  then show ?thesis using init by (auto simp: lstack_poll_def Let_def poll_upd_def)
qed

text \<open>Whatever the application, the stacks and the kernel do, call after call.\<close>

definition sock_io :: "ep_sock \<Rightarrow> ep_sock \<Rightarrow> bool" where
  "sock_io s t \<longleftrightarrow> (\<exists>c r sr l n e. t = s\<lparr>conn := c, recv_ring := r, send_ring := sr, recv_lastdata := l, same_node_ready := n, errevent := e\<rparr>)"

inductive ep_call :: "ep_env \<Rightarrow> ep_state \<Rightarrow> ep_state \<Rightarrow> bool" for E where
  ep_io: "socks S a = Some s \<Longrightarrow> sock_io s t \<Longrightarrow> ep_call E S (S\<lparr>socks := (socks S)(a \<mapsto> t)\<rparr>)"
| ep_event: "add_sock_event E a ev S = Some T \<Longrightarrow> ep_call E S T"
| ep_wakeup: "wakeup_stack_epoll i S = Some T \<Longrightarrow> ep_call E S T"
| ep_kernel_thread: "ep_call E S (gazelle_kernelevent_round i ws S)"
| ep_kernel: "i < stack_num E \<Longrightarrow> wakeup_kernel_event E i S = Some T \<Longrightarrow> ep_call E S T"
| ep_read: "del_data_in_event a S = Some T \<Longrightarrow> ep_call E S T"
| ep_write: "del_data_out_event a S = Some T \<Longrightarrow> ep_call E S T"
| ep_accept: "del_accept_in_event a S = Some T \<Longrightarrow> ep_call E S T"
| ep_clean: "clean_sock_events has_stack a S = Some T \<Longrightarrow> ep_call E S T"
| ep_init: "i < stack_num E \<Longrightarrow> init_sock_events i made a S = Some T \<Longrightarrow> ep_call E S T"
| ep_create: "polls S w = None \<Longrightarrow> lstack_do_epoll_create E (Some w) ok fd S = Some (r, T) \<Longrightarrow> ep_call E S T"
| ep_close: "lstack_epoll_close E fd S = Some (r, T) \<Longrightarrow> ep_call E S T"
| ep_ctl: "lstack_epoll_ctl E epfd op fd event S = Some (r, T) \<Longrightarrow> ep_call E S T"
| ep_bind: "epoll_bind_statck E w S = Some T \<Longrightarrow> ep_call E S T"
| ep_wait: "epoll_round kwait w m kn S = Some (evs, kn', kevs, T) \<Longrightarrow> ep_call E S T"
| ep_poll_start: "polls S w = None \<Longrightarrow>
    init_poll_wakeup_data E w mutex_ok epfd fds_ok ev_ok (S\<lparr>polls := (polls S)(w \<mapsto> (fresh_wakeup Wakeup_epoll)\<lparr>wait_locked := False\<rparr>)\<rparr>) = Some (r, T) \<Longrightarrow>
    ep_call E S (if sint r < 0 then T\<lparr>polls := (polls T)(w := None)\<rparr> else T)"
| ep_poll_init: "poll_init E w ok fds S = Some (fds', T) \<Longrightarrow> ep_call E S T"
| ep_poll: "poll_round E kw w kn fds S = Some (n, kn', fds', T) \<Longrightarrow> ep_call E S T"

lemma epoll_bind_inv: "ep_inv E S \<Longrightarrow> epoll_bind_statck F w S = Some T \<Longrightarrow> ep_inv E T"
  by (auto simp: epoll_bind_statck_def split: bind_splits option.splits if_splits intro!: ep_law dest!: change_epollfd_inv [rotated])

lemma poll_start_inv:
  assumes "ep_inv E S" "polls S w = None"
    "init_poll_wakeup_data E w mutex_ok epfd fds_ok ev_ok (S\<lparr>polls := (polls S)(w \<mapsto> (fresh_wakeup Wakeup_epoll)\<lparr>wait_locked := False\<rparr>)\<rparr>) = Some (r, T)"
  shows "ep_inv E (if sint r < 0 then T\<lparr>polls := (polls T)(w := None)\<rparr> else T)"
proof -
  have new: "ep_inv E (S\<lparr>polls := (polls S)(w \<mapsto> (fresh_wakeup Wakeup_epoll)\<lparr>wait_locked := False\<rparr>)\<rparr>)"
    using ep_inv_new_poll [OF assms(1,2)] by (simp add: fresh_wakeup_def)
  have T: "ep_inv E T" using init_poll_inv [OF new assms(3)] .
  have "sint r < 0 \<Longrightarrow> map_option event_list (polls T w) = Some [] \<and> wakeup_lists T = wakeup_lists S"
    using assms(3) by (auto simp: init_poll_wakeup_data_def Let_def fresh_wakeup_def split: if_splits bind_splits prod.splits)
  moreover have "w \<notin> set (wakeup_lists S i)" for i using ep_invD(5) [OF assms(1)] assms(2) by fastforce
  ultimately show ?thesis using T ep_inv_free [OF T] by simp
qed

lemma ep_call_inv: "ep_call E S T \<Longrightarrow> puts_node E \<Longrightarrow> ep_inv E S \<Longrightarrow> ep_inv E T"
proof (induction rule: ep_call.induct)
  case (ep_io S a s t)
  then show ?case by (intro ep_inv_cong [OF ep_io(4)]) (auto simp: sock_io_def)
next
  case (ep_kernel_thread S i ws)
  then show ?case by (auto simp: gazelle_kernelevent_round_def intro: ep_law)
qed (blast intro: add_sock_event_inv wakeup_stack_epoll_inv wakeup_kernel_event_inv del_data_inv del_accept_inv clean_sock_inv init_sock_inv epoll_create_inv
    epoll_close_inv epoll_ctl_inv epoll_bind_inv epoll_round_inv poll_start_inv poll_init_inv poll_round_inv)+

lemma wakeup_each_safe: "ep_inv E S \<Longrightarrow> set ws \<subseteq> dom (polls S) \<Longrightarrow> wakeup_each i ws S \<noteq> None"
proof (induction ws arbitrary: S)
  case (Cons w ws)
  obtain p where p: "polls S w = Some p" using Cons.prems(2) by auto
  then obtain T where T: "wakeup_one i w S = Some T" by (simp add: wakeup_one_def Let_def)
  have "dom (polls T) = dom (polls S)" using T p by (auto simp: wakeup_one_def Let_def split: if_splits)
  then show ?case using Cons.IH [OF wakeup_one_inv [OF Cons.prems(1) T]] Cons.prems(2) T by auto
qed simp

lemma socks_dom [simp]: "dom (socks (unlink_event a S)) = dom (socks S)" "dom (socks (sock_upd a f S)) = dom (socks S)"
  by (auto simp: unlink_event_def split: option.splits if_splits)

lemma event_walk_safe: "set as \<subseteq> dom (socks S) \<Longrightarrow> event_walk m as n S \<noteq> None"
proof (induction m as n S rule: event_walk.induct)
  case (2 m a as n S)
  obtain s where s: "socks S a = Some s" using "2.prems" by auto
  have sub: "set as \<subseteq> dom (socks S)" using "2.prems" by simp
  show ?case
  proof (cases "epoll_events s AND events s = 0")
    case True
    then show ?thesis using "2.IH"(1) [OF s True] sub s by simp
  next
    case False
    let ?S1 = "if epoll_events s AND epollet \<noteq> 0 then unlink_event a S else S"
    let ?S2 = "if epoll_events s AND epolloneshot \<noteq> 0 then sock_upd a (\<lambda>s. s\<lparr>epoll_events := 0\<rparr>) (unlink_event a ?S1) else ?S1"
    have "set as \<subseteq> dom (socks ?S2)" using sub by simp
    from "2.IH"(2) [OF s False refl refl refl refl _ this] show ?thesis
      using s False by (cases "epoll_events s AND epollet = 0"; cases "epoll_events s AND epolloneshot = 0") (auto simp: Let_def)
  qed
qed simp

text \<open>Calls on a socket whose wakeup lives.\<close>

lemma live_calls:
  assumes "socks S a = Some s" and "conn s \<noteq> None" and "\<forall>v. wakeup s = Some v \<longrightarrow> polls S v \<noteq> None"
  shows "add_sock_event E a ev S \<noteq> None \<and> clean_sock_events has_stack a S \<noteq> None \<and>
    (wakeup s \<noteq> None \<longrightarrow> del_data_in_event a S \<noteq> None \<and> del_data_out_event a S \<noteq> None \<and> del_accept_in_event a S \<noteq> None)"
proof (cases "wakeup s")
  case None
  then show ?thesis using assms(1) by (simp add: add_sock_event_def clean_sock_events_def)
next
  case (Some w)
  then obtain p c where "polls S w = Some p" "conn s = Some c" using assms(2,3) by blast
  then show ?thesis using assms(1) Some
    by (simp add: add_sock_event_def clean_sock_events_def del_data_in_event_def del_data_out_event_def del_accept_in_event_def Let_def)
qed

text \<open>C15: Over any run of completed calls of the application threads, the stack threads and the kernel threads, in any
  order, sockets being initialised, accepted on and closed among them:
  every socket is in at most one event list, once, and in no list of a wakeup that has been freed,
  and neither the walk of a stack over its wakeup list nor that of epoll_wait over its event list
  touches a freed object. A call that follows the pointer to a wakeup freed by \<open>lstack_epoll_close\<close> (see \<open>epoll_close_leaves_dangling_wakeup\<close>)
  or by a failed \<open>lstack_poll\<close>, and an initialisation of a socket that is still linked, does not complete, and the run
  ends there; the events a stack thread raises for a socket, and the reads, writes, accepts and closes on it,
  do complete as long as the socket has a connection and its wakeup, if any, lives.
\<close>

theorem epoll_lists_safe:
  assumes "puts_node E" and "polls S0 = Map.empty" "\<forall>i. wakeup_lists S0 i = []"
    and "\<forall>a s. socks S0 a = Some s \<longrightarrow> linked s = None \<and> sock_stack_idx s < stack_num E"
    and "(ep_call E)\<^sup>*\<^sup>* S0 S"
  shows "ep_inv E S \<and> wakeup_stack_epoll i S \<noteq> None \<and> (polls S w \<noteq> None \<longrightarrow> epoll_lwip_event w m S \<noteq> None) \<and>
    (\<forall>a s. socks S a = Some s \<longrightarrow> conn s \<noteq> None \<longrightarrow> (\<forall>v. wakeup s = Some v \<longrightarrow> polls S v \<noteq> None) \<longrightarrow>
       add_sock_event E a ev S \<noteq> None \<and> clean_sock_events has_stack a S \<noteq> None \<and>
       (wakeup s \<noteq> None \<longrightarrow> del_data_in_event a S \<noteq> None \<and> del_data_out_event a S \<noteq> None \<and> del_accept_in_event a S \<noteq> None))"
proof -
  have "ep_inv E S0" using assms(2-4) by (fastforce simp: ep_inv_def)
  with assms(5) have S: "ep_inv E S" by induction (use assms(1) ep_call_inv in blast)+
  have "epoll_lwip_event w m S \<noteq> None" if "polls S w = Some p" for p
  proof -
    have "set (event_list p) \<subseteq> dom (socks S)" using ep_invD(2) [OF S that] by fastforce
    then obtain r where "event_walk m (event_list p) 0 S = Some r" using event_walk_safe by blast
    then show ?thesis using that by (cases r) (simp add: epoll_lwip_event_def)
  qed
  moreover have "wakeup_stack_epoll i S \<noteq> None"
    using wakeup_each_safe [OF S] ep_invD(5) [OF S] unfolding wakeup_stack_epoll_def by (metis domI subsetI)
  ultimately show ?thesis using S live_calls by blast
qed

section \<open>Witnesses\<close>

definition demo_pring :: "addr rte_ring" where
  "demo_pring = \<lparr>prod_head = 0, prod_tail = 0, cons_head = 1, cons_tail = 0, capacity = 3, ring_size = 4, ring_tbl = (\<lambda>_. 7)\<rparr>"

definition demo_sock :: "u32 \<Rightarrow> addr option \<Rightarrow> ep_sock" where
  "demo_sock ev link = \<lparr>conn = Some \<lparr>conn_listens = False, conn_has_host = False, conn_is_libos = True, accept_waits = False\<rparr>,
     epoll_events = ev, events = 1, ep_data = 42, errevent = 0, wakeup = Some 9, sock_stack_idx = 0, listen_next = None,
     recv_ring = demo_pring, send_ring = demo_pring, recv_lastdata = None, same_node_ready = False, linked = link\<rparr>"

definition demo_ep_env :: ep_env where
  "demo_ep_env = \<lparr>list_put = (\<lambda>a l. l @ [a]), sock_at = (\<lambda>fd. if fd = 3 then Some 1 else None), sock_live = (\<lambda>fd. None), stack_num = 1,
     queue_id = id, stack_epollfd = (\<lambda>_. 100), kctl_ret = (\<lambda>_. 0), bind_numa = False\<rparr>"

text \<open>An epoll with descriptor 3 (socket 1) and one registered socket, number 2, in its event list.\<close>

definition demo_ep :: "u32 \<Rightarrow> ep_state" where
  "demo_ep ev = \<lparr>socks = [1 \<mapsto> demo_sock 0 None, 2 \<mapsto> demo_sock ev (Some 9)],
     polls = [9 \<mapsto> (fresh_wakeup Wakeup_epoll)\<lparr>event_list := [2], have_kernel_event := True,
               last_fds := [(5, 1), (6, 1)], last_nfds := 2, last_max_nfds := 2\<rparr>],
     wakeup_lists = (\<lambda>_. []), kernel_events = (\<lambda>_. []), wakeup_events = (\<lambda>_. 0), poll_list = [9], kernel_ctl = [],
     closed_fds = [], bind_tick = 0\<rparr>"

lemma demo_ep_inv: "ep_inv demo_ep_env (demo_ep ev)"
  by (auto simp: ep_inv_def demo_ep_def demo_ep_env_def demo_sock_def fresh_wakeup_def split: if_splits)

lemma demo_puts: "puts_node demo_ep_env"
  by (auto simp: puts_node_def demo_ep_env_def)

lemmas demo_ep_simps = demo_ep_def demo_sock_def fresh_wakeup_def epoll_flags

lemma epoll_lwip_event_reports_witness:
  "\<exists>T q. epoll_lwip_event 9 8 (demo_ep 5) = Some (map (report (demo_ep 5)) [2], T) \<and> polls T 9 = Some q \<and> 2 \<in> set (event_list q)"
proof -
  have r: "filter (sock_ready (demo_ep 5)) [2] = [2]" by (simp add: sock_ready_def demo_ep_simps)
  have p: "polls (demo_ep 5) 9 = Some (the (polls (demo_ep 5) 9))" "event_list (the (polls (demo_ep 5) 9)) = [2]"
    by (simp_all add: demo_ep_simps)
  have f: "\<not> has_flag (demo_ep 5) epolloneshot 2" "\<not> has_flag (demo_ep 5) epollet 2" by (simp_all add: has_flag_def demo_ep_simps)
  show ?thesis using epoll_lwip_event_reports [OF demo_ep_inv p(1), of 8] r f unfolding p(2) by (auto simp: sock_ready_def demo_ep_simps)
qed

lemma oneshot_reports_no_event_witness:
  "\<exists>T t. epoll_lwip_event 9 1 (demo_ep 0x40000001) = Some ([(0, 42)], T) \<and> socks T 2 = Some t \<and> epoll_events t = 0"
  using oneshot_reports_no_event [of "demo_ep 0x40000001" 9 _ 2 "[]" "demo_sock 0x40000001 (Some 9)"]
  by (simp add: demo_ep_simps)

lemma full_array_loses_an_event_witness:
  "\<exists>T q. epoll_wait_loop (\<lambda>k room. (- 1, [])) (\<lambda>k S. (False, S)) 9 1 0 0 0 (demo_ep 0x80000001) = Some (0, [(1, 42)], T) \<and>
     polls T 9 = Some q \<and> 2 \<notin> set (event_list q)"
  using full_array_loses_an_event [OF demo_ep_inv, of "0x80000001" 9 _ 2 "[]" "demo_sock 0x80000001 (Some 9)" "\<lambda>k room. (- 1, [])" "\<lambda>k S. (False, S)"]
  by (simp add: demo_ep_simps)

lemma epoll_close_leaves_dangling_wakeup_witness:
  "\<exists>T. lstack_epoll_close demo_ep_env 3 (demo_ep 5) = Some (0, T) \<and> add_sock_event demo_ep_env 2 1 T = None"
proof -
  obtain T where T: "lstack_epoll_close demo_ep_env 3 (demo_ep 5) = Some (0, T)"
    by (simp add: lstack_epoll_close_def demo_ep_env_def demo_ep_simps Let_def)
  have "add_sock_event demo_ep_env 2 1 T = None"
    by (rule epoll_close_leaves_dangling_wakeup [OF T, of 1 "demo_sock 0 None" 9 2 "demo_sock 5 (Some 9)"])
       (simp_all add: demo_ep_env_def demo_ep_simps)
  then show ?thesis using T by blast
qed

definition demo_alloc :: poll_alloc where
  "demo_alloc = \<lparr>al_wakeup = Some 4, al_mutex = True, al_epollfd = - 1, al_fds = True, al_events = True, al_resize = True\<rparr>"

lemma failed_poll_init_leaves_dangling_wakeup_witness:
  "\<exists>T. lstack_poll demo_ep_env demo_alloc (\<lambda>_ _. (0, [])) (\<lambda>_ S. (False, S)) None [] 0 (demo_ep 5) = Some (- 1, [], Some 4, T) \<and>
     lstack_poll demo_ep_env demo_alloc (\<lambda>_ _. (0, [])) (\<lambda>_ S. (False, S)) (Some 4) [] 0 T = None"
  by (rule failed_poll_init_leaves_dangling_wakeup) (simp_all add: demo_alloc_def)

lemma poll_reports_past_the_array_witness:
  "lstack_poll demo_ep_env demo_alloc (\<lambda>_ _. (1, [(1, 1)])) (\<lambda>_ S. (False, S)) (Some 9) [\<lparr>pfd = 5, pevents = 1, prevents = 0\<rparr>] 0 (demo_ep 5) = None"
  using poll_reports_past_the_array [of "demo_ep 5" 9 _ "[\<lparr>pfd = 5, pevents = 1, prevents = 0\<rparr>]" demo_ep_env "\<lambda>_ _. (1, [(1, 1)])" 1 1 demo_alloc]
  by (simp add: demo_ep_env_def demo_ep_simps)

definition demo_ep_start :: ep_state where
  "demo_ep_start = \<lparr>socks = [1 \<mapsto> demo_sock 0 None], polls = Map.empty, wakeup_lists = (\<lambda>_. []), kernel_events = (\<lambda>_. []),
     wakeup_events = (\<lambda>_. 0), poll_list = [], kernel_ctl = [], closed_fds = [], bind_tick = 0\<rparr>"

lemma epoll_lists_safe_witness:
  "\<exists>S. lstack_do_epoll_create demo_ep_env (Some 9) True 3 demo_ep_start = Some (3, S) \<and> ep_inv demo_ep_env S \<and>
     wakeup_stack_epoll 0 S \<noteq> None \<and> epoll_lwip_event 9 8 S \<noteq> None"
proof -
  obtain S where S: "lstack_do_epoll_create demo_ep_env (Some 9) True 3 demo_ep_start = Some (3, S)" "polls S 9 \<noteq> None"
    by (simp add: lstack_do_epoll_create_def update_epoll_max_stack_def change_epollfd_kernel_thread_def epoll_ctl_fn_def
        find_max_cnt_stack_def demo_ep_start_def demo_ep_env_def demo_ep_simps Let_def sock_upd_def poll_upd_def)
  have "(ep_call demo_ep_env)\<^sup>*\<^sup>* demo_ep_start S"
    using ep_call.ep_create [OF _ S(1)] by (simp add: demo_ep_start_def r_into_rtranclp)
  then show ?thesis
    using epoll_lists_safe [OF demo_puts, of demo_ep_start S 0 9 8] S
    by (auto simp: demo_ep_start_def demo_sock_def demo_ep_env_def split: if_splits)
qed

end
