(* ===== verification/Epoll_Threads.thy ===== *)
theory Epoll_Threads
  imports Lstack_Epoll
begin

text \<open>
  Going to sleep in \<open>lstack_epoll_wait\<close> and being woken by the stack threads
  (\<open>src/lstack/api/lstack_epoll.c\<close>, \<open>src/lstack/core/lstack_protocol_stack.c\<close>), split at the accesses to
  what the threads share: \<open>in_wait\<close>, \<open>have_kernel_event\<close>, the mutex \<open>wait\<close> and the event list, whose lock
  makes a walk and an insertion one step each. The wakeup list of a stack is its own.

  There is one epoll descriptor; its wakeup is \<open>w\<close> and \<open>maxevents\<close> the room of the waiting thread.
\<close>

section \<open>The halves of add_sock_event\<close>

text \<open>Up to the end of the locked section: the wakeup to put into the wakeup list, if any.\<close>

definition add_event_list :: "ep_env \<Rightarrow> addr \<Rightarrow> u32 \<Rightarrow> ep_state \<Rightarrow> (addr option \<times> ep_state) option" where
  "add_event_list E a event S = do {
     s \<leftarrow> socks S a;
     (case wakeup s of
        None \<Rightarrow> Some (None, S)
      | Some w \<Rightarrow> do {
          p \<leftarrow> polls S w;
          (if wtype p = Wakeup_close \<or> event AND epoll_events s = 0 then Some (None, S)
           else do {
             outdated \<leftarrow> (if wtype p \<noteq> Wakeup_epoll then Some False
                         else if event = epollin then do { c \<leftarrow> conn s; Some (\<not> conn_listens c \<and> \<not> netconn_is_datain s) }
                         else Some (event = epollout \<and> \<not> netconn_is_outidle s));
             (if outdated then Some (None, S)
              else Some (Some w,
                if wtype p = Wakeup_epoll then
                  (let S = sock_upd a (\<lambda>s. s\<lparr>events := events s OR
                             (if event = epollerr then epollin OR epollerr else event AND epoll_events s)\<rparr>) S
                   in if linked s = None then link_event E w a S else S)
                else S))})})}"

definition add_wakeup_list :: "ep_env \<Rightarrow> nat \<Rightarrow> addr \<Rightarrow> ep_state \<Rightarrow> ep_state" where
  "add_wakeup_list E i w S =
     (if w \<in> set (wakeup_lists S i) then S
      else S\<lparr>wakeup_lists := (wakeup_lists S)(i := list_put E w (wakeup_lists S i))\<rparr>)"

lemma add_sock_event_halves:
  "socks S a = Some s \<Longrightarrow> add_sock_event E a event S =
     Option.bind (add_event_list E a event S) (\<lambda>(v, S). Some (case v of None \<Rightarrow> S | Some w \<Rightarrow> add_wakeup_list E (sock_stack_idx s) w S))"
  by (auto simp: add_sock_event_def add_event_list_def add_wakeup_list_def Let_def split: option.splits bind_splits)

section \<open>Threads and moves\<close>

text \<open>
  Where the waiting thread stands, with \<open>lwip_num\<close> and \<open>kernel_num\<close>, and where a stack thread stands
  between its calls, in \<open>add_sock_event\<close>, and in the visit of a node of its wakeup list.
\<close>

datatype app_pc = App_out | App_top int | App_in int | App_walked nat int | App_zero nat | App_decide nat int | App_sleep int | App_ret

datatype stk_pc = Stk_idle | Stk_queued | Stk_loaded bool | Stk_stored | Stk_done

text \<open>\<open>kernel_ready\<close> is the kernel's side of the descriptor: an event that no \<open>epoll_wait\<close> has collected.\<close>

record ep_threads =
  est :: ep_state
  app :: app_pc
  stk :: "nat \<Rightarrow> stk_pc"
  kernel_ready :: bool

datatype app_move = Call | Store | Walk | Ask int | Clear | Return | Sleep | Lock | Timeout | Leave

text \<open>The steps of \<open>lstack_epoll_wait\<close>; \<open>Ask\<close> has the answer of the kernel's \<open>epoll_wait\<close>, an error when there is no room.\<close>

fun app_step :: "addr \<Rightarrow> i32 \<Rightarrow> app_move \<Rightarrow> ep_threads \<Rightarrow> ep_threads option" where
  "app_step w m Call s = (if app s = App_out then Some (s\<lparr>app := App_top 0\<rparr>) else None)"
| "app_step w m Store s =
     (case app s of App_top kn \<Rightarrow> Some (s\<lparr>est := poll_upd w (\<lambda>p. p\<lparr>in_wait := True\<rparr>) (est s), app := App_in kn\<rparr>) | _ \<Rightarrow> None)"
| "app_step w m Walk s =
     (case app s of
        App_in kn \<Rightarrow> map_option (\<lambda>(evs, T). s\<lparr>est := T, app := App_walked (length evs) kn\<rparr>) (epoll_lwip_event w m (est s))
      | _ \<Rightarrow> None)"
| "app_step w m (Ask k) s =
     (case app s of
        App_walked n kn \<Rightarrow> do {
          p \<leftarrow> polls (est s) w;
          (if \<not> have_kernel_event p then Some (s\<lparr>app := App_decide n kn\<rparr>)
           else if (if int n < sint m then 0 \<le> k \<and> (kernel_ready s \<longleftrightarrow> 0 < k) else k = - 1)
           then Some (s\<lparr>app := (if k = 0 then App_zero n else App_decide n k), kernel_ready := kernel_ready s \<and> k \<le> 0\<rparr>)
           else None)}
      | _ \<Rightarrow> None)"
| "app_step w m Clear s =
     (case app s of
        App_zero n \<Rightarrow> Some (s\<lparr>est := poll_upd w (\<lambda>p. p\<lparr>have_kernel_event := False\<rparr>) (est s), app := App_decide n 0\<rparr>)
      | _ \<Rightarrow> None)"
| "app_step w m Return s = (case app s of App_decide n k \<Rightarrow> Some (s\<lparr>app := App_ret\<rparr>) | _ \<Rightarrow> None)"
| "app_step w m Sleep s = (case app s of App_decide n k \<Rightarrow> if int n + k > 0 then None else Some (s\<lparr>app := App_sleep k\<rparr>) | _ \<Rightarrow> None)"
| "app_step w m Lock s =
     (case app s of
        App_sleep kn \<Rightarrow> do {
          p \<leftarrow> polls (est s) w;
          (if wait_locked p then None
           else Some (s\<lparr>est := poll_upd w (\<lambda>p. p\<lparr>wait_locked := True\<rparr>) (est s), app := App_top kn\<rparr>))}
      | _ \<Rightarrow> None)"
| "app_step w m Timeout s = (case app s of App_sleep kn \<Rightarrow> Some (s\<lparr>app := App_ret\<rparr>) | _ \<Rightarrow> None)"
| "app_step w m Leave s =
     (if app s = App_ret then Some (s\<lparr>est := poll_upd w (\<lambda>p. p\<lparr>in_wait := False\<rparr>) (est s), app := App_out\<rparr>) else None)"

datatype stk_move = Event addr u32 | Kernel_event | Link | Load | Clear_wait | Unlock | Skip | Unlink

text \<open>
  The steps of stack thread \<open>i\<close>: \<open>add_sock_event\<close> on one of its sockets, one event of
  \<open>wakeup_kernel_event\<close>, and \<open>wakeup_stack_epoll\<close>.
\<close>

fun stk_step :: "ep_env \<Rightarrow> addr \<Rightarrow> nat \<Rightarrow> stk_move \<Rightarrow> ep_threads \<Rightarrow> ep_threads option" where
  "stk_step E w i (Event a ev) s =
     (if stk s i = Stk_idle \<and> map_option sock_stack_idx (socks (est s) a) = Some i
      then map_option (\<lambda>(v, T). s\<lparr>est := T, stk := (stk s)(i := if v = None then Stk_idle else Stk_queued)\<rparr>)
             (add_event_list E a ev (est s))
      else None)"
| "stk_step E w i Kernel_event s =
     (if stk s i = Stk_idle \<and> kernel_events (est s) i \<noteq> [] then do {
        p \<leftarrow> polls (est s) w;
        let S = (est s)\<lparr>kernel_events := (kernel_events (est s))(i := tl (kernel_events (est s) i))\<rparr>;
        Some (if wtype p = Wakeup_close then s\<lparr>est := S\<rparr>
              else s\<lparr>est := poll_upd w (\<lambda>p. p\<lparr>have_kernel_event := True\<rparr>) S, stk := (stk s)(i := Stk_queued)\<rparr>)}
      else None)"
| "stk_step E w i Link s =
     (if stk s i = Stk_queued then Some (s\<lparr>est := add_wakeup_list E i w (est s), stk := (stk s)(i := Stk_idle)\<rparr>) else None)"
| "stk_step E w i Load s =
     (if stk s i = Stk_idle \<and> wakeup_lists (est s) i \<noteq> [] then
        map_option (\<lambda>p. s\<lparr>stk := (stk s)(i := Stk_loaded (in_wait p))\<rparr>) (polls (est s) w)
      else None)"
| "stk_step E w i Clear_wait s =
     (if stk s i = Stk_loaded True
      then Some (s\<lparr>est := poll_upd w (\<lambda>p. p\<lparr>in_wait := False\<rparr>) (est s), stk := (stk s)(i := Stk_stored)\<rparr>) else None)"
| "stk_step E w i Unlock s =
     (if stk s i = Stk_stored
      then Some (s\<lparr>est := (poll_upd w (\<lambda>p. p\<lparr>wait_locked := False\<rparr>) (est s))
                     \<lparr>wakeup_events := (wakeup_events (est s))(i := wakeup_events (est s) i + 1)\<rparr>,
                   stk := (stk s)(i := Stk_done)\<rparr>) else None)"
| "stk_step E w i Skip s = (if stk s i = Stk_loaded False then Some (s\<lparr>stk := (stk s)(i := Stk_done)\<rparr>) else None)"
| "stk_step E w i Unlink s =
     (if stk s i = Stk_done
      then Some (s\<lparr>est := (est s)\<lparr>wakeup_lists := (wakeup_lists (est s))(i := remove1 w (wakeup_lists (est s) i))\<rparr>,
                   stk := (stk s)(i := Stk_idle)\<rparr>) else None)"

text \<open>
  A move of the system. \<open>Io\<close> is data coming or going on a socket, \<open>Read\<close> and \<open>Write\<close> are what an
  application thread does to the event list after a read or write, \<open>Ctl\<close> a call of \<open>epoll_ctl\<close> by
  the thread that waits, while it does not; \<open>Kernel_thread\<close> hands a stack new kernel events.
\<close>

datatype ep_move =
    App app_move | Stack nat stk_move | Kernel_thread nat nat | Io addr ep_sock | Read addr | Write addr
  | Ctl i32 i32 i32 "(u32 \<times> u64) option"

fun wait_step :: "ep_env \<Rightarrow> addr \<Rightarrow> i32 \<Rightarrow> ep_move \<Rightarrow> ep_threads \<Rightarrow> ep_threads option" where
  "wait_step E w m (App a) s = app_step w m a s"
| "wait_step E w m (Stack i a) s = (if i < stack_num E then stk_step E w i a s else None)"
| "wait_step E w m (Kernel_thread i n) s =
     (if i < stack_num E \<and> 0 < n \<and> kernel_events (est s) i = []
      then Some (s\<lparr>est := gazelle_kernelevent_round i (replicate n w) (est s), kernel_ready := True\<rparr>) else None)"
| "wait_step E w m (Io a t) s =
     map_option (\<lambda>u. s\<lparr>est := (est s)\<lparr>socks := (socks (est s))(a \<mapsto>
        u\<lparr>conn := conn t, recv_ring := recv_ring t, send_ring := send_ring t, recv_lastdata := recv_lastdata t,
          same_node_ready := same_node_ready t, errevent := errevent t\<rparr>)\<rparr>\<rparr>) (socks (est s) a)"
| "wait_step E w m (Read a) s = map_option (\<lambda>T. s\<lparr>est := T\<rparr>) (del_data_in_event a (est s))"
| "wait_step E w m (Write a) s = map_option (\<lambda>T. s\<lparr>est := T\<rparr>) (del_data_out_event a (est s))"
| "wait_step E w m (Ctl epfd op fd event) s =
     (if app s = App_out then map_option (\<lambda>(r, T). s\<lparr>est := T\<rparr>) (lstack_epoll_ctl E epfd op fd event (est s)) else None)"

fun wait_run :: "ep_env \<Rightarrow> addr \<Rightarrow> i32 \<Rightarrow> ep_move list \<Rightarrow> ep_threads \<Rightarrow> ep_threads option" where
  "wait_run E w m [] s = Some s"
| "wait_run E w m (x # xs) s = (case wait_step E w m x s of None \<Rightarrow> None | Some t \<Rightarrow> wait_run E w m xs t)"

text \<open>One epoll descriptor: its wakeup is the only one, no thread is in a call, nothing is queued.\<close>

definition wait_start :: "ep_env \<Rightarrow> addr \<Rightarrow> ep_threads \<Rightarrow> bool" where
  "wait_start E w s \<longleftrightarrow> ep_inv E (est s) \<and> dom (polls (est s)) = {w} \<and>
     map_option wtype (polls (est s) w) = Some Wakeup_epoll \<and>
     (\<forall>a t. socks (est s) a = Some t \<longrightarrow> wakeup t = None \<or> wakeup t = Some w) \<and>
     app s = App_out \<and> stk s = (\<lambda>_. Stk_idle)"

section \<open>What does not change\<close>

definition one_epoll :: "addr \<Rightarrow> ep_state \<Rightarrow> bool" where
  "one_epoll w S \<longleftrightarrow> dom (polls S) = {w} \<and> map_option wtype (polls S w) = Some Wakeup_epoll \<and>
     (\<forall>a t. socks S a = Some t \<longrightarrow> wakeup t = None \<or> wakeup t = Some w)"

named_theorems one_law \<comment> \<open>the updates of the model keep the one wakeup\<close>

lemma one_epollD: "one_epoll w S \<Longrightarrow> \<exists>p. polls S w = Some p \<and> wtype p = Wakeup_epoll"
  "one_epoll w S \<Longrightarrow> socks S a = Some t \<Longrightarrow> wakeup t = None \<or> wakeup t = Some w"
  "one_epoll w S \<Longrightarrow> polls S v = Some q \<Longrightarrow> v = w"
  by (auto simp: one_epoll_def)

lemma one_sock_upd [one_law]:
  "one_epoll w S \<Longrightarrow> (\<And>t. wakeup (f t) = wakeup t \<or> wakeup (f t) = Some w) \<Longrightarrow> one_epoll w (sock_upd a f S)"
  unfolding one_epoll_def by (auto simp: option.map_comp) (metis)+

lemma one_poll_upd [one_law]: "one_epoll w S \<Longrightarrow> (\<And>p. wtype (g p) = wtype p) \<Longrightarrow> one_epoll w (poll_upd v g S)"
  unfolding one_epoll_def by (auto split: if_splits)

lemma one_other [one_law]:
  assumes "one_epoll w S"
  shows "one_epoll w (S\<lparr>wakeup_events := x1\<rparr>)" "one_epoll w (S\<lparr>kernel_events := x2\<rparr>)" "one_epoll w (S\<lparr>kernel_ctl := x4\<rparr>)"
    "one_epoll w (S\<lparr>bind_tick := x6\<rparr>)" "one_epoll w (S\<lparr>wakeup_lists := x7\<rparr>)"
  using assms by (auto simp: one_epoll_def)

lemma one_link [one_law]: "one_epoll w S \<Longrightarrow> one_epoll w (link_event E v a S)"
  unfolding link_event_def by (intro one_law) simp_all

lemma one_unlink [one_law]: "one_epoll w S \<Longrightarrow> one_epoll w (unlink_event a S)"
  unfolding unlink_event_def by (auto split: option.splits intro!: one_law)

lemma one_unlink_all [one_law]: "one_epoll w S \<Longrightarrow> one_epoll w (fold unlink_event as S)"
  by (induction as arbitrary: S) (auto intro: one_law)

lemma one_walk: "one_epoll w S \<Longrightarrow> event_walk m as n S = Some (evs, T) \<Longrightarrow> one_epoll w T"
proof (induction m as n S arbitrary: evs rule: event_walk.induct)
  case (2 m a as n S)
  obtain s where s: "socks S a = Some s" using "2.prems" by (cases "socks S a") auto
  show ?case
  proof (cases "epoll_events s AND events s = 0")
    case True
    then show ?thesis using "2.IH"(1) [OF s True] "2.prems" s one_unlink by simp
  next
    case False
    let ?S1 = "if epoll_events s AND epollet \<noteq> 0 then unlink_event a S else S"
    let ?o = "epoll_events s AND epolloneshot \<noteq> 0"
    let ?S2 = "if ?o then sock_upd a (\<lambda>s. s\<lparr>epoll_events := 0\<rparr>) (unlink_event a ?S1) else ?S1"
    have S2: "one_epoll w ?S2" using "2.prems"(1) by (auto intro!: one_law)
    show ?thesis
      using "2.IH"(2) [OF s False refl refl refl refl _ S2] "2.prems"(2) s False S2
      by (auto simp: Let_def split: if_splits)
  qed
qed simp

lemma one_lwip_event: "one_epoll w S \<Longrightarrow> epoll_lwip_event v m S = Some (evs, T) \<Longrightarrow> one_epoll w T"
  by (auto simp: epoll_lwip_event_def split: bind_splits prod.splits intro!: one_law dest: one_walk)

lemma one_del_data:
  "one_epoll w S \<Longrightarrow> del_data_in_event a S = Some T \<Longrightarrow> one_epoll w T"
  "one_epoll w S \<Longrightarrow> del_data_out_event a S = Some T \<Longrightarrow> one_epoll w T"
  by (auto simp: del_data_in_event_def del_data_out_event_def Let_def split: bind_splits if_splits intro!: one_law)

lemma one_raise: "one_epoll w S \<Longrightarrow> raise_pending_events E v a S = Some T \<Longrightarrow> one_epoll w T"
  by (auto simp: raise_pending_events_def Let_def split: bind_splits if_splits intro!: one_law)

lemma one_ctl_one:
  assumes "one_epoll w S" "ctl_one E w op event a S = Some (Some T)"
  shows "one_epoll w T"
proof -
  have set: "one_epoll w (sock_upd a (\<lambda>s. s\<lparr>epoll_events := x, ep_data := y\<rparr>) U)" if "one_epoll w U" for U x y
    using that by (intro one_law) simp_all
  have add: "one_epoll w (poll_upd w (\<lambda>p. p\<lparr>stack_fd_cnt := (stack_fd_cnt p)(i := stack_fd_cnt p i + 1)\<rparr>)
      (sock_upd a (\<lambda>s. s\<lparr>wakeup := Some w\<rparr>) S))" for i
    using assms(1) by (intro one_law) simp_all
  have del: "one_epoll w (unlink_event a (poll_upd w (\<lambda>p. p\<lparr>stack_fd_cnt := (stack_fd_cnt p)(i := stack_fd_cnt p i - 1)\<rparr>)
      (sock_upd a (\<lambda>s. s\<lparr>epoll_events := 0\<rparr>) S)))" for i
    using assms(1) by (intro one_law) simp_all
  show ?thesis
    using assms(2) one_raise [OF set [OF add]] one_raise [OF set [OF assms(1)]] del
    by (auto simp: ctl_one_def Let_def split: bind_splits if_splits prod.splits)
qed

lemma one_ctl_each:
  assumes run: "ctl_each E w op event a S = Some r"
  shows "one_epoll w S \<longrightarrow> (\<forall>T. r = Some T \<longrightarrow> one_epoll w T)"
proof (rule ctl_each.raw_induct [OF _ run, where P = "\<lambda>E w op event a S r. one_epoll w S \<longrightarrow> (\<forall>T. r = Some T \<longrightarrow> one_epoll w T)"],
    intro impI allI)
  fix rec E w op event a S r T
  assume IH: "\<And>E w op event a S r. rec E w op event a S = Some r \<Longrightarrow> one_epoll w S \<longrightarrow> (\<forall>T. r = Some T \<longrightarrow> one_epoll w T)"
    and b: "(case ctl_one E w op event a S of None \<Rightarrow> None | Some None \<Rightarrow> Some None
      | Some (Some S) \<Rightarrow> (case Option.bind (socks S a) listen_next of None \<Rightarrow> Some (Some S) | Some b \<Rightarrow> rec E w op event b S)) = Some r"
    and h: "one_epoll w S" "r = Some T"
  obtain U where U: "ctl_one E w op event a S = Some (Some U)" using b h(2) by (auto split: option.splits)
  then have "one_epoll w U" using one_ctl_one h(1) by blast
  then show "one_epoll w T" using IH b h U by (auto split: option.splits)
qed

lemma one_ctl:
  assumes "one_epoll w S" "lstack_epoll_ctl E epfd op fd event S = Some (r, T)"
  shows "one_epoll w T"
proof -
  have k: "one_epoll w (snd (epoll_ctl_fn E epfd op fd event S))"
    unfolding epoll_ctl_fn_def Let_def using assms(1) by (simp add: one_law)
  have v: "v = w" if "Option.bind (sock_at E epfd) (\<lambda>a. Option.bind (socks S a) wakeup) = Some v" for v
    using that by (fastforce dest: one_epollD(2) [OF assms(1)] split: bind_splits)
  have u: "one_epoll w U \<Longrightarrow> update_epoll_max_stack E w U = Some T \<Longrightarrow> one_epoll w T" for U
    by (auto simp: update_epoll_max_stack_def split: bind_splits prod.splits intro!: one_law)
  show ?thesis
  proof (cases "Option.bind (sock_at E epfd) (\<lambda>a. Option.bind (socks S a) wakeup)")
    case None
    then show ?thesis using assms k by (auto simp: lstack_epoll_ctl_def split: if_splits)
  next
    case (Some x)
    then have "x = w" by (rule v)
    note b = Some [unfolded this]
    show ?thesis using assms k
      by (auto simp: lstack_epoll_ctl_def Let_def b split: if_splits option.splits bind_splits
          dest!: one_ctl_each u [rotated])
  qed
qed

section \<open>Readiness and flags through the steps\<close>

definition flags :: "ep_state \<Rightarrow> addr \<Rightarrow> (bool \<times> bool) option" where
  "flags S w = map_option (\<lambda>p. (in_wait p, wait_locked p)) (polls S w)"

definition has_ready :: "ep_state \<Rightarrow> addr \<Rightarrow> bool" where
  "has_ready S w \<longleftrightarrow> (\<exists>p a. polls S w = Some p \<and> a \<in> set (event_list p) \<and> sock_ready S a)"

lemma flags_poll_upd [simp]:
  "(\<And>p. in_wait (g p) = in_wait p) \<Longrightarrow> (\<And>p. wait_locked (g p) = wait_locked p) \<Longrightarrow> flags (poll_upd v g S) w = flags S w"
  by (auto simp: flags_def option.map_comp comp_def)

lemma flags_other [simp]:
  "flags (sock_upd a f S) w = flags S w" "flags (unlink_event a S) w = flags S w" "flags (link_event E v a S) w = flags S w"
  "flags (S\<lparr>wakeup_lists := x1\<rparr>) w = flags S w" "flags (S\<lparr>kernel_events := x2\<rparr>) w = flags S w"
  "flags (S\<lparr>wakeup_events := x3\<rparr>) w = flags S w" "flags (S\<lparr>socks := x4\<rparr>) w = flags S w"
  by (auto simp: flags_def option.map_comp comp_def unlink_event_def link_event_def split: option.splits)

lemma flags_unlink_all [simp]: "flags (fold unlink_event as S) w = flags S w"
  by (induction as arbitrary: S) simp_all

lemma flags_walk: "event_walk m as n S = Some (evs, T) \<Longrightarrow> flags T w = flags S w \<and> wakeup_lists T = wakeup_lists S"
proof (induction m as n S arbitrary: evs rule: event_walk.induct)
  case (2 m a as n S)
  obtain s where s: "socks S a = Some s" using "2.prems" by (cases "socks S a") auto
  have u: "wakeup_lists (unlink_event b U) = wakeup_lists U" for b U by (simp add: unlink_event_def split: option.splits)
  show ?case
  proof (cases "epoll_events s AND events s = 0")
    case True
    then show ?thesis using "2.IH"(1) [OF s True] "2.prems" s u by simp
  next
    case False
    show ?thesis
      using "2.IH"(2) [OF s False refl refl refl refl] "2.prems" s False u
      by (auto simp: Let_def split: if_splits)
  qed
qed simp

lemma flags_lwip_event: "epoll_lwip_event v m S = Some (evs, T) \<Longrightarrow> flags T w = flags S w \<and> wakeup_lists T = wakeup_lists S"
  by (auto simp: epoll_lwip_event_def split: bind_splits prod.splits dest: flags_walk)

lemma walk_nothing:
  "event_walk m as n S = Some ([], T) \<Longrightarrow> T = fold unlink_event as S \<and> (\<forall>a \<in> set as. \<not> sock_ready S a)"
proof (induction as arbitrary: S)
  case (Cons a as)
  obtain s where s: "socks S a = Some s" using Cons.prems by (cases "socks S a") auto
  have z: "epoll_events s AND events s = 0" using Cons.prems s by (auto simp: Let_def split: if_splits)
  then show ?case using Cons.IH [of "unlink_event a S"] Cons.prems s by (simp add: sock_ready_def)
qed simp

lemma lwip_event_nothing:
  assumes "ep_inv E S" "epoll_lwip_event w m S = Some ([], T)"
  shows "\<not> has_ready T w"
proof -
  obtain p where p: "polls S w = Some p" using assms(2) by (auto simp: epoll_lwip_event_def split: bind_splits)
  obtain U where U: "event_walk m (event_list p) 0 S = Some ([], U)" "T = poll_upd w (\<lambda>p. p\<lparr>app_events := app_events p + word_of_nat 0\<rparr>) U"
    using assms(2) p by (auto simp: epoll_lwip_event_def split: bind_splits prod.splits)
  obtain q where "polls U w = Some q" "set (event_list q) = set (event_list p) - set (event_list p)"
    using unlink_all_event_set [OF assms(1) p] walk_nothing [OF U(1)] by metis
  then show ?thesis using U(2) by (simp add: has_ready_def)
qed

lemma has_ready_cong:
  assumes "has_ready T w" "map_option event_list (polls T w) = map_option event_list (polls S w)" "\<And>a. sock_ready T a \<Longrightarrow> sock_ready S a"
  shows "has_ready S w"
  using assms by (cases "polls S w"; cases "polls T w") (auto simp: has_ready_def)

lemma has_ready_unlink: "ep_inv E S \<Longrightarrow> has_ready (unlink_event a S) w \<Longrightarrow> has_ready S w"
proof -
  assume S: "ep_inv E S" and r: "has_ready (unlink_event a S) w"
  then obtain p where p: "polls S w = Some p" using unlink_polls [of a S w] by (cases "polls S w") (auto simp: has_ready_def)
  show ?thesis using r p unlink_event_set [OF S p, of a] by (auto simp: has_ready_def)
qed

lemma ready_drop: "sock_ready (sock_upd a (\<lambda>s. s\<lparr>events := events s AND NOT f\<rparr>) S) b \<Longrightarrow> sock_ready S b"
proof -
  have "(x AND (y AND NOT f)) \<noteq> 0 \<Longrightarrow> x AND y \<noteq> 0" for x y :: u32 by (metis and.assoc and_zero_eq zero_and_eq)
  then show "sock_ready (sock_upd a (\<lambda>s. s\<lparr>events := events s AND NOT f\<rparr>) S) b \<Longrightarrow> sock_ready S b"
    by (auto simp: sock_ready_def split: option.splits if_splits)
qed

lemma del_data_frame:
  assumes "ep_inv E S" "del_data_in_event a S = Some T \<or> del_data_out_event a S = Some T"
  shows "flags T w = flags S w \<and> wakeup_lists T = wakeup_lists S \<and> (has_ready T w \<longrightarrow> has_ready S w)"
proof -
  let ?U = "\<lambda>f. sock_upd a (\<lambda>s. s\<lparr>events := events s AND NOT f\<rparr>) S"
  have U: "ep_inv E (?U f)" "has_ready (?U f) w \<Longrightarrow> has_ready S w" for f
    using assms(1) by (auto intro: ep_law has_ready_cong ready_drop)
  have u: "wakeup_lists (unlink_event b V) = wakeup_lists V" for b V by (simp add: unlink_event_def split: option.splits)
  have "T = S \<or> (\<exists>f. T = ?U f \<or> T = unlink_event a (?U f))"
    using assms(2) by (auto simp: del_data_in_event_def del_data_out_event_def Let_def split: bind_splits if_splits)
  then show ?thesis using U has_ready_unlink [OF U(1)] u by fastforce
qed

lemma add_event_list_frame:
  assumes "add_event_list E a ev S = Some (v, T)"
  shows "flags T w = flags S w \<and> wakeup_lists T = wakeup_lists S \<and> (v = None \<longrightarrow> T = S)"
proof -
  have l: "wakeup_lists (link_event E u a V) = wakeup_lists V" for u a V by (simp add: link_event_def)
  show ?thesis using assms l by (auto simp: add_event_list_def Let_def split: option.splits bind_splits if_splits)
qed

lemma add_event_list_inv:
  assumes "puts_node E" "ep_inv E S" "one_epoll w S" "add_event_list E a ev S = Some (v, T)"
  shows "ep_inv E T \<and> one_epoll w T"
proof -
  obtain s where s: "socks S a = Some s" using assms(4) by (auto simp: add_event_list_def split: bind_splits)
  let ?U = "\<lambda>e. sock_upd a (\<lambda>s. s\<lparr>events := events s OR (if ev = epollerr then epollin OR epollerr else e AND epoll_events s)\<rparr>) S"
  have U: "ep_inv E (?U e)" "one_epoll w (?U e)" for e using assms(2,3) by (intro ep_law one_law; simp)+
  have L: "ep_inv E (link_event E w a (?U e))" if "linked s = None" for e
    using that one_epollD(1) [OF U(2)] s by (auto intro!: ep_inv_link [OF U(1) assms(1)])
  have O: "one_epoll w (link_event E w a (?U e))" for e using U(2) by (rule one_law)
  have "wakeup s = None \<or> wakeup s = Some w" using one_epollD(2) [OF assms(3) s] .
  then show ?thesis using assms(2-4) s U L O
    by (auto simp: add_event_list_def Let_def split: option.splits bind_splits if_splits)
qed

section \<open>The invariant\<close>

fun armed :: "app_pc \<Rightarrow> bool" where
  "armed (App_in _) = True" | "armed (App_walked _ _) = True" | "armed (App_zero _) = True"
| "armed (App_decide _ _) = True" | "armed (App_sleep _) = True" | "armed _ = False"

fun found_nothing :: "app_pc \<Rightarrow> bool" where
  "found_nothing (App_walked n _) = (n = 0)" | "found_nothing (App_zero n) = (n = 0)"
| "found_nothing (App_decide n _) = (n = 0)" | "found_nothing (App_sleep _) = True" | "found_nothing _ = False"

fun pc_ok :: "i32 \<Rightarrow> app_pc \<Rightarrow> bool" where
  "pc_ok m (App_top kn) = (kn = 0)" | "pc_ok m (App_in kn) = (kn = 0)" | "pc_ok m (App_walked n kn) = (kn = 0)"
| "pc_ok m (App_decide n k) = (0 \<le> k \<or> k = - 1 \<and> sint m \<le> int n)" | "pc_ok m (App_sleep kn) = (kn = 0)" | "pc_ok m _ = True"

text \<open>A stack thread that will still look at \<open>in_wait\<close>, or has seen it set and not yet unlocked the mutex.\<close>

definition due_at :: "addr \<Rightarrow> ep_threads \<Rightarrow> nat \<Rightarrow> bool" where
  "due_at w s i \<longleftrightarrow> (case stk s i of Stk_idle \<Rightarrow> w \<in> set (wakeup_lists (est s) i) | Stk_queued \<Rightarrow> True
     | Stk_loaded b \<Rightarrow> b | Stk_stored \<Rightarrow> True | Stk_done \<Rightarrow> False)"

definition woken :: "addr \<Rightarrow> ep_threads \<Rightarrow> bool" where
  "woken w s \<longleftrightarrow> (\<exists>b. flags (est s) w = Some (b, False))"

definition wait_inv :: "ep_env \<Rightarrow> addr \<Rightarrow> i32 \<Rightarrow> ep_threads \<Rightarrow> bool" where
  "wait_inv E w m s \<longleftrightarrow> ep_inv E (est s) \<and> one_epoll w (est s) \<and> pc_ok m (app s) \<and>
     (armed (app s) \<longrightarrow> (\<exists>l. flags (est s) w = Some (True, l)) \<or> woken w s \<or> (\<exists>i < stack_num E. stk s i = Stk_stored)) \<and>
     (found_nothing (app s) \<longrightarrow> has_ready (est s) w \<longrightarrow> woken w s \<or> (\<exists>i < stack_num E. due_at w s i))"

lemma flags_set [simp]:
  "flags (poll_upd w (\<lambda>p. p\<lparr>in_wait := b\<rparr>) S) w = map_option (\<lambda>(x, l). (b, l)) (flags S w)"
  "flags (poll_upd w (\<lambda>p. p\<lparr>wait_locked := b\<rparr>) S) w = map_option (\<lambda>(x, l). (x, b)) (flags S w)"
  by (simp_all add: flags_def option.map_comp comp_def)

lemma flags_Some: "one_epoll w S \<Longrightarrow> \<exists>b l. flags S w = Some (b, l)"
  using one_epollD(1) [of w S] by (auto simp: flags_def)

lemma has_ready_poll_upd [simp]: "(\<And>p. event_list (g p) = event_list p) \<Longrightarrow> has_ready (poll_upd v g S) w = has_ready S w"
  by (auto simp: has_ready_def sock_ready_def split: if_splits)

lemma has_ready_other [simp]:
  "has_ready (S\<lparr>wakeup_lists := x1\<rparr>) w = has_ready S w" "has_ready (S\<lparr>kernel_events := x2\<rparr>) w = has_ready S w"
  "has_ready (S\<lparr>wakeup_events := x3\<rparr>) w = has_ready S w"
  by (simp_all add: has_ready_def sock_ready_def)

lemma inv_upd: "ep_inv E S \<Longrightarrow> (\<And>p. event_list (g p) = event_list p) \<Longrightarrow> ep_inv E (poll_upd v g S)"
  "one_epoll w S \<Longrightarrow> (\<And>p. wtype (g p) = wtype p) \<Longrightarrow> one_epoll w (poll_upd v g S)"
  by (rule ep_inv_poll_upd, simp_all) (rule one_poll_upd, simp_all)

lemmas wait_simps = wait_inv_def woken_def due_at_def

lemma due_frame [simp]: "due_at w (s\<lparr>app := p\<rparr>) = due_at w s" "due_at w (s\<lparr>kernel_ready := b\<rparr>) = due_at w s"
  "woken w (s\<lparr>app := p\<rparr>) = woken w s" "woken w (s\<lparr>kernel_ready := b\<rparr>) = woken w s" "woken w (s\<lparr>stk := f\<rparr>) = woken w s"
  by (simp_all add: fun_eq_iff due_at_def woken_def split: stk_pc.split)

lemma wait_inv_app:
  "wait_inv E w m s \<Longrightarrow> pc_ok m p \<Longrightarrow> (armed p \<Longrightarrow> armed (app s)) \<Longrightarrow> (found_nothing p \<Longrightarrow> found_nothing (app s)) \<Longrightarrow>
   wait_inv E w m (s\<lparr>app := p\<rparr>)"
  by (simp add: wait_inv_def)

lemma wait_inv_ready: "wait_inv E w m (s\<lparr>kernel_ready := b\<rparr>) = wait_inv E w m s"
  by (simp add: wait_inv_def)

lemma wait_inv_est:
  assumes "wait_inv E w m s" "ep_inv E T" "one_epoll w T" "flags T w = flags (est s) w" "wakeup_lists T = wakeup_lists (est s)"
    and "found_nothing (app s) \<Longrightarrow> has_ready T w \<Longrightarrow> has_ready (est s) w"
  shows "wait_inv E w m (s\<lparr>est := T\<rparr>)"
proof -
  have "due_at w (s\<lparr>est := T\<rparr>) = due_at w s" "woken w (s\<lparr>est := T\<rparr>) = woken w s"
    using assms(4,5) by (simp_all add: due_at_def woken_def fun_eq_iff split: stk_pc.split)
  then show ?thesis using assms by (simp add: wait_inv_def)
qed

lemma wait_inv_out:
  assumes "ep_inv E T" "one_epoll w T" "pc_ok m p" "\<not> armed p" "\<not> found_nothing p"
  shows "wait_inv E w m (s\<lparr>est := T, app := p\<rparr>)"
  using assms by (simp add: wait_inv_def)

lemma app_step_inv:
  assumes I: "wait_inv E w m s" and m: "1 < sint m" and t: "app_step w m a s = Some t"
  shows "wait_inv E w m t"
proof -
  have S: "ep_inv E (est s)" "one_epoll w (est s)" and pc: "pc_ok m (app s)" using I by (simp_all add: wait_inv_def)
  show ?thesis
  proof (cases a)
    case Walk
    then obtain kn evs T where W: "app s = App_in kn" "epoll_lwip_event w m (est s) = Some (evs, T)"
      "t = s\<lparr>est := T, app := App_walked (length evs) kn\<rparr>" using t by (auto split: app_pc.splits)
    have T: "ep_inv E T" "one_epoll w T" "flags T w = flags (est s) w" "wakeup_lists T = wakeup_lists (est s)"
      using epoll_lwip_event_inv [OF S(1) W(2)] one_lwip_event [OF S(2) W(2)] flags_lwip_event [OF W(2)] by auto
    have n: "evs = [] \<Longrightarrow> \<not> has_ready T w" using lwip_event_nothing [OF S(1)] W(2) by simp
    have "wait_inv E w m (s\<lparr>est := T\<rparr>)" using wait_inv_est [OF I T] W(1) by simp
    then show ?thesis using n W(1,3) pc by (simp add: wait_inv_def woken_def)
  next
    case (Ask k)
    then obtain n kn where a: "app s = App_walked n kn" using t by (auto split: app_pc.splits)
    then obtain p where p: "polls (est s) w = Some p" using t Ask by (auto split: bind_splits)
    show ?thesis
    proof (cases "have_kernel_event p")
      case False
      then have "t = s\<lparr>app := App_decide n kn\<rparr>" using t Ask a p by simp
      then show ?thesis using wait_inv_app [OF I, of "App_decide n kn"] a pc by simp
    next
      case True
      let ?q = "if k = 0 then App_zero n else App_decide n k"
      have k: "(if int n < sint m then 0 \<le> k \<and> (kernel_ready s \<longleftrightarrow> 0 < k) else k = - 1)"
        "t = s\<lparr>app := ?q, kernel_ready := kernel_ready s \<and> k \<le> 0\<rparr>" using t Ask a p True by (auto split: if_splits)
      have "wait_inv E w m (s\<lparr>app := ?q\<rparr>)" using wait_inv_app [OF I, of ?q] a k(1) by (auto split: if_splits)
      moreover have "t = s\<lparr>app := ?q\<rparr>\<lparr>kernel_ready := kernel_ready s \<and> k \<le> 0\<rparr>" using k(2) by simp
      ultimately show ?thesis by (simp only: wait_inv_ready)
    qed
  next
    case Store
    then obtain kn where a: "app s = App_top kn" "t = s\<lparr>est := poll_upd w (\<lambda>p. p\<lparr>in_wait := True\<rparr>) (est s), app := App_in kn\<rparr>"
      using t by (auto split: app_pc.splits)
    then show ?thesis using pc flags_Some [OF S(2)] inv_upd(1) [OF S(1)] inv_upd(2) [OF S(2)] by (auto simp: wait_inv_def)
  next
    case Lock
    then obtain kn where "app s = App_sleep kn" "t = s\<lparr>est := poll_upd w (\<lambda>p. p\<lparr>wait_locked := True\<rparr>) (est s), app := App_top kn\<rparr>"
      using t by (auto split: app_pc.splits bind_splits if_splits)
    then show ?thesis using pc wait_inv_out inv_upd(1) [OF S(1)] inv_upd(2) [OF S(2)] by simp
  next
    case Clear
    then obtain n where a: "app s = App_zero n"
      "t = s\<lparr>est := poll_upd w (\<lambda>p. p\<lparr>have_kernel_event := False\<rparr>) (est s), app := App_decide n 0\<rparr>"
      using t by (auto split: app_pc.splits)
    have "wait_inv E w m (s\<lparr>est := poll_upd w (\<lambda>p. p\<lparr>have_kernel_event := False\<rparr>) (est s)\<rparr>)"
      using inv_upd(1) [OF S(1)] inv_upd(2) [OF S(2)] by (intro wait_inv_est [OF I]) simp_all
    from wait_inv_app [OF this, of "App_decide n 0"] a show ?thesis by simp
  next
    case Sleep
    then obtain n k where a: "app s = App_decide n k" "int n + k \<le> 0" "t = s\<lparr>app := App_sleep k\<rparr>"
      using t by (auto split: app_pc.splits if_splits)
    have "k = 0 \<and> n = 0" using pc a(1,2) m by auto
    then show ?thesis using wait_inv_app [OF I, of "App_sleep k"] a by simp
  next
    case Leave
    then have "t = s\<lparr>est := poll_upd w (\<lambda>p. p\<lparr>in_wait := False\<rparr>) (est s), app := App_out\<rparr>"
      using t by (auto split: if_splits)
    then show ?thesis using wait_inv_out inv_upd(1) [OF S(1)] inv_upd(2) [OF S(2)] by simp
  next
    case Call
    then show ?thesis using t wait_inv_app [OF I, of "App_top 0"] by (auto split: if_splits)
  next
    case Return
    then show ?thesis using t wait_inv_app [OF I, of App_ret] by (auto split: app_pc.splits)
  next
    case Timeout
    then show ?thesis using t wait_inv_app [OF I, of App_ret] by (auto split: app_pc.splits)
  qed
qed


lemma due_stk: "due_at w (s\<lparr>est := T, stk := (stk s)(i := pc)\<rparr>) j =
    (case (if j = i then pc else stk s j) of Stk_idle \<Rightarrow> w \<in> set (wakeup_lists T j) | Stk_queued \<Rightarrow> True
     | Stk_loaded b \<Rightarrow> b | Stk_stored \<Rightarrow> True | Stk_done \<Rightarrow> False)"
  by (simp add: due_at_def split: stk_pc.split)

lemma found_armed: "found_nothing p \<Longrightarrow> armed p"
  by (cases p) auto

text \<open>What a step of stack thread \<open>i\<close> has to keep.\<close>

lemma wait_inv_stk:
  assumes I: "wait_inv E w m s" and T: "ep_inv E T" "one_epoll w T" and i: "i < stack_num E"
    and woken: "woken w s \<Longrightarrow> \<exists>b. flags T w = Some (b, False)"
    and waits: "\<And>l. flags (est s) w = Some (True, l) \<Longrightarrow> (\<exists>l. flags T w = Some (True, l)) \<or> (\<exists>b. flags T w = Some (b, False)) \<or> pc = Stk_stored"
    and stored: "stk s i = Stk_stored \<Longrightarrow> pc = Stk_stored \<or> (\<exists>b. flags T w = Some (b, False))"
    and others: "\<And>j. j \<noteq> i \<Longrightarrow> set (wakeup_lists T j) = set (wakeup_lists (est s) j)"
    and due: "due_at w s i \<Longrightarrow> due_at w (s\<lparr>est := T, stk := (stk s)(i := pc)\<rparr>) i \<or> (\<exists>b. flags T w = Some (b, False)) \<or>
      (armed (app s) \<longrightarrow> (\<exists>j < stack_num E. j \<noteq> i \<and> stk s j = Stk_stored))"
    and ready: "has_ready T w \<Longrightarrow> has_ready (est s) w \<or> pc = Stk_queued"
  shows "wait_inv E w m (s\<lparr>est := T, stk := (stk s)(i := pc)\<rparr>)"
proof -
  let ?t = "s\<lparr>est := T, stk := (stk s)(i := pc)\<rparr>"
  have A: "(\<exists>l. flags T w = Some (True, l)) \<or> (\<exists>b. flags T w = Some (b, False)) \<or> (\<exists>j < stack_num E. stk ?t j = Stk_stored)"
    if armed: "armed (app s)"
  proof -
    consider l where "flags (est s) w = Some (True, l)" | "woken w s" | j where "j < stack_num E" "stk s j = Stk_stored"
      using I armed unfolding wait_inv_def by blast
    then show ?thesis
    proof cases
      case 1 then show ?thesis using waits i by fastforce
    next
      case 2 then show ?thesis using woken by blast
    next
      case 3 then show ?thesis using stored i by (cases "j = i") auto
    qed
  qed
  have B: "(\<exists>b. flags T w = Some (b, False)) \<or> (\<exists>j < stack_num E. due_at w ?t j)"
    if none: "found_nothing (app s)" and r: "has_ready T w"
  proof (cases "pc = Stk_queued")
    case True
    then have "due_at w ?t i" by (simp add: due_stk)
    then show ?thesis using i by blast
  next
    case False
    have armed: "armed (app s)" using found_armed [OF none] .
    have keep: "due_at w ?t j" if "due_at w s j" "j \<noteq> i" for j
      using that others [of j] by (simp add: due_stk due_at_def split: stk_pc.splits)
    consider "woken w s" | j where "j < stack_num E" "due_at w s j"
      using I none ready [OF r] False unfolding wait_inv_def by blast
    then show ?thesis
    proof cases
      case 1 then show ?thesis using woken by blast
    next
      case 2
      show ?thesis
      proof (cases "j = i")
        case True
        then consider "due_at w ?t i" | "\<exists>b. flags T w = Some (b, False)" | k where "k < stack_num E" "k \<noteq> i" "stk s k = Stk_stored"
          using due 2 armed by blast
        then show ?thesis
        proof cases
          case 3
          then have "due_at w s k" by (simp add: due_at_def)
          then show ?thesis using keep 3 by blast
        qed (use i in blast)+
      qed (use keep 2 in blast)
    qed
  qed
  show ?thesis using I T A B by (simp add: wait_inv_def woken_def)
qed

lemma in_wait_flags: "polls S w = Some p \<Longrightarrow> flags S w = Some (in_wait p, wait_locked p)"
  by (simp add: flags_def)

lemma stk_step_inv:
  assumes I: "wait_inv E w m s" and E: "puts_node E" and i: "i < stack_num E" and t: "stk_step E w i a s = Some t"
  shows "wait_inv E w m t"
proof -
  have S: "ep_inv E (est s)" "one_epoll w (est s)" using I by (simp_all add: wait_inv_def)
  obtain p where p: "polls (est s) w = Some p" "wtype p = Wakeup_epoll" using one_epollD(1) [OF S(2)] by blast
  note fl = in_wait_flags [OF p(1)]
  show ?thesis
  proof (cases a)
    case (Event b ev)
    then obtain v T where T: "stk s i = Stk_idle" "add_event_list E b ev (est s) = Some (v, T)"
      "t = s\<lparr>est := T, stk := (stk s)(i := if v = None then Stk_idle else Stk_queued)\<rparr>" using t by (auto split: if_splits)
    have U: "ep_inv E T" "one_epoll w T" using add_event_list_inv [OF E S T(2)] by simp_all
    have f: "flags T w = flags (est s) w" "wakeup_lists T = wakeup_lists (est s)" "v = None \<Longrightarrow> T = est s"
      using add_event_list_frame [OF T(2)] by simp_all
    show ?thesis unfolding T(3)
      by (rule wait_inv_stk [OF I U i]) (use f T(1) in \<open>auto simp: woken_def due_at_def\<close>)
  next
    case Kernel_event
    let ?S = "(est s)\<lparr>kernel_events := (kernel_events (est s))(i := tl (kernel_events (est s) i))\<rparr>"
    let ?T = "poll_upd w (\<lambda>p. p\<lparr>have_kernel_event := True\<rparr>) ?S"
    have U: "ep_inv E ?S" "one_epoll w ?S" using S by (auto intro: ep_law one_law)
    have T: "stk s i = Stk_idle" "t = s\<lparr>est := ?T, stk := (stk s)(i := Stk_queued)\<rparr>"
      using t Kernel_event p by (auto simp: Let_def split: if_splits)
    show ?thesis unfolding T(2)
      by (rule wait_inv_stk [OF I _ _ i]) (use inv_upd(1) [OF U(1)] inv_upd(2) [OF U(2)] T(1) in \<open>auto simp: woken_def due_at_def\<close>)
  next
    case Link
    let ?T = "add_wakeup_list E i w (est s)"
    have T: "stk s i = Stk_queued" "t = s\<lparr>est := ?T, stk := (stk s)(i := Stk_idle)\<rparr>"
      using t Link by (auto split: if_splits)
    have U: "ep_inv E ?T" "one_epoll w ?T" unfolding add_wakeup_list_def
      using wakeup_put_inv [OF E S(1) p(1) i] S(2) by (auto intro: one_law)
    have f: "flags ?T w = flags (est s) w" "has_ready ?T w = has_ready (est s) w" "w \<in> set (wakeup_lists ?T i)"
      "j \<noteq> i \<Longrightarrow> wakeup_lists ?T j = wakeup_lists (est s) j" for j
      using E by (auto simp: add_wakeup_list_def)
    show ?thesis unfolding T(2)
      by (rule wait_inv_stk [OF I U i]) (use f T(1) in \<open>auto simp: woken_def due_at_def\<close>)
  next
    case Load
    then have T: "stk s i = Stk_idle" "t = s\<lparr>est := est s, stk := (stk s)(i := Stk_loaded (in_wait p))\<rparr>"
      using t p by (auto split: if_splits)
    have "armed (app s) \<longrightarrow> in_wait p \<or> \<not> wait_locked p \<or> (\<exists>j < stack_num E. j \<noteq> i \<and> stk s j = Stk_stored)"
      using I fl T(1) unfolding wait_inv_def woken_def by fastforce
    then show ?thesis unfolding T(2)
      by (intro wait_inv_stk [OF I S i]) (use fl T(1) in \<open>auto simp: woken_def due_at_def\<close>)
  next
    case Clear_wait
    let ?T = "poll_upd w (\<lambda>p. p\<lparr>in_wait := False\<rparr>) (est s)"
    have T: "stk s i = Stk_loaded True" "t = s\<lparr>est := ?T, stk := (stk s)(i := Stk_stored)\<rparr>"
      using t Clear_wait by (auto split: if_splits)
    show ?thesis unfolding T(2)
      by (rule wait_inv_stk [OF I _ _ i]) (use inv_upd(1) [OF S(1)] inv_upd(2) [OF S(2)] T(1) in \<open>auto simp: woken_def due_stk\<close>)
  next
    case Unlock
    let ?T = "(poll_upd w (\<lambda>p. p\<lparr>wait_locked := False\<rparr>) (est s))\<lparr>wakeup_events := (wakeup_events (est s))(i := wakeup_events (est s) i + 1)\<rparr>"
    have T: "t = s\<lparr>est := ?T, stk := (stk s)(i := Stk_done)\<rparr>" using t Unlock by (auto split: if_splits)
    have U: "ep_inv E ?T" "one_epoll w ?T" using inv_upd(1) [OF S(1)] inv_upd(2) [OF S(2)] by (auto intro: ep_law one_law)
    have "\<exists>b. flags ?T w = Some (b, False)" using fl by simp
    then show ?thesis unfolding T by (intro wait_inv_stk [OF I U i]) simp_all
  next
    case Skip
    then have T: "stk s i = Stk_loaded False" "t = s\<lparr>est := est s, stk := (stk s)(i := Stk_done)\<rparr>"
      using t by (auto split: if_splits)
    show ?thesis unfolding T(2)
      by (rule wait_inv_stk [OF I S i]) (use T(1) in \<open>auto simp: woken_def due_at_def\<close>)
  next
    case Unlink
    let ?T = "(est s)\<lparr>wakeup_lists := (wakeup_lists (est s))(i := remove1 w (wakeup_lists (est s) i))\<rparr>"
    have T: "stk s i = Stk_done" "t = s\<lparr>est := ?T, stk := (stk s)(i := Stk_idle)\<rparr>" using t Unlink by (auto split: if_splits)
    have U: "ep_inv E ?T" "one_epoll w ?T" using S by (auto intro: ep_law one_law)
    show ?thesis unfolding T(2)
      by (rule wait_inv_stk [OF I U i]) (use T(1) in \<open>auto simp: woken_def due_at_def\<close>)
  qed
qed

lemma io_frame:
  assumes "ep_inv E S" "one_epoll w S" "socks S a = Some u" "linked v = linked u" "sock_stack_idx v = sock_stack_idx u"
    and "wakeup v = wakeup u" "events v = events u" "epoll_events v = epoll_events u"
  shows "ep_inv E (S\<lparr>socks := (socks S)(a \<mapsto> v)\<rparr>)" "one_epoll w (S\<lparr>socks := (socks S)(a \<mapsto> v)\<rparr>)"
    and "has_ready (S\<lparr>socks := (socks S)(a \<mapsto> v)\<rparr>) w = has_ready S w"
proof -
  show "ep_inv E (S\<lparr>socks := (socks S)(a \<mapsto> v)\<rparr>)" using assms by (intro ep_inv_cong [OF assms(1)]) auto
  show "one_epoll w (S\<lparr>socks := (socks S)(a \<mapsto> v)\<rparr>)" using assms(2,3,6) by (auto simp: one_epoll_def)
  have "sock_ready (S\<lparr>socks := (socks S)(a \<mapsto> v)\<rparr>) b = sock_ready S b" for b using assms by (simp add: sock_ready_def)
  then show "has_ready (S\<lparr>socks := (socks S)(a \<mapsto> v)\<rparr>) w = has_ready S w" by (simp add: has_ready_def)
qed

lemma wait_step_inv:
  assumes I: "wait_inv E w m s" and E: "puts_node E" and m: "1 < sint m" and t: "wait_step E w m x s = Some t"
  shows "wait_inv E w m t"
proof -
  have S: "ep_inv E (est s)" "one_epoll w (est s)" and pc: "pc_ok m (app s)" using I by (simp_all add: wait_inv_def)
  show ?thesis
  proof (cases x)
    case (App a) then show ?thesis using app_step_inv [OF I m] t by simp
  next
    case (Stack i a) then show ?thesis using stk_step_inv [OF I E] t by (simp split: if_splits)
  next
    case (Kernel_thread i n)
    let ?T = "gazelle_kernelevent_round i (replicate n w) (est s)"
    have T: "t = s\<lparr>est := ?T\<rparr>\<lparr>kernel_ready := True\<rparr>" using t Kernel_thread by (auto split: if_splits)
    have "wait_inv E w m (s\<lparr>est := ?T\<rparr>)"
      by (rule wait_inv_est [OF I]) (use S in \<open>auto simp: gazelle_kernelevent_round_def intro: ep_law one_law split: if_splits\<close>)
    then show ?thesis unfolding T by (simp only: wait_inv_ready)
  next
    case (Io a v)
    then obtain u where u: "socks (est s) a = Some u" "t = s\<lparr>est := (est s)\<lparr>socks := (socks (est s))(a \<mapsto>
        u\<lparr>conn := conn v, recv_ring := recv_ring v, send_ring := send_ring v, recv_lastdata := recv_lastdata v,
          same_node_ready := same_node_ready v, errevent := errevent v\<rparr>)\<rparr>\<rparr>" using t by auto
    show ?thesis unfolding u(2) by (rule wait_inv_est [OF I]) (use io_frame [OF S u(1)] in simp_all)
  next
    case (Read a)
    then obtain T where T: "del_data_in_event a (est s) = Some T" "t = s\<lparr>est := T\<rparr>" using t by auto
    show ?thesis unfolding T(2)
      by (rule wait_inv_est [OF I]) (use del_data_inv(1) [OF S(1) T(1)] one_del_data(1) [OF S(2) T(1)] del_data_frame [OF S(1)] T(1) in blast)+
  next
    case (Write a)
    then obtain T where T: "del_data_out_event a (est s) = Some T" "t = s\<lparr>est := T\<rparr>" using t by auto
    show ?thesis unfolding T(2)
      by (rule wait_inv_est [OF I]) (use del_data_inv(2) [OF S(1) T(1)] one_del_data(2) [OF S(2) T(1)] del_data_frame [OF S(1)] T(1) in blast)+
  next
    case (Ctl epfd op fd event)
    then obtain r T where T: "app s = App_out" "lstack_epoll_ctl E epfd op fd event (est s) = Some (r, T)" "t = s\<lparr>est := T\<rparr>"
      using t by (auto split: if_splits)
    have "ep_inv E T" "one_epoll w T" using epoll_ctl_inv [OF E S(1) T(2)] one_ctl [OF S(2) T(2)] by simp_all
    then show ?thesis using T(1,3) by (simp add: wait_inv_def)
  qed
qed

lemma wait_run_inv:
  "wait_inv E w m s \<Longrightarrow> puts_node E \<Longrightarrow> 1 < sint m \<Longrightarrow> wait_run E w m xs s = Some t \<Longrightarrow> wait_inv E w m t"
  by (induction xs arbitrary: s) (auto split: option.splits dest: wait_step_inv)

lemma wait_start_inv: "wait_start E w s \<Longrightarrow> wait_inv E w m s"
  by (simp add: wait_start_def wait_inv_def one_epoll_def)

section \<open>Properties\<close>

text \<open>C9: No wakeup is lost. However the steps of a thread in epoll_wait interleave with those of any
  number of stack threads, with data coming and going and with reads and writes of other threads:
  whenever the waiting thread is asleep on the mutex while no stack thread has the wakeup still to
  serve, no socket in its event list has an event that was asked for. The thread has room for at
  least two events.
\<close>

theorem no_lost_wakeup:
  assumes "puts_node E" and "wait_start E w s0" and "1 < sint maxevents"
    and "wait_run E w maxevents moves s0 = Some s"
    and asleep: "app s = App_sleep kn" "polls (est s) w = Some p" "wait_locked p"
    and served: "\<forall>i < stack_num E. stk s i = Stk_idle \<and> w \<notin> set (wakeup_lists (est s) i)"
  shows "filter (sock_ready (est s)) (event_list p) = []"
proof -
  have "wait_inv E w maxevents s" using wait_run_inv [OF wait_start_inv [OF assms(2)] assms(1,3,4)] .
  then have "has_ready (est s) w \<longrightarrow> woken w s \<or> (\<exists>i < stack_num E. due_at w s i)" using asleep(1) by (simp add: wait_inv_def)
  moreover have "\<not> woken w s" using asleep(2,3) by (simp add: woken_def flags_def)
  moreover have "\<not> due_at w s i" if "i < stack_num E" for i using served that by (simp add: due_at_def)
  ultimately have "\<not> has_ready (est s) w" by blast
  then show ?thesis using asleep(2) by (auto simp: has_ready_def filter_empty_conv)
qed


definition demo_threads :: "u32 \<Rightarrow> ep_threads" where
  "demo_threads ev = \<lparr>est = demo_ep ev, app = App_out, stk = (\<lambda>_. Stk_idle), kernel_ready = False\<rparr>"

lemma demo_wait_start: "wait_start demo_ep_env 9 (demo_threads ev)"
  using demo_ep_inv [of ev] by (auto simp: wait_start_def demo_threads_def demo_ep_simps split: if_splits)

definition observe :: "ep_threads \<Rightarrow> app_pc \<times> bool \<times> (bool \<times> bool \<times> addr list) option \<times> stk_pc \<times> addr list" where
  "observe s = (app s, kernel_ready s, map_option (\<lambda>p. (wait_locked p, have_kernel_event p, event_list p)) (polls (est s) 9),
     stk s 0, wakeup_lists (est s) 0)"

text \<open>A thread finds the kernel side empty; before it clears the flag a kernel event arrives and is served.\<close>

definition lost_moves :: "ep_move list" where
  "lost_moves = [App Call, App Store, App Walk, App (Ask 0), Kernel_thread 0 1, Stack 0 Kernel_event, Stack 0 Link, Stack 0 Load,
     Stack 0 Clear_wait, Stack 0 Unlock, Stack 0 Unlink, App Clear, App Sleep, App Lock, App Store, App Walk, App (Ask 0), App Sleep]"

definition quiet_moves :: "ep_move list" where
  "quiet_moves = [App Call, App Store, App Walk, App (Ask 0), App Clear, App Return, App Leave, App Call, App Store,
     App Walk, App (Ask 0), App Sleep]"

lemma demo_runs:
  "map_option observe (wait_run demo_ep_env 9 8 lost_moves (demo_threads 0)) = Some (App_sleep 0, True, Some (True, False, []), Stk_idle, [])"
  "map_option observe (wait_run demo_ep_env 9 8 quiet_moves (demo_threads 0x80000001)) = Some (App_sleep 0, False, Some (True, False, []), Stk_idle, [])"
  by code_simp+


lemma observed:
  assumes "map_option observe r = Some (a, k, Some (l, h, es), pc, wl)"
  shows "\<exists>s p. r = Some s \<and> app s = a \<and> kernel_ready s = k \<and> polls (est s) 9 = Some p \<and> wait_locked p = l \<and>
    have_kernel_event p = h \<and> event_list p = es \<and> stk s 0 = pc \<and> wakeup_lists (est s) 0 = wl"
  using assms by (auto simp: observe_def)

lemma no_lost_wakeup_witness:
  "\<exists>s p. wait_run demo_ep_env 9 8 quiet_moves (demo_threads 0x80000001) = Some s \<and> app s = App_sleep 0 \<and>
     polls (est s) 9 = Some p \<and> filter (sock_ready (est s)) (event_list p) = []"
proof -
  obtain s p where s: "wait_run demo_ep_env 9 8 quiet_moves (demo_threads 0x80000001) = Some s" "app s = App_sleep 0"
      "polls (est s) 9 = Some p" "wait_locked p" "stk s 0 = Stk_idle" "wakeup_lists (est s) 0 = []"
    using observed [OF demo_runs(2)] by auto
  have "filter (sock_ready (est s)) (event_list p) = []"
    by (rule no_lost_wakeup [OF demo_puts demo_wait_start _ s(1-4)]) (use s(5,6) in \<open>simp_all add: demo_ep_env_def\<close>)
  then show ?thesis using s by blast
qed

text \<open>
  An event of the kernel's side is lost when it arrives between a kernel epoll_wait that found
  nothing and the clearing of the flag that follows it: the stack thread sets the flag and
  unlocks the mutex, the waiting thread clears the flag, goes round once without asking the kernel
  and sleeps, with the event pending, the flag clear and no stack thread about to wake it.
\<close>

theorem kernel_event_is_lost:
  "\<exists>moves s p. wait_start demo_ep_env 9 (demo_threads 0) \<and> wait_run demo_ep_env 9 8 moves (demo_threads 0) = Some s \<and>
     app s = App_sleep 0 \<and> polls (est s) 9 = Some p \<and> wait_locked p \<and> \<not> have_kernel_event p \<and>
     stk s 0 = Stk_idle \<and> wakeup_lists (est s) 0 = [] \<and> kernel_ready s"
  using demo_wait_start observed [OF demo_runs(1)] by blast

end
