(* ===== verification/Same_Node_Ring.thy ===== *)
theory Same_Node_Ring
  imports Rte_Ring
begin

text \<open>
  The byte ring between two processes on one machine (\<open>src/lstack/core/lstack_lwip.c\<close>):
  \<open>gazelle_same_node_ring_send\<close> and \<open>gazelle_same_node_ring_recv\<close>, their interleavings, and how
  \<open>create_same_node_ring\<close> and \<open>find_same_node_memzone\<close> connect the two ends.

  \<open>sndbegin\<close> and \<open>sndend\<close> are free-running 64-bit counters that wrap: \<open>sndbegin\<close> is the last byte
  received, \<open>sndend\<close> the last byte sent. Byte \<open>p\<close> lies at \<open>p AND SAME_NODE_RING_MASK\<close>. The length and
  the mask are defined in lwip, outside the repository: parameters, of which \<open>node_len_ok\<close> states
  that the length is a power of two and the mask one less.
\<close>

section \<open>The ring and memcpy\<close>

record node_len =
  ring_len :: u64
  ring_mask :: u64

definition node_len_ok :: "node_len \<Rightarrow> bool" where
  "node_len_ok P \<longleftrightarrow> (\<exists>k < 32. ring_len P = 2 ^ k \<and> ring_mask P = 2 ^ k - 1)"

record same_node_ring =
  sndbegin :: u64
  sndend :: u64
  mz_bytes :: "u8 list" \<comment> \<open>the memory at \<open>mz->addr\<close>\<close>

text \<open>The two sides of \<open>rte_memcpy\<close>; outside the object it is undefined.\<close>

definition fetch_bytes :: "u8 list \<Rightarrow> u64 \<Rightarrow> u64 \<Rightarrow> u8 list option" where
  "fetch_bytes m off n = (if unat off + unat n \<le> length m then Some (take (unat n) (drop (unat off) m)) else None)"

definition store_bytes :: "u8 list \<Rightarrow> u64 \<Rightarrow> u8 list \<Rightarrow> u8 list option" where
  "store_bytes m off xs =
     (if unat off + length xs \<le> length m then Some (take (unat off) m @ xs @ drop (unat off + length xs) m) else None)"

section \<open>The calls\<close>

text \<open>
  Each returns the C result, -1 with \<open>errno\<close> EAGAIN when there is no room or no data. The
  removal of the EPOLLIN event after a receive is in \<open>Lstack_Recv\<close>.
\<close>

definition copy_in :: "node_len \<Rightarrow> u8 list \<Rightarrow> u64 \<Rightarrow> u64 \<Rightarrow> u8 list \<Rightarrow> u8 list option" where
  "copy_in P buf index act_len m =
     (let at = index AND ring_mask P in
      if at + act_len > ring_len P then
        let act_len1 = ring_len P - at; act_len2 = act_len - act_len1 in do {
          x1 \<leftarrow> fetch_bytes buf 0 act_len1;
          m \<leftarrow> store_bytes m at x1;
          x2 \<leftarrow> fetch_bytes buf act_len1 act_len2;
          store_bytes m 0 x2 }
      else do {
        x \<leftarrow> fetch_bytes buf 0 act_len;
        store_bytes m at x })"

definition copy_out :: "node_len \<Rightarrow> u64 \<Rightarrow> u64 \<Rightarrow> u8 list \<Rightarrow> u8 list option" where
  "copy_out P index act_len m =
     (let at = index AND ring_mask P in
      if at + act_len > ring_len P then
        let act_len1 = ring_len P - at; act_len2 = act_len - act_len1 in do {
          x1 \<leftarrow> fetch_bytes m at act_len1;
          x2 \<leftarrow> fetch_bytes m 0 act_len2;
          Some (x1 @ x2) }
      else fetch_bytes m at act_len)"

definition gazelle_same_node_ring_send :: "node_len \<Rightarrow> u8 list \<Rightarrow> u64 \<Rightarrow> same_node_ring \<Rightarrow> (int \<times> same_node_ring) option" where
  "gazelle_same_node_ring_send P buf len r =
     (let cur_begin = sndbegin r; cur_end = sndend r in
      if cur_end \<ge> cur_begin + ring_len P then Some (-1, r)
      else
        let index = cur_end + 1;
            act_len = min (ring_len P - (cur_end - cur_begin)) len
        in do {
          m \<leftarrow> copy_in P buf index act_len (mz_bytes r);
          let r = r\<lparr>mz_bytes := m, sndend := index + act_len - 1\<rparr>;
          Some (if act_len = 0 then -1 else uint act_len, r) })"

definition gazelle_same_node_ring_recv :: "node_len \<Rightarrow> u64 \<Rightarrow> same_node_ring \<Rightarrow> (int \<times> u8 list \<times> same_node_ring) option" where
  "gazelle_same_node_ring_recv P len r =
     (let cur_begin = sndbegin r; index = cur_begin + 1; cur_end = sndend r in
      if cur_begin = cur_end then Some (-1, [], r)
      else
        let act_len = min (cur_end - index + 1) len
        in do {
          xs \<leftarrow> copy_out P index act_len (mz_bytes r);
          Some (uint act_len, xs, r\<lparr>sndbegin := index + act_len - 1\<rparr>) })"

section \<open>The two processes\<close>

text \<open>
  The sender loads \<open>sndbegin\<close> with acquire, copies its bytes one by one and stores \<open>sndend\<close> with
  release; the receiver the other way round. Each load, each byte and each store is a step.
\<close>

datatype node_send_pc = Send_idle | Send_loaded u64 "u8 list" | Send_copy "u8 list" nat

datatype node_recv_pc = Recv_idle | Recv_loaded u64 u64 | Recv_copy u64 "u8 list"

record node_threads =
  nring :: same_node_ring
  send_pc :: node_send_pc
  recv_pc :: node_recv_pc
  sent :: "u8 list" \<comment> \<open>bytes of all completed sends\<close>
  received :: "u8 list" \<comment> \<open>bytes of all completed receives\<close>

definition byte_at :: "node_len \<Rightarrow> u64 \<Rightarrow> nat \<Rightarrow> nat" where
  "byte_at P p k = unat ((p + 1 + word_of_nat k) AND ring_mask P)"

definition node_send_step :: "node_len \<Rightarrow> u8 list \<Rightarrow> node_threads \<Rightarrow> node_threads" where
  "node_send_step P buf s =
     (let r = nring s in
      case send_pc s of
        Send_idle \<Rightarrow> s\<lparr>send_pc := Send_loaded (sndbegin r) buf\<rparr>
      | Send_loaded cur_begin xs \<Rightarrow>
          (let cur_end = sndend r in
           if cur_end \<ge> cur_begin + ring_len P then s\<lparr>send_pc := Send_idle\<rparr>
           else s\<lparr>send_pc := Send_copy (take (unat (min (ring_len P - (cur_end - cur_begin)) (word_of_nat (length xs)))) xs) 0\<rparr>)
      | Send_copy xs j \<Rightarrow>
          if j < length xs then
            s\<lparr>nring := r\<lparr>mz_bytes := (mz_bytes r)[byte_at P (sndend r) j := xs ! j]\<rparr>, send_pc := Send_copy xs (Suc j)\<rparr>
          else s\<lparr>nring := r\<lparr>sndend := sndend r + word_of_nat (length xs)\<rparr>, send_pc := Send_idle, sent := sent s @ xs\<rparr>)"

definition node_recv_step :: "node_len \<Rightarrow> u64 \<Rightarrow> node_threads \<Rightarrow> node_threads" where
  "node_recv_step P len s =
     (let r = nring s in
      case recv_pc s of
        Recv_idle \<Rightarrow> s\<lparr>recv_pc := Recv_loaded (sndend r) len\<rparr>
      | Recv_loaded cur_end n \<Rightarrow>
          if sndbegin r = cur_end then s\<lparr>recv_pc := Recv_idle\<rparr>
          else s\<lparr>recv_pc := Recv_copy (min (cur_end - (sndbegin r + 1) + 1) n) []\<rparr>
      | Recv_copy n xs \<Rightarrow>
          if length xs < unat n then s\<lparr>recv_pc := Recv_copy n (xs @ [mz_bytes r ! byte_at P (sndbegin r) (length xs)])\<rparr>
          else s\<lparr>nring := r\<lparr>sndbegin := sndbegin r + n\<rparr>, recv_pc := Recv_idle, received := received s @ xs\<rparr>)"

datatype node_move = Sender "u8 list" | Receiver u64

fun do_node_move :: "node_len \<Rightarrow> node_move \<Rightarrow> node_threads \<Rightarrow> node_threads" where
  "do_node_move P (Sender buf) s = node_send_step P buf s"
| "do_node_move P (Receiver len) s = node_recv_step P len s"

definition node_schedule :: "node_len \<Rightarrow> node_move list \<Rightarrow> node_threads \<Rightarrow> node_threads" where
  "node_schedule P ms s = fold (do_node_move P) ms s"

definition node_start :: "same_node_ring \<Rightarrow> node_threads" where
  "node_start r = \<lparr>nring = r, send_pc = Send_idle, recv_pc = Recv_idle, sent = [], received = []\<rparr>"

fun node_move_ok :: "node_move \<Rightarrow> bool" where
  "node_move_ok (Sender buf) \<longleftrightarrow> length buf < 2 ^ 64"
| "node_move_ok (Receiver len) \<longleftrightarrow> True"

section \<open>Where the bytes lie\<close>

definition node_shape :: "node_len \<Rightarrow> same_node_ring \<Rightarrow> bool" where
  "node_shape P r \<longleftrightarrow> node_len_ok P \<and> length (mz_bytes r) = unat (ring_len P)"

definition in_flight :: "same_node_ring \<Rightarrow> nat" where
  "in_flight r = unat (sndend r - sndbegin r)"

definition bytes_from :: "node_len \<Rightarrow> u8 list \<Rightarrow> u64 \<Rightarrow> nat \<Rightarrow> u8 list" where
  "bytes_from P m p n = map (\<lambda>k. m ! byte_at P p k) [0..<n]"

definition node_inv :: "node_len \<Rightarrow> same_node_ring \<Rightarrow> bool" where
  "node_inv P r \<longleftrightarrow> node_shape P r \<and> in_flight r \<le> unat (ring_len P)"

definition node_bytes :: "node_len \<Rightarrow> same_node_ring \<Rightarrow> u8 list" where
  "node_bytes P r = bytes_from P (mz_bytes r) (sndbegin r) (in_flight r)"

lemma node_lenD:
  assumes "node_len_ok P"
  shows "0 < unat (ring_len P)" and "unat (ring_len P) dvd 2 ^ 64" and "unat (ring_len P) \<le> 2 ^ 31"
    and "unat (x AND ring_mask P) = unat x mod unat (ring_len P)"
proof -
  obtain k where k: "k < 32" "ring_len P = 2 ^ k" "ring_mask P = 2 ^ k - 1"
    using assms by (auto simp: node_len_ok_def)
  have "(2::nat) ^ k < 2 ^ 64" by (rule power_strict_increasing) (use k in simp_all)
  then have "unat (word_of_nat (2 ^ k) :: u64) = 2 ^ k" by (simp only: unat_of_nat) simp
  then have l: "unat (ring_len P) = 2 ^ k" by (simp add: k(2))
  show "0 < unat (ring_len P)" by (simp add: l)
  show "unat (ring_len P) dvd 2 ^ 64" unfolding l by (rule le_imp_power_dvd) (use k in simp)
  show "unat (ring_len P) \<le> 2 ^ 31" unfolding l by (rule power_increasing) (use k in simp_all)
  have "x AND ring_mask P = take_bit k x" by (simp add: k(3) take_bit_eq_mask mask_eq_exp_minus_1)
  then show "unat (x AND ring_mask P) = unat x mod unat (ring_len P)"
    using l by (metis unsigned_take_bit_eq take_bit_eq_mod)
qed
lemma byte_at_mod:
  assumes "node_len_ok P"
  shows "byte_at P p k = (unat (p + 1) + k) mod unat (ring_len P)"
proof -
  let ?L = "unat (ring_len P)"
  note L = node_lenD [OF assms]
  have "unat (p + 1 + word_of_nat k) = (unat (p + 1) + k) mod 2 ^ 64"
    by (simp add: unat_word_ariths [where 'a=64] unat_of_nat mod_simps)
  then show ?thesis using L(2) by (simp only: byte_at_def L(4) mod_mod_cancel)
qed

lemma byte_at_bound: "node_len_ok P \<Longrightarrow> byte_at P p k < unat (ring_len P)"
  using node_lenD(1) [of P] by (simp add: byte_at_mod)

lemma byte_at_shift: "byte_at P (p + n) k = byte_at P p (unat n + k)"
  by (simp add: byte_at_def algebra_simps)

lemma byte_at_inj:
  assumes "node_len_ok P" "byte_at P p j = byte_at P p k" "j < unat (ring_len P)" "k < unat (ring_len P)"
  shows "j = k"
  using assms(2-4) unfolding byte_at_mod [OF assms(1)]
proof (induction j k rule: linorder_wlog)
  case (le a b)
  then have "unat (ring_len P) dvd (unat (p + 1) + b) - (unat (p + 1) + a)"
    by (metis add_le_mono le_refl mod_eq_dvd_iff_nat)
  then have "unat (ring_len P) dvd b - a" by simp
  with le(1,4) show ?case by (metis diff_diff_cancel diff_is_0_eq dvd_imp_le
        less_imp_diff_less linorder_not_less nat_neq_iff zero_less_diff)
qed simp
 
lemma length_bytes_from [simp]: "length (bytes_from P m p n) = n"
  by (simp add: bytes_from_def)

lemma bytes_from_add: "bytes_from P m p (a + b) = bytes_from P m p a @ bytes_from P m (p + word_of_nat a) b"
  if "a < 2 ^ 64"
proof -
  have "unat (word_of_nat a :: u64) = a" using that by (simp add: unat_of_nat)
  moreover have "map f [a..<a + b] = map (\<lambda>k. f (a + k)) [0..<b]" for f :: "nat \<Rightarrow> u8"
    by (induction b) simp_all
  ultimately show ?thesis by (simp add: bytes_from_def upt_add_eq_append [of 0 a b] byte_at_shift)
qed

lemma bytes_from_update_other:
  assumes "node_len_ok P" "b + j < unat (ring_len P)" "a \<le> b"
  shows "bytes_from P (m[byte_at P p (b + j) := x]) p a = bytes_from P m p a"
  unfolding bytes_from_def
proof (rule map_cong [OF refl])
  fix k assume "k \<in> set [0..<a]"
  then have "byte_at P p k \<noteq> byte_at P p (b + j)" using byte_at_inj [OF assms(1)] assms(2,3) by fastforce
  then show "m[byte_at P p (b + j) := x] ! byte_at P p k = m ! byte_at P p k" by simp
qed

section \<open>The invariant of all interleavings\<close>

definition sender_ok :: "node_len \<Rightarrow> same_node_ring \<Rightarrow> node_send_pc \<Rightarrow> bool" where
  "sender_ok P r pc \<longleftrightarrow>
     (case pc of
        Send_idle \<Rightarrow> True
      | Send_loaded b xs \<Rightarrow> in_flight r \<le> unat (sndend r - b) \<and> unat (sndend r - b) \<le> unat (ring_len P) \<and> length xs < 2 ^ 64
      | Send_copy xs j \<Rightarrow> j \<le> length xs \<and> in_flight r + length xs \<le> unat (ring_len P) \<and>
          bytes_from P (mz_bytes r) (sndend r) j = take j xs)"

definition receiver_ok :: "node_len \<Rightarrow> same_node_ring \<Rightarrow> node_recv_pc \<Rightarrow> bool" where
  "receiver_ok P r pc \<longleftrightarrow>
     (case pc of
        Recv_idle \<Rightarrow> True
      | Recv_loaded e n \<Rightarrow> unat (e - sndbegin r) \<le> in_flight r
      | Recv_copy n xs \<Rightarrow> unat n \<le> in_flight r \<and> length xs \<le> unat n \<and>
          xs = bytes_from P (mz_bytes r) (sndbegin r) (length xs))"

definition node_threads_inv :: "node_len \<Rightarrow> node_threads \<Rightarrow> bool" where
  "node_threads_inv P s \<longleftrightarrow> node_inv P (nring s) \<and> sender_ok P (nring s) (send_pc s) \<and>
     receiver_ok P (nring s) (recv_pc s) \<and> sent s = received s @ node_bytes P (nring s)"

lemmas node_threads_defs = node_threads_inv_def sender_ok_def receiver_ok_def

lemma node_shapeD:
  assumes "node_inv P r"
  shows "node_len_ok P" and "length (mz_bytes r) = unat (ring_len P)" and "in_flight r \<le> unat (ring_len P)"
    and "unat (ring_len P) \<le> 2 ^ 31" "0 < unat (ring_len P)"
  using assms node_lenD by (simp_all add: node_inv_def node_shape_def)

text \<open>The sender writes behind the bytes in flight.\<close>

lemma write_behind:
  assumes "node_inv P r" and "in_flight r + j < unat (ring_len P)" and "a \<le> in_flight r"
  shows "bytes_from P ((mz_bytes r)[byte_at P (sndend r) j := x]) (sndbegin r) a = bytes_from P (mz_bytes r) (sndbegin r) a"
proof -
  have "byte_at P (sndend r) j = byte_at P (sndbegin r) (in_flight r + j)"
    using byte_at_shift [of P "sndbegin r" "sndend r - sndbegin r" j] by (simp add: in_flight_def)
  then show ?thesis using bytes_from_update_other [OF _ assms(2,3)] node_shapeD(1) [OF assms(1)] by simp
qed

lemma bytes_from_Suc: "bytes_from P m p (Suc n) = bytes_from P m p n @ [m ! byte_at P p n]"
  by (simp add: bytes_from_def)

lemma send_step_inv:
  assumes inv: "node_threads_inv P s" and buf: "length buf < 2 ^ 64"
  shows "node_threads_inv P (node_send_step P buf s)"
proof -
  let ?r = "nring s"
  have I: "node_inv P ?r" using inv by (simp add: node_threads_inv_def)
  note D = node_shapeD [OF I]
  show ?thesis
  proof (cases "send_pc s")
    case Send_idle
    then show ?thesis using inv buf D(3) by (auto simp: node_threads_defs node_send_step_def Let_def in_flight_def)
  next
    case (Send_loaded b xs)
    let ?n = "min (ring_len P - (sndend ?r - b)) (word_of_nat (length xs))"
    have f: "in_flight ?r \<le> unat (sndend ?r - b)" "unat (sndend ?r - b) \<le> unat (ring_len P)" "length xs < 2 ^ 64"
      using inv Send_loaded by (simp_all add: node_threads_defs)
    have "unat (ring_len P - (sndend ?r - b)) = unat (ring_len P) - unat (sndend ?r - b)"
      using f(2) by (rule unat_minus_le)
    then have "unat ?n \<le> unat (ring_len P) - unat (sndend ?r - b)" by (simp add: min_def word_le_nat_alt)
    then have "in_flight ?r + length (take (unat ?n) xs) \<le> unat (ring_len P)" using f by simp
    then show ?thesis using inv Send_loaded
      by (simp add: node_threads_defs node_send_step_def Let_def bytes_from_def split: node_recv_pc.splits)
  next
    case (Send_copy xs j)
    have f: "j \<le> length xs" "in_flight ?r + length xs \<le> unat (ring_len P)"
      "bytes_from P (mz_bytes ?r) (sndend ?r) j = take j xs" using inv Send_copy by (simp_all add: node_threads_defs)
    show ?thesis
    proof (cases "j < length xs")
      case True
      let ?m = "(mz_bytes ?r)[byte_at P (sndend ?r) j := xs ! j]"
      have w: "bytes_from P ?m (sndbegin ?r) a = bytes_from P (mz_bytes ?r) (sndbegin ?r) a" if "a \<le> in_flight ?r" for a
        using write_behind [OF I _ that] f True by simp
      have "bytes_from P ?m (sndend ?r) j = bytes_from P (mz_bytes ?r) (sndend ?r) j"
        using bytes_from_update_other [OF D(1), of 0 j] bytes_from_update_other [OF D(1), of j 0 j] f True by simp
      moreover have "?m ! byte_at P (sndend ?r) j = xs ! j" using byte_at_bound [OF D(1)] D(2) by simp
      ultimately have "bytes_from P ?m (sndend ?r) (Suc j) = take (Suc j) xs"
        using f True by (simp add: bytes_from_Suc take_Suc_conv_app_nth)
      then show ?thesis using inv Send_copy True w f
        by (auto simp: node_threads_defs node_send_step_def Let_def node_inv_def node_shape_def in_flight_def node_bytes_def
            split: node_recv_pc.splits)
    next
      case False
      let ?n = "word_of_nat (length xs) :: u64" and ?r' = "?r\<lparr>sndend := sndend ?r + word_of_nat (length xs)\<rparr>"
      have j: "j = length xs" using False f by simp
      have n: "unat ?n = length xs" using f D(4) by (simp add: unat_of_nat)
      have fl: "in_flight ?r' = in_flight ?r + length xs"
        using word_dist_advance [of "sndend ?r" "sndbegin ?r" ?n] f D(4) n by (simp add: in_flight_def)
      have e: "sndbegin ?r + word_of_nat (in_flight ?r) = sndend ?r" by (simp add: in_flight_def)
      have "node_bytes P ?r' = node_bytes P ?r @ xs"
        using bytes_from_add [of "in_flight ?r" P "mz_bytes ?r" "sndbegin ?r" "length xs"] f D(4) j
        by (simp add: node_bytes_def fl e)
      then show ?thesis using inv Send_copy False f fl
        by (auto simp: node_threads_defs node_send_step_def Let_def node_inv_def node_shape_def split: node_recv_pc.splits)
    qed
  qed
qed

lemma recv_step_inv:
  assumes inv: "node_threads_inv P s"
  shows "node_threads_inv P (node_recv_step P len s)"
proof -
  let ?r = "nring s"
  have I: "node_inv P ?r" using inv by (simp add: node_threads_inv_def)
  note D = node_shapeD [OF I]
  show ?thesis
  proof (cases "recv_pc s")
    case Recv_idle
    then show ?thesis using inv
      by (auto simp: node_threads_defs node_recv_step_def Let_def in_flight_def split: node_send_pc.splits)
  next
    case (Recv_loaded e n)
    have "unat (e - sndbegin ?r) \<le> in_flight ?r" using inv Recv_loaded by (simp add: node_threads_defs)
    then have "unat (min (e - (sndbegin ?r + 1) + 1) n) \<le> in_flight ?r"
      by (simp add: min_def word_le_nat_alt algebra_simps)
    then show ?thesis using inv Recv_loaded
      by (simp add: node_threads_defs node_recv_step_def Let_def bytes_from_def split: node_send_pc.splits)
  next
    case (Recv_copy n xs)
    have f: "unat n \<le> in_flight ?r" "length xs \<le> unat n" "bytes_from P (mz_bytes ?r) (sndbegin ?r) (length xs) = xs"
      using inv Recv_copy by (simp_all add: node_threads_defs)
    show ?thesis
    proof (cases "length xs < unat n")
      case True
      then show ?thesis using inv Recv_copy f
        by (simp add: node_threads_defs node_recv_step_def Let_def bytes_from_Suc split: node_send_pc.splits)
    next
      case False
      let ?r' = "?r\<lparr>sndbegin := sndbegin ?r + n\<rparr>"
      have n: "length xs = unat n" using False f by simp
      have fl: "in_flight ?r' = in_flight ?r - unat n"
        using word_dist_shrink [of n "sndend ?r" "sndbegin ?r"] f by (simp add: in_flight_def)
      have "node_bytes P ?r = xs @ node_bytes P ?r'"
        using bytes_from_add [of "unat n" P "mz_bytes ?r" "sndbegin ?r" "in_flight ?r - unat n"] f n D(3,4)
        by (simp add: node_bytes_def fl)
      moreover have "sender_ok P ?r' (send_pc s)" using inv fl
        by (auto simp: node_threads_defs split: node_send_pc.splits)
      moreover have "in_flight ?r' \<le> unat (ring_len P)" using fl D(3) by simp
      ultimately show ?thesis using inv Recv_copy False
        by (simp add: node_threads_inv_def receiver_ok_def node_recv_step_def Let_def node_inv_def node_shape_def)
    qed
  qed
qed

lemma node_threads_inv_start:
  "node_inv P r \<Longrightarrow> node_bytes P r = [] \<Longrightarrow> node_threads_inv P (node_start r)"
  by (simp add: node_threads_defs node_start_def)

lemma node_schedule_inv:
  assumes "node_threads_inv P s" and "\<forall>m \<in> set ms. node_move_ok m"
  shows "node_threads_inv P (node_schedule P ms s)"
  using assms
proof (induction ms arbitrary: s)
  case (Cons m ms)
  have "node_threads_inv P (do_node_move P m s)"
    using Cons.prems by (cases m) (auto intro: send_step_inv recv_step_inv)
  then show ?case using Cons by (simp add: node_schedule_def)
qed (simp add: node_schedule_def)

text \<open>A new ring: what \<open>create_same_node_ring\<close> leaves.\<close>

definition new_node_ring :: "node_len \<Rightarrow> u8 list \<Rightarrow> same_node_ring" where
  "new_node_ring P m = \<lparr>sndbegin = 0, sndend = 0, mz_bytes = m\<rparr>"

lemma new_node_ring_ok:
  "node_len_ok P \<Longrightarrow> length m = unat (ring_len P) \<Longrightarrow>
     node_inv P (new_node_ring P m) \<and> node_bytes P (new_node_ring P m) = []"
  by (simp add: node_inv_def node_shape_def new_node_ring_def in_flight_def node_bytes_def bytes_from_def)

text \<open>C10: However the loads, the single byte copies and the stores of a sending and a receiving
  process interleave on a ring of the same node that starts out empty, with its counters anywhere (they may wrap),
  the bytes the receiver has been given are the first bytes the sender has been told it has sent, in order,
  and the bytes in between, never more than the ring holds, are in the ring unharmed.
\<close>

theorem same_node_bytes_in_order:
  assumes "node_inv P r" and "node_bytes P r = []" and "\<forall>m \<in> set ms. node_move_ok m"
  shows "let s = node_schedule P ms (node_start r) in
           sent s = received s @ node_bytes P (nring s) \<and> in_flight (nring s) \<le> unat (ring_len P)"
  using node_schedule_inv [OF node_threads_inv_start [OF assms(1,2)] assms(3)]
  by (simp add: node_threads_inv_def node_inv_def Let_def)
section \<open>The two memcpys write and read the wrapped bytes\<close>

text \<open>The memory after \<open>xs\<close> has been written from offset \<open>at\<close> on, wrapping at the end.\<close>

definition offset :: "nat \<Rightarrow> nat \<Rightarrow> nat \<Rightarrow> nat" where
  "offset L at i = (if at \<le> i then i - at else i + L - at)"

definition wrapped :: "nat \<Rightarrow> 'a list \<Rightarrow> 'a list \<Rightarrow> 'a list" where
  "wrapped at xs m = map (\<lambda>i. if offset (length m) at i < length xs then xs ! offset (length m) at i else m ! i) [0..<length m]"

lemma length_wrapped [simp]: "length (wrapped at xs m) = length m"
  by (simp add: wrapped_def)

lemma wrapped_Nil [simp]: "wrapped at [] m = m"
  by (simp add: wrapped_def map_nth)

lemma offset_mod:
  assumes "at < L" "k < L" "i < L"
  shows "offset L at i = k \<longleftrightarrow> (at + k) mod L = i"
proof -
  have "(at + k) mod L = (if at + k < L then at + k else at + k - L)" using assms by (simp add: mod_if)
  then show ?thesis using assms by (auto simp: offset_def)
qed

lemma wrapped_at:
  "i < length m \<Longrightarrow> wrapped at xs m ! i = (if offset (length m) at i < length xs then xs ! offset (length m) at i else m ! i)"
  by (simp add: wrapped_def)

lemma wrapped_one:
  "at + length xs \<le> length m \<Longrightarrow> take at m @ xs @ drop (at + length xs) m = wrapped at xs m"
  by (rule nth_equalityI) (auto simp: wrapped_at offset_def nth_append min_def)

lemma wrapped_two:
  assumes "at < length m" "length xs \<le> length m" "at + length xs > length m" "a = length m - at"
  shows "drop a xs @ drop (length xs - a) (take at m @ take a xs) = wrapped at xs m"
proof (rule nth_equalityI)
  fix i assume "i < length (drop a xs @ drop (length xs - a) (take at m @ take a xs))"
  then have i: "i < length m" using assms by auto
  show "(drop a xs @ drop (length xs - a) (take at m @ take a xs)) ! i = wrapped at xs m ! i"
    unfolding wrapped_at [OF i]
    by (use assms i in \<open>auto simp: offset_def nth_append min_def add.commute\<close>)
qed (use assms in auto)

lemma wrapped_nth:
  assumes "at < length m" "length xs \<le> length m" "k < length m"
  shows "wrapped at xs m ! ((at + k) mod length m) = (if k < length xs then xs ! k else m ! ((at + k) mod length m))"
proof -
  have i: "(at + k) mod length m < length m" using assms(3) by (intro mod_less_divisor) linarith
  then show ?thesis using offset_mod [OF assms(1,3) i] by (simp add: wrapped_at)
qed

lemma wrapped_snoc:
  assumes "at < length m" "length xs < length m"
  shows "wrapped at (xs @ [x]) m = (wrapped at xs m)[(at + length xs) mod length m := x]"
proof (rule nth_equalityI)
  fix i assume "i < length (wrapped at (xs @ [x]) m)"
  then have i: "i < length m" by simp
  show "wrapped at (xs @ [x]) m ! i = (wrapped at xs m)[(at + length xs) mod length m := x] ! i"
    using offset_mod [OF assms i] i by (cases "offset (length m) at i" "length xs" rule: linorder_cases)
      (auto simp: wrapped_at nth_append)
qed simp

lemma unwrapped_two:
  assumes "at < length m" "n \<le> length m" "at + n > length m" 
  shows "drop at m @ take (n - (length m - at)) m = map (\<lambda>k. m ! ((at + k) mod length m)) [0..<n]"
  by (rule nth_equalityI) (use assms in \<open>auto simp: nth_append mod_if add.commute\<close>)

lemma unwrapped_one:
  assumes "at < length m" "at + n \<le> length m"
  shows "take n (drop at m) = map (\<lambda>k. m ! ((at + k) mod length m)) [0..<n]"
  by (rule nth_equalityI) (use assms in \<open>auto simp: nth_append mod_if\<close>)


text \<open>Reading and writing in place, as the calls do it.\<close>

lemma node_word_sum:
  assumes "node_len_ok P" "x \<le> ring_len P" "y \<le> ring_len P"
  shows "unat (x + y) = unat x + unat y" and "x + y > ring_len P \<longleftrightarrow> unat x + unat y > unat (ring_len P)"
proof -
  have "unat x \<le> 2 ^ 31" "unat y \<le> 2 ^ 31" using node_lenD(3) [OF assms(1)] assms(2,3) by (simp_all add: word_le_nat_alt)
  then show u: "unat (x + y) = unat x + unat y" by (intro unat_plus_small) simp
  show "x + y > ring_len P \<longleftrightarrow> unat x + unat y > unat (ring_len P)" by (simp add: word_less_nat_alt u)
qed

lemma node_at:
  assumes "node_len_ok P"
  shows "unat ((p + 1) AND ring_mask P) = byte_at P p 0" and "(p + 1) AND ring_mask P \<le> ring_len P"
    and "(p + 1) AND ring_mask P < ring_len P"
  using byte_at_bound [OF assms, of p 0] by (simp_all add: byte_at_def word_le_nat_alt word_less_nat_alt)

lemma byte_at_rotate:
  assumes "node_len_ok P"
  shows "byte_at P p k = (byte_at P p 0 + k) mod unat (ring_len P)"
  unfolding byte_at_mod [OF assms] by (simp add: mod_add_left_eq)

lemma node_store:
  assumes inv: "node_inv P r" and n: "n \<le> ring_len P" "unat n \<le> length buf"
  shows "copy_in P buf (p + 1) n (mz_bytes r) =
        Some (wrapped (byte_at P p 0) (take (unat n) buf) (mz_bytes r))"
proof -
  let ?at = "(p + 1) AND ring_mask P" and ?m = "mz_bytes r" and ?L = "unat (ring_len P)" and ?xs = "take (unat n) buf"
  note D = node_shapeD [OF inv] and A = node_at [OF node_shapeD(1) [OF inv], of p]
  note W = node_word_sum [OF D(1) A(2) n(1)]
  have n': "unat n \<le> ?L" using n by (simp add: word_le_nat_alt)
  show ?thesis
  proof (cases "?at + n > ring_len P")
    case True
    let ?a = "ring_len P - ?at"
    have a: "unat ?a = ?L - unat ?at" using A(2) by (intro unat_minus_le) (simp add: word_le_nat_alt)
    have big: "?L < unat ?at + unat n" using True W by simp
    have at: "unat ?at < ?L" using A(3) by (simp add: word_less_nat_alt)
    have b: "unat (n - ?a) = unat n - unat ?a" using big a by (intro unat_minus_le) simp
    have "drop (unat ?a) ?xs @ drop (length ?xs - unat ?a) (take (unat ?at) ?m @ take (unat ?a) ?xs) = wrapped (unat ?at) ?xs ?m"
      by (rule wrapped_two) (use a big at n' n(2) D(2) in auto)
    moreover have "unat ?a \<le> unat n" using a big by linarith
    then have "take (unat ?a) ?xs = take (unat ?a) buf" by (simp only: take_take min_absorb1)
    moreover have "drop (unat ?a) ?xs = take (unat (n - ?a)) (drop (unat ?a) buf)" by (simp add: b drop_take)
    moreover have "unat n + byte_at P p 0 - ?L \<le> ?L" "?L - byte_at P p 0 \<le> length buf"
      using n' n(2) at big A(1) by linarith+
    ultimately show ?thesis using True a b big at n' n(2) D(2) A(1)
      by (simp add: copy_in_def Let_def fetch_bytes_def store_bytes_def)
  next
    case False
    then have "unat ?at + unat n \<le> ?L" using W by simp
    then show ?thesis using False n D(2) A(1) wrapped_one [of "unat ?at" ?xs ?m]
      by (simp add: copy_in_def Let_def fetch_bytes_def store_bytes_def)
  qed
qed

lemma node_fetch:
  assumes inv: "node_inv P r" and n: "n \<le> ring_len P"
  shows "copy_out P (p + 1) n (mz_bytes r) =
        Some (bytes_from P (mz_bytes r) p (unat n))"
proof -
  let ?at = "(p + 1) AND ring_mask P" and ?m = "mz_bytes r" and ?L = "unat (ring_len P)"
  note D = node_shapeD [OF inv] and A = node_at [OF node_shapeD(1) [OF inv], of p]
  note W = node_word_sum [OF D(1) A(2) n]
  have n': "unat n \<le> ?L" using n by (simp add: word_le_nat_alt)
  have at: "unat ?at < ?L" using A(3) by (simp add: word_less_nat_alt)
  have bf: "bytes_from P ?m p (unat n) = map (\<lambda>k. ?m ! ((unat ?at + k) mod length ?m)) [0..<unat n]"
    by (simp add: bytes_from_def A(1) D(2) byte_at_rotate [OF D(1), of p, symmetric])
  show ?thesis
  proof (cases "?at + n > ring_len P")
    case True
    let ?a = "ring_len P - ?at"
    have a: "unat ?a = ?L - unat ?at" using A(2) by (intro unat_minus_le) (simp add: word_le_nat_alt)
    have big: "?L < unat ?at + unat n" using True W by simp
    have b: "unat (n - ?a) = unat n - unat ?a" using big a by (intro unat_minus_le) simp
    show ?thesis using True a b big at n' D(2) unwrapped_two [of "unat ?at" ?m "unat n"]
      by (simp add: copy_out_def Let_def fetch_bytes_def bf)
  next
    case False
    then have "unat ?at + unat n \<le> ?L" using W by simp
    then show ?thesis using False D(2) at unwrapped_one [of "unat ?at" ?m "unat n"]
      by (simp add: copy_out_def Let_def fetch_bytes_def bf)
  qed
qed

text \<open>What a call does: the sender's bytes are appended, the receiver's are removed.\<close>

text \<open>Far from the end of the counters the first test sees exactly a full ring; near it, it may refuse too much.\<close>

lemma full_test:
  assumes inv: "node_inv P r" and nowrap: "unat (sndbegin r) + unat (ring_len P) < 2 ^ 64"
  shows "sndend r \<ge> sndbegin r + ring_len P \<longleftrightarrow> in_flight r = unat (ring_len P)"
proof (cases "sndbegin r \<le> sndend r")
  case True
  have sum: "unat (sndbegin r + ring_len P) = unat (sndbegin r) + unat (ring_len P)" using nowrap by (intro unat_plus_small) simp
  have "in_flight r = unat (sndend r) - unat (sndbegin r)" "unat (sndbegin r) \<le> unat (sndend r)"
    using True by (simp_all add: in_flight_def unat_minus_le word_le_nat_alt)
  then show ?thesis using sum node_shapeD(3) [OF inv] by (simp add: word_le_nat_alt) linarith
next
  case False
  have sum: "unat (sndbegin r + ring_len P) = unat (sndbegin r) + unat (ring_len P)" using nowrap by (intro unat_plus_small) simp
  have lt: "unat (sndend r) < unat (sndbegin r)" using False by (simp add: word_le_nat_alt)
  have e: "in_flight r = 2 ^ 64 + unat (sndend r) - unat (sndbegin r)"
    using lt by (simp add: in_flight_def unat_sub_if')
  have "unat (sndbegin r) < 2 ^ 64" using unsigned_less [of "sndbegin r", where ?'a = nat] by simp
  then show ?thesis using e lt sum nowrap node_shapeD(3) [OF inv] by (simp add: word_le_nat_alt)
qed

lemma send_refused:
  "sndend r \<ge> sndbegin r + ring_len P \<Longrightarrow> gazelle_same_node_ring_send P buf len r = Some (-1, r)"
  by (simp add: gazelle_same_node_ring_send_def Let_def)

lemma byte_at_round:
  "node_len_ok P \<Longrightarrow> byte_at P p (k + unat (ring_len P)) = byte_at P p k"
  unfolding byte_at_mod add.assoc [symmetric] by (rule mod_add_self2)

lemma send_law:
  assumes inv: "node_inv P r" and len: "unat len \<le> length buf"
    and test: "\<not> sndend r \<ge> sndbegin r + ring_len P"
    and n: "n = min (unat (ring_len P) - in_flight r) (unat len)"
  shows "\<exists>r'. gazelle_same_node_ring_send P buf len r = Some (if n = 0 then -1 else int n, r') \<and>
         node_inv P r' \<and> sndbegin r' = sndbegin r \<and> node_bytes P r' = node_bytes P r @ take n buf"
proof -
  note D = node_shapeD [OF inv]
  let ?L = "unat (ring_len P)" and ?n = "min (ring_len P - (sndend r - sndbegin r)) len"
  have room: "unat (ring_len P - (sndend r - sndbegin r)) = ?L - in_flight r"
    using D(3) by (simp add: in_flight_def unat_minus_le)
  have un: "unat ?n = n" using room n by (simp add: min_def word_le_nat_alt)
  have "unat ?n \<le> ?L" unfolding un n by linarith
  then have nl: "?n \<le> ring_len P" "unat ?n \<le> length buf" using n len un by (simp_all add: word_le_nat_alt)
  let ?m = "wrapped (byte_at P (sndend r) 0) (take (unat ?n) buf) (mz_bytes r)"
  let ?r = "r\<lparr>mz_bytes := ?m, sndend := sndend r + ?n\<rparr>"
  have call: "gazelle_same_node_ring_send P buf len r = Some (if ?n = 0 then -1 else uint ?n, ?r)"
    using test node_store [OF inv nl, of "sndend r"] by (simp add: gazelle_same_node_ring_send_def Let_def)
  have "uint ?n = int (unat ?n)" by simp
  moreover have "?n = 0 \<longleftrightarrow> unat ?n = 0" by (simp only: unat_eq_zero)
  ultimately have res: "(if ?n = 0 then -1 else uint ?n) = (if n = 0 then -1 else int n)"
    unfolding un by presburger
  have fl: "in_flight ?r = in_flight r + n"
    using word_dist_advance [of "sndend r" "sndbegin r" ?n] un n D(3,4) by (simp add: in_flight_def)
  let ?xs = "take n buf"
  have lx: "length ?xs = n" using nl un by simp
  have at: "byte_at P (sndend r) 0 < length (mz_bytes r)" using byte_at_bound [OF D(1)] D(2) by simp
  have lxm: "length ?xs \<le> length (mz_bytes r)" using lx n D(2) by linarith
  have put: "?m ! byte_at P (sndend r) k = (if k < n then ?xs ! k else mz_bytes r ! byte_at P (sndend r) k)"
    if "k < ?L" for k
    using wrapped_nth [OF at lxm, of k] that D(2) un unfolding lx byte_at_rotate [OF D(1), of "sndend r" k] by simp
  have new: "bytes_from P ?m (sndend r) n = ?xs"
    by (rule nth_equalityI) (use put lx lxm D(2) in \<open>auto simp: bytes_from_def\<close>)
  have old: "bytes_from P ?m (sndbegin r) (in_flight r) = node_bytes P r"
    unfolding bytes_from_def node_bytes_def
  proof (rule map_cong [OF refl])
    fix k assume "k \<in> set [0..<in_flight r]"
    then have k: "k < in_flight r" by simp
    let ?k = "k + ?L - in_flight r"
    have "byte_at P (sndend r) ?k = byte_at P (sndbegin r) (in_flight r + ?k)"
      using byte_at_shift [of P "sndbegin r" "sndend r - sndbegin r" ?k] by (simp add: in_flight_def)
    also have "in_flight r + ?k = k + ?L" using D(3) by simp
    finally have e: "byte_at P (sndend r) ?k = byte_at P (sndbegin r) k" by (simp add: byte_at_round [OF D(1)])
    have "?k < ?L" "\<not> ?k < n" using k D(3) n by auto
    from put [OF this(1)] this(2) show "?m ! byte_at P (sndbegin r) k = mz_bytes r ! byte_at P (sndbegin r) k"
      unfolding e by simp
  qed
  have e: "sndbegin r + word_of_nat (in_flight r) = sndend r" by (simp add: in_flight_def)
  have "node_bytes P ?r = node_bytes P r @ ?xs"
    using bytes_from_add [of "in_flight r" P ?m "sndbegin r" n] new old D(3,4)
    unfolding node_bytes_def fl by (simp add: e)
  moreover have "in_flight ?r \<le> ?L" using fl n D(3) by linarith
  ultimately show ?thesis unfolding call res using inv by (simp add: node_inv_def node_shape_def)
qed

lemma recv_law:
  assumes inv: "node_inv P r" and n: "n = min (in_flight r) (unat len)"
  shows "\<exists>r'. gazelle_same_node_ring_recv P len r = Some (if in_flight r = 0 then -1 else int n, take n (node_bytes P r), r') \<and>
         node_inv P r' \<and> sndend r' = sndend r \<and> node_bytes P r' = drop n (node_bytes P r)"
proof (cases "sndbegin r = sndend r")
  case True
  then have "in_flight r = 0" by (simp add: in_flight_def)
  then show ?thesis using True inv n by (simp add: gazelle_same_node_ring_recv_def node_bytes_def bytes_from_def)
next
  case False
  note D = node_shapeD [OF inv]
  let ?n = "min (sndend r - (sndbegin r + 1) + 1) len" and ?r = "r\<lparr>sndbegin := sndbegin r + min (sndend r - (sndbegin r + 1) + 1) len\<rparr>"
  have s: "sndend r - (sndbegin r + 1) + 1 = sndend r - sndbegin r" by simp
  have pos: "in_flight r \<noteq> 0" using False by (simp add: in_flight_def unat_eq_zero)
  have un: "unat ?n = n" unfolding s n in_flight_def by (simp add: min_def word_le_nat_alt)
  have nl: "?n \<le> ring_len P" using un n D(3) by (simp add: word_le_nat_alt)
  have fl: "in_flight ?r = in_flight r - n"
    using word_dist_shrink [of ?n "sndend r" "sndbegin r"] un n by (simp add: in_flight_def)
  have call: "gazelle_same_node_ring_recv P len r = Some (uint ?n, bytes_from P (mz_bytes r) (sndbegin r) n, ?r)"
    using False node_fetch [OF inv nl, of "sndbegin r"] un by (simp add: gazelle_same_node_ring_recv_def Let_def algebra_simps)
  have nn: "n \<le> in_flight r" using n by simp
  have "word_of_nat n = ?n" unfolding un [symmetric] by simp
  then have split: "node_bytes P r = bytes_from P (mz_bytes r) (sndbegin r) n @ node_bytes P ?r"
    using bytes_from_add [of n P "mz_bytes r" "sndbegin r" "in_flight r - n"] nn D(3,4) fl
    by (simp add: node_bytes_def s)
  have "uint ?n = int n" using un by (metis uint_nat)
  moreover have "in_flight ?r \<le> unat (ring_len P)" using fl D(3) by simp
  ultimately show ?thesis using call pos inv split by (simp add: node_inv_def node_shape_def)
qed
section \<open>The ring as a queue\<close>

definition node_put :: "node_len \<Rightarrow> same_node_ring \<Rightarrow> u8 list \<Rightarrow> nat \<times> same_node_ring" where
  "node_put P r xs =
     (case gazelle_same_node_ring_send P xs (word_of_nat (length xs)) r of None \<Rightarrow> (0, r) | Some (k, r') \<Rightarrow> (nat k, r'))"

definition node_get :: "node_len \<Rightarrow> same_node_ring \<Rightarrow> nat \<Rightarrow> u8 list \<times> same_node_ring" where
  "node_get P r n = (case gazelle_same_node_ring_recv P (word_of_nat n) r of None \<Rightarrow> ([], r) | Some (k, xs, r') \<Rightarrow> (xs, r'))"

interpretation node: fifo "node_inv P" "node_bytes P" "\<lambda>r xs. length xs < 2 ^ 64" "node_put P" "node_get P" "\<lambda>_ _. False"
  for P :: node_len
proof
  fix r r' :: same_node_ring and xs k
  assume inv: "node_inv P r" and xs: "length xs < 2 ^ 64" and put: "node_put P r xs = (k, r')"
  show "node_inv P r' \<and> node_bytes P r' = node_bytes P r @ take k xs"
  proof (cases "sndend r \<ge> sndbegin r + ring_len P")
    case True
    then show ?thesis using put inv by (simp add: node_put_def send_refused)
  next
    case False
    have "unat (word_of_nat (length xs) :: u64) \<le> length xs" using xs by (simp add: unat_of_nat)
    from send_law [OF inv this False refl] show ?thesis using put by (auto simp: node_put_def split: if_splits)
  qed
next
  fix r r' :: same_node_ring and n ys
  assume inv: "node_inv P r" and get: "node_get P r n = (ys, r')"
  from recv_law [OF inv refl, of "word_of_nat n"] get
  show "node_inv P r' \<and> node_bytes P r = ys @ node_bytes P r'" by (auto simp: node_get_def)
qed simp

text \<open>C36: A send into a ring of the same node whose counters are not within a ring length of 2^64 never writes outside
  the ring and stores exactly as many of the caller's bytes as fit, at the end of what is in the ring, in two pieces when they wrap;
  it returns their number, or -1 when that is 0. A receive returns the first bytes of the ring, as many as the caller asks for
  and the ring has, and -1 exactly when the ring is empty.
\<close>

theorem same_node_send_recv:
  assumes "node_inv P r" and "unat len \<le> length buf" and "unat (sndbegin r) + unat (ring_len P) < 2 ^ 64"
  shows "(let n = min (unat (ring_len P) - in_flight r) (unat len) in
            \<exists>r'. gazelle_same_node_ring_send P buf len r = Some (if n = 0 then -1 else int n, r') \<and> node_inv P r' \<and>
                 node_bytes P r' = node_bytes P r @ take n buf) \<and>
         (let n = min (in_flight r) (unat len) in
            \<exists>r'. gazelle_same_node_ring_recv P len r = Some (if in_flight r = 0 then -1 else int n, take n (node_bytes P r), r') \<and>
                 node_inv P r' \<and> node_bytes P r' = drop n (node_bytes P r))"
    (is "?send \<and> ?recv")
proof
  show ?send
  proof (cases "sndend r \<ge> sndbegin r + ring_len P")
    case True
    then show ?thesis using full_test [OF assms(1,3)] assms(1) by (simp add: send_refused Let_def)
  next
    case False
    from send_law [OF assms(1,2) this refl] show ?thesis unfolding Let_def by blast
  qed
  show ?recv using recv_law [OF assms(1) refl, of len] unfolding Let_def by blast
qed

lemma same_node_send_recv_witness:
  "let P = \<lparr>ring_len = 8, ring_mask = 7\<rparr>; r = \<lparr>sndbegin = 3, sndend = 5, mz_bytes = [0, 0, 0, 0, 7, 9, 0, 0]\<rparr>; n = min (8 - 2) 4 in
     \<exists>r'. gazelle_same_node_ring_send P [1, 2, 3, 4, 5] 4 r = Some (4, r') \<and> node_inv P r' \<and> node_bytes P r' = [7, 9, 1, 2, 3, 4]"
proof -
  let ?P = "\<lparr>ring_len = 8, ring_mask = 7\<rparr>"
  let ?r = "\<lparr>sndbegin = 3, sndend = 5, mz_bytes = [0, 0, 0, 0, 7, 9, 0, 0]\<rparr>"
  have "node_len_ok ?P" by (auto simp: node_len_ok_def intro!: exI [of _ 3])
  then have i: "node_inv ?P ?r" by (simp add: node_inv_def node_shape_def in_flight_def)
  have b: "node_bytes ?P ?r = [7, 9]" by code_simp
  show ?thesis using same_node_send_recv [OF i, of 4 "[1, 2, 3, 4, 5]"]
    by (simp add: Let_def b in_flight_def)
qed

lemma node_steps: "node_schedule P (replicate j m) s = (do_node_move P m ^^ j) s"
  by (induction j arbitrary: s) (simp_all add: node_schedule_def funpow_swap1)

text \<open>Uninterrupted, the steps of a process are the call.\<close>

lemma copy_in_steps:
  assumes "node_inv P r" and "send_pc s = Send_copy xs 0" and "nring s = r" and "length xs \<le> unat (ring_len P)" and "j \<le> length xs"
  shows "(do_node_move P (Sender buf) ^^ j) s =
           s\<lparr>nring := r\<lparr>mz_bytes := wrapped (byte_at P (sndend r) 0) (take j xs) (mz_bytes r)\<rparr>, send_pc := Send_copy xs j\<rparr>"
  using assms(5)
proof (induction j)
  case 0
  then show ?case using assms by simp
next
  case (Suc j)
  note D = node_shapeD [OF assms(1)]
  have at: "byte_at P (sndend r) 0 < length (mz_bytes r)" using byte_at_bound [OF D(1)] D(2) by simp
  have "wrapped (byte_at P (sndend r) 0) (take (Suc j) xs) (mz_bytes r) =
        (wrapped (byte_at P (sndend r) 0) (take j xs) (mz_bytes r))[byte_at P (sndend r) j := xs ! j]"
    using wrapped_snoc [OF at, of "take j xs" "xs ! j"] Suc.prems assms(4) D(2)
    unfolding byte_at_rotate [OF D(1), of "sndend r" j] by (simp add: take_Suc_conv_app_nth)
  then show ?case using Suc by (simp add: node_send_step_def)
qed

lemma send_last:
  assumes "send_pc s = Send_idle" and "word_of_nat (length xs) = n"
  shows "do_node_move P (Sender buf) (s\<lparr>send_pc := pc, nring := r, send_pc := Send_copy xs (length xs)\<rparr>) =
     s\<lparr>nring := r\<lparr>sndend := sndend r + n\<rparr>, sent := sent s @ xs\<rparr>"
  using assms by (cases s) (simp add: node_send_step_def Let_def)

lemma send_steps_are_the_call:
  assumes inv: "node_inv P (nring s)" and pc: "send_pc s = Send_idle" and buf: "length buf < 2 ^ 64"
    and call: "gazelle_same_node_ring_send P buf (word_of_nat (length buf)) (nring s) = Some (k, r')"
  shows "\<exists>j. node_schedule P (replicate j (Sender buf)) s = s\<lparr>nring := r', sent := sent s @ take (nat k) buf\<rparr>"
proof (cases "sndend (nring s) \<ge> sndbegin (nring s) + ring_len P")
  case True
  then show ?thesis using call pc
    by (cases s; intro exI [of _ 2]) (auto simp: node_schedule_def send_refused numeral_2_eq_2 node_send_step_def)
next
  case False
  let ?r = "nring s" let ?n = "min (ring_len P - (sndend ?r - sndbegin ?r)) (word_of_nat (length buf))" let ?xs = "take (unat ?n) buf"
  let ?s = "s\<lparr>send_pc := Send_copy ?xs 0\<rparr>" and ?m = "wrapped (byte_at P (sndend ?r) 0) ?xs (mz_bytes ?r)"
  note D = node_shapeD [OF inv]
  have len: "unat (word_of_nat (length buf) :: u64) = length buf" using buf by (simp add: unat_of_nat)
  have "unat (ring_len P - (sndend ?r - sndbegin ?r)) = unat (ring_len P) - in_flight ?r"
    using D(3) by (simp add: in_flight_def unat_minus_le)
  then have n: "unat ?n \<le> length buf" "unat ?n \<le> unat (ring_len P)" using len by (auto simp: min_def word_le_nat_alt)
  then have nl: "?n \<le> ring_len P" by (simp add: word_le_nat_alt)
  have r': "r' = ?r\<lparr>mz_bytes := ?m, sndend := sndend ?r + ?n\<rparr>" "take (nat k) buf = ?xs"
    using call False node_store [OF inv nl n(1), of "sndend ?r"]
    by (auto simp: gazelle_same_node_ring_send_def Let_def)
  have two: "(do_node_move P (Sender buf) ^^ 2) s = ?s" using False pc by (simp add: numeral_2_eq_2 node_send_step_def)
  have copy: "(do_node_move P (Sender buf) ^^ length ?xs) ?s =
      ?s\<lparr>nring := ?r\<lparr>mz_bytes := ?m\<rparr>, send_pc := Send_copy ?xs (length ?xs)\<rparr>"
    using copy_in_steps [OF inv, of ?s ?xs "length ?xs" buf] n by simp
  have lx: "word_of_nat (length ?xs) = ?n" using n by simp
  note last = send_last [OF pc lx, where pc = "Send_copy ?xs 0" and r = "?r\<lparr>mz_bytes := ?m\<rparr>"]
  have "s\<lparr>nring := ?r\<lparr>mz_bytes := ?m, sndend := sndend ?r + ?n\<rparr>, sent := sent s @ ?xs\<rparr> =
      s\<lparr>nring := r', sent := sent s @ take (nat k) buf\<rparr>" by (simp only: r')
  then have "(do_node_move P (Sender buf) ^^ (1 + length ?xs + 2)) s = s\<lparr>nring := r', sent := sent s @ take (nat k) buf\<rparr>"
    using last unfolding funpow_add o_def two copy One_nat_def funpow.simps id_apply by simp
  then show ?thesis unfolding node_steps by blast
qed

lemma same_node_bytes_in_order_witness:
  "let P = \<lparr>ring_len = 4, ring_mask = 3\<rparr>; r = \<lparr>sndbegin = 6, sndend = 6, mz_bytes = [0, 0, 0, 0]\<rparr>;
       S = Sender [1, 2, 3]; R = Receiver 2;
       s = node_schedule P [S, S, S, R, S, S, S, R, R, R, R, R, S, S, R, S, R, R, R, R, R, S] (node_start r) in
     sent s = received s @ node_bytes P (nring s) \<and> in_flight (nring s) \<le> unat (ring_len P)"
proof -
  let ?P = "\<lparr>ring_len = 4, ring_mask = 3\<rparr>"
  let ?r = "\<lparr>sndbegin = 6, sndend = 6, mz_bytes = [0, 0, 0, 0]\<rparr>"
  have "node_len_ok ?P" by (auto simp: node_len_ok_def intro!: exI [of _ 2])
  then have i: "node_inv ?P ?r" and b: "node_bytes ?P ?r = []"
    by (simp_all add: node_inv_def node_shape_def in_flight_def node_bytes_def bytes_from_def)
  show ?thesis unfolding Let_def
    by (rule same_node_bytes_in_order [OF i b, unfolded Let_def]) simp
qed
lemma copy_out_steps:
  assumes "nring s = r" "recv_pc s = Recv_copy n []" "j \<le> unat n"
  shows "(do_node_move P (Receiver len) ^^ j) s = s\<lparr>recv_pc := Recv_copy n (bytes_from P (mz_bytes r) (sndbegin r) j)\<rparr>"
  using assms(3)
proof (induction j)
  case 0
  then show ?case using assms by (cases s) (simp add: bytes_from_def)
next
  case (Suc j)
  then show ?case using assms(1) by (simp add: node_recv_step_def bytes_from_Suc)
qed

lemma recv_last:
  assumes "recv_pc s = Recv_idle" and "length xs = unat n" and "nring s = r"
  shows "do_node_move P (Receiver len) (s\<lparr>recv_pc := pc, recv_pc := Recv_copy n xs\<rparr>) =
     s\<lparr>nring := r\<lparr>sndbegin := sndbegin r + n\<rparr>, received := received s @ xs\<rparr>"
  using assms by (cases s) (simp add: node_recv_step_def Let_def)

lemma recv_steps_are_the_call:
  assumes inv: "node_inv P (nring s)" and pc: "recv_pc s = Recv_idle"
    and call: "gazelle_same_node_ring_recv P len (nring s) = Some (k, xs, r')"
  shows "\<exists>j. node_schedule P (replicate j (Receiver len)) s = s\<lparr>nring := r', received := received s @ xs\<rparr>"
proof (cases "sndbegin (nring s) = sndend (nring s)")
  case True
  then show ?thesis using call pc
    by (cases s; intro exI [of _ 2]) (auto simp: node_schedule_def gazelle_same_node_ring_recv_def Let_def numeral_2_eq_2 node_recv_step_def)
next
  case False
  let ?r = "nring s" let ?n = "min (sndend ?r - (sndbegin ?r + 1) + 1) len"
  let ?s = "s\<lparr>recv_pc := Recv_copy ?n []\<rparr>" and ?xs = "bytes_from P (mz_bytes ?r) (sndbegin ?r) (unat ?n)"
  note D = node_shapeD [OF inv]
  have "unat ?n \<le> in_flight ?r" by (simp add: in_flight_def min_def word_le_nat_alt algebra_simps)
  then have nl: "?n \<le> ring_len P" using D(3) by (simp add: word_le_nat_alt)
  have r': "r' = ?r\<lparr>sndbegin := sndbegin ?r + ?n\<rparr>" "xs = ?xs"
    using call False node_fetch [OF inv nl, of "sndbegin ?r"]
    by (auto simp: gazelle_same_node_ring_recv_def Let_def algebra_simps)
  have two: "(do_node_move P (Receiver len) ^^ 2) s = ?s" using False pc by (simp add: numeral_2_eq_2 node_recv_step_def Let_def)
  have copy: "(do_node_move P (Receiver len) ^^ unat ?n) ?s = ?s\<lparr>recv_pc := Recv_copy ?n ?xs\<rparr>"
    using copy_out_steps [of ?s ?r ?n "unat ?n" P len] by simp
  have lx: "length ?xs = unat ?n" by simp
  note last = recv_last [OF pc lx refl, where pc = "Recv_copy ?n []"]
  have "s\<lparr>nring := ?r\<lparr>sndbegin := sndbegin ?r + ?n\<rparr>, received := received s @ ?xs\<rparr> =
      s\<lparr>nring := r', received := received s @ xs\<rparr>" by (simp only: r')
  then have "(do_node_move P (Receiver len) ^^ (1 + unat ?n + 2)) s = s\<lparr>nring := r', received := received s @ xs\<rparr>"
    using last unfolding funpow_add o_def two copy One_nat_def funpow.simps id_apply by simp
  then show ?thesis unfolding node_steps by blast
qed
section \<open>Connecting the two ends\<close>

text \<open>
  DPDK's named memzones and rings are shared by the processes. A zone is a ring header, whose
  \<open>mz\<close> names the zone with its bytes, or such a buffer; a pointer to a zone is its name. Whether
  DPDK has memory left, and what new memory holds, are parameters. Names are not cut short here.
\<close>

record node_header =
  hdr_mz :: "string option"
  hdr_begin :: u64
  hdr_end :: u64

datatype node_zone = Ring_zone node_header | Buf_zone "u8 list"

record node_shared =
  zones :: "string \<rightharpoonup> node_zone"
  pkt_rings :: "string \<rightharpoonup> addr list"

record node_env =
  node_params :: node_len
  use_sockmap :: bool
  zone_memory :: "string \<Rightarrow> bool"
  ring_memory :: "string \<Rightarrow> bool"
  raw_header :: node_header
  raw_bytes :: "u8 list"

text \<open>The fields of the TCP control block and of the socket that this code sets.\<close>

record node_sock =
  local_port :: u16
  remote_port :: u16
  client_rx_ring :: "string option"
  client_tx_ring :: "string option"
  free_ring :: bool
  same_node_rx_ring :: "string option"
  same_node_rx_ring_mz :: "string option"
  same_node_tx_ring :: "string option"
  same_node_tx_ring_mz :: "string option"
  on_recv_list :: bool

datatype node_err = Err_ok | Err_one | Err_mem | Err_buf | Err_conn

fun decimal :: "nat \<Rightarrow> string" where
  "decimal n = (if n < 10 then [char_of (48 + n)] else decimal (n div 10) @ [char_of (48 + n mod 10)])"

declare decimal.simps [simp del]

text \<open>\<open>"%s_%s_%d"\<close> and, for rings, \<open>"%s_%s_ring_%d"\<close>.\<close>

definition zone_name :: "string \<Rightarrow> string \<Rightarrow> u16 \<Rightarrow> string" where
  "zone_name name rx port = name @ ''_'' @ rx @ ''_'' @ decimal (unat port)"

definition ring_name :: "string \<Rightarrow> string \<Rightarrow> u16 \<Rightarrow> string" where
  "ring_name name rx port = name @ ''_'' @ rx @ ''_ring_'' @ decimal (unat port)"

definition same_node_memzone_create ::
  "node_env \<Rightarrow> node_zone \<Rightarrow> u16 \<Rightarrow> string \<Rightarrow> string \<Rightarrow> node_shared \<Rightarrow> string option \<times> node_err \<times> node_shared" where
  "same_node_memzone_create E raw port name rx G =
     (let mem_name = zone_name name rx port in
      if \<not> zone_memory E mem_name \<or> mem_name \<in> dom (zones G) then (None, Err_mem, G)
      else (Some mem_name, Err_ok, G\<lparr>zones := (zones G)(mem_name \<mapsto> raw)\<rparr>))"

definition same_node_ring_create ::
  "node_env \<Rightarrow> u16 \<Rightarrow> string \<Rightarrow> string \<Rightarrow> node_shared \<Rightarrow> string option \<times> node_err \<times> node_shared" where
  "same_node_ring_create E port name rx G =
     (if \<not> use_sockmap E then (None, Err_one, G)
      else let rname = ring_name name rx port in
        if \<not> ring_memory E rname \<or> rname \<in> dom (pkt_rings G) then (None, Err_mem, G)
        else (Some rname, Err_ok, G\<lparr>pkt_rings := (pkt_rings G)(rname \<mapsto> [])\<rparr>))"

definition init_same_node_ring :: "node_sock \<Rightarrow> node_sock" where
  "init_same_node_ring s = s\<lparr>client_rx_ring := None, client_tx_ring := None, free_ring := False,
     same_node_rx_ring := None, same_node_rx_ring_mz := None, same_node_tx_ring := None, same_node_tx_ring_mz := None\<rparr>"

text \<open>The header a pointer points to, and a store through it; \<open>None\<close> for a null or stale pointer.\<close>

definition header_at :: "node_shared \<Rightarrow> string option \<Rightarrow> node_header option" where
  "header_at G p = (case Option.bind p (zones G) of Some (Ring_zone h) \<Rightarrow> Some h | _ \<Rightarrow> None)"

definition put_header :: "string option \<Rightarrow> (node_header \<Rightarrow> node_header) \<Rightarrow> node_shared \<Rightarrow> node_shared option" where
  "put_header p f G = do {
     h \<leftarrow> header_at G p;
     z \<leftarrow> p;
     Some (G\<lparr>zones := (zones G)(z \<mapsto> Ring_zone (f h))\<rparr>)}"

text \<open>\<open>rte_ring_free\<close> and \<open>rte_memzone_free\<close>, which take a null pointer.\<close>

definition ring_free :: "string option \<Rightarrow> node_shared \<Rightarrow> node_shared" where
  "ring_free p G = (case p of None \<Rightarrow> G | Some n \<Rightarrow> G\<lparr>pkt_rings := (pkt_rings G)(n := None)\<rparr>)"

definition memzone_free :: "string option \<Rightarrow> node_shared \<Rightarrow> node_shared" where
  "memzone_free p G = (case p of None \<Rightarrow> G | Some n \<Rightarrow> G\<lparr>zones := (zones G)(n := None)\<rparr>)"

text \<open>The label \<open>END\<close>: the ring headers are read without a check.\<close>

definition create_end :: "node_sock \<Rightarrow> node_shared \<Rightarrow> (node_err \<times> node_sock \<times> node_shared) option" where
  "create_end s G = do {
     let G = ring_free (client_tx_ring s) (ring_free (client_rx_ring s) G);
     rx \<leftarrow> header_at G (same_node_rx_ring s);
     let G = memzone_free (same_node_rx_ring_mz s) (memzone_free (hdr_mz rx) G);
     tx \<leftarrow> header_at G (same_node_tx_ring s);
     let G = memzone_free (same_node_tx_ring_mz s) (memzone_free (hdr_mz tx) G);
     Some (Err_buf, init_same_node_ring s, G)}"

text \<open>A ring header and its buffer; \<open>dir\<close> is \<open>rx\<close> or \<open>tx\<close>.\<close>

definition create_memzones ::
  "node_env \<Rightarrow> string \<Rightarrow> (string option \<Rightarrow> node_sock \<Rightarrow> node_sock) \<Rightarrow> (string option \<Rightarrow> node_sock \<Rightarrow> node_sock) \<Rightarrow>
   node_sock \<Rightarrow> node_shared \<Rightarrow> (node_err \<times> node_sock \<times> node_shared) option" where
  "create_memzones E dir set_mz set_ring s G =
     (let (mz, e, G) = same_node_memzone_create E (Ring_zone (raw_header E)) (local_port s) ''rte_mz'' dir G;
          s = set_mz mz s
      in if e \<noteq> Err_ok then Some (e, s, G)
         else let s = set_ring mz s;
                  (buf, e, G) = same_node_memzone_create E (Buf_zone (raw_bytes E)) (local_port s) ''rte_mz_buf'' dir G
              in do {
                G \<leftarrow> put_header mz (\<lambda>h. h\<lparr>hdr_mz := buf\<rparr>) G;
                if e \<noteq> Err_ok then Some (e, s, G)
                else do {
                  G \<leftarrow> put_header mz (\<lambda>h. h\<lparr>hdr_begin := 0, hdr_end := 0\<rparr>) G;
                  Some (Err_ok, s, G)}})"

definition create_same_node_ring ::
  "node_env \<Rightarrow> node_sock \<Rightarrow> node_shared \<Rightarrow> (node_err \<times> node_sock \<times> node_shared) option" where
  "create_same_node_ring E s G =
     (let (r, e, G) = same_node_ring_create E (local_port s) ''client'' ''rx'' G; s = s\<lparr>client_rx_ring := r\<rparr> in
      if e \<noteq> Err_ok then create_end s G
      else let (r, e, G) = same_node_ring_create E (local_port s) ''client'' ''tx'' G; s = s\<lparr>client_tx_ring := r\<rparr> in
      if e \<noteq> Err_ok then create_end s G
      else do {
        let s = s\<lparr>free_ring := True\<rparr>;
        (e, s, G) \<leftarrow> create_memzones E ''rx'' (\<lambda>z s. s\<lparr>same_node_rx_ring_mz := z\<rparr>) (\<lambda>z s. s\<lparr>same_node_rx_ring := z\<rparr>) s G;
        if e \<noteq> Err_ok then create_end s G
        else do {
          (e, s, G) \<leftarrow> create_memzones E ''tx'' (\<lambda>z s. s\<lparr>same_node_tx_ring_mz := z\<rparr>) (\<lambda>z s. s\<lparr>same_node_tx_ring := z\<rparr>) s G;
          if e \<noteq> Err_ok then create_end s G
          else Some (Err_ok, s, G)}})"

text \<open>The accepting side looks the zones up, with the directions exchanged.\<close>

definition memzone_lookup :: "node_shared \<Rightarrow> string \<Rightarrow> string option" where
  "memzone_lookup G n = (if n \<in> dom (zones G) then Some n else None)"

definition find_same_node_memzone :: "node_sock \<Rightarrow> node_shared \<Rightarrow> (node_err \<times> node_sock \<times> node_shared) option" where
  "find_same_node_memzone s G =
     (let z = memzone_lookup G (zone_name ''rte_mz'' ''rx'' (remote_port s)); s = s\<lparr>same_node_tx_ring_mz := z\<rparr> in
      if z = None then Some (Err_one, s, G)
      else let s = s\<lparr>same_node_tx_ring := z\<rparr>;
               b = memzone_lookup G (zone_name ''rte_mz_buf'' ''rx'' (remote_port s))
           in do {
      G \<leftarrow> put_header z (\<lambda>h. h\<lparr>hdr_mz := b\<rparr>) G;
      if b = None then Some (Err_one, s, G)
      else let z = memzone_lookup G (zone_name ''rte_mz'' ''tx'' (remote_port s)); s = s\<lparr>same_node_rx_ring_mz := z\<rparr> in
      if z = None then Some (Err_one, s, G)
      else let s = s\<lparr>same_node_rx_ring := z\<rparr>;
               b = memzone_lookup G (zone_name ''rte_mz_buf'' ''tx'' (remote_port s))
           in do {
      G \<leftarrow> put_header z (\<lambda>h. h\<lparr>hdr_mz := b\<rparr>) G;
      if b = None then Some (Err_one, s, G)
      else Some (Err_ok, s\<lparr>on_recv_list := True\<rparr>, G)}})"

text \<open>\<open>tcp_abandon\<close> of lwip, called when a ring is missing, is not part of this state.\<close>

definition find_same_node_ring :: "node_sock \<Rightarrow> node_shared \<Rightarrow> node_err \<times> node_sock" where
  "find_same_node_ring s G =
     (let look = (\<lambda>n. if n \<in> dom (pkt_rings G) then Some n else None);
          s = s\<lparr>client_rx_ring := look (ring_name ''client'' ''tx'' (remote_port s)),
                client_tx_ring := look (ring_name ''client'' ''rx'' (remote_port s)), free_ring := False\<rparr>
      in (if client_tx_ring s = None \<or> client_rx_ring s = None then Err_conn else Err_ok, s))"

text \<open>The ring a socket's pointer leads to, as the calls above take it.\<close>

definition ring_behind :: "node_shared \<Rightarrow> string option \<Rightarrow> same_node_ring option" where
  "ring_behind G p = do {
     h \<leftarrow> header_at G p;
     b \<leftarrow> hdr_mz h;
     z \<leftarrow> zones G b;
     (case z of Buf_zone m \<Rightarrow> Some \<lparr>sndbegin = hdr_begin h, sndend = hdr_end h, mz_bytes = m\<rparr> | _ \<Rightarrow> None)}"

lemma zone_names_differ:
  "zone_name ''rte_mz'' ''rx'' p \<noteq> zone_name ''rte_mz'' ''tx'' p"
  "zone_name ''rte_mz_buf'' ''rx'' p \<noteq> zone_name ''rte_mz_buf'' ''tx'' p"
  "zone_name ''rte_mz'' r p \<noteq> zone_name ''rte_mz_buf'' ''rx'' p \<or> r \<noteq> ''rx'' \<and> r \<noteq> ''tx''"
  "zone_name ''rte_mz'' r p \<noteq> zone_name ''rte_mz_buf'' ''tx'' p \<or> r \<noteq> ''rx'' \<and> r \<noteq> ''tx''"
  by (auto simp: zone_name_def)
text \<open>What can still be made: the ring, the zones.\<close>

definition can_ring :: "node_env \<Rightarrow> node_shared \<Rightarrow> u16 \<Rightarrow> string \<Rightarrow> bool" where
  "can_ring E G p dir \<longleftrightarrow> use_sockmap E \<and> ring_memory E (ring_name ''client'' dir p) \<and> ring_name ''client'' dir p \<notin> dom (pkt_rings G)"

definition can_zone :: "node_env \<Rightarrow> node_shared \<Rightarrow> u16 \<Rightarrow> string \<Rightarrow> string \<Rightarrow> bool" where
  "can_zone E G p name dir \<longleftrightarrow> zone_memory E (zone_name name dir p) \<and> zone_name name dir p \<notin> dom (zones G)"

lemma ring_names_differ: "ring_name ''client'' ''rx'' p \<noteq> ring_name ''client'' ''tx'' p"
  by (simp add: ring_name_def)

lemma zone_names [simp]:
  "zone_name ''rte_mz'' ''rx'' p \<noteq> zone_name ''rte_mz'' ''tx'' p" "zone_name ''rte_mz'' ''tx'' p \<noteq> zone_name ''rte_mz'' ''rx'' p"
  "zone_name ''rte_mz_buf'' ''rx'' p \<noteq> zone_name ''rte_mz_buf'' ''tx'' p" "zone_name ''rte_mz_buf'' ''tx'' p \<noteq> zone_name ''rte_mz_buf'' ''rx'' p"
  "zone_name ''rte_mz'' ''rx'' p \<noteq> zone_name ''rte_mz_buf'' ''rx'' p" "zone_name ''rte_mz_buf'' ''rx'' p \<noteq> zone_name ''rte_mz'' ''rx'' p"
  "zone_name ''rte_mz'' ''rx'' p \<noteq> zone_name ''rte_mz_buf'' ''tx'' p" "zone_name ''rte_mz_buf'' ''tx'' p \<noteq> zone_name ''rte_mz'' ''rx'' p"
  "zone_name ''rte_mz'' ''tx'' p \<noteq> zone_name ''rte_mz_buf'' ''rx'' p" "zone_name ''rte_mz_buf'' ''rx'' p \<noteq> zone_name ''rte_mz'' ''tx'' p"
  "zone_name ''rte_mz'' ''tx'' p \<noteq> zone_name ''rte_mz_buf'' ''tx'' p" "zone_name ''rte_mz_buf'' ''tx'' p \<noteq> zone_name ''rte_mz'' ''tx'' p"
  by (simp_all add: zone_name_def)

definition made_zones :: "node_env \<Rightarrow> u16 \<Rightarrow> (string \<rightharpoonup> node_zone) \<Rightarrow> string \<rightharpoonup> node_zone" where
  "made_zones E p Z = Z(
     zone_name ''rte_mz_buf'' ''rx'' p \<mapsto> Buf_zone (raw_bytes E),
     zone_name ''rte_mz'' ''rx'' p \<mapsto> Ring_zone \<lparr>hdr_mz = Some (zone_name ''rte_mz_buf'' ''rx'' p), hdr_begin = 0, hdr_end = 0\<rparr>,
     zone_name ''rte_mz_buf'' ''tx'' p \<mapsto> Buf_zone (raw_bytes E),
     zone_name ''rte_mz'' ''tx'' p \<mapsto> Ring_zone \<lparr>hdr_mz = Some (zone_name ''rte_mz_buf'' ''tx'' p), hdr_begin = 0, hdr_end = 0\<rparr>)"

definition created :: "node_sock \<Rightarrow> node_sock" where
  "created s = s\<lparr>client_rx_ring := Some (ring_name ''client'' ''rx'' (local_port s)),
     client_tx_ring := Some (ring_name ''client'' ''tx'' (local_port s)), free_ring := True,
     same_node_rx_ring_mz := Some (zone_name ''rte_mz'' ''rx'' (local_port s)),
     same_node_rx_ring := Some (zone_name ''rte_mz'' ''rx'' (local_port s)),
     same_node_tx_ring_mz := Some (zone_name ''rte_mz'' ''tx'' (local_port s)),
     same_node_tx_ring := Some (zone_name ''rte_mz'' ''tx'' (local_port s))\<rparr>"

lemmas create_defs = create_same_node_ring_def create_memzones_def same_node_ring_create_def same_node_memzone_create_def
  put_header_def header_at_def can_ring_def can_zone_def Let_def

lemma create_end_not_ok: "create_end s G = Some (e, s', G') \<Longrightarrow> e = Err_buf"
  by (auto simp: create_end_def Let_def split: bind_splits)

lemma create_ok:
  assumes "can_ring E G (local_port s) ''rx''" "can_ring E G (local_port s) ''tx''"
    and "can_zone E G (local_port s) ''rte_mz'' ''rx''" "can_zone E G (local_port s) ''rte_mz_buf'' ''rx''"
    and "can_zone E G (local_port s) ''rte_mz'' ''tx''" "can_zone E G (local_port s) ''rte_mz_buf'' ''tx''"
  shows "create_same_node_ring E s G = Some (Err_ok, created s,
           G\<lparr>pkt_rings := (pkt_rings G)(ring_name ''client'' ''rx'' (local_port s) \<mapsto> [], ring_name ''client'' ''tx'' (local_port s) \<mapsto> []),
             zones := made_zones E (local_port s) (zones G)\<rparr>)"
  using assms ring_names_differ [of "local_port s"]
  by (cases "raw_header E") (auto simp: create_defs created_def made_zones_def fun_upd_twist)

lemma create_undefined:
  assumes "same_node_rx_ring s = None" "same_node_tx_ring s = None"
    and "\<not> (can_ring E G (local_port s) ''rx'' \<and> can_ring E G (local_port s) ''tx'' \<and>
       can_zone E G (local_port s) ''rte_mz'' ''rx'' \<and> can_zone E G (local_port s) ''rte_mz_buf'' ''rx'' \<and>
       can_zone E G (local_port s) ''rte_mz'' ''tx'')"
  shows "create_same_node_ring E s G = None"
  using assms ring_names_differ [of "local_port s"]
  by (auto simp: create_defs create_end_def ring_free_def memzone_free_def split: option.splits)

lemma create_ok_only:
  assumes "create_same_node_ring E s G = Some (Err_ok, s', G')"
  shows "can_ring E G (local_port s) ''rx''" "can_ring E G (local_port s) ''tx''"
    and "can_zone E G (local_port s) ''rte_mz'' ''rx''" "can_zone E G (local_port s) ''rte_mz_buf'' ''rx''"
    and "can_zone E G (local_port s) ''rte_mz'' ''tx''" "can_zone E G (local_port s) ''rte_mz_buf'' ''tx''"
  using assms ring_names_differ [of "local_port s"]
  by (auto simp: create_defs split: if_splits dest: create_end_not_ok)

lemma made_zones_at [simp]:
  "made_zones E p Z (zone_name ''rte_mz'' ''rx'' p) = Some (Ring_zone \<lparr>hdr_mz = Some (zone_name ''rte_mz_buf'' ''rx'' p), hdr_begin = 0, hdr_end = 0\<rparr>)"
  "made_zones E p Z (zone_name ''rte_mz'' ''tx'' p) = Some (Ring_zone \<lparr>hdr_mz = Some (zone_name ''rte_mz_buf'' ''tx'' p), hdr_begin = 0, hdr_end = 0\<rparr>)"
  "made_zones E p Z (zone_name ''rte_mz_buf'' ''rx'' p) = Some (Buf_zone (raw_bytes E))"
  "made_zones E p Z (zone_name ''rte_mz_buf'' ''tx'' p) = Some (Buf_zone (raw_bytes E))"
  by (simp_all add: made_zones_def)

text \<open>C37: When a connecting socket has created its rings, the socket that accepts its port finds them, and the two are wired to each other:
  the ring one sends into is the ring the other receives from, the two directions are different rings,
  and each is empty, with its whole buffer behind it and in the state from which bytes arrive in order.
\<close>

theorem same_node_connect:
  assumes "create_same_node_ring E c G = Some (Err_ok, c', G1)" and "remote_port a = local_port c"
    and "node_len_ok (node_params E)" and "length (raw_bytes E) = unat (ring_len (node_params E))"
  shows "\<exists>a' G2. find_same_node_memzone a G1 = Some (Err_ok, a', G2) \<and>
      same_node_tx_ring a' = same_node_rx_ring c' \<and> same_node_rx_ring a' = same_node_tx_ring c' \<and>
      same_node_rx_ring c' \<noteq> same_node_tx_ring c' \<and>
      find_same_node_ring a G1 = (Err_ok, a\<lparr>client_rx_ring := client_tx_ring c', client_tx_ring := client_rx_ring c', free_ring := False\<rparr>) \<and>
      (\<forall>p \<in> {same_node_rx_ring c', same_node_tx_ring c'}. \<exists>r. ring_behind G2 p = Some r \<and>
         node_inv (node_params E) r \<and> node_bytes (node_params E) r = [])"
proof -
  let ?p = "local_port c" and ?r = "new_node_ring (node_params E) (raw_bytes E)"
  note six = create_ok_only [OF assms(1)]
  have c: "c' = created c" and G1: "G1 = G\<lparr>pkt_rings := (pkt_rings G)(ring_name ''client'' ''rx'' ?p \<mapsto> [], ring_name ''client'' ''tx'' ?p \<mapsto> []),
             zones := made_zones E ?p (zones G)\<rparr>"
    using create_ok [OF six] assms(1) by simp_all
  have look: "memzone_lookup G1 (zone_name n d ?p) = Some (zone_name n d ?p)"
    if "n = ''rte_mz'' \<or> n = ''rte_mz_buf''" "d = ''rx'' \<or> d = ''tx''" for n d
    using that by (auto simp: memzone_lookup_def G1 dom_def)
  have put: "put_header (Some (zone_name ''rte_mz'' d ?p)) (\<lambda>h. h\<lparr>hdr_mz := Some (zone_name ''rte_mz_buf'' d ?p)\<rparr>) G1 = Some G1"
    if "d = ''rx'' \<or> d = ''tx''" for d
    using that by (auto simp: put_header_def header_at_def G1 fun_upd_idem)
  have put_rx: "put_header (Some (zone_name ''rte_mz'' ''rx'' ?p)) (hdr_mz_update (\<lambda>_. Some (zone_name ''rte_mz_buf'' ''rx'' ?p))) G1 = Some G1"
    using put [of "''rx''"] by simp
  have put_tx: "put_header (Some (zone_name ''rte_mz'' ''tx'' ?p)) (hdr_mz_update (\<lambda>_. Some (zone_name ''rte_mz_buf'' ''tx'' ?p))) G1 = Some G1"
    using put [of "''tx''"] by simp
  let ?a = "a\<lparr>same_node_tx_ring_mz := Some (zone_name ''rte_mz'' ''rx'' ?p), same_node_tx_ring := Some (zone_name ''rte_mz'' ''rx'' ?p),
     same_node_rx_ring_mz := Some (zone_name ''rte_mz'' ''tx'' ?p), same_node_rx_ring := Some (zone_name ''rte_mz'' ''tx'' ?p), on_recv_list := True\<rparr>"
  have find: "find_same_node_memzone a G1 = Some (Err_ok, ?a, G1)"
    using put_rx put_tx by (simp add: find_same_node_memzone_def assms(2) look Let_def)
  have behind: "ring_behind G1 (Some (zone_name ''rte_mz'' d ?p)) = Some ?r" if "d = ''rx'' \<or> d = ''tx''" for d
    using that by (auto simp: ring_behind_def header_at_def G1 new_node_ring_def)
  have rings: "find_same_node_ring a G1 = (Err_ok, a\<lparr>client_rx_ring := client_tx_ring c', client_tx_ring := client_rx_ring c', free_ring := False\<rparr>)"
    by (simp add: find_same_node_ring_def assms(2) G1 c created_def Let_def)
  have new: "node_inv (node_params E) ?r \<and> node_bytes (node_params E) ?r = []" by (rule new_node_ring_ok [OF assms(3,4)])
  show ?thesis
    by (rule exI [of _ ?a], rule exI [of _ G1]) (use find rings behind new in \<open>auto simp: c created_def\<close>)
qed

lemma same_node_connect_witness:
  "let E = \<lparr>node_params = \<lparr>ring_len = 4, ring_mask = 3\<rparr>, use_sockmap = True, zone_memory = \<lambda>_. True, ring_memory = \<lambda>_. True,
             raw_header = \<lparr>hdr_mz = None, hdr_begin = 7, hdr_end = 8\<rparr>, raw_bytes = [1, 2, 3, 4]\<rparr>;
       s = \<lparr>local_port = 80, remote_port = 80, client_rx_ring = None, client_tx_ring = None, free_ring = False,
             same_node_rx_ring = None, same_node_rx_ring_mz = None, same_node_tx_ring = None, same_node_tx_ring_mz = None, on_recv_list = False\<rparr>;
       G = \<lparr>zones = Map.empty, pkt_rings = Map.empty\<rparr>
   in \<exists>c' G1 a' G2. create_same_node_ring E s G = Some (Err_ok, c', G1) \<and> find_same_node_memzone s G1 = Some (Err_ok, a', G2) \<and>
        same_node_tx_ring a' = same_node_rx_ring c'"
proof -
  let ?E = "\<lparr>node_params = \<lparr>ring_len = 4, ring_mask = 3\<rparr>, use_sockmap = True, zone_memory = \<lambda>_. True, ring_memory = \<lambda>_. True,
             raw_header = \<lparr>hdr_mz = None, hdr_begin = 7, hdr_end = 8\<rparr>, raw_bytes = [1, 2, 3, 4]\<rparr>"
  let ?s = "\<lparr>local_port = 80, remote_port = 80, client_rx_ring = None, client_tx_ring = None, free_ring = False,
             same_node_rx_ring = None, same_node_rx_ring_mz = None, same_node_tx_ring = None, same_node_tx_ring_mz = None, on_recv_list = False\<rparr>"
  let ?G = "\<lparr>zones = Map.empty, pkt_rings = Map.empty\<rparr>"
  have P: "node_len_ok (node_params ?E)" by (auto simp: node_len_ok_def intro!: exI [of _ 2])
  have "\<exists>c' G1. create_same_node_ring ?E ?s ?G = Some (Err_ok, c', G1)"
    using create_ok [of ?E ?G ?s] by (auto simp: can_ring_def can_zone_def)
  then obtain c' G1 where c: "create_same_node_ring ?E ?s ?G = Some (Err_ok, c', G1)" by blast
  have "\<exists>a' G2. find_same_node_memzone ?s G1 = Some (Err_ok, a', G2) \<and> same_node_tx_ring a' = same_node_rx_ring c'"
    using same_node_connect [OF c _ P, of ?s] by auto
  with c show ?thesis unfolding Let_def by blast
qed

text \<open>
  The error path of create_same_node_ring reads both ring headers without a check: on a new socket, whose pointers are null,
  every failure but that of the very last allocation reads through a null pointer, also when sockmap is just switched off.
\<close>

theorem failed_create_reads_null:
  assumes "same_node_rx_ring s = None" "same_node_tx_ring s = None"
    and "\<not> use_sockmap E \<or> \<not> (can_ring E G (local_port s) ''rx'' \<and> can_ring E G (local_port s) ''tx'' \<and>
       can_zone E G (local_port s) ''rte_mz'' ''rx'' \<and> can_zone E G (local_port s) ''rte_mz_buf'' ''rx'' \<and>
       can_zone E G (local_port s) ''rte_mz'' ''tx'')"
  shows "create_same_node_ring E s G = None"
  using assms create_undefined [of s E G] by (auto simp: can_ring_def)

lemma failed_create_reads_null_witness:
  "let E = \<lparr>node_params = \<lparr>ring_len = 4, ring_mask = 3\<rparr>, use_sockmap = False, zone_memory = \<lambda>_. True, ring_memory = \<lambda>_. True,
             raw_header = \<lparr>hdr_mz = None, hdr_begin = 7, hdr_end = 8\<rparr>, raw_bytes = [1, 2, 3, 4]\<rparr>;
       s = \<lparr>local_port = 80, remote_port = 80, client_rx_ring = None, client_tx_ring = None, free_ring = False,
             same_node_rx_ring = None, same_node_rx_ring_mz = None, same_node_tx_ring = None, same_node_tx_ring_mz = None, on_recv_list = False\<rparr>
   in create_same_node_ring E s \<lparr>zones = Map.empty, pkt_rings = Map.empty\<rparr> = None"
  unfolding Let_def by (rule failed_create_reads_null) simp_all

end
