(* ===== verification/Lstack_Pbuf.thy ===== *)
theory Lstack_Pbuf
  imports Rte_Ring
begin

text \<open>
  lwip's packet buffers as the socket layer (\<open>src/lstack/core/lstack_lwip.c\<close>) uses them. The struct and
  the functions \<open>pbuf_copy_partial\<close>, \<open>pbuf_remove_header\<close>, \<open>pbuf_free\<close>, \<open>pbuf_take\<close> belong to lwip, outside
  the repository: the functions are parameters, of which \<open>lwip_ok\<close> states the documented behaviour
  for buffers with one reference. Buffers live in a heap; one that is not there has been freed.
\<close>

section \<open>Buffers and chains\<close>

text \<open>
  The payload is what lies at the payload pointer, of which the first \<open>len\<close> bytes are data. \<open>pb_last\<close>,
  \<open>pb_allow_in\<close> and \<open>pb_head\<close> are Gazelle's fields for the send path.
\<close>

record pbuf =
  pb_next :: "addr option"
  pb_payload :: "u8 list"
  pb_len :: u16
  pb_tot_len :: u16
  pb_addr :: u32
  pb_port :: u16
  pb_last :: addr
  pb_allow_in :: u8
  pb_head :: u8

type_synonym pbuf_heap = "addr \<rightharpoonup> pbuf"

definition pb_data :: "pbuf \<Rightarrow> u8 list" where
  "pb_data b = take (unat (pb_len b)) (pb_payload b)"

text \<open>The buffers that hang together by \<open>next\<close>; no value for a chain with a freed buffer or a cycle.\<close>

partial_function (option) chain_list :: "pbuf_heap \<Rightarrow> addr option \<Rightarrow> addr list option" where
  "chain_list H p =
     (case p of
        None \<Rightarrow> Some []
      | Some a \<Rightarrow> (case H a of
          None \<Rightarrow> None
        | Some b \<Rightarrow> Option.bind (chain_list H (pb_next b)) (\<lambda>ps. Some (a # ps))))"

definition chain_bytes :: "pbuf_heap \<Rightarrow> addr list \<Rightarrow> u8 list" where
  "chain_bytes H ps = concat (map (\<lambda>a. case H a of None \<Rightarrow> [] | Some b \<Rightarrow> pb_data b) ps)"

record lwip_pbuf =
  pbuf_copy_partial :: "pbuf_heap \<Rightarrow> addr \<Rightarrow> u16 \<Rightarrow> u16 \<Rightarrow> u8 list"
  pbuf_remove_header :: "u16 \<Rightarrow> pbuf \<Rightarrow> pbuf"
  pbuf_free :: "addr \<Rightarrow> pbuf_heap \<Rightarrow> pbuf_heap option"
  pbuf_take_at :: "u8 list \<Rightarrow> nat \<Rightarrow> pbuf \<Rightarrow> pbuf"

definition lwip_ok :: "lwip_pbuf \<Rightarrow> bool" where
  "lwip_ok L \<longleftrightarrow>
     (\<forall>H a ps n. chain_list H (Some a) = Some ps \<longrightarrow> pbuf_copy_partial L H a n 0 = take (unat n) (chain_bytes H ps)) \<and>
     (\<forall>b n. n \<le> pb_len b \<longrightarrow> pbuf_remove_header L n b =
        b\<lparr>pb_payload := drop (unat n) (pb_payload b), pb_len := pb_len b - n, pb_tot_len := pb_tot_len b - n\<rparr>) \<and>
     (\<forall>H a ps. chain_list H (Some a) = Some ps \<longrightarrow> pbuf_free L a H = Some (H |` (- set ps))) \<and>
     (\<forall>H a. H a = None \<longrightarrow> pbuf_free L a H = None) \<and>
     (\<forall>H a H' x. pbuf_free L a H = Some H' \<longrightarrow> H x = None \<longrightarrow> H' x = None) \<and>
     (\<forall>xs off b. off + length xs \<le> unat (pb_len b) \<longrightarrow> pb_len b \<le> pb_tot_len b \<longrightarrow> unat (pb_len b) \<le> length (pb_payload b) \<longrightarrow>
        pbuf_take_at L xs off b =
        b\<lparr>pb_payload := take off (pb_payload b) @ xs @ drop (off + length xs) (pb_payload b)\<rparr>)"

declare chain_list.simps [code]

lemma chain_list_None [simp]: "chain_list H None = Some []"
  by (simp add: chain_list.simps)

lemma chain_list_Some: "chain_list H (Some a) = Some ps \<longleftrightarrow>
    (\<exists>b ps'. H a = Some b \<and> chain_list H (pb_next b) = Some ps' \<and> ps = a # ps')"
  by (subst chain_list.simps) (auto split: option.splits bind_splits)

lemma chain_list_Cons: "chain_list H p = Some (a # ps) \<longleftrightarrow>
    p = Some a \<and> (\<exists>b. H a = Some b \<and> chain_list H (pb_next b) = Some ps)"
  by (cases p) (auto simp: chain_list_Some)

lemma chain_list_Nil: "chain_list H p = Some [] \<longleftrightarrow> p = None"
  by (cases p) (auto simp: chain_list_Some)

text \<open>A chain depends on its own buffers only, and of these only on the links.\<close>

lemma chain_list_cong:
  assumes "chain_list H p = Some ps" and "\<And>a b. a \<in> set ps \<Longrightarrow> H a = Some b \<Longrightarrow> \<exists>b'. H' a = Some b' \<and> pb_next b' = pb_next b"
  shows "chain_list H' p = Some ps"
  using assms
proof (induction ps arbitrary: p)
  case (Cons a ps)
  then obtain b where b: "p = Some a" "H a = Some b" "chain_list H (pb_next b) = Some ps" by (auto simp: chain_list_Cons)
  obtain b' where b': "H' a = Some b'" "pb_next b' = pb_next b" using Cons.prems(2) [of a b] b by auto
  have "chain_list H' (pb_next b) = Some ps" using Cons.IH [OF b(3)] Cons.prems(2) by auto
  then show ?case using b b' by (simp add: chain_list_Cons)
qed (simp add: chain_list_Nil)

lemma chain_list_alive: "chain_list H p = Some ps \<Longrightarrow> a \<in> set ps \<Longrightarrow> \<exists>b. H a = Some b"
  by (induction ps arbitrary: p) (auto simp: chain_list_Cons)

lemma chain_bytes_cong: "(\<And>a. a \<in> set ps \<Longrightarrow> H' a = H a) \<Longrightarrow> chain_bytes H' ps = chain_bytes H ps"
  by (simp add: chain_bytes_def cong: map_cong)

lemma chain_bytes_simps [simp]:
  "chain_bytes H [] = []"
  "chain_bytes H (a # ps) = (case H a of None \<Rightarrow> [] | Some b \<Rightarrow> pb_data b) @ chain_bytes H ps"
  "chain_bytes H (ps @ bs) = chain_bytes H ps @ chain_bytes H bs"
  by (simp_all add: chain_bytes_def)

text \<open>The suffix of a chain is the chain of its first buffer.\<close>

lemma chain_list_suffix:
  "chain_list H p = Some (ps @ bs) \<Longrightarrow> \<exists>q. chain_list H q = Some bs \<and> (bs = [] \<or> q = Some (hd bs))"
proof (induction ps arbitrary: p)
  case Nil
  then show ?case by (cases bs) (auto simp: chain_list_Cons)
next
  case (Cons a ps)
  then show ?case by (auto simp: chain_list_Cons)
qed

lemma chain_list_distinct: "chain_list H p = Some ps \<Longrightarrow> distinct ps"
proof (induction ps arbitrary: p rule: length_induct)
  case (1 ps)
  show ?case
  proof (cases ps)
    case (Cons a ps')
    with 1 have b: "p = Some a" and "\<exists>b. H a = Some b \<and> chain_list H (pb_next b) = Some ps'"
      by (auto simp: chain_list_Cons)
    then have "distinct ps'" using 1 Cons by auto
    moreover have "a \<notin> set ps'"
    proof
      assume "a \<in> set ps'"
      then obtain us vs where "ps' = us @ a # vs" by (auto simp: in_set_conv_decomp)
      with 1(2) Cons have "chain_list H p = Some ((a # us) @ a # vs)" by simp
      from chain_list_suffix [OF this] have "chain_list H (Some a) = Some (a # vs)" by auto
      with 1(2) Cons b \<open>ps' = us @ a # vs\<close> show False by simp
    qed
    ultimately show ?thesis using Cons by simp
  qed simp
qed

section \<open>Functions to evaluate on\<close>

definition plain_lwip :: lwip_pbuf where
  "plain_lwip = \<lparr>
     pbuf_copy_partial = (\<lambda>H a n off. take (unat n) (drop (unat off)
        (case chain_list H (Some a) of None \<Rightarrow> [] | Some ps \<Rightarrow> chain_bytes H ps))),
     pbuf_remove_header = (\<lambda>n b. b\<lparr>pb_payload := drop (unat n) (pb_payload b), pb_len := pb_len b - n, pb_tot_len := pb_tot_len b - n\<rparr>),
     pbuf_free = (\<lambda>a H. case chain_list H (Some a) of None \<Rightarrow> None
        | Some ps \<Rightarrow> Some (\<lambda>x. if x \<in> set ps then None else H x)),
     pbuf_take_at = (\<lambda>xs off b. b\<lparr>pb_payload := take off (pb_payload b) @ xs @ drop (off + length xs) (pb_payload b)\<rparr>)\<rparr>"

lemma plain_lwip_ok: "lwip_ok plain_lwip"
proof -
  have "chain_list H (Some a) = None" if "H a = None" for H a using that by (subst chain_list.simps) simp
  moreover have "(\<lambda>x. if x \<in> set ps then None else H x) = H |` (- set ps)" for H :: pbuf_heap and ps
    by (auto simp: restrict_map_def)
  ultimately show ?thesis by (auto simp: lwip_ok_def plain_lwip_def restrict_map_def split: option.splits)
qed

end
