(* ===== verification/Lstack_Sock.thy ===== *)
theory Lstack_Sock
  imports Lstack_Epoll Same_Node_Ring Lstack_Pbuf
begin

text \<open>
  The state of lstack's sockets on the data path (\<open>src/lstack/core/lstack_lwip.c\<close>), and how it is set up and
  torn down: \<open>gazelle_init_sock\<close> with its supply of send buffers, \<open>gazelle_clean_sock\<close>, \<open>reset_sock_data\<close>.
  The socket record and its events are those of \<open>Lstack_Epoll\<close>; the fields it does not have are maps here.

  Parameters: lwip's buffer functions and mailbox, DPDK's copy loops, its ring creation and its
  buffer pool. Latency samples and the throughput statistics are left out.
\<close>

section \<open>State\<close>

text \<open>What \<open>netconn_recv_tcp_pbuf_flags\<close> and \<open>netconn_recv_udp_raw_pbuf_flags\<close> give: a packet, ERR_CLSD or another error.\<close>

datatype recv_result = Recv_ok addr | Recv_clsd | Recv_fail

text \<open>
  \<open>recv_burst\<close> is \<open>RING_SIZE(SOCK_RECV_RING_SIZE)\<close>, \<open>mbuf_max\<close> is MBUF_MAX_DATA_LEN, \<open>more_flags\<close> is NETCONN_DONTBLOCK and
  NETCONN_NOFIN, \<open>is_udp\<close> the type of a socket's connection. \<open>alloc_bulk\<close> is the pool: the buffers it
  gives, which are none of those in use; \<open>raw_payload\<close> is the memory of a buffer. \<open>rte_ring_create\<close> is DPDK's, with the name,
  the size and the flags, \<open>ring_namesize\<close> its RTE_RING_NAMESIZE, \<open>proc_idx\<close> the \<open>process_idx\<close> of the configuration, \<open>write_more\<close> is TCP_WRITE_FLAG_MORE. \<open>malloc_ok\<close>, \<open>rpc_alloc_ok\<close>
  and \<open>trylock\<close> are the results of \<open>malloc\<close>, of the attempts to get an RPC message, and of \<open>pthread_spin_trylock\<close>
  on the last buffer, when a write wants to merge (0) and when it wants to attach (1).
\<close>

record 'm io_env =
  elems :: "addr ring_elems"
  lwip :: lwip_pbuf
  ep_env :: ep_env
  node_p :: node_len
  recv_burst :: u32
  recv_ring_size :: u32
  send_ring_size :: u32
  expand_send_ring :: bool
  mbuf_max :: u16
  mbox_count :: "'m \<Rightarrow> u32"
  netconn_recv :: "'m \<Rightarrow> u8 \<Rightarrow> recv_result \<times> 'm"
  more_flags :: u8
  is_udp :: "addr \<Rightarrow> bool"
  app_bind_numa :: bool
  alloc_bulk :: "pbuf_heap \<Rightarrow> nat \<Rightarrow> addr list option"
  raw_payload :: "addr \<Rightarrow> u8 list"
  rte_ring_create :: "string \<Rightarrow> u32 \<Rightarrow> u32 \<Rightarrow> addr rte_ring option"
  ring_namesize :: nat
  proc_idx :: u8
  write_more :: u8
  malloc_ok :: bool
  rpc_alloc_ok :: "nat \<Rightarrow> bool"
  trylock :: "nat \<Rightarrow> bool"

record app_stat =
  app_read_cnt :: u64
  read_null :: u64
  app_write_cnt :: u64
  app_write_rpc :: u64

text \<open>
  \<open>recvmbox\<close> is \<open>conn->recvmbox\<close> of a socket, \<open>node_rx\<close> and \<open>node_tx\<close> the rings behind \<open>same_node_rx_ring\<close> and
  \<open>same_node_tx_ring\<close>. \<open>has_recv_ring\<close> and \<open>has_send_ring\<close> say that the ring pointer of the socket is not
  null. A socket's node \<open>recv_list\<close> is in the list of the stack \<open>recv_linked\<close>.
  \<open>recved\<close> are the calls of \<open>tcp_recved\<close>, \<open>sem_posts\<close> the posts of \<open>snd_ring_sem\<close>, \<open>send_msgs\<close> the
  \<open>stack_send\<close> messages in the stack's queue with their lengths. The last three
  fields are what \<open>thread_bind_stack\<close> keeps, for one thread.
\<close>

record 'm io_state =
  ep :: ep_state
  pbufs :: pbuf_heap
  recvmbox :: "addr \<Rightarrow> 'm option"
  node_rx :: "addr \<Rightarrow> same_node_ring option"
  node_tx :: "addr \<Rightarrow> same_node_ring option"
  has_recv_ring :: "addr \<Rightarrow> bool"
  has_send_ring :: "addr \<Rightarrow> bool"
  sock_stack :: "addr \<Rightarrow> nat option"
  send_lastdata :: "addr \<Rightarrow> addr option"
  send_pre_del :: "addr \<Rightarrow> addr option"
  remain_len :: "addr \<Rightarrow> u16"
  call_num :: "addr \<Rightarrow> u32"
  recv_linked :: "addr \<Rightarrow> nat option"
  recv_lists :: "nat \<Rightarrow> addr list"
  same_node_recv_lists :: "nat \<Rightarrow> addr list"
  conn_num :: "nat \<Rightarrow> u16"
  name_tick :: u32
  send_msgs :: "(addr \<times> u64) list"
  sem_posts :: "addr \<Rightarrow> nat"
  read_lwip_cnt :: u64
  read_lwip_drop :: u64
  write_lwip_cnt :: u64
  tx_allocmbuf_fail :: u64
  recved :: "(addr \<times> u16) list"
  app_stats :: "addr \<Rightarrow> app_stat"
  already_bind_numa :: "addr \<Rightarrow> bool"
  stack_sock_num :: "nat \<Rightarrow> u16"
  max_sock_stack :: u16
  numa_binds :: "nat list"

definition set_recv_ring :: "addr \<Rightarrow> addr rte_ring \<Rightarrow> 'm io_state \<Rightarrow> 'm io_state" where
  "set_recv_ring a r S = S\<lparr>ep := sock_upd a (\<lambda>s. s\<lparr>recv_ring := r\<rparr>) (ep S)\<rparr>"

definition set_send_ring :: "addr \<Rightarrow> addr rte_ring \<Rightarrow> 'm io_state \<Rightarrow> 'm io_state" where
  "set_send_ring a r S = S\<lparr>ep := sock_upd a (\<lambda>s. s\<lparr>send_ring := r\<rparr>) (ep S)\<rparr>"

definition app_stat_upd :: "addr option \<Rightarrow> (app_stat \<Rightarrow> app_stat) \<Rightarrow> 'm io_state \<Rightarrow> 'm io_state" where
  "app_stat_upd w f S = (case w of None \<Rightarrow> S | Some w \<Rightarrow> S\<lparr>app_stats := (app_stats S)(w := f (app_stats S w))\<rparr>)"

text \<open>\<open>list_del_node_null(&sock->recv_list)\<close>.\<close>

definition unlink_recv :: "addr \<Rightarrow> 'm io_state \<Rightarrow> 'm io_state" where
  "unlink_recv a S =
     (case recv_linked S a of
        None \<Rightarrow> S
      | Some i \<Rightarrow> S\<lparr>recv_linked := (recv_linked S)(a := None), recv_lists := (recv_lists S)(i := remove1 a (recv_lists S i))\<rparr>)"

section \<open>Tearing down\<close>

fun free_pbufs :: "lwip_pbuf \<Rightarrow> addr list \<Rightarrow> pbuf_heap \<Rightarrow> pbuf_heap option" where
  "free_pbufs L [] H = Some H"
| "free_pbufs L (p # ps) H = (case pbuf_free L p H of None \<Rightarrow> None | Some H \<Rightarrow> free_pbufs L ps H)"

text \<open>
  \<open>free_ring_pbuf\<close>: first everything lent is read and handed back, burst by burst, then everything handed
  back is dequeued and freed. A round that moves nothing would repeat for ever.
\<close>

function hand_back :: "addr ring_elems \<Rightarrow> u32 \<Rightarrow> addr rte_ring \<Rightarrow> addr rte_ring option" where
  "hand_back R burst r =
     (let (n, ps, r') = gazelle_ring_read R r burst; r' = gazelle_ring_read_over r' in
      if gazelle_ring_readable_count r' = 0 then Some r'
      else if n = 0 then None
      else hand_back R burst r')"
  by pat_completeness auto

function free_back :: "addr ring_elems \<Rightarrow> lwip_pbuf \<Rightarrow> u32 \<Rightarrow> addr rte_ring \<Rightarrow> pbuf_heap \<Rightarrow> (addr rte_ring \<times> pbuf_heap) option" where
  "free_back R L burst r H =
     (let (n, ps, r') = gazelle_ring_sc_dequeue R r burst in
      case free_pbufs L ps H of
        None \<Rightarrow> None
      | Some H \<Rightarrow>
          if gazelle_ring_readover_count r' = 0 then Some (r', H)
          else if n = 0 then None
          else free_back R L burst r' H)"
  by pat_completeness auto

lemma read_over_readable [simp]: "gazelle_ring_readable_count (gazelle_ring_read_over r) = gazelle_ring_readable_count r"
  by (simp add: gazelle_ring_readable_count_def gazelle_ring_read_over_def)

text \<open>A read or a dequeue that gives something leaves less.\<close>

lemma less_left:
  fixes a b m :: u32
  assumes "m \<le> a - b" and "m \<noteq> 0"
  shows "unat (a - (b + m)) < unat (a - b)"
proof -
  have le: "unat m \<le> unat (a - b)" using assms(1) by (simp add: word_le_nat_alt)
  have "unat m \<noteq> 0" using assms(2) by (simp add: unat_eq_zero)
  with word_dist_shrink [OF le] le show ?thesis by linarith
qed

lemma read_less:
  assumes "gazelle_ring_read R r n = (k, ps, r')" and "k \<noteq> 0"
  shows "unat (gazelle_ring_readable_count r') < unat (gazelle_ring_readable_count r)"
proof -
  have "k \<le> cons_head r - prod_head r" "r' = r\<lparr>prod_head := prod_head r + k\<rparr>"
    using assms by (auto simp: gazelle_ring_read_def Let_def not_less split: if_splits)
  then show ?thesis using less_left [OF _ assms(2)] by (simp add: gazelle_ring_readable_count_def)
qed

lemma dequeue_less:
  assumes "gazelle_ring_sc_dequeue R r n = (k, ps, r')" and "k \<noteq> 0"
  shows "unat (gazelle_ring_readover_count r') < unat (gazelle_ring_readover_count r)"
proof -
  have "k \<le> prod_tail r - cons_tail r" "r' = r\<lparr>cons_tail := cons_tail r + k\<rparr>"
    using assms by (auto simp: gazelle_ring_sc_dequeue_def Let_def not_less split: if_splits)
  then show ?thesis using less_left [OF _ assms(2)] by (simp add: gazelle_ring_readover_count_def)
qed

termination hand_back
  by (relation "measure (\<lambda>(R, n, r). unat (gazelle_ring_readable_count r))") (auto dest: read_less [OF sym])

termination free_back
  by (relation "measure (\<lambda>(R, L, n, r, H). unat (gazelle_ring_readover_count r))") (auto dest: dequeue_less [OF sym])

declare hand_back.simps [simp del] free_back.simps [simp del]
definition free_ring_pbuf :: "'m io_env \<Rightarrow> addr rte_ring \<Rightarrow> pbuf_heap \<Rightarrow> pbuf_heap option" where
  "free_ring_pbuf E r H = do {
     r \<leftarrow> hand_back (elems E) (recv_burst E) r;
     map_option snd (free_back (elems E) (lwip E) (recv_burst E) r H)}"

text \<open>Each buffer of a list is unhooked and freed by itself.\<close>

partial_function (option) free_list_pbuf :: "lwip_pbuf \<Rightarrow> addr option \<Rightarrow> pbuf_heap \<Rightarrow> pbuf_heap option" where
  "free_list_pbuf L p H =
     (case p of
        None \<Rightarrow> Some H
      | Some a \<Rightarrow> (case H a of
          None \<Rightarrow> None
        | Some b \<Rightarrow> (case pbuf_free L a (H(a \<mapsto> b\<lparr>pb_next := None\<rparr>)) of
            None \<Rightarrow> None
          | Some H \<Rightarrow> free_list_pbuf L (pb_next b) H)))"

declare free_list_pbuf.simps [code]

definition free_opt :: "lwip_pbuf \<Rightarrow> addr option \<Rightarrow> pbuf_heap \<Rightarrow> pbuf_heap option" where
  "free_opt L p H = (case p of None \<Rightarrow> Some H | Some a \<Rightarrow> pbuf_free L a H)"

definition reset_sock_data :: "'m io_env \<Rightarrow> addr \<Rightarrow> 'm io_state \<Rightarrow> 'm io_state option" where
  "reset_sock_data E a S = do {
     s \<leftarrow> socks (ep S) a;
     H \<leftarrow> (if has_recv_ring S a then free_ring_pbuf E (recv_ring s) (pbufs S) else Some (pbufs S));
     H \<leftarrow> (if has_send_ring S a then free_ring_pbuf E (send_ring s) H else Some H);
     H \<leftarrow> free_list_pbuf (lwip E) (send_lastdata S a) H;
     H \<leftarrow> free_opt (lwip E) (send_pre_del S a) H;
     H \<leftarrow> free_opt (lwip E) (recv_lastdata s) H;
     Some (S\<lparr>ep := sock_upd a (\<lambda>s. s\<lparr>wakeup := None, listen_next := None, epoll_events := 0, events := 0, recv_lastdata := None\<rparr>) (ep S),
       pbufs := H, has_recv_ring := (has_recv_ring S)(a := False), has_send_ring := (has_send_ring S)(a := False),
       sock_stack := (sock_stack S)(a := None), send_lastdata := (send_lastdata S)(a := None),
       send_pre_del := (send_pre_del S)(a := None), remain_len := (remain_len S)(a := 0),
       call_num := (call_num S)(a := 0), already_bind_numa := (already_bind_numa S)(a := False)\<rparr>)}"

definition gazelle_clean_sock :: "'m io_env \<Rightarrow> addr option \<Rightarrow> 'm io_state \<Rightarrow> 'm io_state option" where
  "gazelle_clean_sock E sock S =
     (case sock of
        None \<Rightarrow> Some S
      | Some a \<Rightarrow> do {
          s \<leftarrow> socks (ep S) a;
          (case sock_stack S a of
             None \<Rightarrow> Some S
           | Some i \<Rightarrow> do {
               e \<leftarrow> (case wakeup s of
                      None \<Rightarrow> Some (ep S)
                    | Some w \<Rightarrow> map_option (\<lambda>p. if wtype p = Wakeup_epoll then unlink_event a (ep S) else ep S) (polls (ep S) w));
               let S = S\<lparr>ep := e, conn_num := (conn_num S)(i := conn_num S i - 1)\<rparr>;
               S \<leftarrow> reset_sock_data E a S;
               Some (unlink_recv a S)})})"

section \<open>Setting up\<close>

definition init_mbuf_to_pbuf :: "'m io_env \<Rightarrow> addr \<Rightarrow> u16 \<Rightarrow> pbuf" where
  "init_mbuf_to_pbuf E a len = \<lparr>pb_next = None, pb_payload = raw_payload E a, pb_len = len, pb_tot_len = len,
     pb_addr = 0, pb_port = 0, pb_last = a, pb_allow_in = 1, pb_head = 0\<rparr>"

definition init_pbufs :: "'m io_env \<Rightarrow> addr list \<Rightarrow> pbuf_heap \<Rightarrow> pbuf_heap" where
  "init_pbufs E ps H = H ++ (\<lambda>a. if a \<in> set ps then Some (init_mbuf_to_pbuf E a (mbuf_max E)) else None)"

definition lwip_alloc_pbuf :: "'m io_env \<Rightarrow> u16 \<Rightarrow> 'm io_state \<Rightarrow> addr option \<times> 'm io_state" where
  "lwip_alloc_pbuf E len S =
     (case alloc_bulk E (pbufs S) 1 of
        None \<Rightarrow> (None, S\<lparr>tx_allocmbuf_fail := tx_allocmbuf_fail S + 1\<rparr>)
      | Some ps \<Rightarrow> (Some (hd ps), S\<lparr>pbufs := (pbufs S)(hd ps \<mapsto> init_mbuf_to_pbuf E (hd ps) len)\<rparr>))"

text \<open>True: to be called again.\<close>

definition replenish_send_idlembuf :: "'m io_env \<Rightarrow> addr \<Rightarrow> 'm io_state \<Rightarrow> (bool \<times> 'm io_state) option" where
  "replenish_send_idlembuf E a S = do {
     s \<leftarrow> socks (ep S) a;
     let replenish_cnt = gazelle_ring_free_count (send_ring s);
     (if replenish_cnt = 0 then Some (False, S)
      else case alloc_bulk E (pbufs S) (unat replenish_cnt) of
        None \<Rightarrow> Some (True, S\<lparr>tx_allocmbuf_fail := tx_allocmbuf_fail S + 1\<rparr>)
      | Some ps \<Rightarrow> do {
          let (num, r) = gazelle_ring_sp_enqueue (elems E) (send_ring s) ps replenish_cnt;
          H \<leftarrow> free_pbufs (lwip E) (drop (unat num) ps) (init_pbufs E ps (pbufs S));
          let S = (set_send_ring a r S)\<lparr>pbufs := H\<rparr>;
          Some (False, if expand_send_ring E then S else S\<lparr>sem_posts := (sem_posts S)(a := sem_posts S a + 1)\<rparr>)})}"

text \<open>
  \<open>create_ring\<close> (\<open>src/lstack/core/lstack_dpdk.c\<close>): \<open>snprintf_s\<close> fails when the name does not fit.
\<close>

definition ring_f_sp_enq :: u32 where "ring_f_sp_enq = 0x1"
definition ring_f_sc_deq :: u32 where "ring_f_sc_deq = 0x2"

definition sock_ring_name :: "nat \<Rightarrow> string \<Rightarrow> u8 \<Rightarrow> i32 \<Rightarrow> string option" where
  "sock_ring_name namesize name idx queue =
     (let q = sint queue;
          s = name @ ''_'' @ decimal (unat idx) @ ''_'' @ (if q < 0 then ''-'' else []) @ decimal (nat \<bar>q\<bar>)
      in if length s < namesize then Some s else None)"

definition create_ring :: "'m io_env \<Rightarrow> string \<Rightarrow> u32 \<Rightarrow> u32 \<Rightarrow> i32 \<Rightarrow> addr rte_ring option" where
  "create_ring E name count flags queue = do {
     rname \<leftarrow> sock_ring_name (ring_namesize E) name (proc_idx E) queue;
     rte_ring_create E rname count flags}"

text \<open>\<open>i\<close> is the stack of the thread. \<open>sock->stack\<close> is set only when both rings are there.\<close>

definition gazelle_init_sock :: "'m io_env \<Rightarrow> nat \<Rightarrow> addr option \<Rightarrow> 'm io_state \<Rightarrow> 'm io_state option" where
  "gazelle_init_sock E i sock S =
     (case sock of
        None \<Rightarrow> Some S
      | Some a \<Rightarrow> do {
          S \<leftarrow> reset_sock_data E a S;
          let r = create_ring E ''sock_recv'' (recv_ring_size E) (ring_f_sp_enq OR ring_f_sc_deq) (ucast (name_tick S));
          let S = S\<lparr>name_tick := name_tick S + 1\<rparr>;
          (case r of
             None \<Rightarrow> Some S
           | Some r \<Rightarrow> do {
               let S = (set_recv_ring a r S)\<lparr>has_recv_ring := (has_recv_ring S)(a := True)\<rparr>;
               let q = create_ring E ''sock_send'' (send_ring_size E) (ring_f_sp_enq OR ring_f_sc_deq) (ucast (name_tick S));
               let S = S\<lparr>name_tick := name_tick S + 1\<rparr>;
               (case q of
                  None \<Rightarrow> Some S
                | Some q \<Rightarrow> do {
                    let S = (set_send_ring a q S)\<lparr>has_send_ring := (has_send_ring S)(a := True)\<rparr>;
                    (again, S) \<leftarrow> replenish_send_idlembuf E a S;
                    Some (S\<lparr>sock_stack := (sock_stack S)(a := Some i), recv_linked := (recv_linked S)(a := None),
                      ep := sock_upd a (\<lambda>s. s\<lparr>linked := None\<rparr>) (ep S)\<rparr>)})})})"

section \<open>Freeing never brings a buffer back\<close>

lemma lwip_okD1: "lwip_ok L \<Longrightarrow> \<forall>H a H' x. pbuf_free L a H = Some H' \<longrightarrow> H x = None \<longrightarrow> H' x = None"
  unfolding lwip_ok_def by (elim conjE) assumption

lemma lwip_okD2: "lwip_ok L \<Longrightarrow> \<forall>H a. H a = None \<longrightarrow> pbuf_free L a H = None"
  unfolding lwip_ok_def by (elim conjE) assumption

lemma lwip_okD3: "lwip_ok L \<Longrightarrow> \<forall>H a ps. chain_list H (Some a) = Some ps \<longrightarrow> pbuf_free L a H = Some (H |` (- set ps))"
  unfolding lwip_ok_def by (elim conjE) assumption

lemma lwip_okD4:
  "lwip_ok L \<Longrightarrow> \<forall>H a ps n. chain_list H (Some a) = Some ps \<longrightarrow> pbuf_copy_partial L H a n 0 = take (unat n) (chain_bytes H ps)"
  unfolding lwip_ok_def by (elim conjE) assumption

lemma lwip_okD5:
  "lwip_ok L \<Longrightarrow> \<forall>b n. n \<le> pb_len b \<longrightarrow> pbuf_remove_header L n b =
     b\<lparr>pb_payload := drop (unat n) (pb_payload b), pb_len := pb_len b - n, pb_tot_len := pb_tot_len b - n\<rparr>"
  unfolding lwip_ok_def by (elim conjE) assumption

lemma lwip_okD6:
  "lwip_ok L \<Longrightarrow> \<forall>xs off b. off + length xs \<le> unat (pb_len b) \<longrightarrow> pb_len b \<le> pb_tot_len b \<longrightarrow> unat (pb_len b) \<le> length (pb_payload b) \<longrightarrow>
     pbuf_take_at L xs off b =
     b\<lparr>pb_payload := take off (pb_payload b) @ xs @ drop (off + length xs) (pb_payload b)\<rparr>"
  unfolding lwip_ok_def by (elim conjE) assumption

lemma pbuf_free_dead: "lwip_ok L \<Longrightarrow> pbuf_free L a H = Some H' \<Longrightarrow> H x = None \<Longrightarrow> H' x = None"
  by (rule lwip_okD1 [rule_format])

lemma free_of_dead: "lwip_ok L \<Longrightarrow> H a = None \<Longrightarrow> pbuf_free L a H = None"
  by (rule lwip_okD2 [rule_format])

lemma free_chain: "lwip_ok L \<Longrightarrow> chain_list H (Some a) = Some ps \<Longrightarrow> pbuf_free L a H = Some (H |` (- set ps))"
  by (rule lwip_okD3 [rule_format])

lemma free_pbufs_dead: "lwip_ok L \<Longrightarrow> free_pbufs L ps H = Some H' \<Longrightarrow> H x = None \<Longrightarrow> H' x = None"
  by (induction ps arbitrary: H) (auto split: option.splits dest: pbuf_free_dead)

lemma free_back_dead:
  "lwip_ok L \<Longrightarrow> free_back R L n r H = Some (r', H') \<Longrightarrow> H x = None \<Longrightarrow> H' x = None"
proof (induction R L n r H arbitrary: r' H' rule: free_back.induct)
  case (1 R L n r H)
  obtain k ps q where d: "gazelle_ring_sc_dequeue R r n = (k, ps, q)" by (metis prod_cases3)
  show ?case
  proof (cases "free_pbufs L ps H")
    case None
    then show ?thesis using 1(3) by (simp add: free_back.simps [of R L n r H] d)
  next
    case (Some G)
    note IH = 1(1) [OF d [symmetric] refl refl Some]
    have G: "G x = None" by (rule free_pbufs_dead [OF 1(2) Some 1(4)])
    show ?thesis using 1(3)
      by (simp add: free_back.simps [of R L n r H] d Some split: if_splits) (use IH 1(2) G in blast)+
  qed
qed

lemma free_list_dead:
  assumes "free_list_pbuf L p H = Some H'"
  shows "lwip_ok L \<longrightarrow> H x = None \<longrightarrow> H' x = None"
proof (rule free_list_pbuf.raw_induct [OF _ assms, where P = "\<lambda>L p H H'. lwip_ok L \<longrightarrow> H x = None \<longrightarrow> H' x = None"])
  fix f :: "lwip_pbuf \<Rightarrow> addr option \<Rightarrow> pbuf_heap \<Rightarrow> pbuf_heap option" and L p H G
  assume IH: "\<And>L p H G. f L p H = Some G \<Longrightarrow> lwip_ok L \<longrightarrow> H x = None \<longrightarrow> G x = None"
    and run: "(case p of None \<Rightarrow> Some H | Some a \<Rightarrow> (case H a of None \<Rightarrow> None
        | Some b \<Rightarrow> (case pbuf_free L a (H(a \<mapsto> b\<lparr>pb_next := None\<rparr>)) of None \<Rightarrow> None | Some H \<Rightarrow> f L (pb_next b) H))) = Some G"
  show "lwip_ok L \<longrightarrow> H x = None \<longrightarrow> G x = None"
  proof (intro impI)
    assume L: "lwip_ok L" and x: "H x = None"
    show "G x = None"
    proof (cases p)
      case None
      then show ?thesis using run x by simp
    next
      case (Some a)
      then obtain b K where b: "H a = Some b" and K: "pbuf_free L a (H(a \<mapsto> b\<lparr>pb_next := None\<rparr>)) = Some K" and "f L (pb_next b) K = Some G"
        using run by (auto split: option.splits)
      moreover have "K x = None" by (rule pbuf_free_dead [OF L K]) (use x b in auto)
      ultimately show ?thesis using IH L by blast
    qed
  qed
qed
section \<open>Emptying a ring\<close>

lemma readable_lent: "ring_inv R r \<Longrightarrow> unat (gazelle_ring_readable_count r) = length (lent R r)"
  using ring_invD(8) [of R r] by (simp add: gazelle_ring_readable_count_def)

lemma readover_filled: "ring_inv R r \<Longrightarrow> unat (gazelle_ring_readover_count r) = length (filled R r)"
  using ring_invD(6) [of R r] by (simp add: gazelle_ring_readover_count_def)
lemma hand_back_law:
  assumes "ring_inv R r" and "n \<noteq> 0"
  shows "\<exists>q. hand_back R n r = Some q \<and> ring_inv R q \<and> filled R q = ring_contents R r \<and> in_read R q = [] \<and> lent R q = []"
  using assms
proof (induction R n r rule: hand_back.induct)
  case (1 R n r)
  obtain k ps q where d: "gazelle_ring_read R r n = (k, ps, q)" by (metis prod_cases3)
  have n0: "unat n \<noteq> 0" using 1(3) by (simp add: unat_eq_zero)
  note A = ring_law_read [OF 1(2) d]
  note O = ring_law_read_over [OF A(3)]
  let ?q = "gazelle_ring_read_over q"
  have c: "ring_contents R ?q = ring_contents R r" by (simp add: ring_contents_def O A)
  show ?case
  proof (cases "gazelle_ring_readable_count ?q = 0")
    case True
    then have "lent R ?q = []" using readable_lent [OF O(1)] by simp
    then show ?thesis using True c O by (simp add: hand_back.simps [of R n r] d Let_def ring_contents_def)
  next
    case False
    have "k \<noteq> 0"
    proof
      assume "k = 0"
      then have "take (unat n) (lent R r) = []" using A(1,2) by (auto simp: min_def split: if_splits)
      then have "lent R r = []" using n0 by simp
      then show False using False readable_lent [OF O(1)] A(4) O(4) by (simp add: unat_eq_zero)
    qed
    from 1(1) [OF d [symmetric] refl refl refl False this O(1) 1(3)] False \<open>k \<noteq> 0\<close> show ?thesis
      by (simp add: hand_back.simps [of R n r] d Let_def c)
  qed
qed

lemma free_pbufs_append: "free_pbufs L (ps @ qs) H = Option.bind (free_pbufs L ps H) (free_pbufs L qs)"
  by (induction ps arbitrary: H) (auto split: option.splits)

lemma free_back_law:
  assumes "ring_inv R r" and "n \<noteq> 0" and "in_read R r = []" and "lent R r = []"
  shows "\<exists>q. free_back R L n r H = map_option (\<lambda>H. (q, H)) (free_pbufs L (filled R r) H) \<and>
    (free_pbufs L (filled R r) H \<noteq> None \<longrightarrow> ring_inv R q \<and> ring_contents R q = [])"
  using assms
proof (induction R L n r H rule: free_back.induct)
  case (1 R L n r H)
  obtain k ps q where d: "gazelle_ring_sc_dequeue R r n = (k, ps, q)" by (metis prod_cases3)
  note A = ring_law_dequeue [OF 1(2) d]
  have n0: "unat n \<noteq> 0" using 1(3) by (simp add: unat_eq_zero)
  have split: "filled R r = ps @ filled R q" using A(1,4) by simp
  show ?case
  proof (cases "free_pbufs L ps H")
    case None
    then show ?thesis by (simp add: free_back.simps [of R L n r H] d split free_pbufs_append)
  next
    case (Some G)
    show ?thesis
    proof (cases "gazelle_ring_readover_count q = 0")
      case True
      then have "filled R q = []" using readover_filled [OF A(3)] by simp
      then show ?thesis using True Some A(3,5,6) 1(4,5) split
        by (auto simp: free_back.simps [of R L n r H] d Let_def ring_contents_def intro!: exI [of _ q])
    next
      case False
      have "k \<noteq> 0"
      proof
        assume "k = 0"
        then have "take (unat n) (filled R r) = []" using A(1,2) by (auto simp: min_def split: if_splits)
        then have "filled R r = []" using n0 by simp
        then show False using False readover_filled [OF A(3)] A(4) by (simp add: unat_eq_zero)
      qed
      from 1(1) [OF d [symmetric] refl refl Some False this A(3) 1(3)] A(5,6) 1(4,5) False Some \<open>k \<noteq> 0\<close>
      show ?thesis by (simp add: free_back.simps [of R L n r H] d Let_def split free_pbufs_append)
    qed
  qed
qed

text \<open>Buffers whose chains do not share anything are freed one after the other.\<close>

lemma free_chains:
  assumes L: "lwip_ok L" and "\<And>p. p \<in> set ps \<Longrightarrow> chain_list H (Some p) = Some (C p)" and "distinct (concat (map C ps))"
  shows "free_pbufs L ps H = Some (H |` (- (\<Union>p \<in> set ps. set (C p))))"
  using assms(2,3)
proof (induction ps arbitrary: H)
  case (Cons p ps)
  have f: "pbuf_free L p H = Some (H |` (- set (C p)))" using free_chain [OF L] Cons.prems(1) by simp
  have "chain_list (H |` (- set (C p))) (Some q) = Some (C q)" if "q \<in> set ps" for q
  proof (rule chain_list_cong)
    show "chain_list H (Some q) = Some (C q)" using Cons.prems(1) that by simp
    fix a b assume "a \<in> set (C q)" "H a = Some b"
    then show "\<exists>b'. (H |` (- set (C p))) a = Some b' \<and> pb_next b' = pb_next b"
      using Cons.prems(2) that by (auto simp: restrict_map_def)
  qed
  from Cons.IH [OF this] Cons.prems(2) have "free_pbufs L ps (H |` (- set (C p))) =
      Some ((H |` (- set (C p))) |` (- (\<Union>p \<in> set ps. set (C p))))" by simp
  then show ?case by (simp add: f restrict_restrict)
qed (simp add: restrict_map_def)

lemma free_ring_pbuf_law:
  assumes L: "lwip_ok (lwip E)" and R: "ring_inv (elems E) r" and "recv_burst E \<noteq> 0"
    and "\<And>p. p \<in> set (ring_contents (elems E) r) \<Longrightarrow> chain_list H (Some p) = Some (C p)"
    and "distinct (concat (map C (ring_contents (elems E) r)))"
  shows "free_ring_pbuf E r H = Some (H |` (- (\<Union>p \<in> set (ring_contents (elems E) r). set (C p))))"
proof -
  obtain q where q: "hand_back (elems E) (recv_burst E) r = Some q" "ring_inv (elems E) q"
    "filled (elems E) q = ring_contents (elems E) r" "in_read (elems E) q = []" "lent (elems E) q = []"
    using hand_back_law [OF R assms(3)] by blast
  from free_back_law [OF q(2) assms(3) q(4,5), of "lwip E" H] free_chains [OF L assms(4,5)] q
  show ?thesis by (auto simp: free_ring_pbuf_def)
qed
text \<open>
  A socket whose buffers are in order: the chains of its rings and of the send side are whole and
  share nothing; \<open>B\<close> is everything the socket owns.
\<close>

definition chains_ok :: "pbuf_heap \<Rightarrow> (addr \<Rightarrow> addr list) \<Rightarrow> addr list \<Rightarrow> bool" where
  "chains_ok H C ps \<longleftrightarrow> (\<forall>p \<in> set ps. chain_list H (Some p) = Some (C p)) \<and> distinct (concat (map C ps))"

definition owned :: "(addr \<Rightarrow> addr list) \<Rightarrow> addr list \<Rightarrow> addr set" where
  "owned C ps = (\<Union>p \<in> set ps. set (C p))"

lemma chains_ok_append:
  "chains_ok H C (ps @ qs) \<longleftrightarrow> chains_ok H C ps \<and> chains_ok H C qs \<and> owned C ps \<inter> owned C qs = {}"
  by (auto simp: chains_ok_def owned_def)

lemma owned_append [simp]: "owned C (ps @ qs) = owned C ps \<union> owned C qs"
  by (auto simp: owned_def)

lemma chains_ok_heap:
  assumes "chains_ok H C ps" and "\<And>a. a \<in> owned C ps \<Longrightarrow> H' a = H a"
  shows "chains_ok H' C ps"
proof -
  have "chain_list H' (Some p) = Some (C p)" if "p \<in> set ps" for p
  proof (rule chain_list_cong [of H])
    show "chain_list H (Some p) = Some (C p)" using assms(1) that by (simp add: chains_ok_def)
    fix x b assume "x \<in> set (C p)" "H x = Some b"
    moreover have "H' x = H x" by (rule assms(2)) (use \<open>x \<in> set (C p)\<close> that in \<open>auto simp: owned_def\<close>)
    ultimately show "\<exists>b'. H' x = Some b' \<and> pb_next b' = pb_next b" by simp
  qed
  then show ?thesis using assms(1) by (simp add: chains_ok_def)
qed

lemma free_ring_owned:
  assumes "lwip_ok (lwip E)" "ring_inv (elems E) r" "recv_burst E \<noteq> 0" "chains_ok H C (ring_contents (elems E) r)"
  shows "free_ring_pbuf E r H = Some (H |` (- owned C (ring_contents (elems E) r)))"
  using free_ring_pbuf_law [OF assms(1-3), of H C] assms(4) by (simp add: chains_ok_def owned_def)

text \<open>The packet read in part lies in the ring still: the ring frees it, and then the pointer to its rest is freed.\<close>

lemma reset_frees_twice:
  assumes L: "lwip_ok (lwip E)" and R: "ring_inv (elems E) (recv_ring s)" and b: "recv_burst E \<noteq> 0"
    and C: "chains_ok (pbufs S) C (ring_contents (elems E) (recv_ring s))"
    and s: "socks (ep S) a = Some s" "has_recv_ring S a" "recv_lastdata s = Some l"
    and l: "l \<in> owned C (ring_contents (elems E) (recv_ring s))"
  shows "reset_sock_data E a S = None"
proof -
  let ?H = "pbufs S |` (- owned C (ring_contents (elems E) (recv_ring s)))"
  have H: "free_ring_pbuf E (recv_ring s) (pbufs S) = Some ?H" by (rule free_ring_owned [OF L R b C])
  have dead: "?H l = None" using l by (simp add: restrict_map_def)
  have fr: "G' l = None" if "free_ring_pbuf E r G = Some G'" "G l = None" for r G G'
    using that free_back_dead [OF L, of "elems E"] by (auto simp: free_ring_pbuf_def split: bind_splits)
  have fo: "G' l = None" if "free_opt (lwip E) p G = Some G'" "G l = None" for p G G'
    using that pbuf_free_dead [OF L] by (auto simp: free_opt_def split: option.splits)
  show ?thesis
  proof (rule ccontr)
    assume "reset_sock_data E a S \<noteq> None"
    then obtain H1 H2 H3 H4 where
      1: "(if has_send_ring S a then free_ring_pbuf E (send_ring s) ?H else Some ?H) = Some H1" and
      2: "free_list_pbuf (lwip E) (send_lastdata S a) H1 = Some H2" and
      3: "free_opt (lwip E) (send_pre_del S a) H2 = Some H3" and
      4: "free_opt (lwip E) (Some l) H3 = Some H4"
      using s H by (auto simp: reset_sock_data_def split: bind_splits)
    have "H1 l = None" using 1 fr dead by (auto split: if_splits)
    then have "H2 l = None" using free_list_dead [OF 2] L by simp
    then have "H3 l = None" by (rule fo [OF 3])
    then show False using 4 free_of_dead [OF L] by (simp add: free_opt_def)
  qed
qed

end
