(* ===== verification/Lstack_Recv.thy ===== *)
theory Lstack_Recv
  imports Lstack_Sock
begin

text \<open>
  Receiving on a socket (\<open>src/lstack/core/lstack_lwip.c\<close>): the stack thread moves packets from lwip's
  mailbox to the socket's receive ring (\<open>read_lwip_data\<close>) and frees those the application has handed back;
  the application thread copies bytes out of the packets in the ring (\<open>read_stack_data\<close>,
  \<open>recvmsg_from_stack\<close>).
\<close>

section \<open>The stack thread\<close>

definition free_recv_ring_readover :: "'m io_env \<Rightarrow> addr rte_ring \<Rightarrow> pbuf_heap \<Rightarrow> (addr rte_ring \<times> pbuf_heap) option" where
  "free_recv_ring_readover E r H =
     (let (n, ps, r) = gazelle_ring_sc_dequeue (elems E) r (recv_burst E)
      in map_option (\<lambda>H. (r, H)) (free_pbufs (lwip E) ps H))"

text \<open>
  The loop over the mailbox: the packets read, their bytes, the result when the loop returns from the function,
  and the mailbox.
\<close>

fun recv_loop ::
  "'m io_env \<Rightarrow> pbuf_heap \<Rightarrow> nat \<Rightarrow> u8 \<Rightarrow> addr list \<Rightarrow> int \<Rightarrow> 'm \<Rightarrow> (addr list \<times> int \<times> int option \<times> 'm) option" where
  "recv_loop E H 0 fl ps len m = Some (ps, len, None, m)"
| "recv_loop E H (Suc n) fl ps len m =
     (case netconn_recv E m fl of
        (Recv_ok a, m) \<Rightarrow>
          (case H a of
             None \<Rightarrow> None
           | Some b \<Rightarrow> recv_loop E H n (fl OR more_flags E) (ps @ [a]) (len + uint (pb_tot_len b)) m)
      | (e, m) \<Rightarrow> Some (ps, len, if len > 0 then None else Some (if e = Recv_clsd then 0 else -1), m))"

text \<open>Packets the ring has no room for.\<close>

fun drop_pbufs :: "'m io_env \<Rightarrow> addr \<Rightarrow> addr list \<Rightarrow> 'm io_state \<Rightarrow> 'm io_state option" where
  "drop_pbufs E a [] S = Some S"
| "drop_pbufs E a (p # ps) S =
     (case pbufs S p of
        None \<Rightarrow> None
      | Some b \<Rightarrow>
          let S = (if is_udp E a then S else S\<lparr>recved := recved S @ [(a, pb_tot_len b)]\<rparr>)
          in (case pbuf_free (lwip E) p (pbufs S) of
                None \<Rightarrow> None
              | Some H \<Rightarrow> drop_pbufs E a ps (S\<lparr>pbufs := H, read_lwip_drop := read_lwip_drop S + 1\<rparr>)))"

text \<open>The result -1 comes with \<open>errno\<close> EAGAIN when there was no room or no data.\<close>

definition read_lwip_data :: "'m io_env \<Rightarrow> addr \<Rightarrow> u8 \<Rightarrow> 'm io_state \<Rightarrow> (int \<times> 'm io_state) option" where
  "read_lwip_data E a apiflags S = do {
     s \<leftarrow> socks (ep S) a;
     c \<leftarrow> conn s;
     (case recvmbox S a of
        None \<Rightarrow> Some (0, S)
      | Some m \<Rightarrow> do {
          (r, H) \<leftarrow> free_recv_ring_readover E (recv_ring s) (pbufs S);
          let S = (set_recv_ring a r S)\<lparr>pbufs := H\<rparr>;
          let free_count = gazelle_ring_free_count r;
          (if free_count = 0 then Some (-1, S)
           else do {
             let read_num = min free_count (mbox_count E m);
             (ps, recv_len, ret, m) \<leftarrow> recv_loop E H (unat read_num) apiflags [] 0 m;
             let S = S\<lparr>recvmbox := (recvmbox S)(a := Some m)\<rparr>;
             (case ret of
                Some k \<Rightarrow> Some (k, S)
              | None \<Rightarrow> do {
                  let (n, r) = gazelle_ring_sp_enqueue (elems E) r ps (word_of_nat (length ps));
                  let S = set_recv_ring a r S;
                  S \<leftarrow> drop_pbufs E a (drop (unat n) ps) S;
                  let S = S\<lparr>read_lwip_cnt := read_lwip_cnt S + word_of_nat (length ps)\<rparr>;
                  Some (if recv_len = 0 then -1 else recv_len, S)})})})}"

section \<open>The application thread\<close>

definition thread_bind_stack :: "'m io_env \<Rightarrow> addr \<Rightarrow> 'm io_state \<Rightarrow> 'm io_state" where
  "thread_bind_stack E a S =
     (case sock_stack S a of
        None \<Rightarrow> S
      | Some i \<Rightarrow>
          if already_bind_numa S a then S
          else let S = S\<lparr>already_bind_numa := (already_bind_numa S)(a := True)\<rparr> in
            if \<not> app_bind_numa E then S
            else let S = S\<lparr>stack_sock_num := (stack_sock_num S)(i := stack_sock_num S i + 1)\<rparr> in
              if stack_sock_num S i > max_sock_stack S then
                S\<lparr>max_sock_stack := stack_sock_num S i, numa_binds := numa_binds S @ [i]\<rparr>
              else S)"

text \<open>The buffers of the chain from which \<open>free_len\<close> bytes are taken; the first are skipped, one is cut.\<close>

partial_function (option) skip_bytes :: "lwip_pbuf \<Rightarrow> addr option \<Rightarrow> u16 \<Rightarrow> pbuf_heap \<Rightarrow> (addr option \<times> pbuf_heap) option" where
  "skip_bytes L p free_len H =
     (if free_len = 0 then Some (p, H)
      else case p of
        None \<Rightarrow> Some (None, H)
      | Some a \<Rightarrow> (case H a of
          None \<Rightarrow> None
        | Some b \<Rightarrow>
            if free_len \<ge> pb_len b then skip_bytes L (pb_next b) (free_len - pb_len b) H
            else Some (Some a, H(a \<mapsto> pbuf_remove_header L free_len b))))"

declare skip_bytes.simps [code]

definition pbuf_free_partial :: "lwip_pbuf \<Rightarrow> addr \<Rightarrow> u16 \<Rightarrow> pbuf_heap \<Rightarrow> (addr option \<times> pbuf_heap) option" where
  "pbuf_free_partial L a free_len H = do {
     b \<leftarrow> H a;
     (p, H) \<leftarrow> skip_bytes L (Some a) free_len H;
     (case p of
        None \<Rightarrow> Some (None, H)
      | Some c \<Rightarrow> do {
          d \<leftarrow> H c;
          Some (Some c, H(c \<mapsto> d\<lparr>pb_tot_len := pb_tot_len b - free_len\<rparr>))})}"

text \<open>
  The loop of \<open>read_stack_data\<close> on the ring, the packet read in part, the heap and the number of packets
  finished; \<open>cur\<close> is the variable \<open>pbuf\<close>.
\<close>

record rx_core =
  rring :: "addr rte_ring"
  lastdata :: "addr option"
  heap :: pbuf_heap
  finished :: u64
  cur :: "addr option"

definition next_pbuf :: "addr ring_elems \<Rightarrow> rx_core \<Rightarrow> (addr \<times> rx_core) option" where
  "next_pbuf R c =
     (case lastdata c of
        Some p \<Rightarrow> Some (p, c\<lparr>lastdata := None, cur := Some p\<rparr>)
      | None \<Rightarrow>
          let (k, ps, r) = gazelle_ring_read R (rring c) 1
          in if k \<noteq> 1 then None else Some (hd ps, c\<lparr>rring := r, cur := Some (hd ps)\<rparr>))"

text \<open>\<open>copy_len\<close> is cut to UINT16_MAX.\<close>

definition cut_len :: "nat \<Rightarrow> nat" where
  "cut_len n = (if int n > 65535 then 65535 else n)"

lemma cut_len: "cut_len n = min n 65535"
  by (simp add: cut_len_def)

function read_loop :: "addr ring_elems \<Rightarrow> lwip_pbuf \<Rightarrow> nat \<Rightarrow> rx_core \<Rightarrow> (nat \<times> u8 list \<times> rx_core) option" where
  "read_loop R L recv_left c =
     (if recv_left = 0 then Some (0, [], c)
      else case next_pbuf R c of
        None \<Rightarrow> Some (0, [], c)
      | Some (p, c) \<Rightarrow> (case heap c p of
          None \<Rightarrow> None
        | Some b \<Rightarrow>
            let copy_len = cut_len (if recv_left > unat (pb_tot_len b) then unat (pb_tot_len b) else recv_left);
                xs = pbuf_copy_partial L (heap c) p (word_of_nat copy_len) 0
            in if unat (pb_tot_len b) > copy_len then
                 (case pbuf_free_partial L p (word_of_nat copy_len) (heap c) of
                    None \<Rightarrow> None
                  | Some (l, H) \<Rightarrow> Some (copy_len, xs, c\<lparr>lastdata := l, heap := H\<rparr>))
               else
                 (case read_loop R L (recv_left - copy_len)
                         (c\<lparr>rring := gazelle_ring_read_over (rring c), finished := finished c + 1\<rparr>) of
                    None \<Rightarrow> None
                  | Some (k, ys, c) \<Rightarrow> Some (copy_len + k, xs @ ys, c))))"
  by pat_completeness auto
section \<open>The loop of the reader ends\<close>

lemma read_one_readable:
  assumes "gazelle_ring_read R r 1 = (k, ps, r')" and "k = 1"
  shows "unat (gazelle_ring_readable_count r') < unat (gazelle_ring_readable_count r)"
  using read_less [OF assms(1)] assms(2) by simp

text \<open>What the reader can still take; it bounds the number of rounds.\<close>

definition rx_left :: "rx_core \<Rightarrow> nat" where
  "rx_left c = (if lastdata c = None then 0 else 1) + unat (gazelle_ring_readable_count (rring c))"

lemma next_pbuf_left: "next_pbuf R c = Some (p, c') \<Longrightarrow> rx_left c' < rx_left c"
  using read_one_readable [of R "rring c"]
  by (auto simp: next_pbuf_def rx_left_def Let_def split: option.splits if_splits prod.splits)

termination read_loop
  by (relation "measure (\<lambda>(R, L, n, c). rx_left c)") (auto dest: next_pbuf_left simp: rx_left_def)

declare read_loop.simps [simp del]

section \<open>The calls of the application\<close>

text \<open>
  \<open>read_stack_data\<close>: the result, the bytes stored, and the address reported, which is that of the last
  packet the loop touched. -1 comes with \<open>errno\<close> EAGAIN. The flags of the call are not used.
\<close>

definition node_recv :: "'m io_env \<Rightarrow> addr \<Rightarrow> u64 \<Rightarrow> same_node_ring \<Rightarrow> 'm io_state \<Rightarrow> (int \<times> u8 list \<times> 'm io_state) option" where
  "node_recv E a len r S = do {
     (k, xs, r) \<leftarrow> gazelle_same_node_ring_recv (node_p E) len r;
     Some (k, xs, S\<lparr>node_rx := (node_rx S)(a := Some r),
       ep := sock_upd a (\<lambda>s. s\<lparr>same_node_ready := sndbegin r \<noteq> sndend r\<rparr>) (ep S)\<rparr>)}"

text \<open>After a read the EPOLLIN event may go.\<close>

definition in_event_check :: "addr \<Rightarrow> 'm io_state \<Rightarrow> 'm io_state option" where
  "in_event_check a S = do {
     s \<leftarrow> socks (ep S) a;
     (case wakeup s of
        None \<Rightarrow> Some S
      | Some w \<Rightarrow> do {
          p \<leftarrow> polls (ep S) w;
          (if wtype p = Wakeup_epoll \<and> events s AND epollin \<noteq> 0 then do {
             e \<leftarrow> del_data_in_event a (ep S);
             Some (S\<lparr>ep := e\<rparr>)}
           else Some S)})}"

definition read_stack_data :: "'m io_env \<Rightarrow> addr \<Rightarrow> u64 \<Rightarrow> 'm io_state \<Rightarrow> (int \<times> u8 list \<times> (u32 \<times> u16) option \<times> 'm io_state) option" where
  "read_stack_data E a len S = do {
     s \<leftarrow> socks (ep S) a;
     (if 0 < sint (errevent s) \<and> \<not> netconn_is_datain s then Some (0, [], None, S)
      else
        let S = thread_bind_stack E a S in
        (case node_rx S a of
           Some r \<Rightarrow> do {
             (k, xs, S) \<leftarrow> node_recv E a len r S;
             S \<leftarrow> in_event_check a S;
             Some (k, xs, None, S)}
         | None \<Rightarrow> do {
             (k, xs, c) \<leftarrow> read_loop (elems E) (lwip E) (unat len)
               \<lparr>rring = recv_ring s, lastdata = recv_lastdata s, heap = pbufs S, finished = 0, cur = None\<rparr>;
             let S = app_stat_upd (wakeup s) (\<lambda>t. t\<lparr>app_read_cnt := app_read_cnt t + finished c\<rparr>)
               (S\<lparr>ep := sock_upd a (\<lambda>s. s\<lparr>recv_ring := rring c, recv_lastdata := lastdata c\<rparr>) (ep S), pbufs := heap c\<rparr>);
             S \<leftarrow> in_event_check a S;
             from \<leftarrow> (case cur c of None \<Rightarrow> Some None | Some p \<Rightarrow> map_option (\<lambda>b. Some (pb_addr b, pb_port b)) (heap c p));
             (if k = 0 then Some (-1, [], from, app_stat_upd (wakeup s) (\<lambda>t. t\<lparr>read_null := read_null t + 1\<rparr>) S)
              else Some (int k, xs, from, S))}))}"

text \<open>
  \<open>check_msg_vaild\<close> and \<open>recvmsg_from_stack\<close>: the buffers of the call are their lengths, or \<open>None\<close> for
  a null base. \<open>Inl ()\<close> is -1 with EINVAL. \<open>(int)iov_len\<close> is the length cut to 32 bits.
\<close>

definition iov_max :: nat where "iov_max = 1024"
definition msg_peek :: u32 where "msg_peek = 0x2"

fun iov_sizes_ok :: "u64 \<Rightarrow> u64 option list \<Rightarrow> bool" where
  "iov_sizes_ok buflen [] \<longleftrightarrow> True"
| "iov_sizes_ok buflen (None # vs) \<longleftrightarrow> False"
| "iov_sizes_ok buflen (Some n # vs) \<longleftrightarrow> \<not> sint n < 0 \<and> \<not> sint (buflen + n) < 0 \<and> iov_sizes_ok (buflen + n) vs"

definition check_msg_vaild :: "u64 option list option \<Rightarrow> bool" where
  "check_msg_vaild message =
     (case message of
        None \<Rightarrow> False
      | Some vs \<Rightarrow> \<not> (length vs = 0 \<or> length vs > iov_max) \<and> iov_sizes_ok 0 vs)"

fun recvmsg_loop :: "'m io_env \<Rightarrow> addr \<Rightarrow> u32 \<Rightarrow> u64 list \<Rightarrow> int \<Rightarrow> u8 list \<Rightarrow> 'm io_state \<Rightarrow> (int \<times> u8 list \<times> 'm io_state) option" where
  "recvmsg_loop E a flags [] buflen out S = Some (buflen, out, S)"
| "recvmsg_loop E a flags (n # vs) buflen out S =
     (if n = 0 then recvmsg_loop E a flags vs buflen out S
      else case read_stack_data E a n S of
        None \<Rightarrow> None
      | Some (recvd_local, xs, from, S) \<Rightarrow>
          let buflen = (if recvd_local > 0 then buflen + recvd_local else buflen) in
          if recvd_local < 0 \<or> recvd_local < sint (ucast n :: 32 word) \<or> flags AND msg_peek \<noteq> 0
          then Some (if buflen \<le> 0 then recvd_local else buflen, out @ xs, S)
          else recvmsg_loop E a flags vs buflen (out @ xs) S)"

definition recvmsg_from_stack :: "'m io_env \<Rightarrow> addr \<Rightarrow> u64 option list option \<Rightarrow> u32 \<Rightarrow> 'm io_state \<Rightarrow> (unit + int \<times> u8 list \<times> 'm io_state) option" where
  "recvmsg_from_stack E a message flags S =
     (if \<not> check_msg_vaild message then Some (Inl ())
      else map_option Inr (recvmsg_loop E a flags (map the (the message)) 0 [] S))"
section \<open>Cutting a chain\<close>

text \<open>Every buffer has as many bytes as it says.\<close>

definition lens_ok :: "pbuf_heap \<Rightarrow> addr list \<Rightarrow> bool" where
  "lens_ok H ps \<longleftrightarrow> (\<forall>x \<in> set ps. \<exists>b. H x = Some b \<and> unat (pb_len b) \<le> length (pb_payload b))"

text \<open>The first \<open>n\<close> bytes are taken off: what is left starts at a buffer of the chain, of which only that one changed.\<close>

definition cut_at :: "pbuf_heap \<Rightarrow> addr list \<Rightarrow> nat \<Rightarrow> addr \<Rightarrow> addr list \<Rightarrow> pbuf_heap \<Rightarrow> bool" where
  "cut_at H vs n l vs' H' \<longleftrightarrow>
     (\<exists>us b b'. vs = us @ l # vs' \<and> H l = Some b \<and> H' = H(l \<mapsto> b') \<and> pb_next b' = pb_next b \<and>
        chain_bytes H' (l # vs') = drop n (chain_bytes H vs) \<and> unat (pb_len b') \<le> length (pb_payload b'))"

lemma chain_bytes_upd_other: "l \<notin> set vs \<Longrightarrow> chain_bytes (H(l \<mapsto> b)) vs = chain_bytes H vs"
  by (rule chain_bytes_cong) auto

lemma pb_data_length: "unat (pb_len b) \<le> length (pb_payload b) \<Longrightarrow> length (pb_data b) = unat (pb_len b)"
  by (simp add: pb_data_def)

lemma skip_bytes_law:
  assumes L: "lwip_ok L"
  shows "chain_list H p = Some vs \<Longrightarrow> lens_ok H vs \<Longrightarrow> unat n < length (chain_bytes H vs) \<Longrightarrow>
    \<exists>l vs' H'. skip_bytes L p n H = Some (Some l, H') \<and> cut_at H vs (unat n) l vs' H'"
proof (induction vs arbitrary: p n)
  case (Cons x vs)
  then obtain b where p: "p = Some x" "H x = Some b" "chain_list H (pb_next b) = Some vs" by (auto simp: chain_list_Cons)
  have len: "unat (pb_len b) \<le> length (pb_payload b)" using Cons.prems(2) p(2) by (auto simp: lens_ok_def)
  have x: "x \<notin> set vs" using chain_list_distinct [OF Cons.prems(1)] by simp
  have xb: "H(x \<mapsto> b) = H" using p(2) by (rule fun_upd_idem)
  show ?case
  proof (cases "n = 0")
    case True
    have "cut_at H (x # vs) 0 x vs H" unfolding cut_at_def
      by (rule exI [of _ "[]"], rule exI [of _ b], rule exI [of _ b]) (use p len xb in simp)
    then show ?thesis using True p by (auto simp: skip_bytes.simps [of L "Some x"])
  next
    case False
    show ?thesis
    proof (cases "n \<ge> pb_len b")
      case True
      have u: "unat (n - pb_len b) = unat n - unat (pb_len b)" using True by (intro unat_minus_le) (simp add: word_le_nat_alt)
      have le: "unat (pb_len b) \<le> unat n" using True by (simp add: word_le_nat_alt)
      have "unat (n - pb_len b) < length (chain_bytes H vs)" using Cons.prems(3) u le p(2) pb_data_length [OF len] by simp
      moreover have "lens_ok H vs" using Cons.prems(2) by (simp add: lens_ok_def)
      ultimately obtain l vs' H' where s: "skip_bytes L (pb_next b) (n - pb_len b) H = Some (Some l, H')"
        and c: "cut_at H vs (unat (n - pb_len b)) l vs' H'" using Cons.IH [OF p(3)] by blast
      obtain us d d' where d: "vs = us @ l # vs'" "H l = Some d" "H' = H(l \<mapsto> d')" "pb_next d' = pb_next d"
        "chain_bytes H' (l # vs') = drop (unat (n - pb_len b)) (chain_bytes H vs)" "unat (pb_len d') \<le> length (pb_payload d')"
        using c unfolding cut_at_def by blast
      have "drop (unat n) (chain_bytes H (x # vs)) = drop (unat (n - pb_len b)) (chain_bytes H vs)"
        using p(2) u le pb_data_length [OF len] by simp
      then have "cut_at H (x # vs) (unat n) l vs' H'" unfolding cut_at_def
        by (intro exI [of _ "x # us"] exI [of _ d] exI [of _ d']) (use d in simp)
      then show ?thesis using False True p s by (auto simp: skip_bytes.simps [of L "Some x"])
    next
      case cut: False
      let ?b = "pbuf_remove_header L n b"
      have b': "?b = b\<lparr>pb_payload := drop (unat n) (pb_payload b), pb_len := pb_len b - n, pb_tot_len := pb_tot_len b - n\<rparr>"
        using cut by (intro lwip_okD5 [OF L, rule_format]) simp
      have u: "unat (pb_len b - n) = unat (pb_len b) - unat n" using cut by (intro unat_minus_le) (simp add: word_le_nat_alt)
      have "unat n < unat (pb_len b)" using cut by (simp add: word_less_nat_alt not_le)
      then have "chain_bytes (H(x \<mapsto> ?b)) (x # vs) = drop (unat n) (chain_bytes H (x # vs))"
        using p(2) len by (simp add: chain_bytes_upd_other [OF x] b' pb_data_def u drop_take)
      then have "cut_at H (x # vs) (unat n) x vs (H(x \<mapsto> ?b))" unfolding cut_at_def
        by (intro exI [of _ "[]"] exI [of _ b] exI [of _ ?b]) (use p len in \<open>simp add: b' u\<close>)
      then show ?thesis using False cut p by (auto simp: skip_bytes.simps [of L "Some x"])
    qed
  qed
qed (simp add: chain_list_Nil)

lemma pbuf_free_partial_law:
  assumes L: "lwip_ok L" and "chain_list H (Some p) = Some vs" "lens_ok H vs" "H p = Some b"
    and t: "unat (pb_tot_len b) = length (chain_bytes H vs)" and n: "unat n < length (chain_bytes H vs)"
  shows "\<exists>l vs' H' d. pbuf_free_partial L p n H = Some (Some l, H') \<and> cut_at H vs (unat n) l vs' H' \<and> H' l = Some d \<and>
    unat (pb_tot_len d) = length (chain_bytes H' (l # vs'))"
proof -
  obtain l vs' H1 where s: "skip_bytes L (Some p) n H = Some (Some l, H1)" and c: "cut_at H vs (unat n) l vs' H1"
    using skip_bytes_law [OF L assms(2,3) n] by blast
  obtain us c' d where d: "vs = us @ l # vs'" "H l = Some c'" "H1 = H(l \<mapsto> d)" "pb_next d = pb_next c'"
    "chain_bytes H1 (l # vs') = drop (unat n) (chain_bytes H vs)" "unat (pb_len d) \<le> length (pb_payload d)"
    using c unfolding cut_at_def by blast
  let ?d = "d\<lparr>pb_tot_len := pb_tot_len b - n\<rparr>" and ?H = "H(l \<mapsto> d\<lparr>pb_tot_len := pb_tot_len b - n\<rparr>)"
  have l: "l \<notin> set vs'" using chain_list_distinct [OF assms(2)] d(1) by simp
  have bytes: "chain_bytes ?H (l # vs') = chain_bytes H1 (l # vs')"
    by (simp add: d(3) chain_bytes_upd_other [OF l] pb_data_def)
  have "unat (pb_tot_len b - n) = unat (pb_tot_len b) - unat n" using t n by (intro unat_minus_le) simp
  then have "unat (pb_tot_len ?d) = length (chain_bytes ?H (l # vs'))" unfolding bytes d(5) using t by simp
  moreover have "cut_at H vs (unat n) l vs' ?H" unfolding cut_at_def
    by (intro exI [of _ us] exI [of _ c'] exI [of _ ?d]) (use d bytes in simp)
  moreover have "pbuf_free_partial L p n H = Some (Some l, ?H)"
    by (simp add: pbuf_free_partial_def assms(4) s d(3))
  ultimately show ?thesis by auto
qed
section \<open>The reader's invariant\<close>

definition whole :: "pbuf_heap \<Rightarrow> (addr \<Rightarrow> addr list) \<Rightarrow> addr \<Rightarrow> bool" where
  "whole H C p \<longleftrightarrow> (\<exists>b. H p = Some b \<and> unat (pb_tot_len b) = length (chain_bytes H (C p)) \<and> lens_ok H (C p))"

text \<open>The packet in hand is the only one between the two reader cursors; \<open>Q\<close> are its bytes still to be read.\<close>

definition reading :: "pbuf_heap \<Rightarrow> (addr \<Rightarrow> addr list) \<Rightarrow> addr list \<Rightarrow> addr option \<Rightarrow> u8 list \<Rightarrow> bool" where
  "reading H C ir ld Q \<longleftrightarrow>
     (case ld of
        None \<Rightarrow> ir = [] \<and> Q = []
      | Some l \<Rightarrow> \<exists>q us vs b. ir = [q] \<and> C q = us @ vs \<and> chain_list H (Some l) = Some vs \<and> H l = Some b \<and>
          unat (pb_tot_len b) = length (chain_bytes H vs) \<and> lens_ok H vs \<and> Q = chain_bytes H vs)"

definition bytes_of :: "pbuf_heap \<Rightarrow> (addr \<Rightarrow> addr list) \<Rightarrow> addr list \<Rightarrow> u8 list" where
  "bytes_of H C ps = concat (map (\<lambda>p. chain_bytes H (C p)) ps)"

definition packets_ok :: "addr ring_elems \<Rightarrow> (addr \<Rightarrow> addr list) \<Rightarrow> addr list \<Rightarrow> addr rte_ring \<Rightarrow> pbuf_heap \<Rightarrow> bool" where
  "packets_ok R C X r H \<longleftrightarrow> ring_inv R r \<and> chains_ok H C (ring_contents R r @ X) \<and> (\<forall>p \<in> set (lent R r @ X). whole H C p)"

definition core_inv :: "addr ring_elems \<Rightarrow> (addr \<Rightarrow> addr list) \<Rightarrow> addr list \<Rightarrow> rx_core \<Rightarrow> u8 list \<Rightarrow> bool" where
  "core_inv R C X c Q \<longleftrightarrow> packets_ok R C X (rring c) (heap c) \<and>
     reading (heap c) C (in_read R (rring c)) (lastdata c) Q"

definition unread :: "addr ring_elems \<Rightarrow> (addr \<Rightarrow> addr list) \<Rightarrow> rx_core \<Rightarrow> u8 list \<Rightarrow> u8 list" where
  "unread R C c Q = Q @ bytes_of (heap c) C (lent R (rring c))"

lemma bytes_of_simps [simp]:
  "bytes_of H C [] = []" "bytes_of H C (p # ps) = chain_bytes H (C p) @ bytes_of H C ps"
  "bytes_of H C (ps @ qs) = bytes_of H C ps @ bytes_of H C qs"
  by (simp_all add: bytes_of_def)

lemma bytes_of_cong: "(\<And>x. x \<in> owned C ps \<Longrightarrow> H' x = H x) \<Longrightarrow> bytes_of H' C ps = bytes_of H C ps"
  unfolding bytes_of_def owned_def by (intro arg_cong [where f = concat] map_cong refl chain_bytes_cong) auto

lemma lens_ok_cong: "lens_ok H ps \<Longrightarrow> (\<And>x. x \<in> set ps \<Longrightarrow> H' x = H x) \<Longrightarrow> lens_ok H' ps"
  by (simp add: lens_ok_def)

lemma whole_cong:
  assumes "whole H C p" "p \<in> set (C p)" "\<And>x. x \<in> set (C p) \<Longrightarrow> H' x = H x"
  shows "whole H' C p"
  using assms lens_ok_cong [of H "C p" H'] chain_bytes_cong [of "C p" H' H] by (auto simp: whole_def)

lemma chains_ok_head: "chains_ok H C ps \<Longrightarrow> p \<in> set ps \<Longrightarrow> p \<in> set (C p)"
  using chain_list_Some [of H p "C p"] by (auto simp: chains_ok_def)

lemma next_pbuf_none:
  assumes "core_inv R C X c Q" and "next_pbuf R c = None"
  shows "unread R C c Q = []"
proof -
  have I: "ring_inv R (rring c)" using assms(1) by (simp add: core_inv_def packets_ok_def)
  have none: "lastdata c = None" using assms(2) by (auto simp: next_pbuf_def split: option.splits)
  obtain k ps r where g: "gazelle_ring_read R (rring c) 1 = (k, ps, r)" by (metis prod_cases3)
  have "k \<noteq> 1" using assms(2) none g by (auto simp: next_pbuf_def split: if_splits)
  note A = ring_law_read [OF I g]
  have "length ps \<le> 1" using A(1) by simp
  moreover have "unat k \<noteq> 1" using \<open>k \<noteq> 1\<close> by (metis unat_1 word_unat_eq_iff)
  ultimately have "ps = []" using A(2) by (cases ps) auto
  then have "lent R (rring c) = []" using A(1) by (cases "lent R (rring c)") auto
  then show ?thesis using assms(1) none by (simp add: unread_def core_inv_def reading_def)
qed

lemma next_pbuf_some:
  assumes "core_inv R C X c Q" and "next_pbuf R c = Some (p, c')"
  shows "packets_ok R C X (rring c') (heap c') \<and> lastdata c' = None \<and> heap c' = heap c \<and> cur c' = Some p \<and>
    ring_contents R (rring c') = ring_contents R (rring c) \<and>
    (\<exists>Q'. reading (heap c') C (in_read R (rring c')) (Some p) Q' \<and> unread R C c' Q' = unread R C c Q)"
proof (cases "lastdata c")
  case (Some l)
  then have "p = l" "c' = c\<lparr>lastdata := None, cur := Some l\<rparr>" using assms(2) by (auto simp: next_pbuf_def)
  then show ?thesis using assms(1) Some by (auto simp: core_inv_def unread_def intro!: exI [of _ Q])
next
  case None
  have P: "packets_ok R C X (rring c) (heap c)" and rd: "in_read R (rring c) = []" "Q = []"
    using assms(1) None by (simp_all add: core_inv_def reading_def)
  then have I: "ring_inv R (rring c)" by (simp add: packets_ok_def)
  obtain k ps r where g: "gazelle_ring_read R (rring c) 1 = (k, ps, r)" by (metis prod_cases3)
  have k: "k = 1" "p = hd ps" "c' = c\<lparr>rring := r, cur := Some (hd ps)\<rparr>"
    using assms(2) None g by (auto simp: next_pbuf_def split: if_splits)
  note A = ring_law_read [OF I g]
  obtain l ls where l: "lent R (rring c) = l # ls" "ps = [l]" using A(1,2) k(1) by (cases "lent R (rring c)") auto
  have rc: "ring_contents R r = ring_contents R (rring c)" by (simp add: ring_contents_def A(4,5,6) l rd)
  have lr: "lent R r = ls" using A(4) l by simp
  have pk: "packets_ok R C X r (heap c)" using P A(3) rc lr l by (simp add: packets_ok_def)
  have w: "whole (heap c) C l" and ch: "chain_list (heap c) (Some l) = Some (C l)"
    using P l by (auto simp: packets_ok_def chains_ok_def ring_contents_def)
  then have "reading (heap c) C (in_read R r) (Some l) (chain_bytes (heap c) (C l))"
    using A(5) rd l unfolding reading_def whole_def by (auto intro!: exI [of _ "[]"])
  then show ?thesis using k pk rc lr l rd None by (auto simp: unread_def intro!: exI [of _ "chain_bytes (heap c) (C l)"])
qed
lemma chains_ok_links:
  assumes "chains_ok H C ps" and "\<And>x b. H x = Some b \<Longrightarrow> \<exists>b'. H' x = Some b' \<and> pb_next b' = pb_next b"
  shows "chains_ok H' C ps"
  using assms(1) chain_list_cong [OF _ assms(2)] by (auto simp: chains_ok_def)

lemma others_disjoint:
  assumes "chains_ok H C (ring_contents R r @ X)" and "in_read R r = [q]" and "p \<in> set (lent R r @ X)"
  shows "set (C p) \<inter> set (C q) = {}"
  using assms by (auto simp: chains_ok_def ring_contents_def)

lemma cut_packet:
  assumes L: "lwip_ok L" and P: "packets_ok R C X r H" and rd: "reading H C (in_read R r) (Some p) Q" and n: "unat n < length Q"
  shows "\<exists>l H'. pbuf_free_partial L p n H = Some (Some l, H') \<and> packets_ok R C X r H' \<and>
    reading H' C (in_read R r) (Some l) (drop (unat n) Q) \<and>
    bytes_of H' C (lent R r) = bytes_of H C (lent R r) \<and> bytes_of H' C X = bytes_of H C X \<and>
    (\<forall>x. x \<notin> owned C (in_read R r) \<longrightarrow> H' x = H x) \<and> dom H' = dom H"
proof -
  obtain q us vs b where q: "in_read R r = [q]" "C q = us @ vs" "chain_list H (Some p) = Some vs" "H p = Some b"
    "unat (pb_tot_len b) = length (chain_bytes H vs)" "lens_ok H vs" "Q = chain_bytes H vs"
    using rd unfolding reading_def option.case by blast
  obtain l vs' H' d where s: "pbuf_free_partial L p n H = Some (Some l, H')" and c: "cut_at H vs (unat n) l vs' H'"
    and d: "H' l = Some d" "unat (pb_tot_len d) = length (chain_bytes H' (l # vs'))"
    using pbuf_free_partial_law [OF L q(3,6,4,5)] n q(7) by blast
  obtain us' e e' where e: "vs = us' @ l # vs'" "H l = Some e" "H' = H(l \<mapsto> e')" "pb_next e' = pb_next e"
    "chain_bytes H' (l # vs') = drop (unat n) (chain_bytes H vs)" "unat (pb_len e') \<le> length (pb_payload e')"
    using c unfolding cut_at_def by blast
  have links: "\<exists>b'. H' x = Some b' \<and> pb_next b' = pb_next b" if "H x = Some b" for x b using that e by auto
  have ch: "chains_ok H C (ring_contents R r @ X)" using P by (simp add: packets_ok_def)
  have l: "l \<in> set (C q)" using q(2) e(1) by simp
  have other: "H' x = H x" if "p \<in> set (lent R r @ X)" "x \<in> set (C p)" for x p
    using others_disjoint [OF ch q(1) that(1)] that(2) l e(3) by auto
  have "whole H' C p" if "p \<in> set (lent R r @ X)" for p
  proof (rule whole_cong)
    show "whole H C p" using P that by (simp add: packets_ok_def)
    show "p \<in> set (C p)" by (rule chains_ok_head [OF ch]) (use that in \<open>auto simp: ring_contents_def\<close>)
  qed (rule other [OF that])
  then have P': "packets_ok R C X r H'" using P chains_ok_links [OF ch, of H', OF links] by (simp add: packets_ok_def)
  have "chain_list H (Some l) = Some (l # vs')" using chain_list_suffix [of H "Some p" us' "l # vs'"] q(3) e(1) by auto
  then have "chain_list H' (Some l) = Some (l # vs')" by (rule chain_list_cong) (rule links)
  moreover have "lens_ok H' (l # vs')" using q(6) e(1,3,6) by (auto simp: lens_ok_def)
  ultimately have "reading H' C (in_read R r) (Some l) (drop (unat n) Q)"
    unfolding reading_def option.case
    by (intro exI [of _ q] exI [of _ "us @ us'"] exI [of _ "l # vs'"] exI [of _ d]) (use q e(1,5) d in simp)
  moreover have "bytes_of H' C (lent R r) = bytes_of H C (lent R r)" "bytes_of H' C X = bytes_of H C X"
    by (rule bytes_of_cong; use other in \<open>auto simp: owned_def\<close>)+
  moreover have "dom H' = dom H" using e(2,3) by auto
  ultimately show ?thesis using s P' l q(1) e(3) by (auto simp: owned_def)
qed

lemma finish_packet:
  assumes P: "packets_ok R C X r H" and rd: "reading H C (in_read R r) (Some p) Q"
  shows "packets_ok R C X (gazelle_ring_read_over r) H" and "reading H C (in_read R (gazelle_ring_read_over r)) None []"
    and "lent R (gazelle_ring_read_over r) = lent R r" and "ring_contents R (gazelle_ring_read_over r) = ring_contents R r"
proof -
  note O = ring_law_read_over [of R r]
  have I: "ring_inv R r" using P by (simp add: packets_ok_def)
  show rc: "ring_contents R (gazelle_ring_read_over r) = ring_contents R r" by (simp add: ring_contents_def O [OF I])
  show "lent R (gazelle_ring_read_over r) = lent R r" by (rule O(4) [OF I])
  show "packets_ok R C X (gazelle_ring_read_over r) H" using P O [OF I] rc by (simp add: packets_ok_def)
  show "reading H C (in_read R (gazelle_ring_read_over r)) None []" by (simp add: reading_def O(3) [OF I])
qed
lemma read_loop_law:
  assumes L: "lwip_ok L"
  shows "core_inv R C X c Q \<Longrightarrow> \<exists>xs c' Q'. read_loop R L n c = Some (length xs, xs, c') \<and> core_inv R C X c' Q' \<and>
    xs = take n (unread R C c Q) \<and> unread R C c' Q' = drop n (unread R C c Q) \<and>
    ring_contents R (rring c') = ring_contents R (rring c) \<and> dom (heap c') = dom (heap c) \<and>
    bytes_of (heap c') C X = bytes_of (heap c) C X \<and> (cur c' = cur c \<or> (\<exists>p \<in> dom (heap c). cur c' = Some p))"
proof (induction "rx_left c" arbitrary: n c Q rule: less_induct)
  case less
  show ?case
  proof (cases "n = 0")
    case True
    then show ?thesis using less.prems by (simp add: read_loop.simps [of R L 0 c]) blast
  next
    case n: False
    show ?thesis
    proof (cases "next_pbuf R c")
      case None
      then show ?thesis using less.prems next_pbuf_none [OF less.prems None] n
        by (auto simp: read_loop.simps [of R L n c] intro!: exI [of _ Q])
    next
      case (Some pc)
      then obtain p c1 where nx: "next_pbuf R c = Some (p, c1)" by (cases pc) auto
      obtain Q1 where P: "packets_ok R C X (rring c1) (heap c1)" and c1: "lastdata c1 = None" "heap c1 = heap c" "cur c1 = Some p"
        "ring_contents R (rring c1) = ring_contents R (rring c)"
        and rd: "reading (heap c1) C (in_read R (rring c1)) (Some p) Q1" and un: "unread R C c1 Q1 = unread R C c Q"
        using next_pbuf_some [OF less.prems nx] by blast
      obtain vs b where b: "heap c1 p = Some b" "chain_list (heap c1) (Some p) = Some vs"
        "unat (pb_tot_len b) = length (chain_bytes (heap c1) vs)" "Q1 = chain_bytes (heap c1) vs"
        using rd unfolding reading_def option.case by blast
      have tot: "unat (pb_tot_len b) = length Q1" "unat (pb_tot_len b) < 65536"
        using b(3,4) unsigned_less [of "pb_tot_len b", where ?'a = nat] by simp_all
      let ?n = "min (if n > unat (pb_tot_len b) then unat (pb_tot_len b) else n) 65535"
      have cl: "?n = min n (length Q1)" using tot by (auto simp: min_def)
      have wn: "unat (word_of_nat ?n :: u16) = ?n" using tot by (simp add: unat_of_nat cl min_def)
      have tk: "take (min n (length Q1)) Q1 = take n Q1" by (simp add: min_def)
      have xs: "pbuf_copy_partial L (heap c1) p (word_of_nat ?n) 0 = take n Q1"
        using lwip_okD4 [OF L, rule_format, OF b(2), of "word_of_nat ?n"] wn b(4) cl tk by simp
      have uq: "unread R C c Q = Q1 @ bytes_of (heap c1) C (lent R (rring c1))" unfolding un [symmetric] by (simp add: unread_def)
      show ?thesis
      proof (cases "unat (pb_tot_len b) > ?n")
        case True
        then have lt: "unat (word_of_nat ?n :: u16) < length Q1" and nn: "?n = n" using wn tot cl by (simp_all add: min_def split: if_splits)
        obtain l H' where cut: "pbuf_free_partial L p (word_of_nat ?n) (heap c1) = Some (Some l, H')"
          "packets_ok R C X (rring c1) H'" "reading H' C (in_read R (rring c1)) (Some l) (drop (unat (word_of_nat ?n :: u16)) Q1)"
          "bytes_of H' C (lent R (rring c1)) = bytes_of (heap c1) C (lent R (rring c1))" "bytes_of H' C X = bytes_of (heap c1) C X"
          "dom H' = dom (heap c1)"
          using cut_packet [OF L P rd lt] by blast
        let ?c = "c1\<lparr>lastdata := Some l, heap := H'\<rparr>"
        have r: "read_loop R L n c = Some (n, take n Q1, ?c)"
          using n nx b(1) True cut(1) xs nn by (simp add: read_loop.simps [of R L n c] Let_def cut_len)
        have "core_inv R C X ?c (drop n Q1)" using cut wn nn by (simp add: core_inv_def)
        moreover have "take n Q1 = take n (unread R C c Q)" "unread R C ?c (drop n Q1) = drop n (unread R C c Q)"
          using lt wn nn uq by (simp_all add: cut(4) unread_def [of R C ?c])
        moreover have "length (take n Q1) = n" using lt wn nn by simp
        ultimately show ?thesis
          by (intro exI [of _ "take n Q1"] exI [of _ ?c] exI [of _ "drop n Q1"]) (use r cut c1 b(1) in auto)
      next
        case False
        then have nn: "?n = length Q1" and le: "length Q1 \<le> n" using tot cl by (simp_all add: min_def split: if_splits)
        let ?c = "c1\<lparr>rring := gazelle_ring_read_over (rring c1), finished := finished c1 + 1\<rparr>"
        note F = finish_packet [OF P rd]
        have I: "core_inv R C X ?c []" using F c1 by (simp add: core_inv_def)
        have "rx_left ?c < rx_left c" using next_pbuf_left [OF nx] by (simp add: rx_left_def)
        from less.hyps [OF this I, of "n - length Q1"]
        obtain ys c' Q' where ih: "read_loop R L (n - length Q1) ?c = Some (length ys, ys, c')" "core_inv R C X c' Q'"
          "ys = take (n - length Q1) (unread R C ?c [])" "unread R C c' Q' = drop (n - length Q1) (unread R C ?c [])"
          "ring_contents R (rring c') = ring_contents R (rring ?c)" "dom (heap c') = dom (heap ?c)"
          "bytes_of (heap c') C X = bytes_of (heap ?c) C X" "cur c' = cur ?c \<or> (\<exists>p \<in> dom (heap ?c). cur c' = Some p)" by blast
        have r: "read_loop R L n c = Some (length Q1 + length ys, Q1 @ ys, c')"
          using n nx b(1) False ih(1) xs nn le by (simp add: read_loop.simps [of R L n c] Let_def cut_len)
        have u: "unread R C c Q = Q1 @ unread R C ?c []" using F(3) by (simp add: uq unread_def [of R C ?c])
        show ?thesis
          by (rule exI [of _ "Q1 @ ys"], rule exI [of _ c'], rule exI [of _ Q'])
            (use r ih F(4) c1 b(1) le in \<open>auto simp: u\<close>)
      qed
    qed
  qed
qed
section \<open>The application's read\<close>

text \<open>
  Everything a socket has received and the application has not read: \<open>R\<close> in the ring, \<open>M\<close> in lwip's
  mailbox, whose packets \<open>pend\<close> lists.
\<close>

definition core_of :: "ep_sock \<Rightarrow> pbuf_heap \<Rightarrow> rx_core" where
  "core_of s H = \<lparr>rring = recv_ring s, lastdata = recv_lastdata s, heap = H, finished = 0, cur = None\<rparr>"

lemma core_of_simps [simp]:
  "rring (core_of s H) = recv_ring s" "lastdata (core_of s H) = recv_lastdata s" "heap (core_of s H) = H" "cur (core_of s H) = None"
  by (simp_all add: core_of_def)

definition sock_alive :: "addr \<Rightarrow> 'm io_state \<Rightarrow> ep_sock \<Rightarrow> bool" where
  "sock_alive a S s \<longleftrightarrow> socks (ep S) a = Some s \<and> conn s \<noteq> None \<and> (\<forall>w. wakeup s = Some w \<longrightarrow> polls (ep S) w \<noteq> None)"

definition rx_inv :: "'m io_env \<Rightarrow> ('m \<Rightarrow> addr list) \<Rightarrow> addr \<Rightarrow> 'm io_state \<Rightarrow> u8 list \<Rightarrow> u8 list \<Rightarrow> bool" where
  "rx_inv E pend a S R M \<longleftrightarrow>
     (\<exists>s C m Q. sock_alive a S s \<and> recvmbox S a = Some m \<and> node_rx S a = None \<and>
        core_inv (elems E) C (pend m) (core_of s (pbufs S)) Q \<and>
        R = unread (elems E) C (core_of s (pbufs S)) Q \<and> M = bytes_of (pbufs S) C (pend m))"

definition same_io :: "ep_sock \<Rightarrow> ep_sock \<Rightarrow> bool" where
  "same_io s t \<longleftrightarrow> recv_ring t = recv_ring s \<and> recv_lastdata t = recv_lastdata s \<and> conn t = conn s \<and> wakeup t = wakeup s"

lemma same_io_core: "same_io s t \<Longrightarrow> core_of t H = core_of s H"
  by (simp add: same_io_def core_of_def)

lemma same_io_refl [simp]: "same_io s s"
  by (simp add: same_io_def)

lemma del_data_in_event_frame:
  assumes "socks X a = Some s" "wakeup s = Some w" "polls X w \<noteq> None"
  shows "\<exists>Y t. del_data_in_event a X = Some Y \<and> socks Y a = Some t \<and> same_io s t \<and> dom (polls Y) = dom (polls X)"
proof -
  obtain p where p: "polls X w = Some p" using assms(3) by auto
  let ?X = "sock_upd a (\<lambda>s. s\<lparr>events := events s AND NOT epollin\<rparr>) X"
  have s1: "socks ?X a = Some (s\<lparr>events := events s AND NOT epollin\<rparr>)" using assms(1) by (simp add: sock_upd_def)
  have "\<exists>t. socks (unlink_event a ?X) a = Some t \<and> same_io s t" using s1
    by (auto simp: unlink_event_def sock_upd_def poll_upd_def same_io_def split: option.splits)
  moreover have "dom (polls (unlink_event a ?X)) = dom (polls X)"
    by (auto simp: unlink_event_def sock_upd_def poll_upd_def dom_def split: option.splits if_splits)
  moreover have "same_io s (s\<lparr>events := events s AND NOT epollin\<rparr>)" "dom (polls ?X) = dom (polls X)"
    by (simp_all add: same_io_def sock_upd_def)
  ultimately show ?thesis using assms p s1 by (auto simp: del_data_in_event_def Let_def)
qed

lemma in_event_check_frame:
  assumes "sock_alive a S s"
  shows "\<exists>e t. in_event_check a S = Some (S\<lparr>ep := e\<rparr>) \<and> sock_alive a (S\<lparr>ep := e\<rparr>) t \<and> same_io s t"
proof -
  have s: "socks (ep S) a = Some s" using assms by (simp add: sock_alive_def)
  have id: "S = S\<lparr>ep := ep S\<rparr>" by simp
  show ?thesis
  proof (cases "wakeup s")
    case None
    then have "in_event_check a S = Some (S\<lparr>ep := ep S\<rparr>)" using s by (simp add: in_event_check_def)
    then show ?thesis using assms by (intro exI [of _ "ep S"] exI [of _ s]) simp
  next
    case (Some w)
    then obtain p where p: "polls (ep S) w = Some p" using assms by (auto simp: sock_alive_def)
    show ?thesis
    proof (cases "wtype p = Wakeup_epoll \<and> events s AND epollin \<noteq> 0")
      case True
      obtain Y t where Y: "del_data_in_event a (ep S) = Some Y" "socks Y a = Some t" "same_io s t" "dom (polls Y) = dom (polls (ep S))"
        using del_data_in_event_frame [OF s Some] p by auto
      have "sock_alive a (S\<lparr>ep := Y\<rparr>) t" using assms Y by (auto simp: sock_alive_def same_io_def)
      then show ?thesis using s Some p True Y by (intro exI [of _ Y] exI [of _ t]) (simp add: in_event_check_def)
    next
      case False
      then have "in_event_check a S = Some (S\<lparr>ep := ep S\<rparr>)" using s Some p by (auto simp: in_event_check_def)
      then show ?thesis using assms by (intro exI [of _ "ep S"] exI [of _ s]) simp
    qed
  qed
qed

lemma bind_frame [simp]:
  "ep (thread_bind_stack E a S) = ep S" "pbufs (thread_bind_stack E a S) = pbufs S"
  "recvmbox (thread_bind_stack E a S) = recvmbox S" "node_rx (thread_bind_stack E a S) = node_rx S"
  by (simp_all add: thread_bind_stack_def Let_def split: option.splits)

lemma app_stat_frame [simp]:
  "ep (app_stat_upd w f S) = ep S" "pbufs (app_stat_upd w f S) = pbufs S"
  "recvmbox (app_stat_upd w f S) = recvmbox S" "node_rx (app_stat_upd w f S) = node_rx S"
  by (simp_all add: app_stat_upd_def split: option.splits)

lemma sock_alive_cong: "ep S' = ep S \<Longrightarrow> sock_alive a S' s = sock_alive a S s"
  by (simp add: sock_alive_def)
text \<open>-1 when there is nothing, 0 when moreover the connection has an error.\<close>

definition read_result :: "u8 list \<Rightarrow> ep_sock \<Rightarrow> int" where
  "read_result xs s = (if xs \<noteq> [] then int (length xs)
     else if 0 < sint (errevent s) \<and> \<not> netconn_is_datain s then 0 else -1)"

lemma nothing_unread:
  assumes "core_inv R C X (core_of s H) Q" and "\<not> netconn_is_datain s"
  shows "unread R C (core_of s H) Q = []"
proof -
  have "ring_inv R (recv_ring s)" using assms(1) by (simp add: core_inv_def packets_ok_def)
  then have "lent R (recv_ring s) = []" using readable_lent [of R "recv_ring s"] assms(2) by (simp add: netconn_is_datain_def)
  moreover have "Q = []" using assms by (simp add: core_inv_def reading_def netconn_is_datain_def)
  ultimately show ?thesis by (simp add: unread_def)
qed

lemma read_stack_law:
  assumes "lwip_ok (lwip E)" and "rx_inv E pend a S R M" and "socks (ep S) a = Some s'"
  shows "\<exists>adr S'. let xs = take (unat len) R in
    read_stack_data E a len S = Some (read_result xs s', xs, adr, S') \<and>
    rx_inv E pend a S' (drop (unat len) R) M"
proof -
  obtain s C m Q where s: "sock_alive a S s" and m: "recvmbox S a = Some m" "node_rx S a = None"
    and I: "core_inv (elems E) C (pend m) (core_of s (pbufs S)) Q"
    and R: "R = unread (elems E) C (core_of s (pbufs S)) Q" and M: "M = bytes_of (pbufs S) C (pend m)"
    using assms(2) unfolding rx_inv_def by blast
  have sa: "socks (ep S) a = Some s" "s' = s" using s assms(3) by (simp_all add: sock_alive_def)
  show ?thesis
  proof (cases "0 < sint (errevent s) \<and> \<not> netconn_is_datain s")
    case True
    then have "R = []" using nothing_unread [OF I] R by simp
    then show ?thesis using True sa assms(2) by (simp add: read_stack_data_def read_result_def)
  next
    case noerr: False
    let ?n = "unat len" and ?T = "thread_bind_stack E a S"
    obtain xs c Q' where l: "read_loop (elems E) (lwip E) ?n (core_of s (pbufs S)) = Some (length xs, xs, c)"
      and J: "core_inv (elems E) C (pend m) c Q'" and xs: "xs = take ?n R" and un: "unread (elems E) C c Q' = drop ?n R"
      and d: "dom (heap c) = dom (pbufs S)" and bm: "bytes_of (heap c) C (pend m) = M"
      and cu: "cur c = None \<or> (\<exists>p \<in> dom (pbufs S). cur c = Some p)"
      using read_loop_law [OF assms(1) I, of ?n] unfolding R M core_of_simps by blast
    let ?s = "s\<lparr>recv_ring := rring c, recv_lastdata := lastdata c\<rparr>"
    let ?U = "app_stat_upd (wakeup s) (\<lambda>t. t\<lparr>app_read_cnt := app_read_cnt t + finished c\<rparr>)
        (?T\<lparr>ep := sock_upd a (\<lambda>s. s\<lparr>recv_ring := rring c, recv_lastdata := lastdata c\<rparr>) (ep S), pbufs := heap c\<rparr>)"
    have U: "sock_alive a ?U ?s" using s by (auto simp: sock_alive_def sock_upd_def)
    obtain e t where ec: "in_event_check a ?U = Some (?U\<lparr>ep := e\<rparr>)" and t: "sock_alive a (?U\<lparr>ep := e\<rparr>) t" "same_io ?s t"
      using in_event_check_frame [OF U] by blast
    obtain adr where adr: "(case cur c of None \<Rightarrow> Some None | Some p \<Rightarrow> map_option (\<lambda>b. Some (pb_addr b, pb_port b)) (heap c p)) = Some adr"
      using cu unfolding d [symmetric] by auto
    let ?V = "if xs = [] then app_stat_upd (wakeup s) (\<lambda>t. t\<lparr>read_null := read_null t + 1\<rparr>) (?U\<lparr>ep := e\<rparr>) else ?U\<lparr>ep := e\<rparr>"
    have rr: "read_result xs s = (if xs = [] then -1 else int (length xs))" using noerr by (auto simp: read_result_def)
    have call: "read_stack_data E a len S = Some (read_result xs s, xs, adr, ?V)"
      unfolding read_stack_data_def using sa m(2) l ec adr by (simp add: if_not_P [OF noerr] core_of_def rr)
    have "core_of t (heap c) = core_of ?s (heap c)" by (rule same_io_core [OF t(2)])
    also have "\<dots> = \<lparr>rring = rring c, lastdata = lastdata c, heap = heap c, finished = 0, cur = None\<rparr>" by (simp add: core_of_def)
    finally have ct: "core_inv (elems E) C (pend m) (core_of t (heap c)) Q'" "unread (elems E) C (core_of t (heap c)) Q' = drop ?n R"
      using J un by (simp_all add: core_inv_def unread_def)
    have "rx_inv E pend a ?V (drop ?n R) M" unfolding rx_inv_def
      by (rule exI [of _ t], rule exI [of _ C], rule exI [of _ m], rule exI [of _ Q'])
        (use t(1) m ct bm in \<open>simp add: sock_alive_def\<close>)
    with call xs sa show ?thesis unfolding Let_def by blast
  qed
qed

section \<open>The stack thread's move from the mailbox to the ring\<close>

text \<open>The mailbox gives its packets in order, and an error takes none.\<close>

definition mailbox_ok :: "'m io_env \<Rightarrow> ('m \<Rightarrow> addr list) \<Rightarrow> bool" where
  "mailbox_ok E pend \<longleftrightarrow> (\<forall>m fl. case netconn_recv E m fl of
      (Recv_ok a, m') \<Rightarrow> pend m = a # pend m'
    | (_, m') \<Rightarrow> pend m' = pend m)"

lemma chains_ok_sub:
  "chains_ok H C (ps @ qs) \<Longrightarrow> chains_ok H C ps" "chains_ok H C (ps @ qs) \<Longrightarrow> chains_ok H C qs"
  by (simp_all add: chains_ok_append)

text \<open>Freeing what the application has handed back leaves everything else as it was.\<close>

lemma free_readover_law:
  assumes L: "lwip_ok (lwip E)" and P: "packets_ok (elems E) C X r H" and rd: "reading H C (in_read (elems E) r) ld Q"
  shows "\<exists>r' H'. free_recv_ring_readover E r H = Some (r', H') \<and> packets_ok (elems E) C X r' H' \<and>
    reading H' C (in_read (elems E) r') ld Q \<and> lent (elems E) r' = lent (elems E) r \<and> in_read (elems E) r' = in_read (elems E) r \<and>
    bytes_of H' C (lent (elems E) r) = bytes_of H C (lent (elems E) r) \<and> bytes_of H' C X = bytes_of H C X"
proof -
  let ?R = "elems E"
  have I: "ring_inv ?R r" and ch: "chains_ok H C (ring_contents ?R r @ X)" and wh: "\<forall>p \<in> set (lent ?R r @ X). whole H C p"
    using P by (simp_all add: packets_ok_def)
  obtain k ps r' where d: "gazelle_ring_sc_dequeue ?R r (recv_burst E) = (k, ps, r')" by (metis prod_cases3)
  note A = ring_law_dequeue [OF I d]
  have split: "ring_contents ?R r = ps @ ring_contents ?R r'" using A(1,4,5,6) by (simp add: ring_contents_def)
  let ?rest = "ring_contents ?R r' @ X"
  have ch': "chains_ok H C ps" "chains_ok H C ?rest" "owned C ps \<inter> owned C ?rest = {}"
    using ch unfolding split by (simp_all add: chains_ok_append Int_Un_distrib Int_Un_distrib2)
  let ?H = "H |` (- owned C ps)"
  have f: "free_pbufs (lwip E) ps H = Some ?H"
    using free_chains [OF L, of ps H C] ch'(1) by (simp add: chains_ok_def owned_def)
  have same: "?H x = H x" if "x \<in> owned C ?rest" for x using that ch'(3) by (auto simp: restrict_map_def)
  have c2: "chains_ok ?H C ?rest" by (rule chains_ok_heap [OF ch'(2) same])
  have part: "?H x = H x" if "p \<in> set ?rest" "x \<in> set (C p)" for p x using same that unfolding owned_def by blast
  have w2: "whole ?H C p" if "p \<in> set (lent ?R r' @ X)" for p
  proof (rule whole_cong)
    show "whole H C p" using wh that A(6) by simp
    have "p \<in> set ?rest" using that by (auto simp: ring_contents_def)
    then show "p \<in> set (C p)" by (rule chains_ok_head [OF ch'(2)])
    show "?H x = H x" if "x \<in> set (C p)" for x using part [OF \<open>p \<in> set ?rest\<close> that] .
  qed
  have rd2: "reading ?H C (in_read ?R r') ld Q"
  proof (cases ld)
    case None
    then show ?thesis using rd by (simp add: reading_def A(5))
  next
    case (Some l)
    then obtain q us vs b where q: "in_read ?R r = [q]" "C q = us @ vs" "chain_list H (Some l) = Some vs" "H l = Some b"
      "unat (pb_tot_len b) = length (chain_bytes H vs)" "lens_ok H vs" "Q = chain_bytes H vs"
      using rd unfolding reading_def by auto
    have "q \<in> set ?rest" using q(1) A(5) by (simp add: ring_contents_def)
    then have eq: "?H x = H x" if "x \<in> set vs" for x using part that q(2) by simp
    have "l \<in> set vs" using q(3) by (auto simp: chain_list_Some)
    then have "?H l = Some b" using eq q(4) by simp
    moreover have "chain_list ?H (Some l) = Some vs" by (rule chain_list_cong [OF q(3)]) (use eq in auto)
    moreover have "chain_bytes ?H vs = chain_bytes H vs" by (rule chain_bytes_cong) (rule eq)
    moreover have "lens_ok ?H vs" by (rule lens_ok_cong [OF q(6) eq])
    ultimately show ?thesis using Some q A(5) by (simp add: reading_def)
  qed
  have "bytes_of ?H C (lent ?R r) = bytes_of H C (lent ?R r)" "bytes_of ?H C X = bytes_of H C X"
    by (rule bytes_of_cong; rule same; use A(6) in \<open>auto simp: owned_def ring_contents_def\<close>)+
  then show ?thesis using f c2 w2 rd2 A by (auto simp: free_recv_ring_readover_def d packets_ok_def)
qed

lemma recv_loop_law:
  assumes M: "mailbox_ok E pend"
  shows "(\<forall>p \<in> set (pend m). whole H C p) \<Longrightarrow>
    \<exists>qs ret m'. recv_loop E H n fl acc k m = Some (acc @ qs, k + int (length (bytes_of H C qs)), ret, m') \<and>
      pend m = qs @ pend m' \<and> length qs \<le> n \<and> (ret \<noteq> None \<longrightarrow> k + int (length (bytes_of H C qs)) \<le> 0 \<and> (ret = Some 0 \<or> ret = Some (-1)))"
proof (induction n arbitrary: fl acc k m)
  case 0
  then show ?case by simp
next
  case (Suc n)
  obtain res m1 where g: "netconn_recv E m fl = (res, m1)" by (cases "netconn_recv E m fl")
  have law: "case netconn_recv E m fl of (Recv_ok a, m') \<Rightarrow> pend m = a # pend m' | (_, m') \<Rightarrow> pend m' = pend m"
    by (rule M [unfolded mailbox_ok_def, THEN spec, THEN spec])
  show ?case
  proof (cases res)
    case (Recv_ok a)
    have p: "pend m = a # pend m1" using law g Recv_ok by simp
    then obtain b where b: "H a = Some b" "unat (pb_tot_len b) = length (chain_bytes H (C a))"
      using Suc.prems by (auto simp: whole_def)
    have "\<forall>p \<in> set (pend m1). whole H C p" using Suc.prems p by simp
    from Suc.IH [OF this, of "fl OR more_flags E" "acc @ [a]" "k + uint (pb_tot_len b)"]
    obtain qs ret m' where ih: "recv_loop E H n (fl OR more_flags E) (acc @ [a]) (k + uint (pb_tot_len b)) m1 =
        Some ((acc @ [a]) @ qs, k + uint (pb_tot_len b) + int (length (bytes_of H C qs)), ret, m')"
      "pend m1 = qs @ pend m'" "length qs \<le> n"
      "ret \<noteq> None \<longrightarrow> k + uint (pb_tot_len b) + int (length (bytes_of H C qs)) \<le> 0 \<and> (ret = Some 0 \<or> ret = Some (-1))" by blast
    have "uint (pb_tot_len b) = int (length (chain_bytes H (C a)))" using b(2) by (metis uint_nat)
    then have eq: "k + uint (pb_tot_len b) + int (length (bytes_of H C qs)) = k + int (length (bytes_of H C (a # qs)))" by simp
    note ih' = ih(1,4) [unfolded eq]
    have r: "recv_loop E H (Suc n) fl acc k m = Some (acc @ a # qs, k + int (length (bytes_of H C (a # qs))), ret, m')"
      using g Recv_ok b(1) ih'(1) by (simp only: recv_loop.simps prod.case recv_result.case option.case append_assoc append_Cons append_Nil)
    show ?thesis
    proof (intro exI conjI)
      show "recv_loop E H (Suc n) fl acc k m = Some (acc @ a # qs, k + int (length (bytes_of H C (a # qs))), ret, m')" by (rule r)
      show "pend m = (a # qs) @ pend m'" using p ih(2) by simp
      show "length (a # qs) \<le> Suc n" using ih(3) by simp
      show "ret \<noteq> None \<longrightarrow> k + int (length (bytes_of H C (a # qs))) \<le> 0 \<and> (ret = Some 0 \<or> ret = Some (-1))" by (rule ih'(2))
    qed
  next
    case Recv_clsd
    then have "pend m1 = pend m" using law g by simp
    then show ?thesis using g Recv_clsd by (intro exI [of _ "[]"]) auto
  next
    case Recv_fail
    then have "pend m1 = pend m" using law g by simp
    then show ?thesis using g Recv_fail by (intro exI [of _ "[]"]) auto
  qed
qed
lemma enqueue_packets:
  assumes P: "packets_ok R C (ps @ X) r H" and room: "length ps \<le> unat (gazelle_ring_free_count r)"
  shows "\<exists>r'. gazelle_ring_sp_enqueue R r ps (word_of_nat (length ps)) = (word_of_nat (length ps), r') \<and> packets_ok R C X r' H \<and>
    lent R r' = lent R r @ ps \<and> in_read R r' = in_read R r"
proof -
  have I: "ring_inv R r" using P by (simp add: packets_ok_def)
  have n: "unat (word_of_nat (length ps) :: u32) = length ps"
    using room unat_lt32 [of "gazelle_ring_free_count r"] by (simp add: unat_of_nat)
  obtain k r' where g: "gazelle_ring_sp_enqueue R r ps (word_of_nat (length ps)) = (k, r')" by fastforce
  have le: "unat (word_of_nat (length ps) :: u32) \<le> unat (capacity r) - length (ring_contents R r)"
    using room n ring_free_entries(2) [OF I] by simp
  have le2: "unat (word_of_nat (length ps) :: u32) \<le> length ps" using n by simp
  note S = enqueue_stores [OF I le le2 g]
  have l: "lent R r' = lent R r @ ps" using S(5) n by simp
  have "ring_contents R r' @ X = ring_contents R r @ ps @ X" by (simp add: ring_contents_def S(3,4) l)
  then have "packets_ok R C X r' H" using P S(2) l by (simp add: packets_ok_def)
  then show ?thesis using g S(1,4) l by auto
qed

lemma packets_ok_drop: "packets_ok R C (ps @ X) r H \<Longrightarrow> packets_ok R C X r H"
  by (auto simp: packets_ok_def chains_ok_append)

lemma set_recv_ring_frame [simp]:
  "pbufs (set_recv_ring a r S) = pbufs S" "recvmbox (set_recv_ring a r S) = recvmbox S" "node_rx (set_recv_ring a r S) = node_rx S"
  by (simp_all add: set_recv_ring_def)

lemma set_recv_ring_alive:
  "sock_alive a S s \<Longrightarrow> sock_alive a (set_recv_ring a r S) (s\<lparr>recv_ring := r\<rparr>)"
  by (simp add: sock_alive_def set_recv_ring_def sock_upd_def)

lemma read_lwip_law:
  assumes L: "lwip_ok (lwip E)" and mb: "mailbox_ok E pend" and inv: "rx_inv E pend a S R M"
  shows "\<exists>k S' R2 M2. read_lwip_data E a fl S = Some (k, S') \<and> M = R2 @ M2 \<and> rx_inv E pend a S' (R @ R2) M2 \<and>
    (k = int (length R2) \<or> R2 = [] \<and> (k = 0 \<or> k = -1))"
proof -
  obtain s C m Q where s: "sock_alive a S s" and m: "recvmbox S a = Some m" "node_rx S a = None"
    and I: "core_inv (elems E) C (pend m) (core_of s (pbufs S)) Q"
    and R: "R = unread (elems E) C (core_of s (pbufs S)) Q" and M: "M = bytes_of (pbufs S) C (pend m)"
    using inv unfolding rx_inv_def by blast
  let ?R = "elems E"
  have sa: "socks (ep S) a = Some s" and c: "conn s \<noteq> None" using s by (simp_all add: sock_alive_def)
  then obtain cn where cn: "conn s = Some cn" by auto
  have P: "packets_ok ?R C (pend m) (recv_ring s) (pbufs S)" and rd: "reading (pbufs S) C (in_read ?R (recv_ring s)) (recv_lastdata s) Q"
    using I by (simp_all add: core_inv_def)
  obtain r H where f: "free_recv_ring_readover E (recv_ring s) (pbufs S) = Some (r, H)" and P1: "packets_ok ?R C (pend m) r H"
    and rd1: "reading H C (in_read ?R r) (recv_lastdata s) Q" and lr: "lent ?R r = lent ?R (recv_ring s)"
    and b1: "bytes_of H C (lent ?R (recv_ring s)) = bytes_of (pbufs S) C (lent ?R (recv_ring s))"
    and b2: "bytes_of H C (pend m) = bytes_of (pbufs S) C (pend m)"
    using free_readover_law [OF L P rd] by blast
  let ?S = "(set_recv_ring a r S)\<lparr>pbufs := H\<rparr>" and ?s = "s\<lparr>recv_ring := r\<rparr>"
  have s1: "sock_alive a ?S ?s" using set_recv_ring_alive [OF s, of r] by (simp add: sock_alive_def)
  have R1: "R = Q @ bytes_of H C (lent ?R r)" using R b1 lr by (simp add: unread_def)
  show ?thesis
  proof (cases "gazelle_ring_free_count r = 0")
    case True
    have "rx_inv E pend a ?S R M" unfolding rx_inv_def
      by (rule exI [of _ ?s], rule exI [of _ C], rule exI [of _ m], rule exI [of _ Q])
        (use s1 m P1 rd1 R1 M b2 in \<open>simp add: core_inv_def unread_def\<close>)
    moreover have "read_lwip_data E a fl S = Some (-1, ?S)"
      using sa cn m f True by (simp add: read_lwip_data_def)
    ultimately show ?thesis by (intro exI [of _ "-1"] exI [of _ ?S] exI [of _ "[]"] exI [of _ M]) simp
  next
    case False
    let ?n = "unat (min (gazelle_ring_free_count r) (mbox_count E m))"
    have wh: "\<forall>p \<in> set (pend m). whole H C p" using P1 by (simp add: packets_ok_def)
    obtain qs ret m' where l: "recv_loop E H ?n fl [] 0 m = Some (qs, int (length (bytes_of H C qs)), ret, m')"
      and pm: "pend m = qs @ pend m'" and lq: "length qs \<le> ?n"
      and ret: "ret \<noteq> None \<longrightarrow> length (bytes_of H C qs) = 0 \<and> (ret = Some 0 \<or> ret = Some (-1))"
      using recv_loop_law [OF mb wh, of ?n fl "[]" 0] by auto
    let ?T = "?S\<lparr>recvmbox := (recvmbox S)(a := Some m')\<rparr>"
    have M1: "M = bytes_of H C qs @ bytes_of H C (pend m')" using M b2 pm by simp
    show ?thesis
    proof (cases ret)
      case (Some k)
      have z: "bytes_of H C qs = []" "k = 0 \<or> k = -1" using ret Some by simp_all
      have "packets_ok ?R C (pend m') r H" using packets_ok_drop [of ?R C qs "pend m'"] P1 pm by simp
      then have "rx_inv E pend a ?T R M" unfolding rx_inv_def
        by (intro exI [of _ ?s] exI [of _ C] exI [of _ m'] exI [of _ Q])
          (use s1 m rd1 R1 M1 z(1) in \<open>simp add: core_inv_def unread_def sock_alive_def\<close>)
      moreover have "read_lwip_data E a fl S = Some (k, ?T)"
        using sa cn m f False l Some by (simp add: read_lwip_data_def Let_def)
      ultimately show ?thesis using z by (intro exI [of _ k] exI [of _ ?T] exI [of _ "[]"] exI [of _ M]) simp
    next
      case None
      have room: "length qs \<le> unat (gazelle_ring_free_count r)" using lq by (simp add: min_def word_le_nat_alt split: if_splits)
      obtain r2 where e: "gazelle_ring_sp_enqueue ?R r qs (word_of_nat (length qs)) = (word_of_nat (length qs), r2)"
        and P2: "packets_ok ?R C (pend m') r2 H" and l2: "lent ?R r2 = lent ?R r @ qs" "in_read ?R r2 = in_read ?R r"
        using enqueue_packets [of ?R C qs "pend m'" r H] P1 pm room by auto
      have nq: "unat (word_of_nat (length qs) :: u32) = length qs"
        using room unat_lt32 [of "gazelle_ring_free_count r"] by (simp add: unat_of_nat)
      let ?U = "(set_recv_ring a r2 ?T)\<lparr>read_lwip_cnt := read_lwip_cnt (set_recv_ring a r2 ?T) + word_of_nat (length qs)\<rparr>"
      let ?k = "if int (length (bytes_of H C qs)) = 0 then -1 else int (length (bytes_of H C qs))"
      have s2: "sock_alive a ?U (?s\<lparr>recv_ring := r2\<rparr>)"
        using set_recv_ring_alive [of a ?T ?s r2] s1 by (simp add: sock_alive_def)
      have "rx_inv E pend a ?U (R @ bytes_of H C qs) (bytes_of H C (pend m'))" unfolding rx_inv_def
        by (intro exI [of _ "?s\<lparr>recv_ring := r2\<rparr>"] exI [of _ C] exI [of _ m'] exI [of _ Q])
          (use s2 m P2 rd1 R1 l2 in \<open>simp add: core_inv_def unread_def\<close>)
      moreover have "read_lwip_data E a fl S = Some (?k, ?U)"
        using sa cn m f False l None e nq by (simp add: read_lwip_data_def Let_def)
      ultimately show ?thesis using M1
        by (intro exI [of _ ?k] exI [of _ ?U] exI [of _ "bytes_of H C qs"] exI [of _ "bytes_of H C (pend m')"]) auto
    qed
  qed
qed
section \<open>Any interleaving of the two threads and the network\<close>

text \<open>lwip puts a packet of new buffers, whole, behind the others in the mailbox; \<open>bs\<close> are its bytes.\<close>

definition arrives :: "('m \<Rightarrow> addr list) \<Rightarrow> addr \<Rightarrow> 'm io_state \<Rightarrow> u8 list \<Rightarrow> 'm io_state \<Rightarrow> bool" where
  "arrives pend a S bs S' \<longleftrightarrow> (\<exists>m m' N p ps. recvmbox S a = Some m \<and> pend m' = pend m @ [p] \<and>
     dom N \<inter> dom (pbufs S) = {} \<and> chain_list N (Some p) = Some ps \<and> whole N (\<lambda>_. ps) p \<and> bs = chain_bytes N ps \<and>
     S' = S\<lparr>recvmbox := (recvmbox S)(a := Some m'), pbufs := pbufs S ++ N\<rparr>)"

inductive rx_run :: "'m io_env \<Rightarrow> ('m \<Rightarrow> addr list) \<Rightarrow> addr \<Rightarrow> 'm io_state \<Rightarrow> u8 list \<Rightarrow> u8 list \<Rightarrow> 'm io_state \<Rightarrow> bool"
  for E pend a S0 where
  rx_start: "rx_run E pend a S0 [] [] S0"
| rx_arrive: "rx_run E pend a S0 ins outs S \<Longrightarrow> arrives pend a S bs S' \<Longrightarrow> rx_run E pend a S0 (ins @ bs) outs S'"
| rx_stack: "rx_run E pend a S0 ins outs S \<Longrightarrow> read_lwip_data E a fl S = Some (k, S') \<Longrightarrow> rx_run E pend a S0 ins outs S'"
| rx_app: "rx_run E pend a S0 ins outs S \<Longrightarrow> read_stack_data E a len S = Some (r, xs, adr, S') \<Longrightarrow>
     rx_run E pend a S0 ins (outs @ xs) S'"

lemma new_buffers_same: "dom N \<inter> dom H = {} \<Longrightarrow> H x \<noteq> None \<Longrightarrow> (H ++ N) x = H x"
  by (auto simp: map_add_def split: option.splits)

lemma owned_alive: "chains_ok H C ps \<Longrightarrow> x \<in> owned C ps \<Longrightarrow> H x \<noteq> None"
  using chain_list_alive by (fastforce simp: chains_ok_def owned_def)

lemma reading_cong:
  assumes "reading H C ir ld Q" and "\<And>x. x \<in> owned C ir \<Longrightarrow> H' x = H x" and "\<And>q. q \<in> set ir \<Longrightarrow> C' q = C q"
  shows "reading H' C' ir ld Q"
proof (cases ld)
  case None
  then show ?thesis using assms(1) by (simp add: reading_def)
next
  case (Some l)
  then obtain q us vs b where q: "ir = [q]" "C q = us @ vs" "chain_list H (Some l) = Some vs" "H l = Some b"
    "unat (pb_tot_len b) = length (chain_bytes H vs)" "lens_ok H vs" "Q = chain_bytes H vs"
    using assms(1) unfolding reading_def by auto
  have eq: "H' x = H x" if "x \<in> set vs" for x by (rule assms(2)) (use that q(1,2) in \<open>simp add: owned_def\<close>)
  have "l \<in> set vs" using q(3) by (auto simp: chain_list_Some)
  then have "H' l = Some b" using eq q(4) by simp
  moreover have "chain_list H' (Some l) = Some vs" by (rule chain_list_cong [OF q(3)]) (use eq in auto)
  moreover have "chain_bytes H' vs = chain_bytes H vs" by (rule chain_bytes_cong) (rule eq)
  moreover have "lens_ok H' vs" by (rule lens_ok_cong [OF q(6) eq])
  ultimately show ?thesis using Some q assms(3) by (simp add: reading_def)
qed

lemma arrives_law:
  assumes inv: "rx_inv E pend a S R M" and ar: "arrives pend a S bs S'"
  shows "rx_inv E pend a S' R (M @ bs)"
proof -
  obtain s C m Q where s: "sock_alive a S s" and m: "recvmbox S a = Some m" "node_rx S a = None"
    and I: "core_inv (elems E) C (pend m) (core_of s (pbufs S)) Q"
    and R: "R = unread (elems E) C (core_of s (pbufs S)) Q" and M: "M = bytes_of (pbufs S) C (pend m)"
    using inv unfolding rx_inv_def by blast
  obtain m' N p ps where a: "pend m' = pend m @ [p]" "dom N \<inter> dom (pbufs S) = {}" "chain_list N (Some p) = Some ps"
    "whole N (\<lambda>_. ps) p" "bs = chain_bytes N ps" "S' = S\<lparr>recvmbox := (recvmbox S)(a := Some m'), pbufs := pbufs S ++ N\<rparr>"
    using ar m(1) unfolding arrives_def by auto
  let ?R = "elems E" and ?H = "pbufs S ++ N" and ?C = "C(p := ps)" and ?all = "ring_contents (elems E) (recv_ring s) @ pend m"
  have ch: "chains_ok (pbufs S) C ?all" and wh: "\<forall>q \<in> set (lent ?R (recv_ring s) @ pend m). whole (pbufs S) C q"
    and rd: "reading (pbufs S) C (in_read ?R (recv_ring s)) (recv_lastdata s) Q" and ri: "ring_inv ?R (recv_ring s)"
    using I by (simp_all add: core_inv_def packets_ok_def)
  have old: "?H x = pbufs S x" if "x \<in> owned C ?all" for x
    using new_buffers_same [OF a(2)] owned_alive [OF ch that] by blast
  have new: "?H x = N x" if "x \<in> set ps" for x using chain_list_alive [OF a(3) that] by (auto simp: map_add_def)
  have pN: "p \<in> set ps" using a(3) by (auto simp: chain_list_Some)
  then have p: "p \<in> dom N" using chain_list_alive [OF a(3)] by auto
  have np: "q \<noteq> p" if "q \<in> set ?all" for q
    using owned_alive [OF ch, of q] chains_ok_head [OF ch that] that p a(2) by (auto simp: owned_def)
  then have Cq: "?C q = C q" if "q \<in> set ?all" for q using that by auto
  have c1: "chains_ok ?H C ?all" by (rule chains_ok_heap [OF ch old])
  then have c2: "chains_ok ?H ?C ?all" and o2: "owned ?C ?all = owned C ?all"
    using Cq by (auto simp: chains_ok_def owned_def cong: map_cong)
  have "chain_list ?H (Some p) = Some ps" by (rule chain_list_cong [OF a(3)]) (use new in auto)
  then have c3: "chains_ok ?H ?C [p]" using chain_list_distinct [OF a(3)] by (simp add: chains_ok_def)
  have dj: "owned C ?all \<inter> set ps = {}" using owned_alive [OF ch] chain_list_alive [OF a(3)] a(2) by (auto simp: dom_def)
  have ow: "owned ?C [p] = set ps" by (simp add: owned_def)
  have c4: "chains_ok ?H ?C (?all @ [p])"
    unfolding chains_ok_append [of ?H ?C ?all "[p]"] o2 ow using c2 c3 dj by blast
  have wp: "whole ?H ?C p" using a(4) new lens_ok_cong [of N ps ?H] chain_bytes_cong [of ps ?H N] pN by (auto simp: whole_def)
  have wo: "whole ?H ?C q" if "q \<in> set (lent ?R (recv_ring s) @ pend m)" for q
  proof -
    have q: "q \<in> set ?all" using that by (auto simp: ring_contents_def)
    have "whole ?H C q"
      by (rule whole_cong [of "pbufs S"]) (use wh that chains_ok_head [OF ch q] old q in \<open>auto simp: owned_def\<close>)
    then show ?thesis using np [OF q] by (simp add: whole_def)
  qed
  have rd2: "reading ?H ?C (in_read ?R (recv_ring s)) (recv_lastdata s) Q"
    by (rule reading_cong [OF rd]) (use old Cq in \<open>auto simp: owned_def ring_contents_def\<close>)
  have by2: "bytes_of ?H ?C qs = bytes_of (pbufs S) C qs" if "set qs \<subseteq> set ?all" for qs
  proof -
    have "bytes_of ?H ?C qs = bytes_of ?H C qs" unfolding bytes_of_def
      by (rule arg_cong [where f = concat], rule map_cong [OF refl]) (use that np in auto)
    also have "\<dots> = bytes_of (pbufs S) C qs" by (rule bytes_of_cong) (use old that in \<open>auto simp: owned_def\<close>)
    finally show ?thesis .
  qed
  have b1: "bytes_of ?H ?C (pend m) = bytes_of (pbufs S) C (pend m)" by (rule by2) simp
  have b2: "bytes_of ?H ?C (lent ?R (recv_ring s)) = bytes_of (pbufs S) C (lent ?R (recv_ring s))"
    by (rule by2) (auto simp: ring_contents_def)
  have "chain_bytes ?H ps = chain_bytes N ps" by (rule chain_bytes_cong) (rule new)
  then show ?thesis unfolding rx_inv_def
    by (intro exI [of _ s] exI [of _ ?C] exI [of _ m'] exI [of _ Q])
      (use s m a ri c4 wp wo rd2 R M b1 b2 in
        \<open>auto simp: sock_alive_def core_inv_def packets_ok_def unread_def ring_contents_def\<close>)
qed

lemma rx_run_inv:
  assumes L: "lwip_ok (lwip E)" and mb: "mailbox_ok E pend" and run: "rx_run E pend a S0 ins outs S"
    and "rx_inv E pend a S0 [] []"
  shows "\<exists>R M. rx_inv E pend a S R M \<and> ins = outs @ R @ M"
  using run
proof induction
  case rx_start
  then show ?case using assms(4) by auto
next
  case (rx_arrive ins outs S bs S')
  then show ?case using arrives_law by fastforce
next
  case (rx_stack ins outs S fl k S')
  then obtain R M where I: "rx_inv E pend a S R M" "ins = outs @ R @ M" by blast
  obtain R2 M2 where "M = R2 @ M2" "rx_inv E pend a S' (R @ R2) M2"
    using read_lwip_law [OF L mb I(1), of fl] rx_stack(2) by auto
  then show ?case using I(2) by (intro exI [of _ "R @ R2"] exI [of _ M2]) simp
next
  case (rx_app ins outs S len r xs adr S')
  then obtain R M where I: "rx_inv E pend a S R M" "ins = outs @ R @ M" by blast
  then obtain s where "socks (ep S) a = Some s" by (auto simp: rx_inv_def sock_alive_def)
  from read_stack_law [OF L I(1) this, of len] rx_app(2)
  have "rx_inv E pend a S' (drop (unat len) R) M" "xs = take (unat len) R" by (auto simp: Let_def)
  then show ?case using I(2) by (metis append.assoc append_take_drop_id)
qed


section \<open>A socket to evaluate on\<close>

definition demo_io :: "addr list io_env" where
  "demo_io = \<lparr>elems = plain_elems, lwip = plain_lwip,
     ep_env = \<lparr>list_put = (\<lambda>a l. a # l), sock_at = (\<lambda>_. Some 1), sock_live = (\<lambda>_. Some 1), stack_num = 1, queue_id = (\<lambda>i. i),
       stack_epollfd = (\<lambda>_. 5), kctl_ret = (\<lambda>_. 0), bind_numa = False\<rparr>,
     node_p = \<lparr>ring_len = 4, ring_mask = 3\<rparr>, recv_burst = 4, recv_ring_size = 4, send_ring_size = 4, expand_send_ring = True,
     mbuf_max = 4, mbox_count = (\<lambda>m. word_of_nat (length m)),
     netconn_recv = (\<lambda>m fl. case m of [] \<Rightarrow> (Recv_fail, []) | p # ps \<Rightarrow> (Recv_ok p, ps)), more_flags = 0x24, is_udp = (\<lambda>_. False),
     app_bind_numa = False, alloc_bulk = (\<lambda>H n. None), raw_payload = (\<lambda>_. [0, 0, 0, 0]), rte_ring_create = (\<lambda>name n fl. Some (empty_ring 0 0)),
     ring_namesize = 29, proc_idx = 0,
     write_more = 2, malloc_ok = True, rpc_alloc_ok = (\<lambda>_. True), trylock = (\<lambda>_. True)\<rparr>"

definition demo_ep_sock :: ep_sock where
  "demo_ep_sock = \<lparr>conn = Some \<lparr>conn_listens = False, conn_has_host = False, conn_is_libos = True, accept_waits = False\<rparr>,
     epoll_events = 0, events = 0, ep_data = 0, errevent = 0, wakeup = None, sock_stack_idx = 0, listen_next = None,
     recv_ring = empty_ring 2 0, send_ring = empty_ring 2 0, recv_lastdata = None, same_node_ready = False, linked = None\<rparr>"

definition demo_ep :: ep_state where
  "demo_ep = \<lparr>socks = [1 \<mapsto> demo_ep_sock], polls = Map.empty, wakeup_lists = (\<lambda>_. []), kernel_events = (\<lambda>_. []), wakeup_events = (\<lambda>_. 0),
     poll_list = [], kernel_ctl = [], closed_fds = [], bind_tick = 0\<rparr>"

definition demo_state :: "pbuf_heap \<Rightarrow> addr list \<Rightarrow> addr list io_state" where
  "demo_state H m = \<lparr>ep = demo_ep, pbufs = H, recvmbox = (\<lambda>_. Some m), node_rx = (\<lambda>_. None), node_tx = (\<lambda>_. None),
     has_recv_ring = (\<lambda>_. True), has_send_ring = (\<lambda>_. True), sock_stack = (\<lambda>_. Some 0), send_lastdata = (\<lambda>_. None),
     send_pre_del = (\<lambda>_. None), remain_len = (\<lambda>_. 0), call_num = (\<lambda>_. 0), recv_linked = (\<lambda>_. None), recv_lists = (\<lambda>_. []), same_node_recv_lists = (\<lambda>_. []), conn_num = (\<lambda>_. 1), name_tick = 0, send_msgs = [],
     sem_posts = (\<lambda>_. 0), read_lwip_cnt = 0, read_lwip_drop = 0, write_lwip_cnt = 0, tx_allocmbuf_fail = 0, recved = [],
     app_stats = (\<lambda>_. \<lparr>app_read_cnt = 0, read_null = 0, app_write_cnt = 0, app_write_rpc = 0\<rparr>), already_bind_numa = (\<lambda>_. False),
     stack_sock_num = (\<lambda>_. 0), max_sock_stack = 0, numa_binds = []\<rparr>"

definition demo_pbuf :: "u8 list \<Rightarrow> addr option \<Rightarrow> u16 \<Rightarrow> u32 \<Rightarrow> pbuf" where
  "demo_pbuf xs nx tot ip = \<lparr>pb_next = nx, pb_payload = xs, pb_len = word_of_nat (length xs), pb_tot_len = tot, pb_addr = ip, pb_port = 80,
     pb_last = 0, pb_allow_in = 1, pb_head = 0\<rparr>"

lemma demo_lwip [simp]: "lwip_ok (lwip demo_io)" "elems demo_io = plain_elems"
  by (simp_all add: demo_io_def plain_lwip_ok)

lemma demo_mailbox: "mailbox_ok demo_io (\<lambda>m. m)"
  by (simp add: mailbox_ok_def demo_io_def split: list.splits)

lemma demo_recv_inv: "rx_inv demo_io (\<lambda>m. m) 1 (demo_state Map.empty []) [] []"
proof -
  have r: "ring_inv plain_elems (empty_ring 2 (0::nat))" "ring_contents plain_elems (empty_ring 2 (0::nat)) = []"
    by (rule empty_ring_ok)+
  have "sock_alive 1 (demo_state Map.empty []) demo_ep_sock"
    by (simp add: sock_alive_def demo_state_def demo_ep_def demo_ep_sock_def)
  then show ?thesis unfolding rx_inv_def
    by (intro exI [of _ demo_ep_sock] exI [of _ "\<lambda>_. []"] exI [of _ "[]"] exI [of _ "[]"])
      (use r in \<open>simp add: core_inv_def packets_ok_def chains_ok_def reading_def unread_def core_of_def demo_state_def demo_ep_sock_def ring_contents_def\<close>)
qed


text \<open>C38: Closing a socket while a packet has been read in part frees a buffer twice: the packet is still in the receive ring,
  whose buffers are freed, and then the rest of it is freed once more through recv_lastdata.
\<close>

theorem close_after_partial_read_frees_twice:
  assumes "lwip_ok (lwip E)" and "recv_burst E \<noteq> 0" and "rx_inv E pend a S R M"
    and "socks (ep S) a = Some s" and "recv_lastdata s \<noteq> None" and "has_recv_ring S a" and "sock_stack S a = Some i"
  shows "gazelle_clean_sock E (Some a) S = None"
proof -
  obtain C m Q where al: "sock_alive a S s" and I: "core_inv (elems E) C (pend m) (core_of s (pbufs S)) Q"
    using assms(3,4) by (auto simp: rx_inv_def sock_alive_def)
  obtain l where l: "recv_lastdata s = Some l" using assms(5) by auto
  have ri: "ring_inv (elems E) (recv_ring s)" and ch: "chains_ok (pbufs S) C (ring_contents (elems E) (recv_ring s))"
    and rd: "reading (pbufs S) C (in_read (elems E) (recv_ring s)) (Some l) Q"
    using I l by (auto simp: core_inv_def packets_ok_def chains_ok_append)
  obtain q us vs where q: "in_read (elems E) (recv_ring s) = [q]" "C q = us @ vs" "chain_list (pbufs S) (Some l) = Some vs"
    using rd unfolding reading_def option.case by blast
  have lo: "l \<in> owned C (ring_contents (elems E) (recv_ring s))"
    using q by (auto simp: chain_list_Some owned_def ring_contents_def)
  have dead: "reset_sock_data E a T = None"
    if "socks (ep T) a = Some t" "recv_ring t = recv_ring s" "recv_lastdata t = Some l" "pbufs T = pbufs S" "has_recv_ring T a" for T t
    by (rule reset_frees_twice [OF assms(1), where s = t and C = C]) (use that ri ch lo assms(2) in auto)
  have unl: "\<exists>t. socks (unlink_event a X) a = Some t \<and> recv_ring t = recv_ring s \<and> recv_lastdata t = Some l"
    if "socks X a = Some s" for X
    using that l by (auto simp: unlink_event_def sock_upd_def poll_upd_def split: option.splits)
  let ?T = "\<lambda>e. S\<lparr>ep := e, conn_num := (conn_num S)(i := conn_num S i - 1)\<rparr>"
  have d1: "reset_sock_data E a (?T (ep S)) = None" by (rule dead [of _ s]) (use assms(4,6) l in auto)
  have d2: "reset_sock_data E a (?T (unlink_event a (ep S))) = None" using unl [OF assms(4)] dead assms(6) by fastforce
  show ?thesis using assms(4,7) d1 d2
    by (cases "wakeup s"; cases "polls (ep S) (the (wakeup s))") (auto simp: gazelle_clean_sock_def Let_def)
qed

lemma close_after_partial_read_frees_twice_witness:
  "\<exists>S. socks (ep S) 1 \<noteq> None \<and> gazelle_clean_sock demo_io (Some 1) S = None"
proof -
  let ?S0 = "demo_state Map.empty []" and ?N = "[10 \<mapsto> demo_pbuf [1, 2, 3] None 3 0]"
  let ?S1 = "?S0\<lparr>recvmbox := (recvmbox ?S0)(1 := Some [10]), pbufs := pbufs ?S0 ++ ?N\<rparr>"
  have "chain_list ?N (Some 10) = Some [10]" by (simp add: chain_list_Cons demo_pbuf_def)
  then have "arrives (\<lambda>m. m) 1 ?S0 [1, 2, 3] ?S1" unfolding arrives_def
    by (intro exI [of _ "[]"] exI [of _ "[10]"] exI [of _ ?N] exI [of _ 10] exI [of _ "[10]"])
      (simp add: demo_state_def whole_def lens_ok_def demo_pbuf_def pb_data_def)
  from rx_arrive [OF rx_start this]
  have 1: "rx_run demo_io (\<lambda>m. m) 1 ?S0 [1, 2, 3] [] ?S1" by simp
  have "map_option fst (read_lwip_data demo_io 1 0 ?S1) = Some 3" by code_simp
  then obtain S2 where e: "read_lwip_data demo_io 1 0 ?S1 = Some (3, S2)" by auto
  have "map_option (\<lambda>(r, xs, _, S). (r, xs, map_option recv_lastdata (socks (ep S) 1), has_recv_ring S 1, sock_stack S 1))
      (Option.bind (map_option snd (read_lwip_data demo_io 1 0 ?S1)) (read_stack_data demo_io 1 2)) =
      Some (2, [1, 2], Some (Some 10), True, Some 0)" by code_simp
  then obtain adr S3 s where r: "read_stack_data demo_io 1 2 S2 = Some (2, [1, 2], adr, S3)"
    and s: "socks (ep S3) 1 = Some s" "recv_lastdata s = Some 10" "has_recv_ring S3 1" "sock_stack S3 1 = Some 0" using e by auto
  from rx_run_inv [OF demo_lwip(1) demo_mailbox rx_app [OF rx_stack [OF 1 e] r] demo_recv_inv]
  obtain R M where "rx_inv demo_io (\<lambda>m. m) 1 S3 R M" by blast
  from close_after_partial_read_frees_twice [OF demo_lwip(1) _ this s(1) _ s(3,4)] s
  show ?thesis by (intro exI [of _ S3]) (simp add: demo_io_def)
qed

text \<open>
  A datagram socket loses the boundaries of its datagrams: one read joins what two senders sent and
  reports the address of the second. A loop that took one packet would not.
\<close>

lemma datagrams_are_joined:
  "let S = demo_state [10 \<mapsto> demo_pbuf [1, 2, 3] None 3 7, 11 \<mapsto> demo_pbuf [4, 5] None 2 8] [10, 11]; E = demo_io\<lparr>is_udp := \<lambda>_. True\<rparr> in
     map_option (\<lambda>(r, xs, adr, _). (r, xs, adr)) (Option.bind (map_option snd (read_lwip_data E 1 0 S)) (read_stack_data E 1 64)) =
     Some (5, [1, 2, 3, 4, 5], Some (8, 80))"
  by code_simp
section \<open>The stack's list of sockets with packets\<close>

text \<open>
  \<open>lwip_recv\<close> of lwip, which calls \<open>read_lwip_data\<close>, is the parameter \<open>recv\<close>: the socket and the length
  asked for, -1 for SSIZE_MAX. \<open>list_add_node(&sock->recv_list, head)\<close> puts the head right before
  the socket, so that the list starts with it.
\<close>

definition add_recv_list :: "'m io_env \<Rightarrow> addr option \<Rightarrow> 'm io_state \<Rightarrow> 'm io_state" where
  "add_recv_list E sock S =
     (case sock of
        None \<Rightarrow> S
      | Some a \<Rightarrow> (case sock_stack S a of
          None \<Rightarrow> S
        | Some i \<Rightarrow>
            if recv_linked S a \<noteq> None then S
            else S\<lparr>recv_linked := (recv_linked S)(a := Some i),
                   recv_lists := (recv_lists S)(i := list_put (ep_env E) a (recv_lists S i))\<rparr>))"

definition raise_event :: "'m io_env \<Rightarrow> addr \<Rightarrow> u32 \<Rightarrow> 'm io_state \<Rightarrow> 'm io_state option" where
  "raise_event E a event S = map_option (\<lambda>e. S\<lparr>ep := e\<rparr>) (add_sock_event (ep_env E) a event (ep S))"

fun same_node_walk :: "'m io_env \<Rightarrow> addr list \<Rightarrow> 'm io_state \<Rightarrow> 'm io_state option" where
  "same_node_walk E [] S = Some S"
| "same_node_walk E (a # as) S =
     (case (case node_rx S a of
              Some r \<Rightarrow> if sndend r - sndbegin r \<noteq> 0 then raise_event E a epollin S else Some S
            | None \<Rightarrow> Some S) of
        None \<Rightarrow> None
      | Some S \<Rightarrow> same_node_walk E as S)"

definition read_same_node_recv_list :: "'m io_env \<Rightarrow> nat \<Rightarrow> 'm io_state \<Rightarrow> 'm io_state option" where
  "read_same_node_recv_list E i S = same_node_walk E (same_node_recv_lists S i) S"

definition has_packets :: "'m io_env \<Rightarrow> addr \<Rightarrow> 'm io_state \<Rightarrow> bool option" where
  "has_packets E a S = map_option (\<lambda>s. conn s \<noteq> None \<and> (case recvmbox S a of None \<Rightarrow> False | Some m \<Rightarrow> mbox_count E m \<noteq> 0))
     (socks (ep S) a)"

definition serve_sock :: "'m io_env \<Rightarrow> (addr \<Rightarrow> int \<Rightarrow> 'm io_state \<Rightarrow> int \<times> 'm io_state) \<Rightarrow> addr \<Rightarrow> 'm io_state \<Rightarrow> 'm io_state option" where
  "serve_sock E recv a S = do {
     busy \<leftarrow> has_packets E a S;
     (if \<not> busy then Some (unlink_recv a S)
      else let (len, S) = recv a (if is_udp E a then -1 else 0) S in
        if len = 0 then raise_event E a epollerr (S\<lparr>ep := sock_upd a (\<lambda>s. s\<lparr>errevent := 1\<rparr>) (ep S)\<rparr>)
        else if len > 0 then raise_event E a epollin S
        else Some S)}"

definition head_before :: "nat \<Rightarrow> addr \<Rightarrow> 'm io_state \<Rightarrow> 'm io_state" where
  "head_before i a S = S\<lparr>recv_lists := (recv_lists S)(i := dropWhile (\<lambda>x. x \<noteq> a) (recv_lists S i) @ takeWhile (\<lambda>x. x \<noteq> a) (recv_lists S i))\<rparr>"

fun recv_walk :: "'m io_env \<Rightarrow> (addr \<Rightarrow> int \<Rightarrow> 'm io_state \<Rightarrow> int \<times> 'm io_state) \<Rightarrow> nat \<Rightarrow> u32 \<Rightarrow> u32 \<Rightarrow> addr list \<Rightarrow> 'm io_state \<Rightarrow> 'm io_state option" where
  "recv_walk E recv i max_num read_num [] S = Some S"
| "recv_walk E recv i max_num read_num (a # as) S =
     (let read_num = read_num + 1 in
      if read_num > max_num then Some (head_before i a S)
      else case serve_sock E recv a S of
        None \<Rightarrow> None
      | Some S \<Rightarrow> recv_walk E recv i max_num read_num as S)"

definition read_recv_list :: "'m io_env \<Rightarrow> (addr \<Rightarrow> int \<Rightarrow> 'm io_state \<Rightarrow> int \<times> 'm io_state) \<Rightarrow> nat \<Rightarrow> u32 \<Rightarrow> 'm io_state \<Rightarrow> 'm io_state option" where
  "read_recv_list E recv i max_num S = recv_walk E recv i max_num 0 (recv_lists S i) S"

fun serve_all :: "'m io_env \<Rightarrow> (addr \<Rightarrow> int \<Rightarrow> 'm io_state \<Rightarrow> int \<times> 'm io_state) \<Rightarrow> addr list \<Rightarrow> 'm io_state \<Rightarrow> 'm io_state option" where
  "serve_all E recv [] S = Some S"
| "serve_all E recv (a # as) S = Option.bind (serve_sock E recv a S) (serve_all E recv as)"

text \<open>
  One call serves the first \<open>max_num\<close> sockets of the list and makes the next one the first of the next call.
\<close>

lemma recv_walk_serves:
  assumes "unat n \<le> unat m" and "length as < 2 ^ 31" and "unat m < 2 ^ 31"
  shows "recv_walk E recv i m n as S =
    (let k = unat m - unat n in
     map_option (\<lambda>S. if k < length as then head_before i (as ! k) S else S) (serve_all E recv (take k as) S))"
  using assms(1,2)
proof (induction as arbitrary: n S)
  case (Cons a as)
  have un: "unat (n + 1) = unat n + 1" using Cons.prems assms(3) unat_plus_small [of n 1] by simp
  show ?case
  proof (cases "n + 1 > m")
    case True
    then have "unat m = unat n" using Cons.prems(1) un by (simp add: word_less_nat_alt)
    then show ?thesis using True by (simp add: Let_def)
  next
    case False
    then have le: "unat (n + 1) \<le> unat m" by (simp add: word_less_nat_alt not_less)
    obtain j where j: "unat m - unat n = Suc j" "unat m - unat (n + 1) = j" using le un by (metis Suc_diff_le diff_Suc_Suc Suc_eq_plus1)
    have IH: "recv_walk E recv i m (n + 1) as S = map_option (\<lambda>S. if j < length as then head_before i (as ! j) S else S)
        (serve_all E recv (take j as) S)" for S
      using Cons.IH [OF le, of S] Cons.prems(2) j(2) by (simp add: Let_def)
    have nth: "(a # as) ! Suc j = as ! j" by simp
    show ?thesis using False by (cases "serve_sock E recv a S") (simp_all only: recv_walk.simps Let_def j(1) IH nth serve_all.simps
        take_Suc_Cons if_False option.case option.map bind.bind_lzero bind.bind_lunit length_Cons Suc_less_eq)
  qed
qed (simp add: Let_def)

lemma read_recv_list_serves:
  assumes "length (recv_lists S i) < 2 ^ 31" and "unat max_num < 2 ^ 31"
  shows "read_recv_list E recv i max_num S =
    map_option (\<lambda>T. if unat max_num < length (recv_lists S i) then head_before i (recv_lists S i ! unat max_num) T else T)
      (serve_all E recv (take (unat max_num) (recv_lists S i)) S)"
  unfolding read_recv_list_def using recv_walk_serves [of 0 max_num "recv_lists S i"] assms by (simp add: Let_def)

end
