(* ===== verification/Lstack_Send.thy ===== *)
theory Lstack_Send
  imports Lstack_Recv
begin

text \<open>
  The send path of lstack (\<open>src/lstack/core/lstack_lwip.c\<close>). The application fills buffers lent by the socket's ring and hands them
  back, appends to the last one that waits, or hangs new buffers behind it; lwip, in the stack thread, takes
  them one by one with \<open>write_lwip_data\<close> and confirms with \<open>write_lwip_over\<close>. Each call is one step; only \<open>app_direct_write\<close>
  is also cut where its buffers belong to the stack thread and it stores into one once more (\<open>late_store_hits_freed_buffer\<close>).
  Whether \<open>pthread_spin_trylock\<close> gets the lock of the last buffer is a parameter (\<open>trylock\<close>).
\<close>

section \<open>The stack thread takes a buffer\<close>

definition close_entry :: "pbuf \<Rightarrow> pbuf" where
  "close_entry b = (if pb_allow_in b = 1 then b\<lparr>pb_allow_in := pb_allow_in b - 1\<rparr> else b)"

definition no_more :: "'m io_env \<Rightarrow> u8 \<Rightarrow> u8" where
  "no_more E fl = fl AND NOT (write_more E)"

text \<open>\<open>sock->send_lastdata = pbuf->next; pbuf->next = NULL\<close>.\<close>

definition take_first :: "addr \<Rightarrow> addr \<Rightarrow> 'm io_state \<Rightarrow> 'm io_state option" where
  "take_first a p S = map_option (\<lambda>b. S\<lparr>send_lastdata := (send_lastdata S)(a := pb_next b),
     pbufs := (pbufs S)(p \<mapsto> b\<lparr>pb_next := None\<rparr>)\<rparr>) (pbufs S p)"

definition send_ring_of :: "addr \<Rightarrow> 'm io_state \<Rightarrow> addr rte_ring option" where
  "send_ring_of a S = (if has_send_ring S a then map_option send_ring (socks (ep S) a) else None)"

definition write_lwip_data :: "'m io_env \<Rightarrow> addr \<Rightarrow> u16 \<Rightarrow> u8 \<Rightarrow> 'm io_state \<Rightarrow> (addr option \<times> u8 \<times> 'm io_state) option" where
  "write_lwip_data E a remain_size fl S =
     (case send_pre_del S a of
        Some p \<Rightarrow> do {
          b \<leftarrow> pbufs S p;
          (if pb_tot_len b > remain_size then Some (None, no_more E fl, S)
           else do {
             let S = S\<lparr>pbufs := (pbufs S)(p \<mapsto> close_entry b)\<rparr>;
             S \<leftarrow> (if pb_next b \<noteq> None then take_first a p S else Some S);
             Some (Some p, fl, S)})}
      | None \<Rightarrow> (case send_lastdata S a of
          Some p \<Rightarrow> do {
            b \<leftarrow> pbufs S p;
            (if pb_tot_len b > remain_size then Some (None, no_more E fl, S)
             else do {
               S \<leftarrow> take_first a p (S\<lparr>send_pre_del := (send_pre_del S)(a := Some p)\<rparr>);
               Some (Some p, fl, S)})}
        | None \<Rightarrow> do {
            q \<leftarrow> send_ring_of a S;
            let (n, ps, r) = gazelle_ring_sc_dequeue (elems E) q 1;
            (if n = 0 then Some (None, fl, S)
             else do {
               let p = hd ps;
               let S = (set_send_ring a r S)\<lparr>send_pre_del := (send_pre_del S)(a := Some p)\<rparr>;
               b \<leftarrow> pbufs S p;
               (if pb_tot_len b > remain_size
                then Some (None, no_more E fl, S\<lparr>pbufs := (pbufs S)(p \<mapsto> b\<lparr>pb_head := 1\<rparr>)\<rparr>)
                else do {
                  let S = (if gazelle_ring_readover_count r = 0 then S\<lparr>pbufs := (pbufs S)(p \<mapsto> close_entry b)\<rparr> else S);
                  S \<leftarrow> take_first a p S;
                  Some (Some p, fl, S)})})}))"

definition write_lwip_over :: "addr \<Rightarrow> 'm io_state \<Rightarrow> 'm io_state" where
  "write_lwip_over a S = S\<lparr>send_pre_del := (send_pre_del S)(a := None), write_lwip_cnt := write_lwip_cnt S + 1\<rparr>"

section \<open>The application fills buffers\<close>

text \<open>\<open>pbuf_take_at\<close> of lwip, or a copy into the memory of the buffer, which must have room for it.\<close>

definition put_data :: "'m io_env \<Rightarrow> u8 list \<Rightarrow> nat \<Rightarrow> pbuf \<Rightarrow> pbuf option" where
  "put_data E xs off b =
     (if expand_send_ring E then Some (pbuf_take_at (lwip E) xs off b)
      else if off + length xs \<le> length (pb_payload b)
      then Some (b\<lparr>pb_payload := take off (pb_payload b) @ xs @ drop (off + length xs) (pb_payload b)\<rparr>)
      else None)"

text \<open>\<open>xs\<close> are the bytes from \<open>buf\<close> to \<open>buf + len\<close>; reading behind them has no value.\<close>

fun do_app_write :: "'m io_env \<Rightarrow> addr list \<Rightarrow> u8 list \<Rightarrow> pbuf_heap \<Rightarrow> (nat \<times> pbuf_heap) option" where
  "do_app_write E [] xs H = None"
| "do_app_write E [p] xs H = do {
     b \<leftarrow> H p;
     let copy_len = (word_of_nat (length xs) :: u16);
     b \<leftarrow> put_data E (take (unat copy_len) xs) 0 b;
     Some (unat copy_len, H(p \<mapsto> b\<lparr>pb_tot_len := copy_len, pb_len := copy_len\<rparr>))}"
| "do_app_write E (p # q # ps) xs H = do {
     b \<leftarrow> H p;
     b \<leftarrow> (if length xs < unat (mbuf_max E) then None else put_data E (take (unat (mbuf_max E)) xs) 0 b);
     (n, H) \<leftarrow> do_app_write E (q # ps) (drop (unat (mbuf_max E)) xs) (H(p \<mapsto> b\<lparr>pb_tot_len := mbuf_max E, pb_len := mbuf_max E\<rparr>));
     Some (unat (mbuf_max E) + n, H)}"

text \<open>The new buffers \<open>qs\<close> become a chain behind \<open>p\<close>.\<close>

fun link_pbufs :: "'m io_env \<Rightarrow> addr \<Rightarrow> addr list \<Rightarrow> pbuf_heap \<Rightarrow> pbuf_heap option" where
  "link_pbufs E p [] H = Some H"
| "link_pbufs E p (q # qs) H = do {
     let H = H(q \<mapsto> init_mbuf_to_pbuf E q (mbuf_max E));
     b \<leftarrow> H p;
     link_pbufs E q qs (H(p \<mapsto> b\<lparr>pb_next := Some q\<rparr>))}"

definition upd_pbuf :: "addr \<Rightarrow> (pbuf \<Rightarrow> pbuf) \<Rightarrow> pbuf_heap \<Rightarrow> pbuf_heap option" where
  "upd_pbuf p f H = map_option (\<lambda>b. H(p \<mapsto> f b)) (H p)"

text \<open>
  \<open>app_direct_write\<close> up to the hand-back of the buffers, and the store to the first of them that comes after it.
  With a single buffer \<open>pbufs[1]\<close> would lie behind the array; the callers never ask for one.
\<close>

definition app_direct_fill :: "'m io_env \<Rightarrow> addr \<Rightarrow> u8 list \<Rightarrow> u32 \<Rightarrow> 'm io_state \<Rightarrow> (nat \<times> (addr \<times> addr) option \<times> 'm io_state) option" where
  "app_direct_fill E a xs write_num S =
     (if write_num = 0 \<or> \<not> malloc_ok E then Some (0, None, S)
      else case alloc_bulk E (pbufs S) (unat (write_num - 1)) of
        None \<Rightarrow> Some (0, None, S\<lparr>tx_allocmbuf_fail := tx_allocmbuf_fail S + 1\<rparr>)
      | Some qs \<Rightarrow> do {
          q \<leftarrow> send_ring_of a S;
          let (n, ps, r) = gazelle_ring_read (elems E) q 1;
          (if n = 0 \<or> qs = [] then None
           else do {
             H \<leftarrow> link_pbufs E (hd ps) qs (pbufs S);
             (send_len, H) \<leftarrow> do_app_write E (hd ps # qs) xs H;
             Some (send_len, Some (hd ps, last qs), (set_send_ring a (gazelle_ring_read_over r) S)\<lparr>pbufs := H\<rparr>)})})"

definition app_direct_last :: "addr \<Rightarrow> addr \<Rightarrow> addr \<Rightarrow> 'm io_state \<Rightarrow> 'm io_state option" where
  "app_direct_last a p l S = do {
     H \<leftarrow> upd_pbuf p (\<lambda>b. b\<lparr>pb_last := l\<rparr>) (pbufs S);
     Some (S\<lparr>pbufs := H, remain_len := (remain_len S)(a := 0)\<rparr>)}"

definition app_direct_write :: "'m io_env \<Rightarrow> addr \<Rightarrow> u8 list \<Rightarrow> u32 \<Rightarrow> 'm io_state \<Rightarrow> (nat \<times> 'm io_state) option" where
  "app_direct_write E a xs write_num S = do {
     (send_len, ends, S) \<leftarrow> app_direct_fill E a xs write_num S;
     (case ends of
        None \<Rightarrow> Some (send_len, S)
      | Some (p, l) \<Rightarrow> map_option (Pair send_len) (app_direct_last a p l S))}"

definition app_direct_attach :: "'m io_env \<Rightarrow> addr \<Rightarrow> u8 list \<Rightarrow> u32 \<Rightarrow> 'm io_state \<Rightarrow> (nat \<times> 'm io_state) option" where
  "app_direct_attach E p xs write_num S =
     (if write_num = 0 \<or> \<not> malloc_ok E then Some (0, S)
      else case alloc_bulk E (pbufs S) (unat write_num) of
        None \<Rightarrow> Some (0, S\<lparr>tx_allocmbuf_fail := tx_allocmbuf_fail S + 1\<rparr>)
      | Some qs \<Rightarrow> do {
          H \<leftarrow> link_pbufs E (hd qs) (tl qs) ((pbufs S)(hd qs \<mapsto> init_mbuf_to_pbuf E (hd qs) (mbuf_max E)));
          (send_len, H) \<leftarrow> do_app_write E qs xs H;
          b \<leftarrow> H p;
          H \<leftarrow> upd_pbuf (pb_last b) (\<lambda>l. l\<lparr>pb_next := Some (hd qs)\<rparr>) H;
          H \<leftarrow> upd_pbuf p (\<lambda>b. b\<lparr>pb_last := last qs\<rparr>) H;
          Some (send_len, S\<lparr>pbufs := H\<rparr>)})"

fun set_addrs :: "(u32 \<times> u16) option \<Rightarrow> addr list \<Rightarrow> pbuf_heap \<Rightarrow> pbuf_heap option" where
  "set_addrs None ps H = Some H"
| "set_addrs (Some ip) [] H = Some H"
| "set_addrs (Some ip) (p # ps) H = do {
     H \<leftarrow> upd_pbuf p (\<lambda>b. b\<lparr>pb_addr := fst ip, pb_port := snd ip\<rparr>) H;
     set_addrs (Some ip) ps H}"

text \<open>The address is that of the socket address with its port in host order.\<close>

definition app_buff_write :: "'m io_env \<Rightarrow> addr \<Rightarrow> u8 list \<Rightarrow> u32 \<Rightarrow> (u32 \<times> u16) option \<Rightarrow> 'm io_state \<Rightarrow> (nat \<times> 'm io_state) option" where
  "app_buff_write E a xs write_num ip S = do {
     q \<leftarrow> send_ring_of a S;
     let (n, ps, r) = gazelle_ring_read (elems E) q write_num;
     (if n \<noteq> write_num then None
      else do {
        (send_len, H) \<leftarrow> do_app_write E ps xs (pbufs S);
        H \<leftarrow> set_addrs ip ps H;
        l \<leftarrow> H (last ps);
        Some (send_len, (set_send_ring a (gazelle_ring_read_over r) S)\<lparr>pbufs := H,
          remain_len := (remain_len S)(a := mbuf_max E - pb_len l)\<rparr>)})}"


section \<open>Appending to what waits in the ring\<close>

text \<open>
  The entry before \<open>prod.tail\<close>, if the stack thread has not taken it and its lock is free (\<open>got\<close>). No value: the entry is a
  freed buffer.
\<close>

definition gazelle_ring_readlast :: "addr ring_elems \<Rightarrow> addr rte_ring \<Rightarrow> bool \<Rightarrow> pbuf_heap \<Rightarrow> addr option option" where
  "gazelle_ring_readlast R r got H =
     (let tail = cons_tail r; ld = prod_tail r - 1 in
      if ld + 1 = tail \<or> ld + 1 - tail > capacity r then Some None
      else let p = hd (dequeue_elems R (ring_size r) (ring_tbl r) ld 1) in
        map_option (\<lambda>b. if \<not> got \<or> pb_allow_in b \<noteq> 1 then None else Some p) (H p))"

definition merge_data_lastpbuf :: "'m io_env \<Rightarrow> addr \<Rightarrow> u8 list \<Rightarrow> 'm io_state \<Rightarrow> (nat \<times> 'm io_state) option" where
  "merge_data_lastpbuf E a xs S = do {
     q \<leftarrow> send_ring_of a S;
     l \<leftarrow> gazelle_ring_readlast (elems E) q (trylock E 0) (pbufs S);
     (case l of
        None \<Rightarrow> Some (0, S\<lparr>remain_len := (remain_len S)(a := 0)\<rparr>)
      | Some p \<Rightarrow> do {
          b \<leftarrow> pbufs S p;
          (if pb_next b \<noteq> None \<or> pb_len b \<ge> mbuf_max E then Some (0, S\<lparr>remain_len := (remain_len S)(a := 0)\<rparr>)
           else do {
             let room = unat (mbuf_max E - pb_len b);
             let S = S\<lparr>remain_len := (remain_len S)(a := if room \<ge> length xs then word_of_nat (room - length xs) else 0)\<rparr>;
             let send_len = min room (length xs);
             let len = pb_len b + word_of_nat send_len;
             b' \<leftarrow> put_data E (take send_len xs) (unat (pb_len b)) (b\<lparr>pb_tot_len := len, pb_len := len\<rparr>);
             Some (send_len, S\<lparr>pbufs := (pbufs S)(p \<mapsto> b')\<rparr>)})})}"

section \<open>Writing\<close>

definition replenish_send_ring :: "'m io_env \<Rightarrow> addr \<Rightarrow> 'm io_state \<Rightarrow> (bool \<times> 'm io_state) option" where
  "replenish_send_ring E a S = do {
     (again, S) \<leftarrow> replenish_send_idlembuf E a S;
     s \<leftarrow> socks (ep S) a;
     S \<leftarrow> (if netconn_is_outidle s then raise_event E a epollout S else Some S);
     Some (again, S)}"

text \<open>\<open>rpc_call_replenish\<close>: the call waits until the stack thread has run the handler, if there was a message for it.\<close>

definition rpc_replenish :: "'m io_env \<Rightarrow> addr \<Rightarrow> 'm io_state \<Rightarrow> 'm io_state option" where
  "rpc_replenish E a S = (if rpc_alloc_ok E 0 then map_option snd (replenish_send_ring E a S) else Some S)"

text \<open>\<open>sem_timedwait\<close> takes a post if there is one before its time is over.\<close>

definition sem_timedwait_nsecs :: "addr \<Rightarrow> 'm io_state \<Rightarrow> 'm io_state" where
  "sem_timedwait_nsecs a S = S\<lparr>sem_posts := (sem_posts S)(a := sem_posts S a - 1)\<rparr>"

datatype send_result = Sent nat | Send_again | Send_notconn | Send_inval

definition send_end :: "nat \<Rightarrow> 'm io_state \<Rightarrow> send_result \<times> 'm io_state" where
  "send_end n S = (if n = 0 then Send_again else Sent n, S)"

definition count_writes :: "addr option \<Rightarrow> u32 \<Rightarrow> 'm io_state \<Rightarrow> 'm io_state" where
  "count_writes w n S = app_stat_upd w (\<lambda>st. st\<lparr>app_write_cnt := app_write_cnt st + ucast n\<rparr>) S"

definition out_event_check :: "addr \<Rightarrow> 'm io_state \<Rightarrow> 'm io_state option" where
  "out_event_check a S = do {
     s \<leftarrow> socks (ep S) a;
     (case wakeup s of
        None \<Rightarrow> Some S
      | Some w \<Rightarrow> do {
          p \<leftarrow> polls (ep S) w;
          (if wtype p = Wakeup_epoll \<and> events s AND epollout \<noteq> 0
           then map_option (\<lambda>e. S\<lparr>ep := e\<rparr>) (del_data_out_event a (ep S)) else Some S)})}"

text \<open>The ring lends nothing: hang the bytes behind the last buffer that waits, or ask for new buffers. \<open>k\<close> bytes were merged.\<close>

definition write_ring_full :: "'m io_env \<Rightarrow> addr \<Rightarrow> u8 list \<Rightarrow> (u32 \<times> u16) option \<Rightarrow> nat \<Rightarrow> u32 \<Rightarrow> addr option \<Rightarrow> 'm io_state
    \<Rightarrow> (send_result \<times> 'm io_state) option" where
  "write_ring_full E a xs ip k write_num w S =
     (if \<not> expand_send_ring E then Some (send_end k (sem_timedwait_nsecs a S))
      else do {
        q \<leftarrow> send_ring_of a S;
        l \<leftarrow> gazelle_ring_readlast (elems E) q (trylock E 1) (pbufs S);
        (n, S) \<leftarrow> (case l of
            Some p \<Rightarrow> do {
              (n, S) \<leftarrow> app_direct_attach E p (drop k xs) write_num S;
              H \<leftarrow> set_addrs ip [p] (pbufs S);
              Some (n, (count_writes w write_num S)\<lparr>pbufs := H\<rparr>)}
          | None \<Rightarrow> do {
              S \<leftarrow> rpc_replenish E a S;
              Some (0, app_stat_upd w (\<lambda>st. st\<lparr>app_write_rpc := app_write_rpc st + 1\<rparr>) S)});
        Some (send_end (k + n) (S\<lparr>remain_len := (remain_len S)(a := 0)\<rparr>))})"

definition write_ring_idle :: "'m io_env \<Rightarrow> addr \<Rightarrow> u8 list \<Rightarrow> (u32 \<times> u16) option \<Rightarrow> nat \<Rightarrow> u32 \<Rightarrow> u32 \<Rightarrow> addr option \<Rightarrow> 'm io_state
    \<Rightarrow> (send_result \<times> 'm io_state) option" where
  "write_ring_idle E a xs ip k write_num write_avail w S = do {
     let cut = (\<not> expand_send_ring E \<and> write_num > write_avail);
     let write_num = (if cut then write_avail else write_num);
     let len = (if cut then unat write_avail * unat (mbuf_max E) else length xs);
     (n, S) \<leftarrow> (if len > length xs then None
        else if expand_send_ring E \<and> write_num > write_avail then app_direct_write E a (drop k xs) write_num S
        else app_buff_write E a (drop k (take len xs)) write_num ip S);
     S \<leftarrow> out_event_check a (count_writes w write_num S);
     Some (send_end (k + n) S)}"

definition write_stack_data :: "'m io_env \<Rightarrow> addr \<Rightarrow> u8 list \<Rightarrow> (u32 \<times> u16) option \<Rightarrow> 'm io_state \<Rightarrow> (send_result \<times> 'm io_state) option" where
  "write_stack_data E a xs ip S = do {
     s \<leftarrow> socks (ep S) a;
     (if 0 < sint (errevent s) then Some (Send_notconn, S)
      else if sock_stack S a = None \<or> xs = [] then Some (Sent 0, S)
      else do {
        (k, S) \<leftarrow> (if remain_len S a \<noteq> 0 then merge_data_lastpbuf E a xs S else Some (0, S));
        (if k \<ge> length xs then Some (send_end (length xs) S)
         else do {
           let write_num = word_of_nat ((length xs - k + unat (mbuf_max E) - 1) div unat (mbuf_max E));
           q \<leftarrow> send_ring_of a S;
           let write_avail = gazelle_ring_readable_count q;
           (if write_avail = 0 then write_ring_full E a xs ip k write_num (wakeup s) S
            else write_ring_idle E a xs ip k write_num write_avail (wakeup s) S)})})}"

section \<open>Telling the stack thread\<close>

definition netconn_is_dataout :: "addr \<Rightarrow> 'm io_state \<Rightarrow> bool option" where
  "netconn_is_dataout a S = map_option (\<lambda>q. gazelle_ring_readover_count q \<noteq> 0 \<or> send_lastdata S a \<noteq> None \<or> send_pre_del S a \<noteq> None)
     (send_ring_of a S)"

text \<open>
  \<open>send\<close> is \<open>lwip_send\<close>, which takes the buffers with \<open>write_lwip_data\<close>. A message is freed unless it is queued again. The first argument of
  \<open>stack_send_handler\<close> is what \<open>get_socket\<close> finds.
\<close>

definition do_lwip_send :: "'m io_env \<Rightarrow> (addr \<Rightarrow> u64 \<Rightarrow> 'm io_state \<Rightarrow> 'm io_state option) \<Rightarrow> addr \<Rightarrow> u64 \<Rightarrow> 'm io_state
    \<Rightarrow> (bool \<times> 'm io_state) option" where
  "do_lwip_send E send a len S = Option.bind (send a (if is_udp E a then len else 0xFFFF) S) (replenish_send_ring E a)"

definition rpc_call_send_msg :: "addr \<Rightarrow> u64 \<Rightarrow> 'm io_state \<Rightarrow> 'm io_state" where
  "rpc_call_send_msg a len S = S\<lparr>send_msgs := send_msgs S @ [(a, len)]\<rparr>"

definition add_call_num :: "addr \<Rightarrow> u32 \<Rightarrow> 'm io_state \<Rightarrow> 'm io_state" where
  "add_call_num a k S = S\<lparr>call_num := (call_num S)(a := call_num S a + k)\<rparr>"

definition stack_send_handler :: "'m io_env \<Rightarrow> (addr \<Rightarrow> u64 \<Rightarrow> 'm io_state \<Rightarrow> 'm io_state option) \<Rightarrow> addr option \<Rightarrow> u64 \<Rightarrow> 'm io_state
    \<Rightarrow> 'm io_state option" where
  "stack_send_handler E send sock len S =
     (case sock of
        None \<Rightarrow> Some S
      | Some a \<Rightarrow> do {
          (again, S) \<leftarrow> do_lwip_send E send a len S;
          let S = add_call_num a (- 1) S;
          out \<leftarrow> netconn_is_dataout a S;
          Some (if \<not> out \<and> \<not> again then S
                else if call_num S a = 0 then add_call_num a 1 (rpc_call_send_msg a len S)
                else S)})"

text \<open>The loop asks for a message until there is one; no value when there never is.\<close>

partial_function (option) rpc_retry :: "(nat \<Rightarrow> bool) \<Rightarrow> nat \<Rightarrow> nat option" where
  "rpc_retry ok k = (if ok k then Some k else rpc_retry ok (k + 1))"

definition notice_stack_send :: "'m io_env \<Rightarrow> addr \<Rightarrow> nat \<Rightarrow> 'm io_state \<Rightarrow> 'm io_state option" where
  "notice_stack_send E a len S =
     (if call_num S a < 2
      then map_option (\<lambda>k. add_call_num a 1 (rpc_call_send_msg a (scast (word_of_nat len :: u32)) S)) (rpc_retry (rpc_alloc_ok E) 0)
      else Some S)"

definition gazelle_send :: "'m io_env \<Rightarrow> addr \<Rightarrow> u8 list option \<Rightarrow> (u32 \<times> u16) option \<Rightarrow> 'm io_state \<Rightarrow> (send_result \<times> 'm io_state) option" where
  "gazelle_send E a buf ip S =
     (case buf of
        None \<Rightarrow> Some (Send_inval, S)
      | Some xs \<Rightarrow>
          if xs = [] then Some (Sent 0, S)
          else let S = thread_bind_stack E a S in
          case node_tx S a of
            Some r \<Rightarrow> map_option (\<lambda>(n, r). (if n = - 1 then Send_again else Sent (nat n), S\<lparr>node_tx := (node_tx S)(a \<mapsto> r)\<rparr>))
                (gazelle_same_node_ring_send (node_p E) xs (word_of_nat (length xs)) r)
          | None \<Rightarrow> do {
              (r, S) \<leftarrow> write_stack_data E a xs ip S;
              (case r of
                 Sent (Suc n) \<Rightarrow> map_option (Pair r) (notice_stack_send E a (Suc n) S)
               | _ \<Rightarrow> Some (r, S))})"

text \<open>The pieces of a \<open>sendmsg\<close>, with the bytes sent so far.\<close>

fun sendmsg_loop :: "'m io_env \<Rightarrow> addr \<Rightarrow> u8 list list \<Rightarrow> nat \<Rightarrow> 'm io_state \<Rightarrow> (send_result \<times> 'm io_state) option" where
  "sendmsg_loop E a [] buflen S = Some (Sent buflen, S)"
| "sendmsg_loop E a (xs # iov) buflen S =
     (if xs = [] then sendmsg_loop E a iov buflen S
      else do {
        (r, S) \<leftarrow> write_stack_data E a xs None S;
        (case r of
           Sent (Suc n) \<Rightarrow> if Suc n < length xs then Some (Sent (buflen + Suc n), S) else sendmsg_loop E a iov (buflen + Suc n) S
         | _ \<Rightarrow> Some (if buflen = 0 then r else Sent buflen, S))})"

definition sendmsg_to_stack :: "'m io_env \<Rightarrow> addr \<Rightarrow> u64 option list option \<Rightarrow> u8 list list \<Rightarrow> 'm io_state
    \<Rightarrow> (send_result \<times> 'm io_state) option" where
  "sendmsg_to_stack E a iov pieces S =
     (if \<not> check_msg_vaild iov then Some (Send_inval, S)
      else do {
        (r, S) \<leftarrow> sendmsg_loop E a pieces 0 S;
        (case r of
           Sent (Suc n) \<Rightarrow> map_option (Pair r) (notice_stack_send E a (Suc n) S)
         | _ \<Rightarrow> Some (r, S))})"
section \<open>Filling a list of buffers\<close>

text \<open>A buffer with nothing in it, and one with bytes to send.\<close>

definition idle :: "'m io_env \<Rightarrow> pbuf_heap \<Rightarrow> addr \<Rightarrow> bool" where
  "idle E H x \<longleftrightarrow> (\<exists>b. H x = Some b \<and> pb_len b = mbuf_max E \<and> pb_tot_len b = mbuf_max E \<and> unat (mbuf_max E) \<le> length (pb_payload b))"

definition sendable :: "'m io_env \<Rightarrow> pbuf_heap \<Rightarrow> addr \<Rightarrow> bool" where
  "sendable E H x \<longleftrightarrow> (\<exists>b. H x = Some b \<and> pb_tot_len b = pb_len b \<and> 0 < pb_len b \<and> pb_len b \<le> mbuf_max E \<and>
     unat (mbuf_max E) \<le> length (pb_payload b))"

text \<open>Only the bytes and the lengths of a buffer differ.\<close>

definition same_links :: "pbuf_heap \<Rightarrow> pbuf_heap \<Rightarrow> addr \<Rightarrow> bool" where
  "same_links H H' x \<longleftrightarrow> (\<exists>b b'. H x = Some b \<and> H' x = Some b' \<and> pb_next b' = pb_next b \<and> pb_last b' = pb_last b)"

lemma unat_lt16: "unat (x :: u16) < 65536"
  using unsigned_less [of x, where 'a = nat] by simp

lemma unat_word_of_nat16: "n < 65536 \<Longrightarrow> unat (word_of_nat n :: u16) = n"
  by (simp add: unsigned_of_nat take_bit_nat_eq_self)

lemma put_data_law:
  assumes "lwip_ok (lwip E)" and "off + length xs \<le> unat (pb_len b)" and "pb_tot_len b = pb_len b" and "unat (pb_len b) \<le> length (pb_payload b)"
  shows "put_data E xs off b = Some (b\<lparr>pb_payload := take off (pb_payload b) @ xs @ drop (off + length xs) (pb_payload b)\<rparr>)"
  using assms lwip_okD6 [OF assms(1), rule_format, of off xs b] by (simp add: put_data_def)

lemma fill_one:
  assumes L: "lwip_ok (lwip E)" and i: "idle E H p" and n: "0 < length xs" "length xs \<le> unat (mbuf_max E)" and l: "l = word_of_nat (length xs)"
  shows "\<exists>b b'. H p = Some b \<and> put_data E xs 0 b = Some b' \<and>
    (let H' = H(p \<mapsto> b'\<lparr>pb_tot_len := l, pb_len := l\<rparr>) in sendable E H' p \<and> same_links H H' p \<and> chain_bytes H' [p] = xs)"
proof -
  obtain b where b: "H p = Some b" "pb_len b = mbuf_max E" "pb_tot_len b = mbuf_max E" "unat (mbuf_max E) \<le> length (pb_payload b)"
    using i by (auto simp: idle_def)
  have u: "unat l = length xs" using n(2) unat_lt16 [of "mbuf_max E"] unfolding l by (intro unat_word_of_nat16) linarith
  let ?b = "b\<lparr>pb_payload := xs @ drop (length xs) (pb_payload b)\<rparr>"
  have "put_data E xs 0 b = Some ?b" using put_data_law [OF L, of 0 xs b] b n(2) by simp
  moreover have "0 < l" "l \<le> mbuf_max E" using u n by (simp_all add: word_less_nat_alt word_le_nat_alt)
  ultimately show ?thesis using b n u
    by (intro exI [of _ b] exI [of _ ?b]) (simp add: Let_def sendable_def same_links_def pb_data_def)
qed

lemma idle_other: "x \<noteq> p \<Longrightarrow> idle E (H(p \<mapsto> b)) x = idle E H x"
  by (simp add: idle_def)

lemma do_app_write_law:
  assumes L: "lwip_ok (lwip E)"
  shows "ps \<noteq> [] \<Longrightarrow> distinct ps \<Longrightarrow> \<forall>p \<in> set ps. idle E H p \<Longrightarrow> length xs \<le> length ps * unat (mbuf_max E) \<Longrightarrow>
    (length ps - 1) * unat (mbuf_max E) < length xs \<Longrightarrow>
    \<exists>H'. do_app_write E ps xs H = Some (length xs, H') \<and> (\<forall>x. x \<notin> set ps \<longrightarrow> H' x = H x) \<and>
      (\<forall>p \<in> set ps. sendable E H' p \<and> same_links H H' p) \<and> chain_bytes H' ps = xs"
proof (induction ps arbitrary: xs H rule: induct_list012)
  case (2 p)
  then have n: "0 < length xs" "length xs \<le> unat (mbuf_max E)" by simp_all
  have u: "unat (word_of_nat (length xs) :: u16) = length xs" using n(2) unat_lt16 [of "mbuf_max E"] by (intro unat_word_of_nat16) linarith
  obtain b b' where b: "H p = Some b" "put_data E xs 0 b = Some b'" and
    r: "let H' = H(p \<mapsto> b'\<lparr>pb_tot_len := word_of_nat (length xs), pb_len := word_of_nat (length xs)\<rparr>) in
      sendable E H' p \<and> same_links H H' p \<and> chain_bytes H' [p] = xs"
    using fill_one [OF L _ n refl, of H p] 2(3) by auto
  show ?case using b r u by (simp add: Let_def)
next
  case (3 p q ps)
  let ?M = "unat (mbuf_max E)" and ?xs = "take (unat (mbuf_max E)) xs" and ?ys = "drop (unat (mbuf_max E)) xs"
  have M: "?M < length xs" using 3(7) by simp
  have "?M \<noteq> 0" using 3(6,7) by (cases "?M") simp_all
  then have n: "0 < length ?xs" "length ?xs \<le> ?M" using M by simp_all
  have l: "mbuf_max E = word_of_nat (length ?xs)" using M by simp
  obtain b b' where b: "H p = Some b" "put_data E ?xs 0 b = Some b'" and
    r: "let H' = H(p \<mapsto> b'\<lparr>pb_tot_len := mbuf_max E, pb_len := mbuf_max E\<rparr>) in
      sendable E H' p \<and> same_links H H' p \<and> chain_bytes H' [p] = ?xs"
    using fill_one [OF L _ n l, of H p] 3(5) by auto
  define G where "G = H(p \<mapsto> b'\<lparr>pb_tot_len := mbuf_max E, pb_len := mbuf_max E\<rparr>)"
  have G: "sendable E G p" "same_links H G p" "chain_bytes G [p] = ?xs" using r by (simp_all add: G_def Let_def)
  have pn: "p \<notin> set (q # ps)" using 3(4) by simp
  have "idle E G x" if "x \<in> set (q # ps)" for x using 3(5) pn that unfolding G_def by (subst idle_other) auto
  then have "\<forall>x \<in> set (q # ps). idle E G x" by blast
  moreover have "length ?ys \<le> length (q # ps) * ?M" "(length (q # ps) - 1) * ?M < length ?ys" using 3(6,7) by (simp_all add: algebra_simps)
  ultimately obtain H' where H': "do_app_write E (q # ps) ?ys G = Some (length ?ys, H')" "\<forall>x. x \<notin> set (q # ps) \<longrightarrow> H' x = G x"
    "\<forall>x \<in> set (q # ps). sendable E H' x \<and> same_links G H' x" "chain_bytes H' (q # ps) = ?ys"
    using 3(2) [of G ?ys] 3(4) by auto
  have p: "H' p = G p" using H'(2) pn by blast
  have run: "do_app_write E (p # q # ps) xs H = Some (length xs, H')"
    using b H'(1) M by (simp add: G_def [symmetric])
  have "chain_bytes H' (p # q # ps) = xs" using H'(4) G(3) p by (simp del: append_take_drop_id add: append_take_drop_id [of ?M xs])
  moreover have "sendable E H' p" "same_links H H' p" using G p by (simp_all add: sendable_def same_links_def)
  moreover have "sendable E H' x \<and> same_links H H' x" if "x \<in> set (q # ps)" for x
  proof -
    have "G x = H x" using pn that by (auto simp: G_def)
    moreover have "sendable E H' x \<and> same_links G H' x" using H'(3) that by blast
    ultimately show ?thesis by (simp add: same_links_def)
  qed
  moreover have "H' x = H x" if "x \<notin> set (p # q # ps)" for x using H'(2) that by (simp add: G_def)
  ultimately show ?case using run by (intro exI [of _ H']) auto
qed simp
section \<open>What waits, as lists of chains\<close>

text \<open>
  \<open>hs\<close> are the chains the stack thread has in hand, \<open>fs\<close> those that wait in the ring, \<open>ls\<close> the buffers lent to the
  application; \<open>P\<close> are the bytes not yet taken by lwip.
\<close>

definition ends_at :: "pbuf_heap \<Rightarrow> (addr \<Rightarrow> addr list) \<Rightarrow> addr \<Rightarrow> bool" where
  "ends_at H C p \<longleftrightarrow> (\<exists>b. H p = Some b \<and> pb_last b = last (C p))"

definition tx_lists :: "'m io_env \<Rightarrow> pbuf_heap \<Rightarrow> (addr \<Rightarrow> addr list) \<Rightarrow> addr list \<Rightarrow> addr list \<Rightarrow> addr list \<Rightarrow> u8 list \<Rightarrow> bool" where
  "tx_lists E H C hs fs ls P \<longleftrightarrow>
     chains_ok H C (hs @ fs @ ls) \<and> (\<forall>x \<in> owned C (hs @ fs). sendable E H x) \<and> (\<forall>p \<in> set (fs @ ls). ends_at H C p) \<and>
     (\<forall>p \<in> set ls. C p = [p] \<and> idle E H p) \<and> P = bytes_of H C (hs @ fs)"

lemma tx_listsD:
  assumes "tx_lists E H C hs fs ls P"
  shows "chains_ok H C (hs @ fs @ ls)" and "\<And>x. x \<in> owned C (hs @ fs) \<Longrightarrow> sendable E H x" and "\<And>p. p \<in> set (fs @ ls) \<Longrightarrow> ends_at H C p"
    and "\<And>p. p \<in> set ls \<Longrightarrow> C p = [p]" and "\<And>p. p \<in> set ls \<Longrightarrow> idle E H p" and "P = bytes_of H C (hs @ fs)"
  using assms unfolding tx_lists_def by blast+

lemma owned_cong: "(\<And>p. p \<in> set ps \<Longrightarrow> C' p = C p) \<Longrightarrow> owned C' ps = owned C ps"
  by (simp add: owned_def)

lemma chains_ok_cong: "chains_ok H C ps \<Longrightarrow> (\<And>p. p \<in> set ps \<Longrightarrow> C' p = C p) \<Longrightarrow> chains_ok H C' ps"
  unfolding chains_ok_def by (auto cong: map_cong)

lemma head_owned: "chains_ok H C ps \<Longrightarrow> p \<in> set ps \<Longrightarrow> p \<in> owned C ps"
  using chains_ok_head [of H C ps p] by (auto simp: owned_def)

text \<open>The end \<open>es\<close> of what waits, or the first of the lent buffers, become \<open>ns\<close>, with \<open>xs\<close> more bytes.\<close>

lemma tx_change:
  assumes I: "tx_lists E H C hs (fs @ es) (ms @ ls) P"
    and H: "\<And>x. x \<in> owned C (hs @ fs @ ls) \<Longrightarrow> H' x = H x" and C: "\<And>p. p \<in> set (hs @ fs @ ls) \<Longrightarrow> C' p = C p"
    and ns: "chains_ok H' C' ns" "owned C' ns \<inter> owned C (hs @ fs @ ls) = {}" "\<And>x. x \<in> owned C' ns \<Longrightarrow> sendable E H' x"
      "\<And>p. p \<in> set ns \<Longrightarrow> ends_at H' C' p" "bytes_of H' C' ns = bytes_of H C es @ xs"
  shows "tx_lists E H' C' hs (fs @ ns) ls (P @ xs)"
proof -
  note D = tx_listsD [OF I]
  have ch: "chains_ok H C (hs @ fs @ ls)" using D(1) by (auto simp: chains_ok_append)
  have ow: "owned C' ps = owned C ps" if "set ps \<subseteq> set (hs @ fs @ ls)" for ps
    by (rule owned_cong) (use C that in blast)
  have c1: "chains_ok H' C' (hs @ fs @ ls)" by (rule chains_ok_cong [OF chains_ok_heap [OF ch H] C])
  have c2: "chains_ok H' C' (hs @ (fs @ ns) @ ls)" using c1 ns(1,2) ow [of hs] ow [of fs] ow [of ls] ow [of "hs @ fs @ ls"]
    by (auto simp: chains_ok_append)
  have eq: "H' p = H p" if "p \<in> set (hs @ fs @ ls)" for p using H head_owned [OF ch that] by blast
  have bs: "bytes_of H' C' (hs @ fs) = bytes_of H C (hs @ fs)"
  proof -
    have "bytes_of H' C' (hs @ fs) = bytes_of H' C (hs @ fs)" unfolding bytes_of_def
      by (rule arg_cong [where f = concat], rule map_cong [OF refl]) (use C in auto)
    also have "\<dots> = bytes_of H C (hs @ fs)" by (rule bytes_of_cong) (use H in \<open>auto simp: owned_def\<close>)
    finally show ?thesis .
  qed
  have "sendable E H' x" if "x \<in> owned C (hs @ fs)" for x using D(2) H that by (auto simp: sendable_def)
  moreover have "ends_at H' C' p" if "p \<in> set (fs @ ls)" for p
    using D(3) [of p] that eq [of p] C [of p] by (auto simp: ends_at_def)
  moreover have "C' p = [p] \<and> idle E H' p" if "p \<in> set ls" for p
    using D(4,5) [of p] that eq [of p] C [of p] by (auto simp: idle_def)
  moreover have "bytes_of H' C' (hs @ fs @ ns) = P @ xs" using bs D(6) ns(5) by (simp add: bytes_of_simps)
  ultimately show ?thesis unfolding tx_lists_def using c2 ns(3,4) ow [of hs] ow [of fs] by auto
qed
text \<open>Fields of a buffer that do not matter to the bytes, the end and the links.\<close>

lemma tx_attr:
  assumes I: "tx_lists E H C hs fs ls P" and b: "H p = Some b" and
    b': "pb_next b' = pb_next b" "pb_len b' = pb_len b" "pb_tot_len b' = pb_tot_len b" "pb_payload b' = pb_payload b" "pb_last b' = pb_last b"
  shows "tx_lists E (H(p \<mapsto> b')) C hs fs ls P"
proof -
  let ?H = "H(p \<mapsto> b')"
  note D = tx_listsD [OF I]
  have ch: "chain_list ?H x = Some cs" if "chain_list H x = Some cs" for x cs
    by (rule chain_list_cong [OF that]) (use b b'(1) in auto)
  have cb: "chain_bytes ?H cs = chain_bytes H cs" for cs
    unfolding chain_bytes_def by (intro arg_cong [where f = concat] map_cong refl) (use b b' in \<open>simp add: pb_data_def\<close>)
  have c1: "chains_ok ?H C (hs @ fs @ ls)" using D(1) ch unfolding chains_ok_def by blast
  have b1: "P = bytes_of ?H C (hs @ fs)" using D(6) cb by (simp add: bytes_of_def)
  have s1: "sendable E ?H x" if "x \<in> owned C (hs @ fs)" for x using D(2) [OF that] b b' by (auto simp: sendable_def)
  have e1: "ends_at ?H C x" if "x \<in> set (fs @ ls)" for x using D(3) [OF that] b b' by (auto simp: ends_at_def)
  have i1: "C x = [x] \<and> idle E ?H x" if "x \<in> set ls" for x using D(4,5) [OF that] b b' by (auto simp: idle_def)
  show ?thesis unfolding tx_lists_def using c1 b1 s1 e1 i1 by blast
qed

lemma tx_shift: "tx_lists E H C hs (p # fs) ls P \<Longrightarrow> tx_lists E H C (hs @ [p]) fs ls P"
  by (simp add: tx_lists_def)

text \<open>The first buffer of the first chain is cut off.\<close>

lemma tx_split:
  assumes I: "tx_lists E H C (p # hs) fs ls P" and b: "H p = Some b" and c: "C p = p # cs"
    and H': "H' = H(p \<mapsto> b\<lparr>pb_next := None\<rparr>)" and q: "qs = (if cs = [] then [] else [hd cs])"
    and C': "C' = (\<lambda>x. if x = p then [p] else if x \<in> set qs then cs else C x)"
  shows "tx_lists E H' C' (p # qs @ hs) fs ls P" and "pb_next b = (if cs = [] then None else Some (hd cs))"
proof -
  note D = tx_listsD [OF I]
  have cp: "chain_list H (Some p) = Some (p # cs)" and dis: "distinct (concat (map C (p # hs @ fs @ ls)))"
    using D(1) c by (simp_all add: chains_ok_def)
  then have nx: "chain_list H (pb_next b) = Some cs" using b by (auto simp: chain_list_Some)
  show n: "pb_next b = (if cs = [] then None else Some (hd cs))"
    using nx by (cases cs) (auto simp: chain_list_Nil chain_list_Cons)
  let ?R = "hs @ fs @ ls"
  have dp: "p \<notin> set cs" "distinct cs" and dr: "set (p # cs) \<inter> owned C ?R = {}" "distinct (concat (map C ?R))"
    using dis c by (auto simp: owned_def)
  have chR: "chains_ok H C ?R" using D(1) by (simp add: chains_ok_def)
  have eqH: "H' x = H x" if "x \<noteq> p" for x using that H' by simp
  have qcs: "set qs \<subseteq> set cs" using q by auto
  have eqC: "C' x = C x" if "x \<in> set ?R" for x
    using head_owned [OF chR that] dr(1) qcs C' by auto
  have pR: "p \<notin> owned C ?R" using dr(1) by simp
  have eqR: "H' x = H x" if "x \<in> owned C ?R" for x using that eqH pR by metis
  have r1: "chains_ok H' C' ?R" by (rule chains_ok_cong [OF chains_ok_heap [OF chR eqR] eqC])
  have oR: "owned C' ps = owned C ps" if "set ps \<subseteq> set ?R" for ps by (rule owned_cong) (use eqC that in blast)
  have "set hs \<subseteq> set ?R" "set fs \<subseteq> set ?R" "set ls \<subseteq> set ?R" by auto
  then have o3: "owned C' hs = owned C hs" "owned C' fs = owned C fs" "owned C' ls = owned C ls" by (simp_all only: oR)
  have cq: "chain_list H' (Some x) = Some cs" if "x \<in> set qs" for x
  proof (rule chain_list_cong [of H])
    show "chain_list H (Some x) = Some cs" using that nx n q by (auto split: if_splits)
    fix y b' assume "y \<in> set cs" "H y = Some b'"
    moreover from this have "y \<noteq> p" using dp(1) by blast
    ultimately show "\<exists>b''. H' y = Some b'' \<and> pb_next b'' = pb_next b'" using eqH by simp
  qed
  have q1: "chains_ok H' C' qs" using cq dp q C' by (auto simp: chains_ok_def split: if_splits)
  have oq: "owned C' qs = set cs" using q C' dp by (auto simp: owned_def split: if_splits)
  have p1: "chains_ok H' C' [p]" using H' C' by (simp add: chains_ok_def chain_list_Cons)
  have op: "owned C' [p] = {p}" using C' by (simp add: owned_def)
  have "chains_ok H' C' ([p] @ qs @ ?R)" unfolding chains_ok_append [of H' C' "[p]"] chains_ok_append [of H' C' qs] owned_append
    using r1 q1 p1 op oq o3 dp(1) dr(1) by auto
  then have c1: "chains_ok H' C' ((p # qs @ hs) @ fs @ ls)" by simp
  have data: "chain_bytes H' xs = chain_bytes H xs" for xs
    unfolding chain_bytes_def by (intro arg_cong [where f = concat] map_cong refl) (use b H' in \<open>simp add: pb_data_def\<close>)
  have bR: "bytes_of H' C' (hs @ fs) = bytes_of H C (hs @ fs)"
    unfolding bytes_of_def by (rule arg_cong [where f = concat], rule map_cong [OF refl]) (use data eqC in auto)
  have "concat (map C' (p # qs)) = C p"
  proof (cases cs)
    case (Cons x xs)
    then have "x \<noteq> p" using dp(1) by auto
    then show ?thesis using Cons C' q c by simp
  qed (use C' q c in simp)
  moreover have "bytes_of H' C' ps = chain_bytes H (concat (map C' ps))" for ps by (induction ps) (simp_all add: data)
  ultimately have "bytes_of H' C' (p # qs) = chain_bytes H (C p)" by metis
  then have b1: "P = bytes_of H' C' ((p # qs @ hs) @ fs)" using D(6) bR by (simp add: bytes_of_def)
  have o1: "owned C' ((p # qs @ hs) @ fs) = owned C ((p # hs) @ fs)" using o3 oq op c by (auto simp: owned_def)
  have s1: "sendable E H' x" if "x \<in> owned C' ((p # qs @ hs) @ fs)" for x
    using D(2) [of x] that b H' unfolding o1 by (auto simp: sendable_def)
  have e1: "ends_at H' C' x" if "x \<in> set (fs @ ls)" for x using D(3) [OF that] b H' eqC [of x] that by (auto simp: ends_at_def)
  have i1: "C' x = [x] \<and> idle E H' x" if "x \<in> set ls" for x
    using D(4,5) [OF that] b H' eqC [of x] that by (auto simp: idle_def)
  show "tx_lists E H' C' (p # qs @ hs) fs ls P" unfolding tx_lists_def using c1 b1 s1 e1 i1 by blast
qed

text \<open>The stack thread is done with the first chain; lwip may free it at once.\<close>

lemma tx_drop:
  assumes I: "tx_lists E H C (p # hs) fs ls P" and H': "\<And>x. x \<notin> set (C p) \<Longrightarrow> H' x = H x"
  shows "tx_lists E H' C hs fs ls (drop (length (chain_bytes H (C p))) P)" and "P = chain_bytes H (C p) @ drop (length (chain_bytes H (C p))) P"
proof -
  note D = tx_listsD [OF I]
  let ?R = "hs @ fs @ ls"
  have dj: "set (C p) \<inter> owned C ?R = {}" and chR: "chains_ok H C ?R" using D(1) by (auto simp: chains_ok_def owned_def)
  have eq: "H' x = H x" if "x \<in> owned C ?R" for x using H' dj that by blast
  have hd: "H' x = H x" if "x \<in> set ?R" for x by (rule eq [OF head_owned [OF chR that]])
  show P: "P = chain_bytes H (C p) @ drop (length (chain_bytes H (C p))) P" using D(6) by simp
  have c1: "chains_ok H' C ?R" by (rule chains_ok_heap [OF chR eq])
  have "bytes_of H' C (hs @ fs) = bytes_of H C (hs @ fs)" by (rule bytes_of_cong) (use eq in auto)
  then have b1: "drop (length (chain_bytes H (C p))) P = bytes_of H' C (hs @ fs)" using D(6) by simp
  have s1: "sendable E H' x" if "x \<in> owned C (hs @ fs)" for x
  proof -
    have "x \<in> owned C ((p # hs) @ fs)" "x \<in> owned C ?R" using that by (auto simp: owned_def)
    then show ?thesis using D(2) eq by (simp add: sendable_def)
  qed
  have e1: "ends_at H' C x" if "x \<in> set (fs @ ls)" for x using D(3) [OF that] hd [of x] that by (auto simp: ends_at_def)
  have i1: "C x = [x] \<and> idle E H' x" if "x \<in> set ls" for x using D(4,5) [OF that] hd [of x] that by (auto simp: idle_def)
  show "tx_lists E H' C hs fs ls (drop (length (chain_bytes H (C p))) P)" unfolding tx_lists_def using c1 b1 s1 e1 i1 by blast
qed
section \<open>The socket\<close>

definition heads :: "addr \<Rightarrow> 'm io_state \<Rightarrow> addr list" where
  "heads a S = (case send_pre_del S a of None \<Rightarrow> [] | Some p \<Rightarrow> [p]) @ (case send_lastdata S a of None \<Rightarrow> [] | Some p \<Rightarrow> [p])"

definition tx_at :: "'m io_env \<Rightarrow> addr \<Rightarrow> 'm io_state \<Rightarrow> ep_sock \<Rightarrow> (addr \<Rightarrow> addr list) \<Rightarrow> u8 list \<Rightarrow> bool" where
  "tx_at E a S s C P \<longleftrightarrow>
     sock_alive a S s \<and> has_send_ring S a \<and> ring_inv (elems E) (send_ring s) \<and> in_read (elems E) (send_ring s) = [] \<and>
     tx_lists E (pbufs S) C (heads a S) (filled (elems E) (send_ring s)) (lent (elems E) (send_ring s)) P \<and>
     (\<forall>p. send_pre_del S a = Some p \<longrightarrow> send_lastdata S a \<noteq> None \<longrightarrow> C p = [p])"

definition tx_inv :: "'m io_env \<Rightarrow> addr \<Rightarrow> 'm io_state \<Rightarrow> u8 list \<Rightarrow> bool" where
  "tx_inv E a S P \<longleftrightarrow> (\<exists>s C. tx_at E a S s C P)"

lemma tx_atD:
  assumes "tx_at E a S s C P"
  shows "sock_alive a S s" "socks (ep S) a = Some s" "has_send_ring S a" "ring_inv (elems E) (send_ring s)" "in_read (elems E) (send_ring s) = []"
    "tx_lists E (pbufs S) C (heads a S) (filled (elems E) (send_ring s)) (lent (elems E) (send_ring s)) P"
    "\<And>p q. send_pre_del S a = Some p \<Longrightarrow> send_lastdata S a = Some q \<Longrightarrow> C p = [p]" "send_ring_of a S = Some (send_ring s)"
  using assms by (auto simp: tx_at_def sock_alive_def send_ring_of_def)

lemma set_send_ring_socks: "socks (ep S) a = Some s \<Longrightarrow> socks (ep (set_send_ring a r S)) a = Some (s\<lparr>send_ring := r\<rparr>)"
  by (simp add: set_send_ring_def sock_upd_def)

lemma set_send_ring_frame [simp]:
  "pbufs (set_send_ring a r S) = pbufs S" "send_pre_del (set_send_ring a r S) = send_pre_del S"
  "send_lastdata (set_send_ring a r S) = send_lastdata S" "has_send_ring (set_send_ring a r S) = has_send_ring S"
  "polls (ep (set_send_ring a r S)) = polls (ep S)"
  by (simp_all add: set_send_ring_def sock_upd_def)

lemma set_send_ring_alive: "sock_alive a S s \<Longrightarrow> sock_alive a (set_send_ring a r S) (s\<lparr>send_ring := r\<rparr>)"
  by (simp add: sock_alive_def set_send_ring_socks)

text \<open>The first chain starts with a buffer that has something to send.\<close>

lemma first_chain:
  assumes "tx_lists E H C (p # hs) fs ls P"
  shows "\<exists>b cs. H p = Some b \<and> C p = p # cs \<and> sendable E H p \<and> pb_tot_len b = pb_len b \<and> 0 < length (pb_data b) \<and> unat (pb_len b) = length (pb_data b) \<and>
    P = pb_data b @ drop (length (pb_data b)) P \<and> (pb_next b = None \<longrightarrow> cs = [])"
proof -
  note D = tx_listsD [OF assms]
  have ch: "chain_list H (Some p) = Some (C p)" using D(1) by (simp add: chains_ok_def)
  then obtain b cs where b: "H p = Some b" "chain_list H (pb_next b) = Some cs" "C p = p # cs" by (auto simp: chain_list_Some)
  have s: "sendable E H p" by (rule D(2)) (use b(3) in \<open>simp add: owned_def\<close>)
  have l: "pb_tot_len b = pb_len b" "0 < pb_len b" "unat (pb_len b) \<le> length (pb_payload b)"
    using s b(1) by (auto simp: sendable_def word_le_nat_alt)
  then have len: "length (pb_data b) = unat (pb_len b)" by (simp add: pb_data_length)
  have "P = pb_data b @ chain_bytes H cs @ bytes_of H C (hs @ fs)" using D(6) b(1,3) by simp
  then have "P = pb_data b @ drop (length (pb_data b)) P" by simp
  moreover have "pb_next b = None \<longrightarrow> cs = []" using b(2) by auto
  ultimately show ?thesis using b s l len by (intro exI [of _ b] exI [of _ cs]) (simp add: word_less_nat_alt)
qed

text \<open>What \<open>write_lwip_data\<close> promises: the first buffer, cut off, or nothing when there is none or it is too large.\<close>

definition taken :: "'m io_env \<Rightarrow> addr \<Rightarrow> u16 \<Rightarrow> 'm io_state \<Rightarrow> addr option \<Rightarrow> u8 list \<Rightarrow> bool" where
  "taken E a remain S po P \<longleftrightarrow>
     (case po of
        Some p \<Rightarrow> send_pre_del S a = Some p \<and> (\<exists>b. pbufs S p = Some b \<and> pb_next b = None \<and> pb_tot_len b \<le> remain \<and>
          pb_data b \<noteq> [] \<and> P = pb_data b @ drop (length (pb_data b)) P)
      | None \<Rightarrow> P = [] \<or> (\<exists>p b. (send_pre_del S a = Some p \<or> send_pre_del S a = None \<and> send_lastdata S a = Some p) \<and> pbufs S p = Some b \<and>
          pb_tot_len b > remain \<and> P = pb_data b @ drop (length (pb_data b)) P))"

lemma take_first_law:
  assumes I: "tx_lists E (pbufs S) C (p # hs) fs ls P" and hs: "hs = []"
  shows "\<exists>b b' S' C'. pbufs S p = Some b \<and> take_first a p S = Some S' \<and>
    S' = S\<lparr>send_lastdata := (send_lastdata S)(a := pb_next b), pbufs := (pbufs S)(p \<mapsto> b')\<rparr> \<and> b' = b\<lparr>pb_next := None\<rparr> \<and> C' p = [p] \<and>
    tx_lists E (pbufs S') C' (p # (case pb_next b of None \<Rightarrow> [] | Some q \<Rightarrow> [q])) fs ls P"
proof -
  obtain b cs where b: "pbufs S p = Some b" "C p = p # cs" using first_chain [OF I] by blast
  let ?C = "\<lambda>x. if x = p then [p] else if x \<in> set (if cs = [] then [] else [hd cs]) then cs else C x"
  note T = tx_split [OF I b refl refl refl]
  have q: "(case pb_next b of None \<Rightarrow> [] | Some q \<Rightarrow> [q]) = (if cs = [] then [] else [hd cs])" using T(2) by simp
  have "tx_lists E ((pbufs S)(p \<mapsto> b\<lparr>pb_next := None\<rparr>)) ?C (p # (case pb_next b of None \<Rightarrow> [] | Some q \<Rightarrow> [q])) fs ls P"
    unfolding q using T(1) hs by simp
  then show ?thesis using b
    by (intro exI [of _ b] exI [of _ "b\<lparr>pb_next := None\<rparr>"] exI [of _ "S\<lparr>send_lastdata := (send_lastdata S)(a := pb_next b),
      pbufs := (pbufs S)(p \<mapsto> b\<lparr>pb_next := None\<rparr>)\<rparr>"] exI [of _ ?C]) (simp add: take_first_def)
qed
lemma finish_take:
  assumes al: "sock_alive a X s" and hr: "has_send_ring X a" "ring_inv (elems E) (send_ring s)" "in_read (elems E) (send_ring s) = []"
    and pd: "send_pre_del X a = Some p"
    and I: "tx_lists E (pbufs X) C [p] (filled (elems E) (send_ring s)) (lent (elems E) (send_ring s)) P"
    and b: "pbufs X p = Some b" "pb_tot_len b \<le> remain"
  shows "\<exists>S'. take_first a p X = Some S' \<and> tx_inv E a S' P \<and> taken E a remain S' (Some p) P"
proof -
  obtain b' S' C' where t: "take_first a p X = Some S'"
    "S' = X\<lparr>send_lastdata := (send_lastdata X)(a := pb_next b), pbufs := (pbufs X)(p \<mapsto> b')\<rparr>" "b' = b\<lparr>pb_next := None\<rparr>" "C' p = [p]"
    "tx_lists E (pbufs S') C' (p # (case pb_next b of None \<Rightarrow> [] | Some q \<Rightarrow> [q])) (filled (elems E) (send_ring s)) (lent (elems E) (send_ring s)) P"
    using take_first_law [OF I refl, of a] b(1) by (metis option.inject)
  have "sock_alive a S' s" using al t(2) by (simp add: sock_alive_def)
  moreover have "heads a S' = p # (case pb_next b of None \<Rightarrow> [] | Some q \<Rightarrow> [q])" using t(2) pd by (simp add: heads_def)
  ultimately have "tx_at E a S' s C' P" using hr t pd by (simp add: tx_at_def)
  moreover obtain c where c: "pbufs S' p = Some c" "0 < length (pb_data c)" "P = pb_data c @ drop (length (pb_data c)) P"
    using first_chain [OF t(5)] by blast
  moreover have "c = b'" using c(1) t(2) by simp
  ultimately show ?thesis using t(1-3) pd b(2) by (auto simp: tx_inv_def taken_def)
qed

lemma take_pre_law:
  assumes I: "tx_at E a S s C P" and Some: "send_pre_del S a = Some p"
  shows "\<exists>po fl' S'. write_lwip_data E a remain fl S = Some (po, fl', S') \<and> tx_inv E a S' P \<and> taken E a remain S' po P"
proof -
  note D = tx_atD [OF I]
  have inv: "tx_inv E a S P" using I by (auto simp: tx_inv_def)
  let ?f = "filled (elems E) (send_ring s)" and ?l = "lent (elems E) (send_ring s)"
  define ld where "ld = (case send_lastdata S a of None \<Rightarrow> [] | Some q \<Rightarrow> [q])"
  have L: "tx_lists E (pbufs S) C (p # ld) ?f ?l P" using D(6) Some by (simp add: heads_def ld_def)
  obtain b cs where b: "pbufs S p = Some b" "C p = p # cs" "sendable E (pbufs S) p" "pb_tot_len b = pb_len b" "0 < length (pb_data b)"
    "P = pb_data b @ drop (length (pb_data b)) P" "pb_next b = None \<longrightarrow> cs = []" using first_chain [OF L] by (elim exE conjE) (rule that, assumption+)
  show ?thesis
  proof (cases "pb_tot_len b > remain")
    case True
    then have "write_lwip_data E a remain fl S = Some (None, no_more E fl, S)" using Some b(1) by (simp add: write_lwip_data_def)
    moreover have "taken E a remain S None P" using Some b True by (auto simp: taken_def)
    ultimately show ?thesis using inv by blast
  next
    case False
    define X where "X = S\<lparr>pbufs := (pbufs S)(p \<mapsto> close_entry b)\<rparr>"
    have LX: "tx_lists E (pbufs X) C (p # ld) ?f ?l P" unfolding X_def
      using tx_attr [OF L b(1), of "close_entry b"] by (simp add: close_entry_def)
    have X: "sock_alive a X s" "has_send_ring X a" "send_pre_del X a = Some p" "pbufs X p = Some (close_entry b)"
      "pb_tot_len (close_entry b) \<le> remain" "pb_next (close_entry b) = pb_next b" "pb_data (close_entry b) = pb_data b" "send_lastdata X = send_lastdata S"
      using D Some False by (auto simp: X_def sock_alive_def close_entry_def pb_data_def)
    show ?thesis
    proof (cases "pb_next b = None")
      case True
      then have "write_lwip_data E a remain fl S = Some (Some p, fl, X)" using Some b(1) False by (simp add: write_lwip_data_def X_def)
      moreover have "tx_at E a X s C P" using D LX X Some by (auto simp: tx_at_def heads_def ld_def)
      moreover have "taken E a remain X (Some p) P" using X True b by (auto simp: taken_def)
      ultimately show ?thesis by (auto simp: tx_inv_def)
    next
      case nx: False
      then have "cs \<noteq> []" using tx_split(2) [OF L b(1,2) refl refl refl] by auto
      then have "ld = []" using D(7) [OF Some] b(2) by (cases "send_lastdata S a") (auto simp: ld_def)
      then have LX': "tx_lists E (pbufs X) C [p] ?f ?l P" using LX by simp
      obtain S' where S': "take_first a p X = Some S'" "tx_inv E a S' P" "taken E a remain S' (Some p) P"
        using finish_take [OF X(1,2) D(4,5) X(3) LX' X(4,5)] by blast
      then have "write_lwip_data E a remain fl S = Some (Some p, fl, S')" using Some b(1) False nx by (simp add: write_lwip_data_def X_def [symmetric])
      then show ?thesis using S' by blast
    qed
  qed
qed

lemma take_last_law:
  assumes I: "tx_at E a S s C P" and None: "send_pre_del S a = None" and Some: "send_lastdata S a = Some p"
  shows "\<exists>po fl' S'. write_lwip_data E a remain fl S = Some (po, fl', S') \<and> tx_inv E a S' P \<and> taken E a remain S' po P"
proof -
  note D = tx_atD [OF I]
  have inv: "tx_inv E a S P" using I by (auto simp: tx_inv_def)
  let ?f = "filled (elems E) (send_ring s)" and ?l = "lent (elems E) (send_ring s)"
  have L: "tx_lists E (pbufs S) C [p] ?f ?l P" using D(6) Some None by (simp add: heads_def)
  obtain b cs where b: "pbufs S p = Some b" "0 < length (pb_data b)" "P = pb_data b @ drop (length (pb_data b)) P" using first_chain [OF L] by (elim exE conjE) (rule that, assumption+)
  show ?thesis
  proof (cases "pb_tot_len b > remain")
    case True
    then have "write_lwip_data E a remain fl S = Some (None, no_more E fl, S)" using Some None b(1) by (simp add: write_lwip_data_def)
    moreover have "taken E a remain S None P" using Some None b True by (auto simp: taken_def)
    ultimately show ?thesis using inv by blast
  next
    case False
    let ?X = "S\<lparr>send_pre_del := (send_pre_del S)(a := Some p)\<rparr>"
    have X: "sock_alive a ?X s" "has_send_ring ?X a" "send_pre_del ?X a = Some p" "tx_lists E (pbufs ?X) C [p] ?f ?l P" "pbufs ?X p = Some b"
      using D L b by (simp_all add: sock_alive_def)
    obtain S' where S': "take_first a p ?X = Some S'" "tx_inv E a S' P" "taken E a remain S' (Some p) P"
      using finish_take [OF X(1,2) D(4,5) X(3,4,5) False [unfolded not_less]] by blast
    then have "write_lwip_data E a remain fl S = Some (Some p, fl, S')" using Some None b(1) False by (simp add: write_lwip_data_def)
    then show ?thesis using S' by blast
  qed
qed

lemma take_ring_law:
  assumes I: "tx_at E a S s C P" and None: "send_pre_del S a = None" and ld: "send_lastdata S a = None"
  shows "\<exists>po fl' S'. write_lwip_data E a remain fl S = Some (po, fl', S') \<and> tx_inv E a S' P \<and> taken E a remain S' po P"
proof -
  note D = tx_atD [OF I]
  have inv: "tx_inv E a S P" using I by (auto simp: tx_inv_def)
  let ?f = "filled (elems E) (send_ring s)" and ?l = "lent (elems E) (send_ring s)"
  obtain n ps r where d: "gazelle_ring_sc_dequeue (elems E) (send_ring s) 1 = (n, ps, r)" by (metis prod_cases3)
  note Q = ring_law_dequeue [OF D(4) d]
  have L: "tx_lists E (pbufs S) C [] ?f ?l P" using D(6) ld None by (simp add: heads_def)
  show ?thesis
  proof (cases ?f)
    case Nil
    then have "n = 0" using Q(1,2) by (simp add: unat_eq_zero)
    then have "write_lwip_data E a remain fl S = Some (None, fl, S)" using None ld D(8) d by (simp add: write_lwip_data_def)
    moreover have "P = []" using tx_listsD(6) [OF L] Nil by simp
    ultimately show ?thesis using inv by (auto simp: taken_def)
  next
    case (Cons p fs)
    then have n: "n \<noteq> 0" "ps = [p]" using Q(1,2) by auto
    define s' where "s' = s\<lparr>send_ring := r\<rparr>"
    define X where "X = (set_send_ring a r S)\<lparr>send_pre_del := (send_pre_del S)(a := Some p)\<rparr>"
    have L': "tx_lists E (pbufs X) C [p] (filled (elems E) (send_ring s')) (lent (elems E) (send_ring s')) P"
      using tx_shift [of E "pbufs S" C "[]" p fs] L Cons Q(4,6) by (simp add: s'_def X_def)
    obtain b cs where b: "pbufs X p = Some b" "0 < length (pb_data b)" "P = pb_data b @ drop (length (pb_data b)) P" using first_chain [OF L'] by (elim exE conjE) (rule that, assumption+)
    have X: "sock_alive a X s'" "has_send_ring X a" "send_pre_del X a = Some p" "send_lastdata X a = None"
      "ring_inv (elems E) (send_ring s')" "in_read (elems E) (send_ring s') = []"
      using D ld set_send_ring_alive [OF D(1), of r] Q(3,5) by (auto simp: X_def s'_def sock_alive_def)
    have run: "write_lwip_data E a remain fl S = (if pb_tot_len b > remain
            then Some (None, no_more E fl, X\<lparr>pbufs := (pbufs X)(p \<mapsto> b\<lparr>pb_head := 1\<rparr>)\<rparr>)
            else Option.bind (take_first a p (if gazelle_ring_readover_count r = 0 then X\<lparr>pbufs := (pbufs X)(p \<mapsto> close_entry b)\<rparr> else X))
              (\<lambda>S. Some (Some p, fl, S)))"
      using None ld D(8) d n b(1) by (simp add: write_lwip_data_def Let_def X_def)
    show ?thesis
    proof (cases "pb_tot_len b > remain")
      case True
      let ?Y = "X\<lparr>pbufs := (pbufs X)(p \<mapsto> b\<lparr>pb_head := 1\<rparr>)\<rparr>"
      have "tx_lists E (pbufs ?Y) C [p] (filled (elems E) (send_ring s')) (lent (elems E) (send_ring s')) P"
        using tx_attr [OF L' b(1), of "b\<lparr>pb_head := 1\<rparr>"] by simp
      then have "tx_at E a ?Y s' C P" using X by (simp add: tx_at_def heads_def sock_alive_def)
      moreover have "pb_data (b\<lparr>pb_head := 1\<rparr>) = pb_data b" by (simp add: pb_data_def)
      then have "taken E a remain ?Y None P" using X b True unfolding taken_def by simp
      ultimately show ?thesis using run True by (auto simp: tx_inv_def)
    next
      case False
      let ?Y = "if gazelle_ring_readover_count r = 0 then X\<lparr>pbufs := (pbufs X)(p \<mapsto> close_entry b)\<rparr> else X"
      have LY: "tx_lists E (pbufs ?Y) C [p] (filled (elems E) (send_ring s')) (lent (elems E) (send_ring s')) P"
        using tx_attr [OF L' b(1), of "close_entry b"] L' by (simp add: close_entry_def)
      obtain c where c: "pbufs ?Y p = Some c" "pb_tot_len c \<le> remain" using b(1) False by (cases "gazelle_ring_readover_count r = 0") (auto simp: close_entry_def)
      have Y: "sock_alive a ?Y s'" "has_send_ring ?Y a" "send_pre_del ?Y a = Some p" using X by (simp_all add: sock_alive_def)
      obtain S' where S': "take_first a p ?Y = Some S'" "tx_inv E a S' P" "taken E a remain S' (Some p) P"
        using finish_take [OF Y(1,2) X(5,6) Y(3) LY c] by blast
      then show ?thesis using run False by (intro exI [of _ "Some p"] exI [of _ fl] exI [of _ S']) simp
    qed
  qed
qed

lemma write_lwip_data_law:
  assumes inv: "tx_inv E a S P"
  shows "\<exists>po fl' S'. write_lwip_data E a remain fl S = Some (po, fl', S') \<and> tx_inv E a S' P \<and> taken E a remain S' po P"
proof -
  obtain s C where I: "tx_at E a S s C P" using inv by (auto simp: tx_inv_def)
  show ?thesis
  proof (cases "send_pre_del S a")
    case None
    then show ?thesis by (cases "send_lastdata S a") (use take_last_law [OF I] take_ring_law [OF I] in auto)
  qed (rule take_pre_law [OF I])
qed
text \<open>After \<open>write_lwip_over\<close> the buffer is lwip's: it is freed at once in the model, so that using it again would show.\<close>

definition handed_over :: "addr \<Rightarrow> addr \<Rightarrow> 'm io_state \<Rightarrow> 'm io_state" where
  "handed_over a p S = (write_lwip_over a S)\<lparr>pbufs := (pbufs S)(p := None)\<rparr>"

lemma handed_over_law:
  assumes inv: "tx_inv E a S P" and p: "send_pre_del S a = Some p" "pbufs S p = Some b" "pb_next b = None"
  shows "tx_inv E a (handed_over a p S) (drop (length (pb_data b)) P)"
proof -
  obtain s C where I: "tx_at E a S s C P" using inv by (auto simp: tx_inv_def)
  note D = tx_atD [OF I]
  define ld where "ld = (case send_lastdata S a of None \<Rightarrow> [] | Some q \<Rightarrow> [q])"
  have L: "tx_lists E (pbufs S) C (p # ld) (filled (elems E) (send_ring s)) (lent (elems E) (send_ring s)) P"
    using D(6) p(1) by (simp add: heads_def ld_def)
  obtain b' cs where c: "pbufs S p = Some b'" "C p = p # cs" "pb_next b' = None \<longrightarrow> cs = []"
    using first_chain [OF L] by (elim exE conjE) (rule that, assumption+)
  then have Cp: "C p = [p]" using p by simp
  have bs: "chain_bytes (pbufs S) (C p) = pb_data b" using Cp p(2) by simp
  have "tx_lists E (pbufs (handed_over a p S)) C ld (filled (elems E) (send_ring s)) (lent (elems E) (send_ring s)) (drop (length (pb_data b)) P)"
    using tx_drop(1) [OF L, of "pbufs (handed_over a p S)"] Cp p(2) by (simp add: handed_over_def)
  then have "tx_at E a (handed_over a p S) s C (drop (length (pb_data b)) P)"
    using D by (simp add: tx_at_def handed_over_def write_lwip_over_def heads_def ld_def sock_alive_def)
  then show ?thesis by (auto simp: tx_inv_def)
qed

section \<open>New buffers\<close>

definition pool_ok :: "'m io_env \<Rightarrow> bool" where
  "pool_ok E \<longleftrightarrow> (\<forall>H n ps. alloc_bulk E H n = Some ps \<longrightarrow> length ps = n \<and> distinct ps \<and> set ps \<inter> dom H = {}) \<and>
     (\<forall>a. unat (mbuf_max E) \<le> length (raw_payload E a)) \<and> 0 < mbuf_max E"

lemma pool_okD:
  assumes "pool_ok E" and "alloc_bulk E H n = Some ps"
  shows "length ps = n" "distinct ps" "set ps \<inter> dom H = {}"
  using assms by (auto simp: pool_ok_def)

lemma init_idle: "pool_ok E \<Longrightarrow> H q = Some (init_mbuf_to_pbuf E q (mbuf_max E)) \<Longrightarrow>
    idle E H q \<and> (\<exists>b. H q = Some b \<and> pb_last b = q \<and> pb_next b = None)"
  by (simp add: idle_def init_mbuf_to_pbuf_def pool_ok_def)

lemma link_pbufs_law:
  assumes P: "pool_ok E"
  shows "distinct (p # qs) \<Longrightarrow> H p = Some b \<Longrightarrow> pb_next b = None \<Longrightarrow>
    \<exists>H' nx. link_pbufs E p qs H = Some H' \<and> (\<forall>x. x \<notin> set (p # qs) \<longrightarrow> H' x = H x) \<and> H' p = Some (b\<lparr>pb_next := nx\<rparr>) \<and>
      chain_list H' (Some p) = Some (p # qs) \<and> (\<forall>q \<in> set qs. idle E H' q)"
proof (induction qs arbitrary: p H b)
  case Nil
  have "b = b\<lparr>pb_next := None\<rparr>" using Nil.prems(3) by (cases b) simp
  then show ?case using Nil.prems by (intro exI [of _ H] exI [of _ None]) (simp add: chain_list_Cons)
next
  case (Cons q qs)
  let ?i = "init_mbuf_to_pbuf E q (mbuf_max E)"
  let ?H = "H(q \<mapsto> ?i, p \<mapsto> b\<lparr>pb_next := Some q\<rparr>)"
  have pq: "p \<noteq> q" "p \<notin> set qs" using Cons.prems(1) by auto
  have q: "?H q = Some ?i" "pb_next ?i = None" "distinct (q # qs)" using pq Cons.prems(1) by (simp_all add: init_mbuf_to_pbuf_def)
  obtain H' nx where H': "link_pbufs E q qs ?H = Some H'" "\<forall>x. x \<notin> set (q # qs) \<longrightarrow> H' x = ?H x" "H' q = Some (?i\<lparr>pb_next := nx\<rparr>)"
    "chain_list H' (Some q) = Some (q # qs)" "\<forall>x \<in> set qs. idle E H' x"
    using Cons.IH [of q ?H, OF q(3,1,2)] by (elim exE conjE) (rule that, assumption+)
  have "H' p = Some (b\<lparr>pb_next := Some q\<rparr>)" using H'(2) pq by simp
  moreover have "idle E H' q" using P H'(3) by (simp add: idle_def pool_ok_def init_mbuf_to_pbuf_def)
  moreover have "link_pbufs E p (q # qs) H = Some H'" using H'(1) Cons.prems(2) pq by simp
  moreover have "H' x = H x" if "x \<notin> set (p # q # qs)" for x using H'(2) that by simp
  ultimately show ?case using H'(4,5)
    by (intro exI [of _ H'] exI [of _ "Some q"]) (simp add: chain_list_Cons)
qed
section \<open>What the application writes comes behind what waits\<close>

lemma singles:
  assumes "\<And>p. p \<in> set ps \<Longrightarrow> C p = [p]"
  shows "owned C ps = set ps" and "bytes_of H C ps = chain_bytes H ps"
  using assms by (induction ps) (auto simp: owned_def)

lemma links_chain: "chains_ok H C ps \<Longrightarrow> (\<And>p. p \<in> set ps \<Longrightarrow> C p = [p]) \<Longrightarrow> (\<And>p. p \<in> set ps \<Longrightarrow> same_links H H' p) \<Longrightarrow> chains_ok H' C ps"
proof -
  assume c: "chains_ok H C ps" and s: "\<And>p. p \<in> set ps \<Longrightarrow> C p = [p]" and l: "\<And>p. p \<in> set ps \<Longrightarrow> same_links H H' p"
  have "chain_list H' (Some p) = Some (C p)" if "p \<in> set ps" for p
  proof -
    have "same_links H H' p" by (rule l [OF that])
    then obtain b b' where "H p = Some b" "H' p = Some b'" "pb_next b' = pb_next b" by (auto simp: same_links_def)
    moreover have "chain_list H (Some p) = Some [p]" using c s [OF that] that by (simp add: chains_ok_def)
    ultimately show ?thesis using s [OF that] by (simp add: chain_list_Cons chain_list_Nil)
  qed
  then show "chains_ok H' C ps" using c by (simp add: chains_ok_def)
qed

lemma tx_set_addrs:
  "tx_lists E H C hs fs ls P \<Longrightarrow> \<forall>p \<in> set ps. H p \<noteq> None \<Longrightarrow>
   \<exists>H'. set_addrs ip ps H = Some H' \<and> tx_lists E H' C hs fs ls P \<and> dom H' = dom H"
proof (induction ip ps H rule: set_addrs.induct)
  case (3 ip p ps H)
  then obtain b where b: "H p = Some b" by auto
  let ?b = "b\<lparr>pb_addr := fst ip, pb_port := snd ip\<rparr>"
  have u: "upd_pbuf p (\<lambda>b. b\<lparr>pb_addr := fst ip, pb_port := snd ip\<rparr>) H = Some (H(p \<mapsto> ?b))" using b by (simp add: upd_pbuf_def)
  have "tx_lists E (H(p \<mapsto> ?b)) C hs fs ls P" by (rule tx_attr [OF 3(2) b]) simp_all
  moreover have "\<forall>q \<in> set ps. (H(p \<mapsto> ?b)) q \<noteq> None" using 3(3) by simp
  ultimately obtain H' where "set_addrs (Some ip) ps (H(p \<mapsto> ?b)) = Some H'" "tx_lists E H' C hs fs ls P" "dom H' = dom (H(p \<mapsto> ?b))"
    using 3(1) [OF u] by blast
  then show ?case using u b by (auto simp: insert_absorb domI)
qed auto

text \<open>\<open>r\<close> is the ring after the read and the hand-back of \<open>n\<close> buffers.\<close>

lemma read_and_over:
  assumes "ring_inv R q" and "in_read R q = []" and "gazelle_ring_read R q n = (k, ps, r)"
  shows "ps = take (unat n) (lent R q)" "unat k = length ps" "ring_inv R (gazelle_ring_read_over r)" "in_read R (gazelle_ring_read_over r) = []"
    "filled R (gazelle_ring_read_over r) = filled R q @ ps" "lent R (gazelle_ring_read_over r) = drop (unat n) (lent R q)"
  using ring_law_read [OF assms(1,3)] ring_law_read_over [of R r] assms(2) by simp_all

lemma after_write:
  assumes "sock_alive a S s" "has_send_ring S a" "ring_inv (elems E) r" "in_read (elems E) r = []"
    and "\<And>p q. send_pre_del S a = Some p \<Longrightarrow> send_lastdata S a = Some q \<Longrightarrow> C' p = [p]"
    and "tx_lists E H C' (heads a S) (filled (elems E) r) (lent (elems E) r) P"
  shows "tx_inv E a ((set_send_ring a r S)\<lparr>pbufs := H, remain_len := f\<rparr>) P"
proof -
  let ?S = "(set_send_ring a r S)\<lparr>pbufs := H, remain_len := f\<rparr>"
  have "sock_alive a ?S (s\<lparr>send_ring := r\<rparr>)" using set_send_ring_alive [OF assms(1), of r] by (simp add: sock_alive_def)
  then have "tx_at E a ?S (s\<lparr>send_ring := r\<rparr>) C' P" using assms by (auto simp: tx_at_def heads_def)
  then show ?thesis by (auto simp: tx_inv_def)
qed

lemma app_buff_write_law:
  assumes L: "lwip_ok (lwip E)" and I: "tx_at E a S s C P" and k: "0 < unat n" "unat n \<le> length (lent (elems E) (send_ring s))"
    and xs: "length xs \<le> unat n * unat (mbuf_max E)" "(unat n - 1) * unat (mbuf_max E) < length xs"
  shows "\<exists>S'. app_buff_write E a xs n ip S = Some (length xs, S') \<and> tx_inv E a S' (P @ xs)"
proof -
  note D = tx_atD [OF I]
  note T = tx_listsD [OF D(6)]
  let ?f = "filled (elems E) (send_ring s)" and ?l = "lent (elems E) (send_ring s)"
  obtain m ps r where rd: "gazelle_ring_read (elems E) (send_ring s) n = (m, ps, r)" by (metis prod_cases3)
  note R = read_and_over [OF D(4,5) rd]
  have len: "length ps = unat n" using R(1) k by simp
  then have "unat m = unat n" using R(2) by simp
  then have mn: "m = n" "ps \<noteq> []" using len k(1) by (auto simp only: unsigned_word_eqI list.size)
  define ds where "ds = drop (unat n) ?l"
  have split: "?l = ps @ ds" using R(1) by (simp add: ds_def)
  have sub: "set ps \<subseteq> set ?l" unfolding R(1) by (rule set_take_subset)
  have Cp: "C p = [p]" "idle E (pbufs S) p" "ends_at (pbufs S) C p" if "p \<in> set ps" for p
    using T(4) T(5) T(3) [of p] subsetD [OF sub that] by simp_all
  have ch: "chains_ok (pbufs S) C ps" "owned C ps \<inter> owned C (heads a S @ ?f @ ds) = {}"
    using T(1) unfolding split chains_ok_append owned_append by blast+
  have op: "owned C ps = set ps" by (rule singles(1)) (rule Cp)
  have "distinct (concat (map C ps))" using ch(1) by (simp add: chains_ok_def)
  moreover have "concat (map C ps) = ps" using Cp(1) by (induction ps) auto
  ultimately have dis: "distinct ps" by simp
  obtain H1 where w: "do_app_write E ps xs (pbufs S) = Some (length xs, H1)" "\<forall>x. x \<notin> set ps \<longrightarrow> H1 x = pbufs S x"
    "\<forall>p \<in> set ps. sendable E H1 p \<and> same_links (pbufs S) H1 p" "chain_bytes H1 ps = xs"
    using do_app_write_law [OF L mn(2) dis _ xs [folded len]] Cp(2) by blast
  have "tx_lists E H1 C (heads a S) (?f @ ps) (ds) (P @ xs)"
  proof (rule tx_change [where es = "[]" and ms = ps and H = "pbufs S" and C = C])
    show "tx_lists E (pbufs S) C (heads a S) (?f @ []) (ps @ ds) P" using D(6) split by simp
    show "H1 x = pbufs S x" if "x \<in> owned C (heads a S @ ?f @ ds)" for x using w(2) ch(2) op that by blast
    show "chains_ok H1 C ps" by (rule links_chain [OF ch(1) Cp(1)]) (use w(3) in auto)
    show "sendable E H1 x" if "x \<in> owned C ps" for x using that w(3) op by simp
    show "ends_at H1 C p" if "p \<in> set ps" for p using Cp(3) [OF that] w(3) that by (fastforce simp: ends_at_def same_links_def)
    show "bytes_of H1 C ps = bytes_of (pbufs S) C [] @ xs" using singles(2) [of ps C H1] Cp(1) w(4) by simp
  qed (use ch(2) in simp_all)
  then have T1: "tx_lists E H1 C (heads a S) (filled (elems E) (gazelle_ring_read_over r)) (lent (elems E) (gazelle_ring_read_over r)) (P @ xs)"
    using R(5,6) by (simp add: ds_def)
  have "\<forall>p \<in> set ps. H1 p \<noteq> None" using w(3) by (auto simp: sendable_def)
  then obtain H2 where H2: "set_addrs ip ps H1 = Some H2" "dom H2 = dom H1"
    "tx_lists E H2 C (heads a S) (filled (elems E) (gazelle_ring_read_over r)) (lent (elems E) (gazelle_ring_read_over r)) (P @ xs)"
    using tx_set_addrs [OF T1] by blast
  have "last ps \<in> dom H1" using w(3) mn(2) by (force simp: sendable_def)
  then obtain l where l: "H2 (last ps) = Some l" using H2(2) by auto
  have "app_buff_write E a xs n ip S = Some (length xs, (set_send_ring a (gazelle_ring_read_over r) S)\<lparr>pbufs := H2,
      remain_len := (remain_len S)(a := mbuf_max E - pb_len l)\<rparr>)"
    using D(8) rd mn(1) w(1) H2(1) l by (simp add: app_buff_write_def)
  moreover have "tx_inv E a ((set_send_ring a (gazelle_ring_read_over r) S)\<lparr>pbufs := H2,
      remain_len := (remain_len S)(a := mbuf_max E - pb_len l)\<rparr>) (P @ xs)" by (rule after_write [OF D(1,3) R(3,4) _ H2(3)]) (rule D(7))
  ultimately show ?thesis by blast
qed
lemma readlast_law:
  assumes inv: "ring_inv R r"
  shows "gazelle_ring_readlast R r got H = (if filled R r = [] then Some None
    else map_option (\<lambda>b. if \<not> got \<or> pb_allow_in b \<noteq> 1 then None else Some (last (filled R r))) (H (last (filled R r))))"
proof -
  note D = ring_invD [OF inv]
  let ?d = "prod_tail r - cons_tail r"
  have len: "length (filled R r) = unat ?d" using D(1) by (simp add: filled_def)
  show ?thesis
  proof (cases "?d = 0")
    case True
    then have "filled R r = []" using len by simp
    moreover have "prod_tail r = cons_tail r" using True by simp
    ultimately show ?thesis by (simp add: gazelle_ring_readlast_def Let_def)
  next
    case False
    have cap: "unat ?d \<le> unat (capacity r)" using D(2,4) len by simp
    have u: "unat (?d - 1) = unat ?d - 1" using False by (intro unat_minus_le [THEN trans]) (simp_all add: unat_gt_0 Suc_leI)
    have "unat (?d - 1) + unat (1::u32) < 2 ^ 32" using u False unat_lt32 [of ?d] by (simp add: unat_gt_0)
    from window_split [OF D(1) this, of "cons_tail r"]
    have "filled R r = window R r (cons_tail r) (?d - 1) @ window R r (prod_tail r - 1) 1" by (simp add: filled_def algebra_simps)
    moreover obtain p where p: "window R r (prod_tail r - 1) 1 = [p]"
      using length_window [OF D(1), of "prod_tail r - 1" 1] by (auto simp: length_Suc_conv)
    ultimately have l: "last (filled R r) = p" "filled R r \<noteq> []" by simp_all
    have "prod_tail r \<noteq> cons_tail r" using False by auto
    moreover have "\<not> capacity r < ?d" using cap by (simp add: word_less_nat_alt)
    ultimately show ?thesis using l p unfolding l(1) by (simp add: gazelle_ring_readlast_def Let_def window_def cong del: if_weak_cong)
  qed
qed

text \<open>The last buffer that waits has grown: \<open>C'\<close> is its chain now.\<close>

lemma grow_last:
  assumes I: "tx_at E a S s C P" and p: "filled (elems E) (send_ring s) = fs @ [p]"
    and H: "\<And>x. x \<in> owned C (heads a S @ fs @ lent (elems E) (send_ring s)) \<Longrightarrow> H' x = pbufs S x"
    and C': "\<And>x. x \<noteq> p \<Longrightarrow> C' x = C x"
    and ns: "chain_list H' (Some p) = Some (C' p)" "set (C' p) \<inter> owned C (heads a S @ fs @ lent (elems E) (send_ring s)) = {}"
      "\<forall>x \<in> set (C' p). sendable E H' x" "ends_at H' C' p" "chain_bytes H' (C' p) = chain_bytes (pbufs S) (C p) @ xs"
  shows "tx_lists E H' C' (heads a S) (filled (elems E) (send_ring s)) (lent (elems E) (send_ring s)) (P @ xs)"
    and "tx_at E a (S\<lparr>pbufs := H', remain_len := f\<rparr>) s C' (P @ xs)"
proof -
  note D = tx_atD [OF I]
  let ?l = "lent (elems E) (send_ring s)"
  have T: "tx_lists E (pbufs S) C (heads a S) (fs @ [p]) ([] @ ?l) P" using D(6) p by simp
  note T1 = tx_listsD(1) [OF T]
  have pn: "q \<noteq> p" if "q \<in> set (heads a S @ fs @ ?l)" for q
  proof -
    have c: "chains_ok (pbufs S) C [p]" "chains_ok (pbufs S) C (heads a S @ fs @ ?l)" "owned C [p] \<inter> owned C (heads a S @ fs @ ?l) = {}"
      using T1 unfolding chains_ok_append owned_append by auto
    have "p \<in> owned C [p]" "q \<in> owned C (heads a S @ fs @ ?l)" by (rule head_owned [OF c(1)], simp) (rule head_owned [OF c(2) that])
    then show ?thesis using c(3) by blast
  qed
  have op: "owned C' [p] = set (C' p)" by (simp add: owned_def)
  have "tx_lists E H' C' (heads a S) (fs @ [p]) ?l (P @ xs)"
    by (rule tx_change [OF T H]) (use C' pn ns op chain_list_distinct [OF ns(1)] in \<open>simp_all add: chains_ok_def\<close>)
  then show L: "tx_lists E H' C' (heads a S) (filled (elems E) (send_ring s)) ?l (P @ xs)" using p by simp
  have "C' q = C q" if "q \<in> set (heads a S)" for q using C' pn [of q] that by auto
  then show "tx_at E a (S\<lparr>pbufs := H', remain_len := f\<rparr>) s C' (P @ xs)"
    using D L by (auto simp: tx_at_def sock_alive_def heads_def)
qed
lemma fill_new:
  assumes L: "lwip_ok (lwip E)" and pool: "pool_ok E" and p: "H p = Some b" "pb_next b = None" "idle E H p" and d: "distinct (p # qs)"
    and xs: "length xs \<le> length (p # qs) * unat (mbuf_max E)" "length qs * unat (mbuf_max E) < length xs"
  shows "\<exists>H1 H2. link_pbufs E p qs H = Some H1 \<and> do_app_write E (p # qs) xs H1 = Some (length xs, H2) \<and> (\<forall>x. x \<notin> set (p # qs) \<longrightarrow> H2 x = H x) \<and>
    chain_list H2 (Some p) = Some (p # qs) \<and> (\<forall>x \<in> set (p # qs). sendable E H2 x) \<and> chain_bytes H2 (p # qs) = xs \<and>
    (\<exists>c. H2 p = Some c \<and> pb_last c = pb_last b)"
proof -
  obtain H1 nx where H1: "link_pbufs E p qs H = Some H1" "\<forall>x. x \<notin> set (p # qs) \<longrightarrow> H1 x = H x" "H1 p = Some (b\<lparr>pb_next := nx\<rparr>)"
    "chain_list H1 (Some p) = Some (p # qs)" "\<forall>q \<in> set qs. idle E H1 q"
    using link_pbufs_law [where H = H and b = b, OF pool d p(1,2)] by (elim exE conjE) (rule that, assumption+)
  have i: "\<forall>x \<in> set (p # qs). idle E H1 x" using H1(3,5) p(1,3) by (simp add: idle_def)
  have xs2: "(length (p # qs) - 1) * unat (mbuf_max E) < length xs" using xs(2) by simp
  obtain H2 where H2: "do_app_write E (p # qs) xs H1 = Some (length xs, H2)" "\<forall>x. x \<notin> set (p # qs) \<longrightarrow> H2 x = H1 x"
    "\<forall>x \<in> set (p # qs). sendable E H2 x \<and> same_links H1 H2 x" "chain_bytes H2 (p # qs) = xs"
    using do_app_write_law [OF L _ d i xs(1) xs2] by blast
  have "chain_list H2 (Some p) = Some (p # qs)"
  proof (rule chain_list_cong [OF H1(4)])
    fix x c assume "x \<in> set (p # qs)" "H1 x = Some c"
    moreover from this have "same_links H1 H2 x" using H2(3) by blast
    ultimately show "\<exists>c'. H2 x = Some c' \<and> pb_next c' = pb_next c" by (auto simp: same_links_def)
  qed
  moreover have "\<exists>c. H2 p = Some c \<and> pb_last c = pb_last b" using H2(3) H1(3) by (auto simp: same_links_def)
  moreover have "\<forall>x. x \<notin> set (p # qs) \<longrightarrow> H2 x = H x" using H1(2) H2(2) by simp
  ultimately show ?thesis using H1(1) H2(1,3,4) by blast
qed

lemma chain_join:
  "chain_list H (Some p) = Some cs \<Longrightarrow> H (last cs) = Some b \<Longrightarrow> chain_list H (Some q) = Some qs \<Longrightarrow> set cs \<inter> set qs = {} \<Longrightarrow>
   chain_list (H(last cs \<mapsto> b\<lparr>pb_next := Some q\<rparr>)) (Some p) = Some (cs @ qs)"
proof (induction cs arbitrary: p)
  case Nil
  then show ?case by (simp add: chain_list_Nil)
next
  case (Cons c cs)
  then have c: "c = p" "\<exists>b. H p = Some b \<and> chain_list H (pb_next b) = Some cs" by (auto simp: chain_list_Cons)
  then obtain e where e: "H p = Some e" "chain_list H (pb_next e) = Some cs" by blast
  show ?case
  proof (cases cs)
    case Nil
    have "chain_list (H(p \<mapsto> b\<lparr>pb_next := Some q\<rparr>)) (Some q) = Some qs"
      by (rule chain_list_cong [OF Cons.prems(3)]) (use Cons.prems(4) c in auto)
    then show ?thesis using Nil c by (simp add: chain_list_Cons del: fun_upd_apply) simp
  next
    case (Cons d ds)
    have dis: "distinct (c # cs)" by (rule chain_list_distinct [OF Cons.prems(1)])
    then have np: "last cs \<noteq> p" using c Cons by (metis distinct.simps(2) last_in_set list.distinct(1))
    have nx: "pb_next e = Some d" using e(2) Cons by (simp add: chain_list_Cons)
    have "chain_list (H(last cs \<mapsto> b\<lparr>pb_next := Some q\<rparr>)) (Some d) = Some (cs @ qs)"
      by (rule Cons.IH) (use Cons.prems e(2) nx Cons in auto)
    moreover have "(H(last cs \<mapsto> b\<lparr>pb_next := Some q\<rparr>)) p = Some e" using np e(1) by simp
    moreover have "last (c # cs) = last cs" using Cons by simp
    ultimately show ?thesis unfolding c(1) append_Cons chain_list_Cons using nx by metis
  qed
qed
text \<open>The last entry that waits, with its chain.\<close>

lemma last_entry:
  assumes I: "tx_at E a S s C P" and p: "filled (elems E) (send_ring s) = fs @ [p]"
  shows "chain_list (pbufs S) (Some p) = Some (C p)" and "set (C p) \<inter> owned C (heads a S @ fs @ lent (elems E) (send_ring s)) = {}"
    and "\<forall>x \<in> set (C p). sendable E (pbufs S) x" and "ends_at (pbufs S) C p" and "p \<in> set (C p)"
    and "chains_ok (pbufs S) C ((heads a S @ fs @ lent (elems E) (send_ring s)) @ [p])"
proof -
  note T = tx_listsD [OF tx_atD(6) [OF I], unfolded p]
  show c: "chain_list (pbufs S) (Some p) = Some (C p)" using T(1) by (simp add: chains_ok_def)
  show "set (C p) \<inter> owned C (heads a S @ fs @ lent (elems E) (send_ring s)) = {}"
    using T(1) unfolding chains_ok_append owned_append by (auto simp: owned_def)
  show "\<forall>x \<in> set (C p). sendable E (pbufs S) x" using T(2) by (auto simp: owned_def)
  show "ends_at (pbufs S) C p" by (rule T(3)) simp
  show "p \<in> set (C p)" using c by (auto simp: chain_list_Some)
  show "chains_ok (pbufs S) C ((heads a S @ fs @ lent (elems E) (send_ring s)) @ [p])"
    using T(1) unfolding chains_ok_append owned_append by blast
qed

lemma app_direct_attach_law:
  assumes L: "lwip_ok (lwip E)" and pool: "pool_ok E" and I: "tx_at E a S s C P" and p: "filled (elems E) (send_ring s) = fs @ [p]"
    and xs: "length xs \<le> unat n * unat (mbuf_max E)" "(unat n - 1) * unat (mbuf_max E) < length xs"
  shows "\<exists>k S'. app_direct_attach E p xs n S = Some (k, S') \<and> k \<le> length xs \<and> ep S' = ep S \<and> (\<exists>C'. tx_at E a S' s C' (P @ take k xs))"
proof (cases "n = 0 \<or> \<not> malloc_ok E \<or> alloc_bulk E (pbufs S) (unat n) = None")
  case True
  have "tx_at E a (S\<lparr>tx_allocmbuf_fail := f\<rparr>) s C P" for f using I by (simp add: tx_at_def heads_def sock_alive_def)
  then show ?thesis using True I by (auto simp: app_direct_attach_def split: option.splits)
next
  case False
  then obtain qs where al: "alloc_bulk E (pbufs S) (unat n) = Some qs" by blast
  note A = pool_okD [OF pool al]
  have n: "0 < unat n" using False by (simp add: unat_gt_0)
  then obtain q qs' where q: "qs = q # qs'" using A(1) by (cases qs) auto
  let ?R = "heads a S @ fs @ lent (elems E) (send_ring s)" and ?H0 = "(pbufs S)(q \<mapsto> init_mbuf_to_pbuf E q (mbuf_max E))"
  note le = last_entry [OF I p]
  note T = tx_listsD [OF tx_atD(6) [OF I], unfolded p]
  have alive: "x \<notin> set qs" if "x \<in> owned C (?R @ [p])" for x
  proof -
    have "x \<in> dom (pbufs S)" using owned_alive [OF le(6) that] by blast
    then show ?thesis using A(3) by blast
  qed
  have Cp: "x \<in> set (C p) \<Longrightarrow> x \<notin> set qs" and Rp: "x \<in> owned C ?R \<Longrightarrow> x \<notin> set qs" for x by (rule alive, simp add: owned_def)+
  have i0: "?H0 q = Some (init_mbuf_to_pbuf E q (mbuf_max E))" "pb_next (init_mbuf_to_pbuf E q (mbuf_max E)) = None" "idle E ?H0 q"
    using init_idle [OF pool, of ?H0 q] by (simp_all add: init_mbuf_to_pbuf_def)
  have len: "length xs \<le> length (q # qs') * unat (mbuf_max E)" "length qs' * unat (mbuf_max E) < length xs" using xs A(1) [symmetric] q by simp_all
  obtain H1 H2 where H: "link_pbufs E q qs' ?H0 = Some H1" "do_app_write E (q # qs') xs H1 = Some (length xs, H2)"
    "\<forall>x. x \<notin> set (q # qs') \<longrightarrow> H2 x = ?H0 x" "chain_list H2 (Some q) = Some (q # qs')" "\<forall>x \<in> set (q # qs'). sendable E H2 x"
    "chain_bytes H2 (q # qs') = xs"
    using fill_new [where H = ?H0, OF L pool i0 A(2) [unfolded q] len] by (elim exE conjE) (rule that, assumption+)
  have old: "H2 x = pbufs S x" if "x \<notin> set qs" for x using H(3) that q by auto
  obtain b where b: "pbufs S p = Some b" "pb_last b = last (C p)" using le(4) by (auto simp: ends_at_def)
  have ne: "C p \<noteq> []" using le(5) by auto
  let ?l = "last (C p)"
  have lC: "?l \<in> set (C p)" using ne by simp
  obtain c where c: "pbufs S ?l = Some c" using le(3) lC by (auto simp: sendable_def)
  have H2l: "H2 ?l = Some c" "H2 p = Some b" using old [OF Cp] lC le(5) c b(1) by simp_all
  let ?H3 = "H2(?l \<mapsto> c\<lparr>pb_next := Some q\<rparr>)"
  obtain d where d: "?H3 p = Some d" "pb_len d = pb_len b" "pb_tot_len d = pb_tot_len b" "pb_payload d = pb_payload b" using H2l b(1) c by (cases "p = ?l") auto
  let ?H4 = "?H3(p \<mapsto> d\<lparr>pb_last := last qs\<rparr>)" and ?C = "C(p := C p @ qs)"
  have run: "app_direct_attach E p xs n S = Some (length xs, S\<lparr>pbufs := ?H4\<rparr>)"
    using False al q H(1,2) H2l b(2) d(1) by (simp add: app_direct_attach_def upd_pbuf_def)
  have cl2: "chain_list H2 (Some p) = Some (C p)" by (rule chain_list_cong [OF le(1)]) (use old Cp in auto)
  have "chain_list ?H3 (Some p) = Some (C p @ qs)"
    by (rule chain_join [OF cl2 H2l(1)]) (use H(4) q Cp in auto)
  then have cl: "chain_list ?H4 (Some p) = Some (C p @ qs)" by (rule chain_list_cong) (use d(1) in auto)
  have data: "chain_bytes ?H4 ys = chain_bytes H2 ys" for ys
    unfolding chain_bytes_def by (intro arg_cong [where f = concat] map_cong refl) (use H2l d in \<open>auto simp: pb_data_def\<close>)
  have snd: "sendable E ?H4 x = sendable E H2 x" for x using H2l d by (auto simp: sendable_def)
  have s2: "sendable E H2 x" if "x \<in> set (C p)" for x using le(3) old [OF Cp [OF that]] that by (simp add: sendable_def)
  have "tx_at E a (S\<lparr>pbufs := ?H4, remain_len := remain_len S\<rparr>) s ?C (P @ xs)"
  proof (rule grow_last(2) [OF I p])
    show "?H4 x = pbufs S x" if "x \<in> owned C ?R" for x
    proof -
      have "x \<notin> set (C p)" using le(2) that by blast
      then have "x \<noteq> ?l" "x \<noteq> p" using lC le(5) by auto
      then show ?thesis using old [OF Rp [OF that]] by simp
    qed
    show "set (?C p) \<inter> owned C ?R = {}" using le(2) Rp by auto
    show "\<forall>x \<in> set (?C p). sendable E ?H4 x" unfolding snd using s2 H(5) q by auto
    show "chain_bytes ?H4 (?C p) = chain_bytes (pbufs S) (C p) @ xs"
      unfolding data using H(6) q chain_bytes_cong [of "C p" H2 "pbufs S"] old Cp by simp
    show "ends_at ?H4 ?C p" using q by (simp add: ends_at_def)
  qed (use cl in simp_all)
  then show ?thesis using run by (intro exI [of _ "length xs"] exI [of _ "S\<lparr>pbufs := ?H4\<rparr>"]) auto
qed
lemma app_direct_write_law:
  assumes L: "lwip_ok (lwip E)" and pool: "pool_ok E" and I: "tx_at E a S s C P" and ne: "lent (elems E) (send_ring s) \<noteq> []" and n: "1 < unat n"
    and xs: "length xs \<le> unat n * unat (mbuf_max E)" "(unat n - 1) * unat (mbuf_max E) < length xs"
  shows "\<exists>k S'. app_direct_write E a xs n S = Some (k, S') \<and> k \<le> length xs \<and> tx_inv E a S' (P @ take k xs)"
proof (cases "\<not> malloc_ok E \<or> alloc_bulk E (pbufs S) (unat (n - 1)) = None")
  case True
  have "tx_at E a (S\<lparr>tx_allocmbuf_fail := f\<rparr>) s C P" for f using I by (simp add: tx_at_def heads_def sock_alive_def)
  then show ?thesis using True I by (auto simp: app_direct_write_def app_direct_fill_def tx_inv_def split: option.splits)
next
  case False
  then obtain qs where al: "alloc_bulk E (pbufs S) (unat (n - 1)) = Some qs" by blast
  note A = pool_okD [OF pool al]
  have n1: "unat (n - 1) = unat n - 1" using n by (simp add: unat_minus_le)
  then have q: "length qs = unat n - 1" "qs \<noteq> []" using A(1) n by auto
  note D = tx_atD [OF I]
  note T = tx_listsD [OF D(6)]
  let ?f = "filled (elems E) (send_ring s)" and ?l = "lent (elems E) (send_ring s)"
  obtain p ls where l: "?l = p # ls" using ne by (cases ?l) auto
  obtain m ps r where rd: "gazelle_ring_read (elems E) (send_ring s) 1 = (m, ps, r)" by (metis prod_cases3)
  note R = read_and_over [OF D(4,5) rd]
  have ps: "ps = [p]" "m \<noteq> 0" using R(1,2) l by auto
  have Cp: "C p = [p]" "idle E (pbufs S) p" "ends_at (pbufs S) C p" using T(3,4,5) [of p] l by simp_all
  let ?R = "heads a S @ ?f @ ls"
  have T1: "chains_ok (pbufs S) C (heads a S @ ?f @ [p] @ ls)" using T(1) l by simp
  then have ch: "chains_ok (pbufs S) C [p]" "owned C [p] \<inter> owned C ?R = {}" "chains_ok (pbufs S) C ?R"
    unfolding chains_ok_append owned_append by blast+
  have pR: "p \<notin> owned C ?R" using ch(2) Cp(1) by (simp add: owned_def)
  obtain b where b: "pbufs S p = Some b" "pb_next b = None" using ch(1) Cp(1) by (auto simp: chains_ok_def chain_list_Cons chain_list_Nil)
  have fresh: "x \<notin> set qs" if "pbufs S x \<noteq> None" for x using A(3) that by auto
  have d: "distinct (p # qs)" using A(2) fresh b(1) by simp
  have len: "length xs \<le> length (p # qs) * unat (mbuf_max E)" "length qs * unat (mbuf_max E) < length xs" using xs q n by simp_all
  obtain H1 H2 c where H: "link_pbufs E p qs (pbufs S) = Some H1" "do_app_write E (p # qs) xs H1 = Some (length xs, H2)"
    "\<forall>x. x \<notin> set (p # qs) \<longrightarrow> H2 x = pbufs S x" "chain_list H2 (Some p) = Some (p # qs)" "\<forall>x \<in> set (p # qs). sendable E H2 x"
    "chain_bytes H2 (p # qs) = xs" "H2 p = Some c"
    using fill_new [where H = "pbufs S", OF L pool b Cp(2) d len] by (elim exE conjE) (rule that, assumption+)
  let ?H = "H2(p \<mapsto> c\<lparr>pb_last := last qs\<rparr>)" and ?C = "C(p := p # qs)"
  have "n \<noteq> 0" using n by auto
  then have run: "app_direct_write E a xs n S = Some (length xs, (set_send_ring a (gazelle_ring_read_over r) S)\<lparr>pbufs := ?H, remain_len := (remain_len S)(a := 0)\<rparr>)"
    using False al D(8) rd ps q n H(1,2,7) by (simp add: app_direct_write_def app_direct_fill_def app_direct_last_def upd_pbuf_def set_send_ring_def)
  have data: "chain_bytes ?H ys = chain_bytes H2 ys" for ys
    unfolding chain_bytes_def by (intro arg_cong [where f = concat] map_cong refl) (use H(7) in \<open>auto simp: pb_data_def\<close>)
  have snd: "sendable E ?H x = sendable E H2 x" for x using H(7) by (auto simp: sendable_def)
  have cl: "chain_list ?H (Some p) = Some (p # qs)" by (rule chain_list_cong [OF H(4)]) (use H(7) in auto)
  have oR: "x \<notin> set (p # qs)" if "x \<in> owned C ?R" for x using fresh [OF owned_alive [OF ch(3) that]] pR that by auto
  have op: "owned ?C [p] = set (p # qs)" by (simp add: owned_def)
  have "tx_lists E ?H ?C (heads a S) (?f @ [p]) ls (P @ xs)"
  proof (rule tx_change [where es = "[]" and ms = "[p]" and H = "pbufs S" and C = C])
    show "tx_lists E (pbufs S) C (heads a S) (?f @ []) ([p] @ ls) P" using D(6) l by simp
    show "?H x = pbufs S x" if "x \<in> owned C ?R" for x using H(3) oR [OF that] by simp
    show "?C q = C q" if "q \<in> set ?R" for q using head_owned [OF ch(3) that] pR by auto
    show "chains_ok ?H ?C [p]" using cl d by (simp add: chains_ok_def)
    show "owned ?C [p] \<inter> owned C ?R = {}" unfolding op using oR by blast
    show "sendable E ?H x" if "x \<in> owned ?C [p]" for x using that H(5) unfolding snd op by blast
    show "ends_at ?H ?C x" if "x \<in> set [p]" for x using that q(2) by (simp add: ends_at_def)
    show "bytes_of ?H ?C [p] = bytes_of (pbufs S) C [] @ xs" using H(6) by (simp add: bytes_of_def data del: fun_upd_apply) simp
  qed
  then have T2: "tx_lists E ?H ?C (heads a S) (filled (elems E) (gazelle_ring_read_over r)) (lent (elems E) (gazelle_ring_read_over r)) (P @ xs)"
    using R(5,6) ps l by simp
  have hp: "x \<noteq> p" if "x \<in> set (heads a S)" for x using head_owned [OF ch(3), of x] pR that by auto
  have "tx_inv E a ((set_send_ring a (gazelle_ring_read_over r) S)\<lparr>pbufs := ?H, remain_len := (remain_len S)(a := 0)\<rparr>) (P @ xs)"
    by (rule after_write [OF D(1,3) R(3,4) _ T2]) (use D(7) hp in \<open>auto simp: heads_def\<close>)
  then show ?thesis using run by (intro exI [of _ "length xs"]) simp
qed
lemma merge_law:
  assumes L: "lwip_ok (lwip E)" and I: "tx_at E a S s C P"
  shows "\<exists>k S' C'. merge_data_lastpbuf E a xs S = Some (k, S') \<and> k \<le> length xs \<and> (k = 0 \<or> k < unat (mbuf_max E)) \<and> tx_at E a S' s C' (P @ take k xs)"
proof -
  note D = tx_atD [OF I]
  have keep: "tx_at E a (S\<lparr>remain_len := f\<rparr>) s C P" for f using I by (simp add: tx_at_def heads_def sock_alive_def)
  let ?f = "filled (elems E) (send_ring s)" and ?Z = "S\<lparr>remain_len := (remain_len S)(a := 0)\<rparr>"
  have z: "\<exists>k S' C'. Some (0, ?Z) = Some (k, S') \<and> k \<le> length xs \<and> (k = 0 \<or> k < unat (mbuf_max E)) \<and> tx_at E a S' s C' (P @ take k xs)" using keep by auto
  show ?thesis
  proof (cases ?f rule: rev_cases)
    case Nil
    then have "merge_data_lastpbuf E a xs S = Some (0, ?Z)" using D(8) readlast_law [OF D(4)] by (simp add: merge_data_lastpbuf_def)
    then show ?thesis using z by simp
  next
    case p: (snoc fs p)
    note le = last_entry [OF I p]
    obtain b where b: "pbufs S p = Some b" "pb_tot_len b = pb_len b" "pb_len b \<le> mbuf_max E" "0 < pb_len b"
      "unat (mbuf_max E) \<le> length (pb_payload b)" using le(3,5) by (auto simp: sendable_def)
    have rl: "gazelle_ring_readlast (elems E) (send_ring s) (trylock E 0) (pbufs S) = Some (if \<not> trylock E 0 \<or> pb_allow_in b \<noteq> 1 then None else Some p)"
      unfolding readlast_law [OF D(4)] using p b(1) by simp
    show ?thesis
    proof (cases "trylock E 0 \<and> pb_allow_in b = 1 \<and> pb_next b = None \<and> pb_len b < mbuf_max E")
      case False
      then have "merge_data_lastpbuf E a xs S = Some (0, ?Z)" using D(8) rl b(1) by (auto simp: merge_data_lastpbuf_def)
      then show ?thesis using z by simp
    next
      case True
      then have Cp: "C p = [p]" using le(1) b(1) by (simp add: chain_list_Some)
      define room where "room = unat (mbuf_max E - pb_len b)"
      define k where "k = min room (length xs)"
      define len where "len = pb_len b + word_of_nat k"
      define rm where "rm = (remain_len S)(a := if room \<ge> length xs then word_of_nat (room - length xs) else 0)"
      have r: "room = unat (mbuf_max E) - unat (pb_len b)" using b(3) by (simp add: room_def unat_minus_le word_le_nat_alt)
      have le1: "unat (pb_len b) \<le> unat (mbuf_max E)" using b(3) by (simp add: word_le_nat_alt)
      have kr: "unat (pb_len b) + k \<le> unat (mbuf_max E)" using r le1 by (simp add: k_def)
      have "0 < unat (pb_len b)" using b(4) by (simp add: word_less_nat_alt)
      then have km: "k = 0 \<or> k < unat (mbuf_max E)" using kr by linarith
      have uk: "unat (word_of_nat k :: u16) = k" using kr unat_lt16 [of "mbuf_max E"] by (intro unat_word_of_nat16) linarith
      have ul: "unat len = unat (pb_len b) + k"
        unfolding len_def using kr uk unat_lt16 [of "mbuf_max E"] by (subst unat_plus_small) simp_all
      let ?ys = "take k xs" and ?o = "unat (pb_len b)"
      have ky: "length ?ys = k" by (simp add: k_def)
      let ?b = "b\<lparr>pb_tot_len := len, pb_len := len,
         pb_payload := take ?o (pb_payload b) @ ?ys @ drop (?o + length ?ys) (pb_payload b)\<rparr>"
      have "put_data E ?ys ?o (b\<lparr>pb_tot_len := len, pb_len := len\<rparr>) = Some ?b"
        using put_data_law [OF L, of ?o ?ys "b\<lparr>pb_tot_len := len, pb_len := len\<rparr>"] ky ul kr b(5) by simp
      moreover have "(mbuf_max E \<le> pb_len b) = False" using True by (simp add: not_le)
      ultimately have run: "merge_data_lastpbuf E a xs S = Some (k, S\<lparr>pbufs := (pbufs S)(p \<mapsto> ?b), remain_len := rm\<rparr>)"
        using D(8) rl b(1) True by (simp add: merge_data_lastpbuf_def Let_def room_def [symmetric] k_def [symmetric] len_def [symmetric] rm_def [symmetric])
      have data: "pb_data ?b = pb_data b @ ?ys" using ul ky kr b(5) by (simp add: pb_data_def take_Cons')
      have "tx_at E a (S\<lparr>pbufs := (pbufs S)(p \<mapsto> ?b), remain_len := rm\<rparr>) s C (P @ ?ys)"
      proof (rule grow_last(2) [OF I p])
        show "((pbufs S)(p \<mapsto> ?b)) x = pbufs S x" if "x \<in> owned C (heads a S @ fs @ lent (elems E) (send_ring s))" for x
          using that le(2,5) by auto
        show "chain_list ((pbufs S)(p \<mapsto> ?b)) (Some p) = Some (C p)" by (rule chain_list_cong [OF le(1)]) (use b(1) in auto)
        have "0 < len" "len \<le> mbuf_max E" using ul kr b(4) by (simp_all add: word_less_nat_alt word_le_nat_alt)
        then show "\<forall>x \<in> set (C p). sendable E ((pbufs S)(p \<mapsto> ?b)) x" using b kr ky by (simp add: Cp sendable_def)
        show "ends_at ((pbufs S)(p \<mapsto> ?b)) C p" using le(4) b(1) by (simp add: ends_at_def)
        show "chain_bytes ((pbufs S)(p \<mapsto> ?b)) (C p) = chain_bytes (pbufs S) (C p) @ ?ys" using b(1) data by (simp add: Cp)
      qed (use le(2) in simp_all)
      then show ?thesis using run by (intro exI [of _ k] exI [of _ "S\<lparr>pbufs := (pbufs S)(p \<mapsto> ?b), remain_len := rm\<rparr>"]) (use km in \<open>auto simp: k_def\<close>)
    qed
  qed
qed
lemma tx_more:
  assumes pool: "pool_ok E" and I: "tx_lists E H C hs fs ls P" and new: "set ps \<inter> dom H = {}" "distinct ps"
  shows "\<exists>C'. tx_lists E (init_pbufs E ps H) C' hs fs (ls @ ps) P \<and> (\<forall>x \<in> set (hs @ fs @ ls). C' x = C x)"
proof -
  let ?H = "init_pbufs E ps H" and ?C = "\<lambda>x. if x \<in> set ps then [x] else C x" and ?R = "hs @ fs @ ls"
  note D = tx_listsD [OF I]
  have oH: "?H x = H x" if "H x \<noteq> None" for x using that new(1) by (auto simp: init_pbufs_def map_add_def)
  have nH: "?H x = Some (init_mbuf_to_pbuf E x (mbuf_max E))" if "x \<in> set ps" for x using that by (simp add: init_pbufs_def)
  have eq: "?H x = H x" if "x \<in> owned C ?R" for x by (rule oH [OF owned_alive [OF D(1) that]])
  have np: "x \<notin> set ps" if "x \<in> owned C ?R" for x using owned_alive [OF D(1) that] new(1) by blast
  have eqC: "?C x = C x" if "x \<in> set ?R" for x using np [OF head_owned [OF D(1) that]] by simp
  have oC: "owned ?C qs = owned C qs" if "set qs \<subseteq> set ?R" for qs by (rule owned_cong) (use eqC that in blast)
  have "set hs \<subseteq> set ?R" "set fs \<subseteq> set ?R" "set ls \<subseteq> set ?R" by auto
  then have o3: "owned ?C hs = owned C hs" "owned ?C fs = owned C fs" "owned ?C ls = owned C ls" by (simp_all only: oC)
  have c1: "chains_ok ?H ?C ?R" by (rule chains_ok_cong [OF chains_ok_heap [OF D(1) eq] eqC])
  have ops: "owned ?C ps = set ps" by (rule singles(1)) simp
  have "concat (map ?C qs) = qs" if "set qs \<subseteq> set ps" for qs using that by (induction qs) auto
  then have c2: "chains_ok ?H ?C ps" using new(2) nH by (auto simp: chains_ok_def chain_list_Cons chain_list_Nil init_mbuf_to_pbuf_def)
  have "chains_ok ?H ?C (?R @ ps)" unfolding chains_ok_append [of ?H ?C ?R] ops using c1 c2 np o3 by auto
  then have ch: "chains_ok ?H ?C (hs @ fs @ ls @ ps)" by simp
  have "bytes_of ?H ?C (hs @ fs) = bytes_of ?H C (hs @ fs)" unfolding bytes_of_def
    by (rule arg_cong [where f = concat], rule map_cong [OF refl], subst eqC) auto
  also have "\<dots> = bytes_of H C (hs @ fs)" by (rule bytes_of_cong) (use eq in auto)
  finally have b1: "P = bytes_of ?H ?C (hs @ fs)" using D(6) by simp
  have s1: "sendable E ?H x" if "x \<in> owned ?C (hs @ fs)" for x
  proof -
    have "x \<in> owned C (hs @ fs)" "x \<in> owned C ?R" using that o3 by auto
    then show ?thesis using D(2) eq by (simp add: sendable_def)
  qed
  have hd: "?H x = H x" if "x \<in> set ?R" for x by (rule eq [OF head_owned [OF D(1) that]])
  have new1: "idle E ?H x \<and> ends_at ?H ?C x \<and> ?C x = [x]" if "x \<in> set ps" for x
    using init_idle [where H = ?H, OF pool nH [OF that]] that by (auto simp: ends_at_def)
  have e1: "ends_at ?H ?C x" if "x \<in> set (fs @ ls @ ps)" for x
  proof (cases "x \<in> set ps")
    case False
    then have "x \<in> set (fs @ ls)" "x \<in> set ?R" using that by auto
    then show ?thesis using D(3) hd [of x] False by (simp add: ends_at_def)
  qed (use new1 in blast)
  have i1: "?C x = [x] \<and> idle E ?H x" if "x \<in> set (ls @ ps)" for x
  proof (cases "x \<in> set ps")
    case False
    then have "x \<in> set ls" "x \<in> set ?R" using that by auto
    then show ?thesis using D(4,5) hd [of x] False by (simp add: idle_def)
  qed (use new1 in blast)
  have "tx_lists E ?H ?C hs fs (ls @ ps) P" unfolding tx_lists_def using ch b1 s1 e1 i1 by blast
  then show ?thesis using eqC by blast
qed

lemma replenish_idle_law:
  assumes pool: "pool_ok E" and inv: "tx_inv E a S P"
  shows "\<exists>again S'. replenish_send_idlembuf E a S = Some (again, S') \<and> tx_inv E a S' P"
proof -
  obtain s C where I: "tx_at E a S s C P" using inv by (auto simp: tx_inv_def)
  note D = tx_atD [OF I]
  let ?n = "gazelle_ring_free_count (send_ring s)"
  show ?thesis
  proof (cases "?n = 0 \<or> alloc_bulk E (pbufs S) (unat ?n) = None")
    case True
    have "tx_at E a (S\<lparr>tx_allocmbuf_fail := f\<rparr>) s C P" for f using I by (simp add: tx_at_def heads_def sock_alive_def)
    then have "tx_inv E a (S\<lparr>tx_allocmbuf_fail := f\<rparr>) P" for f unfolding tx_inv_def by blast
    moreover have "replenish_send_idlembuf E a S = Some (if ?n = 0 then (False, S) else (True, S\<lparr>tx_allocmbuf_fail := tx_allocmbuf_fail S + 1\<rparr>))"
      using True D(2) by (auto simp: replenish_send_idlembuf_def Let_def)
    ultimately show ?thesis using inv by (cases "?n = 0") auto
  next
    case False
    then obtain ps where al: "alloc_bulk E (pbufs S) (unat ?n) = Some ps" by blast
    note A = pool_okD [OF pool al]
    obtain k r where e: "gazelle_ring_sp_enqueue (elems E) (send_ring s) ps ?n = (k, r)" by (metis prod.exhaust)
    have room: "unat ?n \<le> unat (capacity (send_ring s)) - length (ring_contents (elems E) (send_ring s))"
      using ring_free_entries(2) [OF D(4)] by simp
    note Q = enqueue_stores [OF D(4) room _ e]
    have l: "unat ?n \<le> length ps" using A(1) by simp
    have d: "drop (unat k) ps = []" using Q(1) [OF l] A(1) by simp
    obtain C' where T: "tx_lists E (init_pbufs E ps (pbufs S)) C' (heads a S) (filled (elems E) (send_ring s)) (lent (elems E) (send_ring s) @ ps) P"
      and C': "\<forall>x \<in> set (heads a S @ filled (elems E) (send_ring s) @ lent (elems E) (send_ring s)). C' x = C x"
      using tx_more [OF pool D(6) A(3,2)] by blast
    let ?S = "(set_send_ring a r S)\<lparr>pbufs := init_pbufs E ps (pbufs S)\<rparr>"
    have T2: "tx_lists E (init_pbufs E ps (pbufs S)) C' (heads a S) (filled (elems E) r) (lent (elems E) r) P"
      using T Q(3,5) [OF l] A(1) by simp
    have h: "\<And>p q. send_pre_del S a = Some p \<Longrightarrow> send_lastdata S a = Some q \<Longrightarrow> C' p = [p]" using D(7) C' by (auto simp: heads_def)
    have "in_read (elems E) r = []" using Q(4) [OF l] D(5) by simp
    from after_write [OF D(1,3) Q(2) [OF l] this h T2] have "tx_inv E a (?S\<lparr>remain_len := remain_len S\<rparr>) P" by simp
    moreover have "?S\<lparr>remain_len := remain_len S\<rparr> = ?S" by (simp add: set_send_ring_def)
    ultimately have i: "tx_inv E a ?S P" by simp
    have i2: "tx_inv E a (?S\<lparr>sem_posts := f\<rparr>) P" for f using i by (auto simp: tx_inv_def tx_at_def heads_def sock_alive_def)
    have "replenish_send_idlembuf E a S = Some (False, if expand_send_ring E then ?S else ?S\<lparr>sem_posts := (sem_posts ?S)(a := sem_posts ?S a + 1)\<rparr>)"
      using False D(2) al e d by (simp add: replenish_send_idlembuf_def Let_def)
    then show ?thesis using i i2 by auto
  qed
qed
section \<open>Writing keeps the order\<close>

text \<open>Raising and clearing events leaves the send side alone.\<close>

definition same_tx :: "addr \<Rightarrow> ep_state \<Rightarrow> ep_state \<Rightarrow> bool" where
  "same_tx a X Y \<longleftrightarrow> dom (polls Y) = dom (polls X) \<and>
     (\<forall>s. socks X a = Some s \<longrightarrow> (\<exists>t. socks Y a = Some t \<and> conn t = conn s \<and> wakeup t = wakeup s \<and> send_ring t = send_ring s))"

lemma event_frame:
  assumes inv: "tx_inv E a S P" and e: "same_tx a (ep S) e"
  shows "tx_inv E a (S\<lparr>ep := e\<rparr>) P"
proof -
  obtain s C where I: "tx_at E a S s C P" using inv by (auto simp: tx_inv_def)
  then obtain t where t: "socks e a = Some t" "conn t = conn s" "wakeup t = wakeup s" "send_ring t = send_ring s"
    using e tx_atD(2) [OF I] by (auto simp: same_tx_def)
  have "polls e w \<noteq> None \<longleftrightarrow> polls (ep S) w \<noteq> None" for w using e by (auto simp: same_tx_def dom_def)
  then have "tx_at E a (S\<lparr>ep := e\<rparr>) t C P" using I t by (auto simp: tx_at_def sock_alive_def heads_def)
  then show ?thesis by (auto simp: tx_inv_def)
qed

lemma same_tx_refl [simp]: "same_tx a X X" by (simp add: same_tx_def)

lemma same_tx_trans: "same_tx a X Y \<Longrightarrow> same_tx a Y Z \<Longrightarrow> same_tx a X Z"
  unfolding same_tx_def by (metis (no_types, lifting))

lemma same_tx_sock: "(\<And>s. conn (f s) = conn s \<and> wakeup (f s) = wakeup s \<and> send_ring (f s) = send_ring s) \<Longrightarrow> same_tx a X (sock_upd b f X)"
  by (auto simp: same_tx_def sock_upd_def)

lemma same_tx_poll: "same_tx a X (poll_upd w f X)"
  by (auto simp: same_tx_def poll_upd_def dom_def)

lemma same_tx_link: "same_tx a X (link_event E w b X)" "same_tx a X (unlink_event b X)"
  unfolding link_event_def unlink_event_def by (auto split: option.split intro!: same_tx_trans [OF same_tx_poll same_tx_sock])

lemma add_sock_event_out:
  assumes "sock_alive a S s"
  shows "\<exists>e. add_sock_event E a epollout (ep S) = Some e \<and> same_tx a (ep S) e"
proof -
  let ?X = "ep S"
  have s: "socks ?X a = Some s" "\<And>w. wakeup s = Some w \<Longrightarrow> polls ?X w \<noteq> None" using assms by (simp_all add: sock_alive_def)
  have u: "same_tx a ?X (sock_upd a (\<lambda>s. s\<lparr>events := f s\<rparr>) ?X)" for f by (rule same_tx_sock) simp
  have l: "same_tx a ?X (link_event E w a (sock_upd a (\<lambda>s. s\<lparr>events := f s\<rparr>) ?X))" for w f by (rule same_tx_trans [OF u same_tx_link(1)])
  have w: "same_tx a ?X (Y\<lparr>wakeup_lists := f\<rparr>) = same_tx a ?X Y" for Y f by (simp add: same_tx_def)
  have ne: "epollout \<noteq> epollin" by (simp add: epollin_def epollout_def)
  show ?thesis
  proof (cases "wakeup s")
    case None
    then show ?thesis using s by (simp add: add_sock_event_def)
  next
    case (Some v)
    then obtain p where p: "polls ?X v = Some p" using s by auto
    show ?thesis
    proof (cases "wtype p = Wakeup_close \<or> epollout AND epoll_events s = 0 \<or> wtype p = Wakeup_epoll \<and> \<not> netconn_is_outidle s")
      case True
      then show ?thesis using s(1) Some p ne by (auto simp: add_sock_event_def)
    next
      case False
      then show ?thesis using s(1) Some p ne u l by (simp add: add_sock_event_def Let_def w)
    qed
  qed
qed

lemma replenish_law:
  assumes pool: "pool_ok E" and inv: "tx_inv E a S P"
  shows "\<exists>again S'. replenish_send_ring E a S = Some (again, S') \<and> tx_inv E a S' P"
proof -
  obtain again X where r: "replenish_send_idlembuf E a S = Some (again, X)" "tx_inv E a X P" using replenish_idle_law [OF pool inv] by blast
  then obtain s C where I: "tx_at E a X s C P" by (auto simp: tx_inv_def)
  note D = tx_atD [OF I]
  obtain e where e: "add_sock_event (ep_env E) a epollout (ep X) = Some e" "same_tx a (ep X) e" using add_sock_event_out [OF D(1)] by blast
  show ?thesis using r D(2) e event_frame [OF r(2) e(2)] by (simp add: replenish_send_ring_def raise_event_def)
qed

lemma out_event_law:
  assumes inv: "tx_inv E a S P"
  shows "\<exists>S'. out_event_check a S = Some S' \<and> tx_inv E a S' P"
proof -
  obtain s C where I: "tx_at E a S s C P" using inv by (auto simp: tx_inv_def)
  note D = tx_atD [OF I]
  show ?thesis
  proof (cases "wakeup s")
    case None
    then show ?thesis using D(2) inv by (simp add: out_event_check_def)
  next
    case (Some w)
    then obtain p where p: "polls (ep S) w = Some p" using D(1) by (auto simp: sock_alive_def)
    let ?Y = "sock_upd a (\<lambda>s. s\<lparr>events := events s AND NOT epollout\<rparr>) (ep S)"
    have "same_tx a (ep S) ?Y" by (rule same_tx_sock) simp
    then have "same_tx a (ep S) (unlink_event a ?Y)" "same_tx a (ep S) ?Y" using same_tx_trans same_tx_link(2) by blast+
    then have "\<exists>e. del_data_out_event a (ep S) = Some e \<and> same_tx a (ep S) e" using D(2) Some p by (simp add: del_data_out_event_def Let_def)
    then show ?thesis using D(2) Some p inv event_frame [OF inv] by (auto simp: out_event_check_def)
  qed
qed
definition accepted :: "send_result \<Rightarrow> nat" where
  "accepted r = (case r of Sent n \<Rightarrow> n | _ \<Rightarrow> 0)"

lemma send_end_law [simp]: "send_end n S = (r, S') \<longleftrightarrow> r = (if n = 0 then Send_again else Sent n) \<and> S' = S"
  by (auto simp: send_end_def)

lemma accepted_end [simp]: "accepted (if n = 0 then Send_again else Sent n) = n" "accepted (Sent n) = n" "accepted Send_again = 0" "accepted Send_notconn = 0"
  by (simp_all add: accepted_def)

lemma ceil_div:
  assumes "0 < x" and "0 < (M::nat)"
  shows "0 < (x + M - 1) div M" "x \<le> (x + M - 1) div M * M" "((x + M - 1) div M - 1) * M < x"
proof -
  define q where "q = (x - 1) div M"
  have e: "(x + M - 1) div M = q + 1" using assms div_add_self2 [of M "x - 1"] by (simp add: q_def)
  have u: "x - 1 < (q + 1) * M" using assms(2) dividend_less_div_times [of M "x - 1"] by (simp add: q_def)
  have "q * M \<le> x - 1" unfolding q_def by (rule div_times_less_eq_dividend)
  then have "q * M < x" using assms(1) by linarith
  then show "0 < (x + M - 1) div M" "x \<le> (x + M - 1) div M * M" "((x + M - 1) div M - 1) * M < x" unfolding e using u by simp_all
qed

lemma tx_inv_frame:
  "tx_inv E a (app_stat_upd w f S) P = tx_inv E a S P"
  "tx_inv E a (S\<lparr>remain_len := g\<rparr>) P = tx_inv E a S P"
  "tx_inv E a (S\<lparr>sem_posts := h\<rparr>) P = tx_inv E a S P"
  by (auto simp: tx_inv_def tx_at_def heads_def sock_alive_def app_stat_upd_def split: option.splits)

lemma write_ring_full_law:
  assumes L: "lwip_ok (lwip E)" and pool: "pool_ok E" and inv: "tx_inv E a S (P @ take k xs)" and k: "k < length xs"
    and n: "length xs - k \<le> unat n * unat (mbuf_max E)" "(unat n - 1) * unat (mbuf_max E) < length xs - k"
  shows "\<exists>r S'. write_ring_full E a xs ip k n w S = Some (r, S') \<and> accepted r \<le> length xs \<and> tx_inv E a S' (P @ take (accepted r) xs)"
proof (cases "expand_send_ring E")
  case False
  then show ?thesis using inv k by (simp add: write_ring_full_def sem_timedwait_nsecs_def tx_inv_frame)
next
  case True
  obtain s C where I: "tx_at E a S s C (P @ take k xs)" using inv by (auto simp: tx_inv_def)
  note D = tx_atD [OF I]
  let ?f = "filled (elems E) (send_ring s)" and ?H = "pbufs S"
  have fin: "\<exists>r S'. Some (send_end (k + m) (Y\<lparr>remain_len := g\<rparr>)) = Some (r, S') \<and> accepted r \<le> length xs \<and> tx_inv E a S' (P @ take (accepted r) xs)"
    if "tx_inv E a Y (P @ take k xs @ take m (drop k xs))" "m \<le> length xs - k" for m Y g
  proof -
    have "k + m \<le> length xs" using that(2) k by linarith
    then show ?thesis using that(1) by (auto simp: tx_inv_frame take_add)
  qed
  obtain l where l: "gazelle_ring_readlast (elems E) (send_ring s) (trylock E 1) ?H = Some l" "l = None \<or> (?f \<noteq> [] \<and> l = Some (last ?f))"
  proof (cases "?f = []")
    case False
    then have "?f = butlast ?f @ [last ?f]" by simp
    from last_entry(3,5) [OF I this] obtain b where "?H (last ?f) = Some b" by (auto simp: sendable_def)
    then show ?thesis using that readlast_law [OF D(4)] False by simp
  qed (use that readlast_law [OF D(4)] in simp)
  show ?thesis
  proof (cases l)
    case None
    have "\<exists>X. rpc_replenish E a S = Some X \<and> tx_inv E a X (P @ take k xs)"
      using replenish_law [OF pool inv] inv by (auto simp: rpc_replenish_def)
    then obtain X where X: "rpc_replenish E a S = Some X" "tx_inv E a X (P @ take k xs)" by blast
    then show ?thesis using fin [of _ 0] True D(8) l(1) None by (simp add: write_ring_full_def tx_inv_frame)
  next
    case (Some p)
    then obtain fs where p: "?f = fs @ [p]" using l(2) by (metis append_butlast_last_id option.inject option.distinct(1))
    obtain m X C' where X: "app_direct_attach E p (drop k xs) n S = Some (m, X)" "m \<le> length (drop k xs)"
      "tx_at E a X s C' ((P @ take k xs) @ take m (drop k xs))"
      using app_direct_attach_law [OF L pool I p, of "drop k xs" n] n by auto
    have p1: "pbufs X p \<noteq> None" using last_entry(3,5) [OF X(3) p] by (auto simp: sendable_def)
    obtain H where H: "set_addrs ip [p] (pbufs X) = Some H"
      "tx_lists E H C' (heads a X) ?f (lent (elems E) (send_ring s)) ((P @ take k xs) @ take m (drop k xs))"
      using tx_set_addrs [OF tx_atD(6) [OF X(3)], of "[p]" ip] p1 by auto
    have "tx_at E a (X\<lparr>pbufs := H\<rparr>) s C' ((P @ take k xs) @ take m (drop k xs))"
      using X(3) H(2) by (simp add: tx_at_def sock_alive_def heads_def)
    then have Y: "tx_inv E a (X\<lparr>pbufs := H\<rparr>) (P @ take k xs @ take m (drop k xs))" by (auto simp: tx_inv_def)
    have cw: "(count_writes w n X)\<lparr>pbufs := H\<rparr> = count_writes w n (X\<lparr>pbufs := H\<rparr>)" by (simp add: count_writes_def app_stat_upd_def split: option.split)
    have "tx_inv E a (count_writes w n (X\<lparr>pbufs := H\<rparr>)) (P @ take k xs @ take m (drop k xs))" using Y by (simp add: count_writes_def tx_inv_frame)
    from fin [OF this] show ?thesis using True D(8) l(1) Some X(1,2) H(1) by (simp add: write_ring_full_def cw)
  qed
qed
lemma write_ring_idle_law:
  assumes L: "lwip_ok (lwip E)" and pool: "pool_ok E" and I: "tx_at E a S s C (P @ take k xs)" and k: "k < length xs" "k = 0 \<or> k < unat (mbuf_max E)"
    and n: "0 < unat n" "length xs - k \<le> unat n * unat (mbuf_max E)" "(unat n - 1) * unat (mbuf_max E) < length xs - k"
    and av: "av = gazelle_ring_readable_count (send_ring s)" "av \<noteq> 0"
  shows "\<exists>r S'. write_ring_idle E a xs ip k n av w S = Some (r, S') \<and> accepted r \<le> length xs \<and> tx_inv E a S' (P @ take (accepted r) xs)"
proof -
  note D = tx_atD [OF I]
  let ?M = "unat (mbuf_max E)" and ?l = "lent (elems E) (send_ring s)"
  have M: "0 < ?M" using pool by (simp add: pool_ok_def word_less_nat_alt)
  have avl: "unat av = length ?l" using ring_invD(8) [OF D(4)] av(1) by (simp add: gazelle_ring_readable_count_def)
  have av1: "0 < unat av" using av(2) by (simp add: unat_gt_0)
  have fin: "\<exists>r S'. Option.bind (out_event_check a (count_writes w v X)) (\<lambda>S. Some (send_end (k + m) S)) = Some (r, S') \<and>
      accepted r \<le> length xs \<and> tx_inv E a S' (P @ take (accepted r) xs)"
    if X: "tx_inv E a X ((P @ take k xs) @ take m (drop k xs))" "m \<le> length xs - k" for m v X
  proof -
    have i: "tx_inv E a (count_writes w v X) (P @ take (k + m) xs)" using X(1) by (simp add: count_writes_def tx_inv_frame take_add)
    obtain Y where "out_event_check a (count_writes w v X) = Some Y" "tx_inv E a Y (P @ take (k + m) xs)" using out_event_law [OF i] by blast
    moreover have "k + m \<le> length xs" using X(2) k by linarith
    ultimately show ?thesis by auto
  qed
  have buff: "\<exists>X. app_buff_write E a ys v ip S = Some (length ys, X) \<and> tx_inv E a X ((P @ take k xs) @ ys)"
    if "0 < unat v" "unat v \<le> unat av" "length ys \<le> unat v * ?M" "(unat v - 1) * ?M < length ys" for ys v
    using app_buff_write_law [OF L I that(1)] that avl by simp
  consider (cut) "\<not> expand_send_ring E" "n > av" | (direct) "expand_send_ring E" "n > av" | (fits) "\<not> n > av" by blast
  then show ?thesis
  proof cases
    case cut
    let ?len = "unat av * ?M"
    have "unat av \<le> unat n - 1" using cut(2) by (simp add: word_less_nat_alt)
    then have "?len \<le> (unat n - 1) * ?M" by simp
    then have le: "?len < length xs - k" using n(3) by linarith
    have km: "k < ?M" using k(2) M by auto
    have "?M \<le> ?len" using av1 by simp
    define ys where "ys = drop k (take ?len xs)"
    have ys: "length ys = ?len - k" "ys = take (?len - k) (drop k xs)" using le by (simp_all add: ys_def drop_take)
    have "(unat av - 1) * ?M = ?len - ?M" by (simp add: diff_mult_distrib)
    also have "\<dots> < length ys" unfolding ys(1) using km less_le_trans [OF km \<open>?M \<le> ?len\<close>] by (rule diff_less_mono2)
    finally have b: "length ys \<le> ?len" "(unat av - 1) * ?M < length ys" using ys(1) by simp_all
    obtain X where X: "app_buff_write E a ys av ip S = Some (length ys, X)" "tx_inv E a X ((P @ take k xs) @ ys)" using buff [OF av1 _ b] by blast
    have "length ys \<le> length xs - k" using ys(1) le by linarith
    with X(2) have "\<exists>r S'. Option.bind (out_event_check a (count_writes w av X)) (\<lambda>S. Some (send_end (k + length ys) S)) = Some (r, S') \<and>
      accepted r \<le> length xs \<and> tx_inv E a S' (P @ take (accepted r) xs)" using fin [of X "length ys" av] ys by metis
    then show ?thesis using cut le X(1) by (simp add: write_ring_idle_def Let_def ys_def [symmetric])
  next
    case direct
    have "unat av < unat n" using direct(2) by (simp add: word_less_nat_alt)
    then have "1 < unat n" "?l \<noteq> []" using av1 avl by (linarith, auto)
    then obtain m X where X: "app_direct_write E a (drop k xs) n S = Some (m, X)" "m \<le> length xs - k" "tx_inv E a X ((P @ take k xs) @ take m (drop k xs))"
      using app_direct_write_law [OF L pool I _ _, of n "drop k xs"] n by auto
    then show ?thesis using direct fin [OF X(3,2)] by (simp add: write_ring_idle_def)
  next
    case fits
    obtain X where X: "app_buff_write E a (drop k xs) n ip S = Some (length (drop k xs), X)" "tx_inv E a X ((P @ take k xs) @ drop k xs)"
      using buff [of n "drop k xs"] n fits by (auto simp: word_less_nat_alt)
    then have "\<exists>r S'. Option.bind (out_event_check a (count_writes w n X)) (\<lambda>S. Some (send_end (k + length (drop k xs)) S)) = Some (r, S') \<and>
      accepted r \<le> length xs \<and> tx_inv E a S' (P @ take (accepted r) xs)" using fin [of X "length (drop k xs)" n] by simp
    then show ?thesis using fits X(1) by (simp add: write_ring_idle_def)
  qed
qed

lemma write_law:
  assumes L: "lwip_ok (lwip E)" and pool: "pool_ok E" and inv: "tx_inv E a S P" and len: "length xs < 2 ^ 31"
  shows "\<exists>r S'. write_stack_data E a xs ip S = Some (r, S') \<and> accepted r \<le> length xs \<and> tx_inv E a S' (P @ take (accepted r) xs)"
proof -
  obtain s C where I: "tx_at E a S s C P" using inv by (auto simp: tx_inv_def)
  note D = tx_atD [OF I]
  let ?M = "unat (mbuf_max E)"
  have M: "0 < ?M" using pool by (simp add: pool_ok_def word_less_nat_alt)
  show ?thesis
  proof (cases "0 < sint (errevent s) \<or> sock_stack S a = None \<or> xs = []")
    case True
    then show ?thesis using D(2) inv by (auto simp: write_stack_data_def)
  next
    case False
    obtain k X C' where X: "(if remain_len S a \<noteq> 0 then merge_data_lastpbuf E a xs S else Some (0, S)) = Some (k, X)"
      "k \<le> length xs" "k = 0 \<or> k < ?M" "tx_at E a X s C' (P @ take k xs)"
      using merge_law [OF L I, of xs] I by (cases "remain_len S a = 0") auto
    note DX = tx_atD [OF X(4)]
    have iX: "tx_inv E a X (P @ take k xs)" using X(4) by (auto simp: tx_inv_def)
    define c where "c = (length xs - k + ?M - 1) div ?M"
    have run: "write_stack_data E a xs ip S = (if k \<ge> length xs then Some (send_end (length xs) X)
        else (if gazelle_ring_readable_count (send_ring s) = 0 then write_ring_full E a xs ip k (word_of_nat c) (wakeup s) X
          else write_ring_idle E a xs ip k (word_of_nat c) (gazelle_ring_readable_count (send_ring s)) (wakeup s) X))"
      using False D(2) X(1) DX(8) by (auto simp: write_stack_data_def Let_def c_def)
    show ?thesis
    proof (cases "k \<ge> length xs")
      case True
      then have "k = length xs" using X(2) by simp
      then show ?thesis using run iX by simp
    next
      case k: False
      note cd = ceil_div [of "length xs - k" ?M, folded c_def]
      have "c \<le> length xs - k + ?M - 1" unfolding c_def by (rule div_le_dividend)
      then have "c < 2 ^ 32" using len unat_lt16 [of "mbuf_max E"] by simp
      then have uc: "unat (word_of_nat c :: u32) = c" by (simp add: unsigned_of_nat take_bit_nat_eq_self)
      have n: "0 < unat (word_of_nat c :: u32)" "length xs - k \<le> unat (word_of_nat c :: u32) * ?M" "(unat (word_of_nat c :: u32) - 1) * ?M < length xs - k"
        unfolding uc using cd k M by simp_all
      have kl: "k < length xs" using k by simp
      show ?thesis
      proof (cases "gazelle_ring_readable_count (send_ring s) = 0")
        case True
        then show ?thesis unfolding run using k write_ring_full_law [OF L pool iX kl n(2,3)] by simp
      next
        case False
        then show ?thesis unfolding run using k write_ring_idle_law [OF L pool X(4) kl X(3) n refl False] by simp
      qed
    qed
  qed
qed
section \<open>Any interleaving of the two threads\<close>

text \<open>\<open>ins\<close> are the bytes whose writes were accepted, \<open>outs\<close> those of the buffers lwip took and confirmed.\<close>

inductive tx_run :: "'m io_env \<Rightarrow> addr \<Rightarrow> 'm io_state \<Rightarrow> u8 list \<Rightarrow> u8 list \<Rightarrow> 'm io_state \<Rightarrow> bool"
  for E a S0 where
  tx_start: "tx_run E a S0 [] [] S0"
| tx_write: "tx_run E a S0 ins outs S \<Longrightarrow> length xs < 2 ^ 31 \<Longrightarrow> write_stack_data (E\<lparr>trylock := t\<rparr>) a xs ip S = Some (r, S') \<Longrightarrow>
     tx_run E a S0 (ins @ take (accepted r) xs) outs S'"
| tx_look: "tx_run E a S0 ins outs S \<Longrightarrow> write_lwip_data E a remain fl S = Some (po, fl', S') \<Longrightarrow> tx_run E a S0 ins outs S'"
| tx_sent: "tx_run E a S0 ins outs S \<Longrightarrow> write_lwip_data E a remain fl S = Some (Some p, fl', S') \<Longrightarrow> pbufs S' p = Some b \<Longrightarrow>
     tx_run E a S0 ins (outs @ pb_data b) (handed_over a p S')"
| tx_replenish: "tx_run E a S0 ins outs S \<Longrightarrow> replenish_send_ring E a S = Some (again, S') \<Longrightarrow> tx_run E a S0 ins outs S'"

lemma tx_inv_trylock [simp]: "tx_inv (E\<lparr>trylock := t\<rparr>) = tx_inv E" "lwip (E\<lparr>trylock := t\<rparr>) = lwip E" "pool_ok (E\<lparr>trylock := t\<rparr>) = pool_ok E"
proof -
  have "idle (E\<lparr>trylock := t\<rparr>) = idle E" "sendable (E\<lparr>trylock := t\<rparr>) = sendable E"
    by (simp_all add: fun_eq_iff idle_def sendable_def)
  then show "tx_inv (E\<lparr>trylock := t\<rparr>) = tx_inv E" by (simp add: fun_eq_iff tx_inv_def tx_at_def tx_lists_def)
  show "pool_ok (E\<lparr>trylock := t\<rparr>) = pool_ok E" "lwip (E\<lparr>trylock := t\<rparr>) = lwip E" by (simp_all add: pool_ok_def init_mbuf_to_pbuf_def)
qed

lemma tx_run_inv:
  assumes L: "lwip_ok (lwip E)" and pool: "pool_ok E" and inv: "tx_inv E a S0 []" and run: "tx_run E a S0 ins outs S"
  shows "\<exists>P. tx_inv E a S P \<and> ins = outs @ P"
  using run
proof induction
  case tx_start
  then show ?case using inv by auto
next
  case (tx_write ins outs S xs t ip r S')
  then obtain P where P: "tx_inv E a S P" "ins = outs @ P" by blast
  have "tx_inv E a S' (P @ take (accepted r) xs)" using write_law [of "E\<lparr>trylock := t\<rparr>" a S P xs ip] L pool P(1) tx_write(2,3) by auto
  then show ?case using P(2) by (intro exI [of _ "P @ take (accepted r) xs"]) simp
next
  case (tx_look ins outs S remain fl po fl' S')
  then obtain P where P: "tx_inv E a S P" "ins = outs @ P" by blast
  then show ?case using write_lwip_data_law [OF P(1), of remain fl] tx_look(2) by auto
next
  case (tx_sent ins outs S remain fl p fl' S' b)
  then obtain P where P: "tx_inv E a S P" "ins = outs @ P" by blast
  then have S': "tx_inv E a S' P" "taken E a remain S' (Some p) P" using write_lwip_data_law [OF P(1), of remain fl] tx_sent(2) by auto
  then have b: "send_pre_del S' a = Some p" "pb_next b = None" "P = pb_data b @ drop (length (pb_data b)) P"
    using tx_sent(3) by (auto simp: taken_def)
  have "tx_inv E a (handed_over a p S') (drop (length (pb_data b)) P)" by (rule handed_over_law [OF S'(1) b(1) tx_sent(3) b(2)])
  moreover have "ins = (outs @ pb_data b) @ drop (length (pb_data b)) P" using P(2) b(3) by (metis append.assoc)
  ultimately show ?case by blast
next
  case (tx_replenish ins outs S again S')
  then obtain P where P: "tx_inv E a S P" "ins = outs @ P" by blast
  then show ?case using replenish_law [OF pool P(1)] tx_replenish(2) by auto
qed

text \<open>C12: The send path is a byte stream, over any run of whole calls of the application and the stack thread on a socket with nothing to send at first. However writes of less than 2 GB (merged into
  the last waiting buffer, filled into lent buffers, or hung as chains of new buffers behind the last one, whether or not each gets the lock of
  that buffer), the stack thread's taking of buffers with any limit, its confirmations and
  its refilling of the ring follow each other, the bytes lwip has been given, then those that wait, are exactly those accepted, in order.
  At every moment a write returns, accepts a prefix of what it is given and touches no freed buffer and no byte outside one, and lwip is given the
  next waiting bytes as one whole buffer of its own; it gets none only when nothing waits or the next buffer is larger than its limit. Within a call the stack
  thread does not move: \<open>app_direct_write\<close> stores into its first buffer after it has handed it back, and when the stack thread sends
  and frees the buffer before that, the store hits a freed buffer (\<open>late_store_hits_freed_buffer\<close>); so does, with an address, the store of that
  address after an attached chain, which follows the release of the lock.
\<close>

theorem tx_stream_in_order:
  assumes "lwip_ok (lwip E)" and "pool_ok E" and "tx_inv E a S0 []" and "tx_run E a S0 ins outs S"
  shows "\<exists>P. ins = outs @ P \<and>
    (\<forall>xs ip t. length xs < 2 ^ 31 \<longrightarrow> (\<exists>r S'. write_stack_data (E\<lparr>trylock := t\<rparr>) a xs ip S = Some (r, S') \<and> accepted r \<le> length xs \<and>
       tx_inv E a S' (P @ take (accepted r) xs))) \<and>
    (\<forall>remain fl. \<exists>po fl' S'. write_lwip_data E a remain fl S = Some (po, fl', S') \<and> tx_inv E a S' P \<and> taken E a remain S' po P)"
proof -
  obtain P where P: "tx_inv E a S P" "ins = outs @ P" using tx_run_inv [OF assms] by blast
  show ?thesis
  proof (intro exI [of _ P] conjI allI impI)
    show "ins = outs @ P" by (rule P(2))
    show "\<exists>r S'. write_stack_data (E\<lparr>trylock := t\<rparr>) a xs ip S = Some (r, S') \<and> accepted r \<le> length xs \<and> tx_inv E a S' (P @ take (accepted r) xs)"
      if "length xs < 2 ^ 31" for xs ip t using write_law [of "E\<lparr>trylock := t\<rparr>" a S P xs ip] assms(1,2) P(1) that by simp
    show "\<exists>po fl' S'. write_lwip_data E a remain fl S = Some (po, fl', S') \<and> tx_inv E a S' P \<and> taken E a remain S' po P" for remain fl
      by (rule write_lwip_data_law [OF P(1)])
  qed
qed

section \<open>A socket to evaluate on\<close>

definition demo_pool :: "addr list" where "demo_pool = [10, 11, 12, 13, 14, 15]"

definition demo_alloc :: "pbuf_heap \<Rightarrow> nat \<Rightarrow> addr list option" where
  "demo_alloc H n = (let ps = take n (filter (\<lambda>x. H x = None) demo_pool) in if length ps = n then Some ps else None)"

definition demo_tx_env :: "addr list io_env" where
  "demo_tx_env = demo_io\<lparr>alloc_bulk := demo_alloc\<rparr>"

lemma demo_alloc: "demo_alloc H n = Some ps \<Longrightarrow> length ps = n \<and> distinct ps \<and> set ps \<inter> dom H = {}"
proof -
  assume "demo_alloc H n = Some ps"
  then have e: "ps = take n (filter (\<lambda>x. H x = None) demo_pool)" "length ps = n"
    unfolding demo_alloc_def Let_def by (simp_all only: option.inject option.distinct split: if_splits)
  have "distinct (filter (\<lambda>x. H x = None) demo_pool)" by (rule distinct_filter) (simp add: demo_pool_def)
  then have "distinct ps" unfolding e(1) by (rule distinct_take)
  moreover have "H x = None" if "x \<in> set ps" for x using in_set_takeD [OF that [unfolded e(1)]] by simp
  ultimately show ?thesis using e(2) by auto
qed

lemma demo_tx_env: "lwip_ok (lwip demo_tx_env)" "elems demo_tx_env = plain_elems" "pool_ok demo_tx_env"
proof -
  have "mbuf_max demo_tx_env = 4" "raw_payload demo_tx_env = (\<lambda>_. [0, 0, 0, 0])" "alloc_bulk demo_tx_env = demo_alloc"
    by (simp_all add: demo_tx_env_def demo_io_def)
  then show "pool_ok demo_tx_env" unfolding pool_ok_def using demo_alloc by simp
qed (simp_all add: demo_tx_env_def demo_io_def plain_lwip_ok)

lemma demo_tx_inv: "tx_inv demo_tx_env 1 (demo_state Map.empty []) []"
proof -
  have r: "ring_inv plain_elems (empty_ring 2 (0::nat))" "ring_contents plain_elems (empty_ring 2 (0::nat)) = []"
    by (rule empty_ring_ok)+
  have "sock_alive 1 (demo_state Map.empty []) demo_ep_sock"
    by (simp add: sock_alive_def demo_state_def demo_ep_def demo_ep_sock_def)
  then have "tx_at demo_tx_env 1 (demo_state Map.empty []) demo_ep_sock (\<lambda>_. []) []"
    using r by (simp add: tx_at_def demo_tx_env heads_def tx_lists_def chains_ok_def owned_def demo_state_def demo_ep_sock_def ring_contents_def)
  then show ?thesis by (auto simp: tx_inv_def)
qed
definition demo_tx :: "(send_result \<times> send_result \<times> addr list io_state) option" where
  "demo_tx = do {
     (b, S) \<leftarrow> replenish_send_ring demo_tx_env 1 (demo_state Map.empty []);
     (r1, S) \<leftarrow> write_stack_data demo_tx_env 1 [1, 2, 3, 4, 5] None S;
     (r2, S) \<leftarrow> write_stack_data demo_tx_env 1 [6, 7, 8, 9, 10, 11, 12] None S;
     Some (r1, r2, S)}"

lemma tx_stream_in_order_witness:
  "\<exists>S. tx_run demo_tx_env 1 (demo_state Map.empty []) [1, 2, 3, 4, 5, 6, 7, 8, 9, 10, 11, 12] [] S \<and>
     (\<exists>P. [1, 2, 3, 4, 5, 6, 7, 8, 9, 10, 11, 12] = [] @ P \<and>
       (\<exists>po fl' S'. write_lwip_data demo_tx_env 1 4 0 S = Some (po, fl', S') \<and> taken demo_tx_env 1 4 S' po P))"
proof -
  let ?S0 = "demo_state Map.empty [] :: addr list io_state"
  have e: "map_option (\<lambda>(r1, r2, S). (r1, r2)) demo_tx = Some (Sent 5, Sent 7)" by code_simp
  then obtain b S1 S2 S3 where
    s: "replenish_send_ring demo_tx_env 1 ?S0 = Some (b, S1)" "write_stack_data demo_tx_env 1 [1, 2, 3, 4, 5] None S1 = Some (Sent 5, S2)"
       "write_stack_data demo_tx_env 1 [6, 7, 8, 9, 10, 11, 12] None S2 = Some (Sent 7, S3)"
    by (auto simp: demo_tx_def bind_eq_Some_conv)
  have "tx_run demo_tx_env 1 ?S0 ([] @ take (accepted (Sent 5)) [1, 2, 3, 4, 5]) [] S2"
    by (rule tx_write [OF tx_replenish [OF tx_start s(1)], where t = "trylock demo_tx_env"]) (use s(2) in simp_all)
  then have "tx_run demo_tx_env 1 ?S0 (([] @ take (accepted (Sent 5)) [1, 2, 3, 4, 5]) @ take (accepted (Sent 7)) [6, 7, 8, 9, 10, 11, 12]) [] S3"
    by (rule tx_write [where t = "trylock demo_tx_env"]) (use s(3) in simp_all)
  then have run: "tx_run demo_tx_env 1 ?S0 [1, 2, 3, 4, 5, 6, 7, 8, 9, 10, 11, 12] [] S3" by simp
  from tx_stream_in_order [OF demo_tx_env(1,3) demo_tx_inv run]
  obtain P where "[1, 2, 3, 4, 5, 6, 7, 8, 9, 10, 11, 12] = [] @ P"
    "\<exists>po fl' S'. write_lwip_data demo_tx_env 1 4 0 S3 = Some (po, fl', S') \<and> taken demo_tx_env 1 4 S' po P" by blast
  then show ?thesis using run by blast
qed

text \<open>
  The two halves of \<open>app_direct_write\<close> with the stack thread between them: it takes the first buffer, lwip sends and frees
  it, and the application's store to it hits a freed buffer.
\<close>

definition demo_late_store :: "(bool \<times> bool) option" where
  "demo_late_store = do {
     (b, S) \<leftarrow> replenish_send_ring demo_tx_env 1 (set_send_ring 1 ((empty_ring 2 0)\<lparr>capacity := 1\<rparr>) (demo_state Map.empty []));
     (n, ends, S) \<leftarrow> app_direct_fill demo_tx_env 1 [1, 2, 3, 4, 5] 2 S;
     (p, l) \<leftarrow> ends;
     (taken, fl, T) \<leftarrow> write_lwip_data demo_tx_env 1 100 0 S;
     Some (taken = Some p \<and> \<not> Option.is_none (app_direct_last 1 p l S), Option.is_none (app_direct_last 1 p l (handed_over 1 p T)))}"

lemma late_store_hits_freed_buffer: "demo_late_store = Some (True, True)" by code_simp

end
