(* ===== verification/Lstack_Life.thy ===== *)
theory Lstack_Life
  imports Lstack_Send
begin

text \<open>
  The life of a socket (\<open>src/lstack/core/lstack_lwip.c\<close>): \<open>gazelle_init_sock\<close> establishes what the receive and the send path rely on,
  and \<open>gazelle_clean_sock\<close> ends, frees each buffer of the socket once and leaves nothing behind.
\<close>
section \<open>Closing\<close>

lemma restrict_twice: "(H |` (- A)) |` (- B) = H |` (- (A \<union> B))"
  by (auto simp: restrict_map_def)

lemma free_list_law:
  assumes L: "lwip_ok L"
  shows "chain_list H p = Some cs \<Longrightarrow> free_list_pbuf L p H = Some (H |` (- set cs))"
proof (induction cs arbitrary: p H)
  case Nil
  then have "p = None" by (simp add: chain_list_Nil)
  then show ?case by (simp add: free_list_pbuf.simps restrict_map_def)
next
  case (Cons a cs)
  then obtain b where b: "p = Some a" "H a = Some b" "chain_list H (pb_next b) = Some cs" by (auto simp: chain_list_Cons)
  let ?H = "H(a \<mapsto> b\<lparr>pb_next := None\<rparr>)"
  have na: "a \<notin> set cs" using chain_list_distinct [OF Cons.prems] by simp
  have "chain_list ?H (Some a) = Some [a]" by (simp add: chain_list_Cons chain_list_Nil)
  from free_chain [OF L this] have f: "pbuf_free L a ?H = Some (?H |` (- {a}))" by simp
  have "chain_list (?H |` (- {a})) (pb_next b) = Some cs" by (rule chain_list_cong [OF b(3)]) (use na in \<open>auto simp: restrict_map_def\<close>)
  from Cons.IH [OF this] have "free_list_pbuf L (pb_next b) (?H |` (- {a})) = Some (?H |` (- {a}) |` (- set cs))" .
  moreover have "?H |` (- {a}) |` (- set cs) = H |` (- set (a # cs))" by (auto simp: restrict_map_def)
  ultimately show ?case using b f by (subst free_list_pbuf.simps) simp
qed

lemma chains_ok_rest:
  assumes "chains_ok H C (ps @ qs)"
  shows "chains_ok H C ps" "chains_ok (H |` (- owned C ps)) C qs"
proof -
  have a: "chains_ok H C ps" "chains_ok H C qs" "owned C ps \<inter> owned C qs = {}" using assms unfolding chains_ok_append by blast+
  show "chains_ok H C ps" by (rule a(1))
  show "chains_ok (H |` (- owned C ps)) C qs" by (rule chains_ok_heap [OF a(2)]) (use a(3) in \<open>auto simp: restrict_map_def\<close>)
qed

lemma free_opt_law: "lwip_ok L \<Longrightarrow> chains_ok H C [p] \<Longrightarrow> free_opt L (Some p) H = Some (H |` (- owned C [p]))"
  using free_chain [of L H p "C p"] by (simp add: free_opt_def chains_ok_def owned_def)

text \<open>What a socket holds: its receive ring, then what the stack thread has in hand and the send ring.\<close>

definition held :: "'m io_env \<Rightarrow> addr \<Rightarrow> 'm io_state \<Rightarrow> ep_sock \<Rightarrow> addr list" where
  "held E a S s = (if has_recv_ring S a then ring_contents (elems E) (recv_ring s) else []) @
     (if has_send_ring S a then ring_contents (elems E) (send_ring s) else []) @ rev (heads a S)"

lemma reset_law:
  assumes L: "lwip_ok (lwip E)" and b: "recv_burst E \<noteq> 0" and s: "socks (ep S) a = Some s" "recv_lastdata s = None"
    and R: "has_recv_ring S a \<Longrightarrow> ring_inv (elems E) (recv_ring s)" "has_send_ring S a \<Longrightarrow> ring_inv (elems E) (send_ring s)"
    and ch: "chains_ok (pbufs S) C (held E a S s)"
  shows "\<exists>S' t. reset_sock_data E a S = Some S' \<and> pbufs S' = pbufs S |` (- owned C (held E a S s)) \<and>
    \<not> has_recv_ring S' a \<and> \<not> has_send_ring S' a \<and> sock_stack S' a = None \<and> heads a S' = [] \<and> remain_len S' a = 0 \<and> call_num S' a = 0 \<and>
    socks (ep S') a = Some t \<and> conn t = conn s \<and> wakeup t = None \<and> recv_lastdata t = None \<and> same_node_ready t = same_node_ready s \<and>
    dom (polls (ep S')) = dom (polls (ep S)) \<and> recvmbox S' = recvmbox S \<and> node_rx S' = node_rx S \<and> recv_linked S' = recv_linked S \<and>
    recv_lists S' = recv_lists S \<and> name_tick S' = name_tick S"
proof -
  let ?r = "if has_recv_ring S a then ring_contents (elems E) (recv_ring s) else []"
  let ?q = "if has_send_ring S a then ring_contents (elems E) (send_ring s) else []"
  define ld where "ld = (case send_lastdata S a of None \<Rightarrow> [] | Some p \<Rightarrow> [p])"
  define pd where "pd = (case send_pre_del S a of None \<Rightarrow> [] | Some p \<Rightarrow> [p])"
  let ?H0 = "pbufs S" let ?H1 = "?H0 |` (- owned C ?r)" let ?H2 = "?H1 |` (- owned C ?q)" let ?H3 = "?H2 |` (- owned C ld)"
  have held: "held E a S s = ?r @ ?q @ ld @ pd" by (simp add: held_def heads_def ld_def pd_def split: option.split)
  have c0: "chains_ok ?H0 C ?r" "chains_ok ?H1 C (?q @ ld @ pd)" using chains_ok_rest [of ?H0 C ?r] ch unfolding held by blast+
  have c1: "chains_ok ?H1 C ?q" "chains_ok ?H2 C (ld @ pd)" using chains_ok_rest [OF c0(2)] by blast+
  have c2: "chains_ok ?H2 C ld" "chains_ok ?H3 C pd" using chains_ok_rest [OF c1(2)] by blast+
  have e: "owned C [] = {}" "H |` UNIV = H" for H :: pbuf_heap by (simp_all add: owned_def restrict_map_def)
  have 1: "(if has_recv_ring S a then free_ring_pbuf E (recv_ring s) ?H0 else Some ?H0) = Some ?H1"
    using free_ring_owned [OF L R(1) b, of ?H0 C] c0(1) by (auto simp: e)
  have 2: "(if has_send_ring S a then free_ring_pbuf E (send_ring s) ?H1 else Some ?H1) = Some ?H2"
    using free_ring_owned [OF L R(2) b, of ?H1 C] c1(1) by (auto simp: e)
  have 3: "free_list_pbuf (lwip E) (send_lastdata S a) ?H2 = Some ?H3"
  proof (cases "send_lastdata S a")
    case (Some p)
    then have "chain_list ?H2 (Some p) = Some (C p)" using c2(1) by (simp add: ld_def chains_ok_def)
    then show ?thesis using free_list_law [OF L] Some by (simp add: ld_def owned_def)
  qed (simp add: ld_def e free_list_pbuf.simps)
  have 4: "free_opt (lwip E) (send_pre_del S a) ?H3 = Some (?H3 |` (- owned C pd))"
  proof (cases "send_pre_del S a")
    case (Some p)
    then show ?thesis using free_opt_law [OF L] c2(2) by (simp add: pd_def)
  qed (simp add: pd_def e free_opt_def)
  have 5: "?H3 |` (- owned C pd) = ?H0 |` (- owned C (held E a S s))" unfolding held restrict_twice owned_append by (simp add: Un_assoc)
  have "free_opt (lwip E) (recv_lastdata s) (?H3 |` (- owned C pd)) = Some (?H3 |` (- owned C pd))" using s(2) by (simp add: free_opt_def)
  then show ?thesis unfolding reset_sock_data_def s(1) bind.bind_lunit 1 2 3 4 5 by (simp add: heads_def sock_upd_def s dom_def)
qed
lemma unlink_event_sock:
  assumes "socks X a = Some s"
  shows "\<exists>t. socks (unlink_event a X) a = Some t \<and> recv_ring t = recv_ring s \<and> send_ring t = send_ring s \<and> recv_lastdata t = recv_lastdata s"
  using assms by (auto simp: unlink_event_def sock_upd_def poll_upd_def split: option.split)

lemma unlink_recv_frame [simp]:
  "pbufs (unlink_recv a S) = pbufs S" "has_recv_ring (unlink_recv a S) = has_recv_ring S" "has_send_ring (unlink_recv a S) = has_send_ring S"
  "heads a (unlink_recv a S) = heads a S" "recv_linked (unlink_recv a S) a = None" "sock_stack (unlink_recv a S) = sock_stack S" "ep (unlink_recv a S) = ep S"
  by (auto simp: unlink_recv_def heads_def split: option.split)

text \<open>C13: Closing a socket ends, whatever is in its rings: on a socket none of whose packets is read in part, all loops of gazelle_clean_sock
  come to their end, every buffer of its receive ring, of its send ring (lent, read or waiting, with the chains behind it) and in the
  stack thread's hands is freed exactly once, no other buffer is touched, the rings are gone and the node is off the stack's list;
  a second close does nothing.
\<close>

theorem close_frees_everything_once:
  assumes "lwip_ok (lwip E)" and "recv_burst E \<noteq> 0" and "sock_alive a S s" and "recv_lastdata s = None" and "sock_stack S a = Some i"
    and "has_recv_ring S a \<longrightarrow> ring_inv (elems E) (recv_ring s)" and "has_send_ring S a \<longrightarrow> ring_inv (elems E) (send_ring s)"
    and "chains_ok (pbufs S) C (held E a S s)"
  shows "\<exists>S'. gazelle_clean_sock E (Some a) S = Some S' \<and> pbufs S' = pbufs S |` (- owned C (held E a S s)) \<and>
    \<not> has_recv_ring S' a \<and> \<not> has_send_ring S' a \<and> heads a S' = [] \<and> recv_linked S' a = None \<and>
    gazelle_clean_sock E (Some a) S' = Some S'"
proof -
  have s: "socks (ep S) a = Some s" "\<And>w. wakeup s = Some w \<Longrightarrow> polls (ep S) w \<noteq> None" using assms(3) by (simp_all add: sock_alive_def)
  obtain e s1 where e: "(case wakeup s of None \<Rightarrow> Some (ep S)
      | Some w \<Rightarrow> map_option (\<lambda>p. if wtype p = Wakeup_epoll then unlink_event a (ep S) else ep S) (polls (ep S) w)) = Some e"
    "socks e a = Some s1" "recv_ring s1 = recv_ring s" "send_ring s1 = send_ring s" "recv_lastdata s1 = None"
  proof (cases "wakeup s")
    case (Some w)
    then obtain p where "polls (ep S) w = Some p" using s(2) by auto
    then show ?thesis using that Some s(1) unlink_event_sock [OF s(1)] assms(4) by (cases "wtype p = Wakeup_epoll") auto
  qed (use that s(1) assms(4) in auto)
  let ?X = "S\<lparr>ep := e, conn_num := (conn_num S)(i := conn_num S i - 1)\<rparr>"
  have h: "held E a ?X s1 = held E a S s" using e(3,4) by (simp add: held_def heads_def)
  have "socks (ep ?X) a = Some s1" "chains_ok (pbufs ?X) C (held E a ?X s1)" using e(2) assms(8) h by simp_all
  from reset_law [OF assms(1,2) this(1) e(5) _ _ this(2)] assms(6,7) e(3,4)
  obtain Y t where Y: "reset_sock_data E a ?X = Some Y" "pbufs Y = pbufs S |` (- owned C (held E a S s))" "\<not> has_recv_ring Y a" "\<not> has_send_ring Y a"
    "sock_stack Y a = None" "heads a Y = []" "socks (ep Y) a = Some t" unfolding h by auto
  have "gazelle_clean_sock E (Some a) S = Some (unlink_recv a Y)" using s(1) assms(5) e(1) Y(1) by (simp add: gazelle_clean_sock_def)
  moreover have "gazelle_clean_sock E (Some a) (unlink_recv a Y) = Some (unlink_recv a Y)" using Y(5,7) by (simp add: gazelle_clean_sock_def)
  ultimately show ?thesis using Y by (intro exI [of _ "unlink_recv a Y"]) simp
qed

text \<open>A socket with a buffer in lwip's hand and a chain of two behind it.\<close>

definition demo_held :: "addr list io_state" where
  "demo_held = (demo_state [10 \<mapsto> demo_pbuf [1, 2] (Some 11) 2 0, 11 \<mapsto> demo_pbuf [3] None 1 0, 12 \<mapsto> demo_pbuf [4] None 1 0, 20 \<mapsto> demo_pbuf [9] None 1 0] [])
     \<lparr>send_lastdata := (\<lambda>_. Some 10), send_pre_del := (\<lambda>_. Some 12)\<rparr>"

lemma close_frees_everything_once_witness:
  "\<exists>S'. gazelle_clean_sock demo_io (Some 1) demo_held = Some S' \<and> pbufs S' = pbufs demo_held |` (- {10, 11, 12}) \<and> pbufs S' 20 \<noteq> None"
proof -
  let ?C = "\<lambda>p. if p = 10 then [10, 11] else [p :: nat]"
  have r: "ring_inv plain_elems (empty_ring 2 (0::nat))" "ring_contents plain_elems (empty_ring 2 (0::nat)) = []" by (rule empty_ring_ok)+
  have h: "held demo_io 1 demo_held demo_ep_sock = [10, 12]" "owned ?C [10, 12] = {10, 11, 12}"
    using r(2) by (auto simp: held_def heads_def demo_held_def demo_state_def demo_ep_sock_def owned_def)
  have a: "sock_alive 1 demo_held demo_ep_sock" by (simp add: sock_alive_def demo_held_def demo_state_def demo_ep_def demo_ep_sock_def)
  have c: "chains_ok (pbufs demo_held) ?C (held demo_io 1 demo_held demo_ep_sock)"
    unfolding h(1) by (simp add: chains_ok_def demo_held_def demo_state_def demo_pbuf_def chain_list_Cons)
  have "recv_burst demo_io \<noteq> 0" "recv_lastdata demo_ep_sock = None" "sock_stack demo_held 1 = Some 0"
    by (simp_all add: demo_io_def demo_ep_sock_def demo_held_def demo_state_def)
  from close_frees_everything_once [OF demo_lwip(1) this(1) a this(2,3) _ _ c] r
  obtain S' where "gazelle_clean_sock demo_io (Some 1) demo_held = Some S'" "pbufs S' = pbufs demo_held |` (- {10, 11, 12})"
    unfolding h by (auto simp: demo_ep_sock_def)
  moreover have "(pbufs demo_held |` (- {10, 11, 12})) 20 \<noteq> None" by (simp add: demo_held_def demo_state_def)
  ultimately show ?thesis by auto
qed

section \<open>Setting up\<close>

text \<open>What DPDK documents of \<open>rte_ring_create\<close>: the ring, if there is one, is empty and in order.\<close>

definition rings_ok :: "'m io_env \<Rightarrow> bool" where
  "rings_ok E \<longleftrightarrow> (\<forall>name n fl r. rte_ring_create E name n fl = Some r \<longrightarrow> ring_inv (elems E) r \<and> ring_contents (elems E) r = [])"

lemma create_ring_law: "rings_ok E \<Longrightarrow> create_ring E name n fl k = Some r \<Longrightarrow> ring_inv (elems E) r \<and> ring_contents (elems E) r = []"
  by (auto simp: rings_ok_def create_ring_def bind_eq_Some_conv)

text \<open>The two rings a socket asks for.\<close>

definition sock_rings :: "'m io_env \<Rightarrow> u32 \<Rightarrow> addr rte_ring option \<times> addr rte_ring option" where
  "sock_rings E tick =
     (create_ring E ''sock_recv'' (recv_ring_size E) (ring_f_sp_enq OR ring_f_sc_deq) (ucast tick),
      create_ring E ''sock_send'' (send_ring_size E) (ring_f_sp_enq OR ring_f_sc_deq) (ucast (tick + 1)))"

lemma held_none: "\<not> has_recv_ring S a \<Longrightarrow> \<not> has_send_ring S a \<Longrightarrow> heads a S = [] \<Longrightarrow> held E a S s = []"
  by (simp add: held_def)

lemma replenish_frame:
  assumes "replenish_send_idlembuf E a S = Some (again, S')" and "socks (ep S) a = Some s"
  shows "\<exists>q. socks (ep S') a = Some (s\<lparr>send_ring := q\<rparr>)" and "polls (ep S') = polls (ep S)" and "recvmbox S' = recvmbox S" and "node_rx S' = node_rx S"
    and "sock_stack S' = sock_stack S"
proof -
  have id: "\<exists>q. s = s\<lparr>send_ring := q\<rparr>" by (rule exI [of _ "send_ring s"]) simp
  show "\<exists>q. socks (ep S') a = Some (s\<lparr>send_ring := q\<rparr>)" "polls (ep S') = polls (ep S)" "recvmbox S' = recvmbox S" "node_rx S' = node_rx S"
    "sock_stack S' = sock_stack S"
    using assms id by (auto simp: replenish_send_idlembuf_def Let_def set_send_ring_def sock_upd_def split: if_splits option.splits prod.splits bind_splits)
qed

lemma rx_inv_empty:
  assumes "sock_alive a S s" "recvmbox S a = Some m" "pend m = []" "node_rx S a = None" "ring_inv (elems E) (recv_ring s)"
    "ring_contents (elems E) (recv_ring s) = []" "recv_lastdata s = None"
  shows "rx_inv E pend a S [] []"
  unfolding rx_inv_def
  by (intro exI [of _ s] exI [of _ "\<lambda>_. []"] exI [of _ m] exI [of _ "[]"])
    (use assms in \<open>simp add: core_inv_def packets_ok_def chains_ok_def reading_def unread_def core_of_def ring_contents_def\<close>)

lemma tx_inv_empty:
  assumes "sock_alive a S s" "has_send_ring S a" "ring_inv (elems E) (send_ring s)" "ring_contents (elems E) (send_ring s) = []" "heads a S = []"
  shows "tx_inv E a S []"
proof -
  have "send_pre_del S a = None" using assms(5) by (auto simp: heads_def split: option.splits)
  then have "tx_at E a S s (\<lambda>_. []) []"
    using assms by (simp add: tx_at_def tx_lists_def chains_ok_def owned_def ring_contents_def)
  then show ?thesis by (auto simp: tx_inv_def)
qed

text \<open>C14: gazelle_init_sock on a socket that holds nothing, with a connection whose mailbox is empty and no same-node ring, establishes what the data path rests on: with both rings created, the send side is in order with
  nothing waiting, even when the pool had no buffers to lend, and the receive side is in order with nothing to read, so that
  the two stream theorems hold of every run from there; when one of the rings could not be created the socket gets no stack. The rings are those of
  \<open>create_ring\<close>, under names made of the process index and two ticks of the counter; what is assumed is that \<open>rte_ring_create\<close>, if it returns a
  ring, returns an empty one.
\<close>

theorem set_up_socket_is_ready:
  assumes "lwip_ok (lwip E)" and "pool_ok E" and "rings_ok E" and "recv_burst E \<noteq> 0"
    and "socks (ep S) a = Some s" and "conn s \<noteq> None" and "recv_lastdata s = None" and "\<not> has_recv_ring S a" and "\<not> has_send_ring S a"
    and "send_pre_del S a = None" and "send_lastdata S a = None" and "recvmbox S a = Some m" and "pend m = []" and "node_rx S a = None"
  shows "\<exists>S'. gazelle_init_sock E i (Some a) S = Some S' \<and>
    (if fst (sock_rings E (name_tick S)) \<noteq> None \<and> snd (sock_rings E (name_tick S)) \<noteq> None
     then tx_inv E a S' [] \<and> rx_inv E pend a S' [] [] \<and> sock_stack S' a = Some i \<and> recv_linked S' a = None
     else sock_stack S' a = None)"
proof -
  have H: "heads a S = []" using assms(10,11) by (simp add: heads_def)
  note h = held_none [OF assms(8,9) H, of E s]
  have "chains_ok (pbufs S) (\<lambda>_. []) (held E a S s)" by (simp add: h chains_ok_def)
  from reset_law [OF assms(1,4,5,7) _ _ this] assms(8,9)
  obtain Y t where Y: "reset_sock_data E a S = Some Y" "\<not> has_recv_ring Y a" "\<not> has_send_ring Y a" "sock_stack Y a = None" "heads a Y = []"
    "socks (ep Y) a = Some t" "conn t = conn s" "wakeup t = None" "recv_lastdata t = None" "recvmbox Y = recvmbox S" "node_rx Y = node_rx S"
    "name_tick Y = name_tick S" by auto
  show ?thesis
  proof (cases "fst (sock_rings E (name_tick S))")
    case None
    then show ?thesis using Y by (simp add: gazelle_init_sock_def sock_rings_def)
  next
    case r: (Some r)
    define X where "X = (set_recv_ring a r (Y\<lparr>name_tick := name_tick Y + 1\<rparr>))\<lparr>has_recv_ring := (has_recv_ring Y)(a := True)\<rparr>"
    have X: "name_tick X = name_tick S + 1" "sock_stack X a = None" "socks (ep X) a = Some (t\<lparr>recv_ring := r\<rparr>)" "heads a X = []"
      using Y by (simp_all add: X_def set_recv_ring_def heads_def sock_upd_def)
    show ?thesis
    proof (cases "snd (sock_rings E (name_tick S))")
      case None
      then show ?thesis using Y r X by (simp add: gazelle_init_sock_def sock_rings_def X_def [symmetric]) (simp add: X_def set_recv_ring_def)
    next
      case q: (Some q)
      define Z where "Z = (set_send_ring a q (X\<lparr>name_tick := name_tick X + 1\<rparr>))\<lparr>has_send_ring := (has_send_ring X)(a := True)\<rparr>"
      let ?z = "t\<lparr>recv_ring := r, send_ring := q\<rparr>"
      have Z: "socks (ep Z) a = Some ?z" "has_send_ring Z a" "heads a Z = []" "recvmbox Z = recvmbox S" "node_rx Z = node_rx S"
        using X Y by (simp_all add: Z_def X_def set_send_ring_def set_recv_ring_def sock_upd_def heads_def)
      have alive: "sock_alive a Z ?z" using Z(1) Y(7,8) assms(6) by (simp add: sock_alive_def)
      have ro: "ring_inv (elems E) r" "ring_contents (elems E) r = []" "ring_inv (elems E) q" "ring_contents (elems E) q = []"
        using create_ring_law [OF assms(3)] r q unfolding sock_rings_def by (metis fst_conv snd_conv)+
      have "tx_inv E a Z []" by (rule tx_inv_empty [OF alive Z(2) _ _ Z(3)]) (use ro in simp_all)
      then obtain again W where W: "replenish_send_idlembuf E a Z = Some (again, W)" "tx_inv E a W []" using replenish_idle_law [OF assms(2)] by blast
      note F = replenish_frame [OF W(1) Z(1)]
      let ?e = "sock_upd a (\<lambda>s. s\<lparr>linked := None\<rparr>) (ep W)"
      let ?S = "W\<lparr>sock_stack := (sock_stack W)(a := Some i), recv_linked := (recv_linked W)(a := None), ep := ?e\<rparr>"
      have run: "gazelle_init_sock E i (Some a) S = Some ?S"
        using Y(1,12) r q W(1) unfolding Z_def X_def by (simp add: gazelle_init_sock_def sock_rings_def set_recv_ring_def Let_def)
      have "same_tx a (ep W) ?e" by (rule same_tx_sock) simp
      from event_frame [OF W(2) this] have tx: "tx_inv E a ?S []" by (simp add: tx_inv_def tx_at_def heads_def sock_alive_def)
      obtain q' where q': "socks (ep W) a = Some (?z\<lparr>send_ring := q'\<rparr>)" using F(1) by blast
      have "rx_inv E pend a ?S [] []"
        by (rule rx_inv_empty [where s = "?z\<lparr>send_ring := q', linked := None\<rparr>" and m = m])
          (use q' F Z Y(7,8,9) assms(6,12,13,14) ro in \<open>simp_all add: sock_alive_def sock_upd_def\<close>)
      then show ?thesis using run tx r q by simp
    qed
  qed
qed

definition demo_new_env :: "addr list io_env" where
  "demo_new_env = demo_tx_env\<lparr>rte_ring_create := (\<lambda>name n fl. Some (empty_ring 2 0))\<rparr>"

definition demo_bare :: "addr list io_state" where
  "demo_bare = (demo_state Map.empty [])\<lparr>has_recv_ring := (\<lambda>_. False), has_send_ring := (\<lambda>_. False), sock_stack := (\<lambda>_. None)\<rparr>"

lemma demo_ring_names: "sock_ring_name 29 ''sock_recv'' 0 (ucast (0 :: u32)) = Some ''sock_recv_0_0''"
  "sock_ring_name 29 ''sock_send'' 0 (ucast (0 + 1 :: u32)) = Some ''sock_send_0_1''"
  by code_simp+

lemma set_up_socket_is_ready_witness:
  "\<exists>S'. gazelle_init_sock demo_new_env 3 (Some 1) demo_bare = Some S' \<and> tx_inv demo_new_env 1 S' [] \<and> rx_inv demo_new_env (\<lambda>m. m) 1 S' [] [] \<and>
     sock_stack S' 1 = Some 3"
proof -
  have "lwip_ok (lwip demo_new_env)" "pool_ok demo_new_env" "recv_burst demo_new_env \<noteq> 0"
    using demo_tx_env by (simp_all add: demo_new_env_def pool_ok_def) (simp add: demo_tx_env_def demo_io_def)
  moreover have "rings_ok demo_new_env"
    using empty_ring_ok [of 2 "0::nat"] demo_tx_env(2) by (simp add: rings_ok_def demo_new_env_def)
  moreover have "socks (ep demo_bare) 1 = Some demo_ep_sock" "conn demo_ep_sock \<noteq> None" "recv_lastdata demo_ep_sock = None" "\<not> has_recv_ring demo_bare 1"
    "\<not> has_send_ring demo_bare 1" "send_pre_del demo_bare 1 = None" "send_lastdata demo_bare 1 = None" "recvmbox demo_bare 1 = Some []"
    "node_rx demo_bare 1 = None"
    by (simp_all add: demo_bare_def demo_state_def demo_ep_def demo_ep_sock_def)
  moreover have "ring_namesize demo_new_env = 29" "proc_idx demo_new_env = 0" "name_tick demo_bare = 0"
    by (simp_all add: demo_new_env_def demo_tx_env_def demo_io_def demo_bare_def demo_state_def)
  then have "fst (sock_rings demo_new_env (name_tick demo_bare)) \<noteq> None \<and> snd (sock_rings demo_new_env (name_tick demo_bare)) \<noteq> None"
    using demo_ring_names unfolding sock_rings_def create_ring_def by (simp add: demo_new_env_def)
  ultimately show ?thesis
    using set_up_socket_is_ready [of demo_new_env demo_bare 1 demo_ep_sock "[]" "\<lambda>m. m" 3] by (auto simp del: fst_conv)
qed
section \<open>Datagrams\<close>

text \<open>
  Nothing on the send path looks at the kind of the socket. Of two datagrams to different addresses the second is merged into the first
  while that waits (with its address); when the ring is full, the second goes behind the first without an address, and the first
  is given the address of the second.
\<close>

definition next_datagram :: "'m io_env \<Rightarrow> addr \<Rightarrow> 'm io_state \<Rightarrow> ((u8 list \<times> u32) \<times> 'm io_state) option" where
  "next_datagram E a S = do {
     (po, fl, S) \<leftarrow> write_lwip_data E a 100 0 S;
     p \<leftarrow> po;
     b \<leftarrow> pbufs S p;
     Some ((pb_data b, pb_addr b), handed_over a p S)}"

definition demo_udp :: "(u8 list \<times> u32) option" where
  "demo_udp = do {
     (b, S) \<leftarrow> replenish_send_ring demo_tx_env 1 (demo_state Map.empty []);
     (r1, S) \<leftarrow> write_stack_data demo_tx_env 1 [1, 2] (Some (7, 80)) S;
     (r2, S) \<leftarrow> write_stack_data demo_tx_env 1 [3] (Some (8, 81)) S;
     (d, S) \<leftarrow> next_datagram demo_tx_env 1 S;
     Some d}"

definition demo_udp_full :: "((u8 list \<times> u32) \<times> (u8 list \<times> u32)) option" where
  "demo_udp_full = do {
     (b, S) \<leftarrow> replenish_send_ring demo_tx_env 1 (set_send_ring 1 ((empty_ring 2 0)\<lparr>capacity := 1\<rparr>) (demo_state Map.empty []));
     (r1, S) \<leftarrow> write_stack_data demo_tx_env 1 [1, 2, 3, 4] (Some (7, 80)) S;
     (r2, S) \<leftarrow> write_stack_data demo_tx_env 1 [5, 6] (Some (8, 81)) S;
     (d1, S) \<leftarrow> next_datagram demo_tx_env 1 S;
     (d2, S) \<leftarrow> next_datagram demo_tx_env 1 S;
     Some (d1, d2)}"

lemma udp_datagrams_are_merged: "demo_udp = Some ([1, 2, 3], 7)" by code_simp

lemma udp_addresses_are_mixed_up: "demo_udp_full = Some (([1, 2, 3, 4], 8), ([5, 6], 0))" by code_simp

end
