(* ===== verification/Lstack_Cfg.thy ===== *)
theory Lstack_Cfg
  imports Ltran_Param
begin

text \<open>
  lstack's configuration (\<open>src/lstack/core/lstack_cfg.c\<close>): the thirty parsers with their table, the
  arguments that go to DPDK, and the CPUs a stack leaves to the application.

  Parameters: what libconfig finds under a key, the allocator, \<open>inet_addr\<close>, securec's formatting and
  copying functions, the file with the CPUs of a NUMA node.
\<close>

section \<open>The configuration\<close>

record secondary_attach_arg =
  socket_num :: u8
  socket_size :: u64
  socket_per_size :: "u32 list"
  attach_base :: u64
  attach_prefix :: string

text \<open>
  \<open>g_config_params\<close>, which is zero when the program starts. \<open>lstack_argv\<close> is the array of
  \<open>dpdk_argv\<close>, \<open>None\<close> before it is allocated; its entries may be null.
\<close>

record cfg_params =
  host_addr :: u32
  netmask :: u32
  gateway_addr :: u32
  eth_addr :: "u8 list"
  num_cpu :: u16
  cpus :: "u32 list"
  send_cpus :: "u32 list"
  recv_cpus :: "u32 list"
  app_exclude_num_cpu :: u16
  app_exclude_cpus :: "u32 list"
  low_power_mod :: u16
  lpm_rx_pkts :: u16
  lpm_detect_ms :: u32
  lpm_pkts_in_detect :: u32
  tcp_conn_count :: u32
  mbuf_count_per_conn :: u32
  read_connect_number :: u32
  rpc_number :: u32
  nic_read_number :: u32
  use_ltran :: u8
  num_process :: u16
  is_primary :: u16
  num_queue :: u16
  tot_queue_num :: u16
  process_idx :: u8
  process_numa :: "u32 list"
  lstack_kni_switch :: bool
  listen_shadow :: bool
  app_bind_numa :: bool
  main_thread_affinity :: bool
  seperate_send_recv :: bool
  lstack_argc :: int
  lstack_argv :: "string option list option"
  sec_attach_arg :: secondary_attach_arg
  reg_socket_filename :: string
  cfg_send_ring_size :: u16
  cfg_expand_send_ring :: bool
  tuple_filter :: bool
  use_bond4 :: bool
  bond4_slave1_mac_addr :: "u8 list"
  bond4_slave2_mac_addr :: "u8 list"
  use_sockmap :: bool
  udp_enable :: bool

definition cfg_max_cpus :: nat where "cfg_max_cpus = 512"
definition max_reg_args :: nat where "max_reg_args = 32" \<comment> \<open>\<open>GAZELLE_MAX_REG_ARGS\<close>\<close>
definition max_numa_nodes :: nat where "max_numa_nodes = 8"
definition protocol_stack_max :: nat where "protocol_stack_max = 32"
definition path_max :: nat where "path_max = 4096"

definition g_config_params :: cfg_params where
  "g_config_params = \<lparr>host_addr = 0, netmask = 0, gateway_addr = 0, eth_addr = replicate 6 0, num_cpu = 0,
     cpus = replicate cfg_max_cpus 0, send_cpus = replicate cfg_max_cpus 0, recv_cpus = replicate cfg_max_cpus 0,
     app_exclude_num_cpu = 0, app_exclude_cpus = replicate cfg_max_cpus 0, low_power_mod = 0, lpm_rx_pkts = 0,
     lpm_detect_ms = 0, lpm_pkts_in_detect = 0, tcp_conn_count = 0, mbuf_count_per_conn = 0, read_connect_number = 0,
     rpc_number = 0, nic_read_number = 0, use_ltran = 0, num_process = 0, is_primary = 0, num_queue = 0, tot_queue_num = 0,
     process_idx = 0, process_numa = replicate protocol_stack_max 0, lstack_kni_switch = False, listen_shadow = False,
     app_bind_numa = False, main_thread_affinity = False, seperate_send_recv = False, lstack_argc = 0, lstack_argv = None,
     sec_attach_arg = \<lparr>socket_num = 0, socket_size = 0, socket_per_size = replicate max_numa_nodes 0, attach_base = 0,
       attach_prefix = []\<rparr>,
     reg_socket_filename = [], cfg_send_ring_size = 0, cfg_expand_send_ring = False, tuple_filter = False, use_bond4 = False,
     bond4_slave1_mac_addr = replicate 6 0, bond4_slave2_mac_addr = replicate 6 0, use_sockmap = False, udp_enable = False\<rparr>"

text \<open>
  A setting of libconfig as its accessors show it: \<open>config_setting_get_string\<close> is null for
  anything but a string, \<open>config_setting_get_int\<close> gives 0 for anything but a number;
  \<open>config_setting_length\<close> is the number of elements and \<open>config_setting_get_string_elem\<close> is null for
  an element that is no string.
\<close>

record cfg_setting =
  setting_string :: "string option"
  setting_int :: i32
  setting_elems :: "string option list"

text \<open>
  \<open>scan_mac\<close> gives the fields \<open>sscanf_s\<close> converts; \<open>format_s\<close> is \<open>sprintf_s\<close> of a text into a buffer of a size,
  \<open>None\<close> for a negative return, \<open>copy_s\<close> is \<open>strcpy_s\<close> with its return value and what is in the target
  then, \<open>strncpy\<close> and \<open>strncat\<close> of securec are \<open>None\<close> for any return but \<open>EOK\<close>. \<open>calloc_argv\<close> and
  \<open>calloc_path\<close> are the two calls of \<open>calloc\<close>.
\<close>

record lcfg_env =
  config_lookup :: "string \<Rightarrow> cfg_setting option"
  inet_addr :: "string \<Rightarrow> u32"
  scan_mac :: "string \<Rightarrow> u8 list"
  calloc_argv :: bool
  calloc_path :: bool
  dup_ok :: "string \<Rightarrow> bool"
  format_s :: "nat \<Rightarrow> string \<Rightarrow> string option"
  copy_s :: "nat \<Rightarrow> string \<Rightarrow> int \<times> string"
  ncopy_s :: "nat \<Rightarrow> string \<Rightarrow> string option"
  ncat_s :: "nat \<Rightarrow> string \<Rightarrow> string \<Rightarrow> string option"
  pid_text :: string
  hex_text :: "u64 \<Rightarrow> string"

definition einval :: int where "einval = 22"

text \<open>\<open>strdup\<close>, null when there is no memory.\<close>

definition strdup :: "lcfg_env \<Rightarrow> string \<Rightarrow> string option" where
  "strdup E s = (if dup_ok E s then Some s else None)"

text \<open>
  A parser returns its \<open>int32_t\<close> and the configuration; the outer option is undefined behaviour: a
  write behind an array, or a string read through a null pointer.
\<close>

type_synonym cfg_parser = "lcfg_env \<Rightarrow> cfg_params \<Rightarrow> (int \<times> cfg_params) option"

text \<open>\<open>PARSE_ARG\<close> with the field it stores into.\<close>

definition parse_arg :: "lcfg_env \<Rightarrow> string \<Rightarrow> int \<Rightarrow> int \<Rightarrow> int \<Rightarrow> (int \<Rightarrow> cfg_params \<Rightarrow> cfg_params) \<Rightarrow> cfg_params \<Rightarrow> int \<times> cfg_params" where
  "parse_arg E key default_val min_val max_val set_field c =
     (case config_lookup E key of
        None \<Rightarrow> (0, set_field default_val c)
      | Some setting \<Rightarrow>
          let val = sint (setting_int setting) in
          if val < min_val \<or> val > max_val then (- einval, c) else (0, set_field val c))"

text \<open>\<open>config_lookup_string\<close>.\<close>

definition config_lookup_string :: "lcfg_env \<Rightarrow> string \<Rightarrow> string option" where
  "config_lookup_string E key = (case config_lookup E key of None \<Rightarrow> None | Some setting \<Rightarrow> setting_string setting)"

section \<open>Addresses\<close>

definition inaddr_none :: u32 where "inaddr_none = 0xffffffff"

definition str_to_eth_addr :: "lcfg_env \<Rightarrow> string \<Rightarrow> u8 list \<Rightarrow> int \<times> u8 list" where
  "str_to_eth_addr E src dst =
     (if length src > 17 then (- einval, dst)
      else let mac = scan_mac E src in
        if length mac \<noteq> 6 then (- einval, dst)
        else (0, mac))"

definition parse_gateway_addr :: cfg_parser where
  "parse_gateway_addr E c =
     (case config_lookup_string E ''gateway_addr'' of
        None \<Rightarrow> Some (- einval, c)
      | Some s \<Rightarrow>
          let c = c\<lparr>gateway_addr := inet_addr E s\<rparr> in
          if gateway_addr c = inaddr_none then Some (- einval, c) else Some (0, c))"

definition parse_mask_addr :: cfg_parser where
  "parse_mask_addr E c =
     (case config_lookup_string E ''mask_addr'' of
        None \<Rightarrow> Some (- einval, c)
      | Some s \<Rightarrow>
          let c = c\<lparr>netmask := inet_addr E s\<rparr> in
          if netmask c = inaddr_none then Some (- einval, c)
          else let mask = NOT (ntohl (netmask c)) in
            if mask AND (mask + 1) \<noteq> 0 then Some (- einval, c) else Some (0, c))"

definition parse_host_addr :: cfg_parser where
  "parse_host_addr E c =
     (case config_lookup_string E ''host_addr'' of
        None \<Rightarrow> Some (- einval, c)
      | Some s \<Rightarrow>
          let c = c\<lparr>host_addr := inet_addr E s\<rparr> in
          if host_addr c = inaddr_none then Some (- einval, c) else Some (0, c))"

definition match_host_addr :: "cfg_params \<Rightarrow> u32 \<Rightarrow> int" where
  "match_host_addr c a = (if a = host_addr c then 1 else 0)"

definition parse_devices :: cfg_parser where
  "parse_devices E c =
     (case config_lookup E ''devices'' of
        None \<Rightarrow> Some (- einval, c)
      | Some devs \<Rightarrow> (case setting_string devs of
          None \<Rightarrow> Some (0, c)
        | Some dev \<Rightarrow> let (ret, mac) = str_to_eth_addr E dev (eth_addr c) in Some (ret, c\<lparr>eth_addr := mac\<rparr>)))"
section \<open>The arguments for DPDK\<close>

text \<open>
  The first \<open>argc\<close> pointers of an array: one that lies behind it is taken for a null pointer, as
  following either is undefined.
\<close>

definition argv_entries :: "int \<Rightarrow> string option list \<Rightarrow> string option list" where
  "argv_entries argc argv = take (nat argc) argv @ replicate (nat argc - length argv) None"

definition starts_with :: "string \<Rightarrow> string \<Rightarrow> bool" where
  "starts_with param s \<longleftrightarrow> take (length param) s = param"

fun find_param :: "string \<Rightarrow> int \<Rightarrow> string option list \<Rightarrow> int option" where
  "find_param param idx [] = Some (- 1)"
| "find_param param idx (None # argv) = None"
| "find_param param idx (Some s # argv) = (if starts_with param s then Some idx else find_param param (idx + 1) argv)"

definition get_param_idx :: "int \<Rightarrow> string option list option \<Rightarrow> string \<Rightarrow> int option" where
  "get_param_idx argc argv param =
     (case argv of
        None \<Rightarrow> Some (- einval)
      | Some argv \<Rightarrow> if argc \<le> 0 then Some (- einval) else find_param param 0 (argv_entries argc argv))"

definition opt_bind_corelist :: string where "opt_bind_corelist = ''-l''"
definition opt_file_prefix :: string where "opt_file_prefix = ''--file-prefix''"
definition opt_socket_mem :: string where "opt_socket_mem = ''--socket-mem''"
definition opt_base_virtaddr :: string where "opt_base_virtaddr = ''--base-virtaddr''"

fun corelist_in :: "string option list \<Rightarrow> bool option" where
  "corelist_in [] = Some False"
| "corelist_in (None # argv) = None"
| "corelist_in (Some s # argv) =
     (if starts_with opt_bind_corelist s then Some True
      else if starts_with ''--lcores'' s then Some True
      else if starts_with ''-c'' s then Some True
      else if starts_with ''-s'' s then Some True
      else if starts_with ''-S'' s then Some True
      else corelist_in argv)"

definition have_corelist_arg :: "int \<Rightarrow> string option list option \<Rightarrow> bool option" where
  "have_corelist_arg argc argv =
     (if argc = 0 then Some False else if argc < 0 then None else (case argv of None \<Rightarrow> None | Some argv \<Rightarrow> corelist_in (argv_entries argc argv)))"

text \<open>\<open>dpdk_argv[dpdk_argc] = p; dpdk_argc++\<close>\<close>

definition push_arg :: "string option \<Rightarrow> cfg_params \<Rightarrow> cfg_params option" where
  "push_arg p c =
     (case lstack_argv c of
        None \<Rightarrow> None
      | Some argv \<Rightarrow>
          if 0 \<le> lstack_argc c \<and> nat (lstack_argc c) < length argv
          then Some (c\<lparr>lstack_argv := Some (argv[nat (lstack_argc c) := p]), lstack_argc := lstack_argc c + 1\<rparr>)
          else None)"

text \<open>The block that \<open>parse_stack_cpu_number\<close> has three times: the CPU list goes to DPDK unless it is there.\<close>

definition add_corelist :: "lcfg_env \<Rightarrow> string \<Rightarrow> cfg_params \<Rightarrow> cfg_params option" where
  "add_corelist E args c =
     do {
       have \<leftarrow> have_corelist_arg (lstack_argc c) (lstack_argv c);
       if \<not> have then do {
         idx \<leftarrow> get_param_idx (lstack_argc c) (lstack_argv c) opt_bind_corelist;
         if idx < 0 then do {
           c \<leftarrow> push_arg (strdup E opt_bind_corelist) c;
           push_arg (strdup E args) c
         } else Some c
       } else Some c
     }"

text \<open>A list of CPUs, parsed from a copy: without the copy a null pointer is followed.\<close>

definition cpu_list :: "lcfg_env \<Rightarrow> string \<Rightarrow> (int \<times> u32 list) option" where
  "cpu_list E args = (case strdup E args of None \<Rightarrow> None | Some s \<Rightarrow> separate_str_to_array s cfg_max_cpus (int cfg_max_cpus))"

definition config_string :: "lcfg_env \<Rightarrow> string \<Rightarrow> string option" where
  "config_string E key = (case config_lookup E key of None \<Rightarrow> None | Some setting \<Rightarrow> setting_string setting)"

definition parse_stack_cpu_number :: cfg_parser where
  "parse_stack_cpu_number E c =
     (if \<not> seperate_send_recv c then
        (case config_string E ''num_cpus'' of
           None \<Rightarrow> Some (- einval, c)
         | Some args \<Rightarrow> do {
             c \<leftarrow> add_corelist E args c;
             (cnt, arr) \<leftarrow> cpu_list E args;
             let c = c\<lparr>cpus := arr\<rparr>;
             if cnt \<le> 0 \<or> cnt > int cfg_max_cpus then Some (- einval, c)
             else do {
               let c = c\<lparr>num_cpu := word_of_int cnt, num_queue := word_of_int cnt\<rparr>;
               Some (0, c\<lparr>tot_queue_num := num_queue c\<rparr>)
             }
           })
      else
        (case config_string E ''send_num_cpus'' of
           None \<Rightarrow> Some (- einval, c)
         | Some args \<Rightarrow> do {
             c \<leftarrow> add_corelist E args c;
             (send_cpu_cnt, arr) \<leftarrow> cpu_list E args;
             let c = c\<lparr>send_cpus := arr\<rparr>;
             (case config_string E ''recv_num_cpus'' of
                None \<Rightarrow> Some (- einval, c)
              | Some args \<Rightarrow> do {
                  c \<leftarrow> add_corelist E args c;
                  (recv_cpu_cnt, arr) \<leftarrow> cpu_list E args;
                  let c = c\<lparr>recv_cpus := arr\<rparr>;
                  if send_cpu_cnt \<le> 0 \<or> send_cpu_cnt > int cfg_max_cpus div 2 \<or> send_cpu_cnt \<noteq> recv_cpu_cnt
                  then Some (- einval, c)
                  else do {
                    let c = c\<lparr>num_cpu := word_of_int send_cpu_cnt, num_queue := word_of_int send_cpu_cnt * 2\<rparr>;
                    Some (0, c\<lparr>tot_queue_num := num_queue c\<rparr>)
                  }
                })
           }))"

definition parse_param :: "lcfg_env \<Rightarrow> string \<Rightarrow> cfg_params \<Rightarrow> (int \<times> cfg_params) option" where
  "parse_param E param c =
     (if lstack_argc c \<ge> int max_reg_args then Some (- 1, c)
      else (case lstack_argv c of
          None \<Rightarrow> None
        | Some argv \<Rightarrow>
            if \<not> (0 \<le> lstack_argc c \<and> nat (lstack_argc c) < length argv) then None
            else let c = c\<lparr>lstack_argv := Some (argv[nat (lstack_argc c) := strdup E param])\<rparr> in
              if strdup E param = None then Some (- 1, c) else Some (0, c\<lparr>lstack_argc := lstack_argc c + 1\<rparr>)))"

text \<open>\<open>strtoull\<close> in base 16: the value, the end pointer and whether \<open>errno\<close> was set.\<close>

definition strtoull_hex :: "string \<Rightarrow> u64 \<times> string \<times> bool" where
  "strtoull_hex s =
     (case scan_number 16 s of
        None \<Rightarrow> (0, s, False)
      | Some (neg, n, r) \<Rightarrow>
          if n \<ge> 2 ^ 64 then (- 1, r, True) else (if neg then - word_of_int n else word_of_int n, r, False))"

definition gazelle_parse_base_virtaddr :: "string \<Rightarrow> u64 \<Rightarrow> int \<times> u64" where
  "gazelle_parse_base_virtaddr arg base_vaddr =
     (let (viraddr, end, err) = strtoull_hex arg in
      if err \<or> arg = [] \<or> end \<noteq> [] then (- einval, base_vaddr) else (0, viraddr))"

definition gazelle_parse_socket_mem :: "lcfg_env \<Rightarrow> string option \<Rightarrow> secondary_attach_arg \<Rightarrow> (int \<times> secondary_attach_arg) option" where
  "gazelle_parse_socket_mem E arg a =
     (case arg of
        None \<Rightarrow> Some (- 1, a)
      | Some arg \<Rightarrow> (case format_s E path_max arg of
          None \<Rightarrow> Some (- 1, a)
        | Some socket_mem \<Rightarrow> do {
            (count, arr) \<leftarrow> separate_str_to_array socket_mem max_numa_nodes (2 ^ 31 - 1);
            let a = a\<lparr>socket_per_size := arr\<rparr>;
            if count < 0 then Some (- 1, a)
            else do {
              let mem_size = sum_list (map (ucast :: u32 \<Rightarrow> u64) (take (nat count) arr));
              let mem_size = mem_size * 1024;
              let mem_size = mem_size * 1024;
              if mem_size > 2 ^ 44 - 1 \<or> count > 255 then Some (- 1, a)
              else Some (0, a\<lparr>socket_num := word_of_int count, socket_size := mem_size\<rparr>)
            }
          }))"

text \<open>The arguments \<open>print_dpdk_param\<close> prints: the base address and its option are left out.\<close>

fun print_dpdk_param :: "bool \<Rightarrow> string option list \<Rightarrow> string list option" where
  "print_dpdk_param skip [] = Some []"
| "print_dpdk_param skip (None # argv) = None"
| "print_dpdk_param skip (Some s # argv) =
     (if starts_with opt_base_virtaddr s then print_dpdk_param True argv
      else if skip then print_dpdk_param False argv
      else map_option ((#) s) (print_dpdk_param False argv))"
definition arg_at :: "string option list \<Rightarrow> int \<Rightarrow> string option" where
  "arg_at argv i = (if 0 \<le> i \<and> nat i < length argv then argv ! nat i else None)"

text \<open>
  The three blocks of \<open>turn_args_to_config\<close>: \<open>Some\<close> of the value with which the function returns
  there, or \<open>None\<close> when it goes on.
\<close>

definition turn_file_prefix :: "lcfg_env \<Rightarrow> int \<Rightarrow> string option list \<Rightarrow> cfg_params \<Rightarrow> (int option \<times> cfg_params) option" where
  "turn_file_prefix E argc argv c = do {
     idx \<leftarrow> get_param_idx argc (Some argv) opt_file_prefix;
     let set_prefix = (\<lambda>t. case format_s E path_max t of
        None \<Rightarrow> (Some (- 1), c)
      | Some t \<Rightarrow> (None, c\<lparr>sec_attach_arg := (sec_attach_arg c)\<lparr>attach_prefix := t\<rparr>\<rparr>));
     if idx < 0 then Some (set_prefix (''gazelle_'' @ pid_text E))
     else if idx + 1 \<ge> lstack_argc c then Some (Some (- 1), c)
     else map_option set_prefix (arg_at argv (idx + 1))
   }"

definition turn_socket_mem :: "lcfg_env \<Rightarrow> int \<Rightarrow> string option list \<Rightarrow> cfg_params \<Rightarrow> (int option \<times> cfg_params) option" where
  "turn_socket_mem E argc argv c = do {
     idx \<leftarrow> get_param_idx argc (Some argv) opt_socket_mem;
     if idx < 0 \<or> idx + 1 \<ge> argc then Some (if use_ltran c \<noteq> 0 then Some idx else None, c)
     else do {
       (ret, a) \<leftarrow> gazelle_parse_socket_mem E (arg_at argv (idx + 1)) (sec_attach_arg c);
       Some (if ret < 0 then Some ret else None, c\<lparr>sec_attach_arg := a\<rparr>)
     }
   }"

definition turn_base_virtaddr :: "int \<Rightarrow> string option list \<Rightarrow> cfg_params \<Rightarrow> (int option \<times> cfg_params) option" where
  "turn_base_virtaddr argc argv c = do {
     idx \<leftarrow> get_param_idx argc (Some argv) opt_base_virtaddr;
     if idx < 0 \<or> idx + 1 \<ge> argc then Some (None, c\<lparr>sec_attach_arg := (sec_attach_arg c)\<lparr>attach_base := 0\<rparr>\<rparr>)
     else do {
       arg \<leftarrow> arg_at argv (idx + 1);
       let (ret, v) = gazelle_parse_base_virtaddr arg (attach_base (sec_attach_arg c));
       Some (if ret < 0 then Some ret else None, c\<lparr>sec_attach_arg := (sec_attach_arg c)\<lparr>attach_base := v\<rparr>\<rparr>)
     }
   }"

definition turn_args_to_config :: "lcfg_env \<Rightarrow> int \<Rightarrow> string option list option \<Rightarrow> cfg_params \<Rightarrow> (int \<times> cfg_params) option" where
  "turn_args_to_config E argc argv c =
     (case argv of
        None \<Rightarrow> Some (- einval, c)
      | Some argv \<Rightarrow>
          if argc \<le> 0 then Some (- einval, c)
          else do {
            (r, c) \<leftarrow> turn_file_prefix E argc argv c;
            (case r of Some ret \<Rightarrow> Some (ret, c) | None \<Rightarrow> do {
               (r, c) \<leftarrow> turn_socket_mem E argc argv c;
               (case r of Some ret \<Rightarrow> Some (ret, c) | None \<Rightarrow> do {
                  (r, c) \<leftarrow> turn_base_virtaddr argc argv c;
                  Some (case r of Some ret \<Rightarrow> ret | None \<Rightarrow> 0, c)
               })
            })
          })"

text \<open>\<open>gazelle_copy_param\<close> copies an option, with its value if it has one, into the array of a message.\<close>

definition gazelle_copy_param :: "lcfg_env \<Rightarrow> cfg_params \<Rightarrow> string \<Rightarrow> bool \<Rightarrow> int \<times> string list \<Rightarrow> (int \<times> int \<times> string list) option" where
  "gazelle_copy_param E c param is_double = (\<lambda>(argc, argv). do {
     let cnt = argc;
     wanted_id \<leftarrow> get_param_idx (lstack_argc c) (lstack_argv c) param;
     if wanted_id < 0 then Some (wanted_id, argc, argv)
     else if cnt \<ge> int max_reg_args then Some (- einval, argc, argv)
     else do {
       from \<leftarrow> lstack_argv c;
       s \<leftarrow> arg_at from wanted_id;
       let (ret, t) = copy_s E path_max s;
       let argv = argv[nat cnt := t];
       let cnt = cnt + 1;
       if ret \<noteq> 0 then Some (ret, argc, argv)
       else if is_double then
         if wanted_id + 1 \<ge> lstack_argc c \<or> cnt \<ge> int max_reg_args then Some (- einval, argc, argv)
         else do {
           s \<leftarrow> arg_at from (wanted_id + 1);
           let (ret, t) = copy_s E path_max s;
           let argv = argv[nat cnt := t];
           if ret \<noteq> 0 then Some (ret, argc, argv) else Some (0, cnt + 1, argv)
         }
       else Some (0, cnt, argv)
     }
   })"

text \<open>
  \<open>gazelle_param_init\<close>: the options DPDK needs are added or corrected, and the array is copied to the
  caller. The last component is what \<open>argc\<close> and \<open>argv\<close> of the caller get, \<open>None\<close> on an error.
\<close>

definition gazelle_param_init :: "lcfg_env \<Rightarrow> cfg_params \<Rightarrow> (int \<times> cfg_params \<times> string option list option) option" where
  "gazelle_param_init E c = do {
     wanted_id \<leftarrow> get_param_idx (lstack_argc c) (lstack_argv c) opt_file_prefix;
     (ret, c) \<leftarrow> (if wanted_id < 0 then do {
        (ret, c) \<leftarrow> parse_param E opt_file_prefix c;
        if ret < 0 then Some (ret, c) else parse_param E (attach_prefix (sec_attach_arg c)) c
      } else Some (0, c));
     if ret < 0 then Some (- 1, c, None)
     else (case format_s E path_max (hex_text E (attach_base (sec_attach_arg c))) of
        None \<Rightarrow> Some (- 1, c, None)
      | Some param_buf \<Rightarrow> do {
          wanted_id \<leftarrow> get_param_idx (lstack_argc c) (lstack_argv c) opt_base_virtaddr;
          (ret, c) \<leftarrow> (if wanted_id < 0 then do {
             (ret, c) \<leftarrow> parse_param E opt_base_virtaddr c;
             if ret < 0 then Some (ret, c) else parse_param E param_buf c
           }
           else if wanted_id + 1 \<ge> lstack_argc c then Some (- 1, c)
           else do {
             argv \<leftarrow> lstack_argv c;
             if nat (wanted_id + 1) \<ge> length argv then None
             else do {
               let c = c\<lparr>lstack_argv := Some (argv[nat (wanted_id + 1) := strdup E param_buf])\<rparr>;
               Some (if strdup E param_buf = None then - 1 else 0, c)
             }
           });
          if ret < 0 then Some (- 1, c, None)
          else do {
            argv \<leftarrow> lstack_argv c;
            _ \<leftarrow> print_dpdk_param False (argv_entries (lstack_argc c) argv);
            Some (0, c, Some (argv_entries (lstack_argc c) argv))
          }
        })
   }"

text \<open>
  The loop of \<open>parse_dpdk_args\<close>: \<open>False\<close> when a copy fails. \<open>i\<close> is the index of the element, whose
  copy goes one further.
\<close>

fun copy_elems :: "lcfg_env \<Rightarrow> nat \<Rightarrow> string option list \<Rightarrow> string option list \<times> u16 \<Rightarrow> bool \<times> string option list \<times> u16" where
  "copy_elems E i [] s = (True, s)"
| "copy_elems E i (None # elems) s = copy_elems E (i + 1) elems s"
| "copy_elems E i (Some arg # elems) (argv, primary) =
     (if strdup E arg = None then (False, argv, primary)
      else copy_elems E (i + 1) elems (argv[1 + i := Some arg], if arg = ''primary'' then 1 else primary))"

definition parse_dpdk_args :: cfg_parser where
  "parse_dpdk_args E c =
     (case config_lookup E ''dpdk_args'' of
        None \<Rightarrow> Some (- einval, c)
      | Some args \<Rightarrow>
          let c = c\<lparr>lstack_argc := int (length (setting_elems args))\<rparr>;
              free_dpdk_args = (\<lambda>c. (- einval, c\<lparr>lstack_argv := None\<rparr>)) in
          if lstack_argc c \<le> 0 \<or> lstack_argc c \<ge> int max_reg_args then Some (- einval, c)
          else if \<not> calloc_argv E then Some (- einval, c\<lparr>lstack_argv := None\<rparr>)
          else if strdup E ''lstack'' = None then Some (free_dpdk_args c)
          else let (ok, argv, primary) = copy_elems E 0 (setting_elems args)
                     ((replicate max_reg_args None)[0 := Some ''lstack''], is_primary c);
                   c = c\<lparr>lstack_argv := Some argv, is_primary := primary\<rparr>
            in if \<not> ok then Some (free_dpdk_args c)
               else do {
                 let c = c\<lparr>lstack_argc := lstack_argc c + 1\<rparr>;
                 (ret, c) \<leftarrow> turn_args_to_config E (lstack_argc c) (lstack_argv c) c;
                 if ret \<noteq> 0 then Some (free_dpdk_args c) else Some (0, c)
               })"
section \<open>The other parsers\<close>

definition stored :: "int \<times> cfg_params \<Rightarrow> (int \<times> cfg_params) option" where "stored r = Some r"

definition parse_app_bind_numa :: cfg_parser where
  "parse_app_bind_numa E c = stored (parse_arg E ''app_bind_numa'' 1 0 1 (\<lambda>v c. c\<lparr>app_bind_numa := v \<noteq> 0\<rparr>) c)"

definition parse_app_exclude_cpus :: cfg_parser where
  "parse_app_exclude_cpus E c =
     (let c = c\<lparr>app_exclude_num_cpu := 0\<rparr> in
      if \<not> app_bind_numa c then Some (0, c)
      else (case config_lookup E ''app_exclude_cpus'' of
          None \<Rightarrow> Some (0, c)
        | Some num_cpus \<Rightarrow> (case setting_string num_cpus of
            None \<Rightarrow> Some (- einval, c)
          | Some args \<Rightarrow> do {
              (cnt, arr) \<leftarrow> cpu_list E args;
              let c = c\<lparr>app_exclude_cpus := arr\<rparr>;
              if cnt \<le> 0 \<or> cnt > int cfg_max_cpus then Some (- einval, c)
              else Some (0, c\<lparr>app_exclude_num_cpu := word_of_int cnt\<rparr>)
            })))"

definition parse_low_power_mode :: cfg_parser where
  "parse_low_power_mode E c =
     (let c = c\<lparr>lpm_detect_ms := 1000, lpm_rx_pkts := 20, lpm_pkts_in_detect := 1000\<rparr>
      in stored (parse_arg E ''low_power_mode'' 0 0 1 (\<lambda>v c. c\<lparr>low_power_mod := word_of_int v\<rparr>) c))"

definition parse_use_ltran :: cfg_parser where
  "parse_use_ltran E c = stored (parse_arg E ''use_ltran'' 1 0 1 (\<lambda>v c. c\<lparr>use_ltran := word_of_int v\<rparr>) c)"

definition parse_tcp_conn_count :: cfg_parser where
  "parse_tcp_conn_count E c =
     stored (parse_arg E ''tcp_conn_count'' 1500 1 1500 (\<lambda>v c. c\<lparr>tcp_conn_count := word_of_int v\<rparr>) c)"

definition parse_send_ring_size :: cfg_parser where
  "parse_send_ring_size E c =
     stored (parse_arg E ''send_ring_size'' 32 1 2048 (\<lambda>v c. c\<lparr>cfg_send_ring_size := word_of_int v\<rparr>) c)"

definition parse_expand_send_ring :: cfg_parser where
  "parse_expand_send_ring E c =
     stored (parse_arg E ''expand_send_ring'' 0 0 1 (\<lambda>v c. c\<lparr>cfg_expand_send_ring := v \<noteq> 0\<rparr>) c)"

definition int32_max :: int where "int32_max = 2 ^ 31 - 1"

definition parse_mbuf_count_per_conn :: cfg_parser where
  "parse_mbuf_count_per_conn E c =
     stored (parse_arg E ''mbuf_count_per_conn'' 170 1 int32_max (\<lambda>v c. c\<lparr>mbuf_count_per_conn := word_of_int v\<rparr>) c)"

definition parse_read_connect_number :: cfg_parser where
  "parse_read_connect_number E c =
     stored (parse_arg E ''read_connect_number'' 4 1 int32_max (\<lambda>v c. c\<lparr>read_connect_number := word_of_int v\<rparr>) c)"

definition parse_rpc_number :: cfg_parser where
  "parse_rpc_number E c =
     stored (parse_arg E ''rpc_number'' 4 1 int32_max (\<lambda>v c. c\<lparr>rpc_number := word_of_int v\<rparr>) c)"

definition parse_nic_read_number :: cfg_parser where
  "parse_nic_read_number E c =
     stored (parse_arg E ''nic_read_number'' 128 1 int32_max (\<lambda>v c. c\<lparr>nic_read_number := word_of_int v\<rparr>) c)"

definition parse_listen_shadow :: cfg_parser where
  "parse_listen_shadow E c = stored (parse_arg E ''listen_shadow'' 0 0 1 (\<lambda>v c. c\<lparr>listen_shadow := v \<noteq> 0\<rparr>) c)"

definition parse_main_thread_affinity :: cfg_parser where
  "parse_main_thread_affinity E c =
     stored (parse_arg E ''main_thread_affinity'' 0 0 1 (\<lambda>v c. c\<lparr>main_thread_affinity := v \<noteq> 0\<rparr>) c)"

definition lstack_parse_kni_switch :: cfg_parser where
  "lstack_parse_kni_switch E c =
     (let (ret, c) = parse_arg E ''kni_switch'' 0 0 1 (\<lambda>v c. c\<lparr>lstack_kni_switch := v \<noteq> 0\<rparr>) c in
      if ret \<noteq> 0 then Some (ret, c)
      else if use_ltran c \<noteq> 0 \<and> lstack_kni_switch c then Some (- 1, c)
      else if use_ltran c = 0 \<and> is_primary c = 0 then Some (0, c\<lparr>lstack_kni_switch := False\<rparr>)
      else Some (0, c))"

text \<open>
  The name of the socket ltran listens on. The buffer has 255 characters; the error numbers of
  securec are positive, here 1.
\<close>

definition lstack_parse_unix_prefix :: cfg_parser where
  "lstack_parse_unix_prefix E c =
     (let c = c\<lparr>reg_socket_filename := []\<rparr>;
          add = (\<lambda>t c. case ncat_s E 255 (reg_socket_filename c) t of
             None \<Rightarrow> Some (1, c)
           | Some u \<Rightarrow> Some (0, c\<lparr>reg_socket_filename := u\<rparr>)) in
      case ncopy_s E 255 gazelle_run_dir of
        None \<Rightarrow> Some (1, c)
      | Some d \<Rightarrow> let c = c\<lparr>reg_socket_filename := d\<rparr> in
          (case config_lookup E ''unix_prefix'' of
             None \<Rightarrow> add gazelle_reg_sock_filename c
           | Some unix_prefix \<Rightarrow>
               if filename_check (setting_string unix_prefix) \<noteq> 0 then Some (- einval, c)
               else do {
                 args \<leftarrow> setting_string unix_prefix;
                 (ret, c) \<leftarrow> add args c;
                 if ret \<noteq> 0 then Some (ret, c) else add gazelle_reg_sock_filename c
               }))"

definition parse_seperate_sendrecv_args :: cfg_parser where
  "parse_seperate_sendrecv_args E c =
     stored (parse_arg E ''seperate_send_recv'' 0 0 1 (\<lambda>v c. c\<lparr>seperate_send_recv := v \<noteq> 0\<rparr>) c)"

definition parse_num_process :: cfg_parser where
  "parse_num_process E c =
     (if use_ltran c \<noteq> 0 then Some (0, c)
      else let c = (case config_lookup E ''num_process'' of
                 None \<Rightarrow> c\<lparr>num_process := 1\<rparr>
               | Some n \<Rightarrow> c\<lparr>num_process := ucast (ucast (setting_int n) :: u8)\<rparr>)
           in Some (0, c\<lparr>tot_queue_num := num_queue c * num_process c\<rparr>))"

definition parse_process_numa :: cfg_parser where
  "parse_process_numa E c =
     (case config_lookup E ''process_numa'' of
        None \<Rightarrow> Some (0, c)
      | Some cfg_args \<Rightarrow> (case setting_string cfg_args of
          None \<Rightarrow> Some (- einval, c)
        | Some args \<Rightarrow> do {
            (ret, arr) \<leftarrow> separate_str_to_array args protocol_stack_max (int max_numa_nodes);
            let c = c\<lparr>process_numa := arr\<rparr>;
            Some (if ret \<le> 0 then - einval else 0, c)
          }))"

definition parse_process_index :: cfg_parser where
  "parse_process_index E c =
     (if use_ltran c \<noteq> 0 then Some (0, c)
      else (case config_lookup E ''process_idx'' of
          None \<Rightarrow> if num_process c = 1 then Some (0, c\<lparr>process_idx := 0\<rparr>) else Some (- einval, c)
        | Some p \<Rightarrow>
            let c = c\<lparr>process_idx := ucast (setting_int p)\<rparr> in
            if is_primary c \<noteq> 0 \<and> process_idx c \<noteq> 0 \<or> is_primary c = 0 \<and> process_idx c = 0
            then Some (- einval, c) else Some (0, c)))"

definition parse_tuple_filter :: cfg_parser where
  "parse_tuple_filter E c =
     (let (ret, c) = parse_arg E ''tuple_filter'' 0 0 1 (\<lambda>v c. c\<lparr>tuple_filter := v \<noteq> 0\<rparr>) c in
      if ret \<noteq> 0 then Some (ret, c)
      else if \<not> tuple_filter c then Some (0, c)
      else if use_ltran c \<noteq> 0 \<or> listen_shadow c then Some (- einval, c)
      else Some (0, c))"

definition parse_udp_enable :: cfg_parser where
  "parse_udp_enable E c = stored (parse_arg E ''udp_enable'' 1 0 1 (\<lambda>v c. c\<lparr>udp_enable := v \<noteq> 0\<rparr>) c)"

definition parse_use_bond4 :: cfg_parser where
  "parse_use_bond4 E c = stored (parse_arg E ''use_bond4'' 0 0 1 (\<lambda>v c. c\<lparr>use_bond4 := v \<noteq> 0\<rparr>) c)"

definition parse_bond4_slave_mac :: cfg_parser where
  "parse_bond4_slave_mac E c =
     (if \<not> use_bond4 c then Some (0, c)
      else (case config_lookup E ''slave_mac1'' of
          None \<Rightarrow> Some (- einval, c)
        | Some devs \<Rightarrow> (case setting_string devs of
            None \<Rightarrow> Some (0, c)
          | Some slave_mac1 \<Rightarrow> (case config_lookup E ''slave_mac2'' of
              None \<Rightarrow> Some (- einval, c)
            | Some devs \<Rightarrow> (case setting_string devs of
                None \<Rightarrow> Some (0, c)
              | Some slave_mac2 \<Rightarrow>
                  let (ret, m1) = str_to_eth_addr E slave_mac1 (bond4_slave1_mac_addr c);
                      c = c\<lparr>bond4_slave1_mac_addr := m1\<rparr> in
                  if ret \<noteq> 0 then Some (ret, c)
                  else let (ret, m2) = str_to_eth_addr E slave_mac2 (bond4_slave2_mac_addr c)
                    in Some (ret, c\<lparr>bond4_slave2_mac_addr := m2\<rparr>))))))"

definition parse_use_sockmap :: cfg_parser where
  "parse_use_sockmap E c = stored (parse_arg E ''use_sockmap'' 0 0 1 (\<lambda>v c. c\<lparr>use_sockmap := v \<noteq> 0\<rparr>) c)"
section \<open>The whole file\<close>

definition g_config_tbl :: "(string \<times> cfg_parser) list" where
  "g_config_tbl =
    [(''host_addr'', parse_host_addr),
     (''gateway_addr'', parse_gateway_addr),
     (''mask_addr'', parse_mask_addr),
     (''use_ltran'', parse_use_ltran),
     (''devices'', parse_devices),
     (''dpdk_args'', parse_dpdk_args),
     (''seperate_send_recv'', parse_seperate_sendrecv_args),
     (''num_cpus'', parse_stack_cpu_number),
     (''low_power_mode'', parse_low_power_mode),
     (''kni_switch'', lstack_parse_kni_switch),
     (''listen_shadow'', parse_listen_shadow),
     (''app_bind_numa'', parse_app_bind_numa),
     (''app_exclude_cpus'', parse_app_exclude_cpus),
     (''main_thread_affinity'', parse_main_thread_affinity),
     (''unix_prefix'', lstack_parse_unix_prefix),
     (''tcp_conn_count'', parse_tcp_conn_count),
     (''mbuf_count_per_conn'', parse_mbuf_count_per_conn),
     (''read_connect_number'', parse_read_connect_number),
     (''rpc_number'', parse_rpc_number),
     (''nic_read_number'', parse_nic_read_number),
     (''send_ring_size'', parse_send_ring_size),
     (''expand_send_ring'', parse_expand_send_ring),
     (''num_process'', parse_num_process),
     (''process_numa'', parse_process_numa),
     (''process_idx'', parse_process_index),
     (''tuple_filter'', parse_tuple_filter),
     (''use_bond4'', parse_use_bond4),
     (''bond4_slave_mac'', parse_bond4_slave_mac),
     (''use_sockmap'', parse_use_sockmap),
     (''udp_enable'', parse_udp_enable)]"

fun run_config_tbl :: "lcfg_env \<Rightarrow> (string \<times> cfg_parser) list \<Rightarrow> cfg_params \<Rightarrow> (int \<times> cfg_params) option" where
  "run_config_tbl E [] c = Some (0, c)"
| "run_config_tbl E ((name, f) # ps) c =
     do { (ret, c) \<leftarrow> f E c; if ret \<noteq> 0 then Some (ret, c) else run_config_tbl E ps c }"

text \<open>\<open>file\<close> is what the file of that name holds: \<open>Inl False\<close> for no such path, \<open>Inl True\<close> for one libconfig rejects.\<close>

definition parse_conf_file :: "(string \<Rightarrow> bool + lcfg_env) \<Rightarrow> string \<Rightarrow> cfg_params \<Rightarrow> (int \<times> cfg_params) option" where
  "parse_conf_file file path c =
     (case file path of
        Inl found \<Rightarrow> Some (if \<not> found then - 1 else - einval, c)
      | Inr E \<Rightarrow> run_config_tbl E g_config_tbl c)"

definition default_conf_file :: string where "default_conf_file = ''/etc/gazelle/lstack.conf''"

text \<open>\<open>enval\<close> is the environment variable \<open>LSTACK_CONF_PATH\<close>; \<open>S\<close> supplies the library calls of this function.\<close>

definition cfg_init :: "lcfg_env \<Rightarrow> (string \<Rightarrow> bool + lcfg_env) \<Rightarrow> string option \<Rightarrow> cfg_params \<Rightarrow> (int \<times> cfg_params) option" where
  "cfg_init S file enval c =
     (if \<not> calloc_path S then Some (- 1, c)
      else (case format_s S path_max (case enval of None \<Rightarrow> default_conf_file | Some p \<Rightarrow> p) of
          None \<Rightarrow> Some (- 1, c)
        | Some path \<Rightarrow> parse_conf_file file path c))"

section \<open>The CPUs left to the application\<close>

text \<open>
  A \<open>cpu_set_t\<close> is the list of its CPUs; it has room for 1024, and the macros leave out others.
  \<open>cpulist_file\<close> is what reading the list of a node gives, \<open>None\<close> if the path cannot be built, opened
  or read; the buffer has 4096 bytes and, when they are all read, no terminating zero.
\<close>

definition cpu_set :: "u32 \<Rightarrow> u32 list \<Rightarrow> u32 list" where
  "cpu_set cpu S = (if cpu < 1024 then List.insert cpu S else S)"

definition cpu_isset :: "u32 \<Rightarrow> u32 list \<Rightarrow> bool" where
  "cpu_isset cpu S \<longleftrightarrow> cpu < 1024 \<and> cpu \<in> set S"

definition cpus_max_num :: nat where "cpus_max_num = 256"

definition numa_to_cpusnum :: "(nat \<Rightarrow> string option) \<Rightarrow> nat \<Rightarrow> nat \<Rightarrow> (int \<times> u32 list) option" where
  "numa_to_cpusnum cpulist_file socket_id num =
     (case cpulist_file socket_id of
        None \<Rightarrow> Some (- 1, [])
      | Some strbuf \<Rightarrow> if length strbuf \<ge> path_max then None else separate_str_to_array strbuf num (int cfg_max_cpus))"

definition stack_idle_cpuset :: "(nat \<Rightarrow> string option) \<Rightarrow> nat \<Rightarrow> u32 list \<Rightarrow> u32 list \<Rightarrow> (int \<times> u32 list) option" where
  "stack_idle_cpuset cpulist_file socket_id exclude idle_cpuset = do {
     (cpunum, cpulist) \<leftarrow> numa_to_cpusnum cpulist_file socket_id cpus_max_num;
     if cpunum \<le> 0 then Some (- 1, idle_cpuset)
     else Some (0, fold (\<lambda>cpu S. if cpu_isset cpu exclude then S else cpu_set cpu S) (take (nat cpunum) cpulist) [])
   }"

definition stack_cpuset :: "cfg_params \<Rightarrow> u32 list" where
  "stack_cpuset c =
     (let S = fold (\<lambda>idx S. if \<not> seperate_send_recv c then cpu_set (cpus c ! idx) S
                           else cpu_set (recv_cpus c ! idx) (cpu_set (send_cpus c ! idx) S)) [0..<unat (num_cpu c)] []
      in fold (\<lambda>idx S. cpu_set (app_exclude_cpus c ! idx) S) [0..<unat (app_exclude_num_cpu c)] S)"

text \<open>\<open>socket_id\<close> and \<open>idle_cpuset\<close> are the two fields of the stack that count here.\<close>

definition init_stack_numa_cpuset :: "cfg_params \<Rightarrow> (nat \<Rightarrow> string option) \<Rightarrow> nat \<Rightarrow> u32 list \<Rightarrow> (int \<times> u32 list) option" where
  "init_stack_numa_cpuset c cpulist_file socket_id idle_cpuset = do {
     (ret, idle) \<leftarrow> stack_idle_cpuset cpulist_file socket_id (stack_cpuset c) idle_cpuset;
     Some (if ret < 0 then - 1 else 0, idle)
   }"
section \<open>What each parser accepts\<close>


lemma parse_arg_accepts:
  assumes "parse_arg E key default_val mn mx set_field c = (0, d)" and "mn \<le> default_val \<and> default_val \<le> mx"
  shows "\<exists>v. mn \<le> v \<and> v \<le> mx \<and> d = set_field v c"
  using assms by (auto simp: parse_arg_def Let_def einval_def not_less split: option.splits if_splits)

lemma arg_parser:
  assumes "r = stored (parse_arg E key default_val mn mx set_field c')" and "mn \<le> default_val \<and> default_val \<le> mx"
    and "r = Some (0, d)"
  shows "\<exists>v. mn \<le> v \<and> v \<le> mx \<and> d = set_field v c'"
  using assms parse_arg_accepts [of E key default_val mn mx set_field c' d] by (simp add: stored_def)

lemma unat_of_arg: "0 \<le> v \<Longrightarrow> v < 2 ^ LENGTH('a::len) \<Longrightarrow> unat (word_of_int v :: 'a word) = nat v"
  by (simp add: unsigned_of_int take_bit_int_eq_self)

lemma accept_bool_args:
  "parse_app_bind_numa E c = Some (0, d) \<Longrightarrow> \<exists>b. d = c\<lparr>app_bind_numa := b\<rparr>"
  "parse_expand_send_ring E c = Some (0, d) \<Longrightarrow> \<exists>b. d = c\<lparr>cfg_expand_send_ring := b\<rparr>"
  "parse_listen_shadow E c = Some (0, d) \<Longrightarrow> \<exists>b. d = c\<lparr>listen_shadow := b\<rparr>"
  "parse_main_thread_affinity E c = Some (0, d) \<Longrightarrow> \<exists>b. d = c\<lparr>main_thread_affinity := b\<rparr>"
  "parse_seperate_sendrecv_args E c = Some (0, d) \<Longrightarrow> \<exists>b. d = c\<lparr>seperate_send_recv := b\<rparr>"
  "parse_udp_enable E c = Some (0, d) \<Longrightarrow> \<exists>b. d = c\<lparr>udp_enable := b\<rparr>"
  "parse_use_bond4 E c = Some (0, d) \<Longrightarrow> \<exists>b. d = c\<lparr>use_bond4 := b\<rparr>"
  "parse_use_sockmap E c = Some (0, d) \<Longrightarrow> \<exists>b. d = c\<lparr>use_sockmap := b\<rparr>"
  by (auto dest!: arg_parser [OF parse_app_bind_numa_def, rotated]
    arg_parser [OF parse_expand_send_ring_def, rotated]
    arg_parser [OF parse_listen_shadow_def, rotated]
    arg_parser [OF parse_main_thread_affinity_def, rotated]
    arg_parser [OF parse_seperate_sendrecv_args_def, rotated]
    arg_parser [OF parse_udp_enable_def, rotated]
    arg_parser [OF parse_use_bond4_def, rotated]
    arg_parser [OF parse_use_sockmap_def, rotated])

lemma accept_tcp_conn_count:
  assumes "parse_tcp_conn_count E c = Some (0, d)"
  shows "\<exists>n. d = c\<lparr>tcp_conn_count := n\<rparr> \<and> 1 \<le> unat n \<and> unat n \<le> 1500"
proof -
  obtain v where v: "1 \<le> v" "v \<le> 1500" "d = c\<lparr>tcp_conn_count := word_of_int v\<rparr>"
    using arg_parser [OF parse_tcp_conn_count_def _ assms] by auto
  then have "unat (word_of_int v :: u32) = nat v" by (intro unat_of_arg) simp_all
  then show ?thesis using v by auto
qed

lemma accept_send_ring_size:
  assumes "parse_send_ring_size E c = Some (0, d)"
  shows "\<exists>n. d = c\<lparr>cfg_send_ring_size := n\<rparr> \<and> 1 \<le> unat n \<and> unat n \<le> 2048"
proof -
  obtain v where v: "1 \<le> v" "v \<le> 2048" "d = c\<lparr>cfg_send_ring_size := word_of_int v\<rparr>"
    using arg_parser [OF parse_send_ring_size_def _ assms] by auto
  then have "unat (word_of_int v :: u16) = nat v" by (intro unat_of_arg) simp_all
  then show ?thesis using v by auto
qed

lemma positive_arg: "1 \<le> v \<Longrightarrow> v \<le> int32_max \<Longrightarrow> 1 \<le> unat (word_of_int v :: u32) \<and> unat (word_of_int v :: u32) < 2 ^ 31"
  using unat_of_arg [of v, where ?'a = 32] by (auto simp: int32_max_def nat_less_iff le_nat_iff)

lemma accept_counts:
  "parse_mbuf_count_per_conn E c = Some (0, d) \<Longrightarrow> \<exists>n. d = c\<lparr>mbuf_count_per_conn := n\<rparr> \<and> 1 \<le> unat n \<and> unat n < 2 ^ 31"
  "parse_read_connect_number E c = Some (0, d) \<Longrightarrow> \<exists>n. d = c\<lparr>read_connect_number := n\<rparr> \<and> 1 \<le> unat n \<and> unat n < 2 ^ 31"
  "parse_rpc_number E c = Some (0, d) \<Longrightarrow> \<exists>n. d = c\<lparr>rpc_number := n\<rparr> \<and> 1 \<le> unat n \<and> unat n < 2 ^ 31"
  "parse_nic_read_number E c = Some (0, d) \<Longrightarrow> \<exists>n. d = c\<lparr>nic_read_number := n\<rparr> \<and> 1 \<le> unat n \<and> unat n < 2 ^ 31"
proof -
  have fits: "1 \<le> k \<and> k \<le> int32_max" if "k \<in> {170, 4, 128}" for k using that by (auto simp: int32_max_def)
  show "parse_mbuf_count_per_conn E c = Some (0, d) \<Longrightarrow> \<exists>n. d = c\<lparr>mbuf_count_per_conn := n\<rparr> \<and> 1 \<le> unat n \<and> unat n < 2 ^ 31"
    using arg_parser [OF parse_mbuf_count_per_conn_def fits] positive_arg by blast
  show "parse_read_connect_number E c = Some (0, d) \<Longrightarrow> \<exists>n. d = c\<lparr>read_connect_number := n\<rparr> \<and> 1 \<le> unat n \<and> unat n < 2 ^ 31"
    using arg_parser [OF parse_read_connect_number_def fits] positive_arg by blast
  show "parse_rpc_number E c = Some (0, d) \<Longrightarrow> \<exists>n. d = c\<lparr>rpc_number := n\<rparr> \<and> 1 \<le> unat n \<and> unat n < 2 ^ 31"
    using arg_parser [OF parse_rpc_number_def fits] positive_arg by blast
  show "parse_nic_read_number E c = Some (0, d) \<Longrightarrow> \<exists>n. d = c\<lparr>nic_read_number := n\<rparr> \<and> 1 \<le> unat n \<and> unat n < 2 ^ 31"
    using arg_parser [OF parse_nic_read_number_def fits] positive_arg by blast
qed

lemma accept_low_power:
  assumes "parse_low_power_mode E c = Some (0, d)"
  shows "\<exists>n. d = c\<lparr>low_power_mod := n, lpm_detect_ms := 1000, lpm_rx_pkts := 20, lpm_pkts_in_detect := 1000\<rparr> \<and> unat n \<le> 1"
proof -
  obtain v where v: "0 \<le> v" "v \<le> 1" "d = c\<lparr>lpm_detect_ms := 1000, lpm_rx_pkts := 20, lpm_pkts_in_detect := 1000\<rparr>\<lparr>low_power_mod := word_of_int v\<rparr>"
    using arg_parser [OF parse_low_power_mode_def [unfolded Let_def] _ assms] by auto
  then have "unat (word_of_int v :: u16) = nat v" by (intro unat_of_arg) simp_all
  then show ?thesis using v by (intro exI [of _ "word_of_int v"]) simp
qed

lemma accept_use_ltran:
  assumes "parse_use_ltran E c = Some (0, d)"
  shows "\<exists>n. d = c\<lparr>use_ltran := n\<rparr> \<and> unat n \<le> 1"
proof -
  obtain v where v: "0 \<le> v" "v \<le> 1" "d = c\<lparr>use_ltran := word_of_int v\<rparr>"
    using arg_parser [OF parse_use_ltran_def _ assms] by auto
  then have "unat (word_of_int v :: u8) = nat v" by (intro unat_of_arg) simp_all
  then show ?thesis using v by auto
qed
text \<open>The ones of the mask stand in front of its zeros.\<close>

definition is_mask :: "u32 \<Rightarrow> bool" where
  "is_mask a \<longleftrightarrow> NOT (ntohl a) AND (NOT (ntohl a) + 1) = 0"

lemma accept_addrs:
  "parse_host_addr E c = Some (0, d) \<Longrightarrow> \<exists>a. d = c\<lparr>host_addr := a\<rparr> \<and> a \<noteq> inaddr_none"
  "parse_gateway_addr E c = Some (0, d) \<Longrightarrow> \<exists>a. d = c\<lparr>gateway_addr := a\<rparr> \<and> a \<noteq> inaddr_none"
  "parse_mask_addr E c = Some (0, d) \<Longrightarrow>
     \<exists>a. d = c\<lparr>netmask := a\<rparr> \<and> a \<noteq> inaddr_none \<and> is_mask a"
  by (auto simp: is_mask_def parse_host_addr_def parse_gateway_addr_def parse_mask_addr_def Let_def einval_def split: option.splits if_splits)

lemma eth_addr_length: "str_to_eth_addr E s dst = (ret, mac) \<Longrightarrow> length dst = 6 \<Longrightarrow> length mac = 6"
  by (auto simp: str_to_eth_addr_def Let_def split: if_splits)

lemma accept_devices:
  "parse_devices E c = Some (0, d) \<Longrightarrow> length (eth_addr c) = 6 \<Longrightarrow> \<exists>m. d = c\<lparr>eth_addr := m\<rparr> \<and> length m = 6"
proof -
  assume d: "parse_devices E c = Some (0, d)" and l: "length (eth_addr c) = 6"
  have id: "c\<lparr>eth_addr := eth_addr c\<rparr> = c" by simp
  show ?thesis using d l eth_addr_length id
    by (auto simp: parse_devices_def einval_def split: option.splits prod.splits) (metis id)+
qed

definition cpu_array :: "u16 \<Rightarrow> u32 list \<Rightarrow> bool" where
  "cpu_array n a \<longleftrightarrow> length a = cfg_max_cpus \<and> unat n \<le> cfg_max_cpus \<and> (\<forall>i < unat n. uint (a ! i) < int cfg_max_cpus)"

lemma cpu_list_array:
  assumes "cpu_list E args = Some (cnt, a)" and "\<not> cnt \<le> 0"
  shows "cpu_array (word_of_int cnt) a" and "1 \<le> unat (word_of_int cnt :: u16)" and "cnt \<le> 512"
    and "unat (word_of_int cnt :: u16) = nat cnt"
proof -
  obtain s where s: "separate_str_to_array s cfg_max_cpus (int cfg_max_cpus) = Some (cnt, a)"
    using assms(1) by (auto simp: cpu_list_def split: option.splits)
  have "length a = cfg_max_cpus \<and> (cnt = - 1 \<or> 1 \<le> cnt \<and> cnt \<le> int cfg_max_cpus \<and> (\<forall>j < nat cnt. uint (a ! j) < int cfg_max_cpus))"
    by (rule separate_loop_ok [OF s [unfolded separate_str_to_array_def] refl]) (simp_all add: loop_ok_def cfg_max_cpus_def)
  moreover have "unat (word_of_int cnt :: u16) = nat cnt" if "cnt \<le> int cfg_max_cpus" "0 < cnt"
    using that by (intro unat_of_arg) (simp_all add: cfg_max_cpus_def)
  ultimately show "cpu_array (word_of_int cnt) a" "1 \<le> unat (word_of_int cnt :: u16)" "cnt \<le> 512"
    "unat (word_of_int cnt :: u16) = nat cnt"
    using assms(2) by (auto simp: cpu_array_def cfg_max_cpus_def)
qed

text \<open>The array of DPDK arguments and how many are in it.\<close>

definition argv_fits :: "string option list option \<Rightarrow> int \<Rightarrow> bool" where
  "argv_fits argv argc \<longleftrightarrow> (\<exists>a. argv = Some a \<and> length a = max_reg_args) \<and> 2 \<le> argc \<and> argc \<le> int max_reg_args"

lemma push_arg_fits:
  assumes "push_arg p c = Some c'" and "argv_fits (lstack_argv c) (lstack_argc c)"
  shows "\<exists>argv. c' = c\<lparr>lstack_argv := argv, lstack_argc := lstack_argc c + 1\<rparr> \<and> argv_fits argv (lstack_argc c + 1)"
proof -
  obtain a where a: "lstack_argv c = Some a" "length a = max_reg_args" "2 \<le> lstack_argc c"
    using assms(2) unfolding argv_fits_def by blast
  have "nat (lstack_argc c) < length a" and c': "c' = c\<lparr>lstack_argv := Some (a[nat (lstack_argc c) := p]), lstack_argc := lstack_argc c + 1\<rparr>"
    using assms(1) a(1,3) by (simp_all add: push_arg_def split: if_splits)
  then have "argv_fits (Some (a[nat (lstack_argc c) := p])) (lstack_argc c + 1)"
    using a by (simp add: argv_fits_def)
  then show ?thesis using c' by blast
qed

lemma add_corelist_fits:
  assumes "add_corelist E args c = Some c'" and f: "argv_fits (lstack_argv c) (lstack_argc c)"
  shows "\<exists>argv argc. c' = c\<lparr>lstack_argv := argv, lstack_argc := argc\<rparr> \<and> argv_fits argv argc"
proof -
  consider "c' = c" | c1 where "push_arg (strdup E opt_bind_corelist) c = Some c1" "push_arg (strdup E args) c1 = Some c'"
  proof (cases "have_corelist_arg (lstack_argc c) (lstack_argv c)")
    case (Some h)
    show ?thesis
    proof (cases h)
      case False
      show ?thesis
      proof (cases "get_param_idx (lstack_argc c) (lstack_argv c) opt_bind_corelist")
        case (Some idx)
        then show ?thesis using assms(1) that \<open>have_corelist_arg _ _ = Some h\<close> False
          by (simp add: add_corelist_def bind_eq_Some_conv split: if_splits) blast
      qed (use assms(1) Some False in \<open>simp add: add_corelist_def\<close>)
    qed (use assms(1) Some that in \<open>simp add: add_corelist_def\<close>)
  qed (use assms(1) in \<open>simp add: add_corelist_def\<close>)
  then show ?thesis
  proof cases
    case 1
    then show ?thesis using f by (intro exI [of _ "lstack_argv c"] exI [of _ "lstack_argc c"]) simp
  next
    case 2
    obtain v where v: "c1 = c\<lparr>lstack_argv := v, lstack_argc := lstack_argc c + 1\<rparr>" "argv_fits v (lstack_argc c + 1)"
      using push_arg_fits [OF 2(1) f] by blast
    have "argv_fits (lstack_argv c1) (lstack_argc c1)" unfolding v(1) using v(2) by simp
    then obtain w where w: "c' = c1\<lparr>lstack_argv := w, lstack_argc := lstack_argc c1 + 1\<rparr>" "argv_fits w (lstack_argc c1 + 1)"
      using push_arg_fits [OF 2(2)] by blast
    have n: "lstack_argc c1 = lstack_argc c + 1" unfolding v(1) by simp
    have "c' = c\<lparr>lstack_argv := w, lstack_argc := lstack_argc c + 1 + 1\<rparr>" unfolding w(1) n unfolding v(1) by simp
    then show ?thesis using w(2) n by metis
  qed
qed
lemma accept_cpu_number:
  assumes run: "parse_stack_cpu_number E c = Some (0, d)" and f: "argv_fits (lstack_argv c) (lstack_argc c)"
  shows "\<exists>argv argc n a sa ra q. d = c\<lparr>lstack_argv := argv, lstack_argc := argc, num_cpu := n, cpus := a, send_cpus := sa, recv_cpus := ra,
       num_queue := q, tot_queue_num := q\<rparr> \<and> argv_fits argv argc \<and> 1 \<le> unat n \<and>
     (if seperate_send_recv c then cpu_array n sa \<and> cpu_array n ra \<and> unat n \<le> 256 \<and> q = n * 2 else cpu_array n a \<and> q = n)"
proof (cases "seperate_send_recv c")
  case False
  obtain args c1 cnt a where s: "add_corelist E args c = Some c1" "cpu_list E args = Some (cnt, a)"
    "(if cnt \<le> 0 \<or> cnt > int cfg_max_cpus then Some (- einval, c1\<lparr>cpus := a\<rparr>)
      else Some (0, c1\<lparr>cpus := a, num_cpu := word_of_int cnt, num_queue := word_of_int cnt, tot_queue_num := word_of_int cnt\<rparr>)) = Some (0, d)"
    using run False by (cases "config_string E ''num_cpus''")
      (auto simp: parse_stack_cpu_number_def Let_def einval_def bind_eq_Some_conv simp del: split_paired_Ex cong del: if_weak_cong)
  obtain argv argc where p: "c1 = c\<lparr>lstack_argv := argv, lstack_argc := argc\<rparr>" "argv_fits argv argc"
    using add_corelist_fits [OF s(1) f] by blast
  have cnt: "\<not> cnt \<le> 0" and d: "d = c1\<lparr>cpus := a, num_cpu := word_of_int cnt, num_queue := word_of_int cnt, tot_queue_num := word_of_int cnt\<rparr>"
    using s(3) by (simp_all add: einval_def split: if_splits)
  show ?thesis using p(2) cpu_list_array(1,2) [OF s(2) cnt] False unfolding d p(1)
    by - (rule exI [of _ argv], rule exI [of _ argc], rule exI [of _ "word_of_int cnt"], rule exI [of _ a], rule exI [of _ "send_cpus c"],
      rule exI [of _ "recv_cpus c"], rule exI [of _ "word_of_int cnt"], simp)
next
  case True
  obtain args c1 cnt a args' c2 cnt' a' where s: "add_corelist E args c = Some c1" "cpu_list E args = Some (cnt, a)"
    "add_corelist E args' (c1\<lparr>send_cpus := a\<rparr>) = Some c2" "cpu_list E args' = Some (cnt', a')"
    "(if cnt \<le> 0 \<or> cnt > int cfg_max_cpus div 2 \<or> cnt \<noteq> cnt' then Some (- einval, c2\<lparr>recv_cpus := a'\<rparr>)
      else Some (0, c2\<lparr>recv_cpus := a', num_cpu := word_of_int cnt, num_queue := word_of_int cnt * 2, tot_queue_num := word_of_int cnt * 2\<rparr>)) = Some (0, d)"
    using run True by (cases "config_string E ''send_num_cpus''"; cases "config_string E ''recv_num_cpus''")
      (auto simp: parse_stack_cpu_number_def Let_def einval_def bind_eq_Some_conv simp del: split_paired_Ex cong del: if_weak_cong)
  obtain argv argc where p: "c1 = c\<lparr>lstack_argv := argv, lstack_argc := argc\<rparr>" "argv_fits argv argc"
    using add_corelist_fits [OF s(1) f] by blast
  have "argv_fits (lstack_argv (c1\<lparr>send_cpus := a\<rparr>)) (lstack_argc (c1\<lparr>send_cpus := a\<rparr>))" unfolding p(1) using p(2) by simp
  then obtain argv' argc' where p': "c2 = c1\<lparr>send_cpus := a\<rparr>\<lparr>lstack_argv := argv', lstack_argc := argc'\<rparr>" "argv_fits argv' argc'"
    using add_corelist_fits [OF s(3)] by blast
  have cnt: "\<not> cnt \<le> 0" "cnt' = cnt" "cnt \<le> 256" and
    d: "d = c2\<lparr>recv_cpus := a', num_cpu := word_of_int cnt, num_queue := word_of_int cnt * 2, tot_queue_num := word_of_int cnt * 2\<rparr>"
    using s(5) by (simp_all add: einval_def cfg_max_cpus_def split: if_splits)
  show ?thesis using p'(2) cpu_list_array(1,2,4) [OF s(2) cnt(1)] cpu_list_array(1) [OF s(4)] cnt True unfolding d p'(1) p(1)
    by - (rule exI [of _ argv'], rule exI [of _ argc'], rule exI [of _ "word_of_int cnt"], rule exI [of _ "cpus c"], rule exI [of _ a],
      rule exI [of _ a'], rule exI [of _ "word_of_int cnt * 2"], simp)
qed

lemma accept_kni_switch:
  assumes "lstack_parse_kni_switch E c = Some (0, d)"
  shows "\<exists>b. d = c\<lparr>lstack_kni_switch := b\<rparr> \<and> (b \<longrightarrow> use_ltran c = 0 \<and> is_primary c \<noteq> 0)"
proof -
  obtain ret c1 where p: "parse_arg E ''kni_switch'' 0 0 1 (\<lambda>v c. c\<lparr>lstack_kni_switch := v \<noteq> 0\<rparr>) c = (ret, c1)" by (rule prod.exhaust)
  have r: "ret = 0" and d: "\<not> (use_ltran c1 \<noteq> 0 \<and> lstack_kni_switch c1)"
    "d = (if use_ltran c1 = 0 \<and> is_primary c1 = 0 then c1\<lparr>lstack_kni_switch := False\<rparr> else c1)"
    using assms by (auto simp: lstack_parse_kni_switch_def p split: if_splits)
  obtain v where "c1 = c\<lparr>lstack_kni_switch := v \<noteq> (0 :: int)\<rparr>" using parse_arg_accepts [OF p [unfolded r]] by auto
  then show ?thesis using d by (intro exI [of _ "lstack_kni_switch d"]) (auto split: if_splits)
qed

lemma accept_tuple_filter:
  assumes "parse_tuple_filter E c = Some (0, d)"
  shows "\<exists>b. d = c\<lparr>tuple_filter := b\<rparr> \<and> (b \<longrightarrow> use_ltran c = 0 \<and> \<not> listen_shadow c)"
proof -
  obtain ret c1 where p: "parse_arg E ''tuple_filter'' 0 0 1 (\<lambda>v c. c\<lparr>tuple_filter := v \<noteq> 0\<rparr>) c = (ret, c1)" by (rule prod.exhaust)
  have r: "ret = 0" and d: "tuple_filter c1 \<longrightarrow> use_ltran c1 = 0 \<and> \<not> listen_shadow c1" "d = c1"
    using assms by (simp_all add: parse_tuple_filter_def p einval_def split: if_splits)
  obtain v where "c1 = c\<lparr>tuple_filter := v \<noteq> (0 :: int)\<rparr>" using parse_arg_accepts [OF p [unfolded r]] by auto
  then show ?thesis using d by (intro exI [of _ "tuple_filter d"]) auto
qed

lemma accept_exclude:
  assumes "parse_app_exclude_cpus E c = Some (0, d)" and "length (app_exclude_cpus c) = cfg_max_cpus"
  shows "\<exists>n a. d = c\<lparr>app_exclude_num_cpu := n, app_exclude_cpus := a\<rparr> \<and> cpu_array n a"
proof -
  consider "d = c\<lparr>app_exclude_num_cpu := 0\<rparr>"
    | args cnt a where "cpu_list E args = Some (cnt, a)" "\<not> cnt \<le> 0" "d = c\<lparr>app_exclude_num_cpu := word_of_int cnt, app_exclude_cpus := a\<rparr>"
    using assms(1) by (auto simp: parse_app_exclude_cpus_def Let_def einval_def bind_eq_Some_conv split: option.splits if_splits simp del: split_paired_Ex)
  then show ?thesis
  proof cases
    case 1
    then show ?thesis using assms(2) by (intro exI [of _ 0] exI [of _ "app_exclude_cpus c"]) (simp add: cpu_array_def)
  next
    case 2
    then show ?thesis using cpu_list_array(1) [OF 2(1,2)] by blast
  qed
qed
lemma turn_frames:
  "turn_file_prefix E argc argv c = Some (r, d) \<Longrightarrow> \<exists>a. d = c\<lparr>sec_attach_arg := a\<rparr>"
  "turn_socket_mem E argc argv c = Some (r, d) \<Longrightarrow> \<exists>a. d = c\<lparr>sec_attach_arg := a\<rparr>"
  "turn_base_virtaddr argc argv c = Some (r, d) \<Longrightarrow> \<exists>a. d = c\<lparr>sec_attach_arg := a\<rparr>"
proof -
  have id: "\<exists>a. c = c\<lparr>sec_attach_arg := a\<rparr>" by (rule exI [of _ "sec_attach_arg c"]) simp
  show "turn_file_prefix E argc argv c = Some (r, d) \<Longrightarrow> \<exists>a. d = c\<lparr>sec_attach_arg := a\<rparr>"
    using id by (auto simp: turn_file_prefix_def Let_def bind_eq_Some_conv split: if_splits option.splits)
  show "turn_socket_mem E argc argv c = Some (r, d) \<Longrightarrow> \<exists>a. d = c\<lparr>sec_attach_arg := a\<rparr>"
    using id by (auto simp: turn_socket_mem_def Let_def bind_eq_Some_conv split: if_splits prod.splits)
  show "turn_base_virtaddr argc argv c = Some (r, d) \<Longrightarrow> \<exists>a. d = c\<lparr>sec_attach_arg := a\<rparr>"
    by (auto simp: turn_base_virtaddr_def case_prod_beta Let_def bind_eq_Some_conv split: if_splits)
qed

lemma turn_args_frame:
  assumes "turn_args_to_config E argc argv c = Some (r, d)"
  shows "\<exists>a. d = c\<lparr>sec_attach_arg := a\<rparr>"
proof (cases "argv = None \<or> argc \<le> 0")
  case True
  have "d = c" using assms True by (cases argv) (simp_all add: turn_args_to_config_def)
  then show ?thesis by (intro exI [of _ "sec_attach_arg c"]) simp
next
  case False
  then obtain v where v: "argv = Some v" by auto
  note run = assms [unfolded turn_args_to_config_def v option.case]
  obtain r1 c1 where 1: "turn_file_prefix E argc v c = Some (r1, c1)"
    using run False by (cases "turn_file_prefix E argc v c") auto
  obtain a where a: "c1 = c\<lparr>sec_attach_arg := a\<rparr>" using turn_frames(1) [OF 1] by blast
  show ?thesis
  proof (cases r1)
    case (Some x)
    then have "d = c1" using run False 1 by simp
    then show ?thesis using a by blast
  next
    case None
    obtain r2 c2 where 2: "turn_socket_mem E argc v c1 = Some (r2, c2)"
      using run False 1 None by (cases "turn_socket_mem E argc v c1") auto
    obtain b where b: "c2 = c1\<lparr>sec_attach_arg := b\<rparr>" using turn_frames(2) [OF 2] by blast
    have c2: "c2 = c\<lparr>sec_attach_arg := b\<rparr>" unfolding b a by simp
    show ?thesis
    proof (cases r2)
      case (Some x)
      then have "d = c2" using run False 1 None 2 by simp
      then show ?thesis using c2 by blast
    next
      case None2: None
      obtain r3 where 3: "turn_base_virtaddr argc v c2 = Some (r3, d)"
        using run False 1 None 2 None2 by (cases "turn_base_virtaddr argc v c2") auto
      obtain e where "d = c2\<lparr>sec_attach_arg := e\<rparr>" using turn_frames(3) [OF 3] by blast
      then have "d = c\<lparr>sec_attach_arg := e\<rparr>" unfolding c2 by simp
      then show ?thesis by blast
    qed
  qed
qed

lemma copy_elems_length: "copy_elems E i elems s = (ok, argv, p) \<Longrightarrow> length argv = length (fst s)"
proof (induction elems arbitrary: i s)
  case (Cons a elems)
  obtain v q where s: "s = (v, q)" by (rule prod.exhaust)
  show ?case
  proof (cases a)
    case None
    then show ?thesis using Cons by simp
  next
    case (Some x)
    then show ?thesis using Cons.IH Cons.prems unfolding s by (fastforce split: if_splits)
  qed
qed simp

lemma accept_dpdk_args:
  assumes "parse_dpdk_args E c = Some (0, d)"
  shows "\<exists>argv argc p a. d = c\<lparr>lstack_argv := argv, lstack_argc := argc, is_primary := p, sec_attach_arg := a\<rparr> \<and> argv_fits argv argc"
proof -
  obtain args where k: "config_lookup E ''dpdk_args'' = Some args" using assms by (cases "config_lookup E ''dpdk_args''") (simp_all add: parse_dpdk_args_def einval_def)
  define n where "n = int (length (setting_elems args))"
  obtain ok argv p where e: "copy_elems E 0 (setting_elems args) ((replicate max_reg_args None)[0 := Some ''lstack''], is_primary c) = (ok, argv, p)"
    by (metis prod_cases3)
  note run = assms [unfolded parse_dpdk_args_def k option.case Let_def]
  have n: "0 < n" "n < int max_reg_args" using run by (auto simp: n_def einval_def split: if_splits)
  have ok: "ok" using run by (auto simp: e einval_def split: if_splits)
  have run: "turn_args_to_config E (n + 1) (Some argv) (c\<lparr>lstack_argc := n, lstack_argv := Some argv, is_primary := p, lstack_argc := n + 1\<rparr>)
      \<bind> (\<lambda>(ret, c). if ret \<noteq> 0 then Some (- einval, c\<lparr>lstack_argv := None\<rparr>) else Some (0, c)) = Some (0, d)"
    using run n ok by (simp add: e n_def einval_def split: if_splits)
  obtain ret c1 where t: "turn_args_to_config E (n + 1) (Some argv) (c\<lparr>lstack_argc := n, lstack_argv := Some argv, is_primary := p, lstack_argc := n + 1\<rparr>) = Some (ret, c1)"
    and "ret = 0" "d = c1"
    using run by (auto simp: bind_eq_Some_conv einval_def split: if_splits)
  obtain a where a: "d = c\<lparr>lstack_argc := n, lstack_argv := Some argv, is_primary := p, lstack_argc := n + 1\<rparr>\<lparr>sec_attach_arg := a\<rparr>"
    using turn_args_frame [OF t] \<open>d = c1\<close> by blast
  have f: "argv_fits (Some argv) (n + 1)" using n copy_elems_length [OF e] by (simp add: argv_fits_def)
  show ?thesis using f unfolding a
    by - (rule exI [of _ "Some argv"], rule exI [of _ "n + 1"], rule exI [of _ p], rule exI [of _ a], simp)
qed
text \<open>What securec's copying functions give when they return \<open>EOK\<close>.\<close>

definition joins :: "lcfg_env \<Rightarrow> bool" where
  "joins E \<longleftrightarrow> (\<forall>n x y. ncopy_s E n x = Some y \<longrightarrow> y = x) \<and> (\<forall>n x y z. ncat_s E n x y = Some z \<longrightarrow> z = x @ y)"

lemma accept_unix_prefix:
  assumes run: "lstack_parse_unix_prefix E c = Some (0, d)" and j: "joins E"
  shows "\<exists>p. d = c\<lparr>reg_socket_filename := gazelle_run_dir @ p @ gazelle_reg_sock_filename\<rparr> \<and> (p = [] \<or> filename_check (Some p) = 0)"
proof -
  have dir: "ncopy_s E 255 gazelle_run_dir = Some gazelle_run_dir"
    using run j by (cases "ncopy_s E 255 gazelle_run_dir") (auto simp: lstack_parse_unix_prefix_def joins_def)
  have cat: "z = x @ y" if "ncat_s E 255 x y = Some z" for x y z using that j unfolding joins_def by blast
  show ?thesis
  proof (cases "config_lookup E ''unix_prefix''")
    case None
    have "d = c\<lparr>reg_socket_filename := gazelle_run_dir @ [] @ gazelle_reg_sock_filename\<rparr>"
      using run dir None cat by (auto simp: lstack_parse_unix_prefix_def Let_def split: option.splits)
    then show ?thesis by blast
  next
    case (Some setting)
    have chk: "filename_check (setting_string setting) = 0"
      using run dir Some by (auto simp: lstack_parse_unix_prefix_def Let_def einval_def split: if_splits)
    then obtain p where p: "setting_string setting = Some p" by (cases "setting_string setting") (simp_all add: filename_check_def)
    have "d = c\<lparr>reg_socket_filename := (gazelle_run_dir @ p) @ gazelle_reg_sock_filename\<rparr>"
      using run dir Some chk p cat by (auto simp: lstack_parse_unix_prefix_def Let_def split: option.splits dest!: cat)
    then show ?thesis using chk p by (intro exI [of _ p]) simp
  qed
qed

lemma accept_num_process:
  "parse_num_process E c = Some (0, d) \<Longrightarrow> \<exists>n q. d = c\<lparr>num_process := n, tot_queue_num := q\<rparr> \<and>
     (use_ltran c = 0 \<longrightarrow> unat n < 256 \<and> q = num_queue c * n)"
proof -
  assume run: "parse_num_process E c = Some (0, d)"
  show ?thesis
  proof (cases "use_ltran c = 0")
    case False
    then have "d = c" using run by (simp add: parse_num_process_def)
    then show ?thesis using False by (intro exI [of _ "num_process c"] exI [of _ "tot_queue_num c"]) simp
  next
    case True
    have u: "unat (ucast x :: u16) < 256" for x :: u8 using unsigned_less [of x, where ?'a = nat] by (simp add: unsigned_ucast_eq take_bit_nat_eq_self)
    show ?thesis
    proof (cases "config_lookup E ''num_process''")
      case None
      then have "d = c\<lparr>num_process := 1, tot_queue_num := num_queue c * 1\<rparr>" using run True by (simp add: parse_num_process_def)
      then show ?thesis by (intro exI [of _ 1] exI [of _ "num_queue c * 1"]) simp
    next
      case (Some s)
      define n where "n = (ucast (ucast (setting_int s) :: u8) :: u16)"
      have "d = c\<lparr>num_process := n, tot_queue_num := num_queue c * n\<rparr>" using run True Some by (simp add: parse_num_process_def n_def)
      then show ?thesis using u unfolding n_def by blast
    qed
  qed
qed

lemma accept_process_numa:
  assumes "parse_process_numa E c = Some (0, d)" and "length (process_numa c) = protocol_stack_max"
  shows "\<exists>a. d = c\<lparr>process_numa := a\<rparr> \<and> length a = protocol_stack_max"
proof (cases "config_lookup E ''process_numa''")
  case None
  then have "d = c" using assms by (simp add: parse_process_numa_def)
  then show ?thesis using assms(2) by (intro exI [of _ "process_numa c"]) simp
next
  case (Some s)
  obtain args n a where s: "separate_str_to_array args protocol_stack_max (int max_numa_nodes) = Some (n, a)" "d = c\<lparr>process_numa := a\<rparr>"
    using assms(1) Some by (auto simp: parse_process_numa_def einval_def bind_eq_Some_conv split: option.splits if_splits)
  have "length a = protocol_stack_max"
    using separate_loop_ok [OF s(1) [unfolded separate_str_to_array_def] refl] by (simp add: loop_ok_def protocol_stack_max_def max_numa_nodes_def)
  then show ?thesis using s(2) by blast
qed

lemma accept_process_index:
  assumes "parse_process_index E c = Some (0, d)"
  shows "\<exists>i. d = c\<lparr>process_idx := i\<rparr> \<and> (use_ltran c = 0 \<longrightarrow> (is_primary c \<noteq> 0 \<longrightarrow> i = 0) \<and> (is_primary c = 0 \<and> i = 0 \<longrightarrow> num_process c = 1))"
proof (cases "use_ltran c = 0")
  case False
  then have "d = c" using assms by (simp add: parse_process_index_def)
  then show ?thesis using False by (intro exI [of _ "process_idx c"]) simp
next
  case True
  then show ?thesis using assms
    by (cases "config_lookup E ''process_idx''") (auto simp: parse_process_index_def Let_def einval_def split: if_splits)
qed

lemma accept_slave_mac:
  assumes "parse_bond4_slave_mac E c = Some (0, d)" and l: "length (bond4_slave1_mac_addr c) = 6" "length (bond4_slave2_mac_addr c) = 6"
  shows "\<exists>m n. d = c\<lparr>bond4_slave1_mac_addr := m, bond4_slave2_mac_addr := n\<rparr> \<and> length m = 6 \<and> length n = 6"
proof -
  consider "d = c" | s t where "use_bond4 c" "config_lookup E ''slave_mac1'' = Some s" "setting_string s \<noteq> None"
      "config_lookup E ''slave_mac2'' = Some t" "setting_string t \<noteq> None"
    using assms(1) by (auto simp: parse_bond4_slave_mac_def einval_def split: option.splits if_splits)
  then show ?thesis
  proof cases
    case 1
    then show ?thesis using l by - (rule exI [of _ "bond4_slave1_mac_addr c"], rule exI [of _ "bond4_slave2_mac_addr c"], simp)
  next
    case 2
    then obtain x y where xy: "setting_string s = Some x" "setting_string t = Some y" by auto
    obtain r1 m where m: "str_to_eth_addr E x (bond4_slave1_mac_addr c) = (r1, m)" by (rule prod.exhaust)
    obtain r2 n where n: "str_to_eth_addr E y (bond4_slave2_mac_addr c) = (r2, n)" by (rule prod.exhaust)
    have "d = c\<lparr>bond4_slave1_mac_addr := m, bond4_slave2_mac_addr := n\<rparr>"
      using assms(1) 2 xy m n by (simp add: parse_bond4_slave_mac_def Let_def split: if_splits cong del: if_weak_cong)
    then show ?thesis using eth_addr_length [OF m l(1)] eth_addr_length [OF n l(2)] by blast
  qed
qed
section \<open>The accepted configuration\<close>

text \<open>What the rest of lstack relies on.\<close>

definition process_ok :: "cfg_params \<Rightarrow> bool" where
  "process_ok d \<longleftrightarrow> length (process_numa d) = protocol_stack_max \<and>
     (use_ltran d = 0 \<longrightarrow> unat (num_process d) < 256 \<and> tot_queue_num d = num_queue d * num_process d \<and>
        (is_primary d \<noteq> 0 \<longrightarrow> process_idx d = 0) \<and> (is_primary d = 0 \<and> process_idx d = 0 \<longrightarrow> num_process d = 1)) \<and>
     (lstack_kni_switch d \<longrightarrow> use_ltran d = 0 \<and> is_primary d \<noteq> 0) \<and>
     (tuple_filter d \<longrightarrow> use_ltran d = 0 \<and> \<not> listen_shadow d)"

definition addrs_ok :: "cfg_params \<Rightarrow> bool" where
  "addrs_ok d \<longleftrightarrow> host_addr d \<noteq> inaddr_none \<and> gateway_addr d \<noteq> inaddr_none \<and> netmask d \<noteq> inaddr_none \<and>
     is_mask (netmask d) \<and>
     length (eth_addr d) = 6 \<and> length (bond4_slave1_mac_addr d) = 6 \<and> length (bond4_slave2_mac_addr d) = 6"

definition numbers_ok :: "cfg_params \<Rightarrow> bool" where
  "numbers_ok d \<longleftrightarrow> unat (use_ltran d) \<le> 1 \<and> unat (low_power_mod d) \<le> 1 \<and>
     1 \<le> unat (tcp_conn_count d) \<and> unat (tcp_conn_count d) \<le> 1500 \<and>
     1 \<le> unat (cfg_send_ring_size d) \<and> unat (cfg_send_ring_size d) \<le> 2048 \<and>
     (\<forall>n \<in> {mbuf_count_per_conn d, read_connect_number d, rpc_number d, nic_read_number d}. 1 \<le> unat n \<and> unat n < 2 ^ 31)"

text \<open>The arrays not yet parsed have their size.\<close>

definition arrays_ok :: "cfg_params \<Rightarrow> bool" where
  "arrays_ok d \<longleftrightarrow> length (app_exclude_cpus d) = cfg_max_cpus \<and> length (process_numa d) = protocol_stack_max"

definition stack_cpus_ok :: "cfg_params \<Rightarrow> bool" where
  "stack_cpus_ok d \<longleftrightarrow> 1 \<le> unat (num_cpu d) \<and>
     (if seperate_send_recv d
      then unat (num_cpu d) \<le> 256 \<and> cpu_array (num_cpu d) (send_cpus d) \<and> cpu_array (num_cpu d) (recv_cpus d) \<and> num_queue d = num_cpu d * 2
      else cpu_array (num_cpu d) (cpus d) \<and> num_queue d = num_cpu d)"

definition lstack_config_ok :: "cfg_params \<Rightarrow> bool" where
  "lstack_config_ok d \<longleftrightarrow> argv_fits (lstack_argv d) (lstack_argc d) \<and> stack_cpus_ok d \<and> cpu_array (app_exclude_num_cpu d) (app_exclude_cpus d) \<and> process_ok d \<and> addrs_ok d \<and> numbers_ok d \<and>
     (\<exists>p. reg_socket_filename d = gazelle_run_dir @ p @ gazelle_reg_sock_filename \<and> (p = [] \<or> filename_check (Some p) = 0))"

lemma tbl_step:
  "run_config_tbl E ((k, f) # ps) c = Some (0, d) \<Longrightarrow> \<exists>c'. f E c = Some (0, c') \<and> run_config_tbl E ps c' = Some (0, d)"
  by (auto simp: bind_eq_Some_conv split: if_splits)

lemma tbl_config_ok:
  assumes j: "joins E" and run: "run_config_tbl E g_config_tbl g_config_params = Some (0, d)"
  shows "lstack_config_ok d"
proof -
  obtain c1 c2 c3 c4 c5 c6 c7 c8 c9 c10 c11 c12 c13 c14 c15 c16 c17 c18 c19 c20 c21 c22 c23 c24 c25 c26 c27 c28 c29 c30 where p:
      "parse_host_addr E g_config_params = Some (0, c1)"
      "parse_gateway_addr E c1 = Some (0, c2)"
      "parse_mask_addr E c2 = Some (0, c3)"
      "parse_use_ltran E c3 = Some (0, c4)"
      "parse_devices E c4 = Some (0, c5)"
      "parse_dpdk_args E c5 = Some (0, c6)"
      "parse_seperate_sendrecv_args E c6 = Some (0, c7)"
      "parse_stack_cpu_number E c7 = Some (0, c8)"
      "parse_low_power_mode E c8 = Some (0, c9)"
      "lstack_parse_kni_switch E c9 = Some (0, c10)"
      "parse_listen_shadow E c10 = Some (0, c11)"
      "parse_app_bind_numa E c11 = Some (0, c12)"
      "parse_app_exclude_cpus E c12 = Some (0, c13)"
      "parse_main_thread_affinity E c13 = Some (0, c14)"
      "lstack_parse_unix_prefix E c14 = Some (0, c15)"
      "parse_tcp_conn_count E c15 = Some (0, c16)"
      "parse_mbuf_count_per_conn E c16 = Some (0, c17)"
      "parse_read_connect_number E c17 = Some (0, c18)"
      "parse_rpc_number E c18 = Some (0, c19)"
      "parse_nic_read_number E c19 = Some (0, c20)"
      "parse_send_ring_size E c20 = Some (0, c21)"
      "parse_expand_send_ring E c21 = Some (0, c22)"
      "parse_num_process E c22 = Some (0, c23)"
      "parse_process_numa E c23 = Some (0, c24)"
      "parse_process_index E c24 = Some (0, c25)"
      "parse_tuple_filter E c25 = Some (0, c26)"
      "parse_use_bond4 E c26 = Some (0, c27)"
      "parse_bond4_slave_mac E c27 = Some (0, c28)"
      "parse_use_sockmap E c28 = Some (0, c29)"
      "parse_udp_enable E c29 = Some (0, c30)"
      "run_config_tbl E [] c30 = Some (0, d)"
    using run unfolding g_config_tbl_def
    by - ((drule tbl_step, elim exE conjE)+, (rule that; assumption))
  note f = accept_addrs(1) [OF p(1)] accept_addrs(2) [OF p(2)] accept_addrs(3) [OF p(3)] accept_use_ltran [OF p(4)]
  have c4: "addrs_ok c4" "unat (use_ltran c4) \<le> 1" "arrays_ok c4"
    using f by - (elim exE conjE, simp add: g_config_params_def addrs_ok_def arrays_ok_def)+
  then have "length (eth_addr c4) = 6" by (simp add: addrs_ok_def)
  note f = accept_devices [OF p(5) this] accept_dpdk_args [OF p(6)] accept_bool_args(5) [OF p(7)]
  have c7: "addrs_ok c7" "unat (use_ltran c7) \<le> 1" "arrays_ok c7" "argv_fits (lstack_argv c7) (lstack_argc c7)"
    using f c4 by - (elim exE conjE, simp add: addrs_ok_def arrays_ok_def)+
  note f = accept_cpu_number [OF p(8) c7(4)] accept_low_power [OF p(9)]
  have c9: "addrs_ok c9" "unat (use_ltran c9) \<le> 1" "arrays_ok c9" "argv_fits (lstack_argv c9) (lstack_argc c9)" "stack_cpus_ok c9"
    "unat (low_power_mod c9) \<le> 1"
    using f c7 by - (elim exE conjE, simp add: addrs_ok_def arrays_ok_def stack_cpus_ok_def)+
  have "length (app_exclude_cpus c12) = cfg_max_cpus"
    using accept_kni_switch [OF p(10)] accept_bool_args(3) [OF p(11)] accept_bool_args(1) [OF p(12)] c9(3)
    by (elim exE conjE) (simp add: arrays_ok_def)
  note f = accept_kni_switch [OF p(10)] accept_bool_args(3) [OF p(11)] accept_bool_args(1) [OF p(12)] accept_exclude [OF p(13) this]
    accept_bool_args(4) [OF p(14)]
  have c14: "addrs_ok c14" "unat (use_ltran c14) \<le> 1" "length (process_numa c14) = protocol_stack_max"
    "argv_fits (lstack_argv c14) (lstack_argc c14)" "stack_cpus_ok c14" "unat (low_power_mod c14) \<le> 1"
    "cpu_array (app_exclude_num_cpu c14) (app_exclude_cpus c14)" "lstack_kni_switch c14 \<longrightarrow> use_ltran c14 = 0 \<and> is_primary c14 \<noteq> 0"
    using f c9 by - (elim exE conjE, simp add: addrs_ok_def arrays_ok_def stack_cpus_ok_def)+
  obtain u where u: "c15 = c14\<lparr>reg_socket_filename := gazelle_run_dir @ u @ gazelle_reg_sock_filename\<rparr>" "u = [] \<or> filename_check (Some u) = 0"
    using accept_unix_prefix [OF p(15) j] by blast
  define name where "name = gazelle_run_dir @ u @ gazelle_reg_sock_filename"
  note u = u(1) [folded name_def] u(2)
  note f = accept_tcp_conn_count [OF p(16)] accept_counts(1) [OF p(17)] accept_counts(2) [OF p(18)]
    accept_counts(3) [OF p(19)] accept_counts(4) [OF p(20)] accept_send_ring_size [OF p(21)] accept_bool_args(2) [OF p(22)]
  have c22: "addrs_ok c22" "numbers_ok c22" "length (process_numa c22) = protocol_stack_max"
    "argv_fits (lstack_argv c22) (lstack_argc c22)" "stack_cpus_ok c22" "reg_socket_filename c22 = name"
    "cpu_array (app_exclude_num_cpu c22) (app_exclude_cpus c22)" "lstack_kni_switch c22 \<longrightarrow> use_ltran c22 = 0 \<and> is_primary c22 \<noteq> 0"
    using f u c14 by - (elim exE conjE, simp add: addrs_ok_def stack_cpus_ok_def numbers_ok_def)+
  have "length (process_numa c23) = protocol_stack_max" using accept_num_process [OF p(23)] c22(3) by (elim exE conjE) simp
  note f = accept_num_process [OF p(23)] accept_process_numa [OF p(24) this] accept_process_index [OF p(25)] accept_tuple_filter [OF p(26)]
    accept_bool_args(7) [OF p(27)]
  have c27: "addrs_ok c27" "numbers_ok c27" "process_ok c27"
    "argv_fits (lstack_argv c27) (lstack_argc c27)" "stack_cpus_ok c27" "reg_socket_filename c27 = name"
    "cpu_array (app_exclude_num_cpu c27) (app_exclude_cpus c27)"
    using f c22 by - (elim exE conjE, simp add: addrs_ok_def stack_cpus_ok_def numbers_ok_def process_ok_def)+
  then have "length (bond4_slave1_mac_addr c27) = 6" "length (bond4_slave2_mac_addr c27) = 6" by (simp_all add: addrs_ok_def)
  note f = accept_slave_mac [OF p(28) this] accept_bool_args(8) [OF p(29)] accept_bool_args(6) [OF p(30)]
  have "addrs_ok c30" "numbers_ok c30" "process_ok c30" "argv_fits (lstack_argv c30) (lstack_argc c30)" "stack_cpus_ok c30"
    "reg_socket_filename c30 = name" "cpu_array (app_exclude_num_cpu c30) (app_exclude_cpus c30)"
    using f c27 by - (elim exE conjE, simp add: addrs_ok_def stack_cpus_ok_def numbers_ok_def process_ok_def)+
  moreover have "d = c30" using p(31) by simp
  ultimately show ?thesis using u(2) unfolding lstack_config_ok_def name_def by blast
qed
section \<open>A file to evaluate on\<close>

definition str_setting :: "string \<Rightarrow> cfg_setting" where
  "str_setting s = \<lparr>setting_string = Some s, setting_int = 0, setting_elems = []\<rparr>"

definition int_setting :: "int \<Rightarrow> cfg_setting" where
  "int_setting n = \<lparr>setting_string = None, setting_int = word_of_int n, setting_elems = []\<rparr>"

definition demo_file :: "string list \<Rightarrow> (string \<times> cfg_setting) list" where
  "demo_file args =
    [(''host_addr'', str_setting ''192.168.1.10''), (''gateway_addr'', str_setting ''192.168.1.1''), (''mask_addr'', str_setting ''255.255.255.0''),
     (''use_ltran'', int_setting 0), (''devices'', str_setting ''aa:bb:cc:dd:ee:ff''),
     (''dpdk_args'', \<lparr>setting_string = None, setting_int = 0, setting_elems = map Some args\<rparr>),
     (''num_cpus'', str_setting ''2,3''), (''kni_switch'', int_setting 1), (''tuple_filter'', int_setting 1), (''process_idx'', int_setting 1)]"

definition demo_addr :: "string \<Rightarrow> u32" where
  "demo_addr s = (if s = ''255.255.255.0'' then 0x00ffffff else 0x0a01a8c0)"

definition demo_lcfg :: "string list \<Rightarrow> lcfg_env" where
  "demo_lcfg args =
    \<lparr>config_lookup = map_of (demo_file args), inet_addr = demo_addr, scan_mac = (\<lambda>_. [0xaa, 0xbb, 0xcc, 0xdd, 0xee, 0xff]),
     calloc_argv = True, calloc_path = True, dup_ok = (\<lambda>_. True), format_s = (\<lambda>n s. Some s), copy_s = (\<lambda>n s. (0, s)),
     ncopy_s = (\<lambda>n s. Some s), ncat_s = (\<lambda>n x y. Some (x @ y)), pid_text = ''77'', hex_text = (\<lambda>v. ''0'')\<rparr>"

lemma demo_joins: "joins (demo_lcfg args)"
  by (simp add: joins_def demo_lcfg_def)

definition demo_conf :: "string \<Rightarrow> bool + lcfg_env" where
  "demo_conf path = (if path = default_conf_file then Inr (demo_lcfg [''--proc-type'', ''secondary'']) else Inl False)"

lemma demo_lcfg_accepted:
  "map_option fst (cfg_init (demo_lcfg []) demo_conf None g_config_params) = Some 0"
  by code_simp
section \<open>Properties\<close>

text \<open>C18: If the parse of a configuration file stays inside its arrays (for some files it does not, see C40) and \<open>cfg_init\<close>
  returns 0, the configuration is one the rest of the program may rely on: the array of DPDK arguments is allocated and
  holds the arguments it counts; there is at least one stack thread, each with a CPU below the limit (one to
  send and one to receive when these are separate); the queues of a process are as many as its CPUs, twice as many when
  sending and receiving are separate; without ltran the number of processes is below 256 and the total number of queues is the
  16-bit product of the two numbers (0 processes pass, see \<open>num_process_is_cut\<close>); the addresses and the
  mask are well-formed, every number is in its range, the process index fits the role of the process, KNI and
  tuple filter are on only where they are allowed, and the name of ltran's socket is built from
  a checked prefix. The formatting functions of the C library are taken to return what they are documented to (\<open>joins\<close>).
\<close>

theorem accepted_lstack_config_ok:
  assumes "cfg_init S file enval g_config_params = Some (0, d)" and "\<forall>path E. file path = Inr E \<longrightarrow> joins E"
  shows "lstack_config_ok d"
proof -
  obtain path E where "file path = Inr E" "run_config_tbl E g_config_tbl g_config_params = Some (0, d)"
    using assms(1) by (auto simp: cfg_init_def parse_conf_file_def einval_def split: if_splits option.splits sum.splits)
  then show ?thesis using assms(2) by (intro tbl_config_ok) auto
qed

lemma accepted_lstack_config_ok_witness:
  "\<exists>d. cfg_init (demo_lcfg []) demo_conf None g_config_params = Some (0, d) \<and> lstack_config_ok d"
proof -
  obtain d where d: "cfg_init (demo_lcfg []) demo_conf None g_config_params = Some (0, d)"
    using demo_lcfg_accepted by auto
  have "\<forall>path E. demo_conf path = Inr E \<longrightarrow> joins E" using demo_joins by (auto simp: demo_conf_def)
  from accepted_lstack_config_ok [OF d this] show ?thesis using d by blast
qed

text \<open>A whole list of arguments is copied behind the program's name.\<close>

lemma copy_elems_all:
  "(\<And>s. dup_ok E s) \<Longrightarrow> length pre = i + 1 \<Longrightarrow> length args \<le> length rest \<Longrightarrow>
     \<exists>p'. copy_elems E i (map Some args) (pre @ rest, p) = (True, pre @ map Some args @ drop (length args) rest, p')"
proof (induction args arbitrary: i pre rest p)
  case (Cons a args)
  obtain r rest' where rest: "rest = r # rest'" using Cons.prems(3) by (cases rest) auto
  have upd: "(pre @ r # rest')[Suc i := x] = pre @ x # rest'" for x using Cons.prems(2) by (simp add: list_update_append)
  from Cons.IH [of "pre @ [Some a]" "i + 1" rest' "if a = ''primary'' then 1 else p"] Cons.prems show ?case
    by (simp add: strdup_def upd rest)
qed simp

lemma find_param_none: "list_all (\<lambda>s. \<not> starts_with param s) args \<Longrightarrow> find_param param i (map Some args) = Some (- 1)"
  by (induction args arbitrary: i) auto

definition corelist_arg :: "string \<Rightarrow> bool" where
  "corelist_arg s \<longleftrightarrow> list_ex (\<lambda>option. starts_with option s) [opt_bind_corelist, ''--lcores'', ''-c'', ''-s'', ''-S'']"

lemma corelist_in_none: "list_all (\<lambda>s. \<not> corelist_arg s) args \<Longrightarrow> corelist_in (map Some args) = Some False"
  by (induction args) (auto simp: corelist_arg_def)

lemma add_corelist_overflows:
  assumes "lstack_argv c = Some argv" and "length argv = max_reg_args" and "argv_entries (lstack_argc c) argv = map Some args"
    and "list_all (\<lambda>s. \<not> corelist_arg s) args" and "31 \<le> lstack_argc c"
  shows "add_corelist E cpu c = None"
proof -
  have l: "list_all (\<lambda>s. \<not> starts_with opt_bind_corelist s) args"
    using assms(4) by (auto simp: list_all_iff corelist_arg_def)
  have "have_corelist_arg (lstack_argc c) (lstack_argv c) = Some False"
    using assms corelist_in_none [OF assms(4)] by (simp add: have_corelist_arg_def)
  moreover have "get_param_idx (lstack_argc c) (lstack_argv c) opt_bind_corelist = Some (- 1)"
    using assms find_param_none [OF l] by (simp add: get_param_idx_def)
  ultimately show ?thesis
    using assms(1,2,5) by (auto simp: add_corelist_def push_arg_def max_reg_args_def bind_eq_None_conv split: option.splits if_splits)
qed
text \<open>C40: The room reserved in the array of DPDK arguments is not checked where it is used: a file with thirty or thirty-one arguments,
  none of them a CPU list, is accepted by \<open>parse_dpdk_args\<close>, and the parser of the CPUs then writes its option and the list behind the
  thirty-two entries.
\<close>

theorem full_dpdk_args_overflow:
  assumes "config_lookup E ''dpdk_args'' = Some s" and "setting_elems s = map Some args" and "length args = 30 \<or> length args = 31"
    and "\<forall>a \<in> set args. \<not> corelist_arg a \<and> \<not> starts_with opt_file_prefix a \<and> \<not> starts_with opt_socket_mem a \<and> \<not> starts_with opt_base_virtaddr a"
    and "calloc_argv E" and "\<And>x. dup_ok E x" and "format_s E path_max (''gazelle_'' @ pid_text E) = Some t"
    and "use_ltran c = 0" and "\<not> seperate_send_recv c" and "config_string E ''num_cpus'' = Some cpu"
  shows "\<exists>d. parse_dpdk_args E c = Some (0, d) \<and> parse_stack_cpu_number E d = None"
proof -
  define all where "all = ''lstack'' # args"
  define argv where "argv = map Some all @ replicate (31 - length args) None"
  have len: "length argv = max_reg_args" "length all = length args + 1"
    using assms(3) by (auto simp: argv_def all_def max_reg_args_def)
  have entries: "argv_entries (int (length args) + 1) argv = map Some all"
    using len assms(3) by (simp add: argv_entries_def argv_def nat_add_distrib max_reg_args_def)
  have "(replicate max_reg_args None)[0 := Some ''lstack''] = [Some ''lstack''] @ replicate 31 (None :: string option)"
    by (simp add: max_reg_args_def numeral_eq_Suc)
  then obtain p where copied: "copy_elems E 0 (map Some args) ((replicate max_reg_args None)[0 := Some ''lstack''], is_primary c) = (True, argv, p)"
    using copy_elems_all [of E "[Some ''lstack'']" 0 args "replicate 31 None" "is_primary c"] assms(3,6) by (auto simp: argv_def all_def)
  have "\<not> starts_with o' ''lstack''" if "o' \<in> {opt_file_prefix, opt_socket_mem, opt_base_virtaddr}" for o'
    using that by (auto simp: starts_with_def opt_file_prefix_def opt_socket_mem_def opt_base_virtaddr_def)
  then have "list_all (\<lambda>s. \<not> starts_with o' s) all" if "o' \<in> {opt_file_prefix, opt_socket_mem, opt_base_virtaddr}" for o'
    using that assms(4) by (auto simp: all_def list_all_iff)
  then have idx: "get_param_idx (int (length args) + 1) (Some argv) o' = Some (- 1)"
    if "o' \<in> {opt_file_prefix, opt_socket_mem, opt_base_virtaddr}" for o'
    using that entries find_param_none by (simp add: get_param_idx_def)
  define c1 where "c1 = c\<lparr>lstack_argc := int (length args), lstack_argv := Some argv, is_primary := p, lstack_argc := int (length args) + 1\<rparr>"
  define c2 where "c2 = c1\<lparr>sec_attach_arg := (sec_attach_arg c1)\<lparr>attach_prefix := t\<rparr>\<rparr>"
  define d where "d = c2\<lparr>sec_attach_arg := (sec_attach_arg c2)\<lparr>attach_base := 0\<rparr>\<rparr>"
  have "turn_file_prefix E (int (length args) + 1) argv c1 = Some (None, c2)"
    using idx assms(7) by (simp add: turn_file_prefix_def c2_def)
  moreover have "turn_socket_mem E (int (length args) + 1) argv c2 = Some (None, c2)"
    using idx assms(8) by (simp add: turn_socket_mem_def c2_def c1_def)
  moreover have "turn_base_virtaddr (int (length args) + 1) argv c2 = Some (None, d)"
    using idx by (simp add: turn_base_virtaddr_def d_def)
  ultimately have turned: "turn_args_to_config E (int (length args) + 1) (Some argv) c1 = Some (0, d)"
    by (simp add: turn_args_to_config_def)
  have small: "args \<noteq> []" "\<not> max_reg_args \<le> length args" using assms(3) by (auto simp: max_reg_args_def)
  have "parse_dpdk_args E c = Some (0, d)"
    using assms(1,2,5,6) copied turned small by (simp add: parse_dpdk_args_def Let_def strdup_def c1_def cong del: if_weak_cong)
  moreover have "add_corelist E cpu d = None"
  proof (rule add_corelist_overflows)
    show "lstack_argv d = Some argv" by (simp add: d_def c2_def c1_def)
    show "argv_entries (lstack_argc d) argv = map Some all" using entries by (simp add: d_def c2_def c1_def)
    show "list_all (\<lambda>s. \<not> corelist_arg s) all"
      using assms(4) by (simp add: all_def list_all_iff corelist_arg_def starts_with_def opt_bind_corelist_def)
    show "31 \<le> lstack_argc d" using assms(3) by (auto simp: d_def c2_def c1_def)
  qed (rule len(1))
  moreover have "\<not> seperate_send_recv d" using assms(9) by (simp add: d_def c2_def c1_def)
  ultimately show ?thesis using assms(10) by (simp add: parse_stack_cpu_number_def)
qed

lemma full_dpdk_args_overflow_witness:
  "\<exists>d. parse_dpdk_args (demo_lcfg (replicate 31 ''-n'')) g_config_params = Some (0, d) \<and>
     parse_stack_cpu_number (demo_lcfg (replicate 31 ''-n'')) d = None"
proof (rule full_dpdk_args_overflow [where args = "replicate 31 ''-n''"])
  show "config_lookup (demo_lcfg (replicate 31 ''-n'')) ''dpdk_args'' =
      Some \<lparr>setting_string = None, setting_int = 0, setting_elems = map Some (replicate 31 ''-n'')\<rparr>"
    by (simp add: demo_lcfg_def demo_file_def)
  show "config_string (demo_lcfg (replicate 31 ''-n'')) ''num_cpus'' = Some ''2,3''"
    by (simp add: config_string_def demo_lcfg_def demo_file_def str_setting_def)
qed (auto simp: corelist_arg_def starts_with_def opt_bind_corelist_def opt_file_prefix_def opt_socket_mem_def opt_base_virtaddr_def
    demo_lcfg_def g_config_params_def)
text \<open>The CPUs of the stack threads and those the file keeps from the application.\<close>

definition used_cpus :: "cfg_params \<Rightarrow> u32 set" where
  "used_cpus c =
     (if seperate_send_recv c then set (take (unat (num_cpu c)) (send_cpus c)) \<union> set (take (unat (num_cpu c)) (recv_cpus c))
      else set (take (unat (num_cpu c)) (cpus c))) \<union>
     set (take (unat (app_exclude_num_cpu c)) (app_exclude_cpus c))"

lemma cpu_set_set: "set (cpu_set cpu S) = (if cpu < 1024 then insert cpu (set S) else set S)"
  by (simp add: cpu_set_def)

lemma set_fold_adds:
  assumes "\<And>x S. x \<in> set xs \<Longrightarrow> set (f x S) = g x \<union> set S"
  shows "set (fold f xs S) = (\<Union>x\<in>set xs. g x) \<union> set S"
  using assms by (induction xs arbitrary: S) auto

lemma taken_cpus: "cpu_array n a \<Longrightarrow> (\<Union>i \<in> set [0..<unat n]. {a ! i}) = set (take (unat n) a)"
  by (simp add: cpu_array_def flip: nth_image) (auto simp: atLeast0LessThan)

lemma small_cpu: "cpu_array n a \<Longrightarrow> i < unat n \<Longrightarrow> a ! i < 1024"
proof -
  assume "cpu_array n a" "i < unat n"
  then have "uint (a ! i) < 512" by (simp add: cpu_array_def cfg_max_cpus_def)
  then show "a ! i < 1024" by (simp add: word_less_def)
qed

lemma set_stack_cpuset:
  assumes "stack_cpus_ok c" and "cpu_array (app_exclude_num_cpu c) (app_exclude_cpus c)"
  shows "set (stack_cpuset c) = used_cpus c"
proof -
  let ?n = "[0..<unat (num_cpu c)]"
  have ex: "set (fold (\<lambda>idx S. cpu_set (app_exclude_cpus c ! idx) S) [0..<unat (app_exclude_num_cpu c)] S) =
      set (take (unat (app_exclude_num_cpu c)) (app_exclude_cpus c)) \<union> set S" for S
    unfolding taken_cpus [OF assms(2), symmetric]
    by (rule set_fold_adds) (simp add: cpu_set_set small_cpu [OF assms(2)])
  show ?thesis
  proof (cases "seperate_send_recv c")
    case False
    then have ok: "cpu_array (num_cpu c) (cpus c)" using assms(1) by (simp add: stack_cpus_ok_def)
    have "set (fold (\<lambda>idx S. cpu_set (cpus c ! idx) S) ?n []) = set (take (unat (num_cpu c)) (cpus c)) \<union> set []"
      unfolding taken_cpus [OF ok, symmetric] by (rule set_fold_adds) (simp add: cpu_set_set small_cpu [OF ok])
    then show ?thesis using False ex by (auto simp: stack_cpuset_def used_cpus_def)
  next
    case True
    then have ok: "cpu_array (num_cpu c) (send_cpus c)" "cpu_array (num_cpu c) (recv_cpus c)" using assms(1) by (simp_all add: stack_cpus_ok_def)
    have "set (fold (\<lambda>idx S. cpu_set (recv_cpus c ! idx) (cpu_set (send_cpus c ! idx) S)) ?n []) =
        (\<Union>i \<in> set ?n. {send_cpus c ! i, recv_cpus c ! i}) \<union> set []"
      by (rule set_fold_adds) (auto simp: cpu_set_set small_cpu [OF ok(1)] small_cpu [OF ok(2)])
    also have "(\<Union>i \<in> set ?n. {send_cpus c ! i, recv_cpus c ! i}) = (\<Union>i \<in> set ?n. {send_cpus c ! i}) \<union> (\<Union>i \<in> set ?n. {recv_cpus c ! i})"
      by blast
    finally show ?thesis using True ex unfolding taken_cpus [OF ok(1)] taken_cpus [OF ok(2)] by (auto simp: stack_cpuset_def used_cpus_def)
  qed
qed

lemma set_idle_fold:
  assumes "\<forall>cpu \<in> set xs. cpu < 1024"
  shows "set (fold (\<lambda>cpu S. if cpu_isset cpu exclude then S else cpu_set cpu S) xs S) = (set xs - set exclude) \<union> set S"
  using assms
proof (induction xs arbitrary: S)
  case (Cons x xs)
  have x: "set (if cpu_isset x exclude then S else cpu_set x S) = ({x} - set exclude) \<union> set S"
    using Cons.prems by (auto simp: cpu_isset_def cpu_set_set)
  show ?case using Cons by (auto simp: x)
qed simp

lemma listed_cpus_small:
  assumes "separate_str_to_array text cpus_max_num (int cfg_max_cpus) = Some (n, l)" and "0 < n" and "cpu \<in> set (take (nat n) l)"
  shows "cpu < 1024"
proof -
  have b: "length l = cpus_max_num" "n \<le> int cpus_max_num" "\<forall>j < nat n. uint (l ! j) < 512"
    using separate_loop_ok [OF assms(1) [unfolded separate_str_to_array_def] refl] assms(2)
    by (auto simp: loop_ok_def cpus_max_num_def cfg_max_cpus_def)
  have "cpu \<in> (!) l ` {0..<nat n}" using assms(3) b(1,2) nth_image [of "nat n" l] by simp
  then obtain j where "j < nat n" "cpu = l ! j" by auto
  then have "uint cpu < 512" using b(3) by simp
  then show ?thesis by (simp add: word_less_def)
qed

text \<open>C39: With a configuration lstack has accepted, a stack leaves to the threads of the application exactly the CPUs that
  the file of its NUMA node lists, without those of the stack threads and without those the
  configuration excludes. The function fails, and leaves the set as it was, exactly when the file
  cannot be read or its text is no list of at least one CPU. Two inputs make it leave its arrays (\<open>None\<close>): a text that fills the
  buffer of 4096 bytes, and a list on which the number parser leaves the array of 256 CPUs.
\<close>

theorem idle_cpus_are_the_rest:
  assumes "lstack_config_ok c"
  shows "case cpulist_file socket_id of
      None \<Rightarrow> init_stack_numa_cpuset c cpulist_file socket_id idle0 = Some (- 1, idle0)
    | Some text \<Rightarrow>
        if length text \<ge> path_max then init_stack_numa_cpuset c cpulist_file socket_id idle0 = None
        else (case separate_str_to_array text cpus_max_num (int cfg_max_cpus) of
            None \<Rightarrow> init_stack_numa_cpuset c cpulist_file socket_id idle0 = None
          | Some (n, cpulist) \<Rightarrow>
              if n \<le> 0 then init_stack_numa_cpuset c cpulist_file socket_id idle0 = Some (- 1, idle0)
              else \<exists>idle. init_stack_numa_cpuset c cpulist_file socket_id idle0 = Some (0, idle) \<and>
                set idle = set (take (nat n) cpulist) - used_cpus c)"
proof (cases "cpulist_file socket_id")
  case None
  then show ?thesis by (simp add: init_stack_numa_cpuset_def stack_idle_cpuset_def numa_to_cpusnum_def)
next
  case listed: (Some str)
  let ?p = "separate_str_to_array str cpus_max_num (int cfg_max_cpus)"
  show ?thesis
  proof (cases "length str \<ge> path_max \<or> ?p = None")
    case True
    then show ?thesis using listed by (auto simp: init_stack_numa_cpuset_def stack_idle_cpuset_def numa_to_cpusnum_def)
  next
    case False
    then obtain n l where p: "?p = Some (n, l)" by auto
    have small: "\<not> length str \<ge> path_max" using False by simp
    then have num: "numa_to_cpusnum cpulist_file socket_id cpus_max_num = Some (n, l)" using listed p by (simp add: numa_to_cpusnum_def)
    show ?thesis
    proof (cases "n \<le> 0")
      case True
      then show ?thesis using listed small p num by (simp add: init_stack_numa_cpuset_def stack_idle_cpuset_def)
    next
      case pos: False
      let ?idle = "fold (\<lambda>cpu S. if cpu_isset cpu (stack_cpuset c) then S else cpu_set cpu S) (take (nat n) l) []"
      have "init_stack_numa_cpuset c cpulist_file socket_id idle0 = Some (0, ?idle)"
        using num pos by (simp add: init_stack_numa_cpuset_def stack_idle_cpuset_def)
      moreover have "set ?idle = set (take (nat n) l) - used_cpus c"
        using listed_cpus_small [OF p] pos assms set_stack_cpuset [of c] set_idle_fold [of "take (nat n) l" "stack_cpuset c" "[]"]
        by (simp add: lstack_config_ok_def)
      ultimately show ?thesis using listed small p pos by simp
    qed
  qed
qed

definition demo_cpus :: cfg_params where
  "demo_cpus = snd (the (cfg_init (demo_lcfg []) demo_conf None g_config_params))"

lemma demo_cpus_ok: "lstack_config_ok demo_cpus"
proof -
  obtain d where d: "cfg_init (demo_lcfg []) demo_conf None g_config_params = Some (0, d)" using demo_lcfg_accepted by auto
  then have "run_config_tbl (demo_lcfg [''--proc-type'', ''secondary'']) g_config_tbl g_config_params = Some (0, d)"
    by (simp add: cfg_init_def parse_conf_file_def demo_conf_def demo_lcfg_def)
  from tbl_config_ok [OF demo_joins this] show ?thesis using d by (simp add: demo_cpus_def)
qed

lemma demo_used: "used_cpus demo_cpus = {2, 3}"
  by code_simp

lemma demo_node: "map_option (\<lambda>(n, l). (n, take 5 l)) (separate_str_to_array ''0-4'' cpus_max_num (int cfg_max_cpus)) = Some (5, [0, 1, 2, 3, 4])"
  by code_simp

lemma idle_cpus_are_the_rest_witness:
  "\<exists>idle. init_stack_numa_cpuset demo_cpus (\<lambda>_. Some ''0-4'') 0 [] = Some (0, idle) \<and> set idle = {0, 1, 4}"
proof -
  obtain n l where n: "separate_str_to_array ''0-4'' cpus_max_num (int cfg_max_cpus) = Some (n, l)" "n = 5" "take 5 l = [0, 1, 2, 3, 4]"
    using demo_node by auto
  then obtain idle where i: "init_stack_numa_cpuset demo_cpus (\<lambda>_. Some ''0-4'') 0 [] = Some (0, idle)"
      "set idle = set (take (nat n) l) - {2, 3}"
    using idle_cpus_are_the_rest [OF demo_cpus_ok, of "\<lambda>_. Some ''0-4''" 0 "[]"] unfolding demo_used by (auto simp: path_max_def)
  then have "set idle = {0, 1, 2, 3, 4} - {2, 3}" using n(2,3) by simp
  also have "\<dots> = {0, 1, 4 :: u32}" by code_simp
  finally show ?thesis using i(1) by blast
qed

section \<open>Where values get lost\<close>

text \<open>A node with more than 256 CPUs in a range: the array on the stack of \<open>stack_idle_cpuset\<close> is too small.\<close>

lemma node_list_overflows: "init_stack_numa_cpuset c (\<lambda>_. Some ''0-256'') 0 idle = None"
proof -
  have "numa_to_cpusnum (\<lambda>_. Some ''0-256'') 0 cpus_max_num = None" by code_simp
  then show ?thesis by (simp add: init_stack_numa_cpuset_def stack_idle_cpuset_def)
qed

text \<open>256 processes are none: the number is cut to eight bits, and so is the index.\<close>

lemma num_process_is_cut:
  assumes "config_lookup E ''num_process'' = Some (int_setting 256)" and "use_ltran c = 0"
  shows "\<exists>d. parse_num_process E c = Some (0, d) \<and> num_process d = 0 \<and> tot_queue_num d = 0"
proof -
  have "(ucast (ucast (word_of_int 256 :: i32) :: u8) :: u16) = 0" by code_simp
  then show ?thesis using assms by (simp add: parse_num_process_def int_setting_def)
qed

text \<open>An option written with \<open>=\<close>, which DPDK allows, is found by its beginning; the next argument is taken for its value.\<close>

lemma joined_option_takes_next:
  assumes "format_s E path_max ''-n'' = Some ''-n''" and "lstack_argc c = 4"
  shows "map_option (\<lambda>(r, d). (r, attach_prefix (sec_attach_arg d)))
      (turn_file_prefix E 4 [Some ''lstack'', Some ''--file-prefix=a'', Some ''-n'', Some ''4''] c) = Some (None, ''-n'')"
  using assms by (simp add: turn_file_prefix_def get_param_idx_def argv_entries_def starts_with_def opt_file_prefix_def arg_at_def numeral_eq_Suc)

end
