(* ===== verification/Spec2Isabelle.thy ===== *)
theory Spec2Isabelle
  imports Ring_Threads Lockless_Threads Thread_Rpc Ltran_Forward Ltran_Param Epoll_Threads Same_Node_Ring Lstack_Life Lstack_Cfg
begin

text \<open>
  \<^bold>\<open>Gazelle\<close> is a user-space TCP/IP stack. An application loads \<open>lstack\<close>
  (\<open>src/lstack\<close>), which puts lwIP on top of DPDK and takes over the socket calls; every
  lstack process runs a few protocol stack threads. \<open>ltran\<close> (\<open>src/ltran\<close>) is a separate
  process that owns the network ports and shares them between the lstack processes of a
  machine. Both use \<open>src/common\<close>. This development models the code that moves packets,
  bytes, events and calls between these threads and processes, the tables that say where a
  packet belongs, and the configuration files.

  \<^bold>\<open>Parts, theories and code\<close>

  Paths are below \<open>src/\<close>; a definition has the name of the C function it translates, or is
  introduced in the text before it as a piece of one.

  \<^item> \<open>Gazelle_Prelude\<close>: the machine integers (\<open>u8\<close> to \<open>u64\<close>, \<open>i32\<close>), addresses, the
    collections \<open>ring_law\<close>, \<open>table_law\<close> and \<open>frame\<close> the proofs are driven by, facts on
    words used as free running counters.
  \<^item> \<open>Fifo\<close>: what a queue promises, as the locale \<open>fifo\<close>, and its runs.
  \<^item> \<open>Rte_Ring\<close>, \<open>Ring_Threads\<close>: \<open>common/dpdk_common.h\<close>. The ring of DPDK with Gazelle's four
    cursors (\<open>enqueue\<close>, \<open>dequeue\<close>, \<open>read\<close>, \<open>read_over\<close>) and the light ring between ltran and
    a stack; the latter also cut at its shared accesses between two threads.
  \<^item> \<open>Lockless_Queue\<close>, \<open>Lockless_Threads\<close>: \<open>lstack/include/lstack_lockless_queue.h\<close>. The
    intrusive queue of RPC messages, and any number of pushers against one popper, one shared
    access per step.
  \<^item> \<open>Thread_Rpc\<close>: \<open>lstack/core/lstack_thread_rpc.c\<close> and the handlers of
    \<open>lstack/core/lstack_protocol_stack.c\<close>. Messages, pools, calls, the poll of a stack thread.
  \<^item> \<open>Htable\<close>, \<open>Flow_Table\<close>, \<open>Ltran_Tables\<close>: the chained hash tables of ltran, the locale
    \<open>flow_table\<close> of what forwarding relies on, and the connection, socket and stack tables
    (\<open>ltran/ltran_tcp_conn.c\<close>, \<open>ltran_tcp_sock.c\<close>, \<open>ltran_stack.c\<close>, \<open>ltran_jhash.h\<close>).
  \<^item> \<open>Ltran_Tcp\<close>, \<open>Ltran_Flow\<close>: where a TCP packet goes, how the registration messages of the
    stacks change the tables (\<open>ltran/ltran_forward.c\<close>), aging and logout
    (\<open>ltran/ltran_timer.c\<close>); the promises about flows over time.
  \<^item> \<open>Ltran_Backup\<close>: the batch array, the backup array and the copy into a stack's ring
    (\<open>ltran/ltran_forward.c\<close>, \<open>copy_mbuf\<close> of \<open>common/dpdk_common.h\<close>).
  \<^item> \<open>Ltran_Instance\<close>: the registered processes, their address space, the control messages
    and the logout (\<open>ltran/ltran_instance.c\<close>, \<open>common/gazelle_reg_msg.h\<close>).
  \<^item> \<open>Ltran_Forward\<close>: the receiving and the sending thread, round by round, with the KNI
    (\<open>ltran/ltran_forward.c\<close>, \<open>common/dpdk_common.c\<close>).
  \<^item> \<open>Parse_Config\<close>, \<open>Ltran_Param\<close>: the shared parsing helpers
    (\<open>common/gazelle_parse_config.c\<close>) and ltran's configuration (\<open>ltran/ltran_param.c\<close>,
    \<open>ltran_config.c\<close>).
  \<^item> \<open>Lstack_Epoll\<close>, \<open>Epoll_Threads\<close>: \<open>epoll\<close> and \<open>poll\<close> over lwIP and kernel descriptors
    (\<open>lstack/api/lstack_epoll.c\<close>), first as whole calls, then \<open>lstack_epoll_wait\<close> against the
    stack threads that wake it, one shared access per step.
  \<^item> \<open>Same_Node_Ring\<close>: the byte ring between two processes of a machine
    (\<open>lstack/core/lstack_lwip.c\<close>), as whole calls and cut at its shared accesses.
  \<^item> \<open>Lstack_Pbuf\<close>, \<open>Lstack_Sock\<close>, \<open>Lstack_Recv\<close>, \<open>Lstack_Send\<close>, \<open>Lstack_Life\<close>: the data path of
    a socket (\<open>lstack/core/lstack_lwip.c\<close>): buffers and chains, the state of a socket, its
    setting up and tearing down (with \<open>create_ring\<close> of \<open>lstack/core/lstack_dpdk.c\<close>), the receive path and the send path.
  \<^item> \<open>Lstack_Cfg\<close>: lstack's configuration (\<open>lstack/core/lstack_cfg.c\<close>): the parser of each key in the
    order of \<open>g_config_tbl\<close>, the arguments built for DPDK, and the CPU sets of stacks and
    application threads.

  \<^bold>\<open>State\<close>

  A C struct is a record with the fields the modelled code uses, a pointer an address
  (\<open>addr\<close>) into a store that is a function, so that aliasing and use after free can be
  stated. Global variables are fields of a state record. A function that may follow a null or
  freed pointer, write out of bounds or not return is partial: its result is an option,
  \<open>None\<close> standing for that. Error returns are values. Integers have their width; lengths of
  arrays and strings are natural numbers.

  \<^bold>\<open>Groups of lemmas\<close>

  \<^item> \<^emph>\<open>Queues.\<close> The three-segment ring, the light ring, the lockless queue and the same-node
    ring interpret \<open>fifo\<close>: over any run what comes out is a prefix of what went in. For the
    light ring, the lockless queue and the same-node ring this is proved again for every
    interleaving of the two sides' shared accesses.
  \<^item> \<^emph>\<open>Tables.\<close> The connection and the stack table interpret \<open>flow_table\<close> (through the
    generic chained table): a bound flow stays where it is until its key is unbound. From it
    follow flow affinity, connect and disconnect round trips, and the lifetime of entries.
  \<^item> \<^emph>\<open>Invariants by rule induction\<close> over the steps or calls of a component: RPC queues and
    pools, the instance table under all control messages, epoll's lists, the packets of a
    stack in ltran, the receive and the send side of a socket.
  \<^item> \<^emph>\<open>Order.\<close> Packets of a stack leave ltran in the order of their arrival; the bytes of a
    socket are read in the order received and sent in the order written, over any run of
    the application's and the stack thread's calls, each taken as a whole (what can happen inside \<open>app_direct_write\<close> is
    shown apart); a poll of RPC messages is characterised message by message (\<open>served_ok\<close>).
  \<^item> \<^emph>\<open>Faults.\<close> Where the code breaks its promise a lemma runs the model into it: leaks, double
    frees, dangling pointers, lost messages and overflowing arrays.

  \<^bold>\<open>Parameters and hypotheses\<close>

  Code that is not in the repository is an argument of the definitions: DPDK's copy macros
  (\<open>ring_elems\<close>, with \<open>elems_ok\<close>: what is stored in a slot is what is read back), \<open>rte_jhash\<close>,
  \<open>rte_eth_tx_burst\<close> and \<open>rx_burst\<close>, allocators (which may fail), lwIP's buffer functions
  (\<open>lwip_pbuf\<close>, with \<open>lwip_ok\<close>: the documented effect of \<open>pbuf_free\<close>, \<open>pbuf_take_at\<close>,
  \<open>pbuf_copy_partial\<close> and of splitting a chain), its mailboxes (\<open>mailbox_ok\<close>), the packet pool
  (\<open>pool_ok\<close>: buffers handed out are distinct and not in use), \<open>rte_ring_create\<close>
  (\<open>rings_ok\<close>: a ring it returns is empty), the result of \<open>pthread_spin_trylock\<close> (any, at each write), libconfig, securec and the kernel's \<open>epoll\<close>. Each hypothesis is instantiated by a concrete function
  in a section \<open>... to evaluate on\<close>, and the witnesses run on it.

  \<^bold>\<open>Bounds, termination and fuel\<close>

  Loops over arrays are structural recursions or \<open>function\<close>s with a measure. Walks along
  pointers, which end only if the list has no cycle, and retry loops are
  \<open>partial_function (option)\<close>; the lemmas prove that they return wherever the invariant holds.
  \<open>va_search\<close> ends because each
  round moves the address up by a step and one round past the end of the range is the last; \<open>read_loop\<close> because every
  round takes a byte from the request or a packet from the ring; \<open>hand_back\<close> and \<open>free_back\<close>
  because a ring gives a burst of 0 when it is empty. No definition carries fuel.
  The interleaving models assume sequentially consistent accesses, which the code's barriers and
  atomics are there to give.

  \<^bold>\<open>Not modelled\<close>

  DPDK and device set-up (\<open>lstack_dpdk.c\<close> but for \<open>create_ring\<close>, \<open>lstack_vdev.c\<close>, \<open>ltran_ethdev.c\<close>, the flow rules
  of \<open>lstack_ethdev.c\<close>), the socket and signal plumbing of the two control planes, the main loop and the start of the stack threads and their
  broadcasts over stacks (\<open>lstack_protocol_stack.c\<close>), the wrappers of the libc calls (\<open>lstack_wrap.c\<close>), program
  start (\<open>main.c\<close>, \<open>lstack_init.c\<close>, \<open>lstack_fork.c\<close>), statistics and the debugging commands
  (\<open>ltran_dfx.c\<close>, \<open>ltran_stat.c\<close>, \<open>ltran_monitor.c\<close>, \<open>lstack_stack_stat.c\<close>): configuration calls
  into libraries, printing and counters. lwIP and DPDK are not in the repository. Weak memory
  orders are not modelled, nor are logging and time measurements.
\<close>

end
